(* ===== verification/Prelude.thy ===== *)
theory Prelude
  imports Main "HOL-Library.Word"
begin

unbundle bit_operations_syntax

text \<open>
  The vocabulary all components share: the machine types of the target (a 64-bit
  \<open>size_t\<close>, 32-bit \<open>int\<close>), the ways an operation of the C++ code can fail to return
  a value (\<open>fault\<close>), results of fallible operations (\<open>'a res\<close>), and the generic facts on
  masks, list updates and association lists the component theories use.
\<close>

section \<open>Machine types and results\<close>

type_synonym u64 = "64 word"
type_synonym u32 = "32 word"
type_synonym u8 = "8 word"

text \<open>
  The exceptions the code throws, the undefined behaviour it can run into (C++ gives such
  an execution no meaning; the model makes it a value, so that its absence can be stated),
  and a loop that never returns.
\<close>

datatype exn = Runtime_Error string | Invalid_Argument string | Out_Of_Range string | Length_Error

datatype ub = Out_Of_Bounds | Null_Deref | Signed_Overflow | Empty_Container | Bad_Cast | Dead_Object

datatype fault = Throw exn | UB ub | Diverges

type_synonym 'a res = "fault + 'a"

primrec res_bind :: "'a res \<Rightarrow> ('a \<Rightarrow> 'b res) \<Rightarrow> 'b res" where
  "res_bind (Inl e) f = Inl e"
| "res_bind (Inr x) f = f x"

primrec returns :: "'a res \<Rightarrow> bool" where
  "returns (Inl e) = False"
| "returns (Inr x) = True"

lemma res_bind_Inr_iff: "res_bind r f = Inr y \<longleftrightarrow> (\<exists>x. r = Inr x \<and> f x = Inr y)"
  by (cases r) auto

lemma returns_iff: "returns r \<longleftrightarrow> (\<exists>x. r = Inr x)"
  by (cases r) auto

lemma res_bind_assoc: "res_bind (res_bind r f) g = res_bind r (\<lambda>x. res_bind (f x) g)"
  by (cases r) auto

section \<open>Collections of rules\<close>

text \<open>
  \<open>ring_simps\<close> collects the index arithmetic of power-of-two tables and ring buffers;
  \<open>model_defs\<close> the definitions a closed instance is evaluated with.
\<close>

named_theorems ring_simps
named_theorems model_defs

section \<open>Power-of-two sizes and masks\<close>

text \<open>
  The tables and rings of the program have a size \<open>n\<close> with \<open>n & (n - 1) == 0\<close> and reduce
  a hash or a running counter to an index with \<open>& (n - 1)\<close>. On 64-bit words that test holds
  exactly of the powers of two, and the masked value is the remainder.
\<close>

lemma u64_lt: "unat x < 2 ^ 64" for x :: u64
  by (rule order_less_le_trans [OF unsigned_less]) simp

lemma unat_of_nat_u64: "n < 2 ^ 64 \<Longrightarrow> unat (of_nat n :: u64) = n"
  by (simp add: unsigned_of_nat take_bit_nat_eq_self)

lemma pow2_test_nat: "0 < x \<Longrightarrow> x AND (x - 1) = 0 \<Longrightarrow> \<exists>k. x = 2 ^ k" for x :: nat
proof (induction x rule: less_induct)
  case (less x)
  show ?case
  proof (cases "even x")
    case True
    then obtain y where y: "x = 2 * y" by blast
    with less.prems have y0: "0 < y" by simp
    have "x AND (x - 1) = 2 * (y AND (y - 1))"
    proof -
      have "x - 1 = Suc (2 * (y - 1))" using y y0 by simp
      then show ?thesis using y by (simp add: and_nat_rec [of "2 * y"])
    qed
    with less.prems have "y AND (y - 1) = 0" by simp
    with less.IH [of y] y y0 obtain k where "y = 2 ^ k" by auto
    with y have "x = 2 ^ Suc k" by simp
    then show ?thesis by blast
  next
    case False
    then obtain y where y: "x = 2 * y + 1" by (blast elim: oddE)
    have "x AND (x - 1) = 2 * y"
      using y by (simp add: and_nat_rec [of "Suc (2 * y)"])
    with less.prems y have "x = 2 ^ 0" by simp
    then show ?thesis by blast
  qed
qed

lemma unat_2p: "k < 64 \<Longrightarrow> unat (2 ^ k :: u64) = 2 ^ k"
proof -
  assume "k < 64"
  have "unat (of_nat (2 ^ k) :: u64) = take_bit 64 (2 ^ k)" by (simp only: unsigned_of_nat) simp
  also have "\<dots> = 2 ^ k" using \<open>k < 64\<close> by (simp add: take_bit_nat_eq_self)
  finally show ?thesis by simp
qed

lemma unat_and_mask [ring_simps]: "k \<le> 64 \<Longrightarrow> unat (w AND (2 ^ k - 1)) = unat w mod 2 ^ k" for w :: u64
  by (simp add: unsigned_take_bit_eq take_bit_nat_def flip: mask_eq_exp_minus_1 take_bit_eq_mask)

lemma pow2_test_iff: "x \<noteq> 0 \<and> x AND (x - 1) = 0 \<longleftrightarrow> (\<exists>k < 64. x = 2 ^ k)" for x :: u64
proof
  assume a: "x \<noteq> 0 \<and> x AND (x - 1) = 0"
  have "unat (x - 1) = unat x - 1" using a by (metis unat_minus_one)
  moreover have "unat (x AND (x - 1)) = unat x AND unat (x - 1)" by (simp add: unsigned_and_eq)
  ultimately have "unat x AND (unat x - 1) = 0" using a by simp
  then obtain k where k: "unat x = 2 ^ k"
    using pow2_test_nat [of "unat x"] a by (auto simp: unat_gt_0)
  have "k < 64" 
  proof (rule ccontr)
    assume "\<not> k < 64"
    then have "(2::nat) ^ 64 \<le> 2 ^ k" by (intro power_increasing) simp_all
    with k have "2 ^ 64 \<le> unat x" by simp
    moreover have "unat x < 2 ^ 64" by (rule u64_lt)
    ultimately show False by simp
  qed
  moreover have "x = 2 ^ k"
    using k \<open>k < 64\<close> by (simp add: word_unat_eq_iff unat_2p)
  ultimately show "\<exists>k < 64. x = 2 ^ k" by blast
next
  assume "\<exists>k < 64. x = 2 ^ k"
  then obtain k where k: "k < 64" "x = 2 ^ k" by blast
  have "x \<noteq> 0" using k by simp
  moreover have "x AND (x - 1) = 0"
    using k unat_and_mask [of k x] unat_2p [of k] by (simp add: word_unat_eq_iff [of "_ AND _"])
  ultimately show "x \<noteq> 0 \<and> x AND (x - 1) = 0" by blast
qed

lemma unat_add_of_nat_mask [ring_simps]: "k \<le> 64 \<Longrightarrow> unat ((w + of_nat i) AND (2 ^ k - 1)) = (unat w + i) mod 2 ^ k"
  for w :: u64
proof -
  assume k: "k \<le> 64"
  have "unat (w + of_nat i) = (unat w + unat (of_nat i :: u64)) mod 2 ^ 64"
    by (simp add: unat_word_ariths)
  also have "\<dots> = (unat w + i) mod 2 ^ 64"
    by (simp add: unsigned_of_nat take_bit_nat_def mod_simps)
  finally have "unat ((w + of_nat i) AND (2 ^ k - 1)) = (unat w + i) mod 2 ^ 64 mod 2 ^ k"
    using k by (simp only: unat_and_mask)
  also have "\<dots> = (unat w + i) mod 2 ^ k"
    using k by (intro mod_mod_cancel le_imp_power_dvd)
  finally show ?thesis .
qed

lemma unat_succ_mask [ring_simps]: "k \<le> 64 \<Longrightarrow> unat ((w + 1) AND (2 ^ k - 1)) = Suc (unat w) mod 2 ^ k" for w :: u64
  using unat_add_of_nat_mask [of k w 1] by simp

lemma nth_list_update_iff: "i < length xs \<Longrightarrow> xs[i := v] ! j = (if i = j then v else xs ! j)"
  by simp

section \<open>Association lists\<close>

lemma map_of_update_at:
  "distinct (map fst b) \<Longrightarrow> j < length b \<Longrightarrow>
    map_of (b[j := (fst (b ! j), v)]) = (map_of b)(fst (b ! j) \<mapsto> v)"
proof (induction b arbitrary: j)
  case (Cons a b)
  show ?case
  proof (cases j)
    case (Suc i)
    with Cons.prems have "fst (b ! i) \<in> fst ` set b" by simp
    with Cons.prems Suc have "fst (b ! i) \<noteq> fst a" by (metis distinct.simps(2) list.set_map list.simps(9))
    with Cons Suc show ?thesis by (auto simp: fun_eq_iff)
  qed (simp add: fun_eq_iff)
qed simp

lemma map_of_snoc:
  "map_of b k = None \<Longrightarrow> map_of (b @ [(k, v)]) = (map_of b)(k \<mapsto> v)"
  by (auto simp: fun_eq_iff map_add_def split: option.splits)

lemma map_fst_update_at: "j < length b \<Longrightarrow> map fst (b[j := (fst (b ! j), v)]) = map fst b"
  by (metis fst_conv length_map list_update_id map_update nth_map)

lemma map_of_filter_key: "map_of (filter (\<lambda>node. fst node \<noteq> k) b) = (map_of b)(k := None)"
  by (induction b) (auto simp: fun_eq_iff)

end
