(* ===== verification/HashMapSpec.thy ===== *)
theory HashMapSpec
  imports Prelude
begin

text \<open>
  The interface \<^verbatim>\<open>MyHM\<close> of include/HashMap.hpp as a record of operations, the contracts a
  client may rely on as locales, and the clients that are proved once against them. Each of
  the four map types is a theory of its own that interprets the contracts it satisfies.
\<close>

section \<open>The operations a map type offers\<close>

text \<open>
  A template argument that satisfies the concept \<^verbatim>\<open>MyHM\<close> is a record of its operations over a
  state \<open>'m\<close>. \<^verbatim>\<open>find\<close> returns \<^verbatim>\<open>Value*\<close> and \<open>operator[]\<close> returns \<^verbatim>\<open>Value&\<close>: both are
  places \<open>'r\<close> inside the map that the client reads (\<open>deref\<close>) and writes (\<open>store\<close>); a null
  pointer is \<open>None\<close>. The class \<^verbatim>\<open>HashMap<HM>\<close> forwards each call, so it is the record itself.
\<close>

record ('m, 'k, 'v, 'r) hm_ops =
  insert_op :: "'m \<Rightarrow> 'k \<Rightarrow> 'v \<Rightarrow> 'm res"
  contains_op :: "'m \<Rightarrow> 'k \<Rightarrow> bool res"
  erase_op :: "'m \<Rightarrow> 'k \<Rightarrow> (bool \<times> 'm) res"
  find_op :: "'m \<Rightarrow> 'k \<Rightarrow> 'r option res"
  subscript_op :: "'m \<Rightarrow> 'k \<Rightarrow> ('r \<times> 'm) res"
  deref_op :: "'m \<Rightarrow> 'r \<Rightarrow> 'v"
  store_op :: "'m \<Rightarrow> 'r \<Rightarrow> 'v \<Rightarrow> 'm"

text \<open>\<open>hm[key] = value\<close>: the assignment through the reference \<open>operator[]\<close> returns.\<close>

definition assign_op :: "('m, 'k, 'v, 'r) hm_ops \<Rightarrow> 'm \<Rightarrow> 'k \<Rightarrow> 'v \<Rightarrow> 'm res" where
  "assign_op H m k v = res_bind (subscript_op H m k) (\<lambda>(r, m'). Inr (store_op H m' r v))"

text \<open>Reading \<open>*hm.find(key)\<close>, \<open>None\<close> for a null pointer.\<close>

definition lookup_op :: "('m, 'k, 'v, 'r) hm_ops \<Rightarrow> 'm \<Rightarrow> 'k \<Rightarrow> 'v option res" where
  "lookup_op H m k = res_bind (find_op H m k) (\<lambda>r. Inr (map_option (deref_op H m) r))"

section \<open>Contracts\<close>

text \<open>
  What all four map types promise: a finite map \<open>\<alpha> m\<close> read by \<open>contains\<close> and \<open>find\<close>,
  extended at a key that is absent by \<open>insert\<close> and \<open>operator[]\<close>, and restricted by
  \<open>erase\<close>. An insertion may fail (no free node), the reads and \<open>erase\<close> may not.
\<close>

locale hash_map =
  fixes H :: "('m, 'k, 'v, 'r) hm_ops"
    and invar :: "'m \<Rightarrow> bool"
    and \<alpha> :: "'m \<Rightarrow> 'k \<Rightarrow> 'v option"
    and dflt :: 'v
  assumes contains: "invar m \<Longrightarrow> contains_op H m k = Inr (\<alpha> m k \<noteq> None)"
    and find_absent: "invar m \<Longrightarrow> \<alpha> m k = None \<Longrightarrow> find_op H m k = Inr None"
    and find_present: "invar m \<Longrightarrow> \<alpha> m k = Some v \<Longrightarrow>
      \<exists>r. find_op H m k = Inr (Some r) \<and> deref_op H m r = v
        \<and> (\<forall>w. invar (store_op H m r w) \<and> \<alpha> (store_op H m r w) = (\<alpha> m)(k \<mapsto> w))"
    and insert_absent: "invar m \<Longrightarrow> \<alpha> m k = None \<Longrightarrow> insert_op H m k v = Inr m' \<Longrightarrow>
      invar m' \<and> \<alpha> m' = (\<alpha> m)(k \<mapsto> v)"
    and subscript_absent: "invar m \<Longrightarrow> \<alpha> m k = None \<Longrightarrow> subscript_op H m k = Inr (r, m') \<Longrightarrow>
      invar m' \<and> \<alpha> m' = (\<alpha> m)(k \<mapsto> dflt) \<and> deref_op H m' r = dflt
        \<and> (\<forall>w. invar (store_op H m' r w) \<and> \<alpha> (store_op H m' r w) = (\<alpha> m)(k \<mapsto> w))"
    and erase: "invar m \<Longrightarrow>
      \<exists>m'. erase_op H m k = Inr (\<alpha> m k \<noteq> None, m') \<and> invar m' \<and> \<alpha> m' = (\<alpha> m)(k := None)"
begin

lemma lookup: "invar m \<Longrightarrow> lookup_op H m k = Inr (\<alpha> m k)"
  using find_absent [of m k] find_present [of m k]
  by (cases "\<alpha> m k") (auto simp: lookup_op_def)

lemma assign_absent:
  "invar m \<Longrightarrow> \<alpha> m k = None \<Longrightarrow> assign_op H m k v = Inr m' \<Longrightarrow>
    invar m' \<and> \<alpha> m' = (\<alpha> m)(k \<mapsto> v)"
  by (auto simp: assign_op_def res_bind_Inr_iff dest: subscript_absent)

lemma erase_result:
  "invar m \<Longrightarrow> erase_op H m k = Inr (b, m') \<Longrightarrow>
    b = (\<alpha> m k \<noteq> None) \<and> invar m' \<and> \<alpha> m' = (\<alpha> m)(k := None)"
  using erase [of m k] by auto

end

text \<open>
  The reference \<open>operator[]\<close> returns for a key that is present is the stored value's place.
\<close>

locale subscript_map = hash_map +
  assumes subscript_present: "invar m \<Longrightarrow> \<alpha> m k = Some v \<Longrightarrow>
      \<exists>r. subscript_op H m k = Inr (r, m) \<and> deref_op H m r = v
        \<and> (\<forall>w. invar (store_op H m r w) \<and> \<alpha> (store_op H m r w) = (\<alpha> m)(k \<mapsto> w))"
begin

lemma assign:
  assumes "invar m" and "assign_op H m k v = Inr m'"
  shows "invar m' \<and> \<alpha> m' = (\<alpha> m)(k \<mapsto> v)"
proof (cases "\<alpha> m k")
  case None
  then show ?thesis using assms by (intro assign_absent)
next
  case (Some w)
  from subscript_present [OF assms(1) this] assms(2) show ?thesis
    by (auto simp: assign_op_def)
qed

lemma subscript_reads:
  assumes "invar m" and "subscript_op H m k = Inr (r, m')"
  shows "deref_op H m' r = (case \<alpha> m k of None \<Rightarrow> dflt | Some v \<Rightarrow> v)"
  using assms subscript_absent [of m k r m'] subscript_present [of m k]
  by (cases "\<alpha> m k") auto

end

text \<open>Inserting at a key that is present replaces its value, or keeps it.\<close>

locale overwriting_map = hash_map +
  assumes insert_present: "invar m \<Longrightarrow> \<alpha> m k \<noteq> None \<Longrightarrow> insert_op H m k v = Inr m' \<Longrightarrow>
      invar m' \<and> \<alpha> m' = (\<alpha> m)(k \<mapsto> v)"
begin

lemma insert_any: "invar m \<Longrightarrow> insert_op H m k v = Inr m' \<Longrightarrow> invar m' \<and> \<alpha> m' = (\<alpha> m)(k \<mapsto> v)"
  using insert_absent [of m k v m'] insert_present [of m k v m'] by (cases "\<alpha> m k") auto

end

locale keeping_map = hash_map +
  assumes insert_kept: "invar m \<Longrightarrow> \<alpha> m k \<noteq> None \<Longrightarrow> insert_op H m k v = Inr m' \<Longrightarrow>
      invar m' \<and> \<alpha> m' = \<alpha> m"

section \<open>A client: the test program\<close>

text \<open>
  \<^verbatim>\<open>testHashMap\<close> of test/TestHashMap.cpp over any map type with \<^verbatim>\<open>int\<close> keys and string
  values: the calls in the order of the source, the lines it prints as a list.
\<close>

definition found_line :: "string \<Rightarrow> string option \<Rightarrow> string" where
  "found_line k r = (case r of
     Some v \<Rightarrow> ''Found key '' @ k @ '' with value: '' @ v
   | None \<Rightarrow> ''Key '' @ k @ '' not found in the hash map.'')"

definition testHashMap :: "('m, int, string, 'r) hm_ops \<Rightarrow> 'm \<Rightarrow> string list res" where
  "testHashMap H m0 =
    res_bind (insert_op H m0 1 ''one'') (\<lambda>m1.
    res_bind (insert_op H m1 2 ''two'') (\<lambda>m2.
    res_bind (insert_op H m2 3 ''three'') (\<lambda>m3.
    res_bind (contains_op H m3 2) (\<lambda>c2.
    let out1 = (if c2 then [''Key 2 exists in the hash map.'']
                else [''Key 2 does not exist in the hash map.'']) in
    res_bind (erase_op H m3 2) (\<lambda>(_, m4).
    res_bind (assign_op H m4 10 ''ten'') (\<lambda>m5.
    res_bind (subscript_op H m5 11) (\<lambda>(_, m6).
    res_bind (contains_op H m6 2) (\<lambda>c2'.
    let out2 = (if \<not> c2' then [''Key 2 has been erased from the hash map.''] else []) in
    res_bind (lookup_op H m6 3) (\<lambda>v3.
    res_bind (lookup_op H m6 4) (\<lambda>v4.
    res_bind (lookup_op H m6 10) (\<lambda>v10.
    res_bind (lookup_op H m6 11) (\<lambda>v11.
    Inr (out1 @ out2 @ [found_line ''3'' v3, found_line ''4'' v4,
           found_line ''10'' v10, found_line ''11'' v11])))))))))))))"

definition testHashMap_output :: "string \<Rightarrow> string list" where
  "testHashMap_output dflt =
    [''Key 2 exists in the hash map.'', ''Key 2 has been erased from the hash map.'',
     found_line ''3'' (Some ''three''), found_line ''4'' None,
     found_line ''10'' (Some ''ten''), found_line ''11'' (Some dflt)]"

text \<open>
  Every map type that starts empty prints the expected lines, if the insertions succeed:
  each insertion of the test is at a key that is absent.
\<close>

locale tested_map = hash_map H invar \<alpha> dflt
  for H :: "('m, int, string, 'r) hm_ops" and invar and \<alpha> and dflt +
  fixes m0 :: 'm
  assumes init_invar: "invar m0"
    and init_empty: "\<alpha> m0 = Map.empty"
begin

lemma test_output:
  assumes run: "testHashMap H m0 = Inr out"
  shows "out = testHashMap_output dflt"
proof -
  from run obtain m1 m2 m3 b m4 m5 r m6 where
      m1: "insert_op H m0 1 ''one'' = Inr m1" and m2: "insert_op H m1 2 ''two'' = Inr m2"
    and m3: "insert_op H m2 3 ''three'' = Inr m3" and m4: "erase_op H m3 2 = Inr (b, m4)"
    and m5: "assign_op H m4 10 ''ten'' = Inr m5" and m6: "subscript_op H m5 11 = Inr (r, m6)"
    by (auto simp: testHashMap_def res_bind_Inr_iff Let_def split: prod.splits)
  have s1: "invar m1" "\<alpha> m1 = [1 \<mapsto> ''one'']"
    using insert_absent [OF init_invar _ m1] by (simp_all add: init_empty)
  have s2: "invar m2" "\<alpha> m2 = [1 \<mapsto> ''one'', 2 \<mapsto> ''two'']"
    using insert_absent [OF s1(1) _ m2] by (simp_all add: s1)
  have s3: "invar m3" "\<alpha> m3 = [1 \<mapsto> ''one'', 2 \<mapsto> ''two'', 3 \<mapsto> ''three'']"
    using insert_absent [OF s2(1) _ m3] by (simp_all add: s2)
  have s4: "invar m4" "\<alpha> m4 = (\<alpha> m3)(2 := None)"
    using erase_result [OF s3(1) m4] by simp_all
  have s5: "invar m5" "\<alpha> m5 = (\<alpha> m4)(10 \<mapsto> ''ten'')"
    using assign_absent [OF s4(1) _ m5] by (simp_all add: s4 s3)
  have s6: "invar m6" "\<alpha> m6 = (\<alpha> m5)(11 \<mapsto> dflt)"
    using subscript_absent [OF s5(1) _ m6] by (simp_all add: s5 s4 s3)
  show ?thesis
    using run
    by (simp add: testHashMap_def testHashMap_output_def m1 m2 m3 m4 m5 m6
        contains [OF s3(1)] contains [OF s6(1)] lookup [OF s6(1)] s3(2) s6(2) s5(2) s4(2))
qed

text \<open>
  The insertions succeed where there is room (\<open>Q m n\<close>: for \<open>n\<close> more) and each takes one place.
\<close>

lemma test_returns:
  assumes Q0: "Q m0 5"
    and ins: "\<And>m n k v. invar m \<Longrightarrow> Q m (Suc n) \<Longrightarrow> \<exists>m'. insert_op H m k v = Inr m' \<and> Q m' n"
    and sub: "\<And>m n k. invar m \<Longrightarrow> Q m (Suc n) \<Longrightarrow> \<exists>r m'. subscript_op H m k = Inr (r, m') \<and> Q m' n"
    and er: "\<And>m n k b m'. invar m \<Longrightarrow> Q m n \<Longrightarrow> erase_op H m k = Inr (b, m') \<Longrightarrow> Q m' n"
    and st: "\<And>m n r v. Q m n \<Longrightarrow> Q (store_op H m r v) n"
  shows "testHashMap H m0 = Inr (testHashMap_output dflt)"
proof -
  obtain m1 where m1: "insert_op H m0 1 ''one'' = Inr m1" and q1: "Q m1 4"
    using ins [OF init_invar, of 4] Q0 by (auto simp: numeral_eq_Suc)
  have s1: "invar m1" "\<alpha> m1 = [1 \<mapsto> ''one'']"
    using insert_absent [OF init_invar _ m1] by (simp_all add: init_empty)
  obtain m2 where m2: "insert_op H m1 2 ''two'' = Inr m2" and q2: "Q m2 3"
    using ins [OF s1(1), of 3] q1 by (auto simp: numeral_eq_Suc)
  have s2: "invar m2" "\<alpha> m2 = [1 \<mapsto> ''one'', 2 \<mapsto> ''two'']"
    using insert_absent [OF s1(1) _ m2] by (simp_all add: s1)
  obtain m3 where m3: "insert_op H m2 3 ''three'' = Inr m3" and q3: "Q m3 2"
    using ins [OF s2(1), of 2] q2 by (auto simp: numeral_eq_Suc)
  have s3: "invar m3" "\<alpha> m3 = [1 \<mapsto> ''one'', 2 \<mapsto> ''two'', 3 \<mapsto> ''three'']"
    using insert_absent [OF s2(1) _ m3] by (simp_all add: s2)
  obtain b m4 where m4: "erase_op H m3 2 = Inr (b, m4)" using erase [OF s3(1), of 2] by blast
  have s4: "invar m4" "\<alpha> m4 = (\<alpha> m3)(2 := None)" and q4: "Q m4 2"
    using erase_result [OF s3(1) m4] er [OF s3(1) q3 m4] by simp_all
  obtain r m5' where m5': "subscript_op H m4 10 = Inr (r, m5')" and q5': "Q m5' 1"
    using sub [OF s4(1), of 1 10] q4 by (auto simp: numeral_eq_Suc)
  then obtain m5 where m5: "assign_op H m4 10 ''ten'' = Inr m5" and q5: "Q m5 1"
    using st by (auto simp: assign_op_def)
  have s5: "invar m5" "\<alpha> m5 = (\<alpha> m4)(10 \<mapsto> ''ten'')"
    using assign_absent [OF s4(1) _ m5] by (simp_all add: s4 s3)
  obtain r m6 where m6: "subscript_op H m5 11 = Inr (r, m6)"
    using sub [OF s5(1), of 0 11] q5 by auto
  have s6: "invar m6" "\<alpha> m6 = (\<alpha> m5)(11 \<mapsto> dflt)"
    using subscript_absent [OF s5(1) _ m6] by (simp_all add: s5 s4 s3)
  have "returns (testHashMap H m0)"
    by (simp add: testHashMap_def m1 m2 m3 m4 m5 m6 contains [OF s3(1)] contains [OF s6(1)]
        lookup [OF s6(1)])
  then show ?thesis using test_output by (auto simp: returns_iff)
qed

end

end
