(* ===== verification/ChainingMap.thy ===== *)
theory ChainingMap
  imports HashMapSpec
begin

text \<open>
  \<^verbatim>\<open>ChainingHashMap\<close> of include/HashMap.hpp: a vector of lists of nodes. \<^verbatim>\<open>std::hash<Key>\<close>
  is a parameter \<open>h\<close>, \<^verbatim>\<open>Value{}\<close> a parameter \<open>dflt\<close>, \<^verbatim>\<open>Const::initBuckets\<close> the argument
  of the constructor. A reference into the map is the pair of bucket and position.
\<close>

section \<open>Model\<close>

record ('k, 'v) chaining =
  ch_table :: "('k \<times> 'v) list list"
  ch_mask :: u64

definition chaining_init :: "u64 \<Rightarrow> ('k, 'v) chaining res" where
  "chaining_init initBuckets =
    (if initBuckets = 0 \<or> initBuckets AND (initBuckets - 1) \<noteq> 0
     then Inl (Throw (Runtime_Error ''initBuckets must be non-zero and a power of 2''))
     else Inr \<lparr>ch_table = replicate (unat initBuckets) [], ch_mask = initBuckets - 1\<rparr>)"

definition ch_index :: "('k \<Rightarrow> u64) \<Rightarrow> ('k, 'v) chaining \<Rightarrow> 'k \<Rightarrow> nat" where
  "ch_index h m key = unat (h key AND ch_mask m)"

text \<open>The loop every operation starts with: the first node of the bucket with the key.\<close>

fun bucket_scan :: "'k \<Rightarrow> ('k \<times> 'v) list \<Rightarrow> nat option" where
  "bucket_scan key [] = None"
| "bucket_scan key (node # nodes) =
    (if fst node = key then Some 0 else map_option Suc (bucket_scan key nodes))"

definition chaining_deref :: "('k, 'v) chaining \<Rightarrow> nat \<times> nat \<Rightarrow> 'v" where
  "chaining_deref m r = snd (ch_table m ! fst r ! snd r)"

definition chaining_store :: "('k, 'v) chaining \<Rightarrow> nat \<times> nat \<Rightarrow> 'v \<Rightarrow> ('k, 'v) chaining" where
  "chaining_store m r v = (let b = ch_table m ! fst r in
    m\<lparr>ch_table := (ch_table m)[fst r := b[snd r := (fst (b ! snd r), v)]]\<rparr>)"

definition chaining_emplace_back :: "('k, 'v) chaining \<Rightarrow> nat \<Rightarrow> 'k \<Rightarrow> 'v \<Rightarrow> ('k, 'v) chaining" where
  "chaining_emplace_back m i key v =
    m\<lparr>ch_table := (ch_table m)[i := ch_table m ! i @ [(key, v)]]\<rparr>"

definition chaining_subscript ::
  "('k \<Rightarrow> u64) \<Rightarrow> 'v \<Rightarrow> ('k, 'v) chaining \<Rightarrow> 'k \<Rightarrow> (nat \<times> nat) \<times> ('k, 'v) chaining" where
  "chaining_subscript h dflt m key = (let i = ch_index h m key in
    case bucket_scan key (ch_table m ! i) of
      Some j \<Rightarrow> ((i, j), m)
    | None \<Rightarrow> ((i, length (ch_table m ! i)), chaining_emplace_back m i key dflt))"

definition chaining_insert ::
  "('k \<Rightarrow> u64) \<Rightarrow> ('k, 'v) chaining \<Rightarrow> 'k \<Rightarrow> 'v \<Rightarrow> ('k, 'v) chaining" where
  "chaining_insert h m key v = (let i = ch_index h m key in
    case bucket_scan key (ch_table m ! i) of
      Some j \<Rightarrow> chaining_store m (i, j) v
    | None \<Rightarrow> chaining_emplace_back m i key v)"

definition chaining_contains :: "('k \<Rightarrow> u64) \<Rightarrow> ('k, 'v) chaining \<Rightarrow> 'k \<Rightarrow> bool" where
  "chaining_contains h m key = (bucket_scan key (ch_table m ! ch_index h m key) \<noteq> None)"

text \<open>
  \<^verbatim>\<open>table_[index].remove(node)\<close> is \<^verbatim>\<open>std::list::remove\<close>: it removes every node equal to the
  argument, and \<open>Node::operator==\<close> compares the keys.
\<close>

definition chaining_erase ::
  "('k \<Rightarrow> u64) \<Rightarrow> ('k, 'v) chaining \<Rightarrow> 'k \<Rightarrow> bool \<times> ('k, 'v) chaining" where
  "chaining_erase h m key = (let i = ch_index h m key; b = ch_table m ! i in
    case bucket_scan key b of
      Some j \<Rightarrow> (True, m\<lparr>ch_table := (ch_table m)[i := filter (\<lambda>node. fst node \<noteq> fst (b ! j)) b]\<rparr>)
    | None \<Rightarrow> (False, m))"

definition chaining_find :: "('k \<Rightarrow> u64) \<Rightarrow> ('k, 'v) chaining \<Rightarrow> 'k \<Rightarrow> (nat \<times> nat) option" where
  "chaining_find h m key = (let i = ch_index h m key in
    map_option (\<lambda>j. (i, j)) (bucket_scan key (ch_table m ! i)))"

definition chaining_ops ::
  "('k \<Rightarrow> u64) \<Rightarrow> 'v \<Rightarrow> (('k, 'v) chaining, 'k, 'v, nat \<times> nat) hm_ops" where
  "chaining_ops h dflt = \<lparr>
    insert_op = \<lambda>m k v. Inr (chaining_insert h m k v),
    contains_op = \<lambda>m k. Inr (chaining_contains h m k),
    erase_op = \<lambda>m k. Inr (chaining_erase h m k),
    find_op = \<lambda>m k. Inr (chaining_find h m k),
    subscript_op = \<lambda>m k. Inr (chaining_subscript h dflt m k),
    deref_op = chaining_deref,
    store_op = chaining_store\<rparr>"

section \<open>Abstraction and invariant\<close>

definition chaining_map :: "('k \<Rightarrow> u64) \<Rightarrow> ('k, 'v) chaining \<Rightarrow> 'k \<Rightarrow> 'v option" where
  "chaining_map h m k = map_of (ch_table m ! ch_index h m k) k"

text \<open>
  The table has a power-of-two size with the matching mask, every node is in its key's
  bucket, and no bucket has a key twice.
\<close>

definition chaining_inv :: "('k \<Rightarrow> u64) \<Rightarrow> ('k, 'v) chaining \<Rightarrow> bool" where
  "chaining_inv h m \<longleftrightarrow>
    (\<exists>k < 64. ch_mask m = 2 ^ k - 1 \<and> length (ch_table m) = 2 ^ k) \<and>
    (\<forall>i < length (ch_table m). distinct (map fst (ch_table m ! i)) \<and>
       (\<forall>node \<in> set (ch_table m ! i). ch_index h m (fst node) = i))"

subsection \<open>The bucket scan\<close>

lemma bucket_scan_None: "bucket_scan k b = None \<longleftrightarrow> map_of b k = None"
  by (induction b) auto

lemma bucket_scan_Some:
  "bucket_scan k b = Some j \<Longrightarrow>
    j < length b \<and> fst (b ! j) = k \<and> map_of b k = Some (snd (b ! j))"
  by (induction b arbitrary: j) (auto split: if_splits)

subsection \<open>Replacing one bucket\<close>

lemma ch_index_table [simp]: "ch_index h (m\<lparr>ch_table := t\<rparr>) k = ch_index h m k"
  by (simp add: ch_index_def)

lemma ch_index_lt: "chaining_inv h m \<Longrightarrow> ch_index h m k < length (ch_table m)"
  by (auto simp: chaining_inv_def ch_index_def ring_simps)

lemma chaining_set_bucket:
  assumes inv: "chaining_inv h m" and i: "i = ch_index h m k"
    and m': "m' = m\<lparr>ch_table := (ch_table m)[i := b]\<rparr>"
    and keys: "distinct (map fst b)" "fst ` set b \<subseteq> insert k (fst ` set (ch_table m ! i))"
    and upd: "map_of b = (map_of (ch_table m ! i))(k := x)"
  shows "chaining_inv h m' \<and> chaining_map h m' = (chaining_map h m)(k := x)"
proof
  have lt: "i < length (ch_table m)" using inv i by (simp add: ch_index_lt)
  have "\<forall>node \<in> set b. ch_index h m (fst node) = i"
  proof
    fix node assume "node \<in> set b"
    with keys(2) consider "fst node = k" | node' where "node' \<in> set (ch_table m ! i)" "fst node = fst node'"
      by auto
    then show "ch_index h m (fst node) = i"
    proof cases
      case 2
      with inv lt show ?thesis unfolding chaining_inv_def by metis
    qed (simp add: i)
  qed
  with inv keys(1) lt show "chaining_inv h m'"
    unfolding chaining_inv_def by (auto simp: m' nth_list_update)
  show "chaining_map h m' = (chaining_map h m)(k := x)"
    using lt upd by (auto simp: chaining_map_def m' i nth_list_update fun_eq_iff)
qed

subsection \<open>Each operation\<close>

lemma chaining_index_eq: "chaining_inv h m \<Longrightarrow> bucket_scan k (ch_table m ! ch_index h m k) = Some j \<Longrightarrow>
    chaining_map h m k = Some (chaining_deref m (ch_index h m k, j))"
  by (auto simp: chaining_map_def chaining_deref_def dest: bucket_scan_Some)

lemma chaining_store_spec:
  assumes inv: "chaining_inv h m" and scan: "bucket_scan k (ch_table m ! ch_index h m k) = Some j"
  shows "chaining_inv h (chaining_store m (ch_index h m k, j) v) \<and>
    chaining_map h (chaining_store m (ch_index h m k, j) v) = (chaining_map h m)(k \<mapsto> v)"
proof -
  let ?b = "ch_table m ! ch_index h m k"
  note j = bucket_scan_Some [OF scan]
  have d: "distinct (map fst ?b)" using inv ch_index_lt [OF inv] by (auto simp: chaining_inv_def)
  show ?thesis
  proof (rule chaining_set_bucket [OF inv refl, where b = "?b[j := (k, v)]"])
    show "chaining_store m (ch_index h m k, j) v
        = m\<lparr>ch_table := (ch_table m)[ch_index h m k := ?b[j := (k, v)]]\<rparr>"
      using j by (simp add: chaining_store_def)
    have keys: "map fst (?b[j := (k, v)]) = map fst ?b"
      using map_fst_update_at [of j ?b v] j by simp
    with d show "distinct (map fst (?b[j := (k, v)]))" by simp
    show "fst ` set (?b[j := (k, v)]) \<subseteq> insert k (fst ` set ?b)"
      using arg_cong [OF keys, where f = set] by auto
    show "map_of (?b[j := (k, v)]) = (map_of ?b)(k := Some v)"
      using map_of_update_at [OF d, of j v] j by simp
  qed
qed

lemma chaining_emplace_spec:
  assumes inv: "chaining_inv h m" and scan: "bucket_scan k (ch_table m ! ch_index h m k) = None"
  shows "chaining_inv h (chaining_emplace_back m (ch_index h m k) k v) \<and>
    chaining_map h (chaining_emplace_back m (ch_index h m k) k v) = (chaining_map h m)(k \<mapsto> v)"
proof -
  let ?b = "ch_table m ! ch_index h m k"
  have none: "map_of ?b k = None" using scan by (simp add: bucket_scan_None)
  have d: "distinct (map fst ?b)" using inv ch_index_lt [OF inv] by (auto simp: chaining_inv_def)
  show ?thesis
    by (rule chaining_set_bucket [OF inv refl, where b = "?b @ [(k, v)]"])
      (use d none in \<open>auto simp: chaining_emplace_back_def map_of_snoc map_of_eq_None_iff
         simp del: map_of_append\<close>)
qed

lemma chaining_scan_None:
  "bucket_scan k (ch_table m ! ch_index h m k) = None \<longleftrightarrow> chaining_map h m k = None"
  by (simp add: chaining_map_def bucket_scan_None)

lemma chaining_contains_spec: "chaining_contains h m k = (chaining_map h m k \<noteq> None)"
  by (simp add: chaining_contains_def chaining_scan_None)

lemma chaining_insert_spec:
  assumes "chaining_inv h m"
  shows "chaining_inv h (chaining_insert h m k v) \<and>
    chaining_map h (chaining_insert h m k v) = (chaining_map h m)(k \<mapsto> v)"
  using chaining_store_spec [OF assms, of k] chaining_emplace_spec [OF assms, of k]
  by (auto simp: chaining_insert_def Let_def split: option.split)

lemma chaining_find_Some:
  assumes "chaining_inv h m" and "chaining_map h m k = Some v"
  shows "\<exists>r. chaining_find h m k = Some r \<and> chaining_deref m r = v \<and>
    (\<forall>w. chaining_inv h (chaining_store m r w) \<and>
      chaining_map h (chaining_store m r w) = (chaining_map h m)(k \<mapsto> w))"
proof -
  obtain j where j: "bucket_scan k (ch_table m ! ch_index h m k) = Some j"
    using assms(2) chaining_scan_None [of k m h] by (metis not_None_eq)
  then show ?thesis
    using chaining_store_spec [OF assms(1) j] chaining_index_eq [OF assms(1) j] assms(2)
    by (simp add: chaining_find_def Let_def)
qed

lemma chaining_subscript_None:
  assumes inv: "chaining_inv h m" and absent: "chaining_map h m k = None"
    and s: "chaining_subscript h dflt m k = (r, m')"
  shows "chaining_inv h m' \<and> chaining_map h m' = (chaining_map h m)(k \<mapsto> dflt) \<and>
    chaining_deref m' r = dflt \<and> (\<forall>w. chaining_inv h (chaining_store m' r w) \<and>
      chaining_map h (chaining_store m' r w) = (chaining_map h m)(k \<mapsto> w))"
proof -
  let ?i = "ch_index h m k"
  have scan: "bucket_scan k (ch_table m ! ?i) = None" using absent by (simp add: chaining_scan_None)
  have r: "r = (?i, length (ch_table m ! ?i))" and m': "m' = chaining_emplace_back m ?i k dflt"
    using s scan by (auto simp: chaining_subscript_def Let_def)
  have "chaining_store m' r w = chaining_emplace_back m ?i k w" for w
    using ch_index_lt [OF inv, of k] by (simp add: r m' chaining_store_def chaining_emplace_back_def)
  moreover have "chaining_deref m' r = dflt"
    using ch_index_lt [OF inv, of k] by (simp add: r m' chaining_deref_def chaining_emplace_back_def)
  ultimately show ?thesis
    using chaining_emplace_spec [OF inv scan] by (simp add: m')
qed

lemma chaining_subscript_Some:
  "chaining_map h m k = Some v \<Longrightarrow>
    chaining_subscript h dflt m k = (the (chaining_find h m k), m)"
  using chaining_scan_None [of k m h]
  by (auto simp: chaining_subscript_def chaining_find_def Let_def split: option.split)

lemma chaining_erase_spec:
  assumes inv: "chaining_inv h m" and e: "chaining_erase h m k = (b, m')"
  shows "b = (chaining_map h m k \<noteq> None) \<and> chaining_inv h m' \<and>
    chaining_map h m' = (chaining_map h m)(k := None)"
proof (cases "bucket_scan k (ch_table m ! ch_index h m k)")
  case None
  then have "chaining_map h m k = None" by (simp add: chaining_map_def bucket_scan_None)
  with None e inv show ?thesis by (auto simp: chaining_erase_def Let_def fun_eq_iff)
next
  case (Some j)
  let ?b = "ch_table m ! ch_index h m k"
  note j = bucket_scan_Some [OF Some]
  have d: "distinct (map fst ?b)" using inv ch_index_lt [OF inv] by (auto simp: chaining_inv_def)
  have "chaining_inv h m' \<and> chaining_map h m' = (chaining_map h m)(k := None)"
    by (rule chaining_set_bucket [OF inv refl, where b = "filter (\<lambda>node. fst node \<noteq> k) ?b"])
      (use d e Some j in \<open>auto simp: chaining_erase_def Let_def distinct_map_filter map_of_filter_key\<close>)
  moreover have "b" using e Some by (simp add: chaining_erase_def Let_def)
  ultimately show ?thesis using j by (simp add: chaining_map_def)
qed

subsection \<open>The contracts\<close>

interpretation chm: overwriting_map "chaining_ops h dflt" "chaining_inv h" "chaining_map h" dflt
  for h :: "'k \<Rightarrow> u64" and dflt :: 'v
proof (unfold_locales, goal_cases)
  case (2 m k)
  then show ?case by (simp add: chaining_ops_def chaining_find_def Let_def chaining_scan_None)
next
  case (6 m k)
  then show ?case
    by (cases "chaining_erase h m k") (auto simp: chaining_ops_def dest: chaining_erase_spec)
qed (auto simp: chaining_ops_def chaining_contains_spec
    dest: chaining_insert_spec chaining_find_Some chaining_subscript_None)

interpretation chm: subscript_map "chaining_ops h dflt" "chaining_inv h" "chaining_map h" dflt
  for h :: "'k \<Rightarrow> u64" and dflt :: 'v
proof (unfold_locales, goal_cases)
  case (1 m k v)
  then show ?case
    using chaining_find_Some [OF 1] by (auto simp: chaining_ops_def chaining_subscript_Some)
qed

section \<open>Construction and the test program\<close>

lemma chaining_init_Inr:
  assumes "chaining_init n = Inr m"
  shows "chaining_inv h m \<and> chaining_map h m = Map.empty"
proof -
  have n: "n \<noteq> 0 \<and> n AND (n - 1) = 0"
    and m: "m = \<lparr>ch_table = replicate (unat n) [], ch_mask = n - 1\<rparr>"
    using assms by (auto simp: chaining_init_def split: if_splits)
  then obtain k where k: "k < 64" "n = 2 ^ k" using pow2_test_iff [of n] by blast
  have inv: "chaining_inv h m"
    using k by (auto simp: chaining_inv_def m unat_2p)
  moreover have "chaining_map h m q = None" for q
    using ch_index_lt [OF inv, of q] by (simp add: chaining_map_def m)
  ultimately show ?thesis by blast
qed

text \<open>
  The constructor of \<^verbatim>\<open>ChainingHashMap\<close> throws exactly when the bucket count is not a
  power of two; otherwise it builds a well-formed, empty map.
\<close>

lemma chaining_init_correct:
  fixes h :: "'k \<Rightarrow> u64"
  shows "(case (chaining_init n :: ('k, 'v) chaining res) of
      Inl e \<Rightarrow> e = Throw (Runtime_Error ''initBuckets must be non-zero and a power of 2'')
        \<and> (\<nexists>k. k < 64 \<and> n = 2 ^ k)
    | Inr m \<Rightarrow> (\<exists>k < 64. n = 2 ^ k) \<and> chaining_inv h m \<and> chaining_map h m = Map.empty)"
proof (cases "\<exists>k < 64. n = 2 ^ k")
  case True
  then have "n \<noteq> 0 \<and> n AND (n - 1) = 0" by (simp only: pow2_test_iff)
  then obtain m :: "('k, 'v) chaining" where m: "chaining_init n = Inr m"
    by (auto simp: chaining_init_def)
  with chaining_init_Inr [OF m, of h] True show ?thesis by simp
next
  case False
  then have "n = 0 \<or> n AND (n - 1) \<noteq> 0" using pow2_test_iff [of n] by blast
  with False show ?thesis by (auto simp: chaining_init_def)
qed

text \<open>
  C32: On a well-formed \<^verbatim>\<open>ChainingHashMap\<close> \<open>insert\<close> is the update of a finite map at any
  key, present or absent; \<open>contains\<close> and \<open>find\<close> read that map, \<open>erase\<close> removes the key and
  reports whether it was there, and every operation keeps the map well-formed.
\<close>

theorem chaining_refines_map:
  assumes inv: "chaining_inv h m"
  shows "chaining_inv h (chaining_insert h m k v) \<and>
    chaining_map h (chaining_insert h m k v) = (chaining_map h m)(k \<mapsto> v) \<and>
    chaining_contains h m k = (chaining_map h m k \<noteq> None) \<and>
    map_option (chaining_deref m) (chaining_find h m k) = chaining_map h m k \<and>
    (case chaining_erase h m k of (erased, m') \<Rightarrow> erased = (chaining_map h m k \<noteq> None) \<and>
      chaining_inv h m' \<and> chaining_map h m' = (chaining_map h m)(k := None))"
proof (intro conjI)
  show "chaining_inv h (chaining_insert h m k v)"
    and "chaining_map h (chaining_insert h m k v) = (chaining_map h m)(k \<mapsto> v)"
    and "chaining_contains h m k = (chaining_map h m k \<noteq> None)"
    using chaining_insert_spec [OF inv] by (simp_all add: chaining_contains_spec)
  show "map_option (chaining_deref m) (chaining_find h m k) = chaining_map h m k"
    using chm.lookup [OF inv, of undefined k] by (simp add: lookup_op_def chaining_ops_def)
  show "case chaining_erase h m k of (erased, m') \<Rightarrow> erased = (chaining_map h m k \<noteq> None) \<and>
      chaining_inv h m' \<and> chaining_map h m' = (chaining_map h m)(k := None)"
    using chaining_erase_spec [OF inv, of k] by (simp split: prod.split)
qed

lemma chaining_refines_map_witness:
  "let m = (\<lparr>ch_table = [[], [(5, ''a'')]], ch_mask = 1\<rparr> :: (nat, string) chaining) in
    chaining_map of_nat (chaining_insert of_nat m 3 ''b'') 3 = Some ''b'' \<and>
    chaining_contains of_nat m 5"
proof -
  let ?m = "\<lparr>ch_table = [[], [(5, ''a'')]], ch_mask = 1\<rparr> :: (nat, string) chaining"
  have "chaining_inv of_nat ?m"
    unfolding chaining_inv_def
  proof (intro conjI)
    show "\<exists>k<64. ch_mask ?m = 2 ^ k - 1 \<and> length (ch_table ?m) = 2 ^ k"
      by (rule exI [of _ 1]) simp
  qed (auto simp: less_Suc_eq ch_index_def numeral_eq_Suc)
  from chaining_refines_map [OF this, of 3 "''b''"] chaining_refines_map [OF this, of 5 "''b''"]
  have "chaining_map of_nat (chaining_insert of_nat ?m 3 ''b'') 3 = Some ''b'' \<and>
      chaining_contains of_nat ?m 5 = (chaining_map of_nat ?m 5 \<noteq> None)"
    by simp
  then show ?thesis by (simp add: chaining_map_def [of _ ?m] ch_index_def Let_def)
qed

text \<open>The test program's run on \<^verbatim>\<open>ChainingHashMap<int, std::string>\<close>.\<close>

definition chaining_empty :: "u64 \<Rightarrow> ('k, 'v) chaining" where
  "chaining_empty n = \<lparr>ch_table = replicate (unat n) [], ch_mask = n - 1\<rparr>"

interpretation cht: tested_map "chaining_ops h []" "chaining_inv h" "chaining_map h" "[]"
    "chaining_empty 32"
  for h :: "int \<Rightarrow> u64"
proof unfold_locales
  have i: "chaining_init 32 = Inr (chaining_empty 32 :: (int, string) chaining)"
    by (simp add: chaining_init_def chaining_empty_def)
  show "chaining_inv h (chaining_empty 32 :: (int, string) chaining)"
    and "chaining_map h (chaining_empty 32 :: (int, string) chaining) = Map.empty"
    using chaining_init_Inr [OF i, of h] by auto
qed

text \<open>
  The test program of test/TestHashMap.cpp, run on a \<^verbatim>\<open>ChainingHashMap<int, std::string>\<close>
  of 32 buckets with any hash function, returns and prints the expected lines.
\<close>

theorem chaining_test_output:
  "testHashMap (chaining_ops h []) (chaining_empty 32) = Inr (testHashMap_output [])"
proof -
  show ?thesis
    by (rule cht.test_returns [where Q = "\<lambda>_ _. True"]) (auto simp: chaining_ops_def)
qed

end
