(* ===== verification/FixedMap.thy ===== *)
theory FixedMap
  imports HashMapSpec
begin

text \<open>
  \<^verbatim>\<open>FixedSizedChainingHashMap\<close> of include/HashMap.hpp: buckets of singly linked nodes that
  live in one preallocated vector, with a stack of the nodes that are free. A \<^verbatim>\<open>Node*\<close> is
  an index into that vector, a null pointer is \<open>None\<close>; the chains are the pointers, so the
  loops over them are walks of the store that could run forever on a cyclic chain.
\<close>

section \<open>Model\<close>

record ('k, 'v) fnode =
  nd_key :: 'k
  nd_value :: 'v
  nd_next :: "nat option"

record ('k, 'v) fixed =
  fx_buckets :: "nat option list"
  fx_pool :: "('k, 'v) fnode list"
  fx_free :: "nat list" \<comment> \<open>the stack \<open>freeNodes_\<close>, its top first\<close>
  fx_mask :: u64

text \<open>
  The constructor pushes \<open>&nodesPool_[0]\<close>, \<open>&nodesPool_[1]\<close>, \<dots> in this order: the
  last node is on top. \<open>k0\<close> and \<open>v0\<close> are \<^verbatim>\<open>Key()\<close> and \<^verbatim>\<open>Value()\<close>.
\<close>

definition fixed_init :: "'k \<Rightarrow> 'v \<Rightarrow> u64 \<Rightarrow> ('k, 'v) fixed res" where
  "fixed_init k0 v0 initBuckets =
    (if initBuckets = 0 \<or> initBuckets AND (initBuckets - 1) \<noteq> 0
     then Inl (Throw (Runtime_Error ''initBuckets must be non-zero and a power of 2''))
     else Inr \<lparr>fx_buckets = replicate (unat initBuckets) None,
       fx_pool = replicate (unat (initBuckets * 16)) \<lparr>nd_key = k0, nd_value = v0, nd_next = None\<rparr>,
       fx_free = rev [0..<unat (initBuckets * 16)],
       fx_mask = initBuckets - 1\<rparr>)"

definition fx_index :: "('k \<Rightarrow> u64) \<Rightarrow> ('k, 'v) fixed \<Rightarrow> 'k \<Rightarrow> nat" where
  "fx_index h m key = unat (h key AND fx_mask m)"

text \<open>
  \<^verbatim>\<open>while (node != nullptr) { if (node->key == key) ...; previous = node; node = node->next; }\<close>:
  the previous node and the node found, if any; \<open>None\<close> when the loop does not end.
\<close>

partial_function (option) chain_walk ::
  "('k, 'v) fnode list \<Rightarrow> 'k \<Rightarrow> nat option \<Rightarrow> nat option \<Rightarrow> (nat option \<times> nat option) option" where
  "chain_walk pool key previous node =
    (case node of
       None \<Rightarrow> Some (previous, None)
     | Some i \<Rightarrow> if nd_key (pool ! i) = key then Some (previous, Some i)
                else chain_walk pool key (Some i) (nd_next (pool ! i)))"

text \<open>\<^verbatim>\<open>while (node->next != nullptr) { node = node->next; }\<close>\<close>

partial_function (option) chain_last :: "('k, 'v) fnode list \<Rightarrow> nat \<Rightarrow> nat option" where
  "chain_last pool node =
    (case nd_next (pool ! node) of
       None \<Rightarrow> Some node
     | Some i \<Rightarrow> chain_last pool i)"

definition no_free_nodes :: fault where
  "no_free_nodes = Throw (Runtime_Error ''No free nodes available in the pool'')"

definition fixed_deref :: "('k, 'v) fixed \<Rightarrow> nat \<Rightarrow> 'v" where
  "fixed_deref m i = nd_value (fx_pool m ! i)"

definition fixed_store :: "('k, 'v) fixed \<Rightarrow> nat \<Rightarrow> 'v \<Rightarrow> ('k, 'v) fixed" where
  "fixed_store m i v = m\<lparr>fx_pool := (fx_pool m)[i := (fx_pool m ! i)\<lparr>nd_value := v\<rparr>]\<rparr>"

definition fixed_subscript ::
  "('k \<Rightarrow> u64) \<Rightarrow> 'v \<Rightarrow> ('k, 'v) fixed \<Rightarrow> 'k \<Rightarrow> (nat \<times> ('k, 'v) fixed) res" where
  "fixed_subscript h dflt m key = (let index = fx_index h m key in
    case chain_walk (fx_pool m) key None (fx_buckets m ! index) of
      None \<Rightarrow> Inl Diverges
    | Some (previous, Some i) \<Rightarrow> Inr (i, m)
    | Some (previous, None) \<Rightarrow>
        (case fx_free m of
           [] \<Rightarrow> Inl no_free_nodes
         | new_node # rest \<Rightarrow>
             let m1 = m\<lparr>fx_free := rest,
                   fx_pool := (fx_pool m)[new_node := \<lparr>nd_key = key, nd_value = dflt, nd_next = None\<rparr>]\<rparr> in
             if fx_buckets m ! index = None
             then Inr (new_node, m1\<lparr>fx_buckets := (fx_buckets m1)[index := Some new_node]\<rparr>)
             else (case previous of
                     None \<Rightarrow> Inl (UB Null_Deref)
                   | Some p \<Rightarrow> Inr (new_node, m1\<lparr>fx_pool :=
                       (fx_pool m1)[p := (fx_pool m1 ! p)\<lparr>nd_next := Some new_node\<rparr>]\<rparr>))))"

definition fixed_insert ::
  "('k \<Rightarrow> u64) \<Rightarrow> ('k, 'v) fixed \<Rightarrow> 'k \<Rightarrow> 'v \<Rightarrow> ('k, 'v) fixed res" where
  "fixed_insert h m key val = (let index = fx_index h m key in
    case fx_free m of
      [] \<Rightarrow> Inl no_free_nodes
    | current # rest \<Rightarrow>
        let m1 = m\<lparr>fx_free := rest,
              fx_pool := (fx_pool m)[current := \<lparr>nd_key = key, nd_value = val, nd_next = None\<rparr>]\<rparr> in
        (case fx_buckets m1 ! index of
           None \<Rightarrow> Inr (m1\<lparr>fx_buckets := (fx_buckets m1)[index := Some current]\<rparr>)
         | Some node \<Rightarrow>
             (case chain_last (fx_pool m1) node of
                None \<Rightarrow> Inl Diverges
              | Some l \<Rightarrow> Inr (m1\<lparr>fx_pool :=
                  (fx_pool m1)[l := (fx_pool m1 ! l)\<lparr>nd_next := Some current\<rparr>]\<rparr>))))"

definition fixed_find :: "('k \<Rightarrow> u64) \<Rightarrow> ('k, 'v) fixed \<Rightarrow> 'k \<Rightarrow> nat option res" where
  "fixed_find h m key =
    (case chain_walk (fx_pool m) key None (fx_buckets m ! fx_index h m key) of
       None \<Rightarrow> Inl Diverges
     | Some (_, found) \<Rightarrow> Inr found)"

definition fixed_contains :: "('k \<Rightarrow> u64) \<Rightarrow> ('k, 'v) fixed \<Rightarrow> 'k \<Rightarrow> bool res" where
  "fixed_contains h m key =
    (case chain_walk (fx_pool m) key None (fx_buckets m ! fx_index h m key) of
       None \<Rightarrow> Inl Diverges
     | Some (_, found) \<Rightarrow> Inr (found \<noteq> None))"

definition fixed_erase :: "('k \<Rightarrow> u64) \<Rightarrow> ('k, 'v) fixed \<Rightarrow> 'k \<Rightarrow> (bool \<times> ('k, 'v) fixed) res" where
  "fixed_erase h m key = (let index = fx_index h m key in
    case chain_walk (fx_pool m) key None (fx_buckets m ! index) of
      None \<Rightarrow> Inl Diverges
    | Some (prev, None) \<Rightarrow> Inr (False, m)
    | Some (prev, Some i) \<Rightarrow>
        let next = nd_next (fx_pool m ! i);
            m1 = (case prev of
                    None \<Rightarrow> m\<lparr>fx_buckets := (fx_buckets m)[index := next]\<rparr>
                  | Some p \<Rightarrow> m\<lparr>fx_pool := (fx_pool m)[p := (fx_pool m ! p)\<lparr>nd_next := next\<rparr>]\<rparr>)
        in Inr (True, m1\<lparr>fx_free := i # fx_free m1\<rparr>))"

definition fixed_ops ::
  "('k \<Rightarrow> u64) \<Rightarrow> 'v \<Rightarrow> (('k, 'v) fixed, 'k, 'v, nat) hm_ops" where
  "fixed_ops h dflt = \<lparr>
    insert_op = fixed_insert h, contains_op = fixed_contains h, erase_op = fixed_erase h,
    find_op = fixed_find h, subscript_op = fixed_subscript h dflt,
    deref_op = fixed_deref, store_op = fixed_store\<rparr>"

section \<open>Chains of nodes\<close>

text \<open>
  \<open>seg pool p xs q\<close>: following the \<open>next\<close> pointers from \<open>p\<close> visits the nodes \<open>xs\<close> and then
  reaches \<open>q\<close>; a bucket's chain ends at the null pointer. \<open>links\<close> computes the nodes.
\<close>

primrec seg :: "('k, 'v) fnode list \<Rightarrow> nat option \<Rightarrow> nat list \<Rightarrow> nat option \<Rightarrow> bool" where
  "seg pool p [] q \<longleftrightarrow> p = q"
| "seg pool p (i # xs) q \<longleftrightarrow> p = Some i \<and> i < length pool \<and> seg pool (nd_next (pool ! i)) xs q"

abbreviation chain :: "('k, 'v) fnode list \<Rightarrow> nat option \<Rightarrow> nat list \<Rightarrow> bool" where
  "chain pool p xs \<equiv> seg pool p xs None"

fun links :: "nat \<Rightarrow> ('k, 'v) fnode list \<Rightarrow> nat option \<Rightarrow> nat list" where
  "links (Suc n) pool (Some i) = i # links n pool (nd_next (pool ! i))"
| "links _ _ _ = []"

lemma seg_append: "seg pool p (xs @ ys) q \<longleftrightarrow> (\<exists>r. seg pool p xs r \<and> seg pool r ys q)"
  by (induction xs arbitrary: p) auto

lemma seg_update [simp]: "i \<notin> set xs \<Longrightarrow> seg (pool[i := nd]) p xs q = seg pool p xs q"
  by (induction xs arbitrary: p) auto

lemma seg_agree:
  "length pool' = length pool \<Longrightarrow> \<forall>i \<in> set xs. pool' ! i = pool ! i \<Longrightarrow> seg pool' p xs q = seg pool p xs q"
  by (induction xs arbitrary: p) auto

lemma seg_lt: "seg pool p xs q \<Longrightarrow> i \<in> set xs \<Longrightarrow> i < length pool"
  by (induction xs arbitrary: p) auto

lemma chain_links: "chain pool p xs \<Longrightarrow> length xs \<le> n \<Longrightarrow> links n pool p = xs"
proof (induction xs arbitrary: p n)
  case Nil
  then show ?case by (cases n) auto
next
  case (Cons i xs)
  then show ?case by (cases n) auto
qed

lemma chain_length: "chain pool p xs \<Longrightarrow> distinct xs \<Longrightarrow> length xs \<le> length pool"
proof -
  assume "chain pool p xs" "distinct xs"
  then have "card (set xs) \<le> card {..<length pool}" by (intro card_mono) (auto dest: seg_lt)
  with \<open>distinct xs\<close> show ?thesis by (simp add: distinct_card)
qed

text \<open>The loops return on a chain, with the nodes the source reaches.\<close>

lemma chain_walk_miss:
  "chain pool p xs \<Longrightarrow> \<forall>i \<in> set xs. nd_key (pool ! i) \<noteq> key \<Longrightarrow>
    chain_walk pool key prev p = Some (if xs = [] then prev else Some (last xs), None)"
  by (induction xs arbitrary: p prev) (auto simp: chain_walk.simps)

lemma chain_walk_hit:
  "chain pool p (xs @ i # ys) \<Longrightarrow> \<forall>j \<in> set xs. nd_key (pool ! j) \<noteq> key \<Longrightarrow> nd_key (pool ! i) = key \<Longrightarrow>
    chain_walk pool key prev p = Some (if xs = [] then prev else Some (last xs), Some i)"
  by (induction xs arbitrary: p prev) (auto simp: chain_walk.simps)

lemma chain_last_chain: "chain pool (Some i) (i # xs) \<Longrightarrow> chain_last pool i = Some (last (i # xs))"
  by (induction xs arbitrary: i) (auto simp: chain_last.simps)

text \<open>Appending a node behind the last one, and unlinking one.\<close>

lemma chain_snoc:
  assumes "chain pool p xs" "xs \<noteq> []" "distinct xs" "n \<notin> set xs" "n < length pool"
    "nd_next (pool ! n) = None"
  shows "chain (pool[last xs := (pool ! last xs)\<lparr>nd_next := Some n\<rparr>]) p (xs @ [n])"
proof -
  obtain ys l where xs: "xs = ys @ [l]" using assms(2) by (metis append_butlast_last_id)
  with assms show ?thesis by (auto simp: seg_append)
qed

lemma chain_unlink:
  assumes "chain pool p (xs @ i # ys)" "xs \<noteq> []" "distinct (xs @ i # ys)"
  shows "chain (pool[last xs := (pool ! last xs)\<lparr>nd_next := nd_next (pool ! i)\<rparr>]) p (xs @ ys)"
proof -
  obtain zs l where xs: "xs = zs @ [l]" using assms(2) by (metis append_butlast_last_id)
  with assms show ?thesis by (auto simp: seg_append)
qed

section \<open>Abstraction and invariant\<close>

definition bucket_nodes :: "('k, 'v) fixed \<Rightarrow> nat \<Rightarrow> nat list" where
  "bucket_nodes m b = links (length (fx_pool m)) (fx_pool m) (fx_buckets m ! b)"

definition entries :: "('k, 'v) fnode list \<Rightarrow> nat list \<Rightarrow> ('k \<times> 'v) list" where
  "entries pool xs = map (\<lambda>i. (nd_key (pool ! i), nd_value (pool ! i))) xs"

definition fixed_map :: "('k \<Rightarrow> u64) \<Rightarrow> ('k, 'v) fixed \<Rightarrow> 'k \<Rightarrow> 'v option" where
  "fixed_map h m k = map_of (entries (fx_pool m) (bucket_nodes m (fx_index h m k))) k"

text \<open>
  Well-formed: matching power-of-two size and mask; each bucket is a null-terminated chain of
  nodes with distinct keys that hash to it; the free stack holds other nodes, each once.
\<close>

definition bucket_ok :: "('k \<Rightarrow> u64) \<Rightarrow> ('k, 'v) fixed \<Rightarrow> nat \<Rightarrow> nat list \<Rightarrow> bool" where
  "bucket_ok h m b xs \<longleftrightarrow> chain (fx_pool m) (fx_buckets m ! b) xs \<and>
     distinct (map (\<lambda>i. nd_key (fx_pool m ! i)) xs) \<and>
     (\<forall>i \<in> set xs. fx_index h m (nd_key (fx_pool m ! i)) = b) \<and>
     set xs \<inter> set (fx_free m) = {}"

definition fixed_inv :: "('k \<Rightarrow> u64) \<Rightarrow> ('k, 'v) fixed \<Rightarrow> bool" where
  "fixed_inv h m \<longleftrightarrow>
    (\<exists>k < 64. fx_mask m = 2 ^ k - 1 \<and> length (fx_buckets m) = 2 ^ k) \<and>
    (\<forall>b < length (fx_buckets m). bucket_ok h m b (bucket_nodes m b)) \<and>
    distinct (fx_free m) \<and> set (fx_free m) \<subseteq> {..<length (fx_pool m)}"

lemma bucket_ok_nodes: "bucket_ok h m b xs \<Longrightarrow> bucket_nodes m b = xs"
  by (auto simp: bucket_ok_def bucket_nodes_def distinct_map intro!: chain_links dest: chain_length)

lemma bucket_ok_distinct: "bucket_ok h m b xs \<Longrightarrow> distinct xs"
  by (simp add: bucket_ok_def distinct_map)

lemma fx_index_lt: "fixed_inv h m \<Longrightarrow> fx_index h m k < length (fx_buckets m)"
  by (auto simp: fixed_inv_def fx_index_def ring_simps)

lemma fixed_inv_bucket: "fixed_inv h m \<Longrightarrow> b < length (fx_buckets m) \<Longrightarrow> bucket_ok h m b (bucket_nodes m b)"
  by (simp add: fixed_inv_def)

lemma fx_index_update [simp]:
  "fx_index h (m\<lparr>fx_pool := p\<rparr>) k = fx_index h m k" "fx_index h (m\<lparr>fx_buckets := bs\<rparr>) k = fx_index h m k"
  "fx_index h (m\<lparr>fx_free := f\<rparr>) k = fx_index h m k"
  by (simp_all add: fx_index_def)

text \<open>
  An operation changes one bucket: if the others keep their head and their nodes, and the
  changed one is again a proper chain, the map changes at the operation's key only.
\<close>

lemma fixed_change_bucket:
  assumes inv: "fixed_inv h m" and b: "b = fx_index h m k"
    and shape: "fx_mask m' = fx_mask m" "length (fx_buckets m') = length (fx_buckets m)"
      "length (fx_pool m') = length (fx_pool m)"
    and others: "\<And>c. c < length (fx_buckets m) \<Longrightarrow> c \<noteq> b \<Longrightarrow> fx_buckets m' ! c = fx_buckets m ! c \<and>
      (\<forall>i \<in> set (bucket_nodes m c). fx_pool m' ! i = fx_pool m ! i \<and> i \<notin> set (fx_free m'))"
    and ok: "bucket_ok h m' b xs"
    and free: "distinct (fx_free m')" "set (fx_free m') \<subseteq> {..<length (fx_pool m)}"
    and upd: "map_of (entries (fx_pool m') xs) = (map_of (entries (fx_pool m) (bucket_nodes m b)))(k := x)"
  shows "fixed_inv h m' \<and> fixed_map h m' = (fixed_map h m)(k := x)"
proof
  have idx: "fx_index h m' q = fx_index h m q" for q by (simp add: fx_index_def shape(1))
  have other_ok: "bucket_ok h m' c (bucket_nodes m c)" if "c < length (fx_buckets m)" "c \<noteq> b" for c
    using fixed_inv_bucket [OF inv that(1)] others [OF that]
      seg_agree [OF shape(3), of "bucket_nodes m c" "fx_buckets m ! c" None]
    by (auto simp: bucket_ok_def idx cong: map_cong)
  have "bucket_ok h m' c (bucket_nodes m' c)" if "c < length (fx_buckets m)" for c
  proof (cases "c = b")
    case True
    with ok bucket_ok_nodes [OF ok] show ?thesis by simp
  next
    case False
    with other_ok [OF that False] bucket_ok_nodes [OF other_ok [OF that False]] show ?thesis by simp
  qed
  with inv free shape show "fixed_inv h m'" by (auto simp: fixed_inv_def)
  have "fixed_map h m' q = ((fixed_map h m)(k := x)) q" for q
  proof (cases "fx_index h m q = b")
    case True
    with upd bucket_ok_nodes [OF ok] show ?thesis by (auto simp: fixed_map_def idx fun_eq_iff b)
  next
    case False
    note lt = fx_index_lt [OF inv, of q]
    have "entries (fx_pool m') (bucket_nodes m (fx_index h m q))
        = entries (fx_pool m) (bucket_nodes m (fx_index h m q))"
      using others [OF lt False] by (auto simp: entries_def)
    with False b bucket_ok_nodes [OF other_ok [OF lt False]] show ?thesis
      by (auto simp: fixed_map_def idx)
  qed
  then show "fixed_map h m' = (fixed_map h m)(k := x)" by blast
qed

subsection \<open>What a walk finds\<close>

lemma fixed_map_None:
  "fixed_map h m k = None \<longleftrightarrow> (\<forall>i \<in> set (bucket_nodes m (fx_index h m k)). nd_key (fx_pool m ! i) \<noteq> k)"
  by (auto simp: fixed_map_def entries_def map_of_eq_None_iff image_iff)

lemma fixed_map_SomeE:
  assumes inv: "fixed_inv h m" and "fixed_map h m k = Some v"
  obtains ys i zs where "bucket_nodes m (fx_index h m k) = ys @ i # zs"
    and "nd_key (fx_pool m ! i) = k" and "nd_value (fx_pool m ! i) = v"
    and "\<forall>j \<in> set ys \<union> set zs. nd_key (fx_pool m ! j) \<noteq> k"
proof -
  let ?xs = "bucket_nodes m (fx_index h m k)"
  have d: "distinct (map (\<lambda>i. nd_key (fx_pool m ! i)) ?xs)"
    using fixed_inv_bucket [OF inv fx_index_lt [OF inv]] by (simp add: bucket_ok_def)
  have "(k, v) \<in> set (entries (fx_pool m) ?xs)"
    using assms(2) by (auto simp: fixed_map_def dest: map_of_SomeD)
  then obtain i where "i \<in> set ?xs" and i: "nd_key (fx_pool m ! i) = k" "nd_value (fx_pool m ! i) = v"
    by (auto simp: entries_def)
  then obtain ys zs where xs: "?xs = ys @ i # zs" by (auto dest: split_list)
  with d i(1) have "k \<notin> (\<lambda>i. nd_key (fx_pool m ! i)) ` (set ys \<union> set zs)" by auto
  then have "\<forall>j \<in> set ys \<union> set zs. nd_key (fx_pool m ! j) \<noteq> k" by force
  with xs i that show thesis by blast
qed

lemma walk_absent:
  assumes inv: "fixed_inv h m" and none: "fixed_map h m k = None"
  shows "chain_walk (fx_pool m) k None (fx_buckets m ! fx_index h m k) =
    Some (if bucket_nodes m (fx_index h m k) = [] then None
          else Some (last (bucket_nodes m (fx_index h m k))), None)"
  using fixed_inv_bucket [OF inv fx_index_lt [OF inv, of k]] none
  by (simp add: bucket_ok_def fixed_map_None chain_walk_miss)

lemma walk_present:
  assumes inv: "fixed_inv h m" and xs: "bucket_nodes m (fx_index h m k) = ys @ i # zs"
    and k: "nd_key (fx_pool m ! i) = k" "\<forall>j \<in> set ys \<union> set zs. nd_key (fx_pool m ! j) \<noteq> k"
  shows "chain_walk (fx_pool m) k None (fx_buckets m ! fx_index h m k) =
    Some (if ys = [] then None else Some (last ys), Some i)"
  using fixed_inv_bucket [OF inv fx_index_lt [OF inv, of k]] k
  by (intro chain_walk_hit [where ys = zs]) (auto simp: bucket_ok_def xs)

lemma bucket_empty_iff:
  "fixed_inv h m \<Longrightarrow> b < length (fx_buckets m) \<Longrightarrow> fx_buckets m ! b = None \<longleftrightarrow> bucket_nodes m b = []"
  by (drule (1) fixed_inv_bucket) (cases "bucket_nodes m b"; auto simp: bucket_ok_def)

lemma other_bucket_nodes:
  assumes inv: "fixed_inv h m" and "i \<in> set (bucket_nodes m b)" "b < length (fx_buckets m)"
    and "i \<in> set (bucket_nodes m c)" "c < length (fx_buckets m)"
  shows "b = c"
  using fixed_inv_bucket [OF inv assms(3)] fixed_inv_bucket [OF inv assms(5)] assms(2,4)
  by (auto simp: bucket_ok_def)

subsection \<open>Linking a free node behind the chain\<close>

text \<open>
  The state both insertions reach: the top free node \<open>n\<close> filled with \<open>(k, v)\<close> and linked as
  the last node of \<open>k\<close>'s bucket.
\<close>

definition linked :: "('k, 'v) fixed \<Rightarrow> nat \<Rightarrow> nat \<Rightarrow> nat list \<Rightarrow> 'k \<Rightarrow> 'v \<Rightarrow> ('k, 'v) fixed" where
  "linked m b n rest k v = (let xs = bucket_nodes m b;
      pool = (fx_pool m)[n := \<lparr>nd_key = k, nd_value = v, nd_next = None\<rparr>] in
    if xs = [] then m\<lparr>fx_free := rest, fx_pool := pool, fx_buckets := (fx_buckets m)[b := Some n]\<rparr>
    else m\<lparr>fx_free := rest,
      fx_pool := pool[last xs := (pool ! last xs)\<lparr>nd_next := Some n\<rparr>]\<rparr>)"

lemma linked_chain:
  assumes inv: "fixed_inv h m" and b: "b < length (fx_buckets m)" and free: "fx_free m = n # rest"
    and xs_def: "xs = bucket_nodes m b" and m'_def: "m' = linked m b n rest k v"
  shows "chain (fx_pool m') (fx_buckets m' ! b) (xs @ [n])"
    and "entries (fx_pool m') (xs @ [n]) = entries (fx_pool m) xs @ [(k, v)]"
    and "fx_mask m' = fx_mask m" "length (fx_buckets m') = length (fx_buckets m)"
      "length (fx_pool m') = length (fx_pool m)" "fx_free m' = rest"
    and "nd_value (fx_pool m' ! n) = v"
proof -
  have ok: "bucket_ok h m b xs" using inv b by (simp add: xs_def fixed_inv_def)
  have n: "n < length (fx_pool m)" "n \<notin> set xs"
    using inv ok free by (auto simp: fixed_inv_def bucket_ok_def)
  have d: "distinct xs" using ok by (rule bucket_ok_distinct)
  have c: "chain (fx_pool m) (fx_buckets m ! b) xs" using ok by (simp add: bucket_ok_def)
  show "chain (fx_pool m') (fx_buckets m' ! b) (xs @ [n])"
  proof (cases "xs = []")
    case True
    with n b show ?thesis by (simp add: m'_def linked_def xs_def)
  next
    case False
    from chain_snoc [OF _ False d n(2), of "(fx_pool m)[n := \<lparr>nd_key = k, nd_value = v, nd_next = None\<rparr>]"]
    show ?thesis using False n c by (simp add: m'_def linked_def Let_def xs_def)
  qed
  have lastn: "xs \<noteq> [] \<Longrightarrow> last xs \<noteq> n" using n by (metis last_in_set)
  have lastlt: "xs \<noteq> [] \<Longrightarrow> last xs < length (fx_pool m)" using seg_lt [OF c last_in_set] by simp
  have "map (\<lambda>i. (nd_key (fx_pool m' ! i), nd_value (fx_pool m' ! i))) xs = entries (fx_pool m) xs"
    unfolding entries_def
    by (rule map_cong) (use n lastlt in \<open>auto simp: m'_def linked_def Let_def xs_def nth_list_update\<close>)
  moreover have kv: "nd_key (fx_pool m' ! n) = k" "nd_value (fx_pool m' ! n) = v"
    using n lastn lastlt by (auto simp: m'_def linked_def Let_def xs_def)
  ultimately show "entries (fx_pool m') (xs @ [n]) = entries (fx_pool m) xs @ [(k, v)]"
    by (simp add: entries_def)
  show "nd_value (fx_pool m' ! n) = v" by (rule kv)
qed (auto simp: m'_def linked_def Let_def)

lemma linked_spec:
  assumes inv: "fixed_inv h m" and free: "fx_free m = n # rest" and none: "fixed_map h m k = None"
  defines "b \<equiv> fx_index h m k"
  shows "fixed_inv h (linked m b n rest k v) \<and>
    fixed_map h (linked m b n rest k v) = (fixed_map h m)(k \<mapsto> v)"
proof -
  let ?m' = "linked m b n rest k v" and ?xs = "bucket_nodes m b"
  have b: "b < length (fx_buckets m)" using fx_index_lt [OF inv] by (simp add: b_def)
  note lk = linked_chain [OF inv b free refl refl, of k v]
  have ok: "bucket_ok h m b ?xs" using inv b by (rule fixed_inv_bucket)
  have n: "n < length (fx_pool m)" "distinct (n # rest)" "set rest \<subseteq> {..<length (fx_pool m)}"
    using inv free by (auto simp: fixed_inv_def)
  have keys: "map (\<lambda>i. nd_key (fx_pool ?m' ! i)) (?xs @ [n]) = map (\<lambda>i. nd_key (fx_pool m ! i)) ?xs @ [k]"
    using arg_cong [OF lk(2), of "map fst"] by (simp add: entries_def comp_def)
  have idx: "fx_index h ?m' q = fx_index h m q" for q using lk(3) by (simp add: fx_index_def)
  have new: "k \<notin> (\<lambda>i. nd_key (fx_pool m ! i)) ` set ?xs"
    using none by (auto simp: fixed_map_None b_def)
  show ?thesis
  proof (rule fixed_change_bucket [OF inv b_def [THEN meta_eq_to_obj_eq] lk(3,4,5)])
    show "bucket_ok h ?m' b (?xs @ [n])"
      unfolding bucket_ok_def keys
    proof (intro conjI)
      show "chain (fx_pool ?m') (fx_buckets ?m' ! b) (?xs @ [n])" by (rule lk(1))
      show "distinct (map (\<lambda>i. nd_key (fx_pool m ! i)) ?xs @ [k])"
        using ok new by (simp add: bucket_ok_def)
      show "set (?xs @ [n]) \<inter> set (fx_free ?m') = {}"
        using ok n(2) free lk(6) by (auto simp: bucket_ok_def)
      have "\<forall>q \<in> set (map (\<lambda>i. nd_key (fx_pool m ! i)) ?xs @ [k]). fx_index h m q = b"
        using ok by (auto simp: bucket_ok_def b_def)
      then show "\<forall>i \<in> set (?xs @ [n]). fx_index h ?m' (nd_key (fx_pool ?m' ! i)) = b"
        unfolding idx keys [symmetric] by simp
    qed
    show "map_of (entries (fx_pool ?m') (?xs @ [n])) = (map_of (entries (fx_pool m) ?xs))(k := Some v)"
      unfolding lk(2) by (rule map_of_snoc) (use none in \<open>simp add: fixed_map_def b_def\<close>)
    show "distinct (fx_free ?m')" "set (fx_free ?m') \<subseteq> {..<length (fx_pool m)}"
      using n by (simp_all add: lk(6))
  next
    fix c assume c: "c < length (fx_buckets m)" "c \<noteq> b"
    have "i \<noteq> n \<and> i \<notin> set rest \<and> i \<notin> set ?xs" if "i \<in> set (bucket_nodes m c)" for i
      using fixed_inv_bucket [OF inv c(1)] that free c other_bucket_nodes [OF inv that c(1) _ b]
      by (auto simp: bucket_ok_def)
    then have "\<forall>i \<in> set (bucket_nodes m c). n \<noteq> i \<and> (?xs \<noteq> [] \<longrightarrow> last ?xs \<noteq> i) \<and> i \<notin> set rest"
      by (metis last_in_set)
    then show "fx_buckets ?m' ! c = fx_buckets m ! c \<and>
        (\<forall>i \<in> set (bucket_nodes m c). fx_pool ?m' ! i = fx_pool m ! i \<and> i \<notin> set (fx_free ?m'))"
      using c by (simp add: linked_def Let_def lk(6))
  qed
qed

subsection \<open>Each operation\<close>

lemma fixed_insert_eq:
  assumes inv: "fixed_inv h m"
  shows "fixed_insert h m k v = (case fx_free m of [] \<Rightarrow> Inl no_free_nodes
    | n # rest \<Rightarrow> Inr (linked m (fx_index h m k) n rest k v))"
proof (cases "fx_free m")
  case Nil
  then show ?thesis by (simp add: fixed_insert_def Let_def)
next
  case (Cons n rest)
  let ?b = "fx_index h m k" and ?p = "(fx_pool m)[n := \<lparr>nd_key = k, nd_value = v, nd_next = None\<rparr>]"
  have b: "?b < length (fx_buckets m)" using inv by (rule fx_index_lt)
  have ok: "bucket_ok h m ?b (bucket_nodes m ?b)" using inv b by (rule fixed_inv_bucket)
  show ?thesis
  proof (cases "bucket_nodes m ?b")
    case Nil
    with bucket_empty_iff [OF inv b] Cons show ?thesis
      by (simp add: fixed_insert_def linked_def Let_def)
  next
    case (Cons i xs)
    with ok \<open>fx_free m = n # rest\<close> have hd: "fx_buckets m ! ?b = Some i" and "n \<notin> set (i # xs)"
      and "chain (fx_pool m) (Some i) (i # xs)"
      by (auto simp: bucket_ok_def)
    then have "chain ?p (Some i) (i # xs)" by simp
    then have "chain_last ?p i = Some (last (i # xs))" by (rule chain_last_chain)
    with hd Cons \<open>fx_free m = n # rest\<close> show ?thesis
      by (simp add: fixed_insert_def linked_def Let_def)
  qed
qed

lemma fixed_subscript_absent:
  assumes inv: "fixed_inv h m" and none: "fixed_map h m k = None"
  shows "fixed_subscript h d m k = (case fx_free m of [] \<Rightarrow> Inl no_free_nodes
    | n # rest \<Rightarrow> Inr (n, linked m (fx_index h m k) n rest k d))"
  using walk_absent [OF inv none] bucket_empty_iff [OF inv fx_index_lt [OF inv, of k]]
  by (simp add: fixed_subscript_def linked_def Let_def split: list.split)

text \<open>Writing through a reference to the node of a key.\<close>

lemma fixed_store_spec:
  assumes inv: "fixed_inv h m" and xs: "bucket_nodes m (fx_index h m k) = ys @ i # zs"
    and k: "nd_key (fx_pool m ! i) = k"
  shows "fixed_inv h (fixed_store m i v) \<and> fixed_map h (fixed_store m i v) = (fixed_map h m)(k \<mapsto> v)"
proof -
  let ?m' = "fixed_store m i v" and ?b = "fx_index h m k" and ?xs = "ys @ i # zs"
  have b: "?b < length (fx_buckets m)" using inv by (rule fx_index_lt)
  have ok: "bucket_ok h m ?b ?xs" using fixed_inv_bucket [OF inv b] by (simp add: xs)
  have i: "i < length (fx_pool m)" "i \<notin> set ys" "i \<notin> set zs"
    using ok bucket_ok_distinct [OF ok] by (auto simp: bucket_ok_def dest: seg_lt)
  have key: "nd_key (fx_pool ?m' ! j) = nd_key (fx_pool m ! j)"
    and nxt: "nd_next (fx_pool ?m' ! j) = nd_next (fx_pool m ! j)" for j
    using i(1) by (auto simp: fixed_store_def nth_list_update)
  have chain_eq: "seg (fx_pool ?m') p js q = seg (fx_pool m) p js q" for p js q
    by (induction js arbitrary: p) (simp_all add: nxt, simp add: fixed_store_def)
  have ents: "entries (fx_pool ?m') ?xs = (entries (fx_pool m) ?xs)[length ys := (k, v)]"
    using i k by (auto simp: entries_def fixed_store_def list_update_append nth_list_update)
  show ?thesis
  proof (rule fixed_change_bucket [OF inv refl, where xs = ?xs])
    show "bucket_ok h ?m' ?b ?xs"
      using ok by (simp add: bucket_ok_def key chain_eq, simp add: fixed_store_def)
    have "distinct (map fst (entries (fx_pool m) ?xs))"
      using ok by (simp add: bucket_ok_def entries_def comp_def)
    moreover have "fst (entries (fx_pool m) ?xs ! length ys) = k" "length ys < length (entries (fx_pool m) ?xs)"
      using k by (simp_all add: entries_def nth_append)
    ultimately show "map_of (entries (fx_pool ?m') ?xs)
        = (map_of (entries (fx_pool m) (bucket_nodes m ?b)))(k := Some v)"
      using map_of_update_at [of "entries (fx_pool m) ?xs" "length ys" v] by (simp add: ents xs)
  next
    fix c assume c: "c < length (fx_buckets m)" "c \<noteq> ?b"
    have "i \<noteq> j \<and> j \<notin> set (fx_free m)" if "j \<in> set (bucket_nodes m c)" for j
      using fixed_inv_bucket [OF inv c(1)] that c other_bucket_nodes [OF inv that c(1) _ b]
      by (auto simp: bucket_ok_def xs)
    then show "fx_buckets ?m' ! c = fx_buckets m ! c \<and> (\<forall>j \<in> set (bucket_nodes m c).
        fx_pool ?m' ! j = fx_pool m ! j \<and> j \<notin> set (fx_free ?m'))"
      by (auto simp: fixed_store_def)
  qed (use inv in \<open>auto simp: fixed_store_def fixed_inv_def\<close>)
qed

text \<open>Unlinking the node of a key and returning it to the free stack.\<close>

definition unlinked :: "('k, 'v) fixed \<Rightarrow> nat \<Rightarrow> nat list \<Rightarrow> nat \<Rightarrow> ('k, 'v) fixed" where
  "unlinked m b ys i = (let next = nd_next (fx_pool m ! i) in
    (if ys = [] then m\<lparr>fx_buckets := (fx_buckets m)[b := next], fx_free := i # fx_free m\<rparr>
     else m\<lparr>fx_pool := (fx_pool m)[last ys := (fx_pool m ! last ys)\<lparr>nd_next := next\<rparr>],
            fx_free := i # fx_free m\<rparr>))"

lemma unlinked_same [simp]:
  "nd_key (fx_pool (unlinked m b ys i) ! j) = nd_key (fx_pool m ! j)"
  "nd_value (fx_pool (unlinked m b ys i) ! j) = nd_value (fx_pool m ! j)"
  "fx_index h (unlinked m b ys i) q = fx_index h m q"
  by (cases "j = last ys"; cases "j < length (fx_pool m)";
      simp add: unlinked_def Let_def nth_list_update list_update_beyond fx_index_def)+

lemma unlinked_chain:
  assumes c: "chain (fx_pool m) (fx_buckets m ! b) (ys @ i # zs)" and d: "distinct (ys @ i # zs)"
    and b: "b < length (fx_buckets m)"
  shows "chain (fx_pool (unlinked m b ys i)) (fx_buckets (unlinked m b ys i) ! b) (ys @ zs)"
proof (cases "ys = []")
  case True
  with c b show ?thesis by (auto simp: unlinked_def Let_def)
next
  case False
  from chain_unlink [OF c False d] False show ?thesis by (simp add: unlinked_def Let_def)
qed

lemma unlinked_spec:
  assumes inv: "fixed_inv h m" and xs: "bucket_nodes m (fx_index h m k) = ys @ i # zs"
    and k: "nd_key (fx_pool m ! i) = k" "\<forall>j \<in> set ys \<union> set zs. nd_key (fx_pool m ! j) \<noteq> k"
  defines "b \<equiv> fx_index h m k"
  shows "fixed_inv h (unlinked m b ys i) \<and> fixed_map h (unlinked m b ys i) = (fixed_map h m)(k := None)"
proof -
  let ?m' = "unlinked m b ys i" and ?xs = "ys @ i # zs"
  have b: "b < length (fx_buckets m)" using fx_index_lt [OF inv] by (simp add: b_def)
  have ok: "bucket_ok h m b ?xs" using fixed_inv_bucket [OF inv b] by (simp add: xs b_def)
  have d: "distinct ?xs" using ok by (rule bucket_ok_distinct)
  have lt: "\<forall>j \<in> set ?xs. j < length (fx_pool m)" using ok by (auto simp: bucket_ok_def dest: seg_lt)
  have ch: "chain (fx_pool ?m') (fx_buckets ?m' ! b) (ys @ zs)"
    using ok by (intro unlinked_chain [OF _ d b]) (simp add: bucket_ok_def)
  show ?thesis
  proof (rule fixed_change_bucket [OF inv b_def [THEN meta_eq_to_obj_eq], where xs = "ys @ zs"])
    show "bucket_ok h ?m' b (ys @ zs)"
      using ok ch d unfolding bucket_ok_def unlinked_same
      by (auto simp: unlinked_def Let_def)
    have "entries (fx_pool m) (ys @ zs) = filter (\<lambda>e. fst e \<noteq> k) (entries (fx_pool m) ?xs)"
      using k by (simp add: entries_def filter_id_conv)
    moreover have "entries (fx_pool ?m') (ys @ zs) = entries (fx_pool m) (ys @ zs)"
      by (simp add: entries_def)
    ultimately show "map_of (entries (fx_pool ?m') (ys @ zs))
        = (map_of (entries (fx_pool m) (bucket_nodes m b)))(k := None)"
      using xs by (simp add: map_of_filter_key b_def)
  next
    fix c assume c: "c < length (fx_buckets m)" "c \<noteq> b"
    have "j \<notin> set ?xs \<and> j \<notin> set (fx_free m)" if "j \<in> set (bucket_nodes m c)" for j
      using fixed_inv_bucket [OF inv c(1)] that c other_bucket_nodes [OF inv that c(1) _ b]
      by (auto simp: bucket_ok_def xs b_def)
    then have "\<forall>j \<in> set (bucket_nodes m c). i \<noteq> j \<and> (ys \<noteq> [] \<longrightarrow> last ys \<noteq> j) \<and> j \<notin> set (fx_free m)"
      by (metis in_set_conv_decomp last_in_set UnI1 set_append)
    with c show "fx_buckets ?m' ! c = fx_buckets m ! c \<and> (\<forall>j \<in> set (bucket_nodes m c).
        fx_pool ?m' ! j = fx_pool m ! j \<and> j \<notin> set (fx_free ?m'))"
      by (auto simp: unlinked_def Let_def)
  qed (use inv ok lt in \<open>auto simp: unlinked_def Let_def fixed_inv_def bucket_ok_def\<close>)
qed

lemma fixed_erase_walk:
  assumes "chain_walk (fx_pool m) k None (fx_buckets m ! fx_index h m k) =
    Some (if ys = [] then None else Some (last ys), Some i)"
  shows "fixed_erase h m k = Inr (True, unlinked m (fx_index h m k) ys i)"
  using assms by (simp add: fixed_erase_def unlinked_def Let_def)

lemma fixed_erase_spec:
  assumes inv: "fixed_inv h m"
  shows "\<exists>m'. fixed_erase h m k = Inr (fixed_map h m k \<noteq> None, m') \<and> fixed_inv h m' \<and>
    fixed_map h m' = (fixed_map h m)(k := None)"
proof (cases "fixed_map h m k")
  case None
  then show ?thesis using walk_absent [OF inv None] inv
    by (auto simp: fixed_erase_def Let_def fun_eq_iff split: if_splits)
next
  case (Some v)
  obtain ys i zs where n: "bucket_nodes m (fx_index h m k) = ys @ i # zs" "nd_key (fx_pool m ! i) = k"
    "\<forall>j \<in> set ys \<union> set zs. nd_key (fx_pool m ! j) \<noteq> k"
    using fixed_map_SomeE [OF inv Some] by metis
  from fixed_erase_walk [OF walk_present [OF inv n]] unlinked_spec [OF inv n] Some
  show ?thesis by auto
qed

lemma fixed_find_Some:
  assumes inv: "fixed_inv h m" and "fixed_map h m k = Some v"
  shows "\<exists>r. fixed_find h m k = Inr (Some r) \<and> fixed_contains h m k = Inr True \<and>
    fixed_subscript h d m k = Inr (r, m) \<and> fixed_deref m r = v \<and>
    (\<forall>w. fixed_inv h (fixed_store m r w) \<and> fixed_map h (fixed_store m r w) = (fixed_map h m)(k \<mapsto> w))"
proof -
  obtain ys i zs where n: "bucket_nodes m (fx_index h m k) = ys @ i # zs" "nd_key (fx_pool m ! i) = k"
    "nd_value (fx_pool m ! i) = v" "\<forall>j \<in> set ys \<union> set zs. nd_key (fx_pool m ! j) \<noteq> k"
    using fixed_map_SomeE [OF assms] by metis
  from walk_present [OF inv n(1,2,4)] fixed_store_spec [OF inv n(1,2)] n(3) show ?thesis
    by (simp add: fixed_find_def fixed_contains_def fixed_subscript_def fixed_deref_def Let_def
        split: if_splits)
qed

lemma fixed_find_None:
  assumes "fixed_inv h m" and "fixed_map h m k = None"
  shows "fixed_find h m k = Inr None" "fixed_contains h m k = Inr False"
  using walk_absent [OF assms] by (simp_all add: fixed_find_def fixed_contains_def)

lemma linked_store:
  assumes inv: "fixed_inv h m" and free: "fx_free m = n # rest"
  shows "fixed_store (linked m (fx_index h m k) n rest k v) n w = linked m (fx_index h m k) n rest k w"
proof -
  let ?b = "fx_index h m k"
  have ok: "bucket_ok h m ?b (bucket_nodes m ?b)" using inv fx_index_lt [OF inv] by (rule fixed_inv_bucket)
  have n: "n < length (fx_pool m)" using inv free by (auto simp: fixed_inv_def)
  have "last (bucket_nodes m ?b) \<noteq> n" if "bucket_nodes m ?b \<noteq> []"
    using ok free that by (auto simp: bucket_ok_def dest!: last_in_set)
  with n show ?thesis
    by (auto simp: fixed_store_def linked_def Let_def list_update_swap)
qed

lemma fixed_subscript_None:
  assumes inv: "fixed_inv h m" and none: "fixed_map h m k = None"
    and s: "fixed_subscript h d m k = Inr (r, m')"
  shows "fixed_inv h m' \<and> fixed_map h m' = (fixed_map h m)(k \<mapsto> d) \<and> fixed_deref m' r = d \<and>
    (\<forall>w. fixed_inv h (fixed_store m' r w) \<and> fixed_map h (fixed_store m' r w) = (fixed_map h m)(k \<mapsto> w))"
proof -
  obtain n rest where free: "fx_free m = n # rest" and r: "r = n"
    and m': "m' = linked m (fx_index h m k) n rest k d"
    using s by (auto simp: fixed_subscript_absent [OF inv none] split: list.splits)
  show ?thesis
    using linked_spec [OF inv free none] linked_store [OF inv free] 
      linked_chain(7) [OF inv fx_index_lt [OF inv] free refl refl, of k k d]
    by (simp add: r m' fixed_deref_def)
qed

lemma fixed_insert_absent:
  "fixed_inv h m \<Longrightarrow> fixed_map h m k = None \<Longrightarrow> fixed_insert h m k v = Inr m' \<Longrightarrow>
    fixed_inv h m' \<and> fixed_map h m' = (fixed_map h m)(k \<mapsto> v)"
  by (auto simp: fixed_insert_eq linked_spec split: list.splits)

section \<open>The contracts\<close>

interpretation fxm: subscript_map "fixed_ops h dflt" "fixed_inv h" "fixed_map h" dflt
  for h :: "'k \<Rightarrow> u64" and dflt :: 'v
proof (unfold_locales, goal_cases)
  case (1 m k)
  show ?case
    using fixed_find_None(2) [OF 1, of k] fixed_find_Some [OF 1, of k]
    by (cases "fixed_map h m k") (fastforce simp: fixed_ops_def)+
next
  case (6 m k)
  from fixed_erase_spec [OF this, of k] show ?case by (simp add: fixed_ops_def)
next
  case (7 m k v)
  from fixed_find_Some [OF this] show ?case by (auto simp: fixed_ops_def)
qed (auto simp: fixed_ops_def fixed_find_None
    dest: fixed_find_Some fixed_insert_absent fixed_subscript_None)

section \<open>Properties\<close>

lemma fixed_init_Inr:
  assumes "fixed_init k0 v0 n = Inr m"
  shows "fixed_inv h m \<and> fixed_map h m = Map.empty"
proof -
  have n: "n \<noteq> 0 \<and> n AND (n - 1) = 0"
    and m: "fx_buckets m = replicate (unat n) None" "fx_mask m = n - 1"
      "fx_free m = rev [0..<length (fx_pool m)]"
    using assms by (auto simp: fixed_init_def split: if_splits)
  then obtain j where j: "j < 64" "n = 2 ^ j" using pow2_test_iff [of n] by blast
  have empty: "bucket_nodes m b = []" if "b < length (fx_buckets m)" for b
    using that by (cases "length (fx_pool m)") (simp_all add: bucket_nodes_def m(1))
  with j have inv: "fixed_inv h m"
    by (auto simp: fixed_inv_def m unat_2p bucket_ok_def)
  then show ?thesis using empty [OF fx_index_lt [OF inv]] by (auto simp: fixed_map_def entries_def)
qed

text \<open>
  What \<open>find\<close> reads through any chain, also one that holds a key twice: the first of the nodes.
\<close>

lemma lookup_chain:
  assumes c: "chain (fx_pool m) (fx_buckets m ! fx_index h m k) xs"
  shows "lookup_op (fixed_ops h d) m k = Inr (map_of (entries (fx_pool m) xs) k)"
proof (cases "\<exists>i \<in> set xs. nd_key (fx_pool m ! i) = k")
  case True
  then obtain ys i zs where xs: "xs = ys @ i # zs" and k: "nd_key (fx_pool m ! i) = k" "\<forall>j \<in> set ys. nd_key (fx_pool m ! j) \<noteq> k"
    using split_list_first_prop [of xs "\<lambda>i. nd_key (fx_pool m ! i) = k"] by blast
  have "map_of (entries (fx_pool m) ys) k = None" using k(2) by (auto simp: entries_def map_of_eq_None_iff)
  then have "map_of (entries (fx_pool m) xs) k = Some (nd_value (fx_pool m ! i))"
    using k(1) by (simp add: xs entries_def map_add_def)
  then show ?thesis using chain_walk_hit [OF c [unfolded xs] k(2,1), of None]
    by (simp add: lookup_op_def fixed_ops_def fixed_find_def fixed_deref_def split del: if_split)
next
  case False
  then have "map_of (entries (fx_pool m) xs) k = None" by (auto simp: entries_def map_of_eq_None_iff)
  then show ?thesis using chain_walk_miss [OF c, of k None] False
    by (simp add: lookup_op_def fixed_ops_def fixed_find_def split del: if_split)
qed

lemma linked_lookup:
  assumes inv: "fixed_inv h m" and free: "fx_free m = n # rest"
  shows "lookup_op (fixed_ops h d) (linked m (fx_index h m k) n rest k v) q
    = Inr (if q = k \<and> fixed_map h m k = None then Some v else fixed_map h m q)"
proof -
  let ?b = "fx_index h m k" and ?c = "fx_index h m q"
  let ?m' = "linked m ?b n rest k v"
  note b = fx_index_lt [OF inv, of k] and c = fx_index_lt [OF inv, of q]
  note lk = linked_chain [OF inv b free refl refl, of k v]
  have idx: "fx_index h ?m' q = ?c" using lk(3) by (simp add: fx_index_def)
  show ?thesis
  proof (cases "?c = ?b")
    case True
    have "lookup_op (fixed_ops h d) ?m' q = Inr (map_of (entries (fx_pool m) (bucket_nodes m ?b) @ [(k, v)]) q)"
      using lookup_chain [of ?m' h q "bucket_nodes m ?b @ [n]" d] lk(1,2) by (simp add: idx True)
    moreover have "fixed_map h m q = map_of (entries (fx_pool m) (bucket_nodes m ?b)) q" by (simp add: fixed_map_def True)
    ultimately show ?thesis by (cases "q = k"; cases "fixed_map h m q") (auto simp: map_add_def split: option.splits)
  next
    case False
    note ok = fixed_inv_bucket [OF inv c]
    have "i \<noteq> n \<and> i \<notin> set (bucket_nodes m ?b)" if "i \<in> set (bucket_nodes m ?c)" for i
      using ok that free other_bucket_nodes [OF inv that c _ b] False by (auto simp: bucket_ok_def)
    then have "\<forall>i \<in> set (bucket_nodes m ?c). n \<noteq> i \<and> (bucket_nodes m ?b \<noteq> [] \<longrightarrow> last (bucket_nodes m ?b) \<noteq> i)"
      by (metis last_in_set)
    then have same: "fx_buckets ?m' ! ?c = fx_buckets m ! ?c" "\<forall>i \<in> set (bucket_nodes m ?c). fx_pool ?m' ! i = fx_pool m ! i"
      using False by (simp_all add: linked_def Let_def)
    then have "chain (fx_pool ?m') (fx_buckets ?m' ! ?c) (bucket_nodes m ?c)"
      using ok seg_agree [OF lk(5)] by (simp add: bucket_ok_def)
    from lookup_chain [of ?m' h q, unfolded idx, OF this, of d] show ?thesis
      using False same(2) by (auto simp: fixed_map_def entries_def cong: map_cong)
  qed
qed

lemma fixed_insert_reads:
  assumes inv: "fixed_inv h m"
  shows "case fx_free m of [] \<Rightarrow> fixed_insert h m k v = Inl no_free_nodes
    | n # rest \<Rightarrow> \<exists>m'. fixed_insert h m k v = Inr m' \<and> fx_free m' = rest \<and>
        (\<forall>q. lookup_op (fixed_ops h d) m' q = Inr (if q = k \<and> fixed_map h m k = None then Some v else fixed_map h m q)) \<and>
        (fixed_map h m k = None \<longrightarrow> fixed_inv h m' \<and> fixed_map h m' = (fixed_map h m)(k \<mapsto> v))"
proof (cases "fx_free m")
  case (Cons n rest)
  have "fx_free (linked m (fx_index h m k) n rest k v) = rest" by (simp add: linked_def Let_def)
  then show ?thesis using linked_lookup [OF inv Cons, of d k v] linked_spec [OF inv Cons, of k v]
    by (simp add: fixed_insert_eq [OF inv] Cons)
qed (simp add: fixed_insert_eq [OF inv])

text \<open>
  C30: On a well-formed \<^verbatim>\<open>FixedSizedChainingHashMap\<close> every loop returns. \<open>contains\<close> and \<open>find\<close>
  read a finite map; \<open>erase\<close> removes a key and says whether it was there; \<open>hm[key] = value\<close>
  updates the map at any key, and throws exactly when the key is absent and no node is free.
  \<open>insert\<close> throws exactly when no node is free, else uses up the top free node: an absent key is
  added to the map, and at a key that is present every key reads as before. Every operation keeps
  the map well-formed, but for an \<open>insert\<close> at a present key.
\<close>

theorem fixed_refines_map:
  assumes inv: "fixed_inv h m"
  shows "fixed_contains h m k = Inr (fixed_map h m k \<noteq> None) \<and>
    lookup_op (fixed_ops h d) m k = Inr (fixed_map h m k) \<and>
    (\<exists>m'. fixed_erase h m k = Inr (fixed_map h m k \<noteq> None, m') \<and> fixed_inv h m' \<and>
      fixed_map h m' = (fixed_map h m)(k := None)) \<and>
    (if fixed_map h m k = None \<and> fx_free m = []
     then assign_op (fixed_ops h d) m k v = Inl no_free_nodes
     else \<exists>m'. assign_op (fixed_ops h d) m k v = Inr m' \<and> fixed_inv h m' \<and>
       fixed_map h m' = (fixed_map h m)(k \<mapsto> v)) \<and>
    (case fx_free m of [] \<Rightarrow> fixed_insert h m k v = Inl no_free_nodes
     | n # rest \<Rightarrow> \<exists>m'. fixed_insert h m k v = Inr m' \<and> fx_free m' = rest \<and>
         (\<forall>q. lookup_op (fixed_ops h d) m' q = Inr (if q = k \<and> fixed_map h m k = None then Some v else fixed_map h m q)) \<and>
         (fixed_map h m k = None \<longrightarrow> fixed_inv h m' \<and> fixed_map h m' = (fixed_map h m)(k \<mapsto> v)))"
proof (intro conjI)
  show "fixed_contains h m k = Inr (fixed_map h m k \<noteq> None)"
    using fxm.contains [OF inv, of d k] by (simp add: fixed_ops_def)
  show "lookup_op (fixed_ops h d) m k = Inr (fixed_map h m k)" by (rule fxm.lookup [OF inv])
  have "returns (assign_op (fixed_ops h d) m k v) \<longleftrightarrow> \<not> (fixed_map h m k = None \<and> fx_free m = [])"
    using fixed_find_Some [OF inv, of k _ d]
    by (cases "fixed_map h m k") (auto simp: assign_op_def fixed_ops_def
        fixed_subscript_absent [OF inv] returns_iff split: list.split)
  moreover have "fixed_map h m k = None \<Longrightarrow> fx_free m = [] \<Longrightarrow>
      assign_op (fixed_ops h d) m k v = Inl no_free_nodes"
    by (simp add: assign_op_def fixed_ops_def fixed_subscript_absent [OF inv])
  ultimately show "if fixed_map h m k = None \<and> fx_free m = []
     then assign_op (fixed_ops h d) m k v = Inl no_free_nodes
     else \<exists>m'. assign_op (fixed_ops h d) m k v = Inr m' \<and> fixed_inv h m' \<and>
       fixed_map h m' = (fixed_map h m)(k \<mapsto> v)"
    using fxm.assign [OF inv, of d k v] by (auto simp: returns_iff)
qed (rule fixed_erase_spec [OF inv], rule fixed_insert_reads [OF inv])

definition fixed_sample :: "(nat, nat) fixed" where
  "fixed_sample = \<lparr>fx_buckets = [Some 0, None],
    fx_pool = [\<lparr>nd_key = 6, nd_value = 60, nd_next = None\<rparr>, \<lparr>nd_key = 0, nd_value = 0, nd_next = None\<rparr>],
    fx_free = [1], fx_mask = 1\<rparr>"

lemma fixed_sample_inv: "fixed_inv of_nat fixed_sample"
proof -
  have nodes: "bucket_nodes fixed_sample 0 = [0]" "bucket_nodes fixed_sample (Suc 0) = []"
    by (simp_all add: bucket_nodes_def fixed_sample_def numeral_eq_Suc)
  have "bucket_ok of_nat fixed_sample b (bucket_nodes fixed_sample b)" if "b < 2" for b
    using that nodes by (auto simp: less_Suc_eq numeral_2_eq_2 bucket_ok_def fx_index_def)
      (simp_all add: fixed_sample_def)
  moreover have "\<exists>k<64. fx_mask fixed_sample = 2 ^ k - 1 \<and> length (fx_buckets fixed_sample) = 2 ^ k"
    by (rule exI [of _ 1]) (simp add: fixed_sample_def)
  ultimately show ?thesis unfolding fixed_inv_def by (simp add: fixed_sample_def numeral_2_eq_2)
qed

lemma fixed_sample_map: "fixed_map of_nat fixed_sample 6 = Some 60"
  by (simp add: fixed_map_def fx_index_def bucket_nodes_def entries_def fixed_sample_def)

lemma fixed_refines_map_witness:
  "fixed_contains of_nat fixed_sample 6 = Inr True \<and>
    (\<exists>m'. assign_op (fixed_ops of_nat 0) fixed_sample 6 61 = Inr m' \<and> fixed_map of_nat m' 6 = Some 61) \<and>
    (\<exists>m'. fixed_insert of_nat fixed_sample 4 40 = Inr m' \<and> fixed_map of_nat m' 4 = Some 40 \<and> fx_free m' = [])"
proof -
  have "fixed_map of_nat fixed_sample 4 = None" "fx_free fixed_sample = [1]"
    by (simp_all add: fixed_map_def fx_index_def bucket_nodes_def entries_def fixed_sample_def)
  with fixed_refines_map [OF fixed_sample_inv, of 6 0 61] fixed_refines_map [OF fixed_sample_inv, of 4 0 40]
  show ?thesis by (auto simp: fixed_sample_map)
qed

text \<open>
  \<open>insert\<close> does not look for the key. On a key that is present it takes a second node: the
  old value stays visible, and erasing the key uncovers the new one.
\<close>

lemma linked_walk:
  assumes inv: "fixed_inv h m" and free: "fx_free m = n # rest"
    and ns: "bucket_nodes m (fx_index h m k) = ys @ i # zs"
    and k: "nd_key (fx_pool m ! i) = k" "\<forall>j \<in> set ys \<union> set zs. nd_key (fx_pool m ! j) \<noteq> k"
    and m'_def: "m' = linked m (fx_index h m k) n rest k v"
  shows "chain (fx_pool m') (fx_buckets m' ! fx_index h m k) (ys @ i # zs @ [n])"
    and "distinct (ys @ i # zs @ [n])" and "fx_index h m' k = fx_index h m k"
    and "\<forall>j \<in> set ys \<union> set zs. nd_key (fx_pool m' ! j) \<noteq> k"
    and "nd_key (fx_pool m' ! i) = k" "nd_value (fx_pool m' ! i) = nd_value (fx_pool m ! i)"
    and "nd_key (fx_pool m' ! n) = k" "nd_value (fx_pool m' ! n) = v"
proof -
  note lk = linked_chain [OF inv fx_index_lt [OF inv] free ns [symmetric] refl, of k v, folded m'_def]
  show "chain (fx_pool m') (fx_buckets m' ! fx_index h m k) (ys @ i # zs @ [n])" using lk(1) by simp
  have "bucket_ok h m (fx_index h m k) (ys @ i # zs)"
    using fixed_inv_bucket [OF inv fx_index_lt [OF inv, of k]] by (simp add: ns)
  then show "distinct (ys @ i # zs @ [n])"
    using bucket_ok_distinct free by (fastforce simp: bucket_ok_def)
  show "fx_index h m' k = fx_index h m k" using lk(3) by (simp add: fx_index_def)
  have e: "\<forall>j \<in> set (ys @ i # zs). nd_key (fx_pool m' ! j) = nd_key (fx_pool m ! j) \<and>
      nd_value (fx_pool m' ! j) = nd_value (fx_pool m ! j)"
    and "nd_key (fx_pool m' ! n) = k \<and> nd_value (fx_pool m' ! n) = v"
    using lk(2) by (auto simp: entries_def)
  with k show "\<forall>j \<in> set ys \<union> set zs. nd_key (fx_pool m' ! j) \<noteq> k"
    and "nd_key (fx_pool m' ! i) = k" "nd_value (fx_pool m' ! i) = nd_value (fx_pool m ! i)"
    and "nd_key (fx_pool m' ! n) = k" "nd_value (fx_pool m' ! n) = v"
    by simp_all
qed

text \<open>
  C31: \<open>insert\<close> on a \<^verbatim>\<open>FixedSizedChainingHashMap\<close> whose key is already present does not
  replace the value: \<open>find\<close> still reads the old one, and after one \<open>erase\<close> the key is still
  there, now with the inserted value.
\<close>

theorem fixed_insert_duplicates:
  assumes inv: "fixed_inv h m" and old: "fixed_map h m k = Some w"
    and ins: "fixed_insert h m k v = Inr m'"
  shows "lookup_op (fixed_ops h d) m' k = Inr (Some w) \<and>
    (\<exists>m''. fixed_erase h m' k = Inr (True, m'') \<and> lookup_op (fixed_ops h d) m'' k = Inr (Some v))"
proof -
  obtain ys i zs where ns: "bucket_nodes m (fx_index h m k) = ys @ i # zs"
    "nd_key (fx_pool m ! i) = k" "\<forall>j \<in> set ys \<union> set zs. nd_key (fx_pool m ! j) \<noteq> k"
    and w: "nd_value (fx_pool m ! i) = w"
    using fixed_map_SomeE [OF inv old] by metis
  obtain n rest where free: "fx_free m = n # rest" and m': "m' = linked m (fx_index h m k) n rest k v"
    using ins by (auto simp: fixed_insert_eq [OF inv] split: list.splits)
  note lw = linked_walk [OF inv free ns m']
  let ?b = "fx_index h m k" and ?m'' = "unlinked m' (fx_index h m k) ys i"
  have b: "?b < length (fx_buckets m')"
    using linked_chain(4) [OF inv fx_index_lt [OF inv, of k] free refl m'] fx_index_lt [OF inv, of k] by simp
  have walk: "chain_walk (fx_pool m') k None (fx_buckets m' ! ?b) =
      Some (if ys = [] then None else Some (last ys), Some i)"
    by (rule chain_walk_hit [OF lw(1)]) (use lw(4,5) in auto)
  have "chain (fx_pool ?m'') (fx_buckets ?m'' ! ?b) ((ys @ zs) @ n # [])"
    using unlinked_chain [OF lw(1,2) b] by simp
  from chain_walk_hit [OF this, of k None] lw(4,7)
  have walk': "chain_walk (fx_pool ?m'') k None (fx_buckets ?m'' ! ?b) =
      Some (if ys @ zs = [] then None else Some (last (ys @ zs)), Some n)"
    by simp
  have "lookup_op (fixed_ops h d) m' k = Inr (Some w)"
    using walk lw(3,6) w
    by (simp add: lookup_op_def fixed_ops_def fixed_find_def fixed_deref_def split del: if_split)
  moreover have "fixed_erase h m' k = Inr (True, ?m'')"
    using fixed_erase_walk [of m' k h ys i] walk lw(3) by simp
  moreover have "lookup_op (fixed_ops h d) ?m'' k = Inr (Some v)"
    using walk' lw(3,8)
    by (simp add: lookup_op_def fixed_ops_def fixed_find_def fixed_deref_def split del: if_split)
  ultimately show ?thesis by blast
qed

lemma fixed_insert_duplicates_witness:
  "\<exists>m'. fixed_insert of_nat fixed_sample 6 61 = Inr m' \<and>
    lookup_op (fixed_ops of_nat 0) m' 6 = Inr (Some 60)"
proof -
  have "returns (fixed_insert of_nat fixed_sample 6 61)"
    by (simp add: fixed_insert_eq [OF fixed_sample_inv]) (simp add: fixed_sample_def)
  then obtain m' where "fixed_insert of_nat fixed_sample 6 61 = Inr m'" by (auto simp: returns_iff)
  with fixed_insert_duplicates [OF fixed_sample_inv fixed_sample_map this, of 0] show ?thesis by blast
qed

text \<open>The test program on \<^verbatim>\<open>FixedSizedChainingHashMap<int, std::string>\<close>.\<close>

definition fixed_empty :: "'k \<Rightarrow> 'v \<Rightarrow> u64 \<Rightarrow> ('k, 'v) fixed" where
  "fixed_empty k0 v0 n = \<lparr>fx_buckets = replicate (unat n) None,
    fx_pool = replicate (unat (n * 16)) \<lparr>nd_key = k0, nd_value = v0, nd_next = None\<rparr>,
    fx_free = rev [0..<unat (n * 16)], fx_mask = n - 1\<rparr>"

interpretation fxt: tested_map "fixed_ops h []" "fixed_inv h" "fixed_map h" "[]"
    "fixed_empty (0 :: int) [] 32"
  for h :: "int \<Rightarrow> u64"
proof unfold_locales
  have i: "fixed_init 0 [] 32 = Inr (fixed_empty 0 [] 32 :: (int, string) fixed)"
    by (simp add: fixed_init_def fixed_empty_def)
  show "fixed_inv h (fixed_empty 0 [] 32 :: (int, string) fixed)"
    and "fixed_map h (fixed_empty 0 [] 32 :: (int, string) fixed) = Map.empty"
    using fixed_init_Inr [OF i, of h] by auto
qed

lemma fixed_free_ops:
  assumes inv: "fixed_inv h m"
  shows "length (fx_free m) = Suc n \<Longrightarrow> \<exists>m'. fixed_insert h m k v = Inr m' \<and> length (fx_free m') = n"
    and "n < length (fx_free m) \<Longrightarrow> \<exists>r m'. fixed_subscript h d m k = Inr (r, m') \<and> n \<le> length (fx_free m')"
proof -
  have free: "fx_free (linked m b j rest k x) = rest" for b j rest x by (simp add: linked_def Let_def)
  show "length (fx_free m) = Suc n \<Longrightarrow> \<exists>m'. fixed_insert h m k v = Inr m' \<and> length (fx_free m') = n"
    by (cases "fx_free m") (auto simp: fixed_insert_eq [OF inv] free)
  show "n < length (fx_free m) \<Longrightarrow> \<exists>r m'. fixed_subscript h d m k = Inr (r, m') \<and> n \<le> length (fx_free m')"
    using fixed_find_Some [OF inv, of k _ d] fixed_subscript_absent [OF inv, of k d]
    by (cases "fixed_map h m k"; cases "fx_free m") (fastforce simp: free)+
qed

text \<open>
  The test program of test/TestHashMap.cpp, run on a \<^verbatim>\<open>FixedSizedChainingHashMap<int,
  std::string>\<close> of 32 buckets (512 nodes) with any hash function, returns and prints the
  expected lines.
\<close>

lemma fixed_test_output:
  "testHashMap (fixed_ops h []) (fixed_empty 0 [] 32) = Inr (testHashMap_output [])"
proof (rule fxt.test_returns [where Q = "\<lambda>m n. n \<le> length (fx_free m)"])
  show "5 \<le> length (fx_free (fixed_empty 0 [] 32))" by (simp add: fixed_empty_def)
  fix m :: "(int, string) fixed" and n k v
  assume inv: "fixed_inv h m"
  { assume "Suc n \<le> length (fx_free m)"
    then obtain c where "length (fx_free m) = Suc c" "n \<le> c" by (cases "fx_free m") auto
    with fixed_free_ops(1) [OF inv, of c k v]
    show "\<exists>m'. insert_op (fixed_ops h []) m k v = Inr m' \<and> n \<le> length (fx_free m')"
      by (auto simp: fixed_ops_def) }
  { assume "Suc n \<le> length (fx_free m)"
    with fixed_free_ops(2) [OF inv, of n "[]" k]
    show "\<exists>r m'. subscript_op (fixed_ops h []) m k = Inr (r, m') \<and> n \<le> length (fx_free m')"
      by (auto simp: fixed_ops_def) }
  { fix b m' assume "n \<le> length (fx_free m)" "erase_op (fixed_ops h []) m k = Inr (b, m')"
    then show "n \<le> length (fx_free m')"
      by (auto simp: fixed_ops_def fixed_erase_def Let_def split: option.splits) }
qed (simp add: fixed_ops_def fixed_store_def)

end
