(* ===== verification/FloatModel.thy ===== *)
theory FloatModel
  imports Prelude Complex_Main "HOL-Library.Log_Nat"
begin

text \<open>
  Binary floating point as the program uses it: \<^verbatim>\<open>float\<close> (24 significant bits) and
  \<^verbatim>\<open>double\<close> (53), rounding to nearest, ties to even. A finite value is the rational number it
  denotes, and an operation is the exact one followed by \<open>rnd p\<close>. The exponent is unbounded:
  overflow to infinity and subnormal results are outside the model, and the components that use
  it say why their values stay inside.
\<close>

section \<open>Rounding\<close>

definition round_half_even :: "rat \<Rightarrow> int" where
  "round_half_even y = (let f = \<lfloor>y\<rfloor>; r = y - of_int f in
    if r < 1 / 2 then f else if 1 / 2 < r then f + 1 else if even f then f else f + 1)"

text \<open>The exponent \<open>e\<close> with \<open>2 ^ e \<le> x < 2 ^ (e + 1)\<close>.\<close>

definition ilog2 :: "rat \<Rightarrow> int" where
  "ilog2 x = (case quotient_of x of (a, b) \<Rightarrow> let d = bitlen a - bitlen b in
    if 2 powi d \<le> x then d else d - 1)"

definition rnd :: "nat \<Rightarrow> rat \<Rightarrow> rat" where
  "rnd p x = (if x = 0 then 0
    else let u = 2 powi (ilog2 \<bar>x\<bar> - (int p - 1)) in of_int (round_half_even (x / u)) * u)"

subsection \<open>Rounding to an integer\<close>

lemma round_half_even_error: "\<bar>of_int (round_half_even y) - y\<bar> \<le> 1 / 2"
proof -
  have "of_int \<lfloor>y\<rfloor> \<le> y" "y < of_int \<lfloor>y\<rfloor> + 1" by linarith+
  then show ?thesis by (auto simp: round_half_even_def Let_def abs_le_iff)
qed

lemma round_half_even_of_int [simp]: "round_half_even (of_int n) = n"
  by (simp add: round_half_even_def)

lemma round_half_even_unique: "\<bar>of_int n - y\<bar> < 1 / 2 \<Longrightarrow> round_half_even y = n"
proof -
  assume "\<bar>of_int n - y\<bar> < 1 / 2"
  with round_half_even_error [of y] have "\<bar>of_int (round_half_even y) - (of_int n :: rat)\<bar> < 1" by linarith
  then have "\<bar>round_half_even y - n\<bar> < 1" by (simp only: flip: of_int_diff of_int_abs)
  then show ?thesis by simp
qed

subsection \<open>The exponent\<close>

lemma powi_2_pos [simp]: "0 < (2 :: rat) powi e"
  by (simp add: zero_less_power_int)

lemma powi_2_Suc: "(2 :: rat) powi (e + 1) = 2 * 2 powi e"
  by (simp add: power_int_add)

lemma ilog2_bounds:
  assumes "0 < x"
  shows "2 powi ilog2 x \<le> x" and "x < 2 powi (ilog2 x + 1)"
proof -
  obtain a b where q: "quotient_of x = (a, b)" by fastforce
  then have b: "0 < b" and x: "x = of_int a / of_int b"
    using quotient_of_denom_pos quotient_of_div by blast+
  with assms have a: "0 < a" by (simp add: zero_less_divide_iff)
  define d where "d = bitlen a - bitlen b"
  have bit: "2 powi (bitlen c - 1) \<le> (of_int c :: rat)" "of_int c < (2 :: rat) powi bitlen c" if "0 < c" for c
  proof -
    have c: "2 ^ nat (bitlen c - 1) \<le> c" "c < 2 ^ nat (bitlen c)"
      using bitlen_bounds [OF that] by blast+
    with that have "0 < bitlen c" by (cases "bitlen c \<le> 0") simp_all
    then obtain l where l: "bitlen c = int (Suc l)" by (metis gr0_implies_Suc zero_less_imp_eq_int)
    then have "nat (bitlen c - 1) = l" "nat (bitlen c) = Suc l" by simp_all
    with c have "(of_int (2 ^ l) :: rat) \<le> of_int c" "(of_int c :: rat) < of_int (2 ^ Suc l)"
      by (simp_all only: of_int_le_iff of_int_less_iff)
    moreover have "(2 :: rat) powi (bitlen c - 1) = of_int (2 ^ l)" "(2 :: rat) powi bitlen c = of_int (2 ^ Suc l)"
      by (simp_all add: l power_int_add)
    ultimately show "2 powi (bitlen c - 1) \<le> (of_int c :: rat)" "of_int c < (2 :: rat) powi bitlen c"
      by (simp_all only:)
  qed
  have "2 powi (d - 1) = 2 powi (bitlen a - 1) / (2 :: rat) powi bitlen b"
    by (simp add: d_def power_int_diff)
  also have "\<dots> \<le> x"
    unfolding x using bit [OF a] bit [OF b] a b by (intro frac_le) auto
  finally have lo: "2 powi (d - 1) \<le> x" .
  have "x < 2 powi bitlen a / (2 :: rat) powi (bitlen b - 1)"
    unfolding x using bit [OF a] bit [OF b] a b by (intro frac_less) auto
  also have "\<dots> = 2 powi (d + 1)" by (simp add: d_def power_int_diff power_int_add)
  finally have hi: "x < 2 powi (d + 1)" .
  have l: "ilog2 x = (if 2 powi d \<le> x then d else d - 1)"
    by (simp add: ilog2_def q d_def Let_def)
  show "2 powi ilog2 x \<le> x" using lo by (simp add: l)
  show "x < 2 powi (ilog2 x + 1)" using hi by (simp add: l)
qed

lemma powi_2_less_iff [simp]: "(2 :: rat) powi d < 2 powi e \<longleftrightarrow> d < e"
  using power_int_strict_increasing [of d e "2 :: rat"] power_int_increasing [of e d "2 :: rat"]
  by linarith

lemma ilog2_unique:
  assumes "2 powi e \<le> x" and "x < 2 powi (e + 1)"
  shows "ilog2 x = e"
proof -
  have "0 < x" using assms(1) powi_2_pos [of e] by linarith
  note b = ilog2_bounds [OF this]
  have "2 powi e < (2 :: rat) powi (ilog2 x + 1)" "2 powi ilog2 x < (2 :: rat) powi (e + 1)"
    using assms b by linarith+
  then show ?thesis by simp
qed

subsection \<open>Rounding to \<open>p\<close> bits\<close>

lemma rnd_0 [simp]: "rnd p 0 = 0"
  by (simp add: rnd_def)

text \<open>The rounding error is at most half a unit in the last place.\<close>

lemma rnd_error_ulp:
  assumes "x \<noteq> 0"
  shows "\<bar>rnd p x - x\<bar> \<le> 2 powi (ilog2 \<bar>x\<bar> - int p)"
proof -
  define u where "u = (2 :: rat) powi (ilog2 \<bar>x\<bar> - (int p - 1))"
  have u: "0 < u" by (simp add: u_def)
  have "\<bar>rnd p x - x\<bar> = \<bar>of_int (round_half_even (x / u)) - x / u\<bar> * u"
  proof -
    have "rnd p x - x = (of_int (round_half_even (x / u)) - x / u) * u"
      using assms u by (simp add: rnd_def Let_def left_diff_distrib flip: u_def)
    then show ?thesis using u by (simp add: abs_mult)
  qed
  also have "\<dots> \<le> 1 / 2 * u"
    using round_half_even_error [of "x / u"] u by (intro mult_right_mono) simp_all
  also have "\<dots> = 2 powi (ilog2 \<bar>x\<bar> - int p)"
    using powi_2_Suc [of "ilog2 \<bar>x\<bar> - int p"] by (simp add: u_def algebra_simps)
  finally show ?thesis .
qed

lemma rnd_error: "\<bar>rnd p x - x\<bar> \<le> \<bar>x\<bar> / 2 ^ p"
proof (cases "x = 0")
  case False
  have "2 powi (ilog2 \<bar>x\<bar> - int p) = 2 powi ilog2 \<bar>x\<bar> / (2 :: rat) ^ p"
    by (simp add: power_int_diff)
  also have "\<dots> \<le> \<bar>x\<bar> / 2 ^ p"
    using ilog2_bounds(1) [of "\<bar>x\<bar>"] False by (intro divide_right_mono) simp_all
  finally show ?thesis using rnd_error_ulp [OF False, of p] by linarith
qed simp

text \<open>A closed instance is evaluated by giving the exponent and the rounded quotient.\<close>

lemma rnd_eqI:
  assumes "2 powi e \<le> \<bar>x\<bar>" "\<bar>x\<bar> < 2 powi (e + 1)" "\<bar>of_int n - x / 2 powi (e - (int p - 1))\<bar> < 1 / 2"
  shows "rnd p x = of_int n * 2 powi (e - (int p - 1))"
proof -
  have "x \<noteq> 0"
  proof
    assume "x = 0"
    with assms(1) have "2 powi e \<le> (0 :: rat)" by simp
    with powi_2_pos [of e] show False by linarith
  qed
  with ilog2_unique [OF assms(1,2)] round_half_even_unique [OF assms(3)]
  show ?thesis by (simp add: rnd_def Let_def)
qed

text \<open>Values with at most \<open>p\<close> significant bits are kept.\<close>

lemma rnd_exact:
  assumes x: "x = of_int n * 2 powi e" and n: "\<bar>n\<bar> < 2 ^ p"
  shows "rnd p x = x"
proof (cases "x = 0")
  case False
  have "(of_int \<bar>n\<bar> :: rat) < of_int (2 ^ p)" using n by (simp only: of_int_less_iff)
  then have "\<bar>x\<bar> < 2 ^ p * 2 powi e"
    unfolding x abs_mult by (simp add: mult_strict_right_mono)
  also have "\<dots> = 2 powi (int p + e)" by (simp add: power_int_add)
  finally have "2 powi ilog2 \<bar>x\<bar> < (2 :: rat) powi (int p + e)"
    using ilog2_bounds(1) [of "\<bar>x\<bar>"] False by linarith
  then have le: "ilog2 \<bar>x\<bar> - (int p - 1) \<le> e" by simp
  define d where "d = nat (e - (ilog2 \<bar>x\<bar> - (int p - 1)))"
  have "x / 2 powi (ilog2 \<bar>x\<bar> - (int p - 1)) = of_int n * 2 powi int d"
    using le by (simp add: x d_def power_int_diff)
  also have "\<dots> = of_int (n * 2 ^ d)" by simp
  finally have "x / 2 powi (ilog2 \<bar>x\<bar> - (int p - 1)) = of_int (n * 2 ^ d)" .
  then have "rnd p x = x / 2 powi (ilog2 \<bar>x\<bar> - (int p - 1)) * 2 powi (ilog2 \<bar>x\<bar> - (int p - 1))"
    using False round_half_even_of_int [of "n * 2 ^ d"] by (simp only: rnd_def Let_def if_False)
  then show ?thesis by simp
qed simp

lemma rnd_of_nat: "n < 2 ^ p \<Longrightarrow> rnd p (of_nat n) = of_nat n"
  by (rule rnd_exact [of _ "int n" 0]) (simp_all flip: of_nat_power add: zless_nat_eq_int_zless)

lemma rnd_of_int: "\<bar>n\<bar> < 2 ^ p \<Longrightarrow> rnd p (of_int n) = of_int n"
  by (rule rnd_exact [of _ n 0]) simp_all

lemma rnd_nonneg: "0 \<le> x \<Longrightarrow> 1 \<le> p \<Longrightarrow> 0 \<le> rnd p x"
proof -
  assume x: "0 \<le> x" and p: "1 \<le> p"
  have "x / 2 ^ p \<le> x / 1" using x by (intro divide_left_mono) simp_all
  with rnd_error [of p x] x show "0 \<le> rnd p x" by linarith
qed

end
