(* ===== verification/OpenMap.thy ===== *)
theory OpenMap
  imports HashMapSpec FloatModel
begin

text \<open>
  \<^verbatim>\<open>OpenAddressingHashMap\<close> of include/HashMap.hpp: linear probing over a table of nodes with
  a status, tombstones for erased keys, and a rehash into twice the size when the load factor
  passes \<^verbatim>\<open>0.7f\<close>. \<open>z\<close> is the value-initialised node of \<^verbatim>\<open>std::vector<Node>(n)\<close>, \<open>h\<close> is
  \<^verbatim>\<open>std::hash<Key>\<close>, \<open>dflt\<close> is \<^verbatim>\<open>Value{}\<close>. A place in the map is its slot.
\<close>

section \<open>Model\<close>

datatype slot_status = EMPTY | OCCUPIED | DELETED

record ('k, 'v) onode =
  on_key :: 'k
  on_value :: 'v
  on_status :: slot_status

record ('k, 'v) open_map =
  oa_table :: "('k, 'v) onode list"
  oa_size :: u64
  oa_mask :: u64

text \<open>
  A vector of nodes has at most \<open>max_size()\<close> elements, \<open>PTRDIFF_MAX / sizeof(Node)\<close>, and a
  node with a key, a value and an \<^verbatim>\<open>int\<close>-sized status takes at least 8 bytes.
\<close>

definition node_vector :: "('k, 'v) onode \<Rightarrow> nat \<Rightarrow> ('k, 'v) onode list res" where
  "node_vector z n = (if n < 2 ^ 60 then Inr (replicate n (z\<lparr>on_status := EMPTY\<rparr>)) else Inl (Throw Length_Error))"

definition open_init :: "('k, 'v) onode \<Rightarrow> u64 \<Rightarrow> ('k, 'v) open_map res" where
  "open_init z initBuckets = res_bind (node_vector z (unat initBuckets))
     (\<lambda>t. Inr \<lparr>oa_table = t, oa_size = 0, oa_mask = initBuckets - 1\<rparr>)"

definition getHash :: "('k \<Rightarrow> u64) \<Rightarrow> ('k, 'v) open_map \<Rightarrow> 'k \<Rightarrow> u64" where
  "getHash h m key = h key AND oa_mask m"

text \<open>
  \<^verbatim>\<open>(size_ + 1) > table_.size() * maxLoadFactor_\<close>: both integers are converted to
  \<^verbatim>\<open>float\<close>, the product is a \<^verbatim>\<open>float\<close>.
\<close>

definition maxLoadFactor :: rat where
  "maxLoadFactor = rnd 24 (7 / 10)"

definition load_exceeded :: "('k, 'v) open_map \<Rightarrow> bool" where
  "load_exceeded m \<longleftrightarrow> rnd 24 (of_nat (unat (oa_size m + 1)))
     > rnd 24 (rnd 24 (of_nat (length (oa_table m))) * maxLoadFactor)"

text \<open>
  The probing loop of \<open>contains\<close>, \<open>erase\<close> and \<open>find\<close>: until an empty slot, the key, or the
  slot it started at. A loop that makes more rounds than the table has slots does not end.
\<close>

fun probe_key :: "nat \<Rightarrow> ('k, 'v) onode list \<Rightarrow> u64 \<Rightarrow> 'k \<Rightarrow> u64 \<Rightarrow> u64 \<Rightarrow> nat option res" where
  "probe_key 0 t msk key index original = Inl Diverges"
| "probe_key (Suc fuel) t msk key index original =
    (if unat index \<ge> length t then Inl (UB Out_Of_Bounds)
     else if on_status (t ! unat index) = EMPTY then Inr None
     else if on_status (t ! unat index) = OCCUPIED \<and> on_key (t ! unat index) = key
     then Inr (Some (unat index))
     else let next = (index + 1) AND msk in
       if next = original then Inr None else probe_key fuel t msk key next original)"

definition open_probe :: "('k \<Rightarrow> u64) \<Rightarrow> ('k, 'v) open_map \<Rightarrow> 'k \<Rightarrow> nat option res" where
  "open_probe h m key = probe_key (Suc (length (oa_table m))) (oa_table m) (oa_mask m) key
     (getHash h m key) (getHash h m key)"

definition open_contains :: "('k \<Rightarrow> u64) \<Rightarrow> ('k, 'v) open_map \<Rightarrow> 'k \<Rightarrow> bool res" where
  "open_contains h m key = res_bind (open_probe h m key) (\<lambda>r. Inr (r \<noteq> None))"

definition open_find :: "('k \<Rightarrow> u64) \<Rightarrow> ('k, 'v) open_map \<Rightarrow> 'k \<Rightarrow> nat option res" where
  "open_find h m key = open_probe h m key"

definition open_erase :: "('k \<Rightarrow> u64) \<Rightarrow> ('k, 'v) open_map \<Rightarrow> 'k \<Rightarrow> (bool \<times> ('k, 'v) open_map) res" where
  "open_erase h m key = res_bind (open_probe h m key) (\<lambda>r. case r of
      None \<Rightarrow> Inr (False, m)
    | Some i \<Rightarrow> Inr (True, m\<lparr>oa_table := (oa_table m)[i := (oa_table m ! i)\<lparr>on_status := DELETED\<rparr>],
        oa_size := oa_size m - 1\<rparr>))"

text \<open>
  \<open>insert\<close> probes while the slot is occupied, without a check for the starting slot; it ends
  at the key (\<open>True\<close>) or at the first slot that is empty or deleted (\<open>False\<close>).
\<close>

fun probe_insert :: "nat \<Rightarrow> ('k, 'v) onode list \<Rightarrow> u64 \<Rightarrow> 'k \<Rightarrow> u64 \<Rightarrow> (bool \<times> nat) res" where
  "probe_insert 0 t msk key index = Inl Diverges"
| "probe_insert (Suc fuel) t msk key index =
    (if unat index \<ge> length t then Inl (UB Out_Of_Bounds)
     else if on_status (t ! unat index) \<noteq> OCCUPIED then Inr (False, unat index)
     else if on_key (t ! unat index) = key then Inr (True, unat index)
     else probe_insert fuel t msk key ((index + 1) AND msk))"

definition occupy :: "('k, 'v) open_map \<Rightarrow> nat \<Rightarrow> 'k \<Rightarrow> 'v \<Rightarrow> ('k, 'v) open_map" where
  "occupy m i key val = m\<lparr>oa_table := (oa_table m)[i := (oa_table m ! i)\<lparr>on_key := key, on_value := val,
      on_status := OCCUPIED\<rparr>], oa_size := oa_size m + 1\<rparr>"

definition open_deref :: "('k, 'v) open_map \<Rightarrow> nat \<Rightarrow> 'v" where
  "open_deref m i = on_value (oa_table m ! i)"

definition open_store :: "('k, 'v) open_map \<Rightarrow> nat \<Rightarrow> 'v \<Rightarrow> ('k, 'v) open_map" where
  "open_store m i val = m\<lparr>oa_table := (oa_table m)[i := (oa_table m ! i)\<lparr>on_value := val\<rparr>]\<rparr>"

definition insert_place :: "('k \<Rightarrow> u64) \<Rightarrow> ('k, 'v) open_map \<Rightarrow> 'k \<Rightarrow> 'v \<Rightarrow> ('k, 'v) open_map res" where
  "insert_place h m key val =
    res_bind (probe_insert (Suc (length (oa_table m))) (oa_table m) (oa_mask m) key (getHash h m key))
      (\<lambda>(present, i). Inr (if present then open_store m i val else occupy m i key val))"

text \<open>
  \<open>reHash\<close> moves the table out, allocates twice the size and inserts the occupied nodes; its
  calls of \<open>insert\<close> test the load again, so the two are mutually recursive. \<open>ins\<close> stands for
  \<open>insert\<close>, whose first argument bounds the depth of nested rehashes; two levels are always
  enough (see \<open>open_insert_depth\<close> below).
\<close>

fun reinsert :: "(('k, 'v) open_map \<Rightarrow> 'k \<Rightarrow> 'v \<Rightarrow> ('k, 'v) open_map res) \<Rightarrow>
    ('k, 'v) onode list \<Rightarrow> ('k, 'v) open_map \<Rightarrow> ('k, 'v) open_map res" where
  "reinsert ins [] m = Inr m"
| "reinsert ins (node # nodes) m =
    (if on_status node = OCCUPIED
     then res_bind (ins m (on_key node) (on_value node)) (reinsert ins nodes)
     else reinsert ins nodes m)"

definition rehash_with :: "(('k, 'v) open_map \<Rightarrow> 'k \<Rightarrow> 'v \<Rightarrow> ('k, 'v) open_map res) \<Rightarrow>
    ('k, 'v) onode \<Rightarrow> ('k, 'v) open_map \<Rightarrow> ('k, 'v) open_map res" where
  "rehash_with ins z m = (let newSize = of_nat (length (oa_table m)) * 2 :: u64 in
    res_bind (node_vector z (unat newSize)) (\<lambda>t.
      reinsert ins (oa_table m) \<lparr>oa_table = t, oa_size = 0, oa_mask = newSize - 1\<rparr>))"

fun open_insert_upto :: "nat \<Rightarrow> ('k \<Rightarrow> u64) \<Rightarrow> ('k, 'v) onode \<Rightarrow>
    ('k, 'v) open_map \<Rightarrow> 'k \<Rightarrow> 'v \<Rightarrow> ('k, 'v) open_map res" where
  "open_insert_upto 0 h z m key val = Inl Diverges"
| "open_insert_upto (Suc d) h z m key val =
    (if load_exceeded m
     then res_bind (rehash_with (open_insert_upto d h z) z m) (\<lambda>m'. insert_place h m' key val)
     else insert_place h m key val)"

definition open_insert :: "('k \<Rightarrow> u64) \<Rightarrow> ('k, 'v) onode \<Rightarrow>
    ('k, 'v) open_map \<Rightarrow> 'k \<Rightarrow> 'v \<Rightarrow> ('k, 'v) open_map res" where
  "open_insert h z = open_insert_upto 2 h z"

definition reHash :: "('k \<Rightarrow> u64) \<Rightarrow> ('k, 'v) onode \<Rightarrow> ('k, 'v) open_map \<Rightarrow> ('k, 'v) open_map res" where
  "reHash h z m = rehash_with (open_insert h z) z m"

text \<open>
  \<open>operator[]\<close>: the first slot on the path that is empty or deleted is taken (\<open>False\<close>), even
  if the key sits behind it; a full round throws.
\<close>

fun probe_subscript :: "nat \<Rightarrow> ('k, 'v) onode list \<Rightarrow> u64 \<Rightarrow> 'k \<Rightarrow> u64 \<Rightarrow> u64 \<Rightarrow> (bool \<times> nat) res" where
  "probe_subscript 0 t msk key index original = Inl Diverges"
| "probe_subscript (Suc fuel) t msk key index original =
    (if unat index \<ge> length t then Inl (UB Out_Of_Bounds)
     else if on_status (t ! unat index) = EMPTY \<or> on_status (t ! unat index) = DELETED
     then Inr (False, unat index)
     else if on_status (t ! unat index) = OCCUPIED \<and> on_key (t ! unat index) = key
     then Inr (True, unat index)
     else let next = (index + 1) AND msk in
       if next = original then Inl (Throw (Runtime_Error ''HashMap is full''))
       else probe_subscript fuel t msk key next original)"

fun open_subscript_upto :: "nat \<Rightarrow> ('k \<Rightarrow> u64) \<Rightarrow> ('k, 'v) onode \<Rightarrow> 'v \<Rightarrow>
    ('k, 'v) open_map \<Rightarrow> 'k \<Rightarrow> (nat \<times> ('k, 'v) open_map) res" where
  "open_subscript_upto 0 h z dflt m key = Inl Diverges"
| "open_subscript_upto (Suc d) h z dflt m key =
    res_bind (probe_subscript (Suc (length (oa_table m))) (oa_table m) (oa_mask m) key
      (getHash h m key) (getHash h m key)) (\<lambda>(present, i).
        if present then Inr (i, m)
        else if load_exceeded m
        then res_bind (reHash h z m) (\<lambda>m'. open_subscript_upto d h z dflt m' key)
        else Inr (i, occupy m i key dflt))"

definition open_subscript :: "('k \<Rightarrow> u64) \<Rightarrow> ('k, 'v) onode \<Rightarrow> 'v \<Rightarrow>
    ('k, 'v) open_map \<Rightarrow> 'k \<Rightarrow> (nat \<times> ('k, 'v) open_map) res" where
  "open_subscript h z = open_subscript_upto 2 h z"

definition open_ops :: "('k \<Rightarrow> u64) \<Rightarrow> ('k, 'v) onode \<Rightarrow> 'v \<Rightarrow>
    (('k, 'v) open_map, 'k, 'v, nat) hm_ops" where
  "open_ops h z dflt = \<lparr>
    insert_op = open_insert h z, contains_op = open_contains h, erase_op = open_erase h,
    find_op = open_find h, subscript_op = open_subscript h z dflt,
    deref_op = open_deref, store_op = open_store\<rparr>"

section \<open>The load factor\<close>

text \<open>
  In exact terms: an insertion that is not preceded by a rehash leaves a slot that is not
  occupied, and a table twice as large as its entries is never too full.
\<close>

lemma rnd24_bounds:
  assumes "0 \<le> x"
  shows "999 / 1000 * x \<le> rnd 24 x" and "rnd 24 x \<le> 1001 / 1000 * x"
proof -
  have "x / 2 ^ 24 \<le> x / 1000" using assms by (intro divide_left_mono) simp_all
  moreover have "\<bar>rnd 24 x - x\<bar> \<le> x / 2 ^ 24" using rnd_error [of 24 x] assms by simp
  ultimately show "999 / 1000 * x \<le> rnd 24 x" "rnd 24 x \<le> 1001 / 1000 * x"
    using assms unfolding abs_le_iff by linarith+
qed

lemma load_limit_bounds:
  fixes n :: rat
  assumes "0 \<le> n"
  shows "69 / 100 * n \<le> rnd 24 (rnd 24 n * maxLoadFactor)"
    and "rnd 24 (rnd 24 n * maxLoadFactor) \<le> 71 / 100 * n"
proof -
  have L: "699 / 1000 \<le> maxLoadFactor" "maxLoadFactor \<le> 701 / 1000"
    using rnd24_bounds [of "7 / 10"] by (simp_all add: maxLoadFactor_def)
  note n = rnd24_bounds [OF assms]
  have lo: "(999 / 1000 * n) * (699 / 1000) \<le> rnd 24 n * maxLoadFactor"
    using L n assms by (intro mult_mono) simp_all
  have hi: "rnd 24 n * maxLoadFactor \<le> (1001 / 1000 * n) * (701 / 1000)"
    using L n assms by (intro mult_mono) simp_all
  have "0 \<le> rnd 24 n * maxLoadFactor" using lo assms by simp
  from rnd24_bounds [OF this] lo hi assms
  show "69 / 100 * n \<le> rnd 24 (rnd 24 n * maxLoadFactor)"
    "rnd 24 (rnd 24 n * maxLoadFactor) \<le> 71 / 100 * n"
    by linarith+
qed

lemma load_leaves_slot:
  assumes "\<not> load_exceeded m" and "oa_table m \<noteq> []"
  shows "unat (oa_size m + 1) < length (oa_table m)"
proof -
  let ?c = "of_nat (unat (oa_size m + 1)) :: rat" and ?n = "of_nat (length (oa_table m)) :: rat"
  have n: "0 < ?n" using assms(2) by simp
  have c: "0 \<le> ?c" by (rule of_nat_0_le_iff)
  have "rnd 24 ?c \<le> rnd 24 (rnd 24 ?n * maxLoadFactor)"
    using assms(1) unfolding load_exceeded_def not_less .
  then have "?c < ?n" using n rnd24_bounds(1) [OF c] load_limit_bounds(2) [of ?n] by linarith
  then show ?thesis by (simp only: of_nat_less_iff)
qed

lemma load_has_room:
  assumes "2 * unat (oa_size m + 1) \<le> length (oa_table m)"
  shows "\<not> load_exceeded m"
proof -
  let ?c = "of_nat (unat (oa_size m + 1)) :: rat" and ?n = "of_nat (length (oa_table m)) :: rat"
  have "of_nat (2 * unat (oa_size m + 1)) \<le> ?n" using assms by (simp only: of_nat_le_iff)
  then have "2 * ?c \<le> ?n" unfolding of_nat_mult by simp
  moreover have c: "0 \<le> ?c" "0 \<le> ?n" by (rule of_nat_0_le_iff)+
  ultimately have "rnd 24 ?c \<le> rnd 24 (rnd 24 ?n * maxLoadFactor)"
    using rnd24_bounds(2) [OF c(1)] load_limit_bounds(1) [OF c(2)] by linarith
  then show ?thesis unfolding load_exceeded_def not_less .
qed

section \<open>Abstraction and invariant\<close>

abbreviation occupied :: "('k, 'v) onode \<Rightarrow> bool" where
  "occupied node \<equiv> on_status node = OCCUPIED"

definition holds_key :: "'k \<Rightarrow> ('k, 'v) onode \<Rightarrow> bool" where
  "holds_key k node \<longleftrightarrow> occupied node \<and> on_key node = k"

definition open_lookup :: "('k, 'v) open_map \<Rightarrow> 'k \<Rightarrow> 'v option" where
  "open_lookup m k = map_option on_value (List.find (holds_key k) (oa_table m))"

definition home :: "('k \<Rightarrow> u64) \<Rightarrow> nat \<Rightarrow> 'k \<Rightarrow> nat" where
  "home h n k = unat (h k) mod n"

text \<open>A key is reachable: no slot on the path from its home to it is empty.\<close>

definition reachable_slot :: "('k \<Rightarrow> u64) \<Rightarrow> ('k, 'v) onode list \<Rightarrow> nat \<Rightarrow> bool" where
  "reachable_slot h t j \<longleftrightarrow> (let n = length t; a = home h n (on_key (t ! j)) in
    \<exists>d < n. j = (a + d) mod n \<and> (\<forall>i < d. on_status (t ! ((a + i) mod n)) \<noteq> EMPTY))"

definition open_inv :: "('k \<Rightarrow> u64) \<Rightarrow> ('k, 'v) open_map \<Rightarrow> bool" where
  "open_inv h m \<longleftrightarrow> (let t = oa_table m in
    (\<exists>k < 60. oa_mask m = 2 ^ k - 1 \<and> length t = 2 ^ k) \<and>
    unat (oa_size m) = length (filter occupied t) \<and> unat (oa_size m) < length t \<and>
    (\<forall>i < length t. \<forall>j < length t. occupied (t ! i) \<and> holds_key (on_key (t ! i)) (t ! j) \<longrightarrow> i = j) \<and>
    (\<forall>j < length t. occupied (t ! j) \<longrightarrow> reachable_slot h t j))"

lemma open_lookup_None:
  "open_lookup m k = None \<longleftrightarrow> (\<forall>j < length (oa_table m). \<not> holds_key k (oa_table m ! j))"
  by (auto simp: open_lookup_def find_None_iff in_set_conv_nth)

lemma open_lookup_Some:
  assumes "open_inv h m" and "j < length (oa_table m)" and "holds_key k (oa_table m ! j)"
  shows "open_lookup m k = Some (on_value (oa_table m ! j))"
proof -
  have "open_lookup m k \<noteq> None" using assms(2,3) by (auto simp: open_lookup_None)
  then obtain i where i: "i < length (oa_table m)" "holds_key k (oa_table m ! i)"
    "open_lookup m k = Some (on_value (oa_table m ! i))"
    by (auto simp: open_lookup_def find_Some_iff)
  moreover have "i = j" using assms i by (auto simp: open_inv_def Let_def holds_key_def)
  ultimately show ?thesis by simp
qed

lemma open_lookup_iff:
  assumes "open_inv h m"
  shows "open_lookup m k = Some v \<longleftrightarrow>
    (\<exists>j < length (oa_table m). holds_key k (oa_table m ! j) \<and> on_value (oa_table m ! j) = v)"
proof
  assume v: "open_lookup m k = Some v"
  then obtain j where j: "j < length (oa_table m)" "holds_key k (oa_table m ! j)"
    using open_lookup_None [of m k] by auto
  with open_lookup_Some [OF assms j] v
  show "\<exists>j < length (oa_table m). holds_key k (oa_table m ! j) \<and> on_value (oa_table m ! j) = v" by auto
qed (auto dest: open_lookup_Some [OF assms])

lemma open_lookup_eqI:
  assumes "open_inv h m"
    and "\<And>v. f k = Some v \<Longrightarrow> \<exists>j < length (oa_table m). holds_key k (oa_table m ! j) \<and> on_value (oa_table m ! j) = v"
    and "f k = None \<Longrightarrow> \<forall>j < length (oa_table m). \<not> holds_key k (oa_table m ! j)"
  shows "open_lookup m k = f k"
  using assms(2,3) open_lookup_iff [OF assms(1)] open_lookup_None [of m k] by (cases "f k") auto

section \<open>Probing\<close>

lemma mod_step: "(a + e) mod n = x \<Longrightarrow> Suc x mod n = (a + Suc e) mod n" for n :: nat
  by (metis add_Suc_right mod_Suc_eq)

lemma full_round: "a < n \<Longrightarrow> e < n \<Longrightarrow> (a + Suc e) mod n = a \<longleftrightarrow> Suc e = n" for n :: nat
proof (cases "a + Suc e < n")
  case False
  moreover assume "a < n" "e < n"
  ultimately have "(a + Suc e) mod n = a + Suc e - n" by (simp add: le_mod_geq)
  with False show ?thesis by auto
qed auto

text \<open>
  Started at slot \<open>a\<close>, the loop is at slot \<open>(a + e) mod n\<close> in round \<open>e\<close>. It returns: the
  slot of the key, or \<open>None\<close> with no slot of the key before an empty one.
\<close>

lemma probe_key_result:
  assumes n: "length t = n" "n = 2 ^ b" "b \<le> 64" and a: "unat original < n"
  shows "unat index = (unat original + e) mod n \<Longrightarrow> e < n \<Longrightarrow> n \<le> e + fuel \<Longrightarrow>
    \<exists>r. probe_key fuel t (2 ^ b - 1) key index original = Inr r \<and> (case r of
      Some j \<Rightarrow> j < n \<and> holds_key key (t ! j)
    | None \<Rightarrow> \<exists>e'. e \<le> e' \<and> e' \<le> n \<and> (e' = n \<or> on_status (t ! ((unat original + e') mod n)) = EMPTY) \<and>
        (\<forall>i. e \<le> i \<and> i < e' \<longrightarrow> \<not> holds_key key (t ! ((unat original + i) mod n))))"
proof (induction fuel arbitrary: index e)
  case 0
  then show ?case by simp
next
  case (Suc fuel)
  let ?next = "(index + 1) AND (2 ^ b - 1)" and ?nd = "t ! unat index" and ?a = "unat original"
  have lt: "unat index < length t" using Suc.prems n(1) by simp
  have nxt: "unat ?next = (?a + Suc e) mod n"
    using mod_step [OF Suc.prems(1) [symmetric]] n by (simp add: unat_succ_mask)
  consider (empty) "on_status ?nd = EMPTY" | (hit) "holds_key key ?nd"
    | (go) "on_status ?nd \<noteq> EMPTY" "\<not> holds_key key ?nd" by blast
  then show ?case
  proof cases
    case empty
    with lt Suc.prems show ?thesis by (auto intro!: exI [of _ e])
  next
    case hit
    with lt n(1) show ?thesis by (auto simp: holds_key_def)
  next
    case go
    then have step: "probe_key (Suc fuel) t (2 ^ b - 1) key index original =
        (if ?next = original then Inr None else probe_key fuel t (2 ^ b - 1) key ?next original)"
      using lt by (auto simp: holds_key_def Let_def)
    have last: "?next = original \<longleftrightarrow> Suc e = n"
      using full_round [OF a Suc.prems(2)] nxt by (simp add: word_unat_eq_iff)
    show ?thesis
    proof (cases "Suc e = n")
      case True
      with step last go Suc.prems(1) show ?thesis
        by (auto intro!: exI [of _ n] simp: less_Suc_eq le_less_Suc_eq)
    next
      case False
      with Suc.prems have e: "Suc e < n" "n \<le> Suc e + fuel" by simp_all
      obtain r where r: "probe_key fuel t (2 ^ b - 1) key ?next original = Inr r" and
        res: "case r of Some j \<Rightarrow> j < n \<and> holds_key key (t ! j)
          | None \<Rightarrow> \<exists>e'. Suc e \<le> e' \<and> e' \<le> n \<and> (e' = n \<or> on_status (t ! ((?a + e') mod n)) = EMPTY) \<and>
            (\<forall>i. Suc e \<le> i \<and> i < e' \<longrightarrow> \<not> holds_key key (t ! ((?a + i) mod n)))"
        using Suc.IH [OF nxt e] by blast
      have "\<forall>i. e \<le> i \<and> i < e' \<longrightarrow> \<not> holds_key key (t ! ((?a + i) mod n))"
        if "\<forall>i. Suc e \<le> i \<and> i < e' \<longrightarrow> \<not> holds_key key (t ! ((?a + i) mod n))" for e'
        using that go(2) Suc.prems(1) by (metis le_antisym not_less_eq_eq)
      with res have "case r of Some j \<Rightarrow> j < n \<and> holds_key key (t ! j)
          | None \<Rightarrow> \<exists>e'. e \<le> e' \<and> e' \<le> n \<and> (e' = n \<or> on_status (t ! ((?a + e') mod n)) = EMPTY) \<and>
            (\<forall>i. e \<le> i \<and> i < e' \<longrightarrow> \<not> holds_key key (t ! ((?a + i) mod n)))"
        by (cases r) (auto intro: Suc_leD)
      with step r False last show ?thesis by simp
    qed
  qed
qed

text \<open>
  With a slot at distance \<open>v\<close> that is not occupied, the loop of \<open>insert\<close> returns, at the key or
  at a slot that is not occupied behind occupied slots only; the loop of \<open>operator[]\<close> agrees.
\<close>

lemma probe_insert_result:
  assumes n: "length t = n" "n = 2 ^ b" "b \<le> 64" and v: "\<not> occupied (t ! ((a + v) mod n))" "v < n"
  shows "unat index = (a + e) mod n \<Longrightarrow> e \<le> v \<Longrightarrow> v < e + fuel \<Longrightarrow>
    \<exists>present j e'. probe_insert fuel t (2 ^ b - 1) key index = Inr (present, j) \<and>
      e \<le> e' \<and> e' \<le> v \<and> j = (a + e') mod n \<and>
      (\<forall>i. e \<le> i \<and> i < e' \<longrightarrow> occupied (t ! ((a + i) mod n)) \<and> \<not> holds_key key (t ! ((a + i) mod n))) \<and>
      (if present then holds_key key (t ! j) else \<not> occupied (t ! j))"
proof (induction fuel arbitrary: index e)
  case 0
  then show ?case by simp
next
  case (Suc fuel)
  let ?next = "(index + 1) AND (2 ^ b - 1)" and ?nd = "t ! unat index"
  have lt: "unat index < length t" using Suc.prems(1) v n(1) by simp
  have nxt: "unat ?next = (a + Suc e) mod n"
    using mod_step [OF Suc.prems(1) [symmetric]] n by (simp add: unat_succ_mask)
  consider (free) "\<not> occupied ?nd" | (hit) "holds_key key ?nd" | (go) "occupied ?nd" "\<not> holds_key key ?nd"
    by blast
  then show ?case
  proof cases
    case free
    with lt Suc.prems show ?thesis
      by - (rule exI [of _ False], rule exI [of _ "unat index"], rule exI [of _ e], auto)
  next
    case hit
    with lt Suc.prems show ?thesis
      by - (rule exI [of _ True], rule exI [of _ "unat index"], rule exI [of _ e], auto simp: holds_key_def)
  next
    case go
    then have step: "probe_insert (Suc fuel) t (2 ^ b - 1) key index = probe_insert fuel t (2 ^ b - 1) key ?next"
      using lt by (auto simp: holds_key_def)
    have "e \<noteq> v" using go(1) v(1) Suc.prems(1) by auto
    with Suc.prems have e: "Suc e \<le> v" "v < Suc e + fuel" by simp_all
    from Suc.IH [OF nxt e] obtain present j e' where
      r: "probe_insert fuel t (2 ^ b - 1) key ?next = Inr (present, j)" "Suc e \<le> e'" "e' \<le> v" "j = (a + e') mod n"
        "if present then holds_key key (t ! j) else \<not> occupied (t ! j)" and
      path: "\<forall>i. Suc e \<le> i \<and> i < e' \<longrightarrow> occupied (t ! ((a + i) mod n)) \<and> \<not> holds_key key (t ! ((a + i) mod n))"
      by blast
    from path go Suc.prems(1)
    have "\<forall>i. e \<le> i \<and> i < e' \<longrightarrow> occupied (t ! ((a + i) mod n)) \<and> \<not> holds_key key (t ! ((a + i) mod n))"
      by (metis le_antisym not_less_eq_eq)
    with r step show ?thesis by (intro exI [of _ present] exI [of _ j] exI [of _ e']) simp
  qed
qed

lemma probe_subscript_eq:
  assumes n: "length t = n" "n = 2 ^ b" "b \<le> 64" and a: "unat original < n"
    and v: "\<not> occupied (t ! ((unat original + v) mod n))" "v < n"
  shows "unat index = (unat original + e) mod n \<Longrightarrow> e \<le> v \<Longrightarrow> v < e + fuel \<Longrightarrow>
    probe_subscript fuel t (2 ^ b - 1) key index original = probe_insert fuel t (2 ^ b - 1) key index"
proof (induction fuel arbitrary: index e)
  case 0
  then show ?case by simp
next
  case (Suc fuel)
  let ?next = "(index + 1) AND (2 ^ b - 1)" and ?nd = "t ! unat index"
  have nxt: "unat ?next = (unat original + Suc e) mod n"
    using mod_step [OF Suc.prems(1) [symmetric]] n by (simp add: unat_succ_mask)
  show ?case
  proof (cases "occupied ?nd")
    case True
    then have "e \<noteq> v" using v(1) Suc.prems(1) by auto
    with Suc.prems have e: "Suc e \<le> v" "v < Suc e + fuel" by simp_all
    then have "?next \<noteq> original"
      using full_round [OF a, of e] v(2) nxt by (auto simp: word_unat_eq_iff)
    with True Suc.IH [OF nxt e] show ?thesis by (simp add: Let_def)
  next
    case False
    then show ?thesis by (cases "on_status ?nd") simp_all
  qed
qed

declare probe_key.simps [simp del] probe_insert.simps [simp del] probe_subscript.simps [simp del]

section \<open>The operations on a well-formed map\<close>

lemma open_shape:
  assumes "open_inv h m"
  obtains b where "b < 60" "oa_mask m = 2 ^ b - 1" "length (oa_table m) = 2 ^ b"
  using assms by (auto simp: open_inv_def Let_def)

lemma open_table_nonempty: "open_inv h m \<Longrightarrow> 0 < length (oa_table m)"
  by (auto elim: open_shape)

lemma getHash_home: "open_inv h m \<Longrightarrow> unat (getHash h m k) = home h (length (oa_table m)) k"
  by (erule open_shape) (simp add: getHash_def home_def unat_and_mask)

lemma home_lt: "open_inv h m \<Longrightarrow> home h (length (oa_table m)) k < length (oa_table m)"
  using open_table_nonempty [of h m] by (simp add: home_def)

lemma length_filter_update:
  "i < length xs \<Longrightarrow> length (filter P (xs[i := x])) + (if P (xs ! i) then 1 else 0)
    = length (filter P xs) + (if P x then 1 else 0)"
  by (subst (2) id_take_nth_drop [of i xs]) (auto simp: upd_conv_take_nth_drop)

lemma open_reach:
  assumes "open_inv h m" and "j < length (oa_table m)" and "holds_key k (oa_table m ! j)"
  obtains d where "d < length (oa_table m)" "j = (home h (length (oa_table m)) k + d) mod length (oa_table m)"
    "\<forall>i < d. on_status (oa_table m ! ((home h (length (oa_table m)) k + i) mod length (oa_table m))) \<noteq> EMPTY"
  using assms by (auto simp: open_inv_def Let_def holds_key_def reachable_slot_def)

lemma open_probe_spec:
  assumes inv: "open_inv h m"
  shows "\<exists>r. open_probe h m k = Inr r \<and> (case r of
      None \<Rightarrow> open_lookup m k = None
    | Some j \<Rightarrow> j < length (oa_table m) \<and> holds_key k (oa_table m ! j))"
proof -
  let ?t = "oa_table m" and ?n = "length (oa_table m)" and ?a = "home h (length (oa_table m)) k"
  obtain b where b: "b < 60" "oa_mask m = 2 ^ b - 1" "?n = 2 ^ b" using inv by (rule open_shape)
  have b64: "b \<le> 64" using b(1) by simp
  note a = home_lt [OF inv, of k] getHash_home [OF inv, of k]
  obtain r where r: "open_probe h m k = Inr r" and res: "case r of
      Some j \<Rightarrow> j < ?n \<and> holds_key k (?t ! j)
    | None \<Rightarrow> \<exists>e'. e' \<le> ?n \<and> (e' = ?n \<or> on_status (?t ! ((?a + e') mod ?n)) = EMPTY) \<and>
        (\<forall>i < e'. \<not> holds_key k (?t ! ((?a + i) mod ?n)))"
  proof -
    have g: "unat (getHash h m k) < ?n" "unat (getHash h m k) = (unat (getHash h m k) + 0) mod ?n"
      "0 < ?n" "?n \<le> 0 + Suc ?n" using a by auto
    from probe_key_result [OF refl b(3) b64 g, of k] show thesis
      using a(2) b(2) by (elim exE conjE) (rule that, auto simp: open_probe_def split: option.splits)
  qed
  moreover have "open_lookup m k = None" if none: "r = None"
    unfolding open_lookup_None
  proof (intro allI impI notI)
    fix j assume j: "j < ?n" "holds_key k (?t ! j)"
    obtain d where d: "d < ?n" "j = (?a + d) mod ?n" "\<forall>i < d. on_status (?t ! ((?a + i) mod ?n)) \<noteq> EMPTY"
      using open_reach [OF inv j] .
    obtain e' where e': "e' = ?n \<or> on_status (?t ! ((?a + e') mod ?n)) = EMPTY"
      "\<forall>i < e'. \<not> holds_key k (?t ! ((?a + i) mod ?n))"
      using res none by auto
    have "\<not> d < e'" using e'(2) d(2) j(2) by auto
    with e'(1) d(1) have "on_status (?t ! ((?a + e') mod ?n)) = EMPTY" "e' \<le> d" by auto
    with d j(2) show False by (cases "e' = d") (auto simp: holds_key_def)
  qed
  ultimately show ?thesis by (auto split: option.splits)
qed

lemma open_vacant:
  assumes inv: "open_inv h m" and a: "a < length (oa_table m)"
  shows "\<exists>v < length (oa_table m). \<not> occupied (oa_table m ! ((a + v) mod length (oa_table m)))"
proof -
  let ?t = "oa_table m" and ?n = "length (oa_table m)"
  have "length (filter occupied ?t) < ?n" using inv by (simp add: open_inv_def Let_def)
  then have "\<not> (\<forall>node \<in> set ?t. occupied node)" using filter_True [of ?t occupied] by fastforce
  then obtain j where j: "j < ?n" "\<not> occupied (?t ! j)" by (auto simp: in_set_conv_nth)
  show ?thesis
  proof (cases "a \<le> j")
    case True
    with j show ?thesis by (intro exI [of _ "j - a"]) simp
  next
    case False
    with j a show ?thesis by (intro exI [of _ "j + ?n - a"]) simp
  qed
qed

lemma open_insert_slot:
  assumes inv: "open_inv h m"
  obtains present j e where
    "probe_insert (Suc (length (oa_table m))) (oa_table m) (oa_mask m) k (getHash h m k) = Inr (present, j)"
    "probe_subscript (Suc (length (oa_table m))) (oa_table m) (oa_mask m) k (getHash h m k) (getHash h m k)
      = Inr (present, j)"
    "e < length (oa_table m)" "j = (home h (length (oa_table m)) k + e) mod length (oa_table m)"
    "\<forall>i < e. occupied (oa_table m ! ((home h (length (oa_table m)) k + i) mod length (oa_table m))) \<and>
      \<not> holds_key k (oa_table m ! ((home h (length (oa_table m)) k + i) mod length (oa_table m)))"
    "if present then holds_key k (oa_table m ! j) else \<not> occupied (oa_table m ! j)"
proof -
  let ?t = "oa_table m" and ?n = "length (oa_table m)" and ?a = "home h (length (oa_table m)) k"
  obtain b where b: "b < 60" "oa_mask m = 2 ^ b - 1" "?n = 2 ^ b" using inv by (rule open_shape)
  note a = home_lt [OF inv, of k] getHash_home [OF inv, of k]
  obtain v where v: "v < ?n" "\<not> occupied (?t ! ((?a + v) mod ?n))" using open_vacant [OF inv a(1)] by blast
  have "b \<le> 64" using b(1) by simp
  note pre = refl b(3) this
  from probe_insert_result [OF pre v(2,1), of "getHash h m k" 0 "Suc ?n" k] a v(1)
  obtain present j e where "probe_insert (Suc ?n) ?t (2 ^ b - 1) k (getHash h m k) = Inr (present, j)"
    "e \<le> v" "j = (?a + e) mod ?n" "\<forall>i < e. occupied (?t ! ((?a + i) mod ?n)) \<and> \<not> holds_key k (?t ! ((?a + i) mod ?n))"
    "if present then holds_key k (?t ! j) else \<not> occupied (?t ! j)"
    by auto
  moreover from probe_subscript_eq [OF pre, of "getHash h m k" v "getHash h m k" 0 "Suc ?n" k] a v
  have "probe_subscript (Suc ?n) ?t (2 ^ b - 1) k (getHash h m k) (getHash h m k)
      = probe_insert (Suc ?n) ?t (2 ^ b - 1) k (getHash h m k)" by simp
  ultimately show thesis using that [of present j e] b(2) v(1) by simp
qed

lemma reachable_slot_mono:
  assumes "reachable_slot h t j" and "length t' = length t" and "on_key (t' ! j) = on_key (t ! j)"
    and "\<And>i. i < length t \<Longrightarrow> on_status (t ! i) \<noteq> EMPTY \<Longrightarrow> on_status (t' ! i) \<noteq> EMPTY"
  shows "reachable_slot h t' j"
proof -
  let ?n = "length t" and ?a = "home h (length t) (on_key (t ! j))"
  obtain d where d: "d < ?n" "j = (?a + d) mod ?n" "\<forall>i < d. on_status (t ! ((?a + i) mod ?n)) \<noteq> EMPTY"
    using assms(1) by (auto simp: reachable_slot_def Let_def)
  then have "\<forall>i < d. on_status (t' ! ((?a + i) mod ?n)) \<noteq> EMPTY"
    using less_nat_zero_code d(1) by (intro allI impI assms(4) mod_less_divisor) (linarith, blast)
  with d(1,2) assms(2,3) show ?thesis unfolding reachable_slot_def Let_def by (intro exI [of _ d]) simp
qed

lemma open_size_Suc:
  assumes "open_inv h m"
  shows "unat (oa_size m + 1) = Suc (unat (oa_size m))"
proof -
  obtain b where b: "b < 60" "length (oa_table m) = 2 ^ b" using assms by (rule open_shape)
  have "unat (oa_size m) < 2 ^ b" using assms b(2) by (simp add: open_inv_def Let_def)
  also have "(2::nat) ^ b \<le> 2 ^ 60" using b(1) by (intro power_increasing) simp_all
  finally have "unat (oa_size m) + 1 < 2 ^ 64" by simp
  then show ?thesis by (simp add: unat_word_ariths)
qed

lemma open_unique:
  "open_inv h m \<Longrightarrow> i < length (oa_table m) \<Longrightarrow> j < length (oa_table m) \<Longrightarrow>
    holds_key k (oa_table m ! i) \<Longrightarrow> holds_key k (oa_table m ! j) \<Longrightarrow> i = j"
  by (auto simp: open_inv_def Let_def holds_key_def)

text \<open>Taking the slot at which the probing for an absent key stopped adds the key.\<close>

lemma occupy_spec:
  assumes inv: "open_inv h m" and absent: "open_lookup m k = None" and room: "Suc (unat (oa_size m)) < length (oa_table m)"
    and j: "e < length (oa_table m)" "j = (home h (length (oa_table m)) k + e) mod length (oa_table m)"
      "\<not> occupied (oa_table m ! j)"
      "\<forall>i < e. occupied (oa_table m ! ((home h (length (oa_table m)) k + i) mod length (oa_table m)))"
  shows "open_inv h (occupy m j k v) \<and> open_lookup (occupy m j k v) = (open_lookup m)(k \<mapsto> v)"
proof -
  let ?t = "oa_table m" and ?n = "length (oa_table m)"
  define nd where "nd = (?t ! j)\<lparr>on_key := k, on_value := v, on_status := OCCUPIED\<rparr>"
  have nd: "on_key nd = k" "on_value nd = v" "occupied nd" by (simp_all add: nd_def)
  have t': "oa_table (occupy m j k v) = ?t[j := nd]" "oa_size (occupy m j k v) = oa_size m + 1"
    "oa_mask (occupy m j k v) = oa_mask m" by (simp_all add: occupy_def nd_def)
  have ne: "0 < ?n" using j(1) by linarith
  then have jn: "j < ?n" unfolding j(2) by (rule mod_less_divisor)
  have cnt: "length (filter occupied (?t[j := nd])) = Suc (length (filter occupied ?t))"
    using length_filter_update [OF jn, of occupied nd] j(3) nd by simp
  have old: "\<not> holds_key k (?t ! i)" if "i < ?n" for i using absent that by (simp add: open_lookup_None)
  have uniq: "i = i'" if "i < ?n" "i' < ?n" "occupied (?t[j := nd] ! i)"
    "holds_key (on_key (?t[j := nd] ! i)) (?t[j := nd] ! i')" for i i'
    using that old [OF that(1)] old [OF that(2)] nd open_unique [OF inv that(1,2), of "on_key (?t ! i)"]
    by (cases "i = j"; cases "i' = j") (auto simp: jn holds_key_def)
  have filled: "on_status (?t[j := nd] ! i) \<noteq> EMPTY" if "i < ?n" "on_status (?t ! i) \<noteq> EMPTY" for i
    using that nd jn by (auto simp: nth_list_update)
  have reach: "reachable_slot h (?t[j := nd]) i" if i: "i < ?n" "occupied (?t[j := nd] ! i)" for i
  proof (cases "i = j")
    case True
    have "\<forall>i < e. on_status (?t[j := nd] ! ((home h ?n k + i) mod ?n)) \<noteq> EMPTY"
    proof (intro allI impI filled)
      fix i assume "i < e"
      with j(4) have "occupied (?t ! ((home h ?n k + i) mod ?n))" by blast
      then show "on_status (?t ! ((home h ?n k + i) mod ?n)) \<noteq> EMPTY" by simp
    qed (use ne in \<open>simp add: mod_less_divisor\<close>)
    with True j(1,2) jn nd(1) show ?thesis unfolding reachable_slot_def Let_def by (intro exI [of _ e]) simp
  next
    case False
    then have "reachable_slot h ?t i" using i inv by (simp add: open_inv_def Let_def)
    then show ?thesis by (rule reachable_slot_mono) (use False filled in auto)
  qed
  have inv': "open_inv h (occupy m j k v)"
    using inv room uniq reach unfolding open_inv_def Let_def t' open_size_Suc [OF inv] cnt by auto
  moreover have "open_lookup (occupy m j k v) k' = ((open_lookup m)(k \<mapsto> v)) k'" for k'
  proof (rule open_lookup_eqI [OF inv'], goal_cases)
    case (1 w)
    show ?case
    proof (cases "k' = k")
      case True
      with 1 jn nd t' show ?thesis by (auto simp: holds_key_def intro!: exI [of _ j])
    next
      case False
      with 1 obtain i where "i < ?n" "holds_key k' (?t ! i)" "on_value (?t ! i) = w"
        by (auto simp: open_lookup_iff [OF inv])
      moreover from this j(3) have "i \<noteq> j" by (auto simp: holds_key_def)
      ultimately show ?thesis using t' by (auto intro!: exI [of _ i])
    qed
  next
    case 2
    then have "k' \<noteq> k" "\<forall>i < ?n. \<not> holds_key k' (?t ! i)" by (auto simp: open_lookup_None split: if_splits)
    with t' nd jn show ?case by (auto simp: nth_list_update holds_key_def)
  qed
  ultimately show ?thesis by blast
qed

lemma store_spec:
  assumes inv: "open_inv h m" and j: "j < length (oa_table m)" "holds_key k (oa_table m ! j)"
  shows "open_inv h (open_store m j v) \<and> open_lookup (open_store m j v) = (open_lookup m)(k \<mapsto> v)"
proof -
  let ?t = "oa_table m" and ?n = "length (oa_table m)"
  define nd where "nd = (?t ! j)\<lparr>on_value := v\<rparr>"
  have nd: "on_key nd = k" "on_value nd = v" "occupied nd" using j(2) by (simp_all add: nd_def holds_key_def)
  have t': "oa_table (open_store m j v) = ?t[j := nd]" "oa_size (open_store m j v) = oa_size m"
    "oa_mask (open_store m j v) = oa_mask m" by (simp_all add: open_store_def nd_def)
  have same: "on_key (?t[j := nd] ! i) = on_key (?t ! i)" "on_status (?t[j := nd] ! i) = on_status (?t ! i)" for i
    using nd j by (cases "i = j"; simp add: holds_key_def)+
  have holds: "holds_key k' (?t[j := nd] ! i) \<longleftrightarrow> holds_key k' (?t ! i)" for k' i
    by (simp add: holds_key_def same)
  have cnt: "length (filter occupied (?t[j := nd])) = length (filter occupied ?t)"
    using length_filter_update [OF j(1), of occupied nd] j(2) nd by (simp add: holds_key_def)
  have reach: "reachable_slot h (?t[j := nd]) i \<longleftrightarrow> reachable_slot h ?t i" for i
    by (simp add: reachable_slot_def same)
  have inv': "open_inv h (open_store m j v)"
    using inv unfolding open_inv_def Let_def t' cnt holds reach same by simp
  moreover have "open_lookup (open_store m j v) k' = ((open_lookup m)(k \<mapsto> v)) k'" for k'
  proof (rule open_lookup_eqI [OF inv'], goal_cases)
    case (1 w)
    show ?case
    proof (cases "k' = k")
      case True
      with 1 j nd t' holds show ?thesis by (auto intro!: exI [of _ j])
    next
      case False
      with 1 obtain i where "i < ?n" "holds_key k' (?t ! i)" "on_value (?t ! i) = w"
        by (auto simp: open_lookup_iff [OF inv])
      moreover from this j(2) False have "i \<noteq> j" by (auto simp: holds_key_def)
      ultimately show ?thesis using t' holds by (auto intro!: exI [of _ i])
    qed
  next
    case 2
    then have "\<forall>i < ?n. \<not> holds_key k' (?t ! i)" by (auto simp: open_lookup_None split: if_splits)
    with t' holds show ?case by auto
  qed
  ultimately show ?thesis by blast
qed

text \<open>A tombstone in the key's slot removes the key and keeps every path intact.\<close>

lemma delete_spec:
  assumes inv: "open_inv h m" and j: "j < length (oa_table m)" "holds_key k (oa_table m ! j)"
    and m'_def: "m' = m\<lparr>oa_table := (oa_table m)[j := (oa_table m ! j)\<lparr>on_status := DELETED\<rparr>], oa_size := oa_size m - 1\<rparr>"
  shows "open_inv h m' \<and> open_lookup m' = (open_lookup m)(k := None)"
proof -
  let ?t = "oa_table m" and ?n = "length (oa_table m)"
  define nd where "nd = (?t ! j)\<lparr>on_status := DELETED\<rparr>"
  have nd: "on_status nd = DELETED" by (simp add: nd_def)
  have t': "oa_table m' = ?t[j := nd]" "oa_size m' = oa_size m - 1" "oa_mask m' = oa_mask m"
    by (simp_all add: m'_def nd_def)
  have holds: "holds_key k' (?t[j := nd] ! i) \<longleftrightarrow> holds_key k' (?t ! i) \<and> i \<noteq> j" for k' i
    using nd j by (cases "i = j") (simp_all add: holds_key_def)
  have occ: "occupied (?t[j := nd] ! i) \<longleftrightarrow> occupied (?t ! i) \<and> i \<noteq> j" for i
    using nd j by (cases "i = j") simp_all
  have filled: "on_status (?t[j := nd] ! i) \<noteq> EMPTY" if "on_status (?t ! i) \<noteq> EMPTY" for i
    using that nd j by (cases "i = j") simp_all
  have cnt: "Suc (length (filter occupied (?t[j := nd]))) = length (filter occupied ?t)"
    using length_filter_update [OF j(1), of occupied nd] j(2) nd by (simp add: holds_key_def)
  have size: "unat (oa_size m) = length (filter occupied ?t)" using inv by (simp add: open_inv_def Let_def)
  have "oa_size m \<noteq> 0" using cnt size by auto
  then have size': "unat (oa_size m - 1) = unat (oa_size m) - 1" by (rule unat_minus_one)
  have reach: "reachable_slot h (?t[j := nd]) i" if "i < ?n" "occupied (?t[j := nd] ! i)" for i
  proof (rule reachable_slot_mono)
    show "reachable_slot h ?t i" using that occ inv by (simp add: open_inv_def Let_def)
  qed (use that occ filled in auto)
  have uniq: "i = i'" if "i < ?n" "i' < ?n" "occupied (?t[j := nd] ! i)"
    "holds_key (on_key (?t[j := nd] ! i)) (?t[j := nd] ! i')" for i i'
    using that occ holds open_unique [OF inv that(1,2), of "on_key (?t ! i)"] by (auto simp: holds_key_def)
  have inv': "open_inv h m'"
    using inv uniq reach cnt size size' unfolding open_inv_def Let_def t' by auto
  moreover have "open_lookup m' k' = ((open_lookup m)(k := None)) k'" for k'
  proof (rule open_lookup_eqI [OF inv'], goal_cases)
    case (1 w)
    then have "k' \<noteq> k" by auto
    with 1 obtain i where "i < ?n" "holds_key k' (?t ! i)" "on_value (?t ! i) = w"
      by (auto simp: open_lookup_iff [OF inv])
    moreover from this j(2) \<open>k' \<noteq> k\<close> have "i \<noteq> j" by (auto simp: holds_key_def)
    ultimately show ?case using t' holds by (auto intro!: exI [of _ i])
  next
    case 2
    show ?case
    proof (cases "k' = k")
      case True
      then show ?thesis using open_unique [OF inv _ j(1) _ j(2)] t' holds by auto
    next
      case False
      with 2 have "\<forall>i < ?n. \<not> holds_key k' (?t ! i)" by (simp add: open_lookup_None)
      with t' holds show ?thesis by auto
    qed
  qed
  ultimately show ?thesis by blast
qed

lemma occupy_size:
  "open_inv h m \<Longrightarrow> unat (oa_size (occupy m j k v)) = Suc (unat (oa_size m))"
  "length (oa_table (occupy m j k v)) = length (oa_table m)"
  by (simp_all add: occupy_def open_size_Suc)

definition no_tombstones :: "('k, 'v) open_map \<Rightarrow> bool" where
  "no_tombstones m \<longleftrightarrow> (\<forall>node \<in> set (oa_table m). on_status node \<noteq> DELETED)"

lemma occupy_no_tombstones: "no_tombstones m \<Longrightarrow> no_tombstones (occupy m j k v)"
  unfolding no_tombstones_def occupy_def
  by (auto dest!: subsetD [OF set_update_subset_insert])

lemma insert_place_absent:
  assumes "open_inv h m" and "open_lookup m k = None" and "Suc (unat (oa_size m)) < length (oa_table m)"
  obtains m' where "insert_place h m k v = Inr m'" "open_inv h m'" "open_lookup m' = (open_lookup m)(k \<mapsto> v)"
    "unat (oa_size m') = Suc (unat (oa_size m))" "length (oa_table m') = length (oa_table m)"
    "no_tombstones m \<Longrightarrow> no_tombstones m'"
proof -
  obtain present j e where p: "probe_insert (Suc (length (oa_table m))) (oa_table m) (oa_mask m) k (getHash h m k) = Inr (present, j)"
    and e: "e < length (oa_table m)" "j = (home h (length (oa_table m)) k + e) mod length (oa_table m)"
    "\<forall>i < e. occupied (oa_table m ! ((home h (length (oa_table m)) k + i) mod length (oa_table m)))"
    and r: "if present then holds_key k (oa_table m ! j) else \<not> occupied (oa_table m ! j)"
    by (rule open_insert_slot [OF assms(1)]) blast
  have "j < length (oa_table m)" unfolding e(2) using open_table_nonempty [OF assms(1)] by (rule mod_less_divisor)
  then have "\<not> present" using assms(2) r by (auto simp: open_lookup_None)
  then have "insert_place h m k v = Inr (occupy m j k v)" using p by (simp add: insert_place_def)
  with occupy_spec [OF assms e(1,2) _ e(3), of v] r \<open>\<not> present\<close> occupy_size(1) [OF assms(1), of j k v]
    occupy_size(2) [of m j k v] occupy_no_tombstones [of m j k v]
  show thesis by (intro that [of "occupy m j k v"]) auto
qed

text \<open>Without tombstones the path to a stored key is occupied, so the key is found again.\<close>

lemma open_present_slot:
  assumes inv: "open_inv h m" and "no_tombstones m" and "open_lookup m k = Some w"
  obtains j where "j < length (oa_table m)" "holds_key k (oa_table m ! j)"
    "probe_insert (Suc (length (oa_table m))) (oa_table m) (oa_mask m) k (getHash h m k) = Inr (True, j)"
    "probe_subscript (Suc (length (oa_table m))) (oa_table m) (oa_mask m) k (getHash h m k) (getHash h m k)
      = Inr (True, j)"
proof -
  let ?t = "oa_table m" and ?n = "length (oa_table m)" and ?a = "home h (length (oa_table m)) k"
  obtain s where s: "s < ?n" "holds_key k (?t ! s)" using assms(3) by (auto simp: open_lookup_iff [OF inv])
  obtain d where d: "d < ?n" "s = (?a + d) mod ?n" "\<forall>i < d. on_status (?t ! ((?a + i) mod ?n)) \<noteq> EMPTY"
    using open_reach [OF inv s] .
  obtain present j e where p: "probe_insert (Suc ?n) ?t (oa_mask m) k (getHash h m k) = Inr (present, j)"
      "probe_subscript (Suc ?n) ?t (oa_mask m) k (getHash h m k) (getHash h m k) = Inr (present, j)"
    and e: "j = (?a + e) mod ?n"
      "\<forall>i < e. occupied (?t ! ((?a + i) mod ?n)) \<and> \<not> holds_key k (?t ! ((?a + i) mod ?n))"
    and r: "if present then holds_key k (?t ! j) else \<not> occupied (?t ! j)"
    by (rule open_insert_slot [OF inv]) blast
  have lt: "(?a + i) mod ?n < ?n" for i using open_table_nonempty [OF inv] by (rule mod_less_divisor)
  have occ: "occupied (?t ! ((?a + i) mod ?n))" if "i < d" for i
  proof -
    have "on_status (?t ! ((?a + i) mod ?n)) \<noteq> DELETED" using assms(2) lt [of i] by (auto simp: no_tombstones_def)
    moreover have "on_status (?t ! ((?a + i) mod ?n)) \<noteq> EMPTY" using d(3) that by blast
    ultimately show ?thesis by (cases "on_status (?t ! ((?a + i) mod ?n))") auto
  qed
  have "\<not> d < e" using e(2) s(2) d(2) by auto
  moreover have "occupied (?t ! s)" using s(2) by (simp add: holds_key_def)
  ultimately have "occupied (?t ! j)" using occ [of e] d(2) e(1) by (cases "e = d") auto
  with r have "present" by (auto split: if_splits)
  with that p r lt [of e] e(1) show thesis by auto
qed

text \<open>
  The nodes of the old table are distinct and fit into a table that keeps half its slots free,
  so no insertion during the rehash passes the load limit.
\<close>

lemma reinsert_spec:
  assumes "\<And>m k v. open_inv h m \<Longrightarrow> open_lookup m k = None \<Longrightarrow> \<not> load_exceeded m \<Longrightarrow> ins m k v = insert_place h m k v"
  shows "open_inv h m \<Longrightarrow> no_tombstones m \<Longrightarrow> distinct (map on_key (filter occupied nodes)) \<Longrightarrow>
    \<forall>node \<in> set (filter occupied nodes). open_lookup m (on_key node) = None \<Longrightarrow>
    2 * (unat (oa_size m) + length (filter occupied nodes)) \<le> length (oa_table m) \<Longrightarrow>
    \<exists>m'. reinsert ins nodes m = Inr m' \<and> reinsert (insert_place h) nodes m = Inr m' \<and> open_inv h m' \<and> no_tombstones m' \<and>
      open_lookup m' = open_lookup m ++ map_of (map (\<lambda>node. (on_key node, on_value node)) (filter occupied nodes)) \<and>
      length (oa_table m') = length (oa_table m) \<and>
      unat (oa_size m') = unat (oa_size m) + length (filter occupied nodes)"
proof (induction nodes arbitrary: m)
  case Nil
  then show ?case by simp
next
  case (Cons node nodes)
  show ?case
  proof (cases "occupied node")
    case False
    with Cons show ?thesis by simp
  next
    case True
    have absent: "open_lookup m (on_key node) = None" using Cons.prems(4) True by simp
    have "\<not> load_exceeded m"
      using Cons.prems(5) True by (intro load_has_room) (simp add: open_size_Suc [OF Cons.prems(1)])
    then have ins: "ins m (on_key node) (on_value node) = insert_place h m (on_key node) (on_value node)"
      using assms Cons.prems(1) absent by blast
    have "Suc (unat (oa_size m)) < length (oa_table m)"
      using Cons.prems(5) True open_table_nonempty [OF Cons.prems(1)] by simp
    obtain m1 where
      m1: "insert_place h m (on_key node) (on_value node) = Inr m1" "open_inv h m1"
        "open_lookup m1 = (open_lookup m)(on_key node \<mapsto> on_value node)"
        "unat (oa_size m1) = Suc (unat (oa_size m))" "length (oa_table m1) = length (oa_table m)"
        "no_tombstones m1"
      using Cons.prems(2) by (metis insert_place_absent [OF Cons.prems(1) absent \<open>Suc _ < _\<close>])
    have "\<exists>m'. reinsert ins nodes m1 = Inr m' \<and> reinsert (insert_place h) nodes m1 = Inr m' \<and> open_inv h m' \<and> no_tombstones m' \<and>
      open_lookup m' = open_lookup m1 ++ map_of (map (\<lambda>node. (on_key node, on_value node)) (filter occupied nodes)) \<and>
      length (oa_table m') = length (oa_table m1) \<and>
      unat (oa_size m') = unat (oa_size m1) + length (filter occupied nodes)"
      using Cons.prems(2-5) True m1 by (intro Cons.IH) (auto simp: image_iff)
    then obtain m2 where m2: "reinsert ins nodes m1 = Inr m2" "reinsert (insert_place h) nodes m1 = Inr m2" "open_inv h m2" "no_tombstones m2"
      "open_lookup m2 = open_lookup m1 ++ map_of (map (\<lambda>node. (on_key node, on_value node)) (filter occupied nodes))"
      "length (oa_table m2) = length (oa_table m1)"
      "unat (oa_size m2) = unat (oa_size m1) + length (filter occupied nodes)" by blast
    moreover have "on_key node \<notin> dom (map_of (map (\<lambda>node. (on_key node, on_value node)) (filter occupied nodes)))"
      using Cons.prems(3) True by (auto simp: dom_map_of_conv_image_fst image_iff)
    then have "open_lookup m1 ++ map_of (map (\<lambda>node. (on_key node, on_value node)) (filter occupied nodes))
        = open_lookup m ++ map_of (map (\<lambda>node. (on_key node, on_value node)) (filter occupied (node # nodes)))"
      using True m1(3) by (auto simp: fun_eq_iff map_add_def split: option.splits)
    moreover have "reinsert ins (node # nodes) m = Inr m2" "reinsert (insert_place h) (node # nodes) m = Inr m2"
      using True ins m1(1) m2(1,2) by simp_all
    ultimately show ?thesis using True m1(4,5) by (intro exI [of _ m2] conjI) (simp_all only: filter.simps simp_thms if_True
      length_Cons add_Suc_right add_Suc)
  qed
qed

lemma open_fresh:
  assumes "b < 60"
  shows "open_inv h \<lparr>oa_table = replicate (2 ^ b) (z\<lparr>on_status := EMPTY\<rparr>), oa_size = 0, oa_mask = 2 ^ b - 1\<rparr>"
    and "open_lookup \<lparr>oa_table = replicate (2 ^ b) (z\<lparr>on_status := EMPTY\<rparr>), oa_size = s, oa_mask = k\<rparr> = Map.empty"
  using assms by (auto simp: open_inv_def open_lookup_def find_None_iff holds_key_def fun_eq_iff)

lemma entry_lookup:
  "map_of (map (\<lambda>node. (on_key node, on_value node)) (filter occupied t)) k
    = map_option on_value (List.find (holds_key k) t)"
proof (induction t)
  case (Cons node t)
  have "holds_key k node \<longleftrightarrow> occupied node \<and> on_key node = k" by (rule holds_key_def)
  then show ?case unfolding find.simps filter.simps if_distrib [of "map _"] list.map map_of.simps fst_conv snd_conv
    using Cons.IH by auto
qed simp

lemma entry_distinct:
  assumes "\<And>i j. i < length t \<Longrightarrow> j < length t \<Longrightarrow> occupied (t ! i) \<Longrightarrow> occupied (t ! j) \<Longrightarrow>
    on_key (t ! i) = on_key (t ! j) \<Longrightarrow> i = j"
  shows "distinct (map on_key (filter occupied t))"
  using assms
proof (induction t)
  case (Cons node t)
  have "i = j" if "i < length t" "j < length t" "occupied (t ! i)" "occupied (t ! j)" "on_key (t ! i) = on_key (t ! j)" for i j
    using Cons.prems [of "Suc i" "Suc j"] that by simp
  from Cons.IH [OF this] have IH: "distinct (map on_key (filter occupied t))" .
  have "on_key node \<notin> on_key ` set (filter occupied t)" if "occupied node"
  proof
    assume "on_key node \<in> on_key ` set (filter occupied t)"
    then obtain j where "j < length t" "occupied (t ! j)" "on_key node = on_key (t ! j)"
      by (auto simp: in_set_conv_nth)
    with Cons.prems [of 0 "Suc j"] that show False by simp
  qed
  with IH show ?case by simp
qed simp

lemma open_entries:
  assumes inv: "open_inv h m"
  shows "distinct (map on_key (filter occupied (oa_table m)))"
    and "map_of (map (\<lambda>node. (on_key node, on_value node)) (filter occupied (oa_table m))) = open_lookup m"
proof -
  have "i = j" if "i < length (oa_table m)" "j < length (oa_table m)" "occupied (oa_table m ! i)"
    "occupied (oa_table m ! j)" "on_key (oa_table m ! i) = on_key (oa_table m ! j)" for i j
    using open_unique [OF inv that(1,2), of "on_key (oa_table m ! i)"] that by (simp add: holds_key_def)
  then show "distinct (map on_key (filter occupied (oa_table m)))" by (rule entry_distinct)
qed (simp add: fun_eq_iff open_lookup_def entry_lookup)

text \<open>
  A rehash fails only where the vector would pass its maximal size; otherwise it keeps the map,
  doubles the table, and leaves room for one more insertion without a rehash.
\<close>

lemma rehash_spec:
  assumes inv: "open_inv h m"
    and ins: "\<And>m k v. open_inv h m \<Longrightarrow> open_lookup m k = None \<Longrightarrow> \<not> load_exceeded m \<Longrightarrow> ins m k v = insert_place h m k v"
  shows "if length (oa_table m) < 2 ^ 59
    then \<exists>m'. rehash_with ins z m = Inr m' \<and> rehash_with (insert_place h) z m = Inr m' \<and> open_inv h m' \<and> no_tombstones m' \<and> open_lookup m' = open_lookup m \<and>
      length (oa_table m') = 2 * length (oa_table m) \<and> oa_size m' = oa_size m \<and> \<not> load_exceeded m'
    else rehash_with ins z m = Inl (Throw Length_Error) \<and> rehash_with (insert_place h) z m = Inl (Throw Length_Error)"
proof -
  obtain b where b: "b < 60" "oa_mask m = 2 ^ b - 1" "length (oa_table m) = 2 ^ b" using inv by (rule open_shape)
  have new: "of_nat (length (oa_table m)) * 2 = (2 ^ Suc b :: u64)" unfolding b(3) by simp
  have unew: "unat (2 ^ Suc b :: u64) = 2 ^ Suc b" using b(1) by (intro unat_2p) simp
  show ?thesis
  proof (cases "b < 59")
    case False
    with b(1) have "b = 59" by simp
    with b(3) unew show ?thesis by (simp only: rehash_with_def Let_def new node_vector_def) simp
  next
    case True
    let ?m0 = "\<lparr>oa_table = replicate (2 ^ Suc b) (z\<lparr>on_status := EMPTY\<rparr>), oa_size = 0, oa_mask = 2 ^ Suc b - 1\<rparr>"
    have lt: "(2::nat) ^ Suc b < 2 ^ 60" "(2::nat) ^ b < 2 ^ 59" using True by (intro power_strict_increasing; simp)+
    have red: "rehash_with ins z m = reinsert ins (oa_table m) ?m0" for ins
      using lt(1) unfolding rehash_with_def Let_def new node_vector_def unew by simp
    have m0: "open_inv h ?m0" "open_lookup ?m0 = Map.empty"
      using True open_fresh(1) [of "Suc b" h z] by (simp_all only: open_fresh(2))
    have size: "unat (oa_size m) = length (filter occupied (oa_table m))" "unat (oa_size m) < 2 ^ b"
      using inv b(3) by (simp_all add: open_inv_def Let_def)
    have "\<exists>m'. reinsert ins (oa_table m) ?m0 = Inr m' \<and> reinsert (insert_place h) (oa_table m) ?m0 = Inr m' \<and> open_inv h m' \<and> no_tombstones m' \<and>
      open_lookup m' = open_lookup ?m0 ++ map_of (map (\<lambda>node. (on_key node, on_value node)) (filter occupied (oa_table m))) \<and>
      length (oa_table m') = length (oa_table ?m0) \<and> unat (oa_size m') = unat (oa_size ?m0) + length (filter occupied (oa_table m))"
      by (rule reinsert_spec [OF ins m0(1) _ open_entries(1) [OF inv]]) (use size m0(2)  in \<open>simp_all add: no_tombstones_def\<close>)
    then obtain m' where m': "rehash_with ins z m = Inr m'" "rehash_with (insert_place h) z m = Inr m'" "open_inv h m'" "open_lookup m' = open_lookup m"
      "length (oa_table m') = 2 * length (oa_table m)" "unat (oa_size m') = unat (oa_size m)" "no_tombstones m'"
      unfolding red m0(2) open_entries(2) [OF inv] size(1) using b(3) by auto
    moreover have "\<not> load_exceeded m'"
      using size(2) b(3) m'(5,6) by (intro load_has_room) (simp add: open_size_Suc [OF m'(3)])
    ultimately show ?thesis using lt(2) b(3) by (auto simp: word_unat_eq_iff)
  qed
qed

text \<open>
  \<open>insert\<close> and \<open>operator[]\<close> first grow the table where the load limit asks for it. Nothing
  below the second level of nested calls is ever reached.
\<close>

lemma open_insert_unloaded: "\<not> load_exceeded m \<Longrightarrow> open_insert_upto (Suc d) h z m k v = insert_place h m k v"
  by simp

definition grown :: "('k \<Rightarrow> u64) \<Rightarrow> ('k, 'v) onode \<Rightarrow> ('k, 'v) open_map \<Rightarrow> ('k, 'v) open_map res" where
  "grown h z m = (if load_exceeded m then reHash h z m else Inr m)"

lemma open_insert_depth:
  assumes "open_inv h m"
  shows "rehash_with (open_insert_upto (Suc d) h z) z m = reHash h z m"
    and "open_insert_upto (Suc (Suc d)) h z m k v = open_insert h z m k v"
proof -
  have same: "rehash_with (open_insert_upto (Suc d) h z) z m = rehash_with (insert_place h) z m" for d
    using rehash_spec [OF assms open_insert_unloaded [where d = d and h = h and z = z], of z]
    by (auto split: if_splits)
  show r: "rehash_with (open_insert_upto (Suc d) h z) z m = reHash h z m" for d
    unfolding reHash_def open_insert_def numeral_2_eq_2 same ..
  show "open_insert_upto (Suc (Suc d)) h z m k v = open_insert h z m k v"
    unfolding open_insert_def numeral_2_eq_2 open_insert_upto.simps(2) [of "Suc _"] r ..
qed

lemma open_insert_grown:
  "open_inv h m \<Longrightarrow> open_insert h z m k v = res_bind (grown h z m) (\<lambda>m1. insert_place h m1 k v)"
  using open_insert_depth(1) [of h m 0 z]
  by (simp add: open_insert_def numeral_2_eq_2 grown_def del: open_insert_upto.simps)
    (simp add: open_insert_upto.simps(2) [of "Suc 0"] del: open_insert_upto.simps)

lemma grown_spec:
  assumes inv: "open_inv h m"
  shows "if \<not> load_exceeded m \<or> length (oa_table m) < 2 ^ 59
    then \<exists>m1. grown h z m = Inr m1 \<and> open_inv h m1 \<and> open_lookup m1 = open_lookup m \<and>
      (no_tombstones m \<longrightarrow> no_tombstones m1) \<and> \<not> load_exceeded m1 \<and> Suc (unat (oa_size m1)) < length (oa_table m1)
    else grown h z m = Inl (Throw Length_Error)"
proof -
  have room: "Suc (unat (oa_size m1)) < length (oa_table m1)" if "open_inv h m1" "\<not> load_exceeded m1" for m1
    using load_leaves_slot [OF that(2)] open_table_nonempty [OF that(1)] open_size_Suc [OF that(1)] by simp
  show ?thesis
    using rehash_spec [OF inv open_insert_unloaded [where d = 1 and h = h and z = z], of z] inv room [OF inv] room
    unfolding grown_def reHash_def open_insert_def numeral_2_eq_2
    by (auto split: if_splits)
qed

lemma grown_Inr:
  assumes "open_inv h m" and "grown h z m = Inr m1"
  shows "open_inv h m1" "open_lookup m1 = open_lookup m" "no_tombstones m \<longrightarrow> no_tombstones m1"
    "\<not> load_exceeded m1" "Suc (unat (oa_size m1)) < length (oa_table m1)"
  using grown_spec [OF assms(1), of z] assms(2) by (auto split: if_splits)

lemma open_insert_absent:
  assumes inv: "open_inv h m" and absent: "open_lookup m k = None" and run: "open_insert h z m k v = Inr m'"
  shows "open_inv h m' \<and> open_lookup m' = (open_lookup m)(k \<mapsto> v) \<and> (no_tombstones m \<longrightarrow> no_tombstones m')"
proof -
  obtain m1 where m1: "grown h z m = Inr m1" "insert_place h m1 k v = Inr m'"
    using run by (auto simp: open_insert_grown [OF inv] res_bind_Inr_iff)
  note g = grown_Inr [OF inv m1(1)]
  have "open_lookup m1 k = None" using absent g(2) by simp
  from insert_place_absent [OF g(1) this g(5), of v] obtain m2 where
    "insert_place h m1 k v = Inr m2" "open_inv h m2" "open_lookup m2 = (open_lookup m1)(k \<mapsto> v)"
    "no_tombstones m1 \<Longrightarrow> no_tombstones m2" by metis
  moreover from this(1) m1(2) have "m2 = m'" by simp
  ultimately show ?thesis using g(2,3) by (metis (no_types))
qed

lemma open_store_no_tombstones: "no_tombstones m \<Longrightarrow> j < length (oa_table m) \<Longrightarrow> no_tombstones (open_store m j v)"
  unfolding no_tombstones_def open_store_def by (auto dest!: subsetD [OF set_update_subset_insert])

lemma open_insert_present:
  assumes inv: "open_inv h m" and nt: "no_tombstones m" and present: "open_lookup m k = Some w"
    and run: "open_insert h z m k v = Inr m'"
  shows "open_inv h m' \<and> open_lookup m' = (open_lookup m)(k \<mapsto> v) \<and> no_tombstones m'"
proof -
  obtain m1 where m1: "grown h z m = Inr m1" "insert_place h m1 k v = Inr m'"
    using run by (auto simp: open_insert_grown [OF inv] res_bind_Inr_iff)
  note g = grown_Inr [OF inv m1(1)]
  have nt1: "no_tombstones m1" and p1: "open_lookup m1 k = Some w" using g(2,3) nt present by auto
  obtain j where j: "j < length (oa_table m1)" "holds_key k (oa_table m1 ! j)" and
    p: "probe_insert (Suc (length (oa_table m1))) (oa_table m1) (oa_mask m1) k (getHash h m1 k) = Inr (True, j)"
    by (rule open_present_slot [OF g(1) nt1 p1])
  have m': "m' = open_store m1 j v" using m1(2) p by (simp add: insert_place_def)
  show ?thesis using store_spec [OF g(1) j(1,2), of v] open_store_no_tombstones [OF nt1 j(1), of v]
    unfolding m' g(2) by blast
qed

lemma open_subscript_free:
  assumes inv: "open_inv h m" and absent: "open_lookup m k = None"
  shows "open_subscript h z dflt m k = res_bind (grown h z m) (\<lambda>m1.
    res_bind (probe_insert (Suc (length (oa_table m1))) (oa_table m1) (oa_mask m1) k (getHash h m1 k))
      (\<lambda>(present, j). Inr (j, occupy m1 j k dflt)))"
proof -
  have step: "\<exists>j. probe_subscript (Suc (length (oa_table m))) (oa_table m) (oa_mask m) k (getHash h m k) (getHash h m k)
      = Inr (False, j) \<and>
      probe_insert (Suc (length (oa_table m))) (oa_table m) (oa_mask m) k (getHash h m k) = Inr (False, j)"
    if i: "open_inv h m" and a: "open_lookup m k = None" for m
  proof -
    obtain present j e where p: "probe_insert (Suc (length (oa_table m))) (oa_table m) (oa_mask m) k (getHash h m k) = Inr (present, j)"
      "probe_subscript (Suc (length (oa_table m))) (oa_table m) (oa_mask m) k (getHash h m k) (getHash h m k) = Inr (present, j)"
      and e: "j = (home h (length (oa_table m)) k + e) mod length (oa_table m)"
      and r: "if present then holds_key k (oa_table m ! j) else \<not> occupied (oa_table m ! j)"
      by (rule open_insert_slot [OF i]) blast
    have "j < length (oa_table m)" unfolding e using open_table_nonempty [OF i] by (rule mod_less_divisor)
    then have "\<not> present" using a r by (auto simp: open_lookup_None)
    with p show ?thesis by auto
  qed
  show ?thesis
  proof (cases "grown h z m")
    case (Inl e)
    with step [OF inv absent] show ?thesis
      by (auto simp: open_subscript_def numeral_2_eq_2 grown_def split: if_splits)
  next
    case (Inr m1)
    note g = grown_Inr [OF inv Inr]
    have a1: "open_lookup m1 k = None" using g(2) absent by simp
    show ?thesis using step [OF inv absent] step [OF g(1) a1] Inr g(4)
      by (auto simp: open_subscript_def numeral_2_eq_2 grown_def split: if_splits)
  qed
qed

lemma open_subscript_absent:
  assumes inv: "open_inv h m" and absent: "open_lookup m k = None" and run: "open_subscript h z dflt m k = Inr (r, m')"
  shows "open_inv h m' \<and> open_lookup m' = (open_lookup m)(k \<mapsto> dflt) \<and> open_deref m' r = dflt \<and>
    (\<forall>w. open_inv h (open_store m' r w) \<and> open_lookup (open_store m' r w) = (open_lookup m)(k \<mapsto> w))"
proof -
  obtain m1 where m1: "grown h z m = Inr m1" using run by (auto simp: open_subscript_free [OF inv absent] res_bind_Inr_iff)
  note g = grown_Inr [OF inv m1]
  have a1: "open_lookup m1 k = None" using g(2) absent by simp
  obtain present j e where p: "probe_insert (Suc (length (oa_table m1))) (oa_table m1) (oa_mask m1) k (getHash h m1 k) = Inr (present, j)"
    and e: "e < length (oa_table m1)" "j = (home h (length (oa_table m1)) k + e) mod length (oa_table m1)"
    "\<forall>i < e. occupied (oa_table m1 ! ((home h (length (oa_table m1)) k + i) mod length (oa_table m1)))"
    and r: "if present then holds_key k (oa_table m1 ! j) else \<not> occupied (oa_table m1 ! j)"
    by (rule open_insert_slot [OF g(1)]) blast
  have j: "j < length (oa_table m1)" unfolding e(2) using open_table_nonempty [OF g(1)] by (rule mod_less_divisor)
  then have "\<not> occupied (oa_table m1 ! j)" using a1 r by (auto simp: open_lookup_None split: if_splits)
  note o = occupy_spec [OF g(1) a1 g(5) e(1,2) this e(3), of dflt]
  have m': "r = j" "m' = occupy m1 j k dflt" using run m1 p by (auto simp: open_subscript_free [OF inv absent])
  have at: "holds_key k (oa_table (occupy m1 j k dflt) ! j)" "j < length (oa_table (occupy m1 j k dflt))"
    "on_value (oa_table (occupy m1 j k dflt) ! j) = dflt"
    using j by (simp_all add: occupy_def holds_key_def)
  have "open_inv h (open_store m' r w) \<and> open_lookup (open_store m' r w) = (open_lookup m)(k \<mapsto> w)" for w
    using store_spec [OF conjunct1 [OF o] at(2,1), of w] o g(2) m' by simp
  moreover have "open_deref m' r = dflt" using at(3) m' by (simp add: open_deref_def)
  ultimately show ?thesis using o unfolding m' g(2) by blast
qed

lemma open_subscript_present:
  assumes inv: "open_inv h m" and nt: "no_tombstones m" and present: "open_lookup m k = Some w"
  obtains j where "open_subscript h z dflt m k = Inr (j, m)" "j < length (oa_table m)" "holds_key k (oa_table m ! j)"
  by (rule open_present_slot [OF assms])
    (rule that, simp_all add: open_subscript_def numeral_2_eq_2)

lemma open_find_spec:
  assumes inv: "open_inv h m"
  shows "\<exists>r. open_find h m k = Inr r \<and> (case r of
      None \<Rightarrow> open_lookup m k = None
    | Some j \<Rightarrow> open_lookup m k = Some (open_deref m j) \<and>
        (\<forall>w. open_inv h (open_store m j w) \<and> open_lookup (open_store m j w) = (open_lookup m)(k \<mapsto> w)))"
proof -
  obtain r where r: "open_probe h m k = Inr r" "case r of None \<Rightarrow> open_lookup m k = None
    | Some j \<Rightarrow> j < length (oa_table m) \<and> holds_key k (oa_table m ! j)"
    using open_probe_spec [OF inv, of k] by blast
  then show ?thesis
    using open_lookup_Some [OF inv] store_spec [OF inv]
    by (cases r) (auto simp: open_find_def open_deref_def)
qed

lemma open_contains_spec: "open_inv h m \<Longrightarrow> open_contains h m k = Inr (open_lookup m k \<noteq> None)"
  using open_find_spec [of h m k]
  by (auto simp: open_contains_def open_find_def split: option.splits)

lemma open_erase_spec:
  assumes inv: "open_inv h m"
  shows "\<exists>m'. open_erase h m k = Inr (open_lookup m k \<noteq> None, m') \<and> open_inv h m' \<and>
    open_lookup m' = (open_lookup m)(k := None)"
proof -
  obtain r where r: "open_probe h m k = Inr r" "case r of None \<Rightarrow> open_lookup m k = None
    | Some j \<Rightarrow> j < length (oa_table m) \<and> holds_key k (oa_table m ! j)"
    using open_probe_spec [OF inv, of k] by blast
  show ?thesis
  proof (cases r)
    case None
    with r inv show ?thesis by (auto simp: open_erase_def fun_eq_iff)
  next
    case (Some j)
    with r have j: "j < length (oa_table m)" "holds_key k (oa_table m ! j)" by simp_all
    from delete_spec [OF inv j refl] open_lookup_Some [OF inv j] r(1) Some show ?thesis
      by (simp add: open_erase_def)
  qed
qed

interpretation opm: hash_map "open_ops h z dflt" "open_inv h" open_lookup dflt
  for h :: "'k \<Rightarrow> u64" and z :: "('k, 'v) onode" and dflt :: 'v
proof (unfold_locales, goal_cases)
  case (1 m k)
  then show ?case by (simp add: open_ops_def open_contains_spec)
next
  case (2 m k)
  with open_find_spec [OF 2(1), of k] show ?case by (auto simp: open_ops_def split: option.splits)
next
  case (3 m k v)
  with open_find_spec [OF 3(1), of k] show ?case by (auto simp: open_ops_def split: option.splits)
next
  case (4 m k v m')
  then show ?case using open_insert_absent [of h m k z v m'] by (simp add: open_ops_def)
next
  case (5 m k r m')
  then show ?case using open_subscript_absent [of h m k z dflt r m'] by (simp add: open_ops_def)
next
  case (6 m k)
  from open_erase_spec [OF 6, of k] show ?case by (simp add: open_ops_def)
qed

section \<open>Properties\<close>

text \<open>
  C23: On a well-formed \<^verbatim>\<open>OpenAddressingHashMap\<close> every probing loop ends, \<open>contains\<close> and
  \<open>find\<close> read the finite map its occupied slots represent, and \<open>erase\<close> removes the key.
  \<open>insert\<close> is the map update, rehash included, whenever the key is absent or the table has no
  tombstone; it fails only where the table would outgrow a vector.
\<close>

theorem open_refines_map:
  assumes inv: "open_inv h m"
  shows "open_contains h m k = Inr (open_lookup m k \<noteq> None) \<and>
    lookup_op (open_ops h z dflt) m k = Inr (open_lookup m k) \<and>
    (\<exists>m'. open_erase h m k = Inr (open_lookup m k \<noteq> None, m') \<and> open_inv h m' \<and>
      open_lookup m' = (open_lookup m)(k := None)) \<and>
    (open_lookup m k = None \<or> no_tombstones m \<longrightarrow> (case open_insert h z m k v of
        Inr m' \<Rightarrow> open_inv h m' \<and> open_lookup m' = (open_lookup m)(k \<mapsto> v) \<and>
          (no_tombstones m \<longrightarrow> no_tombstones m')
      | Inl e \<Rightarrow> e = Throw Length_Error \<and> 2 ^ 59 \<le> length (oa_table m)))"
proof (intro conjI impI)
  show "lookup_op (open_ops h z dflt) m k = Inr (open_lookup m k)" by (rule opm.lookup [OF inv])
  assume "open_lookup m k = None \<or> no_tombstones m"
  then have ok: "open_inv h m' \<and> open_lookup m' = (open_lookup m)(k \<mapsto> v) \<and> (no_tombstones m \<longrightarrow> no_tombstones m')"
    if "open_insert h z m k v = Inr m'" for m'
    using open_insert_absent [OF inv _ that] open_insert_present [OF inv _ _ that]
    by (cases "open_lookup m k") auto
  have "insert_place h m1 k v \<noteq> Inl e" if g: "grown h z m = Inr m1" for m1 e
  proof -
    note g = grown_Inr [OF inv g]
    show ?thesis
      by (rule open_insert_slot [OF g(1), of k]) (simp add: insert_place_def split: prod.splits)
  qed
  moreover have "e = Throw Length_Error \<and> 2 ^ 59 \<le> length (oa_table m)" if "grown h z m = Inl e" for e
    using grown_spec [OF inv, of z] that by (auto split: if_splits)
  ultimately have err: "e = Throw Length_Error \<and> 2 ^ 59 \<le> length (oa_table m)" if "open_insert h z m k v = Inl e" for e
    using that by (cases "grown h z m") (simp_all add: open_insert_grown [OF inv])
  show "case open_insert h z m k v of
      Inr m' \<Rightarrow> open_inv h m' \<and> open_lookup m' = (open_lookup m)(k \<mapsto> v) \<and> (no_tombstones m \<longrightarrow> no_tombstones m')
    | Inl e \<Rightarrow> e = Throw Length_Error \<and> 2 ^ 59 \<le> length (oa_table m)"
    using ok err by (cases "open_insert h z m k v") simp_all
qed (rule open_contains_spec [OF inv], rule open_erase_spec [OF inv])

definition open_empty :: "('k, 'v) onode \<Rightarrow> u64 \<Rightarrow> ('k, 'v) open_map" where
  "open_empty z n = \<lparr>oa_table = replicate (unat n) (z\<lparr>on_status := EMPTY\<rparr>), oa_size = 0, oa_mask = n - 1\<rparr>"

lemma open_empty_inv:
  assumes "b < 60"
  shows "open_init z (2 ^ b) = Inr (open_empty z (2 ^ b))" "open_inv h (open_empty z (2 ^ b))"
    "open_lookup (open_empty z (2 ^ b)) = Map.empty" "no_tombstones (open_empty z (2 ^ b))"
proof -
  have u: "unat (2 ^ b :: u64) = 2 ^ b" using assms by (intro unat_2p) simp
  have lt: "(2::nat) ^ b < 2 ^ 60" using assms by (intro power_strict_increasing) simp_all
  show "open_init z (2 ^ b) = Inr (open_empty z (2 ^ b))"
    using lt by (simp add: open_init_def open_empty_def node_vector_def u)
  show "open_inv h (open_empty z (2 ^ b))" "open_lookup (open_empty z (2 ^ b)) = Map.empty"
    unfolding open_empty_def u using open_fresh [OF assms] by blast+
  show "no_tombstones (open_empty z (2 ^ b))" by (simp add: open_empty_def no_tombstones_def u)
qed

lemma open_refines_map_witness:
  "open_contains of_nat (open_empty \<lparr>on_key = 0, on_value = 0 :: nat, on_status = EMPTY\<rparr> 8) (5 :: nat) = Inr False \<and>
    (\<exists>m'. open_insert of_nat \<lparr>on_key = 0, on_value = 0, on_status = EMPTY\<rparr>
        (open_empty \<lparr>on_key = 0, on_value = 0, on_status = EMPTY\<rparr> 8) 5 50 = Inr m' \<and>
      open_lookup m' = [5 \<mapsto> (50 :: nat)])"
proof -
  let ?z = "\<lparr>on_key = 0 :: nat, on_value = 0 :: nat, on_status = EMPTY\<rparr>" and ?m = "open_empty \<lparr>on_key = 0 :: nat, on_value = 0 :: nat, on_status = EMPTY\<rparr> 8"
  have e: "open_inv of_nat ?m" "open_lookup ?m = Map.empty"
    using open_empty_inv(2) [where b = 3 and z = ?z and h = of_nat] open_empty_inv(3) [of 3 ?z] by simp_all
  have "length (oa_table ?m) = 8" by (simp add: open_empty_def)
  with open_refines_map [OF e(1), of 5 ?z 0 50] e(2) show ?thesis
    by (cases "open_insert of_nat ?z ?m 5 50") simp_all
qed

text \<open>
  C27: \<open>reHash\<close> keeps every entry of a well-formed map, doubles the table and clears its
  tombstones, leaves room for the insertion that caused it, and never rehashes again while it
  reinserts; it fails only where the table would outgrow a vector.
\<close>

theorem open_rehash_keeps_map:
  assumes inv: "open_inv h m"
  shows "case reHash h z m of
      Inr m' \<Rightarrow> open_inv h m' \<and> open_lookup m' = open_lookup m \<and> no_tombstones m' \<and>
        length (oa_table m') = 2 * length (oa_table m) \<and> \<not> load_exceeded m' \<and>
        rehash_with (insert_place h) z m = Inr m'
    | Inl e \<Rightarrow> e = Throw Length_Error \<and> 2 ^ 59 \<le> length (oa_table m)"
  using rehash_spec [OF inv open_insert_unloaded [where d = 1 and h = h and z = z], of z]
  unfolding reHash_def open_insert_def numeral_2_eq_2 by (auto split: if_splits)

lemma open_rehash_keeps_map_witness:
  "\<exists>m'. reHash of_nat \<lparr>on_key = 0, on_value = 0, on_status = EMPTY\<rparr>
      (open_empty \<lparr>on_key = 0 :: nat, on_value = 0 :: nat, on_status = EMPTY\<rparr> 8) = Inr m' \<and> length (oa_table m') = 16"
proof -
  let ?z = "\<lparr>on_key = 0 :: nat, on_value = 0 :: nat, on_status = EMPTY\<rparr>" and ?m = "open_empty \<lparr>on_key = 0 :: nat, on_value = 0 :: nat, on_status = EMPTY\<rparr> 8"
  have e: "open_inv of_nat ?m" using open_empty_inv(2) [where b = 3 and z = ?z and h = of_nat] by simp
  have "length (oa_table ?m) = 8" by (simp add: open_empty_def)
  with open_rehash_keeps_map [OF e, of ?z] show ?thesis
    by (cases "reHash of_nat ?z ?m") simp_all
qed

text \<open>A hash function that gives every key the same home.\<close>

definition collide :: "'k \<Rightarrow> u64" where
  "collide k = 0"

text \<open>
  C28: \<open>insert\<close> and \<open>operator[]\<close> stop at the first tombstone without looking for the key behind
  it. With the colliding keys 5 and 7: after inserting both, erasing 5 and inserting 7 again,
  key 7 has two slots, and erasing it uncovers its old value; \<open>operator[]\<close> in place of the
  second insertion hands out a fresh default although 7 is stored.
\<close>

theorem open_insert_behind_tombstone:
  fixes z :: "(nat, nat) onode"
  shows "\<exists>m. res_bind (open_insert collide z (open_empty z 8) 5 50) (\<lambda>m1. res_bind (open_insert collide z m1 7 70)
      (\<lambda>m2. open_erase collide m2 5)) = Inr (True, m) \<and>
    open_inv collide m \<and> open_lookup m = [7 \<mapsto> 70] \<and>
    (\<exists>m3 m4. open_insert collide z m 7 71 = Inr m3 \<and> lookup_op (open_ops collide z 0) m3 7 = Inr (Some 71) \<and>
      open_erase collide m3 7 = Inr (True, m4) \<and> lookup_op (open_ops collide z 0) m4 7 = Inr (Some 70)) \<and>
    (\<exists>j m5. open_subscript collide z 0 m 7 = Inr (j, m5) \<and> open_deref m5 j = 0)"
proof -
  obtain k0 v0 st where z: "z = \<lparr>on_key = k0, on_value = v0, on_status = st\<rparr>" by (cases z)
  let ?e = "\<lparr>on_key = k0, on_value = v0, on_status = EMPTY\<rparr>"
  let ?d = "\<lparr>on_key = 5, on_value = 50, on_status = DELETED\<rparr>" and ?a = "\<lparr>on_key = 5, on_value = 50, on_status = OCCUPIED\<rparr>"
  let ?n = "\<lambda>v. \<lparr>on_key = 7, on_value = v, on_status = OCCUPIED\<rparr>"
  let ?m = "\<lambda>x y s. \<lparr>oa_table = [x, y, ?e, ?e, ?e, ?e, ?e, ?e], oa_size = s, oa_mask = 7\<rparr> :: (nat, nat) open_map"
  have load: "\<not> load_exceeded (?m x y s)" if "s \<in> {0, 1}" for x y s
    using that by (intro load_has_room) auto
  have place: "open_insert collide z (?m x y s) k v = insert_place collide (?m x y s) k v" if "s \<in> {0, 1}" for x y s k v
    using open_insert_unloaded [OF load [OF that], of 1] by (simp add: open_insert_def numeral_2_eq_2)
  have "replicate 8 ?e = [?e, ?e, ?e, ?e, ?e, ?e, ?e, ?e]" by (simp add: numeral_eq_Suc)
  then have m0: "open_empty z 8 = ?m ?e ?e 0" by (simp add: open_empty_def z)
  have m1: "open_insert collide z (?m ?e ?e 0) 5 50 = Inr (?m ?a ?e 1)"
    unfolding place [of 0, simplified] by (simp add: insert_place_def getHash_def collide_def probe_insert.simps occupy_def)
  have m2: "open_insert collide z (?m ?a ?e 1) 7 70 = Inr (?m ?a (?n 70) 2)"
    unfolding place [of 1, simplified] by (simp add: insert_place_def getHash_def collide_def probe_insert.simps occupy_def)
  have m3: "open_erase collide (?m ?a (?n 70) 2) 5 = Inr (True, ?m ?d (?n 70) 1)"
    by (simp add: open_erase_def open_probe_def getHash_def collide_def probe_key.simps)
  have m4: "open_insert collide z (?m ?d (?n 70) 1) 7 71 = Inr (?m (?n 71) (?n 70) 2)"
    unfolding place [of 1, simplified] by (simp add: insert_place_def getHash_def collide_def probe_insert.simps occupy_def)
  have m5: "open_erase collide (?m (?n 71) (?n 70) 2) 7 = Inr (True, ?m (?n 71 \<lparr>on_status := DELETED\<rparr>) (?n 70) 1)"
    by (simp add: open_erase_def open_probe_def getHash_def collide_def probe_key.simps)
  have f: "lookup_op (open_ops collide z 0) (?m (?n 71) (?n 70) 2) 7 = Inr (Some 71)"
    "lookup_op (open_ops collide z 0) (?m (?n 71 \<lparr>on_status := DELETED\<rparr>) (?n 70) 1) 7 = Inr (Some 70)"
    by (simp_all add: lookup_op_def open_ops_def open_find_def open_deref_def open_probe_def getHash_def collide_def
        probe_key.simps Let_def)
  have s: "open_subscript collide z 0 (?m ?d (?n 70) 1) 7 = Inr (0, occupy (?m ?d (?n 70) 1) 0 7 0)"
    using load [of 1] by (simp add: open_subscript_def numeral_2_eq_2 getHash_def collide_def probe_subscript.simps)
  have i0: "open_inv collide (?m ?e ?e 0)" "open_lookup (?m ?e ?e 0) = Map.empty"
    using open_empty_inv(2) [of 3 collide z] open_empty_inv(3) [of 3 z] m0 by simp_all
  have i1: "open_inv collide (?m ?a ?e 1)" "open_lookup (?m ?a ?e 1) = [5 \<mapsto> 50]"
    using open_insert_absent [OF i0(1) _ m1] i0(2) by simp_all
  have i2: "open_inv collide (?m ?a (?n 70) 2)" "open_lookup (?m ?a (?n 70) 2) = [5 \<mapsto> 50, 7 \<mapsto> 70]"
    using open_insert_absent [OF i1(1) _ m2] i1(2) by simp_all
  have i3: "open_inv collide (?m ?d (?n 70) 1)" "open_lookup (?m ?d (?n 70) 1) = [7 \<mapsto> 70]"
    using open_erase_spec [OF i2(1), of 5] m3 i2(2) by (simp_all add: fun_upd_twist)
  have "open_deref (occupy (?m ?d (?n 70) 1) 0 7 0) 0 = 0" by (simp add: open_deref_def occupy_def)
  with m0 m1 m2 m3 m4 m5 f s i3 show ?thesis
    by (intro exI [of _ "?m ?d (?n 70) 1"] conjI exI [of _ "?m (?n 71) (?n 70) 2"]
        exI [of _ "?m (?n 71 \<lparr>on_status := DELETED\<rparr>) (?n 70) 1"] exI [of _ "0 :: nat"]
        exI [of _ "occupy (?m ?d (?n 70) 1) 0 7 0"]) simp_all
qed

interpretation opt: tested_map "open_ops h z []" "open_inv h" open_lookup "[]" "open_empty z 32"
  for h :: "int \<Rightarrow> u64" and z :: "(int, string) onode"
  using open_empty_inv(2) [where b = 5 and h = h and z = z] open_empty_inv(3) [of 5 z] by unfold_locales simp_all

text \<open>Each insertion at most doubles the table, so a few cannot outgrow a vector.\<close>

lemma open_room:
  assumes inv: "open_inv h m" and room: "length (oa_table m) * 2 ^ Suc n \<le> 2 ^ 40"
  obtains m1 where "grown h z m = Inr m1" "length (oa_table m1) * 2 ^ n \<le> 2 ^ 40"
proof -
  have "length (oa_table m) \<le> length (oa_table m) * 2 ^ Suc n" by simp
  also note room
  also have "(2::nat) ^ 40 < 2 ^ 59" by simp
  finally have small: "length (oa_table m) < 2 ^ 59" .
  show thesis
  proof (cases "load_exceeded m")
    case True
    from rehash_spec [OF inv open_insert_unloaded [where d = 1 and h = h and z = z], of z] small
    obtain m1 where "reHash h z m = Inr m1" "length (oa_table m1) = 2 * length (oa_table m)"
      unfolding reHash_def open_insert_def numeral_2_eq_2 by auto
    with True room show thesis by (intro that [of m1]) (simp_all add: grown_def)
  next
    case False
    have "length (oa_table m) * 2 ^ n \<le> length (oa_table m) * 2 ^ Suc n" by simp
    then have "length (oa_table m) * 2 ^ n \<le> 2 ^ 40" using room by (rule le_trans)
    with False show thesis by (intro that [of m]) (simp_all add: grown_def)
  qed
qed

lemma open_insert_slot':
  assumes "open_inv h m"
  obtains present j where
    "probe_insert (Suc (length (oa_table m))) (oa_table m) (oa_mask m) k (getHash h m k) = Inr (present, j)"
    "probe_subscript (Suc (length (oa_table m))) (oa_table m) (oa_mask m) k (getHash h m k) (getHash h m k) = Inr (present, j)"
  by (rule open_insert_slot [OF assms]) blast

text \<open>
  The test program of test/TestHashMap.cpp, run on an \<^verbatim>\<open>OpenAddressingHashMap<int,
  std::string>\<close> of 32 slots with any hash function, returns and prints the expected lines.
\<close>

lemma open_test_output:
  "testHashMap (open_ops h z []) (open_empty z 32) = Inr (testHashMap_output [])"
proof (rule opt.test_returns [where Q = "\<lambda>m n. length (oa_table m) * 2 ^ n \<le> 2 ^ 40"])
  show "length (oa_table (open_empty z 32)) * 2 ^ 5 \<le> 2 ^ 40" by (simp add: open_empty_def)
  fix m :: "(int, string) open_map" and n k v
  assume inv: "open_inv h m"
  { assume "length (oa_table m) * 2 ^ Suc n \<le> 2 ^ 40"
    then obtain m1 where m1: "grown h z m = Inr m1" "length (oa_table m1) * 2 ^ n \<le> 2 ^ 40"
      by (rule open_room [OF inv])
    note g = grown_Inr [OF inv m1(1)]
    obtain present j where "probe_insert (Suc (length (oa_table m1))) (oa_table m1) (oa_mask m1) k (getHash h m1 k) = Inr (present, j)"
      by (rule open_insert_slot' [OF g(1)])
    with m1 show "\<exists>m'. insert_op (open_ops h z []) m k v = Inr m' \<and> length (oa_table m') * 2 ^ n \<le> 2 ^ 40"
      by (auto simp: open_ops_def open_insert_grown [OF inv] insert_place_def open_store_def occupy_def) }
  { assume q: "length (oa_table m) * 2 ^ Suc n \<le> 2 ^ 40"
    then obtain m1 where m1: "grown h z m = Inr m1" "length (oa_table m1) * 2 ^ n \<le> 2 ^ 40"
      by (rule open_room [OF inv])
    note g = grown_Inr [OF inv m1(1)]
    have q': "length (oa_table m) * 2 ^ n \<le> 2 ^ 40" using q by simp
    obtain present j where p: "probe_subscript (Suc (length (oa_table m))) (oa_table m) (oa_mask m) k (getHash h m k) (getHash h m k) = Inr (present, j)"
      by (rule open_insert_slot' [OF inv])
    obtain present1 j1 where p1: "probe_subscript (Suc (length (oa_table m1))) (oa_table m1) (oa_mask m1) k (getHash h m1 k) (getHash h m1 k) = Inr (present1, j1)"
      by (rule open_insert_slot' [OF g(1)])
    show "\<exists>r m'. subscript_op (open_ops h z []) m k = Inr (r, m') \<and> length (oa_table m') * 2 ^ n \<le> 2 ^ 40"
      using p p1 m1 g(4) q' by (auto simp: open_ops_def open_subscript_def numeral_2_eq_2 grown_def occupy_def
          split: if_splits) }
  { fix b m' assume "length (oa_table m) * 2 ^ n \<le> 2 ^ 40" "erase_op (open_ops h z []) m k = Inr (b, m')"
    then show "length (oa_table m') * 2 ^ n \<le> 2 ^ 40"
      by (auto simp: open_ops_def open_erase_def res_bind_Inr_iff split: option.splits) }
qed (simp add: open_ops_def open_store_def)

end
