(* ===== verification/STLMap.thy ===== *)
theory STLMap
  imports HashMapSpec
begin

text \<open>
  \<^verbatim>\<open>STLHashMap\<close> of include/HashMap.hpp. \<^verbatim>\<open>std::unordered_map\<close> is a finite map: \<open>insert\<close> of a
  pair leaves an element with the same key as it is, \<open>operator[]\<close> adds a value-initialised
  element, \<open>erase\<close> returns the number of elements removed. References to elements stay valid,
  so a place in the map is its key.
\<close>

type_synonym ('k, 'v) umap = "'k \<rightharpoonup> 'v"

definition umap_insert :: "('k, 'v) umap \<Rightarrow> 'k \<times> 'v \<Rightarrow> ('k, 'v) umap" where
  "umap_insert m p = (if m (fst p) = None then m(fst p \<mapsto> snd p) else m)"

definition umap_erase :: "('k, 'v) umap \<Rightarrow> 'k \<Rightarrow> nat \<times> ('k, 'v) umap" where
  "umap_erase m k = (if m k = None then 0 else 1, m(k := None))"

definition stl_subscript :: "'v \<Rightarrow> ('k, 'v) umap \<Rightarrow> 'k \<Rightarrow> 'k \<times> ('k, 'v) umap" where
  "stl_subscript dflt m key = (key, umap_insert m (key, dflt))"

definition stl_insert :: "('k, 'v) umap \<Rightarrow> 'k \<Rightarrow> 'v \<Rightarrow> ('k, 'v) umap" where
  "stl_insert m key val = umap_insert m (key, val)"

definition stl_contains :: "('k, 'v) umap \<Rightarrow> 'k \<Rightarrow> bool" where
  "stl_contains m key \<longleftrightarrow> m key \<noteq> None"

definition stl_erase :: "('k, 'v) umap \<Rightarrow> 'k \<Rightarrow> bool \<times> ('k, 'v) umap" where
  "stl_erase m key = (let (n, m') = umap_erase m key in (n > 0, m'))"

definition stl_find :: "('k, 'v) umap \<Rightarrow> 'k \<Rightarrow> 'k option" where
  "stl_find m key = (if m key = None then None else Some key)"

definition stl_ops :: "'v \<Rightarrow> (('k, 'v) umap, 'k, 'v, 'k) hm_ops" where
  "stl_ops dflt = \<lparr>
    insert_op = (\<lambda>m k v. Inr (stl_insert m k v)), contains_op = (\<lambda>m k. Inr (stl_contains m k)),
    erase_op = (\<lambda>m k. Inr (stl_erase m k)), find_op = (\<lambda>m k. Inr (stl_find m k)),
    subscript_op = (\<lambda>m k. Inr (stl_subscript dflt m k)),
    deref_op = (\<lambda>m k. case m k of Some v \<Rightarrow> v | None \<Rightarrow> dflt),
    store_op = (\<lambda>m k v. m(k \<mapsto> v))\<rparr>"

lemmas stl_defs = stl_ops_def stl_subscript_def stl_insert_def stl_contains_def stl_erase_def stl_find_def
  umap_insert_def umap_erase_def

interpretation stk: keeping_map "stl_ops dflt" "\<lambda>_. True" "\<lambda>m. m" dflt
  for dflt :: 'v
  by unfold_locales (auto simp: stl_defs split: if_splits)

interpretation stm: subscript_map "stl_ops dflt" "\<lambda>_. True" "\<lambda>m. m" dflt
  for dflt :: 'v
  by unfold_locales (auto simp: stl_defs map_upd_triv)

interpretation stt: tested_map "stl_ops []" "\<lambda>_. True" "\<lambda>m. m" "[]" Map.empty
  by unfold_locales simp_all

text \<open>
  On an \<^verbatim>\<open>STLHashMap\<close> \<open>insert\<close> keeps the value of a key that is present, unlike the
  \<open>insert\<close> of \<^verbatim>\<open>ChainingHashMap\<close>, while an assignment through \<open>operator[]\<close> replaces it;
  both add an absent key, and a lookup after either reads the result.
\<close>

lemma stl_insert_and_assign:
  "(case insert_op (stl_ops dflt) m k v of
      Inr m' \<Rightarrow> lookup_op (stl_ops dflt) m' k = Inr (Some (case m k of None \<Rightarrow> v | Some old \<Rightarrow> old))
    | Inl _ \<Rightarrow> False) \<and>
   (case assign_op (stl_ops dflt) m k v of
      Inr m' \<Rightarrow> m' = m(k \<mapsto> v) \<and> lookup_op (stl_ops dflt) m' k = Inr (Some v)
    | Inl _ \<Rightarrow> False)"
proof -
  obtain m1 where m1: "insert_op (stl_ops dflt) m k v = Inr m1" by (simp add: stl_ops_def)
  obtain m2 where m2: "assign_op (stl_ops dflt) m k v = Inr m2"
    by (simp add: assign_op_def stl_ops_def stl_subscript_def)
  have "m2 = m(k \<mapsto> v)" using stm.assign [OF TrueI m2] by blast
  moreover have "m1 k = Some (case m k of None \<Rightarrow> v | Some old \<Rightarrow> old)"
    using m1 stk.insert_absent [OF TrueI _ m1] stk.insert_kept [OF TrueI _ m1]
    by (cases "m k") auto
  moreover have "lookup_op (stl_ops dflt) m' k = Inr (m' k)" for m' by (rule stk.lookup) simp
  ultimately show ?thesis using m1 m2 by simp
qed

text \<open>The test program of test/TestHashMap.cpp on an \<^verbatim>\<open>STLHashMap<int, std::string>\<close>.\<close>

theorem stl_test_output:
  "testHashMap (stl_ops []) Map.empty = Inr (testHashMap_output [])"
  by (rule stt.test_returns [where Q = "\<lambda>_ _. True"]) (auto simp: stl_ops_def stl_subscript_def)

end
