(* ===== verification/QueueSpec.thy ===== *)
theory QueueSpec
  imports Prelude
begin

text \<open>
  The interface \<^verbatim>\<open>MyQ\<close> of include/Queue.hpp as a record of operations, the contracts of the
  queue types as locales, and what a client gets from them: whatever is accepted comes out once
  and in order.
\<close>

section \<open>The operations a queue type offers\<close>

text \<open>
  Elements are pointers \<open>'a\<close> that are not null; the null pointer \<open>dequeue\<close> may return is
  \<open>None\<close>. The class \<^verbatim>\<open>Queue<Q>\<close> forwards both calls, so it is the record itself. A call
  that blocks for ever is \<open>Inl Diverges\<close>.
\<close>

record ('q, 'a) q_ops =
  enqueue_op :: "'q \<Rightarrow> 'a \<Rightarrow> (bool \<times> 'q) res"
  dequeue_op :: "'q \<Rightarrow> ('a option \<times> 'q) res"

section \<open>Contracts\<close>

text \<open>
  What every queue type promises: a rejected element changes nothing, an accepted one is last.
  \<open>invar n q\<close> says that \<open>q\<close> is well-formed and that \<open>n\<close> more calls stay within the range of
  its counters.
\<close>

locale fifo_queue =
  fixes Q :: "('q, 'a) q_ops"
    and invar :: "nat \<Rightarrow> 'q \<Rightarrow> bool"
    and \<alpha> :: "'q \<Rightarrow> 'a list"
  assumes enqueue: "invar (Suc n) q \<Longrightarrow> \<exists>ok q'. enqueue_op Q q x = Inr (ok, q') \<and> invar n q' \<and>
      \<alpha> q' = (if ok then \<alpha> q @ [x] else \<alpha> q)"
    and dequeue_head: "invar (Suc n) q \<Longrightarrow> \<alpha> q = x # xs \<Longrightarrow>
      \<exists>q'. dequeue_op Q q = Inr (Some x, q') \<and> invar n q' \<and> \<alpha> q' = xs"

text \<open>A lock-free queue does not block: on an empty queue \<open>dequeue\<close> returns null.\<close>

locale polling_queue = fifo_queue +
  assumes dequeue_empty: "invar (Suc n) q \<Longrightarrow> \<alpha> q = [] \<Longrightarrow>
    \<exists>q'. dequeue_op Q q = Inr (None, q') \<and> invar n q' \<and> \<alpha> q' = []"

text \<open>It rejects an element exactly when it is full.\<close>

locale bounded_queue = polling_queue +
  fixes capacity :: "'q \<Rightarrow> nat"
  assumes never_over: "invar n q \<Longrightarrow> length (\<alpha> q) \<le> capacity q"
    and accepts: "invar (Suc n) q \<Longrightarrow> enqueue_op Q q x = Inr (ok, q') \<Longrightarrow>
      ok = (length (\<alpha> q) < capacity q) \<and> capacity q' = capacity q"
    and dequeue_capacity: "invar (Suc n) q \<Longrightarrow> dequeue_op Q q = Inr (r, q') \<Longrightarrow> capacity q' = capacity q"

text \<open>Counters that wrap never run out.\<close>

locale endless_queue = bounded_queue +
  assumes endless: "invar n q \<Longrightarrow> invar (Suc n) q"

section \<open>A client: a sequence of calls\<close>

datatype 'a q_call = Enqueue 'a | Dequeue

text \<open>The elements accepted and the elements returned by a sequence of calls, with the final state.\<close>

fun queue_calls :: "('q, 'a) q_ops \<Rightarrow> 'a q_call list \<Rightarrow> 'q \<Rightarrow> ('a list \<times> 'a list \<times> 'q) res" where
  "queue_calls Q [] q = Inr ([], [], q)"
| "queue_calls Q (Enqueue x # cs) q = res_bind (enqueue_op Q q x) (\<lambda>(ok, q').
     res_bind (queue_calls Q cs q') (\<lambda>(ins, outs, q''). Inr (if ok then x # ins else ins, outs, q'')))"
| "queue_calls Q (Dequeue # cs) q = res_bind (dequeue_op Q q) (\<lambda>(r, q').
     res_bind (queue_calls Q cs q') (\<lambda>(ins, outs, q''). Inr (ins, case r of Some x \<Rightarrow> x # outs | None \<Rightarrow> outs, q'')))"

text \<open>What the caller is told by each call: whether its element was taken, or what it was given.\<close>

datatype 'a q_answer = Took bool | Gave "'a option"

fun queue_answers :: "('q, 'a) q_ops \<Rightarrow> 'a q_call list \<Rightarrow> 'q \<Rightarrow> ('a q_answer list \<times> 'q) res" where
  "queue_answers Q [] q = Inr ([], q)"
| "queue_answers Q (Enqueue x # cs) q = res_bind (enqueue_op Q q x) (\<lambda>(ok, q').
     res_bind (queue_answers Q cs q') (\<lambda>(as, q''). Inr (Took ok # as, q'')))"
| "queue_answers Q (Dequeue # cs) q = res_bind (dequeue_op Q q) (\<lambda>(r, q').
     res_bind (queue_answers Q cs q') (\<lambda>(as, q''). Inr (Gave r # as, q'')))"

text \<open>
  The specification: a list of at most \<open>c\<close> elements. An element is taken exactly when there is
  room for it, and goes last; \<open>dequeue\<close> gives the first element, null exactly when there is none.
\<close>

fun bounded_answers :: "nat \<Rightarrow> 'a q_call list \<Rightarrow> 'a list \<Rightarrow> 'a q_answer list \<times> 'a list" where
  "bounded_answers c [] xs = ([], xs)"
| "bounded_answers c (Enqueue x # cs) xs = (let (as, ys) =
     bounded_answers c cs (if length xs < c then xs @ [x] else xs) in (Took (length xs < c) # as, ys))"
| "bounded_answers c (Dequeue # cs) [] = (let (as, ys) = bounded_answers c cs [] in (Gave None # as, ys))"
| "bounded_answers c (Dequeue # cs) (x # xs) = (let (as, ys) = bounded_answers c cs xs in (Gave (Some x) # as, ys))"

text \<open>Both clients drive the queue through the same states.\<close>

lemma queue_calls_answers:
  "queue_answers Q cs q = Inr (as, q1) \<Longrightarrow> queue_calls Q cs q = Inr (ins, outs, q2) \<Longrightarrow> q2 = q1"
proof (induction cs arbitrary: q as ins outs)
  case (Cons c cs)
  then show ?case by (cases c) (auto simp: res_bind_Inr_iff)
qed simp

context polling_queue
begin

lemma dequeue_any: "invar (Suc n) q \<Longrightarrow>
    \<exists>q'. dequeue_op Q q = Inr (if \<alpha> q = [] then None else Some (hd (\<alpha> q)), q') \<and>
      invar n q' \<and> \<alpha> q' = tl (\<alpha> q)"
  using dequeue_head [of n q] dequeue_empty [of n q] by (cases "\<alpha> q") auto

text \<open>No call sequence loses, duplicates or reorders elements, and none blocks.\<close>

lemma calls_fifo:
  "invar (length cs + n) q \<Longrightarrow>
    \<exists>ins outs q'. queue_calls Q cs q = Inr (ins, outs, q') \<and> invar n q' \<and> \<alpha> q @ ins = outs @ \<alpha> q'"
proof (induction cs arbitrary: q)
  case (Cons c cs)
  then have inv: "invar (Suc (length cs + n)) q" by simp
  show ?case
  proof (cases c)
    case (Enqueue x)
    obtain ok q1 where e: "enqueue_op Q q x = Inr (ok, q1)" "invar (length cs + n) q1"
      "\<alpha> q1 = (if ok then \<alpha> q @ [x] else \<alpha> q)"
      using enqueue [OF inv, of x] by blast
    from Cons.IH [OF e(2)] obtain ins outs q' where
      "queue_calls Q cs q1 = Inr (ins, outs, q')" "invar n q'" "\<alpha> q1 @ ins = outs @ \<alpha> q'" by blast
    with e Enqueue show ?thesis by (cases ok) auto
  next
    case Dequeue
    obtain q1 where d: "dequeue_op Q q = Inr (if \<alpha> q = [] then None else Some (hd (\<alpha> q)), q1)"
      "invar (length cs + n) q1" "\<alpha> q1 = tl (\<alpha> q)"
      using dequeue_any [OF inv] by blast
    from Cons.IH [OF d(2)] obtain ins outs q' where
      "queue_calls Q cs q1 = Inr (ins, outs, q')" "invar n q'" "\<alpha> q1 @ ins = outs @ \<alpha> q'" by blast
    with d Dequeue show ?thesis by (cases "\<alpha> q") auto
  qed
qed simp

end

context bounded_queue
begin

lemma enqueue_room: "invar (Suc n) q \<Longrightarrow> length (\<alpha> q) < capacity q \<Longrightarrow>
    \<exists>q'. enqueue_op Q q x = Inr (True, q') \<and> invar n q' \<and> \<alpha> q' = \<alpha> q @ [x] \<and> capacity q' = capacity q"
  using enqueue [of n q x] accepts [of n q x] by fastforce

lemma enqueue_full: "invar (Suc n) q \<Longrightarrow> length (\<alpha> q) = capacity q \<Longrightarrow>
    \<exists>q'. enqueue_op Q q x = Inr (False, q') \<and> invar n q' \<and> \<alpha> q' = \<alpha> q"
  using enqueue [of n q x] accepts [of n q x] by fastforce

lemma enqueue_exact: "invar (Suc n) q \<Longrightarrow>
    \<exists>q'. enqueue_op Q q x = Inr (length (\<alpha> q) < capacity q, q') \<and> invar n q' \<and> capacity q' = capacity q \<and>
      \<alpha> q' = (if length (\<alpha> q) < capacity q then \<alpha> q @ [x] else \<alpha> q)"
  using enqueue [of n q x] accepts [of n q x] by fastforce

text \<open>Every call of a sequence is answered as the specification answers it.\<close>

lemma answers_exact:
  "invar (length cs + n) q \<Longrightarrow> \<exists>q'. queue_answers Q cs q = Inr (fst (bounded_answers (capacity q) cs (\<alpha> q)), q') \<and>
    invar n q' \<and> capacity q' = capacity q \<and> \<alpha> q' = snd (bounded_answers (capacity q) cs (\<alpha> q))"
proof (induction cs arbitrary: q)
  case (Cons c cs)
  then have inv: "invar (Suc (length cs + n)) q" by simp
  show ?case
  proof (cases c)
    case (Enqueue x)
    obtain q1 where e: "enqueue_op Q q x = Inr (length (\<alpha> q) < capacity q, q1)" "invar (length cs + n) q1"
      "capacity q1 = capacity q" "\<alpha> q1 = (if length (\<alpha> q) < capacity q then \<alpha> q @ [x] else \<alpha> q)"
      using enqueue_exact [OF inv, of x] by blast
    show ?thesis using Cons.IH [OF e(2)] unfolding Enqueue e(3,4) by (auto simp: e(1) Let_def split_beta)
  next
    case Dequeue
    obtain q1 where d: "dequeue_op Q q = Inr (if \<alpha> q = [] then None else Some (hd (\<alpha> q)), q1)"
      "invar (length cs + n) q1" "\<alpha> q1 = tl (\<alpha> q)"
      using dequeue_any [OF inv] by blast
    show ?thesis using Cons.IH [OF d(2)] d dequeue_capacity [OF inv d(1)] unfolding Dequeue
      by (cases "\<alpha> q") (auto simp: Let_def split_beta)
  qed
qed simp

lemma calls_capacity:
  "invar (length cs + n) q \<Longrightarrow> queue_calls Q cs q = Inr (ins, outs, q') \<Longrightarrow> capacity q' = capacity q"
proof (induction cs arbitrary: q ins outs)
  case (Cons c cs)
  then have inv: "invar (Suc (length cs + n)) q" by simp
  show ?case
  proof (cases c)
    case (Enqueue x)
    obtain ok q1 where e: "enqueue_op Q q x = Inr (ok, q1)" "invar (length cs + n) q1"
      using enqueue [OF inv, of x] by blast
    with Enqueue Cons.prems(2) obtain ins1 where "queue_calls Q cs q1 = Inr (ins1, outs, q')"
      by (auto simp: res_bind_Inr_iff)
    with Cons.IH [OF e(2)] accepts [OF inv e(1)] show ?thesis by simp
  next
    case Dequeue
    obtain r q1 where d: "dequeue_op Q q = Inr (r, q1)" "invar (length cs + n) q1"
      using dequeue_any [OF inv] by blast
    with Dequeue Cons.prems(2) obtain outs1 where "queue_calls Q cs q1 = Inr (ins, outs1, q')"
      by (auto simp: res_bind_Inr_iff)
    with Cons.IH [OF d(2)] dequeue_capacity [OF inv d(1)] show ?thesis by simp
  qed
qed simp

end

context endless_queue
begin

lemma enqueue_step: "invar n q \<Longrightarrow> \<exists>ok q'. enqueue_op Q q x = Inr (ok, q') \<and> invar n q' \<and>
    capacity q' = capacity q \<and> ok = (length (\<alpha> q) < capacity q) \<and> \<alpha> q' = (if ok then \<alpha> q @ [x] else \<alpha> q)"
  using enqueue [OF endless, of n q x] accepts [OF endless, of n q x] by fastforce

lemma dequeue_step: "invar n q \<Longrightarrow> \<exists>q'. dequeue_op Q q = Inr (if \<alpha> q = [] then None else Some (hd (\<alpha> q)), q') \<and>
    invar n q' \<and> \<alpha> q' = tl (\<alpha> q) \<and> capacity q' = capacity q"
  using dequeue_any [OF endless, of n q] dequeue_capacity [OF endless, of n q] by blast

end

end
