(* ===== verification/LockedQueue.thy ===== *)
theory LockedQueue
  imports QueueSpec
begin

text \<open>
  \<^verbatim>\<open>LockedQueue\<close> of include/Queue.hpp: a \<^verbatim>\<open>std::queue\<close> behind a mutex. A call holds the
  mutex except while it waits on the condition variable, so the pieces between are atomic steps
  on the list of elements.
\<close>

section \<open>The calls of one thread\<close>

definition locked_enqueue :: "'a list \<Rightarrow> 'a \<Rightarrow> (bool \<times> 'a list) res" where
  "locked_enqueue q ptr = Inr (True, q @ [ptr])"

text \<open>On an empty queue the call waits, for ever if no other thread enqueues.\<close>

definition locked_dequeue :: "'a list \<Rightarrow> ('a option \<times> 'a list) res" where
  "locked_dequeue q = (case q of [] \<Rightarrow> Inl Diverges | msg # rest \<Rightarrow> Inr (Some msg, rest))"

definition locked_ops :: "('a list, 'a) q_ops" where
  "locked_ops = \<lparr>enqueue_op = locked_enqueue, dequeue_op = locked_dequeue\<rparr>"

interpretation lkq: fifo_queue locked_ops "\<lambda>_ _. True" "\<lambda>q. q"
  by unfold_locales (auto simp: locked_ops_def locked_enqueue_def locked_dequeue_def)

section \<open>Threads and the condition variable\<close>

text \<open>
  \<open>lq_asleep\<close> are the threads blocked in \<open>cv_.wait\<close>; \<open>lq_awake\<close> those that were notified
  (or woke up on their own) and will test the predicate again once they have the mutex.
  \<open>lq_pushed\<close> and \<open>lq_taken\<close> record the elements in the order of the calls.
\<close>

record 'a lq_state =
  lq_items :: "'a list"
  lq_asleep :: "nat list"
  lq_awake :: "nat list"
  lq_pushed :: "'a list"
  lq_taken :: "(nat \<times> 'a) list"

definition lq_init :: "'a lq_state" where
  "lq_init = \<lparr>lq_items = [], lq_asleep = [], lq_awake = [], lq_pushed = [], lq_taken = []\<rparr>"

text \<open>\<open>queue_.push(ptr); cv_.notify_one()\<close>: one sleeping thread, if any, is notified.\<close>

definition lq_push :: "'a \<Rightarrow> 'a lq_state \<Rightarrow> 'a lq_state" where
  "lq_push x s = s\<lparr>lq_items := lq_items s @ [x], lq_pushed := lq_pushed s @ [x]\<rparr>"

text \<open>\<open>cv_.wait\<close> with its predicate: take the front element, or sleep.\<close>

definition lq_take :: "nat \<Rightarrow> 'a lq_state \<Rightarrow> 'a lq_state" where
  "lq_take t s = (case lq_items s of
      [] \<Rightarrow> s\<lparr>lq_asleep := t # lq_asleep s\<rparr>
    | msg # rest \<Rightarrow> s\<lparr>lq_items := rest, lq_taken := lq_taken s @ [(t, msg)]\<rparr>)"

inductive lq_step :: "'a lq_state \<Rightarrow> 'a lq_state \<Rightarrow> bool" where
  push_none: "lq_asleep s = [] \<Longrightarrow> lq_step s (lq_push x s)"
| push_notify: "t \<in> set (lq_asleep s) \<Longrightarrow>
    lq_step s ((lq_push x s)\<lparr>lq_asleep := remove1 t (lq_asleep s), lq_awake := t # lq_awake s\<rparr>)"
| call: "lq_step s (lq_take t s)"
| spurious: "t \<in> set (lq_asleep s) \<Longrightarrow>
    lq_step s (s\<lparr>lq_asleep := remove1 t (lq_asleep s), lq_awake := t # lq_awake s\<rparr>)"
| retry: "t \<in> set (lq_awake s) \<Longrightarrow>
    lq_step s (lq_take t (s\<lparr>lq_awake := remove1 t (lq_awake s)\<rparr>))"

inductive_simps lq_step_iff: "lq_step s s'"

definition lq_inv :: "'a lq_state \<Rightarrow> bool" where
  "lq_inv s \<longleftrightarrow> lq_pushed s = map snd (lq_taken s) @ lq_items s \<and>
     (lq_asleep s \<noteq> [] \<longrightarrow> length (lq_items s) \<le> length (lq_awake s))"

lemma lq_inv_take:
  "lq_inv (s\<lparr>lq_awake := aw\<rparr>) \<or> (lq_inv s \<and> length (lq_awake s) \<le> Suc (length aw)) \<Longrightarrow>
    lq_inv (lq_take t (s\<lparr>lq_awake := aw\<rparr>))"
  by (auto simp: lq_inv_def lq_take_def split: list.splits)

lemma lq_inv_step: "lq_step s s' \<Longrightarrow> lq_inv s \<Longrightarrow> lq_inv s'"
proof (induction rule: lq_step.induct)
  case (call s t)
  then show ?case using lq_inv_take [of "lq_awake s" s t] by simp
next
  case (retry t s)
  have "length (lq_awake s) \<le> Suc (length (remove1 t (lq_awake s)))" by (simp add: length_remove1, arith)
  with retry show ?case using lq_inv_take [of "remove1 t (lq_awake s)" s t] by blast
qed (auto simp: lq_inv_def lq_push_def)

lemma lq_inv_init: "lq_inv lq_init"
  by (simp add: lq_inv_def lq_init_def)

lemma lq_inv_reachable: "lq_step\<^sup>*\<^sup>* lq_init s \<Longrightarrow> lq_inv s"
  by (induction rule: rtranclp_induct) (auto intro: lq_inv_step lq_inv_init)

text \<open>
  C21: In any interleaving of producers and consumers, spurious wake-ups included, a
  \<^verbatim>\<open>LockedQueue\<close> hands out the pushed elements once each and in the order they were pushed,
  and no wake-up is lost: when elements are waiting and some thread sleeps, another thread has
  been notified, and its next step takes the front element.
\<close>

theorem locked_queue_fifo_no_lost_wakeup:
  assumes reach: "lq_step\<^sup>*\<^sup>* lq_init s"
  shows "lq_pushed s = map snd (lq_taken s) @ lq_items s \<and>
    (lq_items s \<noteq> [] \<and> lq_asleep s \<noteq> [] \<longrightarrow>
      (\<exists>t \<in> set (lq_awake s). \<exists>s'. lq_step s s' \<and> lq_taken s' = lq_taken s @ [(t, hd (lq_items s))]))"
proof -
  have inv: "lq_inv s" using reach by (rule lq_inv_reachable)
  have "\<exists>t \<in> set (lq_awake s). \<exists>s'. lq_step s s' \<and> lq_taken s' = lq_taken s @ [(t, hd (lq_items s))]"
    if "lq_items s \<noteq> []" "lq_asleep s \<noteq> []"
  proof -
    from inv that have "lq_awake s \<noteq> []" by (auto simp: lq_inv_def)
    then obtain t where t: "t \<in> set (lq_awake s)" by (cases "lq_awake s") auto
    from that(1) have "lq_taken (lq_take t (s\<lparr>lq_awake := remove1 t (lq_awake s)\<rparr>)) = lq_taken s @ [(t, hd (lq_items s))]"
      by (cases "lq_items s") (simp_all add: lq_take_def)
    with t lq_step.retry [OF t] show ?thesis by blast
  qed
  with inv show ?thesis by (auto simp: lq_inv_def)
qed

lemma locked_queue_witness:
  "let s = (lq_push (7 :: nat) (lq_take 1 lq_init))\<lparr>lq_asleep := [], lq_awake := [1]\<rparr> in
    lq_step\<^sup>*\<^sup>* lq_init s \<and> lq_pushed s = map snd (lq_taken s) @ lq_items s"
proof -
  let ?s1 = "lq_take 1 (lq_init :: nat lq_state)"
  have "lq_step lq_init ?s1" by (rule lq_step.call)
  moreover have "lq_step ?s1 ((lq_push 7 ?s1)\<lparr>lq_asleep := remove1 1 (lq_asleep ?s1), lq_awake := 1 # lq_awake ?s1\<rparr>)"
    by (rule lq_step.push_notify) (simp add: lq_take_def lq_init_def)
  ultimately have r: "lq_step\<^sup>*\<^sup>* lq_init ((lq_push 7 ?s1)\<lparr>lq_asleep := [], lq_awake := [1]\<rparr>)"
    by (simp add: lq_take_def lq_init_def)
  from locked_queue_fifo_no_lost_wakeup [OF r] r show ?thesis unfolding Let_def by blast
qed

end
