(* ===== verification/Ring.thy ===== *)
theory Ring
  imports Prelude
begin

text \<open>
  Rings: a vector of \<open>2 ^ k\<close> slots addressed by running 64-bit counters reduced with a mask.
  The counters wrap at \<open>2 ^ 64\<close>, a multiple of the size, so the contents are well defined
  across the wrap.
\<close>

definition ring_slot :: "u64 \<Rightarrow> u64 \<Rightarrow> nat" where
  "ring_slot msk pos = unat (pos AND msk)"

definition ring_contents :: "'b list \<Rightarrow> u64 \<Rightarrow> u64 \<Rightarrow> nat \<Rightarrow> 'b list" where
  "ring_contents buf msk h n = map (\<lambda>i. buf ! ring_slot msk (h + of_nat i)) [0..<n]"

definition ring_shape :: "nat \<Rightarrow> u64 \<Rightarrow> nat \<Rightarrow> bool" where
  "ring_shape k msk n \<longleftrightarrow> k < 64 \<and> msk = 2 ^ k - 1 \<and> n = 2 ^ k"

lemma length_ring_contents [simp]: "length (ring_contents buf msk h n) = n"
  by (simp add: ring_contents_def)

lemma nth_ring_contents [simp]: "i < n \<Longrightarrow> ring_contents buf msk h n ! i = buf ! ring_slot msk (h + of_nat i)"
  by (simp add: ring_contents_def)

lemma ring_contents_0 [simp]: "ring_contents buf msk h 0 = []"
  by (simp add: ring_contents_def)

lemma ring_slot_mod: "ring_shape k msk n \<Longrightarrow> ring_slot msk (h + of_nat i) = (unat h + i) mod n"
  unfolding ring_slot_def ring_shape_def by (elim conjE) (simp only: unat_add_of_nat_mask)

lemma ring_slot_lt: "ring_shape k msk n \<Longrightarrow> ring_slot msk pos < n"
  using ring_slot_mod [of k msk n pos 0] by (simp add: ring_shape_def)

lemma mod_add_eq_iff: "i < n \<Longrightarrow> j < n \<Longrightarrow> (a + i) mod n = (a + j) mod n \<longleftrightarrow> i = j" for n :: nat
proof (induction i j rule: linorder_wlog)
  case (le i j)
  show ?case
  proof
    assume "(a + i) mod n = (a + j) mod n"
    then have "n dvd a + j - (a + i)" using le(1) by (intro mod_eq_dvd_iff_nat [THEN iffD1]) simp_all
    then have "n dvd j - i" by simp
    moreover have "j - i < n" using le(3) by simp
    ultimately have "j - i = 0" using nat_dvd_not_less [of "j - i" n] by blast
    with le(1) show "i = j" by simp
  qed simp
qed auto

lemma ring_slot_inj:
  "ring_shape k msk n \<Longrightarrow> i < n \<Longrightarrow> j < n \<Longrightarrow>
    ring_slot msk (h + of_nat i) = ring_slot msk (h + of_nat j) \<longleftrightarrow> i = j"
  by (simp add: ring_slot_mod mod_add_eq_iff)

lemma ring_contents_Suc: "ring_contents buf msk h (Suc n) = buf ! ring_slot msk h # ring_contents buf msk (h + 1) n"
proof -
  have "[0..<Suc n] = 0 # map Suc [0..<n]" by (simp add: map_Suc_upt upt_conv_Cons del: upt_Suc)
  then show ?thesis by (simp add: ring_contents_def add.assoc del: upt_Suc)
qed

lemma ring_contents_snoc: "ring_contents buf msk h (Suc n) = ring_contents buf msk h n @ [buf ! ring_slot msk (h + of_nat n)]"
  by (simp add: ring_contents_def)

text \<open>Writing the slot behind the last element leaves the elements before it as they are.\<close>

lemma ring_contents_update:
  assumes "ring_shape k msk (length buf)" and "n < length buf"
  shows "ring_contents (buf[ring_slot msk (h + of_nat n) := x]) msk h n = ring_contents buf msk h n"
proof -
  have "ring_slot msk (h + of_nat n) \<noteq> ring_slot msk (h + of_nat i)" if "i < n" for i
    using ring_slot_inj [OF assms(1), of n i h] that assms(2) by simp
  then show ?thesis by (simp add: ring_contents_def)
qed

lemma ring_contents_push:
  assumes "ring_shape k msk (length buf)" and "n < length buf"
  shows "ring_contents (buf[ring_slot msk (h + of_nat n) := x]) msk h (Suc n) = ring_contents buf msk h n @ [x]"
  using ring_contents_update [OF assms, of h x] ring_slot_lt [OF assms(1), of "h + of_nat n"]
  by (simp add: ring_contents_snoc)

section \<open>The distance between two counters\<close>

lemma distance_Suc:
  "unat (t - h) < 2 ^ 64 - 1 \<Longrightarrow> unat (t + 1 - h) = Suc (unat (t - h))" for t h :: u64
proof -
  assume a: "unat (t - h) < 2 ^ 64 - 1"
  have "unat ((t - h) + 1) = (unat (t - h) + 1) mod 2 ^ 64" by (simp add: unat_word_ariths)
  also have "\<dots> = Suc (unat (t - h))" using a by simp
  finally show ?thesis by (simp add: algebra_simps)
qed

lemma distance_pred:
  "t \<noteq> h \<Longrightarrow> unat (t - (h + 1)) = unat (t - h) - 1" for t h :: u64
  using unat_minus_one [of "t - h"] by (simp add: diff_diff_eq)

lemma distance_0 [simp]: "unat (t - h) = 0 \<longleftrightarrow> t = h" for t h :: u64
  by (simp add: unat_eq_0)

lemma counter_of_distance: "t = h + of_nat (unat (t - h))" for t h :: u64
  by simp

end
