(* ===== verification/SpscQueue.thy ===== *)
theory SpscQueue
  imports QueueSpec Ring
begin

text \<open>
  \<^verbatim>\<open>CustomSPSCLockFreeQueue\<close> of include/Queue.hpp: a ring of pointers with 64-bit head and tail
  counters. The first part is the calls of one thread after another; the second interleaves the
  atomic steps of one producer and one consumer.
\<close>

section \<open>Model\<close>

record 'a spsc =
  sq_buffer :: "'a option list"
  sq_head :: u64
  sq_tail :: u64
  sq_capacity :: u64
  sq_mask :: u64

text \<open>The vector of pointers is value-initialised; more than \<open>2 ^ 60 - 1\<close> of them are a length error.\<close>

definition spsc_init :: "u64 \<Rightarrow> 'a spsc res" where
  "spsc_init queueCapacity =
    (if unat queueCapacity \<ge> 2 ^ 60 then Inl (Throw Length_Error)
     else if queueCapacity = 0 \<or> queueCapacity AND (queueCapacity - 1) \<noteq> 0
     then Inl (Throw (Invalid_Argument ''Capacity must be a power of two and greater than zero.''))
     else Inr \<lparr>sq_buffer = replicate (unat queueCapacity) None, sq_head = 0, sq_tail = 0,
       sq_capacity = queueCapacity, sq_mask = queueCapacity - 1\<rparr>)"

definition spsc_enqueue :: "'a spsc \<Rightarrow> 'a \<Rightarrow> (bool \<times> 'a spsc) res" where
  "spsc_enqueue q ptr = (let tail = sq_tail q; next_tail = tail + 1; slot = ring_slot (sq_mask q) tail in
    if next_tail - sq_head q > sq_capacity q then Inr (False, q)
    else if slot \<ge> length (sq_buffer q) then Inl (UB Out_Of_Bounds)
    else Inr (True, q\<lparr>sq_buffer := (sq_buffer q)[slot := Some ptr], sq_tail := next_tail\<rparr>))"

definition spsc_dequeue :: "'a spsc \<Rightarrow> ('a option \<times> 'a spsc) res" where
  "spsc_dequeue q = (if sq_head q = sq_tail q then Inr (None, q)
    else let head = sq_head q; slot = ring_slot (sq_mask q) head in
      if slot \<ge> length (sq_buffer q) then Inl (UB Out_Of_Bounds)
      else Inr (sq_buffer q ! slot, q\<lparr>sq_head := head + 1\<rparr>))"

definition spsc_ops :: "('a spsc, 'a) q_ops" where
  "spsc_ops = \<lparr>enqueue_op = spsc_enqueue, dequeue_op = spsc_dequeue\<rparr>"

section \<open>Refinement to a bounded queue\<close>

definition spsc_len :: "'a spsc \<Rightarrow> nat" where
  "spsc_len q = unat (sq_tail q - sq_head q)"

definition spsc_slots :: "'a spsc \<Rightarrow> 'a option list" where
  "spsc_slots q = ring_contents (sq_buffer q) (sq_mask q) (sq_head q) (spsc_len q)"

definition spsc_list :: "'a spsc \<Rightarrow> 'a list" where
  "spsc_list q = map the (spsc_slots q)"

definition spsc_shape :: "nat \<Rightarrow> 'a spsc \<Rightarrow> bool" where
  "spsc_shape k q \<longleftrightarrow> ring_shape k (sq_mask q) (length (sq_buffer q)) \<and> sq_capacity q = 2 ^ k"

definition spsc_inv :: "'a spsc \<Rightarrow> bool" where
  "spsc_inv q \<longleftrightarrow> (\<exists>k. spsc_shape k q) \<and> spsc_len q \<le> unat (sq_capacity q) \<and> None \<notin> set (spsc_slots q)"

lemma spsc_shapeD:
  assumes "spsc_shape k q"
  shows "k < 64" "ring_shape k (sq_mask q) (length (sq_buffer q))" "unat (sq_capacity q) = length (sq_buffer q)"
    "length (sq_buffer q) \<le> 2 ^ 63"
proof -
  show k: "k < 64" and "ring_shape k (sq_mask q) (length (sq_buffer q))"
    using assms by (simp_all add: spsc_shape_def ring_shape_def)
  show c: "unat (sq_capacity q) = length (sq_buffer q)"
    using assms k by (simp add: spsc_shape_def ring_shape_def unat_2p)
  have "(2::nat) ^ k \<le> 2 ^ 63" using k by (intro power_increasing) simp_all
  then show "length (sq_buffer q) \<le> 2 ^ 63" using assms by (simp add: spsc_shape_def ring_shape_def)
qed

lemma spsc_slot_lt: "spsc_shape k q \<Longrightarrow> ring_slot (sq_mask q) pos < length (sq_buffer q)"
  using ring_slot_lt spsc_shapeD(2) by blast

lemma spsc_tail: "sq_tail q = sq_head q + of_nat (spsc_len q)"
  by (simp add: spsc_len_def)

lemma spsc_next_distance:
  assumes "spsc_shape k q" and "spsc_len q \<le> unat (sq_capacity q)"
  shows "unat (sq_tail q + 1 - sq_head q) = Suc (spsc_len q)"
    and "sq_tail q + 1 - sq_head q > sq_capacity q \<longleftrightarrow> spsc_len q = unat (sq_capacity q)"
proof -
  have "spsc_len q \<le> 2 ^ 63" using assms spsc_shapeD(3,4) [OF assms(1)] by simp
  then show d: "unat (sq_tail q + 1 - sq_head q) = Suc (spsc_len q)"
    unfolding spsc_len_def by (intro distance_Suc) simp
  show "sq_tail q + 1 - sq_head q > sq_capacity q \<longleftrightarrow> spsc_len q = unat (sq_capacity q)"
    unfolding word_less_nat_alt d using assms(2) by auto
qed

lemma spsc_enqueue_spec:
  assumes inv: "spsc_inv q"
  shows "if spsc_len q < unat (sq_capacity q)
    then \<exists>q'. spsc_enqueue q x = Inr (True, q') \<and> spsc_inv q' \<and> spsc_list q' = spsc_list q @ [x] \<and>
      sq_capacity q' = sq_capacity q
    else spsc_enqueue q x = Inr (False, q)"
proof -
  obtain k where k: "spsc_shape k q" and n: "spsc_len q \<le> unat (sq_capacity q)" and some: "None \<notin> set (spsc_slots q)"
    using inv by (auto simp: spsc_inv_def)
  note dist = spsc_next_distance [OF k n]
  show ?thesis
  proof (cases "spsc_len q < unat (sq_capacity q)")
    case False
    with dist(2) n show ?thesis by (simp add: spsc_enqueue_def)
  next
    case True
    let ?q' = "q\<lparr>sq_buffer := (sq_buffer q)[ring_slot (sq_mask q) (sq_tail q) := Some x], sq_tail := sq_tail q + 1\<rparr>"
    have run: "spsc_enqueue q x = Inr (True, ?q')"
      using True dist(2) spsc_slot_lt [OF k, of "sq_tail q"] by (simp add: spsc_enqueue_def Let_def)
    have len': "spsc_len ?q' = Suc (spsc_len q)" using dist(1) by (simp add: spsc_len_def)
    have "spsc_slots ?q' = spsc_slots q @ [Some x]"
      using ring_contents_push [OF spsc_shapeD(2) [OF k], of "spsc_len q" "sq_head q" "Some x"] True
        spsc_shapeD(3) [OF k] spsc_tail [of q]
      unfolding spsc_slots_def len' by simp
    with run len' True some k show ?thesis
      by (auto simp: spsc_inv_def spsc_list_def spsc_shape_def)
  qed
qed

lemma spsc_dequeue_spec:
  assumes inv: "spsc_inv q"
  shows "case spsc_list q of [] \<Rightarrow> spsc_dequeue q = Inr (None, q)
    | x # xs \<Rightarrow> \<exists>q'. spsc_dequeue q = Inr (Some x, q') \<and> spsc_inv q' \<and> spsc_list q' = xs \<and> sq_capacity q' = sq_capacity q"
proof -
  obtain k where k: "spsc_shape k q" and n: "spsc_len q \<le> unat (sq_capacity q)" and some: "None \<notin> set (spsc_slots q)"
    using inv by (auto simp: spsc_inv_def)
  show ?thesis
  proof (cases "spsc_len q")
    case 0
    then show ?thesis by (simp add: spsc_list_def spsc_slots_def spsc_dequeue_def spsc_len_def)
  next
    case (Suc m)
    let ?q' = "q\<lparr>sq_head := sq_head q + 1\<rparr>"
    have ne: "sq_tail q \<noteq> sq_head q" using Suc by (auto simp: spsc_len_def)
    have len': "spsc_len ?q' = m" using distance_pred [OF ne] Suc by (simp add: spsc_len_def)
    have slots: "spsc_slots q = sq_buffer q ! ring_slot (sq_mask q) (sq_head q) # spsc_slots ?q'"
      unfolding spsc_slots_def len' Suc by (simp add: ring_contents_Suc)
    then obtain x where x: "sq_buffer q ! ring_slot (sq_mask q) (sq_head q) = Some x"
      using some by (cases "sq_buffer q ! ring_slot (sq_mask q) (sq_head q)") auto
    have "spsc_dequeue q = Inr (Some x, ?q')"
      using ne x spsc_slot_lt [OF k, of "sq_head q"] by (auto simp: spsc_dequeue_def Let_def)
    moreover have "spsc_inv ?q'" using k n some slots len' Suc by (auto simp: spsc_inv_def spsc_shape_def)
    ultimately show ?thesis using slots x by (simp add: spsc_list_def)
  qed
qed

lemma length_spsc_list [simp]: "length (spsc_list q) = spsc_len q"
  by (simp add: spsc_list_def spsc_slots_def)

interpretation spq: endless_queue spsc_ops "\<lambda>_. spsc_inv" spsc_list "\<lambda>q. unat (sq_capacity q)"
proof (unfold_locales, goal_cases)
  case (1 n q x)
  with spsc_enqueue_spec [OF 1, of x] show ?case by (auto simp: spsc_ops_def split: if_splits)
next
  case (2 n q x xs)
  with spsc_dequeue_spec [OF 2(1)] show ?case by (auto simp: spsc_ops_def)
next
  case (3 n q)
  with spsc_dequeue_spec [OF 3(1)] show ?case by (simp add: spsc_ops_def)
next
  case (4 n q)
  then show ?case by (simp add: spsc_inv_def)
next
  case (5 n q x ok q')
  with spsc_enqueue_spec [OF 5(1), of x] show ?case by (auto simp: spsc_ops_def split: if_splits)
next
  case (6 n q r q')
  with spsc_dequeue_spec [OF 6(1)] show ?case by (auto simp: spsc_ops_def split: list.splits)
next
  case (7 n q)
  then show ?case .
qed

lemma spsc_init_Inr:
  "spsc_init n = Inr q \<Longrightarrow> spsc_inv q \<and> spsc_list q = [] \<and> sq_capacity q = n \<and> (\<exists>k. spsc_shape k q)"
proof -
  assume init: "spsc_init n = Inr q"
  then have n: "n \<noteq> 0 \<and> n AND (n - 1) = 0" and q: "q = \<lparr>sq_buffer = replicate (unat n) None, sq_head = 0, sq_tail = 0,
      sq_capacity = n, sq_mask = n - 1\<rparr>"
    by (auto simp: spsc_init_def split: if_splits)
  obtain k where "k < 64" "n = 2 ^ k" using n pow2_test_iff [of n] by blast
  then have "spsc_shape k q" by (simp add: q spsc_shape_def ring_shape_def unat_2p)
  then show ?thesis
    unfolding spsc_inv_def spsc_list_def spsc_slots_def spsc_len_def by (auto simp: q)
qed

text \<open>
  C9: A \<^verbatim>\<open>CustomSPSCLockFreeQueue\<close> used by one thread at a time is a bounded FIFO queue: over any
  sequence of calls every answer is that of a list of at most \<open>capacity_\<close> elements. An element
  is taken exactly when fewer than \<open>capacity_\<close> are stored, and goes last; \<open>dequeue\<close> delivers
  the oldest element, null exactly when nothing is stored. So the accepted elements come out once
  each and in order, and what has not come out is still in the ring. No call blocks or reads
  outside the buffer, also when the 64-bit counters wrap.
\<close>

theorem spsc_refines_bounded_fifo:
  assumes inv: "spsc_inv q"
  shows "\<exists>q'. queue_answers spsc_ops cs q
        = Inr (fst (bounded_answers (unat (sq_capacity q)) cs (spsc_list q)), q') \<and>
      spsc_list q' = snd (bounded_answers (unat (sq_capacity q)) cs (spsc_list q)) \<and>
      spsc_inv q' \<and> sq_capacity q' = sq_capacity q \<and>
      (\<exists>ins outs. queue_calls spsc_ops cs q = Inr (ins, outs, q') \<and> spsc_list q @ ins = outs @ spsc_list q')"
proof -
  obtain q' where a: "queue_answers spsc_ops cs q
      = Inr (fst (bounded_answers (unat (sq_capacity q)) cs (spsc_list q)), q')" "spsc_inv q'"
    "unat (sq_capacity q') = unat (sq_capacity q)"
    "spsc_list q' = snd (bounded_answers (unat (sq_capacity q)) cs (spsc_list q))"
    using spq.answers_exact [OF inv, of cs] by blast
  obtain ins outs q2 where c: "queue_calls spsc_ops cs q = Inr (ins, outs, q2)" "spsc_list q @ ins = outs @ spsc_list q2"
    using spq.calls_fifo [OF inv, of cs] by blast
  with queue_calls_answers [OF a(1)] have "q2 = q'" by simp
  with a c show ?thesis by (auto simp: word_unat_eq_iff)
qed

text \<open>A queue of two: the third element is rejected, the two others are delivered, then null.\<close>

lemma spsc_refines_bounded_fifo_witness:
  "\<exists>q'. res_bind (spsc_init 2) (queue_answers spsc_ops
      [Dequeue, Enqueue 5, Enqueue (6 :: nat), Enqueue 7, Dequeue, Dequeue, Dequeue, Enqueue 8])
    = Inr ([Gave None, Took True, Took True, Took False, Gave (Some 5), Gave (Some 6), Gave None, Took True], q') \<and>
    spsc_list q' = [8]"
proof -
  obtain q :: "nat spsc" where q: "spsc_init 2 = Inr q" by (simp add: spsc_init_def)
  note i = spsc_init_Inr [OF q]
  have "spsc_inv q" using i by simp
  from spsc_refines_bounded_fifo [OF this,
      of "[Dequeue, Enqueue 5, Enqueue 6, Enqueue 7, Dequeue, Dequeue, Dequeue, Enqueue 8]"] i
  show ?thesis unfolding q res_bind.simps by auto
qed

end
