(* ===== verification/SpscConcurrent.thy ===== *)
theory SpscConcurrent
  imports SpscQueue
begin

text \<open>
  One producer and one consumer of a \<^verbatim>\<open>CustomSPSCLockFreeQueue\<close>, interleaved at their atomic
  accesses in a single total order. (The memory model of C++ allows more: the relaxed load of
  \<open>tail_\<close> in \<open>dequeue\<close> does not even order the read of the slot after its write.)
\<close>

section \<open>Step machine\<close>

text \<open>Where a thread is inside \<open>enqueue\<close>: each constructor names the access it has just done.\<close>

datatype 'a prod_pc = P_Idle | P_Tail 'a u64 | P_Room 'a u64 | P_Written 'a u64

text \<open>Inside \<open>dequeue\<close>: after the test, and after \<open>fetch_add\<close>, before the slot is read.\<close>

datatype cons_pc = C_Idle | C_NonEmpty | C_Claimed u64

text \<open>
  \<open>sc_ins\<close> and \<open>sc_outs\<close> record the elements published and the pointers returned;
  \<open>sc_full\<close> records that an element was accepted into the last free slot.
\<close>

record 'a spsc_sys =
  sc_q :: "'a spsc"
  sc_prod :: "'a prod_pc"
  sc_cons :: cons_pc
  sc_ins :: "'a list"
  sc_outs :: "'a option list"
  sc_full :: bool

definition sc_start :: "'a spsc \<Rightarrow> 'a spsc_sys" where
  "sc_start q = \<lparr>sc_q = q, sc_prod = P_Idle, sc_cons = C_Idle, sc_ins = [], sc_outs = [], sc_full = False\<rparr>"

inductive sc_step :: "'a spsc_sys \<Rightarrow> 'a spsc_sys \<Rightarrow> bool" where
  load_tail: "sc_prod s = P_Idle \<Longrightarrow>
    sc_step s (s\<lparr>sc_prod := P_Tail x (sq_tail (sc_q s))\<rparr>)"
| reject: "sc_prod s = P_Tail x t \<Longrightarrow> t + 1 - sq_head (sc_q s) > sq_capacity (sc_q s) \<Longrightarrow>
    sc_step s (s\<lparr>sc_prod := P_Idle\<rparr>)"
| accept: "sc_prod s = P_Tail x t \<Longrightarrow> \<not> t + 1 - sq_head (sc_q s) > sq_capacity (sc_q s) \<Longrightarrow>
    sc_step s (s\<lparr>sc_prod := P_Room x t,
      sc_full := (sc_full s \<or> t + 1 - sq_head (sc_q s) = sq_capacity (sc_q s))\<rparr>)"
| write_slot: "sc_prod s = P_Room x t \<Longrightarrow>
    sc_step s (s\<lparr>sc_prod := P_Written x t,
      sc_q := (sc_q s)\<lparr>sq_buffer := (sq_buffer (sc_q s))[ring_slot (sq_mask (sc_q s)) t := Some x]\<rparr>\<rparr>)"
| publish: "sc_prod s = P_Written x t \<Longrightarrow>
    sc_step s (s\<lparr>sc_prod := P_Idle, sc_q := (sc_q s)\<lparr>sq_tail := t + 1\<rparr>, sc_ins := sc_ins s @ [x]\<rparr>)"
| empty: "sc_cons s = C_Idle \<Longrightarrow> sq_head (sc_q s) = sq_tail (sc_q s) \<Longrightarrow> sc_step s s"
| nonempty: "sc_cons s = C_Idle \<Longrightarrow> sq_head (sc_q s) \<noteq> sq_tail (sc_q s) \<Longrightarrow>
    sc_step s (s\<lparr>sc_cons := C_NonEmpty\<rparr>)"
| claim: "sc_cons s = C_NonEmpty \<Longrightarrow>
    sc_step s (s\<lparr>sc_cons := C_Claimed (sq_head (sc_q s)), sc_q := (sc_q s)\<lparr>sq_head := sq_head (sc_q s) + 1\<rparr>\<rparr>)"
| read_slot: "sc_cons s = C_Claimed h \<Longrightarrow>
    sc_step s (s\<lparr>sc_cons := C_Idle,
      sc_outs := sc_outs s @ [sq_buffer (sc_q s) ! ring_slot (sq_mask (sc_q s)) h]\<rparr>)"

inductive_simps sc_step_iff: "sc_step s s'"

section \<open>Invariant\<close>

definition sc_pending :: "'a spsc_sys \<Rightarrow> nat" where
  "sc_pending s = (case sc_cons s of C_Claimed h \<Rightarrow> 1 | _ \<Rightarrow> 0)"

text \<open>The counter of the oldest element that has not been read.\<close>

definition sc_base :: "'a spsc_sys \<Rightarrow> u64" where
  "sc_base s = sq_head (sc_q s) - of_nat (sc_pending s)"

definition sc_counters :: "'a spsc_sys \<Rightarrow> bool" where
  "sc_counters s \<longleftrightarrow> (let q = sc_q s in (\<exists>k. spsc_shape k q) \<and> spsc_len q \<le> unat (sq_capacity q) \<and>
    (case sc_prod s of P_Idle \<Rightarrow> True | P_Tail x t \<Rightarrow> t = sq_tail q
      | P_Room x t \<Rightarrow> t = sq_tail q \<and> spsc_len q < unat (sq_capacity q)
      | P_Written x t \<Rightarrow> t = sq_tail q \<and> spsc_len q < unat (sq_capacity q)) \<and>
    (case sc_cons s of C_Idle \<Rightarrow> True | C_NonEmpty \<Rightarrow> 0 < spsc_len q | C_Claimed h \<Rightarrow> h = sc_base s) \<and>
    length (sc_ins s) = length (sc_outs s) + sc_pending s + spsc_len q)"

text \<open>While the ring has not been filled, the unread elements are in its slots, in order.\<close>

definition sc_content :: "'a spsc_sys \<Rightarrow> bool" where
  "sc_content s \<longleftrightarrow> (let q = sc_q s; n = sc_pending s + spsc_len q in
    sc_outs s @ ring_contents (sq_buffer q) (sq_mask q) (sc_base s) n = map Some (sc_ins s) \<and>
    n \<le> unat (sq_capacity q) \<and>
    (case sc_prod s of P_Room x t \<Rightarrow> n < unat (sq_capacity q)
      | P_Written x t \<Rightarrow> n < unat (sq_capacity q) \<and> sq_buffer q ! ring_slot (sq_mask q) t = Some x
      | _ \<Rightarrow> True))"

definition sc_inv :: "'a spsc_sys \<Rightarrow> bool" where
  "sc_inv s \<longleftrightarrow> sc_counters s \<and> (\<not> sc_full s \<longrightarrow> sc_content s)"

lemma sc_tail: "sq_tail (sc_q s) = sc_base s + of_nat (sc_pending s + spsc_len (sc_q s))"
  by (simp add: sc_base_def spsc_len_def)

lemma sc_next:
  assumes "sc_counters s"
  shows "unat (sq_tail (sc_q s) + 1 - sq_head (sc_q s)) = Suc (spsc_len (sc_q s))"
    "sq_tail (sc_q s) + 1 - sq_head (sc_q s) > sq_capacity (sc_q s) \<longleftrightarrow> spsc_len (sc_q s) = unat (sq_capacity (sc_q s))"
    "sq_tail (sc_q s) + 1 - sq_head (sc_q s) = sq_capacity (sc_q s) \<longleftrightarrow> Suc (spsc_len (sc_q s)) = unat (sq_capacity (sc_q s))"
proof -
  obtain k where "spsc_shape k (sc_q s)" "spsc_len (sc_q s) \<le> unat (sq_capacity (sc_q s))"
    using assms by (auto simp: sc_counters_def Let_def)
  note d = spsc_next_distance [OF this]
  show "unat (sq_tail (sc_q s) + 1 - sq_head (sc_q s)) = Suc (spsc_len (sc_q s))"
    "sq_tail (sc_q s) + 1 - sq_head (sc_q s) > sq_capacity (sc_q s) \<longleftrightarrow> spsc_len (sc_q s) = unat (sq_capacity (sc_q s))"
    by (rule d)+
  show "sq_tail (sc_q s) + 1 - sq_head (sc_q s) = sq_capacity (sc_q s) \<longleftrightarrow> Suc (spsc_len (sc_q s)) = unat (sq_capacity (sc_q s))"
    unfolding word_unat_eq_iff d(1) ..
qed

lemma sc_counters_step: "sc_step s s' \<Longrightarrow> sc_counters s \<Longrightarrow> sc_counters s'"
proof (induction rule: sc_step.induct)
  case (accept s x t)
  then show ?case using sc_next(2) [OF accept(3)]
    by (auto simp: sc_counters_def Let_def sc_pending_def sc_base_def split: cons_pc.splits)
next
  case (publish s x t)
  have t: "t = sq_tail (sc_q s)" using publish by (simp add: sc_counters_def Let_def)
  have "spsc_len (sc_q s\<lparr>sq_tail := t + 1\<rparr>) = Suc (spsc_len (sc_q s))"
    using sc_next(1) [OF publish(2)] by (simp add: spsc_len_def t)
  with publish show ?case
    by (auto simp: sc_counters_def Let_def sc_pending_def sc_base_def spsc_shape_def split: cons_pc.splits)
next
  case (nonempty s)
  then show ?case by (auto simp: sc_counters_def Let_def sc_pending_def sc_base_def spsc_len_def unat_gt_0
        split: prod_pc.splits)
next
  case (claim s)
  then have "0 < spsc_len (sc_q s)" by (simp add: sc_counters_def Let_def)
  then have "sq_tail (sc_q s) \<noteq> sq_head (sc_q s)" by (auto simp: spsc_len_def)
  then have "spsc_len (sc_q s\<lparr>sq_head := sq_head (sc_q s) + 1\<rparr>) = spsc_len (sc_q s) - 1"
    by (simp add: spsc_len_def distance_pred)
  with claim \<open>0 < _\<close> show ?case
    by (auto simp: sc_counters_def Let_def sc_pending_def sc_base_def spsc_shape_def split: prod_pc.splits)
qed (auto simp: sc_counters_def Let_def sc_pending_def sc_base_def spsc_shape_def spsc_len_def
    split: prod_pc.splits cons_pc.splits)

lemma sc_content_step: "sc_step s s' \<Longrightarrow> sc_counters s \<Longrightarrow> sc_content s \<Longrightarrow> \<not> sc_full s' \<Longrightarrow> sc_content s'"
proof (induction rule: sc_step.induct)
  case (accept s x t)
  have t: "t = sq_tail (sc_q s)" using accept by (simp add: sc_counters_def Let_def)
  have "sc_pending s \<le> 1" by (simp add: sc_pending_def split: cons_pc.split)
  moreover have "Suc (spsc_len (sc_q s)) < unat (sq_capacity (sc_q s))"
    using accept(2,5) sc_next(2,3) [OF accept(3)] accept(3) t
    by (simp add: sc_counters_def Let_def del: not_less)
  ultimately have "sc_pending s + spsc_len (sc_q s) < unat (sq_capacity (sc_q s))" by linarith
  with accept show ?case by (simp add: sc_content_def Let_def sc_pending_def sc_base_def)
next
  case (write_slot s x t)
  obtain k where k: "spsc_shape k (sc_q s)" and t: "t = sq_tail (sc_q s)"
    using write_slot by (auto simp: sc_counters_def Let_def)
  have n: "sc_pending s + spsc_len (sc_q s) < length (sq_buffer (sc_q s))"
    using write_slot spsc_shapeD(3) [OF k] by (simp add: sc_content_def Let_def)
  have "sc_base s + of_nat (sc_pending s + spsc_len (sc_q s)) = t" unfolding t by (rule sc_tail [symmetric])
  note upd = ring_contents_update [OF spsc_shapeD(2) [OF k] n, of "sc_base s" "Some x", unfolded this]
  have len: "spsc_len (sc_q s\<lparr>sq_buffer := b\<rparr>) = spsc_len (sc_q s)" for b by (simp add: spsc_len_def)
  show ?case
    using write_slot upd spsc_slot_lt [OF k, of t]
    by (simp add: sc_content_def Let_def sc_pending_def sc_base_def len)
next
  case (publish s x t)
  have t: "t = sq_tail (sc_q s)" using publish by (simp add: sc_counters_def Let_def)
  have len: "spsc_len (sc_q s\<lparr>sq_tail := t + 1\<rparr>) = Suc (spsc_len (sc_q s))"
    using sc_next(1) [OF publish(2)] by (simp add: spsc_len_def t)
  let ?s' = "s\<lparr>sc_prod := P_Idle, sc_q := (sc_q s)\<lparr>sq_tail := t + 1\<rparr>, sc_ins := sc_ins s @ [x]\<rparr>"
  have same: "sc_pending ?s' = sc_pending s" "sc_base ?s' = sc_base s" by (simp_all add: sc_pending_def sc_base_def)
  have "sc_base s + of_nat (sc_pending s + spsc_len (sc_q s)) = t" unfolding t by (rule sc_tail [symmetric])
  note snoc = ring_contents_snoc [of "sq_buffer (sc_q s)" "sq_mask (sc_q s)" "sc_base s"
      "sc_pending s + spsc_len (sc_q s)", unfolded this]
  show ?case using publish(1,3,4) snoc unfolding sc_content_def Let_def same by (simp add: len)
next
  case (claim s)
  then have "0 < spsc_len (sc_q s)" by (simp add: sc_counters_def Let_def)
  then have "sq_tail (sc_q s) \<noteq> sq_head (sc_q s)" by (auto simp: spsc_len_def)
  then have len: "spsc_len (sc_q s\<lparr>sq_head := sq_head (sc_q s) + 1\<rparr>) = spsc_len (sc_q s) - 1"
    by (simp add: spsc_len_def distance_pred)
  then show ?case using claim \<open>0 < _\<close>
    by (simp add: sc_content_def Let_def sc_pending_def sc_base_def len split: prod_pc.splits)
next
  case (read_slot s h)
  have "h = sc_base s" using read_slot by (simp add: sc_counters_def Let_def)
  then show ?case using read_slot
    by (auto simp: sc_content_def Let_def sc_pending_def sc_base_def ring_contents_Suc split: prod_pc.splits)
qed (auto simp: sc_content_def Let_def sc_pending_def sc_base_def split: prod_pc.splits)

lemma sc_inv_step:
  assumes "sc_step s s'" and "sc_inv s"
  shows "sc_inv s'"
proof -
  have "sc_full s \<longrightarrow> sc_full s'" using assms(1) by (induction rule: sc_step.induct) simp_all
  with assms sc_counters_step [OF assms(1)] sc_content_step [OF assms(1)] show ?thesis
    unfolding sc_inv_def by blast
qed

lemma sc_start_inv:
  assumes "spsc_init n = Inr q"
  shows "sc_inv (sc_start q)"
proof -
  note i = spsc_init_Inr [OF assms]
  then have "spsc_len q = 0" using length_spsc_list [of q] by simp
  with i show ?thesis
    by (auto simp: sc_inv_def sc_counters_def sc_content_def Let_def sc_start_def sc_pending_def sc_base_def)
qed

lemma sc_inv_reachable: "sc_step\<^sup>*\<^sup>* (sc_start q) s \<Longrightarrow> spsc_init n = Inr q \<Longrightarrow> sc_inv s"
  by (induction rule: rtranclp_induct) (auto intro: sc_inv_step sc_start_inv)

section \<open>Properties\<close>

text \<open>
  C5: With one producer and one consumer interleaved at their atomic accesses, a
  \<^verbatim>\<open>CustomSPSCLockFreeQueue\<close> whose last free slot was never taken delivers the published
  elements once each and in order, never a null or stale pointer. In every reachable state, full
  or not, at most \<open>capacity_\<close> elements are published and not claimed.
\<close>

theorem spsc_concurrent_fifo:
  assumes "spsc_init n = Inr q" and "sc_step\<^sup>*\<^sup>* (sc_start q) s"
  shows "unat (sq_tail (sc_q s) - sq_head (sc_q s)) \<le> unat (sq_capacity (sc_q s)) \<and>
    (\<not> sc_full s \<longrightarrow> (\<exists>rest. map Some (sc_ins s) = sc_outs s @ map Some rest))"
proof -
  have inv: "sc_inv s" using assms(2,1) by (rule sc_inv_reachable)
  have "\<exists>rest. map Some (sc_ins s) = sc_outs s @ map Some rest" if "\<not> sc_full s"
  proof -
    let ?r = "ring_contents (sq_buffer (sc_q s)) (sq_mask (sc_q s)) (sc_base s) (sc_pending s + spsc_len (sc_q s))"
    have m: "sc_outs s @ ?r = map Some (sc_ins s)"
      using inv that by (simp add: sc_inv_def sc_content_def Let_def)
    then have "?r = drop (length (sc_outs s)) (map Some (sc_ins s))" by (metis append_eq_conv_conj)
    then show ?thesis using m by (metis drop_map)
  qed
  with inv show ?thesis by (simp add: sc_inv_def sc_counters_def Let_def spsc_len_def)
qed

text \<open>A run of the two threads in a ring of two slots, given as the list of its states.\<close>

definition spsc2 :: "nat option list \<Rightarrow> u64 \<Rightarrow> u64 \<Rightarrow> nat spsc" where
  "spsc2 b h t = \<lparr>sq_buffer = b, sq_head = h, sq_tail = t, sq_capacity = 2, sq_mask = 1\<rparr>"

lemma spsc2_init: "spsc_init 2 = Inr (spsc2 [None, None] 0 0)"
proof -
  have "replicate 2 None = [None, None :: nat option]" by (simp add: numeral_2_eq_2)
  then show ?thesis by (simp add: spsc_init_def spsc2_def)
qed

text \<open>One element goes through: the producer's four accesses, then the consumer's three.\<close>

lemma sc_pass:
  assumes "\<not> t + 1 - h > 2" and "h \<noteq> t + 1"
  shows "sc_step\<^sup>*\<^sup>* \<lparr>sc_q = spsc2 b h t, sc_prod = P_Idle, sc_cons = c, sc_ins = ins, sc_outs = outs, sc_full = f\<rparr>
    \<lparr>sc_q = spsc2 (b[ring_slot 1 t := Some x]) h (t + 1), sc_prod = P_Idle, sc_cons = c, sc_ins = ins @ [x],
      sc_outs = outs, sc_full = (f \<or> t + 1 - h = 2)\<rparr>"
proof -
  let ?s = "\<lambda>b t p ins f. \<lparr>sc_q = spsc2 b h t, sc_prod = p, sc_cons = c, sc_ins = ins, sc_outs = outs, sc_full = f\<rparr>"
  let ?b = "b[ring_slot 1 t := Some x]" and ?f = "f \<or> t + 1 - h = 2"
  have "sc_step (?s b t P_Idle ins f) (?s b t (P_Tail x t) ins f)"
    using sc_step.load_tail [of "?s b t P_Idle ins f" x] by (simp add: spsc2_def)
  moreover have "sc_step (?s b t (P_Tail x t) ins f) (?s b t (P_Room x t) ins ?f)"
    using sc_step.accept [of "?s b t (P_Tail x t) ins f" x t] assms(1) by (simp add: spsc2_def)
  moreover have "sc_step (?s b t (P_Room x t) ins ?f) (?s ?b t (P_Written x t) ins ?f)"
    using sc_step.write_slot [of "?s b t (P_Room x t) ins ?f" x t] by (simp add: spsc2_def)
  moreover have "sc_step (?s ?b t (P_Written x t) ins ?f) (?s ?b (t + 1) P_Idle (ins @ [x]) ?f)"
    using sc_step.publish [of "?s ?b t (P_Written x t) ins ?f" x t] by (simp add: spsc2_def)
  ultimately show ?thesis by (meson converse_rtranclp_into_rtranclp rtranclp.rtrancl_refl)
qed

lemma sc_claim_next:
  assumes "h \<noteq> t"
  shows "sc_step\<^sup>*\<^sup>* \<lparr>sc_q = spsc2 b h t, sc_prod = p, sc_cons = C_Idle, sc_ins = ins, sc_outs = outs, sc_full = f\<rparr>
    \<lparr>sc_q = spsc2 b (h + 1) t, sc_prod = p, sc_cons = C_Claimed h, sc_ins = ins, sc_outs = outs, sc_full = f\<rparr>"
proof -
  let ?s = "\<lambda>h c. \<lparr>sc_q = spsc2 b h t, sc_prod = p, sc_cons = c, sc_ins = ins, sc_outs = outs, sc_full = f\<rparr>"
  have "sc_step (?s h C_Idle) (?s h C_NonEmpty)"
    using sc_step.nonempty [of "?s h C_Idle"] assms by (simp add: spsc2_def)
  moreover have "sc_step (?s h C_NonEmpty) (?s (h + 1) (C_Claimed h))"
    using sc_step.claim [of "?s h C_NonEmpty"] by (simp add: spsc2_def)
  ultimately show ?thesis by (meson converse_rtranclp_into_rtranclp rtranclp.rtrancl_refl)
qed

lemma sc_read_next:
  "sc_step\<^sup>*\<^sup>* \<lparr>sc_q = spsc2 b h t, sc_prod = p, sc_cons = C_Claimed c, sc_ins = ins, sc_outs = outs, sc_full = f\<rparr>
    \<lparr>sc_q = spsc2 b h t, sc_prod = p, sc_cons = C_Idle, sc_ins = ins, sc_outs = outs @ [b ! ring_slot 1 c], sc_full = f\<rparr>"
  using sc_step.read_slot [of "\<lparr>sc_q = spsc2 b h t, sc_prod = p, sc_cons = C_Claimed c, sc_ins = ins, sc_outs = outs, sc_full = f\<rparr>" c]
  by (simp add: spsc2_def r_into_rtranclp)

text \<open>
  C33: \<open>dequeue\<close> gives its slot back (\<open>head_.fetch_add\<close>) before it reads it. In a full ring the
  producer may overwrite the slot in between: here 1, 2 and 3 are accepted, the consumer gets 3,
  2 and 3, so one element is lost and another delivered twice.
\<close>

theorem spsc_read_after_release:
  "\<exists>q s. spsc_init 2 = Inr q \<and> sc_step\<^sup>*\<^sup>* (sc_start q) s \<and> sc_ins s = [1, 2, 3 :: nat] \<and>
    sc_outs s = [Some 3, Some 2, Some 3]"
proof -
  note init = spsc2_init
  let ?s = "\<lambda>b h t c ins outs f. \<lparr>sc_q = spsc2 b h t, sc_prod = P_Idle, sc_cons = c, sc_ins = ins, sc_outs = outs, sc_full = f\<rparr>"
  have start: "sc_start (spsc2 [None, None] 0 0) = ?s [None, None] 0 0 C_Idle [] [] False" by (simp add: sc_start_def)
  have 1: "sc_step\<^sup>*\<^sup>* (?s [None, None] 0 0 C_Idle [] [] False) (?s [Some 1, None] 0 1 C_Idle [1] [] False)"
    using sc_pass [of 0 0 "[None, None]" C_Idle "[]" "[]" False 1] by (simp add: ring_slot_def)
  have 2: "sc_step\<^sup>*\<^sup>* (?s [Some 1, None] 0 1 C_Idle [1] [] False) (?s [Some 1, Some 2] 0 2 C_Idle [1, 2] [] True)"
    using sc_pass [of 1 0 "[Some 1, None]" C_Idle "[1]" "[]" False 2] by (simp add: ring_slot_def)
  have 3: "sc_step\<^sup>*\<^sup>* (?s [Some 1, Some 2] 0 2 C_Idle [1, 2] [] True) (?s [Some 1, Some 2] 1 2 (C_Claimed 0) [1, 2] [] True)"
    using sc_claim_next [of 0 2 "[Some 1, Some 2]" P_Idle "[1, 2]" "[]" True] by simp
  have 4: "sc_step\<^sup>*\<^sup>* (?s [Some 1, Some 2] 1 2 (C_Claimed 0) [1, 2] [] True) (?s [Some 3, Some 2] 1 3 (C_Claimed 0) [1, 2, 3] [] True)"
    using sc_pass [of 2 1 "[Some 1, Some 2]" "C_Claimed 0" "[1, 2]" "[]" True 3] by (simp add: ring_slot_def)
  have 5: "sc_step\<^sup>*\<^sup>* (?s [Some 3, Some 2] 1 3 (C_Claimed 0) [1, 2, 3] [] True) (?s [Some 3, Some 2] 1 3 C_Idle [1, 2, 3] [Some 3] True)"
    using sc_read_next [of "[Some 3, Some 2]" 1 3 P_Idle 0 "[1, 2, 3]" "[]" True] by (simp add: ring_slot_def)
  have 6: "sc_step\<^sup>*\<^sup>* (?s [Some 3, Some 2] 1 3 C_Idle [1, 2, 3] [Some 3] True) (?s [Some 3, Some 2] 2 3 C_Idle [1, 2, 3] [Some 3, Some 2] True)"
    using rtranclp_trans [OF sc_claim_next sc_read_next, of 1 3 "[Some 3, Some 2]" P_Idle "[1, 2, 3]" "[Some 3]" True]
    by (simp add: ring_slot_def)
  have 7: "sc_step\<^sup>*\<^sup>* (?s [Some 3, Some 2] 2 3 C_Idle [1, 2, 3] [Some 3, Some 2] True)
      (?s [Some 3, Some 2] 3 3 C_Idle [1, 2, 3] [Some 3, Some 2, Some 3] True)"
    using rtranclp_trans [OF sc_claim_next sc_read_next, of 2 3 "[Some 3, Some 2]" P_Idle "[1, 2, 3]" "[Some 3, Some 2]" True]
    by (simp add: ring_slot_def)
  have "sc_step\<^sup>*\<^sup>* (sc_start (spsc2 [None, None] 0 0)) (?s [Some 3, Some 2] 3 3 C_Idle [1, 2, 3] [Some 3, Some 2, Some 3] True)"
    unfolding start by (rule rtranclp_trans [OF 1 rtranclp_trans [OF 2 rtranclp_trans [OF 3 rtranclp_trans [OF 4
          rtranclp_trans [OF 5 rtranclp_trans [OF 6 7]]]]]])
  with init show ?thesis by force
qed

lemma spsc_concurrent_fifo_witness:
  "\<exists>q s. spsc_init 2 = Inr q \<and> sc_step\<^sup>*\<^sup>* (sc_start q) s \<and> sc_ins s = [7 :: nat] \<and>
    (\<exists>rest. map Some (sc_ins s) = sc_outs s @ map Some rest)"
proof -
  note init = spsc2_init
  have run: "sc_step\<^sup>*\<^sup>* (sc_start (spsc2 [None, None] 0 0))
    \<lparr>sc_q = spsc2 [Some 7, None] 0 1, sc_prod = P_Idle, sc_cons = C_Idle, sc_ins = [7], sc_outs = [], sc_full = False\<rparr>"
    using sc_pass [of 0 0 "[None, None]" C_Idle "[]" "[]" False 7] by (simp add: ring_slot_def sc_start_def)
  from spsc_concurrent_fifo [OF init run] init run show ?thesis by force
qed

end
