(* ===== verification/MpmcQueue.thy ===== *)
theory MpmcQueue
  imports QueueSpec Ring
begin

text \<open>
  \<^verbatim>\<open>CustomMPMCLockFreeQueue\<close> of include/Queue.hpp: a ring of cells, each with a sequence number
  that says which position may write or read it next. The calls of one thread after another;
  \<open>compare_exchange_weak\<close> may fail although the values agree, and \<open>weak\<close> lists those outcomes.
\<close>

section \<open>Model\<close>

record 'a cell =
  cl_seq :: u64
  cl_data :: "'a option"

record 'a mpmc =
  mq_buffer :: "'a cell list"
  mq_head :: u64
  mq_tail :: u64
  mq_capacity :: u64
  mq_mask :: u64

text \<open>A cell takes 16 bytes, so a vector has fewer than \<open>2 ^ 59\<close> of them.\<close>

definition mpmc_init :: "u64 \<Rightarrow> 'a mpmc res" where
  "mpmc_init queueCapacity =
    (if unat queueCapacity \<ge> 2 ^ 59 then Inl (Throw Length_Error)
     else if queueCapacity = 0 \<or> queueCapacity AND (queueCapacity - 1) \<noteq> 0
     then Inl (Throw (Invalid_Argument ''Capacity must be a power of two and greater than zero.''))
     else Inr \<lparr>mq_buffer = map (\<lambda>i. \<lparr>cl_seq = of_nat i, cl_data = None\<rparr>) [0..<unat queueCapacity],
       mq_head = 0, mq_tail = 0, mq_capacity = queueCapacity, mq_mask = queueCapacity - 1\<rparr>)"

text \<open>The difference of two counters as \<^verbatim>\<open>int64_t\<close>; overflow is undefined.\<close>

definition diff64 :: "u64 \<Rightarrow> u64 \<Rightarrow> int res" where
  "diff64 seq pos = (let d = sint seq - sint pos in
    if - (2 ^ 63) \<le> d \<and> d < 2 ^ 63 then Inr d else Inl (UB Signed_Overflow))"

text \<open>The claiming loop of \<open>enqueue\<close>: the position claimed, or \<open>None\<close> for a full ring.\<close>

fun mpmc_claim_tail :: "nat \<Rightarrow> bool list \<Rightarrow> 'a mpmc \<Rightarrow> u64 \<Rightarrow> (u64 option \<times> 'a mpmc) res" where
  "mpmc_claim_tail 0 weak q pos = Inl Diverges"
| "mpmc_claim_tail (Suc fuel) weak q pos = (let slot = ring_slot (mq_mask q) pos in
    if slot \<ge> length (mq_buffer q) then Inl (UB Out_Of_Bounds)
    else res_bind (diff64 (cl_seq (mq_buffer q ! slot)) pos) (\<lambda>diff.
      if diff = 0 then
        (if mq_tail q \<noteq> pos \<or> (weak \<noteq> [] \<and> \<not> hd weak) then mpmc_claim_tail fuel (tl weak) q (mq_tail q)
         else Inr (Some pos, q\<lparr>mq_tail := pos + 1\<rparr>))
      else if diff < 0 then Inr (None, q)
      else mpmc_claim_tail fuel weak q (mq_tail q)))"

definition mpmc_enqueue :: "bool list \<Rightarrow> 'a mpmc \<Rightarrow> 'a \<Rightarrow> (bool \<times> 'a mpmc) res" where
  "mpmc_enqueue weak q ptr =
    res_bind (mpmc_claim_tail (Suc (length weak)) weak q (mq_tail q)) (\<lambda>(r, q'). case r of
      None \<Rightarrow> Inr (False, q')
    | Some pos \<Rightarrow> Inr (True, q'\<lparr>mq_buffer := (mq_buffer q')[ring_slot (mq_mask q') pos :=
        \<lparr>cl_seq = pos + 1, cl_data = Some ptr\<rparr>]\<rparr>))"

fun mpmc_claim_head :: "nat \<Rightarrow> bool list \<Rightarrow> 'a mpmc \<Rightarrow> u64 \<Rightarrow> (u64 option \<times> 'a mpmc) res" where
  "mpmc_claim_head 0 weak q pos = Inl Diverges"
| "mpmc_claim_head (Suc fuel) weak q pos = (let slot = ring_slot (mq_mask q) pos in
    if slot \<ge> length (mq_buffer q) then Inl (UB Out_Of_Bounds)
    else res_bind (diff64 (cl_seq (mq_buffer q ! slot)) (pos + 1)) (\<lambda>diff.
      if diff = 0 then
        (if mq_head q \<noteq> pos \<or> (weak \<noteq> [] \<and> \<not> hd weak) then mpmc_claim_head fuel (tl weak) q (mq_head q)
         else Inr (Some pos, q\<lparr>mq_head := pos + 1\<rparr>))
      else if diff < 0 then Inr (None, q)
      else mpmc_claim_head fuel weak q (mq_head q)))"

definition mpmc_dequeue :: "bool list \<Rightarrow> 'a mpmc \<Rightarrow> ('a option \<times> 'a mpmc) res" where
  "mpmc_dequeue weak q =
    res_bind (mpmc_claim_head (Suc (length weak)) weak q (mq_head q)) (\<lambda>(r, q'). case r of
      None \<Rightarrow> Inr (None, q')
    | Some pos \<Rightarrow> (let slot = ring_slot (mq_mask q') pos; cell = mq_buffer q' ! slot in
        Inr (cl_data cell, q'\<lparr>mq_buffer := (mq_buffer q')[slot := cell\<lparr>cl_seq := pos + mq_capacity q'\<rparr>]\<rparr>)))"

definition mpmc_ops :: "bool list \<Rightarrow> bool list \<Rightarrow> ('a mpmc, 'a) q_ops" where
  "mpmc_ops ew dw = \<lparr>enqueue_op = mpmc_enqueue ew, dequeue_op = mpmc_dequeue dw\<rparr>"

section \<open>Abstraction and invariant\<close>

text \<open>
  Positions are natural numbers below \<open>2 ^ 63\<close>. A position from head to tail is in a cell that
  may be read next; the \<open>n\<close> positions from tail on that have a free cell may be written.
\<close>

definition mpmc_cell :: "'a mpmc \<Rightarrow> nat \<Rightarrow> 'a cell" where
  "mpmc_cell q p = mq_buffer q ! ring_slot (mq_mask q) (of_nat p)"

definition mpmc_positions :: "'a mpmc \<Rightarrow> nat list" where
  "mpmc_positions q = [unat (mq_head q)..<unat (mq_tail q)]"

definition mpmc_list :: "'a mpmc \<Rightarrow> 'a list" where
  "mpmc_list q = map (\<lambda>p. the (cl_data (mpmc_cell q p))) (mpmc_positions q)"

definition mpmc_inv :: "nat \<Rightarrow> 'a mpmc \<Rightarrow> bool" where
  "mpmc_inv n q \<longleftrightarrow> (\<exists>k. ring_shape k (mq_mask q) (length (mq_buffer q)) \<and> mq_capacity q = 2 ^ k) \<and>
    (let h = unat (mq_head q); t = unat (mq_tail q); c = length (mq_buffer q) in
      2 \<le> c \<and> h \<le> t \<and> t \<le> h + c \<and> t + c + n < 2 ^ 63 \<and>
      (\<forall>p. h \<le> p \<and> p < t \<longrightarrow> cl_seq (mpmc_cell q p) = of_nat (Suc p) \<and> cl_data (mpmc_cell q p) \<noteq> None) \<and>
      (\<forall>p. t \<le> p \<and> p < h + c \<longrightarrow> cl_seq (mpmc_cell q p) = of_nat p))"

lemma diff64_small:
  assumes "a < 2 ^ 63" and "b < 2 ^ 63"
  shows "diff64 (of_nat a) (of_nat b) = Inr (int a - int b)"
proof -
  have s: "sint (of_nat x :: u64) = int x" if "x < 2 ^ 63" for x
    using that by (simp add: signed_of_nat signed_take_bit_int_eq_self)
  show ?thesis using assms by (simp add: diff64_def s)
qed

lemma mpmc_slot: "ring_shape k msk n \<Longrightarrow> ring_slot msk (of_nat p) = p mod n"
  using ring_slot_mod [of k msk n 0 p] by simp

lemma mpmc_invD:
  assumes "mpmc_inv n q"
  defines "h \<equiv> unat (mq_head q)" and "t \<equiv> unat (mq_tail q)" and "c \<equiv> length (mq_buffer q)"
  shows "\<exists>k. ring_shape k (mq_mask q) c \<and> mq_capacity q = 2 ^ k" "2 \<le> c" "h \<le> t" "t \<le> h + c" "t + c + n < 2 ^ 63"
    "\<And>p. h \<le> p \<Longrightarrow> p < t \<Longrightarrow> cl_seq (mpmc_cell q p) = of_nat (Suc p) \<and> cl_data (mpmc_cell q p) \<noteq> None"
    "\<And>p. t \<le> p \<Longrightarrow> p < h + c \<Longrightarrow> cl_seq (mpmc_cell q p) = of_nat p"
  using assms(1) unfolding mpmc_inv_def Let_def assms(2-4) by blast+

lemma mpmc_cell_mod:
  "mpmc_inv n q \<Longrightarrow> mpmc_cell q p = mq_buffer q ! (p mod length (mq_buffer q))"
  using mpmc_invD(1) [of n q] by (auto simp: mpmc_cell_def mpmc_slot)

lemma mpmc_claim_tail_result:
  assumes "ring_slot (mq_mask q) (mq_tail q) < length (mq_buffer q)"
    and "diff64 (cl_seq (mq_buffer q ! ring_slot (mq_mask q) (mq_tail q))) (mq_tail q) = Inr d" and "d \<le> 0"
  shows "mpmc_claim_tail (Suc (length weak)) weak q (mq_tail q) =
    Inr (if d = 0 then (Some (mq_tail q), q\<lparr>mq_tail := mq_tail q + 1\<rparr>) else (None, q))"
proof (induction weak)
  case (Cons w weak)
  with assms show ?case by (cases w) (auto simp: Let_def)
qed (use assms in \<open>simp add: Let_def\<close>)

lemma mpmc_claim_head_result:
  assumes "ring_slot (mq_mask q) (mq_head q) < length (mq_buffer q)"
    and "diff64 (cl_seq (mq_buffer q ! ring_slot (mq_mask q) (mq_head q))) (mq_head q + 1) = Inr d" and "d \<le> 0"
  shows "mpmc_claim_head (Suc (length weak)) weak q (mq_head q) =
    Inr (if d = 0 then (Some (mq_head q), q\<lparr>mq_head := mq_head q + 1\<rparr>) else (None, q))"
proof (induction weak)
  case (Cons w weak)
  with assms show ?case by (cases w) (auto simp: Let_def)
qed (use assms in \<open>simp add: Let_def\<close>)

declare mpmc_claim_tail.simps [simp del] mpmc_claim_head.simps [simp del]

text \<open>Two positions share a cell only if they are at least a ring apart.\<close>

lemma position_apart: "p < q \<Longrightarrow> q < p + n \<Longrightarrow> p mod n \<noteq> q mod n" for n :: nat
  using mod_add_eq_iff [of 0 n "q - p" p] by auto

lemma mpmc_list_Cons:
  assumes "mpmc_inv n q" and "unat (mq_head q) < unat (mq_tail q)"
  shows "mpmc_list q = the (cl_data (mpmc_cell q (unat (mq_head q)))) #
    map (\<lambda>p. the (cl_data (mpmc_cell q p))) [Suc (unat (mq_head q))..<unat (mq_tail q)]"
  using assms(2) by (simp add: mpmc_list_def mpmc_positions_def upt_conv_Cons)

lemma mpmc_enqueue_spec:
  assumes inv: "mpmc_inv (Suc n) q"
  shows "if length (mpmc_list q) < length (mq_buffer q)
    then \<exists>q'. mpmc_enqueue weak q x = Inr (True, q') \<and> mpmc_inv n q' \<and> mpmc_list q' = mpmc_list q @ [x] \<and>
      length (mq_buffer q') = length (mq_buffer q)
    else mpmc_enqueue weak q x = Inr (False, q)"
proof -
  let ?h = "unat (mq_head q)" and ?t = "unat (mq_tail q)" and ?c = "length (mq_buffer q)"
  note i = mpmc_invD [OF inv]
  obtain k where k: "ring_shape k (mq_mask q) ?c" "mq_capacity q = 2 ^ k" using i(1) by blast
  have slot: "ring_slot (mq_mask q) (mq_tail q) = ?t mod ?c" using mpmc_slot [OF k(1), of ?t] by simp
  have slot_lt: "?t mod ?c < ?c" using i(2) by (intro mod_less_divisor) linarith
  have len: "length (mpmc_list q) = ?t - ?h" by (simp add: mpmc_list_def mpmc_positions_def)
  have cell: "mq_buffer q ! (?t mod ?c) = mpmc_cell q ?t" by (simp add: mpmc_cell_mod [OF inv])
  show ?thesis
  proof (cases "?t < ?h + ?c")
    case False
    then have t: "?t = ?h + ?c" using i(4) by simp
    have "mpmc_cell q ?t = mpmc_cell q ?h" unfolding mpmc_cell_mod [OF inv] t by simp
    moreover have "?h < ?t" using t i(2) by linarith
    ultimately have seq: "cl_seq (mq_buffer q ! ring_slot (mq_mask q) (mq_tail q)) = of_nat (Suc ?h)"
      using i(6) [of ?h] slot cell by simp
    have "diff64 (of_nat (Suc ?h)) (of_nat ?t) = Inr (int (Suc ?h) - int ?t)"
      using i(2,5) t by (intro diff64_small) linarith+
    then have d: "diff64 (cl_seq (mq_buffer q ! ring_slot (mq_mask q) (mq_tail q))) (mq_tail q) = Inr (int (Suc ?h) - int ?t)"
      unfolding seq by simp
    have "mpmc_claim_tail (Suc (length weak)) weak q (mq_tail q) = Inr (None, q)"
      using mpmc_claim_tail_result [OF _ d] slot slot_lt t i(2) by simp
    with len t show ?thesis by (simp add: mpmc_enqueue_def)
  next
    case True
    have "cl_seq (mpmc_cell q ?t) = of_nat ?t" using i(7) [of ?t] True by simp
    moreover have "diff64 (of_nat ?t) (of_nat ?t) = Inr (int ?t - int ?t)"
      using i(5) by (intro diff64_small) linarith+
    ultimately have claim: "mpmc_claim_tail (Suc (length weak)) weak q (mq_tail q) = Inr (Some (mq_tail q), q\<lparr>mq_tail := mq_tail q + 1\<rparr>)"
      using mpmc_claim_tail_result [of q 0 weak] slot slot_lt cell by simp
    let ?q' = "q\<lparr>mq_tail := mq_tail q + 1, mq_buffer := (mq_buffer q)[?t mod ?c := \<lparr>cl_seq = mq_tail q + 1, cl_data = Some x\<rparr>]\<rparr>"
    have run: "mpmc_enqueue weak q x = Inr (True, ?q')" using claim slot by (simp add: mpmc_enqueue_def)
    have t': "unat (mq_tail q + 1) = Suc ?t"
      using i(5) distance_Suc [of "mq_tail q" 0] by simp
    have at: "mpmc_cell ?q' p = (if p mod ?c = ?t mod ?c then \<lparr>cl_seq = mq_tail q + 1, cl_data = Some x\<rparr> else mpmc_cell q p)" for p
      using k(1) slot_lt by (auto simp: mpmc_cell_def mpmc_slot nth_list_update)
    have other: "mpmc_cell ?q' p = mpmc_cell q p" if "?h \<le> p" "p < ?h + ?c" "p \<noteq> ?t" for p
      using position_apart [of p ?t ?c] position_apart [of ?t p ?c] that True i(3) at [of p] by (cases "p < ?t") auto
    have new: "mpmc_cell ?q' ?t = \<lparr>cl_seq = mq_tail q + 1, cl_data = Some x\<rparr>" by (simp add: at)
    have "mpmc_inv n ?q'"
      unfolding mpmc_inv_def Let_def
    proof (intro conjI allI impI)
      fix p assume p: "unat (mq_head ?q') \<le> p \<and> p < unat (mq_tail ?q')"
      then show "cl_seq (mpmc_cell ?q' p) = of_nat (Suc p)" "cl_data (mpmc_cell ?q' p) \<noteq> None"
        using other [of p] i(6) [of p] new True t' by (cases "p = ?t"; simp)+
    next
      fix p assume "unat (mq_tail ?q') \<le> p \<and> p < unat (mq_head ?q') + length (mq_buffer ?q')"
      then show "cl_seq (mpmc_cell ?q' p) = of_nat p" using other [of p] i(3) i(7) [of p] t' by simp
    qed (use k i(2-5) True t' in auto)
    moreover have "mpmc_list ?q' = mpmc_list q @ [x]"
      using i(3) t' other new True by (auto simp: mpmc_list_def mpmc_positions_def)
    ultimately show ?thesis using run len True i(3) by auto
  qed
qed

lemma mpmc_dequeue_spec:
  assumes inv: "mpmc_inv (Suc n) q"
  shows "case mpmc_list q of [] \<Rightarrow> mpmc_dequeue weak q = Inr (None, q)
    | x # xs \<Rightarrow> \<exists>q'. mpmc_dequeue weak q = Inr (Some x, q') \<and> mpmc_inv n q' \<and> mpmc_list q' = xs \<and>
        length (mq_buffer q') = length (mq_buffer q)"
proof -
  let ?h = "unat (mq_head q)" and ?t = "unat (mq_tail q)" and ?c = "length (mq_buffer q)"
  note i = mpmc_invD [OF inv]
  obtain k where k: "ring_shape k (mq_mask q) ?c" "mq_capacity q = 2 ^ k" using i(1) by blast
  have slot: "ring_slot (mq_mask q) (mq_head q) = ?h mod ?c" using mpmc_slot [OF k(1), of ?h] by simp
  have slot_lt: "?h mod ?c < ?c" using i(2) by (intro mod_less_divisor) linarith
  have cell: "mq_buffer q ! (?h mod ?c) = mpmc_cell q ?h" by (simp add: mpmc_cell_mod [OF inv])
  have next_pos: "mq_head q + 1 = of_nat (Suc ?h)" by (simp add: add.commute)
  show ?thesis
  proof (cases "?h < ?t")
    case False
    then have t: "?t = ?h" using i(3) by simp
    have "?t \<le> ?h" "?h < ?h + ?c" using t i(2) by linarith+
    then have "cl_seq (mpmc_cell q ?h) = of_nat ?h" by (rule i(7))
    moreover have "diff64 (of_nat ?h) (of_nat (Suc ?h)) = Inr (int ?h - int (Suc ?h))"
      using i(2,5) t by (intro diff64_small) linarith+
    ultimately have "mpmc_claim_head (Suc (length weak)) weak q (mq_head q) = Inr (None, q)"
      using mpmc_claim_head_result [of q "-1" weak] slot slot_lt cell next_pos by simp
    with t show ?thesis by (simp add: mpmc_dequeue_def mpmc_list_def mpmc_positions_def)
  next
    case True
    obtain x where x: "cl_seq (mpmc_cell q ?h) = of_nat (Suc ?h)" "cl_data (mpmc_cell q ?h) = Some x"
      using i(6) [of ?h] True by auto
    have "diff64 (of_nat (Suc ?h)) (of_nat (Suc ?h)) = Inr (int (Suc ?h) - int (Suc ?h))"
      using i(5) True by (intro diff64_small) linarith+
    then have claim: "mpmc_claim_head (Suc (length weak)) weak q (mq_head q) = Inr (Some (mq_head q), q\<lparr>mq_head := mq_head q + 1\<rparr>)"
      using mpmc_claim_head_result [of q 0 weak] slot slot_lt cell x(1) next_pos by simp
    let ?f = "(mpmc_cell q ?h)\<lparr>cl_seq := mq_head q + mq_capacity q\<rparr>"
    let ?q' = "q\<lparr>mq_head := mq_head q + 1, mq_buffer := (mq_buffer q)[?h mod ?c := ?f]\<rparr>"
    have run: "mpmc_dequeue weak q = Inr (Some x, ?q')" using claim slot cell x(2) by (simp add: mpmc_dequeue_def Let_def)
    have h': "unat (mq_head q + 1) = Suc ?h"
      using i(3,5) distance_Suc [of "mq_head q" 0] by simp
    have at: "mpmc_cell ?q' p = (if p mod ?c = ?h mod ?c then ?f else mpmc_cell q p)" for p
      using k(1) slot_lt by (auto simp: mpmc_cell_def mpmc_slot nth_list_update)
    have other: "mpmc_cell ?q' p = mpmc_cell q p" if "?h < p" "p < ?h + ?c" for p
      using position_apart [of ?h p ?c] that at [of p] by auto
    have "mq_head q + mq_capacity q = of_nat (?h + ?c)" using k by (simp add: ring_shape_def)
    moreover have "mpmc_cell ?q' (?h + ?c) = ?f" by (simp add: at)
    ultimately have new: "cl_seq (mpmc_cell ?q' (?h + ?c)) = of_nat (?h + ?c)" by simp
    have "mpmc_inv n ?q'"
      unfolding mpmc_inv_def Let_def
    proof (intro conjI allI impI)
      fix p assume p: "unat (mq_head ?q') \<le> p \<and> p < unat (mq_tail ?q')"
      then show "cl_seq (mpmc_cell ?q' p) = of_nat (Suc p)" "cl_data (mpmc_cell ?q' p) \<noteq> None"
        using other [of p] i(6) [of p] i(4) h' by simp_all
    next
      fix p assume p: "unat (mq_tail ?q') \<le> p \<and> p < unat (mq_head ?q') + length (mq_buffer ?q')"
      show "cl_seq (mpmc_cell ?q' p) = of_nat p"
      proof (cases "p = ?h + ?c")
        case True
        then show ?thesis using new by simp
      next
        case False
        then show ?thesis using p other [of p] i(7) [of p] True h' by simp
      qed
    qed (use k i(2-5) True h' in auto)
    moreover have "mpmc_list q = x # mpmc_list ?q'"
      using mpmc_list_Cons [OF inv True] x(2) h' other i(4) by (auto simp: mpmc_list_def [of ?q'] mpmc_positions_def)
    ultimately show ?thesis using run by simp
  qed
qed

lemma mpmc_inv_weaken: "mpmc_inv (Suc n) q \<Longrightarrow> mpmc_inv n q"
  by (auto simp: mpmc_inv_def Let_def)

interpretation mpq: bounded_queue "mpmc_ops ew dw" mpmc_inv mpmc_list "\<lambda>q. length (mq_buffer q)"
  for ew dw :: "bool list"
proof (unfold_locales, goal_cases)
  case (1 n q x)
  with mpmc_enqueue_spec [OF 1, of ew x] mpmc_inv_weaken [OF 1] show ?case by (auto simp: mpmc_ops_def split: if_splits)
next
  case (2 n q x xs)
  with mpmc_dequeue_spec [OF 2(1), of dw] show ?case by (auto simp: mpmc_ops_def)
next
  case (3 n q)
  with mpmc_dequeue_spec [OF 3(1), of dw] mpmc_inv_weaken [OF 3(1)] show ?case by (simp add: mpmc_ops_def)
next
  case (4 n q)
  note i = mpmc_invD(3,4) [OF 4]
  then show ?case by (simp add: mpmc_list_def mpmc_positions_def)
next
  case (5 n q x ok q')
  with mpmc_enqueue_spec [OF 5(1), of ew x] show ?case by (auto simp: mpmc_ops_def split: if_splits)
next
  case (6 n q r q')
  with mpmc_dequeue_spec [OF 6(1), of dw] show ?case by (auto simp: mpmc_ops_def split: list.splits)
qed

lemma mpmc_init_Inr:
  assumes init: "mpmc_init c = Inr q" and "2 \<le> c" and "2 * unat c + n < 2 ^ 63"
  shows "mpmc_inv n q \<and> mpmc_list q = []"
proof -
  have c: "c \<noteq> 0 \<and> c AND (c - 1) = 0" and q: "q = \<lparr>mq_buffer = map (\<lambda>i. \<lparr>cl_seq = of_nat i, cl_data = None\<rparr>) [0..<unat c],
       mq_head = 0, mq_tail = 0, mq_capacity = c, mq_mask = c - 1\<rparr>"
    using init by (auto simp: mpmc_init_def split: if_splits)
  obtain k where k: "k < 64" "c = 2 ^ k" using c pow2_test_iff [of c] by blast
  have shape: "ring_shape k (mq_mask q) (unat c)" by (simp add: q ring_shape_def k unat_2p)
  have "2 \<le> unat c" using assms(2) by (simp add: word_le_nat_alt)
  moreover have "mpmc_cell q p = \<lparr>cl_seq = of_nat p, cl_data = None\<rparr>" if "p < unat c" for p
    using that mpmc_slot [OF shape, of p] by (simp add: mpmc_cell_def q)
  ultimately show ?thesis using shape k assms(3)
    unfolding mpmc_inv_def mpmc_list_def mpmc_positions_def Let_def by (auto simp: q)
qed

text \<open>
  C10: A \<^verbatim>\<open>CustomMPMCLockFreeQueue\<close> made for \<open>c\<close> slots, two or more, used by one thread at a time, is
  a bounded FIFO queue whatever spurious failures \<open>compare_exchange_weak\<close> has: over any sequence
  of calls every answer is that of a list of at most \<open>c\<close> elements. An element is taken exactly
  when fewer than \<open>c\<close> are stored, and goes last; \<open>dequeue\<close> delivers the oldest element, null exactly
  when nothing is stored. The loops end, and no signed overflow and no access outside the buffer
  happens, for as many calls as keep the tail below \<open>2 ^ 63\<close> by the capacity.
\<close>

theorem mpmc_refines_bounded_fifo:
  assumes "mpmc_init c = Inr q" and "2 \<le> c" and "2 * unat c + length cs < 2 ^ 63"
  shows "\<exists>q'. queue_answers (mpmc_ops ew dw) cs q = Inr (fst (bounded_answers (unat c) cs []), q') \<and>
    mpmc_list q' = snd (bounded_answers (unat c) cs []) \<and>
    (\<exists>ins outs. queue_calls (mpmc_ops ew dw) cs q = Inr (ins, outs, q') \<and> ins = outs @ mpmc_list q') \<and>
    length (mpmc_list q') \<le> unat c"
proof -
  have q: "length (mq_buffer q) = unat c" using assms(1) by (auto simp: mpmc_init_def split: if_splits)
  have i: "mpmc_inv (length cs + 0) q" "mpmc_list q = []" using mpmc_init_Inr [OF assms(1,2)] assms(3) by auto
  obtain q' where a: "queue_answers (mpmc_ops ew dw) cs q = Inr (fst (bounded_answers (unat c) cs []), q')"
    "mpmc_inv 0 q'" "length (mq_buffer q') = unat c" "mpmc_list q' = snd (bounded_answers (unat c) cs [])"
    using mpq.answers_exact [OF i(1), of ew dw] unfolding q i(2) by blast
  obtain ins outs q2 where r: "queue_calls (mpmc_ops ew dw) cs q = Inr (ins, outs, q2)"
    "mpmc_list q @ ins = outs @ mpmc_list q2"
    using mpq.calls_fifo [OF i(1), of ew dw] by blast
  with queue_calls_answers [OF a(1)] have "q2 = q'" by simp
  with r a i(2) mpq.never_over [OF a(2)] show ?thesis by auto
qed

text \<open>A queue of two, with spurious failures: the third element is rejected, then both are delivered.\<close>

lemma mpmc_refines_bounded_fifo_witness:
  "\<exists>q'. res_bind (mpmc_init 2) (queue_answers (mpmc_ops [False, True] [False])
      [Dequeue, Enqueue (5 :: nat), Enqueue 6, Enqueue 7, Dequeue, Dequeue, Dequeue, Enqueue 8])
    = Inr ([Gave None, Took True, Took True, Took False, Gave (Some 5), Gave (Some 6), Gave None, Took True], q') \<and>
    mpmc_list q' = [8]"
proof -
  obtain q :: "nat mpmc" where q: "mpmc_init 2 = Inr q" by (simp add: mpmc_init_def)
  from mpmc_refines_bounded_fifo [OF q, of "[Dequeue, Enqueue 5, Enqueue 6, Enqueue 7, Dequeue, Dequeue, Dequeue, Enqueue 8]"
      "[False, True]" "[False]"]
  show ?thesis unfolding q res_bind.simps by auto
qed

text \<open>
  A capacity of 1 passes the power-of-two test but breaks the protocol: the second
  \<open>enqueue\<close> overwrites the first element instead of being rejected, and then \<open>dequeue\<close> never
  returns, however many rounds its loop makes.
\<close>

lemma mpmc_capacity_one:
  "\<exists>q0 q1 q2. mpmc_init 1 = Inr q0 \<and> mpmc_enqueue [] q0 (1 :: nat) = Inr (True, q1) \<and>
    mpmc_enqueue [] q1 2 = Inr (True, q2) \<and> map cl_data (mq_buffer q2) = [Some 2] \<and>
    (\<forall>fuel. mpmc_claim_head fuel [] q2 (mq_head q2) = Inl Diverges)"
proof -
  let ?q = "\<lambda>s (d :: nat option) t. \<lparr>mq_buffer = [\<lparr>cl_seq = s, cl_data = d\<rparr>], mq_head = 0, mq_tail = t, mq_capacity = 1, mq_mask = 0\<rparr>"
  have d: "diff64 0 0 = Inr 0" "diff64 1 1 = Inr 0" "diff64 2 1 = Inr 1" by (simp_all add: diff64_def Let_def)
  have "mpmc_init 1 = Inr (?q 0 None 0)" by (simp add: mpmc_init_def)
  moreover have "mpmc_enqueue [] (?q 0 None 0) 1 = Inr (True, ?q 1 (Some 1) 1)"
    by (simp add: mpmc_enqueue_def mpmc_claim_tail.simps ring_slot_def d)
  moreover have "mpmc_enqueue [] (?q 1 (Some 1) 1) 2 = Inr (True, ?q 2 (Some 2) 2)"
    by (simp add: mpmc_enqueue_def mpmc_claim_tail.simps ring_slot_def d)
  moreover have "mpmc_claim_head fuel [] (?q 2 (Some 2) 2) 0 = Inl Diverges" for fuel
    by (induction fuel) (simp_all add: mpmc_claim_head.simps ring_slot_def d)
  ultimately show ?thesis
    by (intro exI [of _ "?q 0 None 0"] exI [of _ "?q 1 (Some 1) 1"] exI [of _ "?q 2 (Some 2) 2"]) simp
qed

end
