(* ===== verification/MpmcConcurrent.thy ===== *)
theory MpmcConcurrent
  imports MpmcQueue
begin

text \<open>
  Any number of producers and consumers of a \<^verbatim>\<open>CustomMPMCLockFreeQueue\<close>, interleaved at their
  accesses to the counters and the cells in a single total order.
\<close>

section \<open>Step machine\<close>

text \<open>
  Where a thread is: idle, or in \<open>enqueue\<close> (\<open>E\<close>) or \<open>dequeue\<close> (\<open>D\<close>) with the position it has
  loaded, the sequence number it has loaded too, the position it has claimed, or after the write or
  the read of the data and before the store of the sequence number.
\<close>

datatype 'a mc_pc = M_Idle
  | E_Pos 'a u64 | E_Seq 'a u64 u64 | E_Claimed 'a u64 | E_Written 'a u64
  | D_Pos u64 | D_Seq u64 u64 | D_Claimed u64 | D_Read u64 "'a option"

text \<open>
  \<open>mc_ins\<close> records the elements in the order in which their positions were claimed, \<open>mc_outs\<close> what
  the thread that claimed a position in \<open>dequeue\<close> read there and returns.
\<close>

record 'a mc_sys =
  mc_q :: "'a mpmc"
  mc_pc :: "nat \<Rightarrow> 'a mc_pc"
  mc_ins :: "'a list"
  mc_outs :: "nat \<rightharpoonup> 'a option"

definition mc_start :: "'a mpmc \<Rightarrow> 'a mc_sys" where
  "mc_start q = \<lparr>mc_q = q, mc_pc = (\<lambda>_. M_Idle), mc_ins = [], mc_outs = Map.empty\<rparr>"

definition goto :: "nat \<Rightarrow> 'a mc_pc \<Rightarrow> 'a mc_sys \<Rightarrow> 'a mc_sys" where
  "goto i pc s = s\<lparr>mc_pc := (mc_pc s)(i := pc)\<rparr>"

definition cell_at :: "'a mpmc \<Rightarrow> u64 \<Rightarrow> 'a cell" where
  "cell_at q p = mq_buffer q ! ring_slot (mq_mask q) p"

definition set_cell :: "'a mpmc \<Rightarrow> u64 \<Rightarrow> 'a cell \<Rightarrow> 'a mpmc" where
  "set_cell q p c = q\<lparr>mq_buffer := (mq_buffer q)[ring_slot (mq_mask q) p := c]\<rparr>"

text \<open>
  A failed \<open>compare_exchange_weak\<close>, spurious or not, loads the counter into \<open>pos\<close>, like the last
  branch of the loop.
\<close>

inductive mc_step :: "'a mc_sys \<Rightarrow> 'a mc_sys \<Rightarrow> bool" where
  enq_load: "mc_pc s i = M_Idle \<Longrightarrow> mc_step s (goto i (E_Pos x (mq_tail (mc_q s))) s)"
| enq_seq: "mc_pc s i = E_Pos x p \<Longrightarrow> mc_step s (goto i (E_Seq x p (cl_seq (cell_at (mc_q s) p))) s)"
| enq_claim: "mc_pc s i = E_Seq x p n \<Longrightarrow> diff64 n p = Inr 0 \<Longrightarrow> mq_tail (mc_q s) = p \<Longrightarrow>
    mc_step s (goto i (E_Claimed x p) (s\<lparr>mc_q := (mc_q s)\<lparr>mq_tail := p + 1\<rparr>, mc_ins := mc_ins s @ [x]\<rparr>))"
| enq_lost: "mc_pc s i = E_Seq x p n \<Longrightarrow> diff64 n p = Inr 0 \<Longrightarrow> mc_step s (goto i (E_Pos x (mq_tail (mc_q s))) s)"
| enq_full: "mc_pc s i = E_Seq x p n \<Longrightarrow> diff64 n p = Inr d \<Longrightarrow> d < 0 \<Longrightarrow> mc_step s (goto i M_Idle s)"
| enq_again: "mc_pc s i = E_Seq x p n \<Longrightarrow> diff64 n p = Inr d \<Longrightarrow> 0 < d \<Longrightarrow>
    mc_step s (goto i (E_Pos x (mq_tail (mc_q s))) s)"
| enq_write: "mc_pc s i = E_Claimed x p \<Longrightarrow>
    mc_step s (goto i (E_Written x p) (s\<lparr>mc_q := set_cell (mc_q s) p ((cell_at (mc_q s) p)\<lparr>cl_data := Some x\<rparr>)\<rparr>))"
| enq_publish: "mc_pc s i = E_Written x p \<Longrightarrow>
    mc_step s (goto i M_Idle (s\<lparr>mc_q := set_cell (mc_q s) p ((cell_at (mc_q s) p)\<lparr>cl_seq := p + 1\<rparr>)\<rparr>))"
| deq_load: "mc_pc s i = M_Idle \<Longrightarrow> mc_step s (goto i (D_Pos (mq_head (mc_q s))) s)"
| deq_seq: "mc_pc s i = D_Pos p \<Longrightarrow> mc_step s (goto i (D_Seq p (cl_seq (cell_at (mc_q s) p))) s)"
| deq_claim: "mc_pc s i = D_Seq p n \<Longrightarrow> diff64 n (p + 1) = Inr 0 \<Longrightarrow> mq_head (mc_q s) = p \<Longrightarrow>
    mc_step s (goto i (D_Claimed p) (s\<lparr>mc_q := (mc_q s)\<lparr>mq_head := p + 1\<rparr>\<rparr>))"
| deq_lost: "mc_pc s i = D_Seq p n \<Longrightarrow> diff64 n (p + 1) = Inr 0 \<Longrightarrow> mc_step s (goto i (D_Pos (mq_head (mc_q s))) s)"
| deq_empty: "mc_pc s i = D_Seq p n \<Longrightarrow> diff64 n (p + 1) = Inr d \<Longrightarrow> d < 0 \<Longrightarrow> mc_step s (goto i M_Idle s)"
| deq_again: "mc_pc s i = D_Seq p n \<Longrightarrow> diff64 n (p + 1) = Inr d \<Longrightarrow> 0 < d \<Longrightarrow>
    mc_step s (goto i (D_Pos (mq_head (mc_q s))) s)"
| deq_read: "mc_pc s i = D_Claimed p \<Longrightarrow>
    mc_step s (goto i (D_Read p (cl_data (cell_at (mc_q s) p))) (s\<lparr>mc_outs := (mc_outs s)(unat p \<mapsto> cl_data (cell_at (mc_q s) p))\<rparr>))"
| deq_release: "mc_pc s i = D_Read p v \<Longrightarrow>
    mc_step s (goto i M_Idle (s\<lparr>mc_q := set_cell (mc_q s) p ((cell_at (mc_q s) p)\<lparr>cl_seq := p + mq_capacity (mc_q s)\<rparr>)\<rparr>))"

text \<open>A thread whose next access is undefined: out of the buffer, or an overflow of the difference.\<close>

definition mc_faulty :: "'a mc_sys \<Rightarrow> nat \<Rightarrow> bool" where
  "mc_faulty s i \<longleftrightarrow> (let q = mc_q s; bad = (\<lambda>p. length (mq_buffer q) \<le> ring_slot (mq_mask q) p) in
    case mc_pc s i of M_Idle \<Rightarrow> False
      | E_Pos x p \<Rightarrow> bad p | E_Seq x p n \<Rightarrow> \<not> returns (diff64 n p) | E_Claimed x p \<Rightarrow> bad p | E_Written x p \<Rightarrow> bad p
      | D_Pos p \<Rightarrow> bad p | D_Seq p n \<Rightarrow> \<not> returns (diff64 n (p + 1)) | D_Claimed p \<Rightarrow> bad p | D_Read p v \<Rightarrow> bad p)"

section \<open>Invariant\<close>

text \<open>The positions that are being written and read.\<close>

fun enq_pos :: "'a mc_pc \<Rightarrow> u64 option" where
  "enq_pos (E_Claimed x p) = Some p"
| "enq_pos (E_Written x p) = Some p"
| "enq_pos _ = None"

fun deq_pos :: "'a mc_pc \<Rightarrow> u64 option" where
  "deq_pos (D_Claimed p) = Some p"
| "deq_pos (D_Read p v) = Some p"
| "deq_pos _ = None"

definition claimed :: "('a mc_pc \<Rightarrow> u64 option) \<Rightarrow> (nat \<Rightarrow> 'a mc_pc) \<Rightarrow> nat set" where
  "claimed f pcs = {n. \<exists>i p. f (pcs i) = Some p \<and> n = unat p}"

definition apart :: "('a mc_pc \<Rightarrow> u64 option) \<Rightarrow> (nat \<Rightarrow> 'a mc_pc) \<Rightarrow> bool" where
  "apart f pcs \<longleftrightarrow> (\<forall>i j p. f (pcs i) = Some p \<longrightarrow> f (pcs j) = Some p \<longrightarrow> i = j)"

abbreviation hd_of :: "'a mpmc \<Rightarrow> nat" where "hd_of q \<equiv> unat (mq_head q)"
abbreviation tl_of :: "'a mpmc \<Rightarrow> nat" where "tl_of q \<equiv> unat (mq_tail q)"
abbreviation cap_of :: "'a mpmc \<Rightarrow> nat" where "cap_of q \<equiv> length (mq_buffer q)"

text \<open>
  The claimed positions from head to tail are being written or hold their element; the positions
  behind them, up to a ring from head, are free or their cell is still being read.
\<close>

definition mc_shape :: "'a mpmc \<Rightarrow> 'a list \<Rightarrow> nat set \<Rightarrow> nat set \<Rightarrow> bool" where
  "mc_shape q ins W R \<longleftrightarrow> (\<exists>k. ring_shape k (mq_mask q) (cap_of q) \<and> mq_capacity q = 2 ^ k) \<and> 2 \<le> cap_of q \<and>
    hd_of q \<le> tl_of q \<and> tl_of q \<le> hd_of q + cap_of q \<and> tl_of q + cap_of q < 2 ^ 63 \<and> length ins = tl_of q \<and>
    (\<forall>p \<in> W. hd_of q \<le> p \<and> p < tl_of q) \<and> (\<forall>p \<in> R. p < hd_of q \<and> tl_of q \<le> p + cap_of q)"

definition mc_cells :: "'a mpmc \<Rightarrow> 'a list \<Rightarrow> nat set \<Rightarrow> nat set \<Rightarrow> bool" where
  "mc_cells q ins W R \<longleftrightarrow>
    (\<forall>p. hd_of q \<le> p \<longrightarrow> p < tl_of q \<longrightarrow> unat (cl_seq (mpmc_cell q p)) = (if p \<in> W then p else Suc p) \<and>
      (p \<notin> W \<longrightarrow> cl_data (mpmc_cell q p) = Some (ins ! p))) \<and>
    (\<forall>p. tl_of q \<le> p \<longrightarrow> p < hd_of q + cap_of q \<longrightarrow>
      unat (cl_seq (mpmc_cell q p)) = (if cap_of q \<le> p \<and> p - cap_of q \<in> R then Suc (p - cap_of q) else p))"

text \<open>
  What a thread knows. A sequence number that shows its position free (or published) still tells
  the truth if the counter has not moved.
\<close>

definition pc_ok :: "'a mpmc \<Rightarrow> 'a list \<Rightarrow> nat set \<Rightarrow> nat set \<Rightarrow> 'a mc_pc \<Rightarrow> bool" where
  "pc_ok q ins W R pc \<longleftrightarrow> (case pc of M_Idle \<Rightarrow> True
    | E_Pos x p \<Rightarrow> unat p \<le> tl_of q
    | E_Seq x p n \<Rightarrow> unat p \<le> tl_of q \<and> unat n < 2 ^ 63 \<and> (n = p \<longrightarrow> unat p = tl_of q \<longrightarrow>
        tl_of q < hd_of q + cap_of q \<and> \<not> (cap_of q \<le> tl_of q \<and> tl_of q - cap_of q \<in> R))
    | E_Claimed x p \<Rightarrow> unat p \<in> W \<and> ins ! unat p = x
    | E_Written x p \<Rightarrow> unat p \<in> W \<and> ins ! unat p = x \<and> cl_data (mpmc_cell q (unat p)) = Some x
    | D_Pos p \<Rightarrow> unat p \<le> hd_of q
    | D_Seq p n \<Rightarrow> unat p \<le> hd_of q \<and> unat n < 2 ^ 63 \<and> (n = p + 1 \<longrightarrow> unat p = hd_of q \<longrightarrow>
        hd_of q < tl_of q \<and> hd_of q \<notin> W)
    | D_Claimed p \<Rightarrow> unat p \<in> R \<and> cl_data (mpmc_cell q (unat p)) = Some (ins ! unat p)
    | D_Read p v \<Rightarrow> unat p \<in> R \<and> v = Some (ins ! unat p))"

definition mc_results :: "'a mc_sys \<Rightarrow> bool" where
  "mc_results s \<longleftrightarrow> (\<forall>p v. mc_outs s p = Some v \<longrightarrow> p < hd_of (mc_q s) \<and> v = Some (mc_ins s ! p)) \<and>
    (\<forall>p < hd_of (mc_q s). mc_outs s p = None \<longrightarrow> (\<exists>i. mc_pc s i = D_Claimed (of_nat p)))"

definition mc_inv :: "'a mc_sys \<Rightarrow> bool" where
  "mc_inv s \<longleftrightarrow> (let W = claimed enq_pos (mc_pc s); R = claimed deq_pos (mc_pc s) in
    mc_shape (mc_q s) (mc_ins s) W R \<and> mc_cells (mc_q s) (mc_ins s) W R \<and>
    (\<forall>i. pc_ok (mc_q s) (mc_ins s) W R (mc_pc s i)) \<and> 
    apart enq_pos (mc_pc s) \<and> apart deq_pos (mc_pc s) \<and> mc_results s)"

subsection \<open>The positions in use when one thread moves\<close>

lemma claimedI: "f (pcs i) = Some p \<Longrightarrow> unat p \<in> claimed f pcs"
  by (auto simp: claimed_def)

lemma claimed_same: "f pc = f (pcs i) \<Longrightarrow> claimed f (pcs(i := pc)) = claimed f pcs"
  by (auto simp: claimed_def split: if_splits)

lemma claimed_enter:
  assumes "f (pcs i) = None" and "f pc = Some p"
  shows "claimed f (pcs(i := pc)) = insert (unat p) (claimed f pcs)"
proof -
  have "n \<in> claimed f (pcs(i := pc)) \<longleftrightarrow> n = unat p \<or> n \<in> claimed f pcs" for n
  proof
    assume "n \<in> claimed f (pcs(i := pc))"
    then show "n = unat p \<or> n \<in> claimed f pcs" using assms(2) by (auto simp: claimed_def split: if_splits)
  next
    assume "n = unat p \<or> n \<in> claimed f pcs"
    then show "n \<in> claimed f (pcs(i := pc))"
    proof
      assume "n \<in> claimed f pcs"
      then obtain j p' where "f (pcs j) = Some p'" "n = unat p'" by (auto simp: claimed_def)
      moreover from this have "j \<noteq> i" using assms(1) by auto
      ultimately show ?thesis unfolding claimed_def by (intro CollectI exI [of _ j] exI [of _ p']) simp
    qed (use assms(2) in \<open>auto simp: claimed_def\<close>)
  qed
  then show ?thesis by blast
qed

lemma claimed_leave:
  assumes "apart f pcs" and "f (pcs i) = Some p" and "f pc = None"
  shows "claimed f (pcs(i := pc)) = claimed f pcs - {unat p}"
proof -
  have eq: "j = i" if "f (pcs j) = Some p'" "unat p' = unat p" for j p'
  proof -
    have "p' = p" using that(2) by (rule word_unat_eq_iff [THEN iffD2])
    with assms(1,2) that(1) show ?thesis unfolding apart_def by blast
  qed
  have "n \<in> claimed f (pcs(i := pc)) \<longleftrightarrow> n \<noteq> unat p \<and> n \<in> claimed f pcs" for n
  proof
    assume "n \<in> claimed f (pcs(i := pc))"
    then obtain j p' where j: "j \<noteq> i" "f (pcs j) = Some p'" "n = unat p'"
      using assms(3) by (auto simp: claimed_def split: if_splits)
    with eq [of j p'] show "n \<noteq> unat p \<and> n \<in> claimed f pcs" by (auto simp: claimed_def)
  next
    assume n: "n \<noteq> unat p \<and> n \<in> claimed f pcs"
    then obtain j p' where j: "f (pcs j) = Some p'" "n = unat p'" by (auto simp: claimed_def)
    with n assms(2) have "j \<noteq> i" by auto
    with j show "n \<in> claimed f (pcs(i := pc))"
      unfolding claimed_def by (intro CollectI exI [of _ j] exI [of _ p']) simp
  qed
  then show ?thesis by blast
qed

lemma apart_upd:
  assumes "apart f pcs" and "\<And>p. f pc = Some p \<Longrightarrow> f (pcs i) = Some p \<or> unat p \<notin> claimed f pcs"
  shows "apart f (pcs(i := pc))"
  unfolding apart_def
proof (intro allI impI)
  fix j k p assume jk: "f ((pcs(i := pc)) j) = Some p" "f ((pcs(i := pc)) k) = Some p"
  have other: "l = i" if "f pc = Some p" "f (pcs l) = Some p" for l
    using assms(2) [OF that(1)] claimedI [of f pcs l p, OF that(2)] assms(1) that(2) unfolding apart_def by blast
  show "j = k"
  proof (cases "j = i")
    case True
    with jk other [of k] show ?thesis by (cases "k = i") simp_all
  next
    case False
    with jk other [of j] assms(1) show ?thesis unfolding apart_def by (cases "k = i") auto
  qed
qed

subsection \<open>Cells and positions\<close>

lemma unat_of_nat_small: "n < 2 ^ 63 \<Longrightarrow> unat (of_nat n :: u64) = n"
  by (rule unat_of_nat_u64) simp

lemma diff64_0: "diff64 a b = Inr 0 \<longleftrightarrow> a = b"
  by (auto simp: diff64_def Let_def intro: signed_word_eqI)

lemma mc_shapeD:
  assumes "mc_shape q ins W R"
  obtains k where "ring_shape k (mq_mask q) (cap_of q)" "mq_capacity q = 2 ^ k" "2 \<le> cap_of q"
    "hd_of q \<le> tl_of q" "tl_of q \<le> hd_of q + cap_of q" "tl_of q + cap_of q < 2 ^ 63" "length ins = tl_of q"
    "\<And>p. p \<in> W \<Longrightarrow> hd_of q \<le> p \<and> p < tl_of q" "\<And>p. p \<in> R \<Longrightarrow> p < hd_of q \<and> tl_of q \<le> p + cap_of q"
  using assms unfolding mc_shape_def by blast

lemma cell_at_position: "cell_at q p = mpmc_cell q (unat p)"
  by (simp add: cell_at_def mpmc_cell_def)

lemma mpmc_cell_set:
  assumes "ring_shape k (mq_mask q) (cap_of q)"
  shows "mpmc_cell (set_cell q p c) r = (if r mod cap_of q = unat p mod cap_of q then c else mpmc_cell q r)"
proof -
  have "ring_slot (mq_mask q) p = unat p mod cap_of q" using mpmc_slot [OF assms, of "unat p"] by simp
  moreover have "0 < cap_of q" using assms by (simp add: ring_shape_def)
  ultimately show ?thesis using mpmc_slot [OF assms, of r]
    by (simp add: mpmc_cell_def set_cell_def nth_list_update)
qed

lemma set_cell_simps [simp]: "mq_head (set_cell q p c) = mq_head q" "mq_tail (set_cell q p c) = mq_tail q"
  "cap_of (set_cell q p c) = cap_of q" "mq_mask (set_cell q p c) = mq_mask q" "mq_capacity (set_cell q p c) = mq_capacity q"
  by (simp_all add: set_cell_def)

text \<open>Two positions less than a ring apart have different cells.\<close>

lemma same_cell: "p mod n = r mod n \<Longrightarrow> p < r + n \<Longrightarrow> r < p + n \<Longrightarrow> p = r" for n :: nat
  using position_apart [of p r n] position_apart [of r p n] by (cases p r rule: linorder_cases) auto

lemma set_data_seq:
  assumes "ring_shape k (mq_mask q) (cap_of q)"
  shows "cl_seq (mpmc_cell (set_cell q p ((cell_at q p)\<lparr>cl_data := d\<rparr>)) r) = cl_seq (mpmc_cell q r)"
  using mpmc_slot [OF assms, of r] mpmc_slot [OF assms, of "unat p"]
  by (simp add: mpmc_cell_set [OF assms]) (simp add: cell_at_def mpmc_cell_def)

lemma set_seq_data:
  assumes "ring_shape k (mq_mask q) (cap_of q)"
  shows "cl_data (mpmc_cell (set_cell q p ((cell_at q p)\<lparr>cl_seq := n\<rparr>)) r) = cl_data (mpmc_cell q r)"
  using mpmc_slot [OF assms, of r] mpmc_slot [OF assms, of "unat p"]
  by (simp add: mpmc_cell_set [OF assms]) (simp add: cell_at_def mpmc_cell_def)

lemma mpmc_cell_set_other:
  "ring_shape k (mq_mask q) (cap_of q) \<Longrightarrow> r \<noteq> unat p \<Longrightarrow> r < unat p + cap_of q \<Longrightarrow> unat p < r + cap_of q \<Longrightarrow>
    mpmc_cell (set_cell q p c) r = mpmc_cell q r"
  using same_cell [of r "cap_of q" "unat p"] by (auto simp: mpmc_cell_set)

section \<open>Preservation\<close>

lemma mc_invD:
  assumes "mc_inv s"
  shows "mc_shape (mc_q s) (mc_ins s) (claimed enq_pos (mc_pc s)) (claimed deq_pos (mc_pc s))"
    "mc_cells (mc_q s) (mc_ins s) (claimed enq_pos (mc_pc s)) (claimed deq_pos (mc_pc s))"
    "pc_ok (mc_q s) (mc_ins s) (claimed enq_pos (mc_pc s)) (claimed deq_pos (mc_pc s)) (mc_pc s i)"
    "apart enq_pos (mc_pc s)" "apart deq_pos (mc_pc s)" "mc_results s"
  using assms unfolding mc_inv_def Let_def by blast+

text \<open>One thread moves: the others must still know what they know.\<close>

lemma mc_invI:
  fixes s :: "'a mc_sys"
  assumes inv: "mc_inv s" and s': "mc_pc s' = (mc_pc s)(i := pc)"
    and W: "claimed enq_pos ((mc_pc s)(i := pc)) = W" and R: "claimed deq_pos ((mc_pc s)(i := pc)) = R"
    and shape: "mc_shape (mc_q s') (mc_ins s') W R" and cells: "mc_cells (mc_q s') (mc_ins s') W R"
    and mine: "pc_ok (mc_q s') (mc_ins s') W R pc"
    and others: "\<And>j. j \<noteq> i \<Longrightarrow> pc_ok (mc_q s') (mc_ins s') W R (mc_pc s j)"
    and e: "\<And>p. enq_pos pc = Some p \<Longrightarrow> enq_pos (mc_pc s i) = Some p \<or> unat p \<notin> claimed enq_pos (mc_pc s)"
    and d: "\<And>p. deq_pos pc = Some p \<Longrightarrow> deq_pos (mc_pc s i) = Some p \<or> unat p \<notin> claimed deq_pos (mc_pc s)"
    and results: "mc_results s'"
  shows "mc_inv s'"
  unfolding mc_inv_def Let_def s' W R
  using shape cells mine others results apart_upd [OF mc_invD(4) [OF inv] e] apart_upd [OF mc_invD(5) [OF inv] d]
  by simp

lemma mc_resultsD:
  assumes "mc_results s"
  shows "mc_outs s p = Some v \<Longrightarrow> p < hd_of (mc_q s)" "mc_outs s p = Some v \<Longrightarrow> v = Some (mc_ins s ! p)"
    "p < hd_of (mc_q s) \<Longrightarrow> mc_outs s p = None \<Longrightarrow> \<exists>i. mc_pc s i = D_Claimed (of_nat p)"
  using assms unfolding mc_results_def by blast+

lemma mc_results_keep:
  assumes "mc_results s" and pcs: "mc_pc s' = (mc_pc s)(i := pc)" "\<And>p. mc_pc s i \<noteq> D_Claimed p"
    and q: "mq_head (mc_q s') = mq_head (mc_q s)" "mc_outs s' = mc_outs s"
    and ins: "\<And>p. p < hd_of (mc_q s) \<Longrightarrow> mc_ins s' ! p = mc_ins s ! p"
  shows "mc_results s'"
proof -
  have keep: "\<exists>j. mc_pc s' j = D_Claimed p" if "\<exists>j. mc_pc s j = D_Claimed p" for p
  proof -
    from that obtain j where "mc_pc s j = D_Claimed p" by blast
    moreover from this have "j \<noteq> i" using pcs(2) by auto
    ultimately show ?thesis by (intro exI [of _ j]) (simp add: pcs(1))
  qed
  have "p < hd_of (mc_q s) \<and> v = Some (mc_ins s' ! p)" if "mc_outs s p = Some v" for p v
    using that assms(1) ins [of p] unfolding mc_results_def by auto
  with keep assms(1) show ?thesis unfolding mc_results_def q by blast
qed

text \<open>A step that only changes where an unclaimed thread is.\<close>

lemma mc_local:
  assumes inv: "mc_inv s" and pos: "enq_pos pc = None" "deq_pos pc = None" "enq_pos (mc_pc s i) = None" "deq_pos (mc_pc s i) = None"
    and mine: "pc_ok (mc_q s) (mc_ins s) (claimed enq_pos (mc_pc s)) (claimed deq_pos (mc_pc s)) pc"
  shows "mc_inv (goto i pc s)"
proof (rule mc_invI [OF inv, of _ i pc])
  have "mc_pc s i \<noteq> D_Claimed p" for p using pos(4) by auto
  then show "mc_results (goto i pc s)"
    by (intro mc_results_keep [OF mc_invD(6) [OF inv], of _ i pc]) (simp_all add: goto_def)
qed (use mc_invD [OF inv] pos mine in \<open>simp_all add: goto_def claimed_same\<close>)

lemma position_bounds:
  assumes "mc_shape q ins W R"
  shows "tl_of q < 2 ^ 63" "hd_of q < 2 ^ 63" "unat (mq_tail q + 1) = Suc (tl_of q)" "unat (mq_head q + 1) = Suc (hd_of q)"
proof -
  have b: "tl_of q < 2 ^ 63" "hd_of q < 2 ^ 63" using assms by (auto simp: mc_shape_def)
  then show "tl_of q < 2 ^ 63" "hd_of q < 2 ^ 63" .
  have "unat (p + 1) = Suc (unat p)" if "unat p < 2 ^ 63" for p :: u64
    using distance_Suc [of p 0] that by simp
  with b show "unat (mq_tail q + 1) = Suc (tl_of q)" "unat (mq_head q + 1) = Suc (hd_of q)" by blast+
qed

text \<open>What the loads of a sequence number see.\<close>

lemma mpmc_cell_index: "ring_shape k (mq_mask q) (cap_of q) \<Longrightarrow> mpmc_cell q p = mq_buffer q ! (p mod cap_of q)"
  by (simp add: mpmc_cell_def mpmc_slot)

lemma mc_cellsD:
  assumes "mc_cells q ins W R"
  shows "hd_of q \<le> p \<Longrightarrow> p < tl_of q \<Longrightarrow> unat (cl_seq (mpmc_cell q p)) = (if p \<in> W then p else Suc p)"
    and "hd_of q \<le> p \<Longrightarrow> p < tl_of q \<Longrightarrow> p \<notin> W \<Longrightarrow> cl_data (mpmc_cell q p) = Some (ins ! p)"
    and "tl_of q \<le> p \<Longrightarrow> p < hd_of q + cap_of q \<Longrightarrow>
      unat (cl_seq (mpmc_cell q p)) = (if cap_of q \<le> p \<and> p - cap_of q \<in> R then Suc (p - cap_of q) else p)"
  using assms unfolding mc_cells_def by blast+

lemma cell_seq_window:
  assumes shape: "mc_shape q ins W R" and cells: "mc_cells q ins W R" and p: "hd_of q \<le> p" "p < hd_of q + cap_of q"
  shows "unat (cl_seq (mpmc_cell q p)) < 2 ^ 63"
proof (rule mc_shapeD [OF shape])
  assume b: "tl_of q \<le> hd_of q + cap_of q" "tl_of q + cap_of q < 2 ^ 63" "hd_of q \<le> tl_of q" "2 \<le> cap_of q"
  have "unat (cl_seq (mpmc_cell q p)) \<le> Suc p \<and> (p < tl_of q \<or> unat (cl_seq (mpmc_cell q p)) \<le> p)"
    using mc_cellsD(1) [OF cells p(1)] mc_cellsD(3) [OF cells _ p(2)] b(4) by (cases "p < tl_of q") auto
  then show ?thesis using p b by linarith
qed

lemma cell_seq_bound:
  assumes shape: "mc_shape q ins W R" and cells: "mc_cells q ins W R"
  shows "unat (cl_seq (mpmc_cell q p)) < 2 ^ 63"
proof (rule mc_shapeD [OF shape])
  fix k assume k: "ring_shape k (mq_mask q) (cap_of q)" and c: "2 \<le> cap_of q"
  define r where "r = hd_of q + (p + cap_of q - hd_of q mod cap_of q) mod cap_of q"
  have c0: "0 < cap_of q" using c by linarith
  have le: "hd_of q mod cap_of q \<le> p + cap_of q" using mod_less_divisor [OF c0, of "hd_of q"] by linarith
  have "r mod cap_of q = (hd_of q mod cap_of q + (p + cap_of q - hd_of q mod cap_of q)) mod cap_of q"
    unfolding r_def by (simp only: mod_add_left_eq mod_add_right_eq)
  also have "\<dots> = p mod cap_of q" using le by simp
  finally have "mpmc_cell q p = mpmc_cell q r" by (simp only: mpmc_cell_index [OF k])
  moreover have "(p + cap_of q - hd_of q mod cap_of q) mod cap_of q < cap_of q" using c0 by (rule mod_less_divisor)
  then have "hd_of q \<le> r" "r < hd_of q + cap_of q" unfolding r_def by linarith+
  ultimately show ?thesis using cell_seq_window [OF shape cells] by simp
qed

lemma seq_at_tail:
  assumes shape: "mc_shape q ins W R" and cells: "mc_cells q ins W R"
    and s: "cl_seq (mpmc_cell q (tl_of q)) = mq_tail q"
  shows "tl_of q < hd_of q + cap_of q \<and> \<not> (cap_of q \<le> tl_of q \<and> tl_of q - cap_of q \<in> R)"
proof (rule mc_shapeD [OF shape])
  fix k assume k: "ring_shape k (mq_mask q) (cap_of q)"
    and b: "2 \<le> cap_of q" "hd_of q \<le> tl_of q" "tl_of q \<le> hd_of q + cap_of q"
  have s': "unat (cl_seq (mpmc_cell q (tl_of q))) = tl_of q" using s by simp
  have lt: "tl_of q < hd_of q + cap_of q"
  proof (rule ccontr)
    assume "\<not> tl_of q < hd_of q + cap_of q"
    then have t: "tl_of q = hd_of q + cap_of q" using b by linarith
    have "mpmc_cell q (tl_of q) = mpmc_cell q (hd_of q)" unfolding t mpmc_cell_index [OF k] mod_add_self2 ..
    moreover have "hd_of q < tl_of q" using t b by linarith
    ultimately have "tl_of q \<le> Suc (hd_of q)" using mc_cellsD(1) [OF cells order_refl] s' by (simp split: if_splits)
    then show False using t b by linarith
  qed
  moreover have "\<not> (cap_of q \<le> tl_of q \<and> tl_of q - cap_of q \<in> R)"
  proof
    assume c: "cap_of q \<le> tl_of q \<and> tl_of q - cap_of q \<in> R"
    then have "tl_of q = Suc (tl_of q - cap_of q)" using mc_cellsD(3) [OF cells order_refl lt] s' by simp
    then show False using b c by linarith
  qed
  ultimately show ?thesis by blast
qed

lemma seq_at_head:
  assumes shape: "mc_shape q ins W R" and cells: "mc_cells q ins W R"
    and s: "cl_seq (mpmc_cell q (hd_of q)) = mq_head q + 1"
  shows "hd_of q < tl_of q \<and> hd_of q \<notin> W"
proof (rule mc_shapeD [OF shape])
  assume b: "2 \<le> cap_of q" "hd_of q \<le> tl_of q"
  have s': "unat (cl_seq (mpmc_cell q (hd_of q))) = Suc (hd_of q)" using s position_bounds(4) [OF shape] by simp
  have lt: "hd_of q < tl_of q"
  proof (rule ccontr)
    assume "\<not> hd_of q < tl_of q"
    then have t: "tl_of q \<le> hd_of q" "hd_of q < hd_of q + cap_of q" using b by linarith+
    have "Suc (hd_of q) = (if cap_of q \<le> hd_of q \<and> hd_of q - cap_of q \<in> R then Suc (hd_of q - cap_of q) else hd_of q)"
      using mc_cellsD(3) [OF cells t] s' by simp
    then show False using b by (simp split: if_splits)
  qed
  moreover have "hd_of q \<notin> W" using mc_cellsD(1) [OF cells order_refl lt] s' by (auto split: if_splits)
  ultimately show ?thesis by blast
qed

lemma mpmc_cell_counters [simp]: "mpmc_cell (q\<lparr>mq_tail := t\<rparr>) p = mpmc_cell q p" "mpmc_cell (q\<lparr>mq_head := h\<rparr>) p = mpmc_cell q p"
  by (simp_all add: mpmc_cell_def)

lemma inv_enq_claim:
  assumes inv: "mc_inv s" and pc: "mc_pc s i = E_Seq x (mq_tail (mc_q s)) (mq_tail (mc_q s))"
    and room: "Suc (tl_of (mc_q s)) + cap_of (mc_q s) < 2 ^ 63"
  shows "mc_inv (goto i (E_Claimed x (mq_tail (mc_q s)))
    (s\<lparr>mc_q := (mc_q s)\<lparr>mq_tail := mq_tail (mc_q s) + 1\<rparr>, mc_ins := mc_ins s @ [x]\<rparr>))"
proof -
  define q where "q = mc_q s"
  define W where "W = claimed enq_pos (mc_pc s)"
  define R where "R = claimed deq_pos (mc_pc s)"
  let ?ins = "mc_ins s @ [x]" and ?q = "q\<lparr>mq_tail := mq_tail q + 1\<rparr>" and ?W = "insert (tl_of q) W"
  have i: "mc_shape q (mc_ins s) W R" "mc_cells q (mc_ins s) W R" "\<And>j. pc_ok q (mc_ins s) W R (mc_pc s j)" "mc_results s"
    using mc_invD [OF inv] by (simp_all add: q_def W_def R_def)
  obtain k where b: "ring_shape k (mq_mask q) (cap_of q)" "mq_capacity q = 2 ^ k" "2 \<le> cap_of q"
    "hd_of q \<le> tl_of q" "tl_of q \<le> hd_of q + cap_of q" "length (mc_ins s) = tl_of q"
    "\<And>p. p \<in> W \<Longrightarrow> hd_of q \<le> p \<and> p < tl_of q" "\<And>p. p \<in> R \<Longrightarrow> p < hd_of q \<and> tl_of q \<le> p + cap_of q"
    by (rule mc_shapeD [OF i(1)]) blast
  have t: "unat (mq_tail q + 1) = Suc (tl_of q)" by (rule position_bounds [OF i(1)])
  have free: "tl_of q < hd_of q + cap_of q" "\<not> (cap_of q \<le> tl_of q \<and> tl_of q - cap_of q \<in> R)"
    using i(3) [of i] pc by (simp_all add: pc_ok_def q_def)
  have R: "Suc (tl_of q) \<le> p + cap_of q" if "p \<in> R" for p
  proof (rule ccontr)
    assume "\<not> Suc (tl_of q) \<le> p + cap_of q"
    then have "tl_of q = p + cap_of q" using b(8) [OF that] by linarith
    with free(2) that show False by simp
  qed
  have ins: "?ins ! p = mc_ins s ! p" if "p < tl_of q" for p using that b(6) by (simp add: nth_append)
  show ?thesis unfolding q_def [symmetric]
  proof (rule mc_invI [OF inv, of _ i _ ?W R])
    show "claimed enq_pos ((mc_pc s)(i := E_Claimed x (mq_tail q))) = ?W" "claimed deq_pos ((mc_pc s)(i := E_Claimed x (mq_tail q))) = R"
      using pc by (simp_all add: claimed_enter claimed_same W_def R_def)
    show "mc_results (goto i (E_Claimed x (mq_tail q)) (s\<lparr>mc_q := ?q, mc_ins := ?ins\<rparr>))"
      using ins b(4) pc by (intro mc_results_keep [OF i(4), of _ i]) (simp_all add: goto_def q_def)
    show "mc_shape (mc_q (goto i (E_Claimed x (mq_tail q)) (s\<lparr>mc_q := ?q, mc_ins := ?ins\<rparr>)))
      (mc_ins (goto i (E_Claimed x (mq_tail q)) (s\<lparr>mc_q := ?q, mc_ins := ?ins\<rparr>))) ?W R"
      using b t room R free(1) unfolding mc_shape_def goto_def by (auto simp: q_def [symmetric] less_Suc_eq)
    show "mc_cells (mc_q (goto i (E_Claimed x (mq_tail q)) (s\<lparr>mc_q := ?q, mc_ins := ?ins\<rparr>)))
      (mc_ins (goto i (E_Claimed x (mq_tail q)) (s\<lparr>mc_q := ?q, mc_ins := ?ins\<rparr>))) ?W R"
      using mc_cellsD [OF i(2)] free t ins unfolding mc_cells_def goto_def by (auto simp: less_Suc_eq)
    show "pc_ok (mc_q (goto i (E_Claimed x (mq_tail q)) (s\<lparr>mc_q := ?q, mc_ins := ?ins\<rparr>)))
      (mc_ins (goto i (E_Claimed x (mq_tail q)) (s\<lparr>mc_q := ?q, mc_ins := ?ins\<rparr>))) ?W R (E_Claimed x (mq_tail q))"
      using b(6) by (simp add: pc_ok_def goto_def nth_append)
    show "pc_ok (mc_q (goto i (E_Claimed x (mq_tail q)) (s\<lparr>mc_q := ?q, mc_ins := ?ins\<rparr>)))
      (mc_ins (goto i (E_Claimed x (mq_tail q)) (s\<lparr>mc_q := ?q, mc_ins := ?ins\<rparr>))) ?W R (mc_pc s j)" for j
      using i(3) [of j] t ins b(4,7,8) unfolding pc_ok_def goto_def
      by (cases "mc_pc s j") (auto dest!: b(7) b(8))
  qed (use pc b(7) in \<open>auto simp: goto_def W_def\<close>)
qed

lemma inv_enq_write:
  assumes inv: "mc_inv s" and pc: "mc_pc s i = E_Claimed x p"
  shows "mc_inv (goto i (E_Written x p) (s\<lparr>mc_q := set_cell (mc_q s) p ((cell_at (mc_q s) p)\<lparr>cl_data := Some x\<rparr>)\<rparr>))"
    (is "mc_inv ?s'")
proof -
  define q where "q = mc_q s"
  define W where "W = claimed enq_pos (mc_pc s)"
  define R where "R = claimed deq_pos (mc_pc s)"
  define q' where "q' = set_cell q p ((cell_at q p)\<lparr>cl_data := Some x\<rparr>)"
  have i: "mc_shape q (mc_ins s) W R" "mc_cells q (mc_ins s) W R" "\<And>j. pc_ok q (mc_ins s) W R (mc_pc s j)"
    using mc_invD [OF inv] by (simp_all add: q_def W_def R_def)
  obtain k where k: "ring_shape k (mq_mask q) (cap_of q)" and b: "hd_of q \<le> tl_of q" "tl_of q \<le> hd_of q + cap_of q"
    "\<And>p. p \<in> W \<Longrightarrow> hd_of q \<le> p \<and> p < tl_of q" "\<And>p. p \<in> R \<Longrightarrow> p < hd_of q \<and> tl_of q \<le> p + cap_of q"
    by (rule mc_shapeD [OF i(1)]) blast
  have q': "mq_head q' = mq_head q" "mq_tail q' = mq_tail q" "cap_of q' = cap_of q" "mq_mask q' = mq_mask q" "mq_capacity q' = mq_capacity q"
    by (simp_all add: q'_def)
  have p: "unat p \<in> W" "mc_ins s ! unat p = x" using i(3) [of i] pc by (simp_all add: pc_ok_def)
  have seq: "cl_seq (mpmc_cell q' r) = cl_seq (mpmc_cell q r)" for r unfolding q'_def by (rule set_data_seq [OF k])
  have new: "cl_data (mpmc_cell q' (unat p)) = Some x" by (simp add: q'_def mpmc_cell_set [OF k])
  have other: "mpmc_cell q' r = mpmc_cell q r" if "r \<noteq> unat p" "hd_of q \<le> r \<and> r < tl_of q \<or> r \<in> R" for r
    unfolding q'_def using that b(1,2) b(3) [OF p(1)] b(4) [of r] by (intro mpmc_cell_set_other [OF k]) auto
  have s': "mc_q ?s' = q'" "mc_ins ?s' = mc_ins s" "mc_pc ?s' = (mc_pc s)(i := E_Written x p)" by (simp_all add: goto_def q'_def q_def)
  show ?thesis
  proof (rule mc_invI [OF inv s'(3), of W R], unfold s')
    show "mc_results ?s'"
      using pc by (intro mc_results_keep [OF mc_invD(6) [OF inv] s'(3)]) (simp_all add: s' q'(1), simp_all add: goto_def q_def)
    show "mc_shape q' (mc_ins s) W R" using i(1) unfolding mc_shape_def q' .
    show "mc_cells q' (mc_ins s) W R"
      unfolding mc_cells_def q' seq
    proof (intro conjI allI impI)
      fix r assume r: "hd_of q \<le> r" "r < tl_of q"
      show "unat (cl_seq (mpmc_cell q r)) = (if r \<in> W then r else Suc r)" by (rule mc_cellsD(1) [OF i(2) r])
      assume "r \<notin> W"
      then show "cl_data (mpmc_cell q' r) = Some (mc_ins s ! r)"
        using mc_cellsD(2) [OF i(2) r] other [of r] r p(1) by (cases "r = unat p") simp_all
    next
      fix r assume "tl_of q \<le> r" "r < hd_of q + cap_of q"
      then show "unat (cl_seq (mpmc_cell q r)) = (if cap_of q \<le> r \<and> r - cap_of q \<in> R then Suc (r - cap_of q) else r)"
        by (rule mc_cellsD(3) [OF i(2)])
    qed
    show "pc_ok q' (mc_ins s) W R (E_Written x p)" using p new by (simp add: pc_ok_def)
    show "pc_ok q' (mc_ins s) W R (mc_pc s j)" if "j \<noteq> i" for j
    proof (cases "mc_pc s j")
      case (E_Written y r)
      have "r \<noteq> p" using mc_invD(4) [OF inv] pc E_Written that unfolding apart_def by (metis enq_pos.simps(1,2))
      then have "unat r \<noteq> unat p" by (simp add: word_unat_eq_iff)
      moreover have "unat r \<in> W" using i(3) [of j] E_Written by (simp add: pc_ok_def)
      ultimately show ?thesis using i(3) [of j] E_Written other [of "unat r"] b(3) by (simp add: pc_ok_def)
    next
      case (D_Claimed r)
      then have r: "unat r \<in> R" using i(3) [of j] by (simp add: pc_ok_def)
      have "unat r \<noteq> unat p" using b(3) [OF p(1)] b(4) [OF r] by auto
      with r show ?thesis using i(3) [of j] D_Claimed other [of "unat r"] by (simp add: pc_ok_def)
    qed (use i(3) [of j] q' in \<open>simp_all add: pc_ok_def\<close>)
  qed (use pc in \<open>simp_all add: claimed_same W_def R_def\<close>)
qed

lemma inv_enq_publish:
  assumes inv: "mc_inv s" and pc: "mc_pc s i = E_Written x p"
  shows "mc_inv (goto i M_Idle (s\<lparr>mc_q := set_cell (mc_q s) p ((cell_at (mc_q s) p)\<lparr>cl_seq := p + 1\<rparr>)\<rparr>))"
    (is "mc_inv ?s'")
proof -
  define q where "q = mc_q s"
  define W where "W = claimed enq_pos (mc_pc s)"
  define R where "R = claimed deq_pos (mc_pc s)"
  define q' where "q' = set_cell q p ((cell_at q p)\<lparr>cl_seq := p + 1\<rparr>)"
  let ?W = "W - {unat p}"
  have i: "mc_shape q (mc_ins s) W R" "mc_cells q (mc_ins s) W R" "\<And>j. pc_ok q (mc_ins s) W R (mc_pc s j)"
    using mc_invD [OF inv] by (simp_all add: q_def W_def R_def)
  obtain k where k: "ring_shape k (mq_mask q) (cap_of q)" and b: "hd_of q \<le> tl_of q" "tl_of q \<le> hd_of q + cap_of q"
    "tl_of q + cap_of q < 2 ^ 63"
    "\<And>p. p \<in> W \<Longrightarrow> hd_of q \<le> p \<and> p < tl_of q" "\<And>p. p \<in> R \<Longrightarrow> p < hd_of q \<and> tl_of q \<le> p + cap_of q"
    by (rule mc_shapeD [OF i(1)]) blast
  have q': "mq_head q' = mq_head q" "mq_tail q' = mq_tail q" "cap_of q' = cap_of q" "mq_mask q' = mq_mask q" "mq_capacity q' = mq_capacity q"
    by (simp_all add: q'_def)
  have p: "unat p \<in> W" "cl_data (mpmc_cell q (unat p)) = Some (mc_ins s ! unat p)" using i(3) [of i] pc by (simp_all add: pc_ok_def)
  have data: "cl_data (mpmc_cell q' r) = cl_data (mpmc_cell q r)" for r unfolding q'_def by (rule set_seq_data [OF k])
  have "unat p < 2 ^ 63" using b(3) b(4) [OF p(1)] by linarith
  then have "unat (p + 1) = Suc (unat p)" using distance_Suc [of p 0] by simp
  then have new: "unat (cl_seq (mpmc_cell q' (unat p))) = Suc (unat p)" by (simp add: q'_def mpmc_cell_set [OF k])
  have other: "mpmc_cell q' r = mpmc_cell q r" if "r \<noteq> unat p" "hd_of q \<le> r" "r < hd_of q + cap_of q" for r
    unfolding q'_def using that b(1,2) b(4) [OF p(1)] by (intro mpmc_cell_set_other [OF k]) auto
  have s': "mc_q ?s' = q'" "mc_ins ?s' = mc_ins s" "mc_pc ?s' = (mc_pc s)(i := M_Idle)" by (simp_all add: goto_def q'_def q_def)
  show ?thesis
  proof (rule mc_invI [OF inv s'(3), of ?W R], unfold s')
    show "mc_results ?s'"
      using pc by (intro mc_results_keep [OF mc_invD(6) [OF inv] s'(3)]) (simp_all add: s' q'(1), simp_all add: goto_def q_def)
    show "mc_shape q' (mc_ins s) ?W R" using i(1) unfolding mc_shape_def q' by blast
    show "mc_cells q' (mc_ins s) ?W R"
      unfolding mc_cells_def q' data
    proof (intro conjI allI impI)
      fix r assume r: "hd_of q \<le> r" "r < tl_of q"
      then have lt: "r < hd_of q + cap_of q" using b(2) by linarith
      show "unat (cl_seq (mpmc_cell q' r)) = (if r \<in> ?W then r else Suc r)"
        using mc_cellsD(1) [OF i(2) r] other [OF _ r(1) lt] new by (cases "r = unat p") simp_all
      assume "r \<notin> ?W"
      then show "cl_data (mpmc_cell q r) = Some (mc_ins s ! r)"
        using mc_cellsD(2) [OF i(2) r] p(2) by (cases "r = unat p") simp_all
    next
      fix r assume r: "tl_of q \<le> r" "r < hd_of q + cap_of q"
      then have "r \<noteq> unat p" "hd_of q \<le> r" using b(1) b(4) [OF p(1)] by linarith+
      with mc_cellsD(3) [OF i(2) r] other [OF _ _ r(2)]
      show "unat (cl_seq (mpmc_cell q' r)) = (if cap_of q \<le> r \<and> r - cap_of q \<in> R then Suc (r - cap_of q) else r)" by simp
    qed
    show "pc_ok q' (mc_ins s) ?W R (mc_pc s j)" if "j \<noteq> i" for j
    proof -
      have apart: "unat r \<noteq> unat p" if "enq_pos (mc_pc s j) = Some r" for r
        using mc_invD(4) [OF inv] pc that \<open>j \<noteq> i\<close> unfolding apart_def by (metis enq_pos.simps(2) word_unat_eq_iff)
      show ?thesis using i(3) [of j] apart by (cases "mc_pc s j") (auto simp: pc_ok_def q' data)
    qed
  qed (use pc mc_invD(4) [OF inv] in \<open>simp_all add: claimed_same claimed_leave W_def R_def pc_ok_def\<close>)
qed

lemma inv_deq_claim:
  assumes inv: "mc_inv s" and pc: "mc_pc s i = D_Seq (mq_head (mc_q s)) (mq_head (mc_q s) + 1)"
  shows "mc_inv (goto i (D_Claimed (mq_head (mc_q s))) (s\<lparr>mc_q := (mc_q s)\<lparr>mq_head := mq_head (mc_q s) + 1\<rparr>\<rparr>))"
    (is "mc_inv ?s'")
proof -
  define q where "q = mc_q s"
  define W where "W = claimed enq_pos (mc_pc s)"
  define R where "R = claimed deq_pos (mc_pc s)"
  define q' where "q' = q\<lparr>mq_head := mq_head q + 1\<rparr>"
  let ?R = "insert (hd_of q) R"
  have i: "mc_shape q (mc_ins s) W R" "mc_cells q (mc_ins s) W R" "\<And>j. pc_ok q (mc_ins s) W R (mc_pc s j)"
    using mc_invD [OF inv] by (simp_all add: q_def W_def R_def)
  obtain k where b: "ring_shape k (mq_mask q) (cap_of q)" "mq_capacity q = 2 ^ k" "2 \<le> cap_of q"
    "hd_of q \<le> tl_of q" "tl_of q \<le> hd_of q + cap_of q" "tl_of q + cap_of q < 2 ^ 63" "length (mc_ins s) = tl_of q"
    "\<And>p. p \<in> W \<Longrightarrow> hd_of q \<le> p \<and> p < tl_of q" "\<And>p. p \<in> R \<Longrightarrow> p < hd_of q \<and> tl_of q \<le> p + cap_of q"
    by (rule mc_shapeD [OF i(1)]) blast
  have ready: "hd_of q < tl_of q" "hd_of q \<notin> W" using i(3) [of i] pc by (simp_all add: pc_ok_def q_def)
  have q': "unat (mq_head q') = Suc (hd_of q)" "mq_tail q' = mq_tail q" "mq_buffer q' = mq_buffer q"
    "mq_mask q' = mq_mask q" "mq_capacity q' = mq_capacity q" "\<And>p. mpmc_cell q' p = mpmc_cell q p"
    using position_bounds(4) [OF i(1)] by (simp_all add: q'_def)
  have le: "tl_of q \<le> Suc (hd_of q) + cap_of q" using b(5) by linarith
  have W: "Suc (hd_of q) \<le> p \<and> p < tl_of q" if "p \<in> W" for p
    using b(8) [OF that] that ready(2) by (cases "p = hd_of q") auto
  have R: "p < Suc (hd_of q) \<and> tl_of q \<le> p + cap_of q" if "p \<in> ?R" for p
    using b(5) b(9) [of p] that by (cases "p = hd_of q") auto
  have s': "mc_q ?s' = q'" "mc_ins ?s' = mc_ins s" "mc_pc ?s' = (mc_pc s)(i := D_Claimed (mq_head q))" "mc_outs ?s' = mc_outs s"
    by (simp_all add: goto_def q'_def q_def)
  have data: "cl_data (mpmc_cell q (hd_of q)) = Some (mc_ins s ! hd_of q)"
    using mc_cellsD(2) [OF i(2) order_refl] ready by blast
  show ?thesis
  proof (rule mc_invI [OF inv s'(3), of W ?R], unfold s')
    show "claimed deq_pos ((mc_pc s)(i := D_Claimed (mq_head q))) = ?R" using pc by (simp add: claimed_enter R_def)
    show "mc_results ?s'" unfolding mc_results_def s' q'(1)
    proof (intro conjI allI impI)
      fix p v assume "mc_outs s p = Some v"
      then show "p < Suc (hd_of q)" "v = Some (mc_ins s ! p)"
        using mc_resultsD(1,2) [OF mc_invD(6) [OF inv]] less_SucI unfolding q_def by blast+
    next
      fix p assume p: "p < Suc (hd_of q)" "mc_outs s p = None"
      show "\<exists>j. ((mc_pc s)(i := D_Claimed (mq_head q))) j = D_Claimed (of_nat p)"
      proof (cases "p = hd_of q")
        case True
        then show ?thesis by (intro exI [of _ i]) simp
      next
        case False
        then obtain j where "mc_pc s j = D_Claimed (of_nat p)" using p mc_resultsD(3) [OF mc_invD(6) [OF inv]] unfolding q_def by force
        then show ?thesis using pc by (intro exI [of _ j]) auto
      qed
    qed
    show "mc_shape q' (mc_ins s) W ?R"
      unfolding mc_shape_def q'(1-5) using b(1-4,6,7) le ready(1) W R by (intro conjI ballI exI [of _ k]) simp_all
    show "mc_cells q' (mc_ins s) W ?R"
      unfolding mc_cells_def q'
    proof (intro conjI allI impI)
      fix p assume p: "Suc (hd_of q) \<le> p" "p < tl_of q"
      then show "unat (cl_seq (mpmc_cell q p)) = (if p \<in> W then p else Suc p)" by (intro mc_cellsD(1) [OF i(2)]) simp_all
      assume "p \<notin> W"
      with p show "cl_data (mpmc_cell q p) = Some (mc_ins s ! p)" by (intro mc_cellsD(2) [OF i(2)]) simp_all
    next
      fix p assume p: "tl_of q \<le> p" "p < Suc (hd_of q) + cap_of q"
      show "unat (cl_seq (mpmc_cell q p)) = (if cap_of q \<le> p \<and> p - cap_of q \<in> ?R then Suc (p - cap_of q) else p)"
      proof (cases "p = hd_of q + cap_of q")
        case True
        have "mpmc_cell q p = mpmc_cell q (hd_of q)" unfolding True mpmc_cell_index [OF b(1)] mod_add_self2 ..
        then show ?thesis using mc_cellsD(1) [OF i(2) order_refl ready(1)] ready(2) True by simp
      next
        case False
        then have lt: "p < hd_of q + cap_of q" using p by linarith
        then have "\<not> (cap_of q \<le> p \<and> p - cap_of q = hd_of q)" by linarith
        then show ?thesis using mc_cellsD(3) [OF i(2) p(1) lt] by auto
      qed
    qed
    show "pc_ok q' (mc_ins s) W ?R (D_Claimed (mq_head q))" using data by (simp add: pc_ok_def q')
    show "pc_ok q' (mc_ins s) W ?R (mc_pc s j)" for j
    proof (cases "mc_pc s j")
      case (E_Seq x p n)
      have "\<not> (cap_of q \<le> tl_of q \<and> tl_of q - cap_of q = hd_of q)" if "tl_of q < hd_of q + cap_of q"
        using that by linarith
      with i(3) [of j] E_Seq show ?thesis by (auto simp: pc_ok_def q')
    qed (use i(3) [of j] in \<open>auto simp: pc_ok_def q'\<close>)
  qed (use pc b(9) in \<open>auto simp: claimed_same W_def R_def q_def\<close>)
qed

lemma inv_deq_read:
  assumes inv: "mc_inv s" and pc: "mc_pc s i = D_Claimed p"
  shows "mc_inv (goto i (D_Read p (cl_data (cell_at (mc_q s) p))) (s\<lparr>mc_outs := (mc_outs s)(unat p \<mapsto> cl_data (cell_at (mc_q s) p))\<rparr>))"
    (is "mc_inv ?s'")
proof -
  define q where "q = mc_q s"
  define W where "W = claimed enq_pos (mc_pc s)"
  define R where "R = claimed deq_pos (mc_pc s)"
  have i: "mc_shape q (mc_ins s) W R" "mc_cells q (mc_ins s) W R" "\<And>j. pc_ok q (mc_ins s) W R (mc_pc s j)"
    using mc_invD [OF inv] by (simp_all add: q_def W_def R_def)
  have p: "unat p \<in> R" and data: "cl_data (cell_at q p) = Some (mc_ins s ! unat p)"
    using i(3) [of i] pc by (simp_all add: pc_ok_def cell_at_position)
  have lt: "unat p < hd_of q" using i(1) p unfolding mc_shape_def by blast
  have s': "mc_q ?s' = q" "mc_ins ?s' = mc_ins s" "mc_pc ?s' = (mc_pc s)(i := D_Read p (Some (mc_ins s ! unat p)))"
    "mc_outs ?s' = (mc_outs s)(unat p \<mapsto> Some (mc_ins s ! unat p))"
    using data by (simp_all add: goto_def q_def)
  show ?thesis
  proof (rule mc_invI [OF inv s'(3), of W R], unfold s')
    show "mc_results ?s'" unfolding mc_results_def s'
    proof (intro conjI allI impI)
      fix r v assume "((mc_outs s)(unat p \<mapsto> Some (mc_ins s ! unat p))) r = Some v"
      then show "r < hd_of q" "v = Some (mc_ins s ! r)"
        using mc_resultsD(1,2) [OF mc_invD(6) [OF inv], of r v] lt by (auto simp: q_def split: if_splits)
    next
      fix r assume r: "r < hd_of q" "((mc_outs s)(unat p \<mapsto> Some (mc_ins s ! unat p))) r = None"
      then have "r \<noteq> unat p" "mc_outs s r = None" by (simp_all split: if_splits)
      then obtain j where j: "mc_pc s j = D_Claimed (of_nat r)" using r(1) mc_resultsD(3) [OF mc_invD(6) [OF inv]] unfolding q_def by force
      have "unat (of_nat r :: u64) = r" using r(1) position_bounds(2) [OF i(1)] by (intro unat_of_nat_small) linarith
      with \<open>r \<noteq> unat p\<close> have "j \<noteq> i" using pc j by auto
      with j show "\<exists>j. ((mc_pc s)(i := D_Read p (Some (mc_ins s ! unat p)))) j = D_Claimed (of_nat r)"
        by (intro exI [of _ j]) simp
    qed
    show "mc_shape q (mc_ins s) W R" "mc_cells q (mc_ins s) W R" "pc_ok q (mc_ins s) W R (mc_pc s j)" for j
      by (rule i)+
    show "pc_ok q (mc_ins s) W R (D_Read p (Some (mc_ins s ! unat p)))" using p by (simp add: pc_ok_def)
  qed (use pc in \<open>simp_all add: claimed_same W_def R_def\<close>)
qed

lemma inv_deq_release:
  assumes inv: "mc_inv s" and pc: "mc_pc s i = D_Read p v"
  shows "mc_inv (goto i M_Idle (s\<lparr>mc_q := set_cell (mc_q s) p ((cell_at (mc_q s) p)\<lparr>cl_seq := p + mq_capacity (mc_q s)\<rparr>)\<rparr>))"
    (is "mc_inv ?s'")
proof -
  define q where "q = mc_q s"
  define W where "W = claimed enq_pos (mc_pc s)"
  define R where "R = claimed deq_pos (mc_pc s)"
  define q' where "q' = set_cell q p ((cell_at q p)\<lparr>cl_seq := p + mq_capacity q\<rparr>)"
  let ?R = "R - {unat p}"
  have i: "mc_shape q (mc_ins s) W R" "mc_cells q (mc_ins s) W R" "\<And>j. pc_ok q (mc_ins s) W R (mc_pc s j)"
    using mc_invD [OF inv] by (simp_all add: q_def W_def R_def)
  obtain k where k: "ring_shape k (mq_mask q) (cap_of q)" "mq_capacity q = 2 ^ k"
    and b: "hd_of q \<le> tl_of q" "tl_of q \<le> hd_of q + cap_of q" "tl_of q + cap_of q < 2 ^ 63"
    "\<And>p. p \<in> R \<Longrightarrow> p < hd_of q \<and> tl_of q \<le> p + cap_of q"
    by (rule mc_shapeD [OF i(1)]) blast
  have q': "mq_head q' = mq_head q" "mq_tail q' = mq_tail q" "cap_of q' = cap_of q" "mq_mask q' = mq_mask q" "mq_capacity q' = mq_capacity q"
    by (simp_all add: q'_def)
  have p: "unat p < hd_of q" "tl_of q \<le> unat p + cap_of q" using i(3) [of i] pc b(4) by (simp_all add: pc_ok_def)
  have data: "cl_data (mpmc_cell q' r) = cl_data (mpmc_cell q r)" for r unfolding q'_def by (rule set_seq_data [OF k(1)])
  have "mq_capacity q = of_nat (cap_of q)" using k by (simp add: ring_shape_def)
  then have "p + mq_capacity q = of_nat (unat p + cap_of q)" by simp
  moreover have "unat p + cap_of q < 2 ^ 63" using p(1) b(1,3) by linarith
  ultimately have sum: "unat (p + mq_capacity q) = unat p + cap_of q"
    using unat_of_nat_small by metis
  have "mpmc_cell q' (unat p + cap_of q) = (cell_at q p)\<lparr>cl_seq := p + mq_capacity q\<rparr>"
    unfolding q'_def mpmc_cell_set [OF k(1)] by (simp only: mod_add_self2 refl if_True)
  then have new: "unat (cl_seq (mpmc_cell q' (unat p + cap_of q))) = unat p + cap_of q" using sum by simp
  have other: "mpmc_cell q' r = mpmc_cell q r" if "hd_of q \<le> r" "r < hd_of q + cap_of q" "r \<noteq> unat p + cap_of q" for r
  proof -
    have "r mod cap_of q \<noteq> (unat p + cap_of q) mod cap_of q"
      using same_cell [of r "cap_of q" "unat p + cap_of q"] that p b(1,2) by linarith
    then show ?thesis unfolding q'_def mpmc_cell_set [OF k(1)] by simp
  qed
  have s': "mc_q ?s' = q'" "mc_ins ?s' = mc_ins s" "mc_pc ?s' = (mc_pc s)(i := M_Idle)" by (simp_all add: goto_def q'_def q_def)
  show ?thesis
  proof (rule mc_invI [OF inv s'(3), of W ?R], unfold s')
    show "mc_results ?s'"
      using pc by (intro mc_results_keep [OF mc_invD(6) [OF inv] s'(3)]) (simp_all add: s' q'(1), simp_all add: goto_def q_def)
    show "mc_shape q' (mc_ins s) W ?R" using i(1) unfolding mc_shape_def q' by blast
    show "mc_cells q' (mc_ins s) W ?R"
      unfolding mc_cells_def q' data
    proof (intro conjI allI impI)
      fix r assume r: "hd_of q \<le> r" "r < tl_of q"
      then have "r < hd_of q + cap_of q" "r \<noteq> unat p + cap_of q" using b(2) p by linarith+
      then show "unat (cl_seq (mpmc_cell q' r)) = (if r \<in> W then r else Suc r)"
        using mc_cellsD(1) [OF i(2) r] other [OF r(1)] by simp
      assume "r \<notin> W"
      then show "cl_data (mpmc_cell q r) = Some (mc_ins s ! r)" by (rule mc_cellsD(2) [OF i(2) r])
    next
      fix r assume r: "tl_of q \<le> r" "r < hd_of q + cap_of q"
      show "unat (cl_seq (mpmc_cell q' r)) = (if cap_of q \<le> r \<and> r - cap_of q \<in> ?R then Suc (r - cap_of q) else r)"
      proof (cases "r = unat p + cap_of q")
        case True
        then show ?thesis using new by simp
      next
        case False
        then have "\<not> (cap_of q \<le> r \<and> r - cap_of q = unat p)" by linarith
        then show ?thesis using mc_cellsD(3) [OF i(2) r] other [OF _ r(2) False] r b(1) by auto
      qed
    qed
    show "pc_ok q' (mc_ins s) W ?R (mc_pc s j)" if "j \<noteq> i" for j
    proof -
      have apart: "unat r \<noteq> unat p" if "deq_pos (mc_pc s j) = Some r" for r
        using mc_invD(5) [OF inv] pc that \<open>j \<noteq> i\<close> unfolding apart_def by (metis deq_pos.simps(2) word_unat_eq_iff)
      show ?thesis using i(3) [of j] apart by (cases "mc_pc s j") (auto simp: pc_ok_def q' data)
    qed
  qed (use pc mc_invD(5) [OF inv] in \<open>simp_all add: claimed_same claimed_leave W_def R_def pc_ok_def\<close>)
qed

section \<open>All executions\<close>

text \<open>The counters stay below \<open>2 ^ 63\<close>: some centuries of enqueues.\<close>

abbreviation mc_bounded :: "'a mc_sys \<Rightarrow> bool" where
  "mc_bounded s \<equiv> length (mc_ins s) + cap_of (mc_q s) < 2 ^ 63"

lemma mc_inv_step:
  assumes "mc_step s s'" and inv: "mc_inv s" and "mc_bounded s'"
  shows "mc_inv s'"
  using assms(1,3)
proof cases
  case (enq_load i x)
  then show ?thesis using mc_local [OF inv, of "E_Pos x (mq_tail (mc_q s))" i] by (simp add: pc_ok_def)
next
  case (enq_seq i x p)
  have le: "unat p \<le> tl_of (mc_q s)" using mc_invD(3) [OF inv, of i] enq_seq(2) by (simp add: pc_ok_def)
  have p: "p = mq_tail (mc_q s)" if "unat p = tl_of (mc_q s)" using that by (simp add: word_unat_eq_iff)
  have know: "tl_of (mc_q s) < hd_of (mc_q s) + cap_of (mc_q s) \<and>
      \<not> (cap_of (mc_q s) \<le> tl_of (mc_q s) \<and> tl_of (mc_q s) - cap_of (mc_q s) \<in> claimed deq_pos (mc_pc s))"
    if "cl_seq (mpmc_cell (mc_q s) (unat p)) = p" "unat p = tl_of (mc_q s)"
    using that p [OF that(2)] by (intro seq_at_tail [OF mc_invD(1,2) [OF inv]]) simp
  have "pc_ok (mc_q s) (mc_ins s) (claimed enq_pos (mc_pc s)) (claimed deq_pos (mc_pc s)) (E_Seq x p (cl_seq (cell_at (mc_q s) p)))"
    unfolding pc_ok_def cell_at_position mc_pc.case using le cell_seq_bound [OF mc_invD(1,2) [OF inv]] know by blast
  then show ?thesis using enq_seq mc_local [OF inv] by simp
next
  case (enq_claim i x p n)
  have "n = p" using enq_claim(3) by (simp add: diff64_0)
  moreover have "length (mc_ins s) = tl_of (mc_q s)" using mc_invD(1) [OF inv] by (simp add: mc_shape_def)
  then have "Suc (tl_of (mc_q s)) + cap_of (mc_q s) < 2 ^ 63" using enq_claim(1) \<open>mc_bounded s'\<close> by (simp add: goto_def)
  ultimately show ?thesis using inv_enq_claim [OF inv, of i x] enq_claim by simp
next
  case (enq_lost i x p n)
  then show ?thesis using mc_local [OF inv, of "E_Pos x (mq_tail (mc_q s))" i] by (simp add: pc_ok_def)
next
  case (enq_full i x p n d)
  then show ?thesis using mc_local [OF inv, of M_Idle i] by (simp add: pc_ok_def)
next
  case (enq_again i x p n d)
  then show ?thesis using mc_local [OF inv, of "E_Pos x (mq_tail (mc_q s))" i] by (simp add: pc_ok_def)
next
  case (deq_load i)
  then show ?thesis using mc_local [OF inv, of "D_Pos (mq_head (mc_q s))" i] by (simp add: pc_ok_def)
next
  case (deq_seq i p)
  have le: "unat p \<le> hd_of (mc_q s)" using mc_invD(3) [OF inv, of i] deq_seq(2) by (simp add: pc_ok_def)
  have p: "p = mq_head (mc_q s)" if "unat p = hd_of (mc_q s)" using that by (simp add: word_unat_eq_iff)
  have know: "hd_of (mc_q s) < tl_of (mc_q s) \<and> hd_of (mc_q s) \<notin> claimed enq_pos (mc_pc s)"
    if "cl_seq (mpmc_cell (mc_q s) (unat p)) = p + 1" "unat p = hd_of (mc_q s)"
    using that p [OF that(2)] by (intro seq_at_head [OF mc_invD(1,2) [OF inv]]) simp
  have "pc_ok (mc_q s) (mc_ins s) (claimed enq_pos (mc_pc s)) (claimed deq_pos (mc_pc s)) (D_Seq p (cl_seq (cell_at (mc_q s) p)))"
    unfolding pc_ok_def cell_at_position mc_pc.case using le cell_seq_bound [OF mc_invD(1,2) [OF inv]] know by blast
  then show ?thesis using deq_seq mc_local [OF inv] by simp
next
  case (deq_claim i p n)
  then have "n = p + 1" by (simp add: diff64_0)
  then show ?thesis using deq_claim by (auto intro!: inv_deq_claim [OF inv])
next
  case (deq_lost i p n)
  then show ?thesis using mc_local [OF inv, of "D_Pos (mq_head (mc_q s))" i] by (simp add: pc_ok_def)
next
  case (deq_empty i p n d)
  then show ?thesis using mc_local [OF inv, of M_Idle i] by (simp add: pc_ok_def)
next
  case (deq_again i p n d)
  then show ?thesis using mc_local [OF inv, of "D_Pos (mq_head (mc_q s))" i] by (simp add: pc_ok_def)
qed (auto intro: inv_enq_write [OF inv] inv_enq_publish [OF inv] inv_deq_read [OF inv] inv_deq_release [OF inv])

lemma mc_step_grows:
  "mc_step s s' \<Longrightarrow> length (mc_ins s) \<le> length (mc_ins s') \<and> cap_of (mc_q s') = cap_of (mc_q s)"
  by (induction rule: mc_step.induct) (simp_all add: goto_def)

lemma mc_start_inv:
  assumes init: "mpmc_init c = Inr q" and "2 \<le> c" and "2 * unat c < 2 ^ 63"
  shows "mc_inv (mc_start q)" "cap_of q = unat c"
proof -
  have fields: "mq_head q = 0" "mq_tail q = 0" "cap_of q = unat c" using init by (auto simp: mpmc_init_def split: if_splits)
  then show "cap_of q = unat c" by blast
  have i: "mpmc_inv 0 q" using mpmc_init_Inr [OF assms(1,2), of 0] assms(3) by simp
  have none: "claimed enq_pos (\<lambda>_. M_Idle) = {}" "claimed deq_pos (\<lambda>_. M_Idle) = {}" by (simp_all add: claimed_def)
  have "unat (of_nat p :: u64) = p" if "p < unat c" for p using that assms(3) by (intro unat_of_nat_small) linarith
  then show "mc_inv (mc_start q)"
    using mpmc_invD [OF i] fields
    by (auto simp: mc_inv_def mc_start_def none mc_shape_def mc_cells_def pc_ok_def apart_def mc_results_def)
qed

lemma mc_reachable:
  assumes "mc_step\<^sup>*\<^sup>* s s'" and "mc_inv s" and "mc_bounded s'"
  shows "mc_inv s' \<and> cap_of (mc_q s') = cap_of (mc_q s)"
  using assms(1,3)
proof (induction rule: rtranclp_induct)
  case (step y z)
  have "mc_bounded y" using mc_step_grows [OF step(2)] step(4) by linarith
  then show ?case using step mc_inv_step mc_step_grows by metis
qed (use assms(2) in simp)

lemma mc_inv_safe:
  assumes inv: "mc_inv s"
  shows "\<not> mc_faulty s i"
proof -
  obtain k where k: "ring_shape k (mq_mask (mc_q s)) (cap_of (mc_q s))" by (rule mc_shapeD [OF mc_invD(1) [OF inv]])
  have ok: "ring_slot (mq_mask (mc_q s)) p < cap_of (mc_q s)" for p
    using mpmc_slot [OF k, of "unat p"] k by (simp add: ring_shape_def)
  have small: "returns (diff64 a b)" if "unat a < 2 ^ 63" "unat b < 2 ^ 63" for a b
    using diff64_small [OF that] by simp
  note b = position_bounds [OF mc_invD(1) [OF inv]]
  show ?thesis
  proof (cases "mc_pc s i")
    case (E_Seq x p n)
    with mc_invD(3) [OF inv, of i] b show ?thesis by (simp add: mc_faulty_def Let_def pc_ok_def small)
  next
    case (D_Seq p n)
    then have n: "unat n < 2 ^ 63" "unat p \<le> hd_of (mc_q s)" using mc_invD(3) [OF inv, of i] by (simp_all add: pc_ok_def)
    have "hd_of (mc_q s) + 1 < 2 ^ 63" using mc_invD(1) [OF inv] unfolding mc_shape_def by linarith
    moreover have "unat (p + 1) = Suc (unat p)" using distance_Suc [of p 0] n b(2) by simp
    ultimately show ?thesis using D_Seq n by (simp add: mc_faulty_def Let_def small)
  qed (use ok in \<open>simp_all add: mc_faulty_def Let_def not_le\<close>)
qed

lemma mc_reachable_start:
  assumes init: "mpmc_init c = Inr q0" and "2 \<le> c" and run: "mc_step\<^sup>*\<^sup>* (mc_start q0) s"
    and bound: "length (mc_ins s) + unat c < 2 ^ 63"
  shows "mc_inv s" "cap_of (mc_q s) = unat c"
proof -
  have "2 * unat c < 2 ^ 63" using init by (simp add: mpmc_init_def split: if_splits)
  note start = mc_start_inv [OF init assms(2) this]
  have cap: "cap_of (mc_q (mc_start q0)) = unat c" using start(2) by (simp add: mc_start_def)
  show "cap_of (mc_q s) = unat c" using run
    by (induction rule: rtranclp_induct) (simp_all add: cap mc_step_grows [THEN conjunct2])
  with mc_reachable [OF run start(1)] bound show "mc_inv s" by simp
qed

text \<open>
  C4: From construction with a capacity of at least two on, in every interleaving of any number of
  enqueues and dequeues whose counters stay below \<open>2 ^ 63\<close>: no thread is about to access a cell
  out of the buffer or to overflow; the elements accepted and not claimed by a \<open>dequeue\<close> number
  at most the capacity; each \<open>dequeue\<close> that claimed position \<open>p\<close> returns the element accepted at
  position \<open>p\<close>; and when all threads are idle each claimed position has been delivered and the ring
  holds the other accepted elements in order.
\<close>

theorem mpmc_concurrent_fifo:
  assumes init: "mpmc_init c = Inr q0" and "2 \<le> c" and run: "mc_step\<^sup>*\<^sup>* (mc_start q0) s"
    and bound: "length (mc_ins s) + unat c < 2 ^ 63"
  shows "\<not> mc_faulty s i \<and> hd_of (mc_q s) \<le> length (mc_ins s) \<and> length (mc_ins s) \<le> hd_of (mc_q s) + unat c \<and>
    (\<forall>p v. mc_outs s p = Some v \<longrightarrow> p < hd_of (mc_q s) \<and> v = Some (mc_ins s ! p)) \<and>
    ((\<forall>i. mc_pc s i = M_Idle) \<longrightarrow> dom (mc_outs s) = {..<hd_of (mc_q s)} \<and> mpmc_list (mc_q s) = drop (hd_of (mc_q s)) (mc_ins s))"
proof -
  note inv = mc_reachable_start [OF assms]
  obtain k where b: "hd_of (mc_q s) \<le> tl_of (mc_q s)" "tl_of (mc_q s) \<le> hd_of (mc_q s) + cap_of (mc_q s)" "length (mc_ins s) = tl_of (mc_q s)"
    by (rule mc_shapeD [OF mc_invD(1) [OF inv(1)]])
  have outs: "p < hd_of (mc_q s) \<and> v = Some (mc_ins s ! p)" if "mc_outs s p = Some v" for p v
    using mc_resultsD(1,2) [OF mc_invD(6) [OF inv(1)] that] by blast
  have "dom (mc_outs s) = {..<hd_of (mc_q s)}" "mpmc_list (mc_q s) = drop (hd_of (mc_q s)) (mc_ins s)"
    if idle: "\<forall>i. mc_pc s i = M_Idle"
  proof -
    have "p \<in> dom (mc_outs s)" if "p < hd_of (mc_q s)" for p
      using mc_resultsD(3) [OF mc_invD(6) [OF inv(1)] that] idle by auto
    with outs show "dom (mc_outs s) = {..<hd_of (mc_q s)}" by blast
    have "claimed enq_pos (mc_pc s) = {}" using idle by (simp add: claimed_def)
    then have "cl_data (mpmc_cell (mc_q s) p) = Some (mc_ins s ! p)" if "hd_of (mc_q s) \<le> p" "p < tl_of (mc_q s)" for p
      using mc_cellsD(2) [OF mc_invD(2) [OF inv(1)] that] by simp
    with b show "mpmc_list (mc_q s) = drop (hd_of (mc_q s)) (mc_ins s)"
      by (intro nth_equalityI) (simp_all add: mpmc_list_def mpmc_positions_def)
  qed
  with mc_inv_safe [OF inv(1)] b outs inv(2) show ?thesis by auto
qed

text \<open>A concrete run: one thread has claimed the first position.\<close>

lemma mc_sample_run:
  obtains q0 :: "nat mpmc" and s where "mpmc_init 2 = Inr q0" "mc_step\<^sup>*\<^sup>* (mc_start q0) s" "mc_ins s = [7]"
    "mc_pc s 0 = E_Claimed 7 0"
proof -
  define q0 :: "nat mpmc" where "q0 = \<lparr>mq_buffer = map (\<lambda>i. \<lparr>cl_seq = of_nat i, cl_data = None\<rparr>) [0..<2],
    mq_head = 0, mq_tail = 0, mq_capacity = 2, mq_mask = 1\<rparr>"
  have init: "mpmc_init 2 = Inr q0" by (simp add: mpmc_init_def q0_def)
  have q0: "mq_tail q0 = 0" "cl_seq (cell_at q0 0) = 0" "mq_head q0 = 0" by (simp_all add: q0_def cell_at_def ring_slot_def numeral_2_eq_2)
  let ?s1 = "goto 0 (E_Pos 7 0) (mc_start q0)"
  let ?s2 = "goto 0 (E_Seq 7 0 0) ?s1"
  let ?s3 = "goto 0 (E_Claimed 7 0) (?s2\<lparr>mc_q := q0\<lparr>mq_tail := 0 + 1\<rparr>, mc_ins := [] @ [7]\<rparr>)"
  have "mc_step (mc_start q0) ?s1" using enq_load [of "mc_start q0" 0 7] q0 by (simp add: mc_start_def)
  moreover have "mc_step ?s1 ?s2" using enq_seq [of ?s1 0 7 0] q0 by (simp add: goto_def mc_start_def)
  moreover have "mc_step ?s2 ?s3" using enq_claim [of ?s2 0 7 0 0] q0 by (simp add: goto_def mc_start_def diff64_0)
  ultimately have run: "mc_step\<^sup>*\<^sup>* (mc_start q0) ?s3" by simp
  with init show ?thesis by (intro that [of q0 ?s3]) (simp_all add: goto_def)
qed

lemma mpmc_concurrent_fifo_witness:
  "\<exists>q0 s. mpmc_init 2 = Inr (q0 :: nat mpmc) \<and> mc_step\<^sup>*\<^sup>* (mc_start q0) s \<and> mc_ins s = [7] \<and>
    length (mc_ins s) \<le> hd_of (mc_q s) + 2"
proof -
  obtain q0 :: "nat mpmc" and s where r: "mpmc_init 2 = Inr q0" "mc_step\<^sup>*\<^sup>* (mc_start q0) s" "mc_ins s = [7]"
    by (rule mc_sample_run)
  with mpmc_concurrent_fifo [OF r(1) _ r(2)] show ?thesis by auto
qed

end
