(* ===== verification/MpmcProgress.thy ===== *)
theory MpmcProgress
  imports MpmcConcurrent
begin

text \<open>
  Progress of \<^verbatim>\<open>CustomMPMCLockFreeQueue\<close>: the calls of MpmcQueue are executions of the step machine
  of MpmcConcurrent, and a thread that runs alone ends its call whatever the others were doing.
\<close>

section \<open>A call of one thread is an execution\<close>

lemma claim_tail_run:
  assumes "mpmc_claim_tail fuel weak (mc_q s) pos = Inr (r, q')" and "mc_pc s i = E_Pos x pos"
  shows "mc_step\<^sup>*\<^sup>* s (case r of None \<Rightarrow> goto i M_Idle s
    | Some p \<Rightarrow> goto i (E_Claimed x p) (s\<lparr>mc_q := q', mc_ins := mc_ins s @ [x]\<rparr>))"
  using assms
proof (induction fuel arbitrary: weak pos s)
  case (Suc fuel)
  let ?n = "cl_seq (cell_at (mc_q s) pos)"
  define s1 where "s1 = goto i (E_Seq x pos ?n) s"
  define s2 where "s2 = goto i (E_Pos x (mq_tail (mc_q s))) s1"
  have s1: "mc_step s s1" unfolding s1_def using Suc.prems(2) by (rule enq_seq)
  have pc1: "mc_pc s1 i = E_Seq x pos ?n" "mc_q s1 = mc_q s" by (simp_all add: s1_def goto_def)
  obtain d where d: "diff64 ?n pos = Inr d" "ring_slot (mq_mask (mc_q s)) pos < cap_of (mc_q s)"
    using Suc.prems(1) by (auto simp: mpmc_claim_tail.simps Let_def res_bind_def cell_at_def split: if_splits sum.splits)
  have again: ?case if "mc_step s1 s2" "mpmc_claim_tail fuel weak' (mc_q s) (mq_tail (mc_q s)) = Inr (r, q')" for weak'
  proof -
    have "mc_step\<^sup>*\<^sup>* s2 (case r of None \<Rightarrow> goto i M_Idle s2 | Some p \<Rightarrow> goto i (E_Claimed x p) (s2\<lparr>mc_q := q', mc_ins := mc_ins s2 @ [x]\<rparr>))"
      using that(2) by (intro Suc.IH) (simp_all add: s2_def s1_def goto_def)
    moreover have "mc_step\<^sup>*\<^sup>* s s2" using s1 that(1) by simp
    ultimately have "mc_step\<^sup>*\<^sup>* s (case r of None \<Rightarrow> goto i M_Idle s2 | Some p \<Rightarrow> goto i (E_Claimed x p) (s2\<lparr>mc_q := q', mc_ins := mc_ins s2 @ [x]\<rparr>))"
      by (rule rtranclp_trans [rotated])
    then show ?thesis by (simp add: s2_def s1_def goto_def split: option.splits)
  qed
  consider "d = 0" | "d < 0" | "0 < d" by linarith
  then show ?case
  proof cases
    case 1
    have lost: "mc_step s1 s2" unfolding s2_def using enq_lost [OF pc1(1)] d(1) 1 pc1(2) by simp
    show ?thesis
    proof (cases "mq_tail (mc_q s) \<noteq> pos \<or> (weak \<noteq> [] \<and> \<not> hd weak)")
      case True
      then show ?thesis using again [OF lost, of "tl weak"] Suc.prems(1) d 1
        by (simp add: mpmc_claim_tail.simps Let_def cell_at_def)
    next
      case False
      then have r: "r = Some pos" "q' = (mc_q s)\<lparr>mq_tail := pos + 1\<rparr>" "mq_tail (mc_q s) = pos"
        using Suc.prems(1) d 1 by (auto simp: mpmc_claim_tail.simps Let_def cell_at_def split: if_splits)
      have "mc_step s1 (goto i (E_Claimed x pos) (s1\<lparr>mc_q := q', mc_ins := mc_ins s1 @ [x]\<rparr>))"
        unfolding r(2) using enq_claim [OF pc1(1)] d(1) 1 r(3) pc1(2) by simp
      with s1 have "mc_step\<^sup>*\<^sup>* s (goto i (E_Claimed x pos) (s1\<lparr>mc_q := q', mc_ins := mc_ins s1 @ [x]\<rparr>))" by simp
      then show ?thesis by (simp add: r(1) s1_def goto_def)
    qed
  next
    case 2
    then have "r = None" using Suc.prems(1) d by (simp add: mpmc_claim_tail.simps Let_def cell_at_def)
    moreover have "mc_step s1 (goto i M_Idle s1)" using enq_full [OF pc1(1)] d(1) 2 by simp
    with s1 have "mc_step\<^sup>*\<^sup>* s (goto i M_Idle s1)" by simp
    ultimately show ?thesis by (simp add: s1_def goto_def)
  next
    case 3
    have "mc_step s1 s2" unfolding s2_def using enq_again [OF pc1(1)] d(1) 3 pc1(2) by simp
    then show ?thesis using again [of weak] Suc.prems(1) d 3
      by (simp add: mpmc_claim_tail.simps Let_def cell_at_def)
  qed
qed (simp add: mpmc_claim_tail.simps)

lemma claim_head_run:
  assumes "mpmc_claim_head fuel weak (mc_q s) pos = Inr (r, q')" and "mc_pc s i = D_Pos pos"
  shows "mc_step\<^sup>*\<^sup>* s (case r of None \<Rightarrow> goto i M_Idle s
    | Some p \<Rightarrow> goto i (D_Claimed p) (s\<lparr>mc_q := q'\<rparr>))"
  using assms
proof (induction fuel arbitrary: weak pos s)
  case (Suc fuel)
  let ?n = "cl_seq (cell_at (mc_q s) pos)"
  define s1 where "s1 = goto i (D_Seq pos ?n) s"
  define s2 where "s2 = goto i (D_Pos (mq_head (mc_q s))) s1"
  have s1: "mc_step s s1" unfolding s1_def using Suc.prems(2) by (rule deq_seq)
  have pc1: "mc_pc s1 i = D_Seq pos ?n" "mc_q s1 = mc_q s" by (simp_all add: s1_def goto_def)
  obtain d where d: "diff64 ?n (pos + 1) = Inr d" "ring_slot (mq_mask (mc_q s)) pos < cap_of (mc_q s)"
    using Suc.prems(1) by (auto simp: mpmc_claim_head.simps Let_def res_bind_def cell_at_def split: if_splits sum.splits)
  have again: ?case if "mc_step s1 s2" "mpmc_claim_head fuel weak' (mc_q s) (mq_head (mc_q s)) = Inr (r, q')" for weak'
  proof -
    have "mc_step\<^sup>*\<^sup>* s2 (case r of None \<Rightarrow> goto i M_Idle s2 | Some p \<Rightarrow> goto i (D_Claimed p) (s2\<lparr>mc_q := q'\<rparr>))"
      using that(2) by (intro Suc.IH) (simp_all add: s2_def s1_def goto_def)
    moreover have "mc_step\<^sup>*\<^sup>* s s2" using s1 that(1) by simp
    ultimately have "mc_step\<^sup>*\<^sup>* s (case r of None \<Rightarrow> goto i M_Idle s2 | Some p \<Rightarrow> goto i (D_Claimed p) (s2\<lparr>mc_q := q'\<rparr>))"
      by (rule rtranclp_trans [rotated])
    then show ?thesis by (simp add: s2_def s1_def goto_def split: option.splits)
  qed
  consider "d = 0" | "d < 0" | "0 < d" by linarith
  then show ?case
  proof cases
    case 1
    have lost: "mc_step s1 s2" unfolding s2_def using deq_lost [OF pc1(1)] d(1) 1 pc1(2) by simp
    show ?thesis
    proof (cases "mq_head (mc_q s) \<noteq> pos \<or> (weak \<noteq> [] \<and> \<not> hd weak)")
      case True
      then show ?thesis using again [OF lost, of "tl weak"] Suc.prems(1) d 1
        by (simp add: mpmc_claim_head.simps Let_def cell_at_def)
    next
      case False
      then have r: "r = Some pos" "q' = (mc_q s)\<lparr>mq_head := pos + 1\<rparr>" "mq_head (mc_q s) = pos"
        using Suc.prems(1) d 1 by (auto simp: mpmc_claim_head.simps Let_def cell_at_def split: if_splits)
      have "mc_step s1 (goto i (D_Claimed pos) (s1\<lparr>mc_q := q'\<rparr>))"
        unfolding r(2) using deq_claim [OF pc1(1)] d(1) 1 r(3) pc1(2) by simp
      with s1 have "mc_step\<^sup>*\<^sup>* s (goto i (D_Claimed pos) (s1\<lparr>mc_q := q'\<rparr>))" by simp
      then show ?thesis by (simp add: r(1) s1_def goto_def)
    qed
  next
    case 2
    then have "r = None" using Suc.prems(1) d by (simp add: mpmc_claim_head.simps Let_def cell_at_def)
    moreover have "mc_step s1 (goto i M_Idle s1)" using deq_empty [OF pc1(1)] d(1) 2 by simp
    with s1 have "mc_step\<^sup>*\<^sup>* s (goto i M_Idle s1)" by simp
    ultimately show ?thesis by (simp add: s1_def goto_def)
  next
    case 3
    have "mc_step s1 s2" unfolding s2_def using deq_again [OF pc1(1)] d(1) 3 pc1(2) by simp
    then show ?thesis using again [of weak] Suc.prems(1) d 3
      by (simp add: mpmc_claim_head.simps Let_def cell_at_def)
  qed
qed (simp add: mpmc_claim_head.simps)

lemma claim_tail_full: "mpmc_claim_tail fuel weak q pos = Inr (None, q') \<Longrightarrow> q' = q"
  by (induction fuel weak q pos rule: mpmc_claim_tail.induct)
    (auto simp: mpmc_claim_tail.simps Let_def res_bind_def split: if_splits sum.splits)

lemma claim_head_cases: "mpmc_claim_head fuel weak q pos = Inr (r, q') \<Longrightarrow>
    (r = None \<and> q' = q) \<or> (r = Some (mq_head q) \<and> q' = q\<lparr>mq_head := mq_head q + 1\<rparr>)"
  by (induction fuel weak q pos rule: mpmc_claim_head.induct)
    (auto simp: mpmc_claim_head.simps Let_def res_bind_def split: if_splits sum.splits)

lemma set_cell_twice:
  "set_cell (set_cell q p c) p ((cell_at (set_cell q p c) p)\<lparr>cl_seq := n\<rparr>) = set_cell q p (c\<lparr>cl_seq := n\<rparr>)"
  by (cases "ring_slot (mq_mask q) p < cap_of q") (simp_all add: set_cell_def cell_at_def list_update_beyond)

lemma cell_full: "(c :: 'a cell)\<lparr>cl_data := d, cl_seq := n\<rparr> = \<lparr>cl_seq = n, cl_data = d\<rparr>"
  by (cases c) simp

lemma enqueue_run:
  assumes idle: "mc_pc s i = M_Idle" and call: "mpmc_enqueue weak (mc_q s) x = Inr (ok, q')"
  shows "mc_step\<^sup>*\<^sup>* s (s\<lparr>mc_q := q', mc_ins := mc_ins s @ (if ok then [x] else [])\<rparr>)"
proof -
  define s0 where "s0 = goto i (E_Pos x (mq_tail (mc_q s))) s"
  have s0: "mc_step s s0" "mc_pc s0 i = E_Pos x (mq_tail (mc_q s))" "mc_q s0 = mc_q s" "mc_ins s0 = mc_ins s"
    using enq_load [OF idle] by (simp_all add: s0_def goto_def)
  obtain r q1 where claim: "mpmc_claim_tail (Suc (length weak)) weak (mc_q s) (mq_tail (mc_q s)) = Inr (r, q1)"
    using call by (auto simp: mpmc_enqueue_def res_bind_def split: sum.splits)
  have run: "mc_step\<^sup>*\<^sup>* s (case r of None \<Rightarrow> goto i M_Idle s0
    | Some p \<Rightarrow> goto i (E_Claimed x p) (s0\<lparr>mc_q := q1, mc_ins := mc_ins s0 @ [x]\<rparr>))"
    using s0(1) claim_tail_run [of _ _ s0, unfolded s0(3), OF claim s0(2)] by (rule converse_rtranclp_into_rtranclp)
  show ?thesis
  proof (cases r)
    case None
    then have "ok = False" "q' = mc_q s" using call claim claim_tail_full [of _ weak "mc_q s"] by (auto simp: mpmc_enqueue_def)
    then show ?thesis using run None idle by (simp add: s0_def goto_def fun_upd_idem)
  next
    case (Some p)
    let ?s1 = "goto i (E_Claimed x p) (s0\<lparr>mc_q := q1, mc_ins := mc_ins s0 @ [x]\<rparr>)"
    define q2 where "q2 = set_cell q1 p ((cell_at q1 p)\<lparr>cl_data := Some x\<rparr>)"
    let ?s2 = "goto i (E_Written x p) (?s1\<lparr>mc_q := q2\<rparr>)"
    have "mc_step ?s1 ?s2" using enq_write [of ?s1 i x p] by (simp add: goto_def q2_def)
    moreover have "mc_step ?s2 (goto i M_Idle (?s2\<lparr>mc_q := set_cell q2 p ((cell_at q2 p)\<lparr>cl_seq := p + 1\<rparr>)\<rparr>))"
      using enq_publish [of ?s2 i x p] by (simp add: goto_def)
    moreover have q: "set_cell q2 p ((cell_at q2 p)\<lparr>cl_seq := p + 1\<rparr>) = q'" "ok"
      using call claim Some by (simp_all add: mpmc_enqueue_def q2_def set_cell_twice cell_full) (simp add: set_cell_def)
    ultimately have "mc_step\<^sup>*\<^sup>* s (goto i M_Idle (?s2\<lparr>mc_q := q'\<rparr>))" using run Some by auto
    moreover have "goto i M_Idle (?s2\<lparr>mc_q := q'\<rparr>) = s\<lparr>mc_q := q', mc_ins := mc_ins s @ [x]\<rparr>"
      using idle by (cases s) (simp add: s0_def goto_def fun_upd_idem)
    ultimately show ?thesis using q(2) by simp
  qed
qed

lemma dequeue_run:
  assumes idle: "mc_pc s i = M_Idle" and call: "mpmc_dequeue weak (mc_q s) = Inr (Some y, q')"
  shows "mc_step\<^sup>*\<^sup>* s (s\<lparr>mc_q := q', mc_outs := (mc_outs s)(unat (mq_head (mc_q s)) \<mapsto> Some y)\<rparr>)"
proof -
  define p where "p = mq_head (mc_q s)"
  define s0 where "s0 = goto i (D_Pos p) s"
  have s0: "mc_step s s0" "mc_pc s0 i = D_Pos p" "mc_q s0 = mc_q s" "mc_outs s0 = mc_outs s"
    using deq_load [OF idle] by (simp_all add: s0_def p_def goto_def)
  obtain r q1 where claim: "mpmc_claim_head (Suc (length weak)) weak (mc_q s) p = Inr (r, q1)"
    using call by (auto simp: mpmc_dequeue_def p_def res_bind_def split: sum.splits)
  have r: "r = Some p" using claim_head_cases [OF claim] call claim by (auto simp: mpmc_dequeue_def p_def)
  let ?s1 = "goto i (D_Claimed p) (s0\<lparr>mc_q := q1\<rparr>)"
  have run: "mc_step\<^sup>*\<^sup>* s ?s1"
    using s0(1) claim_head_run [of _ _ s0, unfolded s0(3), OF claim s0(2)] unfolding r option.case by (rule converse_rtranclp_into_rtranclp)
  have y: "cl_data (cell_at q1 p) = Some y" "q' = set_cell q1 p ((cell_at q1 p)\<lparr>cl_seq := p + mq_capacity q1\<rparr>)"
    using call claim r by (auto simp: mpmc_dequeue_def p_def [symmetric] Let_def cell_at_def set_cell_def)
  let ?s2 = "goto i (D_Read p (Some y)) (?s1\<lparr>mc_outs := (mc_outs s)(unat p \<mapsto> Some y)\<rparr>)"
  have "mc_step ?s1 ?s2" using deq_read [of ?s1 i p] y(1) s0(4) by (simp add: goto_def)
  moreover have "mc_step ?s2 (goto i M_Idle (?s2\<lparr>mc_q := q'\<rparr>))" using deq_release [of ?s2 i p] y(2) by (simp add: goto_def)
  ultimately have "mc_step\<^sup>*\<^sup>* s (goto i M_Idle (?s2\<lparr>mc_q := q'\<rparr>))" using run by auto
  moreover have "goto i M_Idle (?s2\<lparr>mc_q := q'\<rparr>) = s\<lparr>mc_q := q', mc_outs := (mc_outs s)(unat p \<mapsto> Some y)\<rparr>"
    using idle by (cases s) (simp add: s0_def goto_def fun_upd_idem)
  ultimately show ?thesis by (simp add: p_def)
qed

text \<open>
  A call of \<open>enqueue\<close> or \<open>dequeue\<close> that is not interrupted, however often its
  \<open>compare_exchange_weak\<close> fails, is one of the executions of the step machine, with the same
  queue and the same answer.
\<close>

lemma mpmc_call_is_run:
  assumes "mc_pc s i = M_Idle"
  shows "(mpmc_enqueue weak (mc_q s) x = Inr (ok, q') \<longrightarrow>
      mc_step\<^sup>*\<^sup>* s (s\<lparr>mc_q := q', mc_ins := mc_ins s @ (if ok then [x] else [])\<rparr>)) \<and>
    (mpmc_dequeue weak (mc_q s) = Inr (Some y, q') \<longrightarrow>
      mc_step\<^sup>*\<^sup>* s (s\<lparr>mc_q := q', mc_outs := (mc_outs s)(unat (mq_head (mc_q s)) \<mapsto> Some y)\<rparr>))"
  using enqueue_run [OF assms] dequeue_run [OF assms] by blast

lemma mpmc_call_is_run_witness:
  "\<exists>s q. mpmc_enqueue [False] (mc_q s) (7 :: nat) = Inr (True, q) \<and> mc_step\<^sup>*\<^sup>* s (s\<lparr>mc_q := q, mc_ins := [7]\<rparr>)"
proof -
  define q0 :: "nat mpmc" where "q0 = \<lparr>mq_buffer = [\<lparr>cl_seq = 0, cl_data = None\<rparr>, \<lparr>cl_seq = 1, cl_data = None\<rparr>],
    mq_head = 0, mq_tail = 0, mq_capacity = 2, mq_mask = 1\<rparr>"
  obtain q where q: "mpmc_enqueue [False] q0 7 = Inr (True, q)"
    by (simp add: mpmc_enqueue_def mpmc_claim_tail.simps q0_def ring_slot_def diff64_def)
  let ?s = "mc_start q0"
  have "mc_pc ?s 0 = M_Idle" "mc_q ?s = q0" "mc_ins ?s = []" by (simp_all add: mc_start_def)
  with mpmc_call_is_run [of ?s 0 "[False]" 7 True q] q show ?thesis by (intro exI [of _ ?s] exI [of _ q]) simp
qed

section \<open>A thread that runs alone returns\<close>

text \<open>
  One access of thread \<open>i\<close>: every access moves its thread on and leaves the others where they are
  (\<open>access_of_one\<close>). A \<open>compare_exchange_weak\<close> that fails although the counter has the expected
  value fails spuriously.
\<close>

definition access :: "nat \<Rightarrow> 'a mc_sys \<Rightarrow> 'a mc_sys \<Rightarrow> bool" where
  "access i s t \<longleftrightarrow> mc_step s t \<and> mc_pc t i \<noteq> mc_pc s i"

fun spurious :: "'a mpmc \<Rightarrow> 'a mc_pc \<Rightarrow> 'a mc_pc \<Rightarrow> bool" where
  "spurious q (E_Seq x p n) (E_Pos y r) \<longleftrightarrow> diff64 n p = Inr 0 \<and> mq_tail q = p"
| "spurious q (D_Seq p n) (D_Pos r) \<longleftrightarrow> diff64 n (p + 1) = Inr 0 \<and> mq_head q = p"
| "spurious q pc pc' \<longleftrightarrow> False"

text \<open>
  \<open>solo_run i k n s u\<close>: from \<open>s\<close> to \<open>u\<close> only thread \<open>i\<close> runs, inside the call it is in; it makes
  \<open>n\<close> accesses, of which \<open>k\<close> are spurious failures.
\<close>

inductive solo_run :: "nat \<Rightarrow> nat \<Rightarrow> nat \<Rightarrow> 'a mc_sys \<Rightarrow> 'a mc_sys \<Rightarrow> bool" where
  solo_none: "solo_run i 0 0 s s"
| solo_more: "solo_run i k n s t \<Longrightarrow> mc_pc t i \<noteq> M_Idle \<Longrightarrow> access i t u \<Longrightarrow>
    solo_run i (if spurious (mc_q t) (mc_pc t i) (mc_pc u i) then Suc k else k) (Suc n) s u"

lemma goto_pc [simp]: "mc_pc (goto i pc s) = (mc_pc s)(i := pc)" "mc_q (goto i pc s) = mc_q s" "mc_ins (goto i pc s) = mc_ins s"
  by (simp_all add: goto_def)

lemma moves_goto: "mc_pc s' = mc_pc s \<Longrightarrow> pc \<noteq> mc_pc s i \<Longrightarrow>
    \<exists>j pc'. mc_pc (goto i pc s') = (mc_pc s)(j := pc') \<and> pc' \<noteq> mc_pc s j"
  by (intro exI [of _ i] exI [of _ pc]) simp

lemma mc_step_moves_one: "mc_step s t \<Longrightarrow> \<exists>i pc. mc_pc t = (mc_pc s)(i := pc) \<and> pc \<noteq> mc_pc s i"
  by (induction rule: mc_step.induct) (rule moves_goto; simp)+

lemma access_of_one: "mc_step s t \<Longrightarrow> \<exists>i. access i s t \<and> (\<forall>j. j \<noteq> i \<longrightarrow> mc_pc t j = mc_pc s j)"
  using mc_step_moves_one [of s t] by (auto simp: access_def)

lemma access_others: "access i s t \<Longrightarrow> j \<noteq> i \<Longrightarrow> mc_pc t j = mc_pc s j"
  using access_of_one [of s t] unfolding access_def by metis

text \<open>A sequence number loaded at the current counter never tells a thread to load the counter again.\<close>

lemma seq_current:
  assumes shape: "mc_shape q ins W R" and cells: "mc_cells q ins W R"
  shows "unat (cl_seq (mpmc_cell q (tl_of q))) \<le> tl_of q" "unat (cl_seq (mpmc_cell q (hd_of q))) \<le> Suc (hd_of q)"
proof -
  obtain k where k: "ring_shape k (mq_mask q) (cap_of q)"
    and b: "2 \<le> cap_of q" "hd_of q \<le> tl_of q" "tl_of q \<le> hd_of q + cap_of q"
    by (rule mc_shapeD [OF shape])
  show "unat (cl_seq (mpmc_cell q (tl_of q))) \<le> tl_of q"
  proof (cases "tl_of q < hd_of q + cap_of q")
    case True
    moreover have "Suc (tl_of q - cap_of q) \<le> tl_of q" if "cap_of q \<le> tl_of q" using that b(1) by linarith
    ultimately show ?thesis using mc_cellsD(3) [OF cells order_refl] by simp
  next
    case False
    then have t: "tl_of q = hd_of q + cap_of q" "hd_of q < tl_of q" using b by linarith+
    have "mpmc_cell q (tl_of q) = mpmc_cell q (hd_of q)" unfolding t(1) mpmc_cell_index [OF k] mod_add_self2 ..
    moreover have "unat (cl_seq (mpmc_cell q (hd_of q))) \<le> Suc (hd_of q)" using mc_cellsD(1) [OF cells order_refl t(2)] by simp
    ultimately have "unat (cl_seq (mpmc_cell q (tl_of q))) \<le> Suc (hd_of q)" by simp
    then show ?thesis using t(1) b(1) by linarith
  qed
  show "unat (cl_seq (mpmc_cell q (hd_of q))) \<le> Suc (hd_of q)"
  proof (cases "hd_of q < tl_of q")
    case True
    then show ?thesis using mc_cellsD(1) [OF cells order_refl] by simp
  next
    case False
    then have "tl_of q \<le> hd_of q" "hd_of q < hd_of q + cap_of q" using b by linarith+
    moreover have "Suc (hd_of q - cap_of q) \<le> Suc (hd_of q)" by simp
    ultimately show ?thesis using mc_cellsD(3) [OF cells] by simp
  qed
qed

lemma diff64_words: "unat a < 2 ^ 63 \<Longrightarrow> unat b < 2 ^ 63 \<Longrightarrow> diff64 a b = Inr (int (unat a) - int (unat b))"
  using diff64_small [of "unat a" "unat b"] by simp

text \<open>
  How many accesses the call still needs: a thread that has seen the current counter is two
  accesses ahead of one that has to load it again.
\<close>

fun accesses_left :: "'a mpmc \<Rightarrow> 'a mc_pc \<Rightarrow> nat" where
  "accesses_left q M_Idle = 0"
| "accesses_left q (E_Pos x p) = (if p = mq_tail q then 4 else 6)"
| "accesses_left q (E_Seq x p n) = (if p = mq_tail q \<and> unat n \<le> unat p then 3 else 5)"
| "accesses_left q (E_Claimed x p) = 2"
| "accesses_left q (E_Written x p) = 1"
| "accesses_left q (D_Pos p) = (if p = mq_head q then 4 else 6)"
| "accesses_left q (D_Seq p n) = (if p = mq_head q \<and> unat n \<le> Suc (unat p) then 3 else 5)"
| "accesses_left q (D_Claimed p) = 2"
| "accesses_left q (D_Read p v) = 1"

text \<open>The invariant is needed until the position is claimed.\<close>

definition solo_ok :: "nat \<Rightarrow> 'a mc_sys \<Rightarrow> bool" where
  "solo_ok i s \<longleftrightarrow> mc_pc s i = M_Idle \<or> enq_pos (mc_pc s i) \<noteq> None \<or> deq_pos (mc_pc s i) \<noteq> None \<or> mc_inv s \<and> mc_bounded s"

lemma seq_diff:
  assumes "mc_inv s"
  shows "mc_pc s i = E_Seq x p n \<Longrightarrow> diff64 n p = Inr (int (unat n) - int (unat p))"
    and "mc_pc s i = D_Seq p n \<Longrightarrow> diff64 n (p + 1) = Inr (int (unat n) - int (Suc (unat p)))"
proof -
  note b = position_bounds [OF mc_invD(1) [OF assms]]
  show "diff64 n p = Inr (int (unat n) - int (unat p))" if "mc_pc s i = E_Seq x p n"
  proof -
    have "unat n < 2 ^ 63" "unat p \<le> tl_of (mc_q s)" using mc_invD(3) [OF assms, of i] that by (simp_all add: pc_ok_def)
    then show ?thesis using b(1) by (intro diff64_words) linarith+
  qed
  show "diff64 n (p + 1) = Inr (int (unat n) - int (Suc (unat p)))" if "mc_pc s i = D_Seq p n"
  proof -
    have n: "unat n < 2 ^ 63" "unat p \<le> hd_of (mc_q s)" using mc_invD(3) [OF assms, of i] that by (simp_all add: pc_ok_def)
    have "hd_of (mc_q s) + 1 < 2 ^ 63" using mc_invD(1) [OF assms] unfolding mc_shape_def by linarith
    moreover have p: "unat (p + 1) = Suc (unat p)" using distance_Suc [of p 0] n b(2) by simp
    ultimately have "diff64 n (p + 1) = Inr (int (unat n) - int (unat (p + 1)))" using n by (intro diff64_words) simp_all
    then show ?thesis unfolding p .
  qed
qed

lemma seq_positive:
  assumes "mc_inv s"
  shows "mc_pc s i = E_Seq x p n \<Longrightarrow> diff64 n p = Inr d \<Longrightarrow> (0 < d) = (unat p < unat n)"
    and "mc_pc s i = D_Seq p n \<Longrightarrow> diff64 n (p + 1) = Inr d \<Longrightarrow> (0 < d) = (Suc (unat p) < unat n)"
  using seq_diff(1) [OF assms, of i x p n] seq_diff(2) [OF assms, of i p n] by (simp_all only: sum.inject, linarith+)

lemma seq_fresh:
  assumes "mc_inv s"
  shows "unat (cl_seq (cell_at (mc_q s) (mq_tail (mc_q s)))) \<le> tl_of (mc_q s)"
    "unat (cl_seq (cell_at (mc_q s) (mq_head (mc_q s)))) \<le> Suc (hd_of (mc_q s))"
  using seq_current [OF mc_invD(1,2) [OF assms]] by (simp_all add: cell_at_position)

lemma access_left:
  assumes acc: "access i s t" and pc: "mc_pc s i \<noteq> M_Idle" and ok: "solo_ok i s"
  shows "Suc (accesses_left (mc_q t) (mc_pc t i)) \<le> accesses_left (mc_q s) (mc_pc s i) +
    (if spurious (mc_q s) (mc_pc s i) (mc_pc t i) then 2 else 0)"
proof -
  have inv: "mc_inv s" if "enq_pos (mc_pc s i) = None" "deq_pos (mc_pc s i) = None" using ok pc that by (simp add: solo_ok_def)
  from acc have step: "mc_step s t" and moved: "mc_pc t i \<noteq> mc_pc s i" by (simp_all add: access_def)
  have at: "j = i" if "mc_pc t = (mc_pc s)(j := pc')" for j pc' using moved that by (auto split: if_splits)
  from step show ?thesis
  proof cases
    case (enq_seq j x p)
    then show ?thesis using inv seq_fresh(1) at [of j] by auto
  next
    case (deq_seq j p)
    then show ?thesis using inv seq_fresh(2) at [of j] by auto
  next
    case (enq_claim j x p n)
    then show ?thesis using inv seq_diff(1) [of s i x p n] at [of j] by auto
  next
    case (enq_lost j x p n)
    then show ?thesis using inv seq_diff(1) [of s i x p n] at [of j] by auto
  next
    case (enq_again j x p n d)
    with at [of j] have j: "j = i" "mc_pc s i = E_Seq x p n" by auto
    with inv have "unat p < unat n" using seq_positive(1) [of s i x p n d] enq_again by simp
    with enq_again j show ?thesis by auto
  next
    case (deq_claim j p n)
    then show ?thesis using inv seq_diff(2) [of s i p n] at [of j] by auto
  next
    case (deq_lost j p n)
    then show ?thesis using inv seq_diff(2) [of s i p n] at [of j] by auto
  next
    case (deq_again j p n d)
    with at [of j] have j: "j = i" "mc_pc s i = D_Seq p n" by auto
    with inv have "Suc (unat p) < unat n" using seq_positive(2) [of s i p n d] deq_again by simp
    with deq_again j show ?thesis by auto
  qed (use at pc in auto)
qed

lemma solo_ok_access:
  assumes acc: "access i s t" and pc: "mc_pc s i \<noteq> M_Idle" and ok: "solo_ok i s"
  shows "solo_ok i t"
proof -
  from acc have step: "mc_step s t" and moved: "mc_pc t i \<noteq> mc_pc s i" by (simp_all add: access_def)
  have at: "j = i" if "mc_pc t = (mc_pc s)(j := pc')" for j pc' using moved that by (auto split: if_splits)
  have keep: "solo_ok i t" if "mc_inv s \<and> mc_bounded s" "mc_ins t = mc_ins s" "mc_q t = mc_q s"
    using mc_inv_step [OF step] that by (simp add: solo_ok_def)
  from step show ?thesis
  proof cases
    case (enq_seq j x p) then show ?thesis using ok at [of j] by (intro keep) (simp_all add: solo_ok_def)
  next
    case (enq_lost j x p n) then show ?thesis using ok at [of j] by (intro keep) (simp_all add: solo_ok_def)
  next
    case (enq_again j x p n) then show ?thesis using ok at [of j] by (intro keep) (simp_all add: solo_ok_def)
  next
    case (deq_seq j p) then show ?thesis using ok at [of j] by (intro keep) (simp_all add: solo_ok_def)
  next
    case (deq_lost j p n) then show ?thesis using ok at [of j] by (intro keep) (simp_all add: solo_ok_def)
  next
    case (deq_again j p n) then show ?thesis using ok at [of j] by (intro keep) (simp_all add: solo_ok_def)
  next
    case (enq_load j x) then show ?thesis using pc at [of j] by simp
  next
    case (deq_load j) then show ?thesis using pc at [of j] by simp
  next
    case (enq_claim j x p n) then show ?thesis using at [of j] by (simp add: solo_ok_def)
  next
    case (enq_full j x p n) then show ?thesis using at [of j] by (simp add: solo_ok_def)
  next
    case (enq_write j x p) then show ?thesis using at [of j] by (simp add: solo_ok_def)
  next
    case (enq_publish j x p) then show ?thesis using at [of j] by (simp add: solo_ok_def)
  next
    case (deq_claim j p n) then show ?thesis using at [of j] by (simp add: solo_ok_def)
  next
    case (deq_empty j p n) then show ?thesis using at [of j] by (simp add: solo_ok_def)
  next
    case (deq_read j p) then show ?thesis using at [of j] by (simp add: solo_ok_def)
  next
    case (deq_release j p v) then show ?thesis using at [of j] by (simp add: solo_ok_def)
  qed
qed

text \<open>A thread inside a call is never stuck, and can go on without a spurious failure.\<close>

lemma access_exists:
  assumes pc: "mc_pc s i \<noteq> M_Idle" and ok: "solo_ok i s"
  shows "\<exists>t. access i s t \<and> \<not> spurious (mc_q s) (mc_pc s i) (mc_pc t i)"
proof (cases "mc_pc s i")
  case (E_Seq x p n)
  then have "mc_inv s" using ok by (simp add: solo_ok_def)
  note d = seq_diff(1) [OF this E_Seq]
  consider "n = p" "mq_tail (mc_q s) = p" | "n = p" "mq_tail (mc_q s) \<noteq> p" | "unat n < unat p" | "unat p < unat n"
    by (metis linorder_neqE_nat word_unat_eq_iff)
  then show ?thesis
  proof cases
    case 1
    then show ?thesis using enq_claim [OF E_Seq] E_Seq d unfolding access_def by fastforce
  next
    case 2
    then show ?thesis using enq_lost [OF E_Seq] E_Seq d unfolding access_def by fastforce
  next
    case 3
    then show ?thesis using enq_full [OF E_Seq d] E_Seq unfolding access_def by fastforce
  next
    case 4
    then have "mc_step s (goto i (E_Pos x (mq_tail (mc_q s))) s)" by (intro enq_again [OF E_Seq d]) linarith
    moreover have "diff64 n p \<noteq> Inr 0" using 4 unfolding d sum.inject by linarith
    ultimately show ?thesis using E_Seq by (intro exI [of _ "goto i (E_Pos x (mq_tail (mc_q s))) s"]) (simp add: access_def)
  qed
next
  case (D_Seq p n)
  then have "mc_inv s" using ok by (simp add: solo_ok_def)
  note d = seq_diff(2) [OF this D_Seq]
  consider "unat n = Suc (unat p)" "mq_head (mc_q s) = p" | "unat n = Suc (unat p)" "mq_head (mc_q s) \<noteq> p"
    | "unat n < Suc (unat p)" | "Suc (unat p) < unat n" by (metis linorder_neqE_nat)
  then show ?thesis
  proof cases
    case 1
    then show ?thesis using deq_claim [OF D_Seq] D_Seq d unfolding access_def by fastforce
  next
    case 2
    then show ?thesis using deq_lost [OF D_Seq] D_Seq d unfolding access_def by fastforce
  next
    case 3
    then show ?thesis using deq_empty [OF D_Seq d] D_Seq unfolding access_def by fastforce
  next
    case 4
    then have "mc_step s (goto i (D_Pos (mq_head (mc_q s))) s)" by (intro deq_again [OF D_Seq d]) linarith
    moreover have "diff64 n (p + 1) \<noteq> Inr 0" using 4 unfolding d sum.inject by linarith
    ultimately show ?thesis using D_Seq by (intro exI [of _ "goto i (D_Pos (mq_head (mc_q s))) s"]) (simp add: access_def)
  qed
next
  case (E_Pos x p) then show ?thesis using enq_seq [OF E_Pos] unfolding access_def by fastforce
next
  case (E_Claimed x p) then show ?thesis using enq_write [OF E_Claimed] unfolding access_def by fastforce
next
  case (E_Written x p) then show ?thesis using enq_publish [OF E_Written] unfolding access_def by fastforce
next
  case (D_Pos p) then show ?thesis using deq_seq [OF D_Pos] unfolding access_def by fastforce
next
  case (D_Claimed p) then show ?thesis using deq_read [OF D_Claimed] unfolding access_def by fastforce
next
  case (D_Read p v) then show ?thesis using deq_release [OF D_Read] unfolding access_def by fastforce
qed (use pc in simp)

lemma solo_run_left:
  assumes "solo_run i k n s u" and "solo_ok i s"
  shows "solo_ok i u \<and> n + accesses_left (mc_q u) (mc_pc u i) \<le> accesses_left (mc_q s) (mc_pc s i) + 2 * k \<and>
    (\<forall>j. j \<noteq> i \<longrightarrow> mc_pc u j = mc_pc s j)"
  using assms
proof (induction rule: solo_run.induct)
  case (solo_more i k n s t u)
  then show ?case using access_left [OF solo_more.hyps(3,2)] solo_ok_access [OF solo_more.hyps(3,2)] access_others [OF solo_more.hyps(3)]
    by (auto split: if_splits)
qed simp

lemma accesses_left_le: "accesses_left q pc \<le> 6"
  by (cases pc) simp_all

lemma solo_run_continues:
  assumes "solo_run i k n s u" and "solo_ok i s" and "mc_pc u i \<noteq> M_Idle"
  shows "\<exists>v. access i u v \<and> solo_run i k (Suc n) s v"
proof -
  obtain v where v: "access i u v" "\<not> spurious (mc_q u) (mc_pc u i) (mc_pc v i)"
    using access_exists [OF assms(3)] solo_run_left [OF assms(1,2)] by blast
  with solo_more [OF assms(1,3) v(1)] show ?thesis by auto
qed

text \<open>Without interference and spurious failures, the call is over after six accesses.\<close>

lemma solo_run_returns:
  assumes "solo_run i k n s u" and "solo_ok i s"
  shows "\<exists>m v. n \<le> m \<and> m \<le> 6 + 2 * k \<and> solo_run i k m s v \<and> mc_pc v i = M_Idle"
proof -
  have b: "m \<le> 6 + 2 * k" if "solo_run i k m s v" for m v
    using solo_run_left [OF that assms(2)] accesses_left_le [of "mc_q s" "mc_pc s i"] by linarith
  show ?thesis using assms(1)
  proof (induction "6 + 2 * k - n" arbitrary: n u rule: less_induct)
    case less
    show ?case
    proof (cases "mc_pc u i = M_Idle")
      case True
      with less.prems b show ?thesis by blast
    next
      case False
      then obtain v where v: "solo_run i k (Suc n) s v" using solo_run_continues [OF less.prems assms(2)] by blast
      moreover have "6 + 2 * k - Suc n < 6 + 2 * k - n" using b [OF v] by linarith
      ultimately show ?thesis using less.hyps [of "Suc n" v] by (meson Suc_leD)
    qed
  qed
qed

text \<open>
  C11: The queue is obstruction free: in whatever state the other threads stopped, a thread inside
  \<open>enqueue\<close> or \<open>dequeue\<close> that runs alone returns, whichever of its accesses are possible: each of
  its runs has at most six accesses, and two more for each spurious failure of
  \<open>compare_exchange_weak\<close>; no run stops before the call is over, as a further access is possible
  that is no spurious failure; and each run ends in this way in a state where the call has returned.
  The other threads stay where they were.
\<close>

theorem mpmc_obstruction_free:
  assumes "mpmc_init c = Inr q0" and "2 \<le> c" and "mc_step\<^sup>*\<^sup>* (mc_start q0) s"
    and "length (mc_ins s) + unat c < 2 ^ 63" and "solo_run i k n s u"
  shows "n \<le> 6 + 2 * k \<and> (\<forall>j. j \<noteq> i \<longrightarrow> mc_pc u j = mc_pc s j) \<and>
    (mc_pc u i \<noteq> M_Idle \<longrightarrow> (\<exists>v. access i u v \<and> solo_run i k (Suc n) s v)) \<and>
    (\<exists>m v. n \<le> m \<and> m \<le> 6 + 2 * k \<and> solo_run i k m s v \<and> mc_pc v i = M_Idle)"
proof -
  have ok: "solo_ok i s"
    using mc_reachable_start [OF assms(1,2,3,4)] assms(4) by (simp add: solo_ok_def)
  show ?thesis
    using solo_run_left [OF assms(5) ok] accesses_left_le [of "mc_q s" "mc_pc s i"] solo_run_continues [OF assms(5) ok]
      solo_run_returns [OF assms(5) ok] by auto
qed

text \<open>An \<open>enqueue\<close> that is about to claim position 0 and fails spuriously once.\<close>

lemma mpmc_obstruction_free_witness:
  "\<exists>q0 s u m v. mpmc_init 2 = Inr (q0 :: nat mpmc) \<and> mc_step\<^sup>*\<^sup>* (mc_start q0) s \<and> mc_pc s 0 = E_Seq 7 0 0 \<and>
    solo_run 0 1 1 s u \<and> mc_pc u 0 = E_Pos 7 0 \<and> m \<le> 8 \<and> solo_run 0 1 m s v \<and> mc_pc v 0 = M_Idle"
proof -
  define q0 :: "nat mpmc" where "q0 = \<lparr>mq_buffer = map (\<lambda>i. \<lparr>cl_seq = of_nat i, cl_data = None\<rparr>) [0..<2],
    mq_head = 0, mq_tail = 0, mq_capacity = 2, mq_mask = 1\<rparr>"
  have init: "mpmc_init 2 = Inr q0" by (simp add: mpmc_init_def q0_def)
  have q0: "mq_tail q0 = 0" "cl_seq (cell_at q0 0) = 0" by (simp_all add: q0_def cell_at_def ring_slot_def numeral_2_eq_2)
  let ?s1 = "goto 0 (E_Pos 7 0) (mc_start q0)"
  let ?s2 = "goto 0 (E_Seq 7 0 0) ?s1"
  let ?u = "goto 0 (E_Pos 7 0) ?s2"
  have "mc_step (mc_start q0) ?s1" using enq_load [of "mc_start q0" 0 7] q0 by (simp add: mc_start_def)
  moreover have "mc_step ?s1 ?s2" using enq_seq [of ?s1 0 7 0] q0 by (simp add: mc_start_def)
  ultimately have run: "mc_step\<^sup>*\<^sup>* (mc_start q0) ?s2" by simp
  have "access 0 ?s2 ?u" using enq_lost [of ?s2 0 7 0 0] q0 by (simp add: access_def mc_start_def diff64_0)
  then have solo: "solo_run 0 1 1 ?s2 ?u"
    using solo_more [OF solo_none, of ?s2 0 ?u] q0 by (simp add: mc_start_def diff64_0)
  from mpmc_obstruction_free [OF init _ run _ solo] obtain m v where
    "m \<le> 8" "solo_run 0 1 m ?s2 v" "mc_pc v 0 = M_Idle" by (auto simp: mc_start_def)
  with init run solo show ?thesis by (intro exI [of _ q0] exI [of _ ?s2] exI [of _ ?u] exI [of _ m] exI [of _ v]) simp
qed

end
