(* ===== verification/LibraryQueue.thy ===== *)
theory LibraryQueue
  imports QueueSpec
begin

text \<open>
  \<^verbatim>\<open>BoostLockFreeQueue\<close> of include/Queue.hpp: an adapter over a third-party queue that is not in
  the repository. \<open>push\<close> and \<open>pop\<close> are the library's calls: \<open>push\<close> returns whether the element
  was stored, \<open>pop\<close> returns whether it wrote an element to \<open>msg\<close>.
\<close>

definition boost_enqueue :: "('q \<Rightarrow> 'a \<Rightarrow> bool \<times> 'q) \<Rightarrow> 'q \<Rightarrow> 'a \<Rightarrow> (bool \<times> 'q) res" where
  "boost_enqueue push q ptr = Inr (push q ptr)"

text \<open>\<open>T msg = nullptr; queue_.pop(msg); return msg;\<close>: the flag is not looked at.\<close>

definition boost_dequeue :: "('q \<Rightarrow> 'a option \<Rightarrow> bool \<times> 'a option \<times> 'q) \<Rightarrow> 'q \<Rightarrow> ('a option \<times> 'q) res" where
  "boost_dequeue pop q = (case pop q None of (_, msg, q') \<Rightarrow> Inr (msg, q'))"

definition boost_ops :: "('q \<Rightarrow> 'a \<Rightarrow> bool \<times> 'q) \<Rightarrow> ('q \<Rightarrow> 'a option \<Rightarrow> bool \<times> 'a option \<times> 'q) \<Rightarrow> ('q, 'a) q_ops" where
  "boost_ops push pop = \<lparr>enqueue_op = boost_enqueue push, dequeue_op = boost_dequeue pop\<rparr>"

section \<open>What the library promises\<close>

text \<open>
  A single thread sees a FIFO queue that stores an element if it has room (\<open>fixed_sized\<close>:
  1024 nodes) and leaves \<open>msg\<close> alone when it is empty.
\<close>

definition library_fifo :: "('q \<Rightarrow> 'a \<Rightarrow> bool \<times> 'q) \<Rightarrow> ('q \<Rightarrow> 'a option \<Rightarrow> bool \<times> 'a option \<times> 'q) \<Rightarrow>
    ('q \<Rightarrow> bool) \<Rightarrow> ('q \<Rightarrow> 'a list) \<Rightarrow> nat \<Rightarrow> bool" where
  "library_fifo push pop ok content cap \<longleftrightarrow>
    (\<forall>q x. ok q \<longrightarrow> (case push q x of (b, q') \<Rightarrow> ok q' \<and> b = (length (content q) < cap) \<and>
      content q' = (if b then content q @ [x] else content q))) \<and>
    (\<forall>q m. ok q \<longrightarrow> (case pop q m of (b, r, q') \<Rightarrow> ok q' \<and> b = (content q \<noteq> []) \<and>
      r = (case content q of [] \<Rightarrow> m | x # _ \<Rightarrow> Some x) \<and> content q' = tl (content q)))"

text \<open>A list of at most \<open>cap\<close> elements is such a queue.\<close>

definition list_push :: "nat \<Rightarrow> 'a list \<Rightarrow> 'a \<Rightarrow> bool \<times> 'a list" where
  "list_push cap q x = (if length q < cap then (True, q @ [x]) else (False, q))"

definition list_pop :: "'a list \<Rightarrow> 'a option \<Rightarrow> bool \<times> 'a option \<times> 'a list" where
  "list_pop q m = (case q of [] \<Rightarrow> (False, m, []) | x # xs \<Rightarrow> (True, Some x, xs))"

lemma library_fifo_list: "library_fifo (list_push cap) list_pop (\<lambda>_. True) (\<lambda>q. q) cap"
  by (auto simp: library_fifo_def list_push_def list_pop_def split: list.splits)

lemma library_pushD:
  assumes "library_fifo push pop ok content cap" and "ok q"
  shows "\<exists>q'. push q x = (length (content q) < cap, q') \<and> ok q' \<and>
      content q' = (if length (content q) < cap then content q @ [x] else content q)"
proof -
  obtain b q' where p: "push q x = (b, q')" by (cases "push q x")
  have "case push q x of (b, q') \<Rightarrow> ok q' \<and> b = (length (content q) < cap) \<and>
      content q' = (if b then content q @ [x] else content q)"
    using assms by (simp add: library_fifo_def)
  with p show ?thesis by (intro exI [of _ q']) simp
qed

lemma library_popD:
  assumes "library_fifo push pop ok content cap" and "ok q"
  shows "\<exists>q'. pop q None = (content q \<noteq> [], if content q = [] then None else Some (hd (content q)), q') \<and>
      ok q' \<and> content q' = tl (content q)"
proof -
  obtain b r q' where p: "pop q None = (b, r, q')" by (cases "pop q None")
  have "case pop q None of (b, r, q') \<Rightarrow> ok q' \<and> b = (content q \<noteq> []) \<and>
      r = (case content q of [] \<Rightarrow> None | x # _ \<Rightarrow> Some x) \<and> content q' = tl (content q)"
    using assms by (simp add: library_fifo_def)
  with p show ?thesis by (intro exI [of _ q']) (simp split: list.splits)
qed

interpretation lbq: polling_queue "boost_ops (list_push 1024) list_pop" "\<lambda>_ _. True" "\<lambda>q. q"
  by unfold_locales
    (auto simp: boost_ops_def boost_enqueue_def boost_dequeue_def list_push_def list_pop_def split: list.splits)

text \<open>
  The Boost adapter hands on the library's answers: over a fixed-size FIFO of 1024 elements,
  \<open>enqueue\<close> reports whether the element was stored and \<open>dequeue\<close> returns the oldest element, or
  null exactly when the queue is empty.
\<close>

lemma boost_adapter:
  assumes lib: "library_fifo push pop ok content 1024" and q: "ok q"
  shows "(\<exists>q'. enqueue_op (boost_ops push pop) q x = Inr (length (content q) < 1024, q') \<and> ok q' \<and>
      content q' = (if length (content q) < 1024 then content q @ [x] else content q)) \<and>
    (\<exists>q'. dequeue_op (boost_ops push pop) q = Inr (if content q = [] then None else Some (hd (content q)), q') \<and>
      ok q' \<and> content q' = tl (content q))"
  using library_pushD [OF lib q, of x] library_popD [OF lib q]
  by (auto simp: boost_ops_def boost_enqueue_def boost_dequeue_def)

lemma boost_adapter_witness:
  "enqueue_op (boost_ops (list_push 1024) list_pop) [3, 4 :: nat] 5 = Inr (True, [3, 4, 5])"
  using boost_adapter [OF library_fifo_list TrueI, of "[3, 4]" 5] by auto

end
