(* ===== verification/LibraryMap.thy ===== *)
theory LibraryMap
  imports HashMapSpec
begin

text \<open>
  \<^verbatim>\<open>AbslFlatHashMap\<close> of include/HashMap.hpp: an adapter over a third-party hash map. The
  library's calls are the fields of a record; a place \<open>'r\<close> is a reference to a stored value, and
  an iterator is a place or \<^verbatim>\<open>end()\<close>.
\<close>

record ('m, 'k, 'v, 'r) flat_map =
  flat_index :: "'m \<Rightarrow> 'k \<Rightarrow> 'r \<times> 'm"
  flat_insert :: "'m \<Rightarrow> 'k \<times> 'v \<Rightarrow> 'm"
  flat_contains :: "'m \<Rightarrow> 'k \<Rightarrow> bool"
  flat_erase :: "'m \<Rightarrow> 'k \<Rightarrow> nat \<times> 'm"
  flat_find :: "'m \<Rightarrow> 'k \<Rightarrow> 'r option"
  flat_read :: "'m \<Rightarrow> 'r \<Rightarrow> 'v"
  flat_write :: "'m \<Rightarrow> 'r \<Rightarrow> 'v \<Rightarrow> 'm"

definition absl_subscript :: "('m, 'k, 'v, 'r) flat_map \<Rightarrow> 'm \<Rightarrow> 'k \<Rightarrow> 'r \<times> 'm" where
  "absl_subscript L m key = flat_index L m key"

definition absl_insert :: "('m, 'k, 'v, 'r) flat_map \<Rightarrow> 'm \<Rightarrow> 'k \<Rightarrow> 'v \<Rightarrow> 'm" where
  "absl_insert L m key val = flat_insert L m (key, val)"

definition absl_contains :: "('m, 'k, 'v, 'r) flat_map \<Rightarrow> 'm \<Rightarrow> 'k \<Rightarrow> bool" where
  "absl_contains L m key = flat_contains L m key"

definition absl_erase :: "('m, 'k, 'v, 'r) flat_map \<Rightarrow> 'm \<Rightarrow> 'k \<Rightarrow> bool \<times> 'm" where
  "absl_erase L m key = (let (n, m') = flat_erase L m key in (n > 0, m'))"

definition absl_find :: "('m, 'k, 'v, 'r) flat_map \<Rightarrow> 'm \<Rightarrow> 'k \<Rightarrow> 'r option" where
  "absl_find L m key = (case flat_find L m key of None \<Rightarrow> None | Some it \<Rightarrow> Some it)"

definition absl_ops :: "('m, 'k, 'v, 'r) flat_map \<Rightarrow> ('m, 'k, 'v, 'r) hm_ops" where
  "absl_ops L = \<lparr>insert_op = (\<lambda>m k v. Inr (absl_insert L m k v)), contains_op = (\<lambda>m k. Inr (absl_contains L m k)),
    erase_op = (\<lambda>m k. Inr (absl_erase L m k)), find_op = (\<lambda>m k. Inr (absl_find L m k)),
    subscript_op = (\<lambda>m k. Inr (absl_subscript L m k)), deref_op = flat_read L, store_op = flat_write L\<rparr>"

section \<open>What the library promises\<close>

text \<open>
  The documented behaviour: a finite map \<open>\<alpha> m\<close>; \<open>insert\<close> leaves a key that is present alone, indexing
  adds an absent key with a value-initialised value, and \<open>erase\<close> returns the number of elements removed.
\<close>

definition flat_place :: "('m, 'k, 'v, 'r) flat_map \<Rightarrow> ('m \<Rightarrow> 'k \<Rightarrow> 'v option) \<Rightarrow> 'm \<Rightarrow> 'k \<Rightarrow> 'r \<Rightarrow> 'v \<Rightarrow> bool" where
  "flat_place L \<alpha> m k r v \<longleftrightarrow> flat_read L m r = v \<and> (\<forall>w. \<alpha> (flat_write L m r w) = (\<alpha> m)(k \<mapsto> w))"

definition flat_laws :: "('m, 'k, 'v, 'r) flat_map \<Rightarrow> ('m \<Rightarrow> 'k \<Rightarrow> 'v option) \<Rightarrow> 'v \<Rightarrow> bool" where
  "flat_laws L \<alpha> dflt \<longleftrightarrow> (\<forall>m k v.
    flat_contains L m k = (\<alpha> m k \<noteq> None) \<and>
    \<alpha> (flat_insert L m (k, v)) = (if \<alpha> m k = None then (\<alpha> m)(k \<mapsto> v) else \<alpha> m) \<and>
    fst (flat_erase L m k) = (if \<alpha> m k = None then 0 else 1) \<and> \<alpha> (snd (flat_erase L m k)) = (\<alpha> m)(k := None) \<and>
    (case flat_find L m k of None \<Rightarrow> \<alpha> m k = None | Some r \<Rightarrow> (\<exists>x. \<alpha> m k = Some x \<and> flat_place L \<alpha> m k r x)) \<and>
    (case flat_index L m k of (r, m') \<Rightarrow> (let x = (case \<alpha> m k of None \<Rightarrow> dflt | Some x \<Rightarrow> x) in
      \<alpha> m' = (\<alpha> m)(k \<mapsto> x) \<and> flat_place L \<alpha> m' k r x)))"

text \<open>Over such a library the adapter keeps the contract of the map types with a keeping \<open>insert\<close>.\<close>

lemma absl_adapter:
  assumes laws: "flat_laws L \<alpha> dflt"
  shows "keeping_map (absl_ops L) (\<lambda>_. True) \<alpha> dflt"
proof -
  have con: "flat_contains L m k = (\<alpha> m k \<noteq> None)"
    and ins: "\<alpha> (flat_insert L m (k, v)) = (if \<alpha> m k = None then (\<alpha> m)(k \<mapsto> v) else \<alpha> m)"
    and ers: "fst (flat_erase L m k) = (if \<alpha> m k = None then 0 else 1)" "\<alpha> (snd (flat_erase L m k)) = (\<alpha> m)(k := None)"
    and fnd: "case flat_find L m k of None \<Rightarrow> \<alpha> m k = None | Some r \<Rightarrow> (\<exists>x. \<alpha> m k = Some x \<and> flat_place L \<alpha> m k r x)"
    and idx: "case flat_index L m k of (r, m') \<Rightarrow> (let x = (case \<alpha> m k of None \<Rightarrow> dflt | Some x \<Rightarrow> x) in
      \<alpha> m' = (\<alpha> m)(k \<mapsto> x) \<and> flat_place L \<alpha> m' k r x)" for m k v
    by (insert laws [unfolded flat_laws_def, THEN spec [of _ m], THEN spec [of _ k], THEN spec [of _ v]], (elim conjE, assumption)+)
  show ?thesis
  proof (unfold_locales, goal_cases)
    case (1 m k)
    then show ?case by (simp add: absl_ops_def absl_contains_def con)
  next
    case (2 m k)
    with fnd [of m k] show ?case by (auto simp: absl_ops_def absl_find_def split: option.splits)
  next
    case (3 m k v)
    with fnd [of m k] show ?case by (auto simp: absl_ops_def absl_find_def flat_place_def split: option.splits)
  next
    case (4 m k v m')
    then show ?case by (auto simp: absl_ops_def absl_insert_def ins)
  next
    case (5 m k r m')
    with idx [of m k] show ?case by (auto simp: absl_ops_def absl_subscript_def flat_place_def)
  next
    case (6 m k)
    with ers [of m k] show ?case by (cases "flat_erase L m k") (auto simp: absl_ops_def absl_erase_def)
  next
    case (7 m k v m')
    then show ?case by (auto simp: absl_ops_def absl_insert_def ins)
  qed
qed

end
