(* ===== verification/PoolSpec.thy ===== *)
theory PoolSpec
  imports Prelude
begin

text \<open>
  The interface \<^verbatim>\<open>MyPool\<close> of include/MemoryPool.hpp as a record of operations, the contract
  of the pools as a locale, and what a client that only gives back what it holds gets from it.
  The messages of a pool are the elements of its vector, so a message pointer is an index.
\<close>

section \<open>The operations a pool type offers\<close>

text \<open>The null pointer is \<open>None\<close>. The class \<^verbatim>\<open>MemoryPool<P>\<close> forwards both calls.\<close>

record 'p p_ops =
  allocate_op :: "'p \<Rightarrow> (nat option \<times> 'p) res"
  deallocate_op :: "'p \<Rightarrow> nat option \<Rightarrow> 'p res"

section \<open>Contract\<close>

text \<open>
  \<open>free p\<close> are the messages that may be handed out, out of the \<open>size p\<close> messages of the pool.
  Nothing is promised for a pool that is exhausted: the pools throw, return null, or worse.
\<close>

locale mem_pool =
  fixes P :: "'p p_ops"
    and invar :: "'p \<Rightarrow> bool"
    and free :: "'p \<Rightarrow> nat set"
    and size :: "'p \<Rightarrow> nat"
  assumes free_bound: "invar p \<Longrightarrow> i \<in> free p \<Longrightarrow> i < size p"
    and allocate: "invar p \<Longrightarrow> free p \<noteq> {} \<Longrightarrow> \<exists>i p'. allocate_op P p = Inr (Some i, p') \<and> invar p' \<and>
      i \<in> free p \<and> free p' = free p - {i} \<and> size p' = size p"
    and deallocate: "invar p \<Longrightarrow> i < size p \<Longrightarrow> i \<notin> free p \<Longrightarrow>
      \<exists>p'. deallocate_op P p (Some i) = Inr p' \<and> invar p' \<and> free p' = insert i (free p) \<and> size p' = size p"

text \<open>Some pools return null when no message is free, and stay as they are.\<close>

locale nullable_pool = mem_pool +
  assumes exhausted: "invar p \<Longrightarrow> free p = {} \<Longrightarrow> allocate_op P p = Inr (None, p)"

text \<open>
  On an exhausted pool, what \<open>allocate\<close> returns, if it returns at all, is null, and giving the
  null pointer back fails.
\<close>

locale guarded_pool = mem_pool +
  assumes no_message: "invar p \<Longrightarrow> free p = {} \<Longrightarrow> allocate_op P p = Inr (r, p') \<Longrightarrow>
      r = None \<and> (\<exists>e. deallocate_op P p' None = Inl e)"

text \<open>On an exhausted pool \<open>allocate\<close> never returns; such a pool is guarded.\<close>

locale fatal_pool = mem_pool +
  assumes exhausted_fails: "invar p \<Longrightarrow> free p = {} \<Longrightarrow> \<exists>e. allocate_op P p = Inl e"

sublocale fatal_pool \<subseteq> guarded_pool
  by unfold_locales (use exhausted_fails in fastforce)

section \<open>A client\<close>

text \<open>
  A client allocates, or gives back the \<open>n\<close>-th of the messages it holds; a call that is not
  possible is skipped. The result is the messages it holds at the end.
\<close>

datatype pool_call = Allocate | Give_Back nat

fun pool_calls :: "'p p_ops \<Rightarrow> pool_call list \<Rightarrow> nat list \<Rightarrow> 'p \<Rightarrow> (nat list \<times> 'p) res" where
  "pool_calls P [] held p = Inr (held, p)"
| "pool_calls P (Allocate # cs) held p = res_bind (allocate_op P p) (\<lambda>(r, p').
     pool_calls P cs (case r of None \<Rightarrow> held | Some i \<Rightarrow> i # held) p')"
| "pool_calls P (Give_Back n # cs) held p =
    (if n < length held
     then res_bind (deallocate_op P p (Some (held ! n))) (pool_calls P cs (take n held @ drop (Suc n) held))
     else pool_calls P cs held p)"

definition partitioned :: "nat list \<Rightarrow> nat set \<Rightarrow> nat \<Rightarrow> bool" where
  "partitioned held fr n \<longleftrightarrow> distinct held \<and> set held \<inter> fr = {} \<and> set held \<union> fr = {..<n}"

lemma partitioned_give_back:
  assumes "partitioned held fr k" and "n < length held"
  shows "partitioned (take n held @ drop (Suc n) held) (insert (held ! n) fr) k"
proof -
  have split: "held = take n held @ held ! n # drop (Suc n) held" using assms(2) by (rule id_take_nth_drop)
  have "distinct (take n held @ held ! n # drop (Suc n) held)" "set held = insert (held ! n) (set (take n held @ drop (Suc n) held))"
    using assms(1) by (subst (asm) split, simp add: partitioned_def) (subst split, simp)
  then have "distinct (take n held @ drop (Suc n) held)" "held ! n \<notin> set (take n held @ drop (Suc n) held)"
    "set held = insert (held ! n) (set (take n held @ drop (Suc n) held))" by auto
  then show ?thesis using assms(1) unfolding partitioned_def by blast
qed

context mem_pool
begin

text \<open>While the pool is not exhausted, no message is held twice or lost, and no call fails.\<close>

lemma calls_within:
  "invar p \<Longrightarrow> partitioned held (free p) (size p) \<Longrightarrow> length (filter ((=) Allocate) cs) \<le> card (free p) \<Longrightarrow>
    \<exists>held' p'. pool_calls P cs held p = Inr (held', p') \<and> invar p' \<and> size p' = size p \<and> partitioned held' (free p') (size p)"
proof (induction cs arbitrary: held p)
  case (Cons c cs)
  have fin: "finite (free p)" using free_bound [OF Cons.prems(1)] by (auto intro: finite_subset [of _ "{..<size p}"])
  show ?case
  proof (cases c)
    case Allocate
    then have "free p \<noteq> {}" using Cons.prems(3) by auto
    from allocate [OF Cons.prems(1) this] obtain i p1 where a: "allocate_op P p = Inr (Some i, p1)" "invar p1"
      "i \<in> free p" "free p1 = free p - {i}" "size p1 = size p" by blast
    have "partitioned (i # held) (free p1) (size p1)"
      using Cons.prems(2) a(3-5) by (auto simp: partitioned_def)
    moreover have "length (filter ((=) Allocate) cs) \<le> card (free p1)"
      using Cons.prems(3) Allocate a(3,4) fin by (simp add: card_Diff_singleton)
    ultimately show ?thesis using Cons.IH [OF a(2), of "i # held"] a(1,5) Allocate by auto
  next
    case (Give_Back n)
    show ?thesis
    proof (cases "n < length held")
      case True
      then have "held ! n \<in> set held" by simp
      then have h: "held ! n < size p" "held ! n \<notin> free p" using Cons.prems(2) by (auto simp: partitioned_def)
      from deallocate [OF Cons.prems(1) h] obtain p1 where d: "deallocate_op P p (Some (held ! n)) = Inr p1" "invar p1"
        "free p1 = insert (held ! n) (free p)" "size p1 = size p" by blast
      have "partitioned (take n held @ drop (Suc n) held) (free p1) (size p1)"
        using partitioned_give_back [OF Cons.prems(2) True] d(3,4) by simp
      moreover have "length (filter ((=) Allocate) cs) \<le> card (free p1)"
        using Cons.prems(3) Give_Back h(2) d(3) fin by simp
      ultimately show ?thesis using Cons.IH [OF d(2)] True d(1,4) Give_Back by auto
    qed (use Cons Give_Back in simp)
  qed
qed simp

end

context nullable_pool
begin

text \<open>No message is ever held twice, and none is lost between the client and the pool.\<close>

lemma calls_partition:
  "invar p \<Longrightarrow> partitioned held (free p) (size p) \<Longrightarrow>
    \<exists>held' p'. pool_calls P cs held p = Inr (held', p') \<and> invar p' \<and> size p' = size p \<and> partitioned held' (free p') (size p)"
proof (induction cs arbitrary: held p)
  case (Cons c cs)
  show ?case
  proof (cases c)
    case Allocate
    show ?thesis
    proof (cases "free p = {}")
      case True
      with exhausted [OF Cons.prems(1)] Cons Allocate show ?thesis by simp
    next
      case False
      from allocate [OF Cons.prems(1) this] obtain i p1 where a: "allocate_op P p = Inr (Some i, p1)" "invar p1"
        "i \<in> free p" "free p1 = free p - {i}" "size p1 = size p" by blast
      have "partitioned (i # held) (free p1) (size p1)"
        using Cons.prems(2) a(3-5) by (auto simp: partitioned_def)
      from Cons.IH [OF a(2) this] a(1,5) Allocate show ?thesis by auto
    qed
  next
    case (Give_Back n)
    show ?thesis
    proof (cases "n < length held")
      case True
      then have "held ! n \<in> set held" by simp
      then have "held ! n < size p" "held ! n \<notin> free p" using Cons.prems(2) by (auto simp: partitioned_def)
      from deallocate [OF Cons.prems(1) this] obtain p1 where d: "deallocate_op P p (Some (held ! n)) = Inr p1" "invar p1"
        "free p1 = insert (held ! n) (free p)" "size p1 = size p" by blast
      have "partitioned (take n held @ drop (Suc n) held) (free p1) (size p1)"
        using partitioned_give_back [OF Cons.prems(2) True] d(3,4) by simp
      from Cons.IH [OF d(2) this] True d(1,4) Give_Back show ?thesis by auto
    qed (use Cons Give_Back in simp)
  qed
qed simp

end

context guarded_pool
begin

lemma allocate_SomeD:
  assumes "invar p" and "allocate_op P p = Inr (Some i, p')"
  shows "invar p' \<and> i \<in> free p \<and> i < size p \<and> free p' = free p - {i} \<and> size p' = size p"
proof -
  have "free p \<noteq> {}" using no_message [OF assms(1)] assms(2) by blast
  with allocate [OF assms(1)] assms(2) free_bound [OF assms(1)] show ?thesis by auto
qed

lemma allocate_NoneD:
  assumes "invar p" and "allocate_op P p = Inr (None, p')"
  shows "free p = {} \<and> (\<exists>e. deallocate_op P p' None = Inl e)"
proof -
  have "free p = {}" using allocate [OF assms(1)] assms(2) by fastforce
  with no_message [OF assms(1)] assms(2) show ?thesis by blast
qed

end

end
