(* ===== verification/LibraryPool.thy ===== *)
theory LibraryPool
  imports PoolSpec
begin

text \<open>
  \<^verbatim>\<open>BoostPool\<close> and \<^verbatim>\<open>FollyIndexedMemPool\<close> of include/MemoryPool.hpp: adapters over third-party
  pools. The library's calls are parameters: \<open>construct\<close> returns an object or null and \<open>destroy\<close>
  takes one back; \<open>lease\<close> returns a handle that tests false when the pool is empty.
\<close>

text \<open>With and without \<^verbatim>\<open>ThreadSafe\<close> a call does the same; the mutex makes it one step.\<close>

definition boost_allocate :: "('p \<Rightarrow> nat option \<times> 'p) \<Rightarrow> 'p \<Rightarrow> (nat option \<times> 'p) res" where
  "boost_allocate construct p = Inr (construct p)"

definition boost_deallocate :: "('p \<Rightarrow> nat option \<Rightarrow> 'p) \<Rightarrow> 'p \<Rightarrow> nat option \<Rightarrow> 'p res" where
  "boost_deallocate destroy p obj = Inr (destroy p obj)"

definition boost_pool_ops :: "('p \<Rightarrow> nat option \<times> 'p) \<Rightarrow> ('p \<Rightarrow> nat option \<Rightarrow> 'p) \<Rightarrow> 'p p_ops" where
  "boost_pool_ops construct destroy = \<lparr>allocate_op = boost_allocate construct, deallocate_op = boost_deallocate destroy\<rparr>"

definition folly_allocate :: "('p \<Rightarrow> 'h option \<times> 'p) \<Rightarrow> ('h \<Rightarrow> nat) \<Rightarrow> 'p \<Rightarrow> (nat option \<times> 'p) res" where
  "folly_allocate lease release p = (let (handle, p') = lease p in
    case handle of None \<Rightarrow> Inr (None, p') | Some h \<Rightarrow> Inr (Some (release h), p'))"

definition folly_deallocate :: "('p \<Rightarrow> 'p) \<Rightarrow> ('p \<Rightarrow> nat option \<Rightarrow> 'p) \<Rightarrow> 'p \<Rightarrow> nat option \<Rightarrow> 'p res" where
  "folly_deallocate lease_all give_back p msg = Inr (give_back (lease_all p) msg)"

definition folly_pool_ops :: "('p \<Rightarrow> 'h option \<times> 'p) \<Rightarrow> ('h \<Rightarrow> nat) \<Rightarrow> ('p \<Rightarrow> 'p) \<Rightarrow> ('p \<Rightarrow> nat option \<Rightarrow> 'p) \<Rightarrow> 'p p_ops" where
  "folly_pool_ops lease release lease_all give_back =
     \<lparr>allocate_op = folly_allocate lease release, deallocate_op = folly_deallocate lease_all give_back\<rparr>"

section \<open>What the library promises\<close>

text \<open>Objects that are handed out are not handed out again before they come back.\<close>

definition library_pool :: "('p \<Rightarrow> nat option \<times> 'p) \<Rightarrow> ('p \<Rightarrow> nat option \<Rightarrow> 'p) \<Rightarrow> ('p \<Rightarrow> bool) \<Rightarrow> ('p \<Rightarrow> nat set) \<Rightarrow> bool" where
  "library_pool construct destroy ok free \<longleftrightarrow>
    (\<forall>p. ok p \<longrightarrow> (case construct p of (r, p') \<Rightarrow> ok p' \<and> (case r of
        None \<Rightarrow> free p = {} \<and> p' = p | Some i \<Rightarrow> i \<in> free p \<and> free p' = free p - {i}))) \<and>
    (\<forall>p i. ok p \<longrightarrow> i \<notin> free p \<longrightarrow> ok (destroy p (Some i)) \<and> free (destroy p (Some i)) = insert i (free p))"

text \<open>
  The adapters hand on the library's answers: over a pool that keeps its promise, \<open>allocate\<close>
  returns an object that is free, or null if there is none, and \<open>deallocate\<close> makes the object free
  again. With handles that wrap such objects the Folly adapter allocates the same way.
\<close>

lemma boost_pool_adapter:
  assumes lib: "library_pool construct destroy ok free" and p: "ok p"
  shows "(\<exists>r p'. allocate_op (boost_pool_ops construct destroy) p = Inr (r, p') \<and> ok p' \<and>
      (case r of None \<Rightarrow> free p = {} \<and> p' = p | Some i \<Rightarrow> i \<in> free p \<and> free p' = free p - {i})) \<and>
    (i \<notin> free p \<longrightarrow> (\<exists>p'. deallocate_op (boost_pool_ops construct destroy) p (Some i) = Inr p' \<and> ok p' \<and>
      free p' = insert i (free p))) \<and>
    folly_allocate (\<lambda>p. map_prod (map_option h) (\<lambda>p. p) (construct p)) release p = boost_allocate
      (\<lambda>p. map_prod (map_option (release \<circ> h)) (\<lambda>p. p) (construct p)) p"
proof -
  obtain r p' where c: "construct p = (r, p')" by (cases "construct p")
  have "case construct p of (r, p') \<Rightarrow> ok p' \<and> (case r of
      None \<Rightarrow> free p = {} \<and> p' = p | Some i \<Rightarrow> i \<in> free p \<and> free p' = free p - {i})"
    using lib p by (simp add: library_pool_def)
  moreover have "i \<notin> free p \<longrightarrow> ok (destroy p (Some i)) \<and> free (destroy p (Some i)) = insert i (free p)"
    using lib p by (simp add: library_pool_def)
  ultimately show ?thesis using c
    by (cases r) (auto simp: boost_pool_ops_def boost_allocate_def boost_deallocate_def folly_allocate_def)
qed

text \<open>A list of free objects is such a pool.\<close>

definition list_construct :: "nat list \<Rightarrow> nat option \<times> nat list" where
  "list_construct p = (case p of [] \<Rightarrow> (None, []) | i # is' \<Rightarrow> (Some i, is'))"

definition list_destroy :: "nat list \<Rightarrow> nat option \<Rightarrow> nat list" where
  "list_destroy p obj = (case obj of None \<Rightarrow> p | Some i \<Rightarrow> i # p)"

lemma library_pool_list: "library_pool list_construct list_destroy distinct set"
  by (auto simp: library_pool_def list_construct_def list_destroy_def split: list.split)

end
