(* ===== verification/StackPools.thy ===== *)
theory StackPools
  imports PoolSpec
begin

text \<open>
  \<^verbatim>\<open>CustomLockedPool\<close> and \<^verbatim>\<open>CustomLockFreePool\<close> of include/MemoryPool.hpp: the free messages
  are a stack of pointers, a \<^verbatim>\<open>std::stack\<close> behind a mutex or a vector with an atomic top.
\<close>

section \<open>CustomLockedPool\<close>

text \<open>
  The stack of free messages, top first. With and without \<^verbatim>\<open>ThreadSafe\<close> a call does the same;
  the mutex makes it one step.
\<close>

record locked_pool =
  lp_size :: nat
  lp_free :: "nat option list"

definition locked_pool_init :: "nat \<Rightarrow> locked_pool" where
  "locked_pool_init poolMsgCount = \<lparr>lp_size = poolMsgCount, lp_free = rev (map Some [0..<poolMsgCount])\<rparr>"

definition locked_allocate :: "locked_pool \<Rightarrow> (nat option \<times> locked_pool) res" where
  "locked_allocate p = (case lp_free p of
      [] \<Rightarrow> Inl (Throw (Runtime_Error ''No free messages available in the pool''))
    | msg # rest \<Rightarrow> Inr (msg, p\<lparr>lp_free := rest\<rparr>))"

definition locked_deallocate :: "locked_pool \<Rightarrow> nat option \<Rightarrow> locked_pool res" where
  "locked_deallocate p msg = Inr (p\<lparr>lp_free := msg # lp_free p\<rparr>)"

definition locked_pool_ops :: "locked_pool p_ops" where
  "locked_pool_ops = \<lparr>allocate_op = locked_allocate, deallocate_op = locked_deallocate\<rparr>"

definition locked_pool_inv :: "locked_pool \<Rightarrow> bool" where
  "locked_pool_inv p \<longleftrightarrow> distinct (lp_free p) \<and> (\<forall>m \<in> set (lp_free p). \<exists>i < lp_size p. m = Some i)"

definition locked_pool_free :: "locked_pool \<Rightarrow> nat set" where
  "locked_pool_free p = {i. Some i \<in> set (lp_free p)}"

lemma locked_pool_emptyD: "locked_pool_inv p \<Longrightarrow> locked_pool_free p = {} \<longleftrightarrow> lp_free p = []"
  by (cases "lp_free p") (auto simp: locked_pool_inv_def locked_pool_free_def)

interpretation lkp: fatal_pool locked_pool_ops locked_pool_inv locked_pool_free lp_size
proof (unfold_locales, goal_cases)
  case (1 p i)
  then show ?case by (auto simp: locked_pool_inv_def locked_pool_free_def)
next
  case (2 p)
  then obtain m rest where m: "lp_free p = m # rest" using locked_pool_emptyD by (cases "lp_free p") auto
  with 2 obtain i where "m = Some i" by (auto simp: locked_pool_inv_def)
  with m 2 show ?case
    by (auto simp: locked_pool_ops_def locked_allocate_def locked_pool_inv_def locked_pool_free_def)
next
  case (3 p i)
  then show ?case
    by (auto simp: locked_pool_ops_def locked_deallocate_def locked_pool_inv_def locked_pool_free_def)
next
  case (4 p)
  with locked_pool_emptyD show ?case by (simp add: locked_pool_ops_def locked_allocate_def)
qed

section \<open>CustomLockFreePool\<close>

text \<open>
  \<open>lf_head\<close> is the index of the top pointer, a signed counter; -1 when no message is free.
  \<open>weak\<close> lists outcomes of \<open>compare_exchange_weak\<close> that fail although the values agree.
\<close>

record lockfree_pool =
  lf_slots :: "nat option list"
  lf_head :: int

definition lockfree_init :: "nat \<Rightarrow> lockfree_pool" where
  "lockfree_init poolMsgCount = \<lparr>lf_slots = map Some [0..<poolMsgCount], lf_head = int poolMsgCount - 1\<rparr>"

fun lockfree_pop :: "nat \<Rightarrow> bool list \<Rightarrow> lockfree_pool \<Rightarrow> int \<Rightarrow> (nat option \<times> lockfree_pool) res" where
  "lockfree_pop 0 weak p currentHead = Inl Diverges"
| "lockfree_pop (Suc fuel) weak p currentHead =
    (if currentHead < 0 then Inr (None, p)
     else if nat currentHead \<ge> length (lf_slots p) then Inl (UB Out_Of_Bounds)
     else let msg = lf_slots p ! nat currentHead in
       if lf_head p \<noteq> currentHead \<or> (weak \<noteq> [] \<and> \<not> hd weak) then lockfree_pop fuel (tl weak) p (lf_head p)
       else Inr (msg, p\<lparr>lf_head := currentHead - 1\<rparr>))"

definition lockfree_allocate :: "bool list \<Rightarrow> lockfree_pool \<Rightarrow> (nat option \<times> lockfree_pool) res" where
  "lockfree_allocate weak p = lockfree_pop (Suc (length weak)) weak p (lf_head p)"

fun lockfree_push :: "nat \<Rightarrow> bool list \<Rightarrow> lockfree_pool \<Rightarrow> nat option \<Rightarrow> int \<Rightarrow> lockfree_pool res" where
  "lockfree_push 0 weak p msg currentHead = Inl Diverges"
| "lockfree_push (Suc fuel) weak p msg currentHead = (let nextHead = currentHead + 1 in
    if nextHead \<ge> int (length (lf_slots p)) then Inl (Throw (Runtime_Error ''Pool overflow on deallocate''))
    else let p' = p\<lparr>lf_slots := (lf_slots p)[nat nextHead := msg]\<rparr> in
      if lf_head p' \<noteq> currentHead \<or> (weak \<noteq> [] \<and> \<not> hd weak) then lockfree_push fuel (tl weak) p' msg (lf_head p')
      else Inr (p'\<lparr>lf_head := nextHead\<rparr>))"

definition lockfree_deallocate :: "bool list \<Rightarrow> lockfree_pool \<Rightarrow> nat option \<Rightarrow> lockfree_pool res" where
  "lockfree_deallocate weak p msg =
    (if msg = None then Inl (Throw (Runtime_Error ''Cannot deallocate a null message''))
     else lockfree_push (Suc (length weak)) weak p msg (lf_head p))"

definition lockfree_ops :: "bool list \<Rightarrow> bool list \<Rightarrow> lockfree_pool p_ops" where
  "lockfree_ops aw dw = \<lparr>allocate_op = lockfree_allocate aw, deallocate_op = lockfree_deallocate dw\<rparr>"

definition lockfree_stack :: "lockfree_pool \<Rightarrow> nat option list" where
  "lockfree_stack p = take (nat (lf_head p + 1)) (lf_slots p)"

definition lockfree_inv :: "lockfree_pool \<Rightarrow> bool" where
  "lockfree_inv p \<longleftrightarrow> - 1 \<le> lf_head p \<and> lf_head p < int (length (lf_slots p)) \<and> distinct (lockfree_stack p) \<and>
    (\<forall>m \<in> set (lockfree_stack p). \<exists>i < length (lf_slots p). m = Some i)"

definition lockfree_free :: "lockfree_pool \<Rightarrow> nat set" where
  "lockfree_free p = {i. Some i \<in> set (lockfree_stack p)}"

lemma lockfree_pop_result:
  assumes "lockfree_inv p"
  shows "lockfree_pop (Suc (length weak)) weak p (lf_head p) =
    (if lf_head p < 0 then Inr (None, p) else Inr (lf_slots p ! nat (lf_head p), p\<lparr>lf_head := lf_head p - 1\<rparr>))"
proof (induction weak)
  case (Cons w weak)
  then show ?case using assms by (cases w) (auto simp: lockfree_inv_def Let_def nat_less_iff not_le)
qed (use assms in \<open>auto simp: lockfree_inv_def Let_def nat_less_iff not_le\<close>)

lemma lockfree_push_result:
  "lf_head p + 1 < int (length (lf_slots p)) \<Longrightarrow>
    lockfree_push (Suc (length weak)) weak p msg (lf_head p) =
      Inr (p\<lparr>lf_slots := (lf_slots p)[nat (lf_head p + 1) := msg], lf_head := lf_head p + 1\<rparr>)"
proof (induction weak arbitrary: p)
  case (Cons w weak)
  show ?case
  proof (cases w)
    case False
    let ?p' = "p\<lparr>lf_slots := (lf_slots p)[nat (lf_head p + 1) := msg]\<rparr>"
    have "lockfree_push (Suc (length (w # weak))) (w # weak) p msg (lf_head p)
        = lockfree_push (Suc (length weak)) weak ?p' msg (lf_head ?p')"
      using False Cons.prems by (subst lockfree_push.simps(2)) (simp add: Let_def del: lockfree_push.simps)
    with Cons.IH [of ?p'] Cons.prems show ?thesis by simp
  qed (use Cons.prems in \<open>simp add: Let_def\<close>)
qed (simp add: Let_def)

declare lockfree_pop.simps [simp del] lockfree_push.simps [simp del]

text \<open>With a message out, the stack is not full: the free messages are distinct.\<close>

lemma lockfree_room:
  assumes inv: "lockfree_inv p" and "i < length (lf_slots p)" and "i \<notin> lockfree_free p"
  shows "lf_head p + 1 < int (length (lf_slots p))"
proof (rule ccontr)
  assume "\<not> ?thesis"
  then have full: "lockfree_stack p = lf_slots p" using inv by (simp add: lockfree_inv_def lockfree_stack_def)
  then have sub: "set (lf_slots p) \<subseteq> Some ` {..<length (lf_slots p)}" using inv by (auto simp: lockfree_inv_def)
  have "card (set (lf_slots p)) = length (lf_slots p)"
    using inv full by (simp add: lockfree_inv_def distinct_card)
  moreover have "card (Some ` {..<length (lf_slots p)}) = length (lf_slots p)" by (simp add: card_image)
  ultimately have "set (lf_slots p) = Some ` {..<length (lf_slots p)}"
    using sub by (intro card_subset_eq) simp_all
  then have "Some i \<in> set (lockfree_stack p)" using full assms(2) by simp
  then show False using assms(3) by (simp add: lockfree_free_def)
qed

interpretation lfp: nullable_pool "lockfree_ops aw dw" lockfree_inv lockfree_free "\<lambda>p. length (lf_slots p)"
  for aw dw :: "bool list"
proof (unfold_locales, goal_cases)
  case (1 p i)
  then show ?case by (auto simp: lockfree_inv_def lockfree_free_def)
next
  case (2 p)
  let ?h = "lf_head p"
  have "lockfree_stack p \<noteq> []" using 2(2) by (auto simp: lockfree_free_def)
  then have "0 < nat (?h + 1)" by (cases "nat (?h + 1)") (simp_all add: lockfree_stack_def)
  then have h: "0 \<le> ?h" "nat ?h < length (lf_slots p)"
    using 2(1) by (auto simp: lockfree_inv_def nat_less_iff)
  then have "nat (?h + 1) = Suc (nat ?h)" by simp
  then have st: "lockfree_stack p = take (nat ?h) (lf_slots p) @ [lf_slots p ! nat ?h]"
    using h by (simp add: lockfree_stack_def take_Suc_conv_app_nth)
  have st': "lockfree_stack (p\<lparr>lf_head := ?h - 1\<rparr>) = take (nat ?h) (lf_slots p)" by (simp add: lockfree_stack_def)
  obtain i where i: "lf_slots p ! nat ?h = Some i" using 2(1) st by (auto simp: lockfree_inv_def)
  have "lockfree_inv (p\<lparr>lf_head := ?h - 1\<rparr>)" using 2(1) h st unfolding lockfree_inv_def st' by auto
  moreover have "i \<in> lockfree_free p" "lockfree_free (p\<lparr>lf_head := ?h - 1\<rparr>) = lockfree_free p - {i}"
    using 2(1) unfolding lockfree_free_def st' st i lockfree_inv_def by auto
  ultimately show ?case using h(1) i lockfree_pop_result [OF 2(1), of aw]
    by (auto simp: lockfree_ops_def lockfree_allocate_def)
next
  case (3 p i)
  let ?h = "lf_head p" and ?p' = "p\<lparr>lf_slots := (lf_slots p)[nat (lf_head p + 1) := Some i], lf_head := lf_head p + 1\<rparr>"
  have room: "?h + 1 < int (length (lf_slots p))" using lockfree_room [OF 3] .
  have nn: "- 1 \<le> ?h" using 3(1) by (simp add: lockfree_inv_def)
  then have "nat (?h + 1 + 1) = Suc (nat (?h + 1))" by simp
  then have st: "lockfree_stack ?p' = lockfree_stack p @ [Some i]"
    using room nn by (simp add: lockfree_stack_def take_Suc_conv_app_nth)
  have "lockfree_inv ?p'" using 3 room unfolding lockfree_inv_def st by (auto simp: lockfree_free_def)
  moreover have "lockfree_free ?p' = insert i (lockfree_free p)" unfolding lockfree_free_def st by auto
  ultimately show ?case using lockfree_push_result [OF room, of dw "Some i"]
    by (auto simp: lockfree_ops_def lockfree_deallocate_def)
next
  case (4 p)
  then have "lf_head p < 0"
  proof (rule_tac ccontr)
    assume "\<not> lf_head p < 0"
    then have "0 < nat (lf_head p + 1)" "nat (lf_head p) < length (lf_slots p)" using 4(1) by (auto simp: lockfree_inv_def)
    then have "lockfree_stack p \<noteq> []" by (auto simp: lockfree_stack_def)
    then obtain m where "m \<in> set (lockfree_stack p)" by (cases "lockfree_stack p") auto
    with 4 show False by (auto simp: lockfree_inv_def lockfree_free_def)
  qed
  then show ?case using lockfree_pop_result [OF 4(1), of aw] by (simp add: lockfree_ops_def lockfree_allocate_def)
qed

interpretation lfg: guarded_pool "lockfree_ops aw dw" lockfree_inv lockfree_free "\<lambda>p. length (lf_slots p)"
  for aw dw :: "bool list"
proof (unfold_locales, goal_cases)
  case (1 p r p')
  with lfp.exhausted [OF 1(1,2), of aw dw] show ?case by (auto simp: lockfree_ops_def lockfree_deallocate_def)
qed

section \<open>Properties of the calls of one thread\<close>

lemma lockfree_init_inv: "lockfree_inv (lockfree_init n)" "lockfree_free (lockfree_init n) = {..<n}"
  by (auto simp: lockfree_inv_def lockfree_free_def lockfree_stack_def lockfree_init_def distinct_map)

lemma locked_pool_init_inv: "locked_pool_inv (locked_pool_init n)" "locked_pool_free (locked_pool_init n) = {..<n}"
  by (auto simp: locked_pool_inv_def locked_pool_free_def locked_pool_init_def distinct_map)

text \<open>
  C18: A \<^verbatim>\<open>CustomLockFreePool\<close> used by one thread at a time never hands out a message that is
  already held and never loses one, over any sequence of calls that gives back only what it
  holds and whatever spurious failures the exchanges have; when no message is free it returns
  null.
\<close>

theorem lockfree_pool_partition:
  "\<exists>held p. pool_calls (lockfree_ops aw dw) cs [] (lockfree_init n) = Inr (held, p) \<and>
    distinct held \<and> set held \<inter> lockfree_free p = {} \<and> set held \<union> lockfree_free p = {..<n} \<and>
    (lockfree_free p = {} \<longrightarrow> lockfree_allocate aw p = Inr (None, p))"
proof -
  have "partitioned [] (lockfree_free (lockfree_init n)) (length (lf_slots (lockfree_init n)))"
    by (simp add: partitioned_def lockfree_init_inv) (simp add: lockfree_init_def)
  from lfp.calls_partition [OF lockfree_init_inv(1) this, of aw dw cs]
  obtain held p where "pool_calls (lockfree_ops aw dw) cs [] (lockfree_init n) = Inr (held, p)" "lockfree_inv p"
    "partitioned held (lockfree_free p) n"
    by (auto simp: lockfree_init_def)
  moreover from lfp.exhausted [OF this(2), of aw]
  have "lockfree_free p = {} \<longrightarrow> lockfree_allocate aw p = Inr (None, p)" by (simp add: lockfree_ops_def)
  ultimately show ?thesis unfolding partitioned_def by blast
qed

lemma lockfree_pool_partition_witness:
  "\<exists>held p. pool_calls (lockfree_ops [] []) [Allocate, Allocate, Allocate] [] (lockfree_init 2) = Inr (held, p) \<and>
    set held = {..<2} - lockfree_free p"
  using lockfree_pool_partition [of "[]" "[]" "[Allocate, Allocate, Allocate]" 2] by blast

text \<open>
  A \<^verbatim>\<open>CustomLockedPool\<close> of \<open>n\<close> messages hands out distinct messages and loses none, and
  exactly the allocation that finds no free message throws.
\<close>

lemma locked_pool_partition:
  assumes "length (filter ((=) Allocate) cs) \<le> n"
  shows "\<exists>held p. pool_calls locked_pool_ops cs [] (locked_pool_init n) = Inr (held, p) \<and>
    distinct held \<and> set held \<inter> locked_pool_free p = {} \<and> set held \<union> locked_pool_free p = {..<n} \<and>
    (locked_allocate p = Inl (Throw (Runtime_Error ''No free messages available in the pool''))
      \<longleftrightarrow> length held = n)"
proof -
  have "partitioned [] (locked_pool_free (locked_pool_init n)) (lp_size (locked_pool_init n))"
    by (simp add: partitioned_def locked_pool_init_inv) (simp add: locked_pool_init_def)
  moreover have "length (filter ((=) Allocate) cs) \<le> card (locked_pool_free (locked_pool_init n))"
    using assms by (simp add: locked_pool_init_inv)
  ultimately obtain held p where h: "pool_calls locked_pool_ops cs [] (locked_pool_init n) = Inr (held, p)"
    "locked_pool_inv p" "partitioned held (locked_pool_free p) n"
    using lkp.calls_within [OF locked_pool_init_inv(1)] by (fastforce simp: locked_pool_init_def)
  have "locked_pool_free p = {} \<longleftrightarrow> length held = n"
  proof
    assume "locked_pool_free p = {}"
    then have "set held = {..<n}" "distinct held" using h(3) by (simp_all add: partitioned_def)
    then show "length held = n" by (metis card_lessThan distinct_card)
  next
    assume n: "length held = n"
    have "card (set held) = n" using h(3) n by (simp add: partitioned_def distinct_card)
    then have "set held = {..<n}" using h(3) by (intro card_subset_eq) (auto simp: partitioned_def)
    then show "locked_pool_free p = {}" using h(3) by (auto simp: partitioned_def)
  qed
  moreover have "locked_allocate p = Inl (Throw (Runtime_Error ''No free messages available in the pool''))
      \<longleftrightarrow> locked_pool_free p = {}"
    using locked_pool_emptyD [OF h(2)] by (simp add: locked_allocate_def split: list.splits)
  ultimately show ?thesis using h unfolding partitioned_def by blast
qed

lemma locked_pool_partition_witness:
  "\<exists>held p. pool_calls locked_pool_ops [Allocate, Allocate] [] (locked_pool_init 2) = Inr (held, p) \<and>
    (locked_allocate p = Inl (Throw (Runtime_Error ''No free messages available in the pool'')) \<longleftrightarrow> length held = 2)"
  using locked_pool_partition [of "[Allocate, Allocate]" 2] by auto

section \<open>Two threads in CustomLockFreePool\<close>

text \<open>
  Where a thread is between its atomic accesses: in \<open>allocate\<close> after loading \<open>head_\<close> and after
  reading the slot, in \<open>deallocate\<close> after loading \<open>head_\<close> and after storing into the slot.
\<close>

datatype lf_pc = LF_Idle | LF_Loaded int | LF_Read int "nat option" | LF_Freeing nat int | LF_Stored nat int

record lf_sys =
  ls_pool :: lockfree_pool
  ls_pc :: "nat \<Rightarrow> lf_pc"
  ls_out :: "(nat \<times> nat option) list"

datatype lf_call = LF_Allocate | LF_Deallocate nat

text \<open>
  The next access of thread \<open>t\<close>; \<open>c\<close> is the call it makes when it is idle, \<open>weak\<close> whether an
  exchange fails spuriously. \<open>None\<close> is an exception or an access outside the vector.
\<close>

definition lf_next :: "nat \<Rightarrow> lf_call \<Rightarrow> bool \<Rightarrow> lf_sys \<Rightarrow> lf_sys option" where
  "lf_next t c weak s = (let p = ls_pool s in
    case ls_pc s t of
      LF_Idle \<Rightarrow> Some (s\<lparr>ls_pc := (ls_pc s)(t := (case c of LF_Allocate \<Rightarrow> LF_Loaded (lf_head p)
          | LF_Deallocate i \<Rightarrow> LF_Freeing i (lf_head p)))\<rparr>)
    | LF_Loaded h \<Rightarrow>
        if h < 0 then Some (s\<lparr>ls_pc := (ls_pc s)(t := LF_Idle), ls_out := ls_out s @ [(t, None)]\<rparr>)
        else if nat h < length (lf_slots p) then Some (s\<lparr>ls_pc := (ls_pc s)(t := LF_Read h (lf_slots p ! nat h))\<rparr>)
        else None
    | LF_Read h m \<Rightarrow>
        if lf_head p = h \<and> \<not> weak
        then Some (s\<lparr>ls_pool := p\<lparr>lf_head := h - 1\<rparr>, ls_pc := (ls_pc s)(t := LF_Idle), ls_out := ls_out s @ [(t, m)]\<rparr>)
        else Some (s\<lparr>ls_pc := (ls_pc s)(t := LF_Loaded (lf_head p))\<rparr>)
    | LF_Freeing i h \<Rightarrow>
        if h + 1 < int (length (lf_slots p))
        then Some (s\<lparr>ls_pool := p\<lparr>lf_slots := (lf_slots p)[nat (h + 1) := Some i]\<rparr>,
          ls_pc := (ls_pc s)(t := LF_Stored i h)\<rparr>)
        else None
    | LF_Stored i h \<Rightarrow>
        if lf_head p = h \<and> \<not> weak
        then Some (s\<lparr>ls_pool := p\<lparr>lf_head := h + 1\<rparr>, ls_pc := (ls_pc s)(t := LF_Idle)\<rparr>)
        else Some (s\<lparr>ls_pc := (ls_pc s)(t := LF_Freeing i (lf_head p))\<rparr>))"

inductive lf_step :: "lf_sys \<Rightarrow> lf_sys \<Rightarrow> bool" where
  "lf_next t c weak s = Some s' \<Longrightarrow> lf_step s s'"

fun lf_run :: "(nat \<times> lf_call) list \<Rightarrow> lf_sys \<Rightarrow> lf_sys option" where
  "lf_run [] s = Some s"
| "lf_run ((t, c) # sched) s = (case lf_next t c False s of None \<Rightarrow> None | Some s' \<Rightarrow> lf_run sched s')"

lemma lf_run_steps: "lf_run sched s = Some s' \<Longrightarrow> lf_step\<^sup>*\<^sup>* s s'"
proof (induction sched s rule: lf_run.induct)
  case (2 t c sched s)
  then obtain s1 where "lf_next t c False s = Some s1" "lf_step\<^sup>*\<^sup>* s1 s'" by (auto split: option.splits)
  then show ?case by (meson converse_rtranclp_into_rtranclp lf_step.intros)
qed simp

definition lf_start :: "nat \<Rightarrow> lf_sys" where
  "lf_start n = \<lparr>ls_pool = lockfree_init n, ls_pc = (\<lambda>_. LF_Idle), ls_out = []\<rparr>"

definition two_frees :: "(nat \<times> lf_call) list" where
  "two_frees = replicate 3 (0, LF_Allocate) @ replicate 3 (1, LF_Allocate)
     @ [(0, LF_Deallocate 1), (1, LF_Deallocate 0), (0, LF_Deallocate 1), (1, LF_Deallocate 0)]
     @ [(0, LF_Deallocate 1)] @ replicate 3 (1, LF_Deallocate 0)
     @ replicate 3 (0, LF_Allocate) @ replicate 3 (1, LF_Allocate)"

text \<open>
  \<open>deallocate\<close> of \<^verbatim>\<open>CustomLockFreePool\<close> writes the slot before it owns it. When two
  threads give back messages 1 and 0 at the same time, both write the same slot; afterwards both
  threads are given message 0, and message 1 is lost.
\<close>

lemma lockfree_pool_race:
  "\<exists>s. lf_step\<^sup>*\<^sup>* (lf_start 2) s \<and>
    ls_out s = [(0, Some 1), (1, Some 0), (0, Some 0), (1, Some 0)] \<and> ls_pc s = (\<lambda>_. LF_Idle)"
proof -
  have init: "lockfree_init 2 = \<lparr>lf_slots = [Some 0, Some 1], lf_head = 1\<rparr>"
    by (simp add: lockfree_init_def upt_rec numeral_2_eq_2)
  have three: "replicate 3 x = [x, x, x]" for x :: "nat \<times> lf_call" by (simp add: numeral_3_eq_3)
  have "\<exists>s. lf_run two_frees (lf_start 2) = Some s \<and>
      ls_out s = [(0, Some 1), (1, Some 0), (0, Some 0), (1, Some 0)] \<and> ls_pc s = (\<lambda>_. LF_Idle)"
    unfolding two_frees_def lf_start_def init three
    by (simp add: lf_next_def Let_def fun_eq_iff)
  then show ?thesis using lf_run_steps by blast
qed

end
