(* ===== verification/TaggedPool.thy ===== *)
theory TaggedPool
  imports PoolSpec
begin

text \<open>
  \<^verbatim>\<open>LockFreeThreadSafePool\<close> of include/MemoryPool.hpp: the free messages are a linked list of
  indices in \<open>nextFree_\<close>; \<open>head_\<close> packs the index of the first with a 32-bit tag that every
  exchange increments.
\<close>

section \<open>Model\<close>

record tagged_pool =
  tp_next :: "u64 list"
  tp_head :: u64

definition pack :: "u64 \<Rightarrow> u32 \<Rightarrow> u64" where
  "pack index tag = push_bit 32 (ucast tag) OR ucast (ucast index :: u32)"

definition unpack :: "u64 \<Rightarrow> u64 \<times> u32" where
  "unpack packed = (packed AND 0xFFFFFFFF, ucast (drop_bit 32 packed))"

text \<open>\<open>i - 1\<close> is a \<^verbatim>\<open>size_t\<close>, so the last message's successor is \<open>2 ^ 64 - 1\<close>.\<close>

definition tagged_init :: "u64 \<Rightarrow> tagged_pool" where
  "tagged_init poolMsgCount = \<lparr>tp_next = map (\<lambda>i. of_nat i - 1) [0..<unat poolMsgCount],
     tp_head = pack (poolMsgCount - 1) 0\<rparr>"

fun tagged_pop :: "nat \<Rightarrow> bool list \<Rightarrow> tagged_pool \<Rightarrow> u64 \<Rightarrow> (nat option \<times> tagged_pool) res" where
  "tagged_pop 0 weak p oldHead = Inl Diverges"
| "tagged_pop (Suc fuel) weak p oldHead = (case unpack oldHead of (index, tag) \<Rightarrow>
    if index = - 1 then Inr (None, p)
    else if unat index \<ge> length (tp_next p) then Inl (UB Out_Of_Bounds)
    else let newHead = pack (tp_next p ! unat index) (tag + 1) in
      if tp_head p \<noteq> oldHead \<or> (weak \<noteq> [] \<and> \<not> hd weak) then tagged_pop fuel (tl weak) p (tp_head p)
      else Inr (Some (unat index), p\<lparr>tp_head := newHead\<rparr>))"

definition tagged_allocate :: "bool list \<Rightarrow> tagged_pool \<Rightarrow> (nat option \<times> tagged_pool) res" where
  "tagged_allocate weak p = tagged_pop (Suc (length weak)) weak p (tp_head p)"

fun tagged_push :: "nat \<Rightarrow> bool list \<Rightarrow> tagged_pool \<Rightarrow> nat \<Rightarrow> u64 \<Rightarrow> tagged_pool res" where
  "tagged_push 0 weak p index oldHead = Inl Diverges"
| "tagged_push (Suc fuel) weak p index oldHead = (case unpack oldHead of (headIndex, tag) \<Rightarrow>
    if index \<ge> length (tp_next p) then Inl (UB Out_Of_Bounds)
    else let p' = p\<lparr>tp_next := (tp_next p)[index := headIndex]\<rparr>; newHead = pack (of_nat index) (tag + 1) in
      if tp_head p' \<noteq> oldHead \<or> (weak \<noteq> [] \<and> \<not> hd weak) then tagged_push fuel (tl weak) p' index (tp_head p')
      else Inr (p'\<lparr>tp_head := newHead\<rparr>))"

definition tagged_deallocate :: "bool list \<Rightarrow> tagged_pool \<Rightarrow> nat option \<Rightarrow> tagged_pool res" where
  "tagged_deallocate weak p msg = (case msg of
      None \<Rightarrow> Inl (Throw (Runtime_Error ''Cannot deallocate nullptr''))
    | Some index \<Rightarrow> tagged_push (Suc (length weak)) weak p index (tp_head p))"

definition tagged_ops :: "bool list \<Rightarrow> bool list \<Rightarrow> tagged_pool p_ops" where
  "tagged_ops aw dw = \<lparr>allocate_op = tagged_allocate aw, deallocate_op = tagged_deallocate dw\<rparr>"

section \<open>The packed head\<close>

lemma mask32: "(0xFFFFFFFF :: u64) = mask 32"
  by (simp add: mask_eq_exp_minus_1)

lemma unpack_pack: "unpack (pack index tag) = (index AND 0xFFFFFFFF, tag)"
  unfolding unpack_def pack_def mask32 prod.inject
  by (intro conjI bit_word_eqI) (auto simp: bit_simps)

lemma unpack_less: "unat (fst (unpack h)) < 2 ^ 32"
proof -
  have "unat (h AND (2 ^ 32 - 1)) = unat h mod 2 ^ 32" by (rule unat_and_mask) simp
  then show ?thesis by (simp add: unpack_def)
qed

lemma unpack_not_end: "fst (unpack h) \<noteq> - 1"
proof
  assume "fst (unpack h) = - 1"
  moreover have "unat (- 1 :: u64) = 2 ^ 64 - 1" by (simp add: unsigned_minus_1_eq_mask mask_eq_exp_minus_1)
  ultimately show False using unpack_less [of h] by simp
qed

lemma unat_and_mask32: "unat (w AND 0xFFFFFFFF) = unat w mod 2 ^ 32" for w :: u64
  using unat_and_mask [of 32 w] by simp

lemma index_and_mask: "n < 2 ^ 32 \<Longrightarrow> (of_nat n :: u64) AND 0xFFFFFFFF = of_nat n"
  by (simp add: word_unat_eq_iff unat_and_mask32 unsigned_of_nat take_bit_nat_eq_self)

lemma fst_unpack: "fst (unpack h) = h AND 0xFFFFFFFF"
  by (simp add: unpack_def)

section \<open>The list of free messages\<close>

text \<open>The links as they are followed; \<open>n\<close> bounds the steps, and the vector's size is enough.\<close>

fun tagged_links :: "nat \<Rightarrow> u64 list \<Rightarrow> u64 \<Rightarrow> nat list" where
  "tagged_links 0 nx link = []"
| "tagged_links (Suc n) nx link = (let i = unat (link AND 0xFFFFFFFF) in
    if i \<ge> length nx then [] else i # tagged_links n nx (nx ! i))"

fun tagged_chain :: "u64 list \<Rightarrow> u64 \<Rightarrow> nat list \<Rightarrow> bool" where
  "tagged_chain nx link [] \<longleftrightarrow> link AND 0xFFFFFFFF = 0xFFFFFFFF"
| "tagged_chain nx link (i # is) \<longleftrightarrow> link AND 0xFFFFFFFF = of_nat i \<and> i < length nx \<and> tagged_chain nx (nx ! i) is"

definition tagged_list :: "tagged_pool \<Rightarrow> nat list" where
  "tagged_list p = tagged_links (length (tp_next p)) (tp_next p) (tp_head p)"

definition tagged_inv :: "tagged_pool \<Rightarrow> bool" where
  "tagged_inv p \<longleftrightarrow> length (tp_next p) < 2 ^ 32 \<and> distinct (tagged_list p) \<and>
     tagged_chain (tp_next p) (tp_head p) (tagged_list p)"

definition tagged_free :: "tagged_pool \<Rightarrow> nat set" where
  "tagged_free p = set (tagged_list p)"

lemma chain_bound: "tagged_chain nx link fl \<Longrightarrow> set fl \<subseteq> {..<length nx}"
  by (induction nx link fl rule: tagged_chain.induct) auto

lemma tagged_chain_links:
  assumes "length nx < 2 ^ 32"
  shows "tagged_chain nx link fl \<Longrightarrow> length fl \<le> n \<Longrightarrow> tagged_links n nx link = fl"
proof (induction n arbitrary: link fl)
  case (Suc n)
  show ?case
  proof (cases fl)
    case Nil
    then have e: "unat (link AND 0xFFFFFFFF) = 2 ^ 32 - 1" using Suc.prems(1) by simp
    have "length nx \<le> 2 ^ 32 - 1" using assms by simp
    then show ?thesis unfolding tagged_links.simps Let_def e Nil by simp
  next
    case (Cons i fl')
    then have e: "link AND 0xFFFFFFFF = of_nat i" and i: "i < length nx" and c: "tagged_chain nx (nx ! i) fl'"
      using Suc.prems(1) by simp_all
    have u: "unat (of_nat i :: u64) = i" using i assms by (simp add: unsigned_of_nat take_bit_nat_eq_self)
    show ?thesis using Suc.IH [OF c] Suc.prems(2) i unfolding tagged_links.simps Let_def e u Cons by simp
  qed
qed simp

lemma tagged_listI:
  assumes "length (tp_next p) < 2 ^ 32" and "tagged_chain (tp_next p) (tp_head p) fl" and "distinct fl"
  shows "tagged_inv p \<and> tagged_list p = fl"
proof -
  have "length fl = card (set fl)" using assms(3) by (simp add: distinct_card)
  also have "\<dots> \<le> card {..<length (tp_next p)}" by (rule card_mono [OF _ chain_bound [OF assms(2)]]) simp
  finally have "tagged_list p = fl" unfolding tagged_list_def using tagged_chain_links [OF assms(1,2)] by simp
  with assms show ?thesis by (simp add: tagged_inv_def)
qed

lemma chain_cong_link: "i AND 0xFFFFFFFF = j AND 0xFFFFFFFF \<Longrightarrow> tagged_chain nx i fl = tagged_chain nx j fl"
  by (cases fl) simp_all

lemma chain_update: "x \<notin> set fl \<Longrightarrow> tagged_chain (nx[x := v]) link fl = tagged_chain nx link fl"
  by (induction nx link fl rule: tagged_chain.induct) (auto simp: nth_list_update_neq)

text \<open>Without another thread, a spurious failure only repeats the round.\<close>

lemma tagged_pop_result:
  assumes "fst (unpack (tp_head p)) = of_nat i" and "i < length (tp_next p)" and "length (tp_next p) < 2 ^ 32"
  shows "tagged_pop (Suc (length weak)) weak p (tp_head p) =
    Inr (Some i, p\<lparr>tp_head := pack (tp_next p ! i) (snd (unpack (tp_head p)) + 1)\<rparr>)"
proof -
  obtain ix tag where u: "unpack (tp_head p) = (ix, tag)" by (cases "unpack (tp_head p)")
  have i: "unat ix = i" using assms u by (simp add: unsigned_of_nat take_bit_nat_eq_self)
  have ne: "ix \<noteq> - 1" using unpack_not_end [of "tp_head p"] u by simp
  show ?thesis
  proof (induction weak)
    case (Cons w weak)
    then show ?case using u i ne assms(2) by (cases w) (auto simp: Let_def)
  qed (use u i ne assms(2) in \<open>simp add: Let_def\<close>)
qed

lemma tagged_push_result:
  "i < length (tp_next p) \<Longrightarrow> tagged_push (Suc (length weak)) weak p i (tp_head p) =
    Inr (p\<lparr>tp_next := (tp_next p)[i := fst (unpack (tp_head p))],
      tp_head := pack (of_nat i) (snd (unpack (tp_head p)) + 1)\<rparr>)"
proof (induction weak arbitrary: p)
  case (Cons w weak)
  show ?case
  proof (cases w)
    case False
    let ?p' = "p\<lparr>tp_next := (tp_next p)[i := fst (unpack (tp_head p))]\<rparr>"
    have "tagged_push (Suc (length (w # weak))) (w # weak) p i (tp_head p)
        = tagged_push (Suc (length weak)) weak ?p' i (tp_head ?p')"
      using False Cons.prems by (subst tagged_push.simps(2)) (simp add: Let_def split_beta del: tagged_push.simps)
    with Cons.IH [of ?p'] Cons.prems show ?thesis by simp
  qed (use Cons.prems in \<open>simp add: Let_def split_beta\<close>)
qed (simp add: Let_def split_beta)

declare tagged_pop.simps [simp del] tagged_push.simps [simp del]

lemma tagged_allocate_spec:
  assumes inv: "tagged_inv p"
  shows "case tagged_list p of
      [] \<Rightarrow> tagged_allocate weak p = Inl (UB Out_Of_Bounds)
    | i # fl \<Rightarrow> \<exists>p'. tagged_allocate weak p = Inr (Some i, p') \<and> tagged_inv p' \<and> tagged_list p' = fl \<and>
        length (tp_next p') = length (tp_next p)"
proof (cases "tagged_list p")
  case Nil
  then have h: "fst (unpack (tp_head p)) = 0xFFFFFFFF" using inv by (simp add: tagged_inv_def fst_unpack)
  obtain ix tag where u: "unpack (tp_head p) = (ix, tag)" by (cases "unpack (tp_head p)")
  have "length (tp_next p) \<le> unat ix" using h u inv by (simp add: tagged_inv_def)
  moreover have "ix \<noteq> - 1" using unpack_not_end [of "tp_head p"] u by simp
  ultimately show ?thesis using Nil u by (simp add: tagged_allocate_def tagged_pop.simps)
next
  case (Cons i fl)
  then have c: "fst (unpack (tp_head p)) = of_nat i" "i < length (tp_next p)" "length (tp_next p) < 2 ^ 32"
    "tagged_chain (tp_next p) (tp_next p ! i) fl" "distinct fl"
    using inv by (simp_all add: tagged_inv_def fst_unpack)
  let ?p' = "p\<lparr>tp_head := pack (tp_next p ! i) (snd (unpack (tp_head p)) + 1)\<rparr>"
  have "fst (unpack (tp_head ?p')) = tp_next p ! i AND 0xFFFFFFFF" by (simp add: unpack_pack)
  then have "tagged_chain (tp_next ?p') (tp_head ?p') fl"
    using c(4) chain_cong_link [of "tp_head ?p'" "tp_next p ! i" "tp_next p" fl] by (simp add: fst_unpack)
  with tagged_listI [of ?p' fl] c have "tagged_inv ?p' \<and> tagged_list ?p' = fl" by simp
  with Cons tagged_pop_result [OF c(1-3), of weak] show ?thesis by (simp add: tagged_allocate_def)
qed

lemma tagged_deallocate_spec:
  assumes inv: "tagged_inv p" and i: "i < length (tp_next p)" "i \<notin> set (tagged_list p)"
  shows "\<exists>p'. tagged_deallocate weak p (Some i) = Inr p' \<and> tagged_inv p' \<and> tagged_list p' = i # tagged_list p \<and>
    length (tp_next p') = length (tp_next p)"
proof -
  let ?h = "fst (unpack (tp_head p))"
  let ?p' = "p\<lparr>tp_next := (tp_next p)[i := ?h], tp_head := pack (of_nat i) (snd (unpack (tp_head p)) + 1)\<rparr>"
  have len: "length (tp_next p) < 2 ^ 32" using inv by (simp add: tagged_inv_def)
  have "?h AND 0xFFFFFFFF = tp_head p AND 0xFFFFFFFF" by (simp add: fst_unpack and.assoc)
  then have "tagged_chain (tp_next ?p') ?h (tagged_list p)"
    using inv i(2) chain_cong_link [of ?h "tp_head p"] by (simp add: tagged_inv_def chain_update)
  moreover have "tp_head ?p' AND 0xFFFFFFFF = of_nat i"
    using unpack_pack [of "of_nat i" "snd (unpack (tp_head p)) + 1"] index_and_mask [of i] i(1) len
    by (simp add: fst_unpack [symmetric])
  ultimately have c: "tagged_chain (tp_next ?p') (tp_head ?p') (i # tagged_list p)" using i(1) by simp
  have d: "distinct (i # tagged_list p)" using inv i(2) by (simp add: tagged_inv_def)
  have "tagged_inv ?p' \<and> tagged_list ?p' = i # tagged_list p" by (rule tagged_listI [OF _ c d]) (use len in simp)
  with tagged_push_result [OF i(1), of weak] show ?thesis by (simp add: tagged_deallocate_def)
qed

interpretation tgp: fatal_pool "tagged_ops aw dw" tagged_inv tagged_free "\<lambda>p. length (tp_next p)"
  for aw dw :: "bool list"
proof (unfold_locales, goal_cases)
  case (1 p i)
  then show ?case using chain_bound by (auto simp: tagged_inv_def tagged_free_def)
next
  case (2 p)
  then obtain i fl where fl: "tagged_list p = i # fl" by (cases "tagged_list p") (auto simp: tagged_free_def)
  have "distinct (i # fl)" using 2(1) fl by (simp add: tagged_inv_def)
  with tagged_allocate_spec [OF 2(1), of aw] fl show ?case by (auto simp: tagged_ops_def tagged_free_def)
next
  case (3 p i)
  with tagged_deallocate_spec [OF 3(1,2), of dw] show ?case by (auto simp: tagged_ops_def tagged_free_def)
next
  case (4 p)
  with tagged_allocate_spec [OF 4(1), of aw] show ?case by (simp add: tagged_ops_def tagged_free_def)
qed

section \<open>Properties\<close>

lemma tagged_init_chain:
  "k \<le> N \<Longrightarrow> N < 2 ^ 32 \<Longrightarrow>
    tagged_chain (map (\<lambda>i. of_nat i - 1) [0..<N]) (of_nat k - 1) (rev [0..<k])"
  by (induction k) (simp_all add: index_and_mask)

lemma tagged_init_inv:
  assumes "unat n < 2 ^ 32"
  shows "tagged_inv (tagged_init n) \<and> tagged_list (tagged_init n) = rev [0..<unat n]"
proof -
  have "tp_head (tagged_init n) AND 0xFFFFFFFF = (n - 1) AND 0xFFFFFFFF"
    using unpack_pack [of "n - 1" 0] by (simp add: tagged_init_def fst_unpack [symmetric])
  then have "tagged_chain (tp_next (tagged_init n)) (tp_head (tagged_init n)) (rev [0..<unat n])"
    using chain_cong_link [of "tp_head (tagged_init n)" "n - 1"] tagged_init_chain [of "unat n" "unat n"] assms
    by (simp add: tagged_init_def)
  then show ?thesis by (rule tagged_listI [rotated]) (use assms in \<open>simp_all add: tagged_init_def\<close>)
qed

text \<open>
  C16: \<open>pack\<close> and \<open>unpack\<close> keep the low 32 bits of the index and the whole tag. A
  \<^verbatim>\<open>LockFreeThreadSafePool\<close> of \<open>n < 2 ^ 32\<close> messages, used by one thread at a time and not
  exhausted, hands out distinct messages and loses none.
\<close>

theorem tagged_pool_partition:
  assumes "unat n < 2 ^ 32" and "length (filter ((=) Allocate) cs) \<le> unat n"
  shows "unpack (pack index tag) = (index AND 0xFFFFFFFF, tag) \<and>
    (\<exists>held p. pool_calls (tagged_ops aw dw) cs [] (tagged_init n) = Inr (held, p) \<and>
      distinct held \<and> set held \<inter> tagged_free p = {} \<and> set held \<union> tagged_free p = {..<unat n})"
proof -
  note i = tagged_init_inv [OF assms(1)]
  have len: "length (tp_next (tagged_init n)) = unat n" by (simp add: tagged_init_def)
  have "tagged_free (tagged_init n) = {..<unat n}" using i by (auto simp: tagged_free_def)
  then have "partitioned [] (tagged_free (tagged_init n)) (length (tp_next (tagged_init n)))"
    "length (filter ((=) Allocate) cs) \<le> card (tagged_free (tagged_init n))"
    using assms(2) len by (simp_all add: partitioned_def)
  from tgp.calls_within [OF conjunct1 [OF i] this, of aw dw] len show ?thesis
    unfolding partitioned_def by (auto simp: unpack_pack)
qed

lemma tagged_pool_partition_witness:
  "\<exists>held p. pool_calls (tagged_ops [] []) [Allocate, Give_Back 0, Allocate] [] (tagged_init 4) = Inr (held, p) \<and>
    distinct held"
  using tagged_pool_partition [of 4 "[Allocate, Give_Back 0, Allocate]" 0 0 "[]" "[]"] by auto

text \<open>
  C35: The test for exhaustion in \<open>allocate\<close> compares the unpacked index, which has 32 bits, with
  the 64-bit -1 and never holds: once all messages are out, \<open>allocate\<close> reads \<open>nextFree_\<close> out
  of bounds instead of returning null. It never returns null in any state.
\<close>

theorem tagged_pool_exhaustion:
  assumes "tagged_inv p"
  shows "(tagged_free p = {} \<longrightarrow> tagged_allocate weak p = Inl (UB Out_Of_Bounds)) \<and>
    tagged_allocate weak p \<noteq> Inr (None, p')"
  using tagged_allocate_spec [OF assms, of weak] by (auto simp: tagged_free_def split: list.splits)

lemma tagged_pool_exhaustion_witness:
  "\<exists>p. tagged_allocate [] (tagged_init 1) = Inr (Some 0, p) \<and> tagged_allocate [] p = Inl (UB Out_Of_Bounds)"
proof -
  have i: "tagged_inv (tagged_init 1) \<and> tagged_list (tagged_init 1) = [0]" using tagged_init_inv [of 1] by simp
  then obtain p where p: "tagged_allocate [] (tagged_init 1) = Inr (Some 0, p)" "tagged_inv p" "tagged_list p = []"
    using tagged_allocate_spec [of "tagged_init 1" "[]"] by auto
  then have "tagged_free p = {}" by (simp add: tagged_free_def)
  with tagged_pool_exhaustion [OF p(2), of "[]"] p(1) show ?thesis by blast
qed

end
