(* ===== verification/Interleaving.thy ===== *)
theory Interleaving
  imports Prelude
begin

text \<open>
  Step machines of any number of threads keep a program counter for each. This theory counts the
  threads at some point of the code and collects the values (positions, messages, tickets) that
  threads hold there, when one thread moves.
\<close>

definition values_of :: "('pc \<Rightarrow> 'v option) \<Rightarrow> (nat \<Rightarrow> 'pc) \<Rightarrow> 'v set" where
  "values_of f pcs = {v. \<exists>i. f (pcs i) = Some v}"

text \<open>No two threads hold the same value.\<close>

definition exclusive :: "('pc \<Rightarrow> 'v option) \<Rightarrow> (nat \<Rightarrow> 'pc) \<Rightarrow> bool" where
  "exclusive f pcs \<longleftrightarrow> (\<forall>i j v. f (pcs i) = Some v \<longrightarrow> f (pcs j) = Some v \<longrightarrow> i = j)"

definition threads_at :: "('pc \<Rightarrow> bool) \<Rightarrow> (nat \<Rightarrow> 'pc) \<Rightarrow> nat set" where
  "threads_at Q pcs = {i. Q (pcs i)}"

lemma values_ofI [intro]: "f (pcs i) = Some v \<Longrightarrow> v \<in> values_of f pcs"
  by (auto simp: values_of_def)

lemma values_same: "f pc = f (pcs i) \<Longrightarrow> values_of f (pcs(i := pc)) = values_of f pcs"
  by (auto simp: values_of_def split: if_splits)

lemma values_enter:
  assumes "f (pcs i) = None" and "f pc = Some v"
  shows "values_of f (pcs(i := pc)) = insert v (values_of f pcs)"
proof -
  have "(\<exists>j. f ((pcs(i := pc)) j) = Some w) \<longleftrightarrow> w = v \<or> (\<exists>j. f (pcs j) = Some w)" for w
    using assms by (auto split: if_splits) (metis option.distinct(1))
  then show ?thesis by (auto simp: values_of_def)
qed

lemma values_leave:
  assumes "exclusive f pcs" and "f (pcs i) = Some v" and "f pc = None"
  shows "values_of f (pcs(i := pc)) = values_of f pcs - {v}"
proof -
  have u: "j = i" if "f (pcs j) = Some v" for j using assms(1,2) that unfolding exclusive_def by blast
  have "(\<exists>j. f ((pcs(i := pc)) j) = Some w) \<longleftrightarrow> w \<noteq> v \<and> (\<exists>j. f (pcs j) = Some w)" for w
  proof
    assume "\<exists>j. f ((pcs(i := pc)) j) = Some w"
    then obtain j where "j \<noteq> i" "f (pcs j) = Some w" using assms(3) by (auto split: if_splits)
    with u show "w \<noteq> v \<and> (\<exists>j. f (pcs j) = Some w)" by blast
  next
    assume a: "w \<noteq> v \<and> (\<exists>j. f (pcs j) = Some w)"
    then obtain j where j: "f (pcs j) = Some w" by blast
    with a assms(2) have "j \<noteq> i" by auto
    with j show "\<exists>j. f ((pcs(i := pc)) j) = Some w" by (intro exI [of _ j]) simp
  qed
  then show ?thesis unfolding values_of_def by blast
qed

lemma exclusive_same: "exclusive f pcs \<Longrightarrow> f pc = f (pcs i) \<Longrightarrow> exclusive f (pcs(i := pc))"
  by (auto simp: exclusive_def split: if_splits)

lemma exclusive_leave: "exclusive f pcs \<Longrightarrow> f pc = None \<Longrightarrow> exclusive f (pcs(i := pc))"
  by (auto simp: exclusive_def split: if_splits)

lemma exclusive_enter: "exclusive f pcs \<Longrightarrow> f pc = Some v \<Longrightarrow> v \<notin> values_of f pcs \<Longrightarrow> exclusive f (pcs(i := pc))"
  by (auto simp: exclusive_def values_of_def split: if_splits)

lemma values_const: "f pc = None \<Longrightarrow> values_of f (\<lambda>_. pc) = {}" "f pc = None \<Longrightarrow> exclusive f (\<lambda>_. pc)"
  by (simp_all add: values_of_def exclusive_def)

lemma exclusiveD: "exclusive f pcs \<Longrightarrow> f (pcs i) = Some v \<Longrightarrow> f (pcs j) = Some v \<Longrightarrow> i = j"
  by (auto simp: exclusive_def)

lemma threads_same: "Q pc = Q (pcs i) \<Longrightarrow> threads_at Q (pcs(i := pc)) = threads_at Q pcs"
  by (auto simp: threads_at_def split: if_splits)

lemma threads_finite: "finite (threads_at Q pcs) \<Longrightarrow> finite (threads_at Q (pcs(i := pc)))"
  by (rule finite_subset [of _ "insert i (threads_at Q pcs)"]) (auto simp: threads_at_def split: if_splits)

lemma threads_enter:
  assumes "finite (threads_at Q pcs)" and "\<not> Q (pcs i)" and "Q pc"
  shows "card (threads_at Q (pcs(i := pc))) = Suc (card (threads_at Q pcs))"
proof -
  have "threads_at Q (pcs(i := pc)) = insert i (threads_at Q pcs)" using assms(3) by (auto simp: threads_at_def split: if_splits)
  then show ?thesis using assms(1,2) by (simp add: threads_at_def)
qed

lemma threads_leave:
  assumes "finite (threads_at Q pcs)" and "Q (pcs i)" and "\<not> Q pc"
  shows "Suc (card (threads_at Q (pcs(i := pc)))) = card (threads_at Q pcs)"
proof -
  have "threads_at Q (pcs(i := pc)) = threads_at Q pcs - {i}" using assms(3) by (auto simp: threads_at_def split: if_splits)
  moreover have "i \<in> threads_at Q pcs" using assms(2) by (simp add: threads_at_def)
  ultimately show ?thesis using card.remove [OF assms(1)] by simp
qed

section \<open>Runs\<close>

text \<open>The runs of a step relation all of whose states have a property.\<close>

inductive guarded_run :: "('s \<Rightarrow> 's \<Rightarrow> bool) \<Rightarrow> ('s \<Rightarrow> bool) \<Rightarrow> 's \<Rightarrow> 's \<Rightarrow> bool" for step P s where
  run_none: "P s \<Longrightarrow> guarded_run step P s s"
| run_more: "guarded_run step P s t \<Longrightarrow> step t u \<Longrightarrow> P u \<Longrightarrow> guarded_run step P s u"

lemma run_holds: "guarded_run step P s t \<Longrightarrow> P t"
  by (auto elim: guarded_run.cases)

lemma run_mono: "guarded_run step P s t \<Longrightarrow> (\<And>u. P u \<Longrightarrow> Q u) \<Longrightarrow> guarded_run step Q s t"
  by (induction rule: guarded_run.induct) (auto intro: guarded_run.intros)

lemma run_trans: "guarded_run step P t u \<Longrightarrow> guarded_run step P s t \<Longrightarrow> guarded_run step P s u"
  by (induction rule: guarded_run.induct) (auto intro: guarded_run.run_more)

lemma run_invariant:
  assumes "guarded_run step P s t" and "I s" and "\<And>t u. I t \<Longrightarrow> P t \<Longrightarrow> step t u \<Longrightarrow> I u"
  shows "I t"
  using assms(1)
proof (induction rule: guarded_run.induct)
  case (run_more t u)
  then show ?case using assms(3) run_holds by metis
qed (rule assms(2))

end
