(* ===== verification/TaggedConcurrent.thy ===== *)
theory TaggedConcurrent
  imports TaggedPool Interleaving
begin

text \<open>
  Any number of threads that share a \<^verbatim>\<open>LockFreeThreadSafePool\<close> of include/MemoryPool.hpp,
  interleaved at their accesses to \<open>head_\<close> and \<open>nextFree_\<close> in a single total order.
\<close>

section \<open>Step machine\<close>

text \<open>
  Where a thread is: idle; in \<open>allocate\<close> with the head it has loaded, then with the successor it
  has read too; in \<open>deallocate\<close> of a message with the head it has loaded, before and after the
  write of the link.
\<close>

datatype tc_pc = T_Idle | Pop_Head u64 | Pop_Next u64 u64 | Push_Head nat u64 | Push_Linked nat u64

text \<open>
  \<open>tc_held\<close> are the messages the threads own outside of any call. For the proofs only,
  \<open>tc_swaps\<close> counts the successful exchanges of the head and \<open>tc_seen\<close> is its value when a thread
  last loaded the head.
\<close>

record tc_sys =
  tc_pool :: tagged_pool
  tc_pc :: "nat \<Rightarrow> tc_pc"
  tc_held :: "nat list"
  tc_swaps :: nat
  tc_seen :: "nat \<Rightarrow> nat"

definition tc_start :: "tagged_pool \<Rightarrow> tc_sys" where
  "tc_start p = \<lparr>tc_pool = p, tc_pc = (\<lambda>_. T_Idle), tc_held = [], tc_swaps = 0, tc_seen = (\<lambda>_. 0)\<rparr>"

definition tc_goto :: "nat \<Rightarrow> tc_pc \<Rightarrow> tc_sys \<Rightarrow> tc_sys" where
  "tc_goto i pc s = s\<lparr>tc_pc := (tc_pc s)(i := pc)\<rparr>"

definition tc_load :: "nat \<Rightarrow> (u64 \<Rightarrow> tc_pc) \<Rightarrow> tc_sys \<Rightarrow> tc_sys" where
  "tc_load i pc s = tc_goto i (pc (tp_head (tc_pool s))) (s\<lparr>tc_seen := (tc_seen s)(i := tc_swaps s)\<rparr>)"

definition tc_exchange :: "u64 \<Rightarrow> tc_sys \<Rightarrow> tc_sys" where
  "tc_exchange newHead s = s\<lparr>tc_pool := (tc_pool s)\<lparr>tp_head := newHead\<rparr>, tc_swaps := Suc (tc_swaps s)\<rparr>"

abbreviation tag_of :: "u64 \<Rightarrow> u32" where "tag_of h \<equiv> snd (unpack h)"
abbreviation idx_of :: "u64 \<Rightarrow> u64" where "idx_of h \<equiv> fst (unpack h)"

text \<open>
  A failed \<open>compare_exchange_weak\<close>, spurious or not, loads the head into \<open>oldHead\<close>. A thread only
  gives back a message that some thread holds.
\<close>

inductive tc_step :: "tc_sys \<Rightarrow> tc_sys \<Rightarrow> bool" where
  pop_load: "tc_pc s i = T_Idle \<Longrightarrow> tc_step s (tc_load i Pop_Head s)"
| pop_null: "tc_pc s i = Pop_Head h \<Longrightarrow> idx_of h = - 1 \<Longrightarrow> tc_step s (tc_goto i T_Idle s)"
| pop_next: "tc_pc s i = Pop_Head h \<Longrightarrow> idx_of h \<noteq> - 1 \<Longrightarrow> unat (idx_of h) < length (tp_next (tc_pool s)) \<Longrightarrow>
    tc_step s (tc_goto i (Pop_Next h (tp_next (tc_pool s) ! unat (idx_of h))) s)"
| pop_swap: "tc_pc s i = Pop_Next h n \<Longrightarrow> tp_head (tc_pool s) = h \<Longrightarrow>
    tc_step s (tc_goto i T_Idle (tc_exchange (pack n (tag_of h + 1)) (s\<lparr>tc_held := unat (idx_of h) # tc_held s\<rparr>)))"
| pop_fail: "tc_pc s i = Pop_Next h n \<Longrightarrow> tc_step s (tc_load i Pop_Head s)"
| push_load: "tc_pc s i = T_Idle \<Longrightarrow> x \<in> set (tc_held s) \<Longrightarrow>
    tc_step s (tc_load i (Push_Head x) (s\<lparr>tc_held := remove1 x (tc_held s)\<rparr>))"
| push_link: "tc_pc s i = Push_Head x h \<Longrightarrow> x < length (tp_next (tc_pool s)) \<Longrightarrow>
    tc_step s (tc_goto i (Push_Linked x h)
      (s\<lparr>tc_pool := (tc_pool s)\<lparr>tp_next := (tp_next (tc_pool s))[x := idx_of h]\<rparr>\<rparr>))"
| push_swap: "tc_pc s i = Push_Linked x h \<Longrightarrow> tp_head (tc_pool s) = h \<Longrightarrow>
    tc_step s (tc_goto i T_Idle (tc_exchange (pack (of_nat x) (tag_of h + 1)) s))"
| push_fail: "tc_pc s i = Push_Linked x h \<Longrightarrow> tc_step s (tc_load i (Push_Head x) s)"

inductive_cases tc_stepE: "tc_step s t"

text \<open>A thread whose next access to \<open>nextFree_\<close> is out of bounds.\<close>

definition tc_faulty :: "tc_sys \<Rightarrow> nat \<Rightarrow> bool" where
  "tc_faulty s i \<longleftrightarrow> (case tc_pc s i of
      Pop_Head h \<Rightarrow> idx_of h \<noteq> - 1 \<and> length (tp_next (tc_pool s)) \<le> unat (idx_of h)
    | Push_Head x h \<Rightarrow> length (tp_next (tc_pool s)) \<le> x
    | _ \<Rightarrow> False)"

section \<open>Invariant\<close>

text \<open>The messages that are being given back, and the thread that gives back each of them.\<close>

fun pushed :: "tc_pc \<Rightarrow> nat option" where
  "pushed (Push_Head x h) = Some x"
| "pushed (Push_Linked x h) = Some x"
| "pushed _ = None"

fun head_seen :: "tc_pc \<Rightarrow> u64 option" where
  "head_seen (Pop_Head h) = Some h"
| "head_seen (Pop_Next h n) = Some h"
| "head_seen (Push_Head x h) = Some h"
| "head_seen (Push_Linked x h) = Some h"
| "head_seen T_Idle = None"

definition in_flight :: "tc_sys \<Rightarrow> nat set" where
  "in_flight s = values_of pushed (tc_pc s)"

text \<open>
  While a call is pending, the head is exchanged less than \<open>2 ^ 32\<close> times, so its tag does not
  come round.
\<close>

definition tc_fresh :: "tc_sys \<Rightarrow> bool" where
  "tc_fresh s \<longleftrightarrow> (\<forall>i. tc_pc s i \<noteq> T_Idle \<longrightarrow> tc_swaps s < tc_seen s i + 2 ^ 32)"

definition tc_chain :: "tc_sys \<Rightarrow> nat list \<Rightarrow> bool" where
  "tc_chain s fl \<longleftrightarrow> length (tp_next (tc_pool s)) < 2 ^ 32 \<and> distinct fl \<and>
     tagged_chain (tp_next (tc_pool s)) (tp_head (tc_pool s)) fl"

text \<open>Every message is free, held, or being given back by one thread.\<close>

definition tc_owners :: "tc_sys \<Rightarrow> nat list \<Rightarrow> bool" where
  "tc_owners s fl \<longleftrightarrow> distinct (tc_held s) \<and> set fl \<inter> set (tc_held s) = {} \<and>
     set fl \<inter> in_flight s = {} \<and> set (tc_held s) \<inter> in_flight s = {} \<and>
     set fl \<union> set (tc_held s) \<union> in_flight s = {..<length (tp_next (tc_pool s))} \<and> exclusive pushed (tc_pc s)"

text \<open>
  What a thread knows: the tag of the head it has loaded counts the exchanges until then, the head
  is still the same if there was none since, and so is the successor of its message.
\<close>

definition tc_heads :: "tc_sys \<Rightarrow> bool" where
  "tc_heads s \<longleftrightarrow> tag_of (tp_head (tc_pool s)) = of_nat (tc_swaps s) \<and>
     (\<forall>i h. head_seen (tc_pc s i) = Some h \<longrightarrow> tc_seen s i \<le> tc_swaps s \<and>
       tag_of h = of_nat (tc_seen s i) \<and> (tc_seen s i = tc_swaps s \<longrightarrow> h = tp_head (tc_pool s)))"

definition tc_links :: "tc_sys \<Rightarrow> bool" where
  "tc_links s \<longleftrightarrow>
     (\<forall>i h n. tc_pc s i = Pop_Next h n \<longrightarrow> unat (idx_of h) < length (tp_next (tc_pool s)) \<and>
       (tc_seen s i = tc_swaps s \<longrightarrow> tp_next (tc_pool s) ! unat (idx_of h) = n)) \<and>
     (\<forall>i x h. tc_pc s i = Push_Linked x h \<longrightarrow> tp_next (tc_pool s) ! x = idx_of h) \<and>
     (\<forall>i h. tc_pc s i = Pop_Head h \<longrightarrow> unat (idx_of h) < length (tp_next (tc_pool s)) \<or> idx_of h = 0xFFFFFFFF)"

definition tc_inv :: "tc_sys \<Rightarrow> nat list \<Rightarrow> bool" where
  "tc_inv s fl \<longleftrightarrow> tc_chain s fl \<and> tc_owners s fl \<and> tc_heads s \<and> tc_links s"

lemmas tc_moves = tc_goto_def tc_load_def tc_exchange_def

subsection \<open>Who owns a message\<close>

lemma tc_owners_same:
  assumes "tc_owners s fl" and "pushed pc = pushed (tc_pc s i)" and "tc_pc t = (tc_pc s)(i := pc)"
    and "tc_held t = tc_held s" and "length (tp_next (tc_pool t)) = length (tp_next (tc_pool s))"
  shows "tc_owners t fl"
  using assms(1) exclusive_same [where f = pushed and pcs = "tc_pc s" and i = i, OF _ assms(2)]
  unfolding tc_owners_def in_flight_def assms(3-5) values_same [where f = pushed and pcs = "tc_pc s" and i = i, OF assms(2)]
  by blast

lemma tc_owners_pop:
  assumes "tc_owners s (x # fl)" and "distinct (x # fl)" and "pushed (tc_pc s i) = None" and "tc_pc t = (tc_pc s)(i := T_Idle)"
    and "tc_held t = x # tc_held s" and "length (tp_next (tc_pool t)) = length (tp_next (tc_pool s))"
  shows "tc_owners t fl"
proof -
  have e: "pushed T_Idle = pushed (tc_pc s i)" using assms(3) by simp
  show ?thesis
    using assms(1,2) exclusive_same [where f = pushed and pcs = "tc_pc s" and i = i, OF _ e]
    unfolding tc_owners_def in_flight_def assms(4-6) values_same [where f = pushed and pcs = "tc_pc s" and i = i, OF e]
    by auto
qed

lemma tc_owners_hand_over:
  assumes "tc_owners s fl" and "pushed (tc_pc s i) = None" and "pushed pc = Some x" and "x \<in> set (tc_held s)"
    and "tc_pc t = (tc_pc s)(i := pc)" and "tc_held t = remove1 x (tc_held s)"
    and "length (tp_next (tc_pool t)) = length (tp_next (tc_pool s))"
  shows "tc_owners t fl"
proof -
  have "in_flight t = insert x (in_flight s)" unfolding in_flight_def assms(5) using assms(2,3) by (rule values_enter)
  moreover have "x \<notin> values_of pushed (tc_pc s)" using assms(1,4) by (auto simp: tc_owners_def in_flight_def)
  ultimately show ?thesis using assms(1,3,4) exclusive_enter [of pushed "tc_pc s" pc x i] unfolding tc_owners_def assms(5-7)
    by (auto simp: set_remove1_eq distinct_remove1)
qed

lemma tc_owners_push:
  assumes "tc_owners s fl" and "pushed (tc_pc s i) = Some x" and "tc_pc t = (tc_pc s)(i := T_Idle)"
    and "tc_held t = tc_held s" and "length (tp_next (tc_pool t)) = length (tp_next (tc_pool s))"
  shows "tc_owners t (x # fl)"
proof -
  have "exclusive pushed (tc_pc s)" using assms(1) by (simp add: tc_owners_def)
  then have "in_flight t = in_flight s - {x}" unfolding in_flight_def assms(3) using assms(2) by (rule values_leave) simp
  moreover have "x \<in> in_flight s" using assms(2) by (auto simp: in_flight_def)
  ultimately show ?thesis using assms(1) exclusive_leave [of pushed "tc_pc s" T_Idle i] unfolding tc_owners_def assms(3-5)
    by auto
qed

subsection \<open>What the threads know\<close>

lemma tc_heads_load:
  assumes "tc_heads s" and "head_seen (pc (tp_head (tc_pool s))) = Some (tp_head (tc_pool s))"
  shows "tc_heads (tc_load i pc s)"
  using assms by (auto simp: tc_heads_def tc_moves)

lemma tc_heads_move:
  assumes "tc_heads s" and "head_seen pc = head_seen (tc_pc s i) \<or> head_seen pc = None"
    and "tp_head (tc_pool t) = tp_head (tc_pool s)" and "tc_pc t = (tc_pc s)(i := pc)"
    and "tc_swaps t = tc_swaps s" and "tc_seen t = tc_seen s"
  shows "tc_heads t"
  using assms by (auto simp: tc_heads_def)

lemma tc_heads_exchange:
  assumes "tc_heads s" and "tag_of h = tag_of (tp_head (tc_pool s)) + 1"
  shows "tc_heads (tc_goto i T_Idle (tc_exchange h s))"
  using assms by (fastforce simp: tc_heads_def tc_moves le_Suc_eq add.commute)

lemma head_same:
  assumes "tc_heads s" and "tc_fresh s" and h: "head_seen (tc_pc s i) = Some h" and e: "tp_head (tc_pool s) = h"
  shows "tc_seen s i = tc_swaps s"
proof -
  have k: "tc_seen s i \<le> tc_swaps s" and t: "(of_nat (tc_seen s i) :: u32) = of_nat (tc_swaps s)"
    using assms by (auto simp: tc_heads_def)
  have "tc_pc s i \<noteq> T_Idle" using h by auto
  then have d: "tc_swaps s - tc_seen s i < 2 ^ 32" using assms(2) k unfolding tc_fresh_def by fastforce
  have "(of_nat (tc_swaps s - tc_seen s i) :: u32) = 0" using t k by (simp add: of_nat_diff)
  moreover have "unat (of_nat (tc_swaps s - tc_seen s i) :: u32) = tc_swaps s - tc_seen s i"
    using d by (simp add: unsigned_of_nat take_bit_nat_eq_self)
  ultimately have "tc_swaps s - tc_seen s i = 0" by simp
  with k show ?thesis by simp
qed

subsection \<open>Every step keeps the invariant\<close>

lemma chain_head:
  assumes "tc_chain s fl"
  shows "case fl of [] \<Rightarrow> idx_of (tp_head (tc_pool s)) = 0xFFFFFFFF \<and> length (tp_next (tc_pool s)) \<le> unat (idx_of (tp_head (tc_pool s)))
    | x # fl' \<Rightarrow> unat (idx_of (tp_head (tc_pool s))) = x \<and> x < length (tp_next (tc_pool s))"
proof (cases fl)
  case Nil
  have "length (tp_next (tc_pool s)) \<le> 2 ^ 32 - 1" using assms by (simp add: tc_chain_def)
  with Nil assms show ?thesis by (simp add: tc_chain_def fst_unpack)
next
  case (Cons x fl')
  then have "x < 2 ^ 32" "x < length (tp_next (tc_pool s))" "idx_of (tp_head (tc_pool s)) = of_nat x"
    using assms by (auto simp: tc_chain_def fst_unpack)
  then show ?thesis using Cons by (simp add: unat_of_nat_u64)
qed

lemma tc_keep_load_pop:
  assumes "tc_inv s fl" and "pushed (tc_pc s i) = None"
  shows "tc_inv (tc_load i Pop_Head s) fl"
proof -
  have "tc_links (tc_load i Pop_Head s)"
    using assms(1) chain_head [of s fl] by (auto simp: tc_inv_def tc_links_def tc_moves split: list.splits)
  moreover have "tc_owners (tc_load i Pop_Head s) fl"
    by (rule tc_owners_same [of s fl "Pop_Head (tp_head (tc_pool s))" i]) (use assms in \<open>simp_all add: tc_inv_def tc_moves\<close>)
  moreover have "tc_heads (tc_load i Pop_Head s)" by (rule tc_heads_load) (use assms in \<open>simp_all add: tc_inv_def\<close>)
  ultimately show ?thesis using assms(1) by (simp add: tc_inv_def tc_chain_def tc_moves)
qed

lemma tc_keep_leave:
  assumes "tc_inv s fl" and "pushed (tc_pc s i) = None"
  shows "tc_inv (tc_goto i T_Idle s) fl"
proof -
  have "tc_owners (tc_goto i T_Idle s) fl"
    by (rule tc_owners_same [of s fl T_Idle i]) (use assms in \<open>simp_all add: tc_inv_def tc_moves\<close>)
  moreover have "tc_heads (tc_goto i T_Idle s)" by (rule tc_heads_move [of s T_Idle i]) (use assms in \<open>simp_all add: tc_inv_def tc_moves\<close>)
  moreover have "tc_links (tc_goto i T_Idle s)" using assms by (auto simp: tc_inv_def tc_links_def tc_moves)
  ultimately show ?thesis using assms(1) by (simp add: tc_inv_def tc_chain_def tc_moves)
qed

lemma tc_keep_next:
  assumes "tc_inv s fl" and "tc_pc s i = Pop_Head h" and "unat (idx_of h) < length (tp_next (tc_pool s))"
  shows "tc_inv (tc_goto i (Pop_Next h (tp_next (tc_pool s) ! unat (idx_of h))) s) fl" (is "tc_inv (tc_goto i ?pc s) fl")
proof -
  have "tc_owners (tc_goto i ?pc s) fl"
    by (rule tc_owners_same [of s fl ?pc i]) (use assms in \<open>simp_all add: tc_inv_def tc_moves\<close>)
  moreover have "tc_heads (tc_goto i ?pc s)" by (rule tc_heads_move [of s ?pc i]) (use assms in \<open>simp_all add: tc_inv_def tc_moves\<close>)
  moreover have "tc_links (tc_goto i ?pc s)" using assms by (auto simp: tc_inv_def tc_links_def tc_moves)
  ultimately show ?thesis using assms(1) by (simp add: tc_inv_def tc_chain_def tc_moves)
qed

lemma tc_links_exchange:
  assumes "tc_links s" and "tc_heads s"
  shows "tc_links (tc_goto i T_Idle (tc_exchange h s))"
proof -
  have "tc_seen s j \<noteq> Suc (tc_swaps s)" if "tc_pc s j = Pop_Next h n" for j h n
  proof -
    have "head_seen (tc_pc s j) = Some h" using that by simp
    with assms(2) have "tc_seen s j \<le> tc_swaps s" unfolding tc_heads_def by blast
    then show ?thesis by simp
  qed
  with assms(1) show ?thesis by (auto simp: tc_links_def tc_moves)
qed

lemma tc_keep_pop:
  assumes inv: "tc_inv s fl" and fresh: "tc_fresh s" and pc: "tc_pc s i = Pop_Next h n" and h: "tp_head (tc_pool s) = h"
  shows "\<exists>fl'. fl = unat (idx_of h) # fl' \<and> tc_inv (tc_goto i T_Idle (tc_exchange (pack n (tag_of h + 1))
    (s\<lparr>tc_held := unat (idx_of h) # tc_held s\<rparr>))) fl'" (is "\<exists>fl'. _ \<and> tc_inv ?t fl'")
proof -
  have "tc_seen s i = tc_swaps s" by (rule head_same [OF _ fresh _ h]) (use inv pc in \<open>simp_all add: tc_inv_def\<close>)
  then have n: "tp_next (tc_pool s) ! unat (idx_of h) = n" "unat (idx_of h) < length (tp_next (tc_pool s))"
    using inv pc by (auto simp: tc_inv_def tc_links_def)
  obtain fl' where fl: "fl = unat (idx_of h) # fl'"
    using chain_head [of s fl] inv n(2) h by (auto simp: tc_inv_def split: list.splits)
  have "tagged_chain (tp_next (tc_pool s)) n fl'" using inv fl n(1) by (simp add: tc_inv_def tc_chain_def)
  moreover have "pack n (tag_of h + 1) AND 0xFFFFFFFF = n AND 0xFFFFFFFF"
    by (metis fst_conv fst_unpack unpack_pack)
  ultimately have "tagged_chain (tp_next (tc_pool s)) (pack n (tag_of h + 1)) fl'" using chain_cong_link by blast
  then have "tc_chain ?t fl'" using inv fl by (simp add: tc_inv_def tc_chain_def tc_moves)
  moreover have "tc_owners ?t fl'"
    by (rule tc_owners_pop [of s "unat (idx_of h)" fl' i]) (use inv fl pc in \<open>simp_all add: tc_inv_def tc_chain_def tc_moves\<close>)
  moreover have "tc_heads ?t" by (rule tc_heads_exchange) (use inv h in \<open>simp_all add: tc_inv_def tc_heads_def unpack_pack\<close>)
  moreover have "tc_links ?t" by (rule tc_links_exchange) (use inv in \<open>simp_all add: tc_inv_def tc_links_def tc_heads_def\<close>)
  ultimately show ?thesis using fl by (auto simp: tc_inv_def)
qed

lemma tc_keep_push_load:
  assumes inv: "tc_inv s fl" and pc: "tc_pc s i = T_Idle" and x: "x \<in> set (tc_held s)"
  shows "tc_inv (tc_load i (Push_Head x) (s\<lparr>tc_held := remove1 x (tc_held s)\<rparr>)) fl" (is "tc_inv ?t fl")
proof -
  have "tc_owners ?t fl"
    by (rule tc_owners_hand_over [of s fl i "Push_Head x (tp_head (tc_pool s))" x])
      (use inv pc x in \<open>simp_all add: tc_inv_def tc_moves\<close>)
  moreover have "tc_heads ?t" by (rule tc_heads_load) (use inv in \<open>simp_all add: tc_inv_def tc_heads_def\<close>)
  moreover have "tc_links ?t" using inv by (auto simp: tc_inv_def tc_links_def tc_moves)
  ultimately show ?thesis using inv by (simp add: tc_inv_def tc_chain_def tc_moves)
qed

lemma tc_keep_push_again:
  assumes inv: "tc_inv s fl" and pc: "tc_pc s i = Push_Linked x h"
  shows "tc_inv (tc_load i (Push_Head x) s) fl" (is "tc_inv ?t fl")
proof -
  have "tc_owners ?t fl" by (rule tc_owners_same [of s fl "Push_Head x (tp_head (tc_pool s))" i])
      (use inv pc in \<open>simp_all add: tc_inv_def tc_moves\<close>)
  moreover have "tc_heads ?t" by (rule tc_heads_load) (use inv in \<open>simp_all add: tc_inv_def tc_heads_def\<close>)
  moreover have "tc_links ?t" using inv by (auto simp: tc_inv_def tc_links_def tc_moves)
  ultimately show ?thesis using inv by (simp add: tc_inv_def tc_chain_def tc_moves)
qed

lemma tc_keep_link:
  assumes inv: "tc_inv s fl" and fresh: "tc_fresh s" and pc: "tc_pc s i = Push_Head x h"
  shows "tc_inv (tc_goto i (Push_Linked x h)
    (s\<lparr>tc_pool := (tc_pool s)\<lparr>tp_next := (tp_next (tc_pool s))[x := idx_of h]\<rparr>\<rparr>)) fl" (is "tc_inv ?t fl")
proof -
  have px: "pushed (tc_pc s i) = Some x" using pc by simp
  then have "x \<in> in_flight s" by (auto simp: in_flight_def)
  then have x: "x \<notin> set fl" "x < length (tp_next (tc_pool s))" using inv by (auto simp: tc_inv_def tc_owners_def)
  have "tc_chain ?t fl" using inv x(1) by (simp add: tc_inv_def tc_chain_def tc_moves chain_update)
  moreover have "tc_owners ?t fl" by (rule tc_owners_same [of s fl "Push_Linked x h" i])
      (use inv pc in \<open>simp_all add: tc_inv_def tc_moves\<close>)
  moreover have "tc_heads ?t" by (rule tc_heads_move [of s "Push_Linked x h" i]) (use inv pc in \<open>simp_all add: tc_inv_def tc_moves\<close>)
  moreover have "tc_links ?t"
  proof -
    have "unat (idx_of g) \<noteq> x" if "tc_pc s j = Pop_Next g n" "tc_seen s j = tc_swaps s" for j g n
    proof -
      have "head_seen (tc_pc s j) = Some g" using that by simp
      then have "g = tp_head (tc_pool s)" using inv that(2) unfolding tc_inv_def tc_heads_def by blast
      moreover have "unat (idx_of g) < length (tp_next (tc_pool s))" using inv that(1) by (auto simp: tc_inv_def tc_links_def)
      ultimately have "unat (idx_of g) \<in> set fl"
        using chain_head [of s fl] inv by (auto simp: tc_inv_def split: list.splits)
      with x(1) show ?thesis by auto
    qed
    moreover have "j = i" if "tc_pc s j = Push_Linked x g" for j g
    proof -
      have "pushed (tc_pc s j) = Some x" using that by simp
      with px inv show ?thesis unfolding tc_inv_def tc_owners_def using exclusiveD [where f = pushed] by blast
    qed
    ultimately show ?thesis using inv x(2) unfolding tc_inv_def tc_links_def
      by (auto simp: tc_moves nth_list_update split: if_splits)
  qed
  ultimately show ?thesis by (simp add: tc_inv_def)
qed

lemma tc_keep_push:
  assumes inv: "tc_inv s fl" and pc: "tc_pc s i = Push_Linked x h" and h: "tp_head (tc_pool s) = h"
  shows "tc_inv (tc_goto i T_Idle (tc_exchange (pack (of_nat x) (tag_of h + 1)) s)) (x # fl)" (is "tc_inv ?t _")
proof -
  have px: "pushed (tc_pc s i) = Some x" using pc by simp
  then have "x \<in> in_flight s" by (auto simp: in_flight_def)
  then have x: "x \<notin> set fl" "x < length (tp_next (tc_pool s))" using inv by (auto simp: tc_inv_def tc_owners_def)
  have "tp_next (tc_pool s) ! x = idx_of h" using inv pc by (auto simp: tc_inv_def tc_links_def)
  moreover have "tagged_chain (tp_next (tc_pool s)) (idx_of h) fl"
    using inv chain_cong_link [of "idx_of h" h "tp_next (tc_pool s)" fl] h
    by (simp add: tc_inv_def tc_chain_def fst_unpack and.assoc)
  moreover have "pack (of_nat x) (tag_of h + 1) AND 0xFFFFFFFF = of_nat x"
    using unpack_pack [of "of_nat x" "tag_of h + 1"] index_and_mask [of x] x(2) inv
    by (simp add: tc_inv_def tc_chain_def fst_unpack [symmetric])
  ultimately have "tc_chain ?t (x # fl)" using inv x by (simp add: tc_inv_def tc_chain_def tc_moves)
  moreover have "tc_owners ?t (x # fl)" by (rule tc_owners_push [of s fl i x]) (use inv px in \<open>simp_all add: tc_inv_def tc_moves\<close>)
  moreover have "tc_heads ?t" by (rule tc_heads_exchange) (use inv h in \<open>simp_all add: tc_inv_def unpack_pack\<close>)
  moreover have "tc_links ?t" by (rule tc_links_exchange) (use inv in \<open>simp_all add: tc_inv_def\<close>)
  ultimately show ?thesis by (simp add: tc_inv_def)
qed

lemma tc_step_inv:
  assumes "tc_step s t" and "tc_inv s fl" and "tc_fresh s"
  shows "\<exists>fl'. tc_inv t fl'"
  using assms(1)
proof (cases rule: tc_step.cases)
  case (pop_swap i h n)
  with tc_keep_pop [OF assms(2,3), of i h n] show ?thesis by blast
next
  case (push_swap i x h)
  with tc_keep_push [OF assms(2), of i x h] show ?thesis by blast
next
  case (push_link i x h)
  with tc_keep_link [OF assms(2,3), of i x h] show ?thesis by blast
next
  case (push_load i x)
  with tc_keep_push_load [OF assms(2), of i x] show ?thesis by blast
next
  case (push_fail i x h)
  with tc_keep_push_again [OF assms(2), of i x h] show ?thesis by blast
next
  case (pop_next i h)
  with tc_keep_next [OF assms(2), of i h] show ?thesis by blast
next
  case (pop_load i)
  with tc_keep_load_pop [OF assms(2), of i] show ?thesis by auto
next
  case (pop_fail i h n)
  with tc_keep_load_pop [OF assms(2), of i] show ?thesis by auto
next
  case (pop_null i h)
  with tc_keep_leave [OF assms(2), of i] show ?thesis by auto
qed

lemma tc_start_inv:
  assumes "unat n < 2 ^ 32"
  shows "tc_inv (tc_start (tagged_init n)) (rev [0..<unat n])"
proof -
  have i: "tagged_inv (tagged_init n)" "tagged_list (tagged_init n) = rev [0..<unat n]"
    using tagged_init_inv [OF assms] by simp_all
  have "tag_of (tp_head (tagged_init n)) = 0" by (simp add: tagged_init_def unpack_pack)
  with i show ?thesis
    by (auto simp: tc_inv_def tc_chain_def tc_owners_def tc_heads_def tc_links_def tc_start_def in_flight_def values_const
        tagged_inv_def tagged_init_def [THEN arg_cong [where f = tp_next]])
qed

section \<open>Runs\<close>

abbreviation tc_run :: "(tc_sys \<Rightarrow> bool) \<Rightarrow> tc_sys \<Rightarrow> tc_sys \<Rightarrow> bool" where
  "tc_run \<equiv> guarded_run tc_step"

lemma tc_run_inv:
  assumes "tc_run tc_fresh s t" and "tc_inv s fl"
  shows "\<exists>fl'. tc_inv t fl'"
  using assms(1) by (rule run_invariant) (use assms(2) tc_step_inv in blast)+

text \<open>
  What the threads want of a pool of \<open>n\<close> messages: one for each pending call of \<open>allocate\<close>, and
  those that are held or not given back completely.
\<close>

definition popping :: "tc_sys \<Rightarrow> nat set" where
  "popping s = {i. \<exists>h n. tc_pc s i = Pop_Head h \<or> tc_pc s i = Pop_Next h n}"

definition tc_demand :: "nat \<Rightarrow> tc_sys \<Rightarrow> bool" where
  "tc_demand n s \<longleftrightarrow> finite (popping s) \<and> card (popping s) + length (tc_held s) + card (in_flight s) \<le> n"

lemma tc_inv_free: "tc_inv s fl \<Longrightarrow> tagged_free (tc_pool s) = set fl"
  using tagged_listI [of "tc_pool s" fl] by (simp add: tc_inv_def tc_chain_def tagged_free_def)

lemma tc_inv_count:
  assumes "tc_inv s fl"
  shows "length fl + length (tc_held s) + card (in_flight s) = length (tp_next (tc_pool s))"
proof -
  have o: "distinct fl" "tc_owners s fl" using assms by (simp_all add: tc_inv_def tc_chain_def)
  then have "finite (in_flight s)" unfolding tc_owners_def by (metis finite_Un finite_lessThan)
  moreover have "{..<length (tp_next (tc_pool s))} = set (fl @ tc_held s) \<union> in_flight s" "distinct (fl @ tc_held s)"
    "set (fl @ tc_held s) \<inter> in_flight s = {}"
    using o by (auto simp: tc_owners_def)
  ultimately have "length (tp_next (tc_pool s)) = card (set (fl @ tc_held s)) + card (in_flight s)"
    by (metis List.finite_set card_Un_disjoint card_lessThan)
  then show ?thesis using \<open>distinct (fl @ tc_held s)\<close> by (simp only: distinct_card length_append)
qed

lemma demand_head:
  assumes "tc_inv s fl" and "tc_demand (length (tp_next (tc_pool s))) s" and "i \<in> popping s"
  shows "unat (idx_of (tp_head (tc_pool s))) < length (tp_next (tc_pool s))"
proof -
  have "0 < card (popping s)" using assms(2,3) by (auto simp: tc_demand_def card_gt_0_iff)
  then have "fl \<noteq> []" using tc_inv_count [OF assms(1)] assms(2) by (auto simp: tc_demand_def)
  then show ?thesis using chain_head [of s fl] assms(1) by (auto simp: tc_inv_def split: list.splits)
qed

lemma tc_step_size: "tc_step s t \<Longrightarrow> length (tp_next (tc_pool t)) = length (tp_next (tc_pool s))"
  by (cases rule: tc_step.cases) (auto simp: tc_moves)

lemma tc_step_head:
  "tc_step s t \<Longrightarrow> tc_pc t j = Pop_Head h \<Longrightarrow> tc_pc s j = Pop_Head h \<or> h = tp_head (tc_pool t)"
  by (cases rule: tc_step.cases) (auto simp: tc_moves split: if_splits)

lemma tc_run_in_bounds:
  assumes "tc_run (\<lambda>s. tc_fresh s \<and> tc_demand N s) s t" and "tc_inv s fl" and "N = length (tp_next (tc_pool s))"
    and "tc_pc s = (\<lambda>_. T_Idle)"
  shows "length (tp_next (tc_pool t)) = N \<and> (\<forall>i h. tc_pc t i = Pop_Head h \<longrightarrow> unat (idx_of h) < N)"
  using assms
proof (induction rule: guarded_run.induct)
  case (run_more t u)
  then have "tc_run tc_fresh s u" by (blast intro: run_mono guarded_run.run_more)
  then obtain fl' where inv: "tc_inv u fl'" using tc_run_inv run_more.prems(1) by blast
  have size: "length (tp_next (tc_pool u)) = N" using run_more tc_step_size by simp
  have "unat (idx_of h) < N" if "tc_pc u i = Pop_Head h" for i h
  proof (cases "tc_pc t i = Pop_Head h")
    case False
    then have "h = tp_head (tc_pool u)" using tc_step_head [OF run_more.hyps(2) that] by blast
    moreover have "i \<in> popping u" using that by (simp add: popping_def)
    ultimately show ?thesis using demand_head [OF inv, of i] run_more.hyps(3) size by simp
  qed (use run_more in blast)
  with size show ?case by blast
qed simp

lemma tc_faultyD:
  assumes "tc_inv s fl" and "tc_faulty s i"
  shows "\<exists>h. tc_pc s i = Pop_Head h \<and> idx_of h = 0xFFFFFFFF \<and> length (tp_next (tc_pool s)) \<le> unat (idx_of h)"
proof (cases "tc_pc s i")
  case (Push_Head x h)
  then have "pushed (tc_pc s i) = Some x" by simp
  then have "x \<in> in_flight s" unfolding in_flight_def by blast
  then show ?thesis using assms Push_Head by (auto simp: tc_faulty_def tc_inv_def tc_owners_def)
next
  case (Pop_Head h)
  then have "unat (idx_of h) < length (tp_next (tc_pool s)) \<or> idx_of h = 0xFFFFFFFF"
    using assms(1) unfolding tc_inv_def tc_links_def by blast
  then show ?thesis using Pop_Head assms(2) by (auto simp: tc_faulty_def)
qed (use assms(2) in \<open>simp_all add: tc_faulty_def\<close>)

subsection \<open>Whole calls of one thread\<close>

abbreviation tc_runs :: "tc_sys \<Rightarrow> tc_sys \<Rightarrow> bool" where "tc_runs \<equiv> tc_run (\<lambda>_. True)"

lemma tc_runs_step: "tc_step s t \<Longrightarrow> tc_runs t u \<Longrightarrow> tc_runs s u"
  by (rule run_trans [where t = t]) (auto intro: guarded_run.intros)

lemma pop_call:
  assumes "tc_pc s i = T_Idle" and "unat (idx_of (tp_head (tc_pool s))) = x" and "x < length (tp_next (tc_pool s))"
  shows "\<exists>t. tc_runs s t \<and> tc_pc t = tc_pc s \<and> tp_next (tc_pool t) = tp_next (tc_pool s) \<and>
    tp_head (tc_pool t) = pack (tp_next (tc_pool s) ! x) (tag_of (tp_head (tc_pool s)) + 1) \<and> tc_held t = x # tc_held s"
proof -
  let ?h = "tp_head (tc_pool s)" and ?n = "tp_next (tc_pool s) ! x"
  let ?a = "tc_load i Pop_Head s"
  let ?b = "tc_goto i (Pop_Next ?h ?n) ?a"
  let ?c = "tc_goto i T_Idle (tc_exchange (pack ?n (tag_of ?h + 1)) (?b\<lparr>tc_held := x # tc_held ?b\<rparr>))"
  have "tc_step s ?a" by (rule pop_load) (rule assms)
  moreover have "tc_step ?a ?b"
    using pop_next [of ?a i ?h] assms unpack_not_end [of ?h] by (simp add: tc_moves)
  moreover have "tc_step ?b ?c" using pop_swap [of ?b i ?h ?n] assms by (simp add: tc_moves)
  ultimately have "tc_runs s ?c" by (blast intro: tc_runs_step guarded_run.run_none)
  moreover have "(tc_pc s)(i := T_Idle) = tc_pc s" using assms(1) by (metis fun_upd_triv)
  ultimately show ?thesis by (intro exI [of _ ?c]) (simp add: tc_moves)
qed

lemma push_call:
  assumes "tc_pc s i = T_Idle" and "x \<in> set (tc_held s)" and "x < length (tp_next (tc_pool s))"
  shows "\<exists>t. tc_runs s t \<and> tc_pc t = tc_pc s \<and>
    tp_next (tc_pool t) = (tp_next (tc_pool s))[x := idx_of (tp_head (tc_pool s))] \<and>
    tp_head (tc_pool t) = pack (of_nat x) (tag_of (tp_head (tc_pool s)) + 1) \<and> tc_held t = remove1 x (tc_held s)"
proof -
  let ?h = "tp_head (tc_pool s)"
  let ?a = "tc_load i (Push_Head x) (s\<lparr>tc_held := remove1 x (tc_held s)\<rparr>)"
  let ?b = "tc_goto i (Push_Linked x ?h) (?a\<lparr>tc_pool := (tc_pool ?a)\<lparr>tp_next := (tp_next (tc_pool ?a))[x := idx_of ?h]\<rparr>\<rparr>)"
  let ?c = "tc_goto i T_Idle (tc_exchange (pack (of_nat x) (tag_of ?h + 1)) ?b)"
  have "tc_step s ?a" by (rule push_load) (rule assms)+
  moreover have "tc_step ?a ?b" using push_link [of ?a i x ?h] assms by (simp add: tc_moves)
  moreover have "tc_step ?b ?c" using push_swap [of ?b i x ?h] assms by (simp add: tc_moves)
  ultimately have "tc_runs s ?c" by (blast intro: tc_runs_step guarded_run.run_none)
  moreover have "(tc_pc s)(i := T_Idle) = tc_pc s" using assms(1) by (metis fun_upd_triv)
  ultimately show ?thesis by (intro exI [of _ ?c]) (simp add: tc_moves)
qed

section \<open>Two executions\<close>

text \<open>
  A thread that has loaded the head reads the link of its message while another, which has taken
  the message in between and gives it back, is about to write that link: \<open>nextFree_\<close> holds plain
  integers, so the two accesses are a data race.
\<close>

lemma tc_fresh_small: "tc_swaps s < 2 ^ 32 \<Longrightarrow> tc_fresh s"
  by (simp add: tc_fresh_def trans_less_add2)

lemma tagged_link_race:
  "\<exists>s h h'. tc_run tc_fresh (tc_start (tagged_init 2)) s \<and> tc_pc s 0 = Pop_Head h \<and> idx_of h = 1 \<and>
    tc_pc s 1 = Push_Head 1 h' \<and> tc_seen s 0 = 0 \<and> tc_swaps s = 1"
proof -
  let ?s = "tc_start (tagged_init 2)" and ?h = "pack 1 0"
  let ?a = "tc_load 0 Pop_Head ?s"
  let ?b = "tc_load 1 Pop_Head ?a"
  let ?c = "tc_goto 1 (Pop_Next ?h 0) ?b"
  let ?d = "tc_goto 1 T_Idle (tc_exchange (pack 0 1) (?c\<lparr>tc_held := [1]\<rparr>))"
  let ?e = "tc_load 1 (Push_Head 1) (?d\<lparr>tc_held := []\<rparr>)"
  have eval: "tp_head (tagged_init 2) = ?h" "idx_of ?h = 1" "tag_of ?h = 0" "tp_next (tagged_init 2) = [- 1, 0]"
    by (simp_all add: tagged_init_def unpack_pack upt_rec)
  note run = guarded_run.run_more [where step = tc_step and P = tc_fresh and s = ?s] and fresh = tc_fresh_small
  note simps = tc_start_def tc_moves
  have "tc_run tc_fresh ?s ?s" by (rule guarded_run.run_none) (simp add: fresh simps)
  then have "tc_run tc_fresh ?s ?a" by (rule run) (rule pop_load, simp_all add: fresh simps)
  then have "tc_run tc_fresh ?s ?b" by (rule run) (rule pop_load, simp_all add: fresh simps)
  then have "tc_run tc_fresh ?s ?c"
    by (rule run) (use pop_next [of ?b 1 ?h] eval in \<open>simp_all add: fresh simps\<close>)
  then have "tc_run tc_fresh ?s ?d"
    by (rule run) (use pop_swap [of ?c 1 ?h 0] eval in \<open>simp_all add: fresh simps\<close>)
  then have "tc_run tc_fresh ?s ?e"
    by (rule run) (use push_load [of ?d 1 1] in \<open>simp_all add: fresh simps\<close>)
  moreover have "tc_pc ?e 0 = Pop_Head ?h" "tc_pc ?e 1 = Push_Head 1 (pack 0 1)" "tc_seen ?e 0 = 0" "tc_swaps ?e = 1"
    using eval by (simp_all add: tc_start_def tc_moves)
  ultimately show ?thesis using eval(2) by blast
qed

lemma pack_unpack: "pack (idx_of h) (tag_of h) = h"
  unfolding pack_def unpack_def mask32 fst_conv snd_conv by (rule bit_word_eqI) (auto simp: bit_simps)

text \<open>
  The bound on the exchanges is needed: a thread that is overtaken by exactly \<open>2 ^ 32\<close> of them finds
  the tag it has loaded, takes the exchange for its own, and makes a held message free.
\<close>

lemma tag_round:
  assumes "tc_pc s 1 = T_Idle" and "idx_of (tp_head (tc_pool s)) = 3" and "tc_held s = [1, 2]"
    and "tp_next (tc_pool s) = [- 1, 0, 1, 0]"
  shows "\<exists>t. tc_runs s t \<and> tc_pc t = tc_pc s \<and> tp_next (tc_pool t) = tp_next (tc_pool s) \<and> tc_held t = [1, 2] \<and>
    tp_head (tc_pool t) = pack 3 (tag_of (tp_head (tc_pool s)) + of_nat (2 * k))"
proof (induction k)
  case 0
  have "tp_head (tc_pool s) = pack 3 (tag_of (tp_head (tc_pool s)))"
    using pack_unpack [of "tp_head (tc_pool s)"] assms(2) by simp
  then show ?case using assms by (auto intro: guarded_run.run_none)
next
  case (Suc k)
  then obtain t where t: "tc_runs s t" "tc_pc t = tc_pc s" "tp_next (tc_pool t) = [- 1, 0, 1, 0]" "tc_held t = [1, 2]"
    "tp_head (tc_pool t) = pack 3 (tag_of (tp_head (tc_pool s)) + of_nat (2 * k))" using assms(4) by auto
  obtain u where u: "tc_runs t u" "tc_pc u = tc_pc t" "tp_next (tc_pool u) = [- 1, 0, 1, 0]" "tc_held u = [3, 1, 2]"
    "tp_head (tc_pool u) = pack 0 (tag_of (tp_head (tc_pool t)) + 1)"
    using pop_call [of t 1 3] t assms(1) by (auto simp: unpack_pack)
  obtain v where v: "tc_runs u v" "tc_pc v = tc_pc u" "tp_next (tc_pool v) = [- 1, 0, 1, 0]" "tc_held v = [1, 2]"
    "tp_head (tc_pool v) = pack 3 (tag_of (tp_head (tc_pool u)) + 1)"
    using push_call [of u 1 3] u t(2) assms(1) by (auto simp: unpack_pack)
  have "tc_runs s v" using t(1) u(1) v(1) by (blast intro: run_trans)
  with t u v assms(4) show ?case by (intro exI [of _ v]) (simp add: unpack_pack algebra_simps)
qed

section \<open>Properties\<close>

text \<open>
  C15: Any number of threads allocate from and give back to a \<^verbatim>\<open>LockFreeThreadSafePool\<close> of
  \<open>n < 2 ^ 32\<close> messages, in any interleaving of their accesses. As long as no call is overtaken by
  \<open>2 ^ 32\<close> exchanges of the head, every message is at any time either free, or held by a thread,
  or being given back by one thread: no message is handed out twice and none is lost. An access
  out of bounds needs a thread that has found the list of free messages empty.
\<close>

theorem tagged_threads_partition:
  assumes "unat n < 2 ^ 32" and "tc_run tc_fresh (tc_start (tagged_init n)) s"
  shows "distinct (tc_held s) \<and> set (tc_held s) \<inter> tagged_free (tc_pool s) = {} \<and>
    in_flight s \<inter> (set (tc_held s) \<union> tagged_free (tc_pool s)) = {} \<and>
    set (tc_held s) \<union> tagged_free (tc_pool s) \<union> in_flight s = {..<length (tp_next (tc_pool s))} \<and>
    (pushed (tc_pc s i) = Some x \<and> pushed (tc_pc s j) = Some x \<longrightarrow> i = j) \<and>
    (tc_faulty s i \<longrightarrow> (\<exists>h. tc_pc s i = Pop_Head h \<and> idx_of h = 0xFFFFFFFF))"
proof -
  obtain fl where inv: "tc_inv s fl" using tc_run_inv [OF assms(2) tc_start_inv [OF assms(1)]] by blast
  then have "pushed (tc_pc s i) = Some x \<and> pushed (tc_pc s j) = Some x \<longrightarrow> i = j"
    by (auto simp: tc_inv_def tc_owners_def dest: exclusiveD)
  moreover have "tc_faulty s i \<longrightarrow> (\<exists>h. tc_pc s i = Pop_Head h \<and> idx_of h = 0xFFFFFFFF)"
    using tc_faultyD [OF inv, of i] by blast
  ultimately show ?thesis
    using inv unfolding tc_inv_free [OF inv] by (auto simp: tc_inv_def tc_owners_def)
qed

lemma tagged_threads_partition_witness:
  "\<exists>s :: tc_sys. tc_pc s 0 \<noteq> T_Idle \<and> pushed (tc_pc s 1) = Some 1 \<and> 1 \<notin> tagged_free (tc_pool s)"
proof -
  obtain s h h' where s: "tc_run tc_fresh (tc_start (tagged_init 2)) s" "tc_pc s 0 = Pop_Head h" "tc_pc s 1 = Push_Head 1 h'"
    using tagged_link_race by blast
  have "1 \<in> in_flight s" unfolding in_flight_def using s(3) by (intro values_ofI [where i = 1]) simp
  moreover have "in_flight s \<inter> (set (tc_held s) \<union> tagged_free (tc_pool s)) = {}"
    using tagged_threads_partition [OF _ s(1)] by simp
  ultimately show ?thesis using s by (intro exI [of _ s]) auto
qed

text \<open>
  C17: If moreover the threads never want more messages than the pool has, counting one for each
  pending \<open>allocate\<close>, no access of any thread is out of bounds, in any interleaving.
\<close>

theorem tagged_threads_in_bounds:
  assumes "unat n < 2 ^ 32"
    and "tc_run (\<lambda>s. tc_fresh s \<and> tc_demand (unat n) s) (tc_start (tagged_init n)) s"
  shows "\<not> tc_faulty s i"
proof -
  note inv = tc_start_inv [OF assms(1)]
  have n: "unat n = length (tp_next (tc_pool (tc_start (tagged_init n))))" by (simp add: tc_start_def tagged_init_def)
  have "tc_run tc_fresh (tc_start (tagged_init n)) s" using assms(2) by (rule run_mono) simp
  then obtain fl where s: "tc_inv s fl" using tc_run_inv [OF _ inv] by blast
  have b: "length (tp_next (tc_pool s)) = unat n" "tc_pc s i = Pop_Head h \<longrightarrow> unat (idx_of h) < unat n" for h
    using tc_run_in_bounds [OF assms(2) inv n] by (auto simp: tc_start_def)
  show ?thesis using tc_faultyD [OF s, of i] b by fastforce
qed

lemma tagged_threads_in_bounds_witness:
  "\<not> tc_faulty (tc_load 0 Pop_Head (tc_start (tagged_init 2))) 0"
proof (rule tagged_threads_in_bounds)
  let ?s = "tc_start (tagged_init 2)"
  have p: "popping ?s = {}" "popping (tc_load 0 Pop_Head ?s) = {0}" "in_flight ?s = {}" "in_flight (tc_load 0 Pop_Head ?s) = {}"
    by (auto simp: popping_def in_flight_def tc_start_def tc_moves values_const values_same)
  have "tc_step ?s (tc_load 0 Pop_Head ?s)" by (rule pop_load) (simp add: tc_start_def)
  then show "tc_run (\<lambda>s. tc_fresh s \<and> tc_demand (unat (2 :: u64)) s) ?s (tc_load 0 Pop_Head ?s)"
    by (intro guarded_run.run_more [OF guarded_run.run_none])
      (use p in \<open>auto simp: tc_demand_def tc_start_def tc_moves intro!: tc_fresh_small\<close>)
qed simp

text \<open>
  The bound on the exchanges cannot be dropped. There is an execution of two threads on a pool
  of four messages, in which one call is overtaken by exactly \<open>2 ^ 32\<close> exchanges, that hands the
  same message out twice.
\<close>

lemma tag_wrap:
  "\<exists>s. tc_runs (tc_start (tagged_init 4)) s \<and> \<not> distinct (tc_held s)"
proof -
  let ?s = "tc_start (tagged_init 4)" and ?h = "pack 3 0" and ?nx = "[- 1, 0, 1, 2] :: u64 list"
  let ?a = "tc_load 0 Pop_Head ?s"
  let ?b = "tc_goto 0 (Pop_Next ?h 2) ?a"
  have eval: "tp_head (tagged_init 4) = ?h" "tp_next (tagged_init 4) = ?nx"
    by (simp_all add: tagged_init_def upt_rec)
  note simps = tc_start_def tc_moves eval unpack_pack
  have "tc_step ?s ?a" by (rule pop_load) (simp add: simps)
  moreover have "tc_step ?a ?b" using pop_next [of ?a 0 ?h] by (simp add: simps)
  ultimately have b: "tc_runs ?s ?b" by (blast intro: tc_runs_step guarded_run.run_none)
  obtain c where c: "tc_runs ?b c" "tc_pc c = tc_pc ?b" "tp_next (tc_pool c) = ?nx" "tc_held c = [3]" "tp_head (tc_pool c) = pack 2 1"
    using pop_call [of ?b 1 3] by (auto simp: simps)
  obtain d where d: "tc_runs c d" "tc_pc d = tc_pc ?b" "tp_next (tc_pool d) = ?nx" "tc_held d = [2, 3]" "tp_head (tc_pool d) = pack 1 2"
    using pop_call [of c 1 2] c by (auto simp: simps)
  obtain e where e: "tc_runs d e" "tc_pc e = tc_pc ?b" "tp_next (tc_pool e) = ?nx" "tc_held e = [1, 2, 3]" "tp_head (tc_pool e) = pack 0 3"
    using pop_call [of d 1 1] d by (auto simp: simps)
  obtain f where f: "tc_runs e f" "tc_pc f = tc_pc ?b" "tp_next (tc_pool f) = [- 1, 0, 1, 0]" "tc_held f = [1, 2]" "tp_head (tc_pool f) = pack 3 4"
    using push_call [of e 1 3] e by (auto simp: simps)
  have z: "tag_of (tp_head (tc_pool f)) + of_nat (2 * (2 ^ 31 - 2)) = 0" using f(5) by (simp add: unpack_pack)
  have "tc_pc f 1 = T_Idle" "idx_of (tp_head (tc_pool f)) = 3" using f by (simp_all add: simps)
  from tag_round [OF this f(4,3), of "2 ^ 31 - 2", unfolded z] obtain g where
    g: "tc_runs f g" "tc_pc g = tc_pc f" "tp_next (tc_pool g) = [- 1, 0, 1, 0]" "tc_held g = [1, 2]" "tp_head (tc_pool g) = ?h"
    unfolding f(3) by blast
  have pc: "tc_pc g 0 = Pop_Next ?h 2" "tc_pc g 1 = T_Idle" using g(2) f(2) by (simp_all add: simps)
  let ?t = "tc_goto 0 T_Idle (tc_exchange (pack 2 1) (g\<lparr>tc_held := [3, 1, 2]\<rparr>))"
  have "tc_step g ?t" using pop_swap [of g 0 ?h 2] g pc by (simp add: simps)
  moreover obtain u where "tc_runs ?t u" "tc_held u = [2, 3, 1, 2]"
    using pop_call [of ?t 1 2] g pc by (auto simp: simps)
  ultimately have "tc_runs g u" "\<not> distinct (tc_held u)" by (simp_all add: tc_runs_step)
  moreover have "tc_runs ?s g"
    by (rule run_trans [OF g(1)], rule run_trans [OF f(1)], rule run_trans [OF e(1)], rule run_trans [OF d(1)],
        rule run_trans [OF c(1) b])
  ultimately show ?thesis by (blast intro: run_trans)
qed

text \<open>
  The pool is lock-free: of a pending call, the head it compares with is the current one exactly
  if no exchange has succeeded since it was loaded, so an exchange that fails, other than spuriously,
  fails because some other call has made progress.
\<close>

lemma tagged_threads_progress:
  assumes "unat n < 2 ^ 32" and "tc_run tc_fresh (tc_start (tagged_init n)) s" and "head_seen (tc_pc s i) = Some h"
  shows "tp_head (tc_pool s) = h \<longleftrightarrow> tc_seen s i = tc_swaps s"
proof -
  obtain fl where "tc_inv s fl" using tc_run_inv [OF assms(2) tc_start_inv [OF assms(1)]] by blast
  then have "tc_heads s" by (simp add: tc_inv_def)
  with head_same [OF this run_holds [OF assms(2)] assms(3)] assms(3) show ?thesis unfolding tc_heads_def by blast
qed

lemma tagged_threads_progress_witness:
  "\<exists>(s :: tc_sys) h. tc_pc s 0 = Pop_Head h \<and> tp_head (tc_pool s) \<noteq> h"
proof -
  obtain s h h' where s: "tc_run tc_fresh (tc_start (tagged_init 2)) s" "tc_pc s 0 = Pop_Head h" "idx_of h = 1"
    "tc_pc s 1 = Push_Head 1 h'" "tc_seen s 0 = 0" "tc_swaps s = 1"
    using tagged_link_race by blast
  then have "tp_head (tc_pool s) = h \<longleftrightarrow> tc_seen s 0 = tc_swaps s"
    using tagged_threads_progress [OF _ s(1), of 0 h] by simp
  with s show ?thesis by (intro exI [of _ s] exI [of _ h]) simp
qed

end
