(* ===== verification/OrderBook.thy ===== *)
theory OrderBook
  imports FixedMap FloatModel
begin

text \<open>
  include/OrderBook.hpp: a book of limit orders with one level of quantity per tick and side, the
  best level of each side, and a hash map from order numbers to orders. Orders are memory cells;
  a pointer is the cell's number. An \<^verbatim>\<open>int\<close> has 32 bits and its overflow is undefined; a price is
  the rational number its \<^verbatim>\<open>double\<close> denotes.
\<close>

section \<open>Orders, levels and prices\<close>

definition PoolSize :: nat where "PoolSize = 10000000"
definition MaxPriceLevels :: int where "MaxPriceLevels = 100000"

text \<open>\<^verbatim>\<open>0.01\<close> as a double, and \<^verbatim>\<open>static_cast<size_t>(1 / TickSize)\<close>.\<close>

definition TickSize :: rat where "TickSize = rnd 53 (1 / 100)"
definition TicksPerUnit :: int where "TicksPerUnit = \<lfloor>rnd 53 (1 / TickSize)\<rfloor>"

record order =
  order_id :: u64
  order_price :: rat
  order_quantity :: int
  is_buy :: bool

definition in_int :: "int \<Rightarrow> bool" where
  "in_int n \<longleftrightarrow> - (2 ^ 31) \<le> n \<and> n < 2 ^ 31"

definition int_result :: "int \<Rightarrow> int res" where
  "int_result n = (if in_int n then Inr n else Inl (UB Signed_Overflow))"

text \<open>The conversion to \<^verbatim>\<open>int\<close> truncates; a value that does not fit is undefined.\<close>

definition truncated :: "rat \<Rightarrow> int" where
  "truncated x = (if 0 \<le> x then \<lfloor>x\<rfloor> else \<lceil>x\<rceil>)"

definition priceToIndex :: "rat \<Rightarrow> int res" where
  "priceToIndex price = (let n = truncated (rnd 53 (price * of_int TicksPerUnit)) in
    if in_int n then Inr n else Inl (UB Bad_Cast))"

definition indexToPrice :: "int \<Rightarrow> rat" where
  "indexToPrice index = rnd 53 (of_int index * TickSize)"

section \<open>State\<close>

text \<open>
  \<open>ob_orders\<close> are all cells an order can be in, the caller's and those of \<open>orderPool_\<close>;
  \<open>ob_free\<close> is \<open>freeMsgPtrs_\<close>, last element first.
\<close>

record 'h order_book =
  ob_orders :: "nat \<Rightarrow> order"
  ob_free :: "nat list"
  ob_count :: nat
  ob_map :: 'h
  ob_bids :: "int \<Rightarrow> int"
  ob_asks :: "int \<Rightarrow> int"
  ob_best_bid :: int
  ob_best_ask :: int

text \<open>
  The constructor. \<open>pool\<close> are the cells of \<open>orderPool_\<close>, a vector that nothing ever fills: the
  class starts with \<open>pool = []\<close>.
\<close>

definition order_book_with :: "bool \<Rightarrow> nat list \<Rightarrow> (nat \<Rightarrow> order) \<Rightarrow> 'h \<Rightarrow> 'h order_book" where
  "order_book_with storage pool cells m = \<lparr>ob_orders = cells, ob_free = (if storage then rev pool else []), ob_count = 0,
     ob_map = m, ob_bids = (\<lambda>_. 0), ob_asks = (\<lambda>_. 0), ob_best_bid = - 1, ob_best_ask = MaxPriceLevels\<rparr>"

definition order_book_new :: "bool \<Rightarrow> (nat \<Rightarrow> order) \<Rightarrow> 'h \<Rightarrow> 'h order_book" where
  "order_book_new storage cells m = order_book_with storage [] cells m"

text \<open>\<^verbatim>\<open>levels[idx] += quantity\<close> on an array of \<^verbatim>\<open>MaxPriceLevels\<close> integers.\<close>

definition level_add :: "(int \<Rightarrow> int) \<Rightarrow> int \<Rightarrow> int \<Rightarrow> (int \<Rightarrow> int) res" where
  "level_add levels idx q = (if idx < 0 \<or> MaxPriceLevels \<le> idx then Inl (UB Out_Of_Bounds)
    else res_bind (int_result (levels idx + q)) (\<lambda>n. Inr (levels(idx := n))))"

section \<open>Operations\<close>

definition take_cell :: "bool \<Rightarrow> nat \<Rightarrow> 'h order_book \<Rightarrow> (nat \<times> 'h order_book) res" where
  "take_cell storage order b = (if storage then
      if PoolSize \<le> ob_count b then Inl (Throw (Runtime_Error ''Order pool is full''))
      else (case ob_free b of [] \<Rightarrow> Inl (UB Empty_Container)
        | mem # rest \<Rightarrow> Inr (mem, b\<lparr>ob_count := ob_count b + 1, ob_free := rest,
            ob_orders := (ob_orders b)(mem := ob_orders b order)\<rparr>))
    else Inr (order, b))"

definition order_insert :: "bool \<Rightarrow> ('h, u64, nat option, 'r) hm_ops \<Rightarrow> nat \<Rightarrow> 'h order_book \<Rightarrow> 'h order_book res" where
  "order_insert storage H order b = res_bind (take_cell storage order b) (\<lambda>(mem, b1).
    let ord = ob_orders b1 order in
    res_bind (assign_op H (ob_map b1) (order_id ord) (Some mem)) (\<lambda>m.
    res_bind (priceToIndex (order_price ord)) (\<lambda>idx.
      if is_buy ord then res_bind (level_add (ob_bids b1) idx (order_quantity ord)) (\<lambda>bids.
        Inr (b1\<lparr>ob_map := m, ob_bids := bids, ob_best_bid := if ob_best_bid b1 < idx then idx else ob_best_bid b1\<rparr>))
      else res_bind (level_add (ob_asks b1) idx (order_quantity ord)) (\<lambda>asks.
        Inr (b1\<lparr>ob_map := m, ob_asks := asks, ob_best_ask := if idx < ob_best_ask b1 then idx else ob_best_ask b1\<rparr>)))))"

text \<open>The loops that look for the next best level, from \<open>idx - 1\<close> down and from \<open>idx + 1\<close> up.\<close>

fun next_bid :: "(int \<Rightarrow> int) \<Rightarrow> nat \<Rightarrow> int" where
  "next_bid levels 0 = 0"
| "next_bid levels (Suc i) = (if 0 < levels (int i) then int i else next_bid levels i)"

function next_ask :: "(int \<Rightarrow> int) \<Rightarrow> int \<Rightarrow> int" where
  "next_ask levels i = (if i < MaxPriceLevels then if 0 < levels i then i else next_ask levels (i + 1)
     else MaxPriceLevels - 1)"
  by pat_completeness auto

termination next_ask
  by (relation "measure (\<lambda>(levels, i). nat (MaxPriceLevels - i))") auto

declare next_ask.simps [simp del]

definition updatePriceLevel :: "bool \<Rightarrow> rat \<Rightarrow> int \<Rightarrow> 'h order_book \<Rightarrow> 'h order_book res" where
  "updatePriceLevel buy price q b = res_bind (priceToIndex price) (\<lambda>idx.
    if buy then res_bind (level_add (ob_bids b) idx q) (\<lambda>bids. Inr (b\<lparr>ob_bids := bids, ob_best_bid :=
        if idx = ob_best_bid b \<and> bids idx = 0 then next_bid bids (nat idx) else ob_best_bid b\<rparr>))
    else res_bind (level_add (ob_asks b) idx q) (\<lambda>asks. Inr (b\<lparr>ob_asks := asks, ob_best_ask :=
        if idx = ob_best_ask b \<and> asks idx = 0 then next_ask asks (idx + 1) else ob_best_ask b\<rparr>)))"

text \<open>\<^verbatim>\<open>orderMap_[order_id]\<close>, read as a pointer to an order, after the test with \<open>contains\<close>.\<close>

definition order_at :: "('h, u64, nat option, 'r) hm_ops \<Rightarrow> u64 \<Rightarrow> 'h order_book \<Rightarrow> (nat \<times> 'h order_book) res" where
  "order_at H oid b = res_bind (subscript_op H (ob_map b) oid) (\<lambda>(r, m). case deref_op H m r of
      None \<Rightarrow> Inl (UB Null_Deref)
    | Some p \<Rightarrow> Inr (p, b\<lparr>ob_map := m\<rparr>))"

definition find_order :: "('h, u64, nat option, 'r) hm_ops \<Rightarrow> u64 \<Rightarrow> 'h order_book \<Rightarrow> (nat \<times> 'h order_book) res" where
  "find_order H oid b = res_bind (contains_op H (ob_map b) oid) (\<lambda>found.
    if \<not> found then Inl (Throw (Runtime_Error ''Order not found'')) else order_at H oid b)"

definition order_update :: "('h, u64, nat option, 'r) hm_ops \<Rightarrow> u64 \<Rightarrow> int \<Rightarrow> 'h order_book \<Rightarrow> 'h order_book res" where
  "order_update H oid new_quantity b = res_bind (find_order H oid b) (\<lambda>(p, b1).
    let ord = ob_orders b1 p in
    res_bind (int_result (new_quantity - order_quantity ord)) (\<lambda>d.
    res_bind (updatePriceLevel (is_buy ord) (order_price ord) d b1) (\<lambda>b2.
      Inr (b2\<lparr>ob_orders := (ob_orders b2)(p := (ob_orders b2 p)\<lparr>order_quantity := new_quantity\<rparr>)\<rparr>))))"

definition order_cancel :: "bool \<Rightarrow> ('h, u64, nat option, 'r) hm_ops \<Rightarrow> u64 \<Rightarrow> 'h order_book \<Rightarrow> 'h order_book res" where
  "order_cancel storage H oid b = res_bind (find_order H oid b) (\<lambda>(p, b1).
    let ord = ob_orders b1 p in
    res_bind (int_result (- order_quantity ord)) (\<lambda>d.
    res_bind (updatePriceLevel (is_buy ord) (order_price ord) d b1) (\<lambda>b2.
    res_bind (if storage then res_bind (order_at H oid b2) (\<lambda>(mem, b3).
        Inr (b3\<lparr>ob_free := mem # ob_free b3, ob_count := ob_count b3 - 1\<rparr>)) else Inr b2) (\<lambda>b4.
    res_bind (erase_op H (ob_map b4) oid) (\<lambda>(_, m). Inr (b4\<lparr>ob_map := m\<rparr>))))))"

text \<open>Reading an array element out of its bounds is undefined.\<close>

definition quote :: "(int \<Rightarrow> int) \<Rightarrow> int \<Rightarrow> (rat \<times> int) res" where
  "quote levels idx = (if idx < 0 \<or> MaxPriceLevels \<le> idx then Inl (UB Out_Of_Bounds)
    else Inr (indexToPrice idx, levels idx))"

definition bestBid :: "'h order_book \<Rightarrow> (rat \<times> int) res" where
  "bestBid b = quote (ob_bids b) (ob_best_bid b)"

definition bestAsk :: "'h order_book \<Rightarrow> (rat \<times> int) res" where
  "bestAsk b = quote (ob_asks b) (ob_best_ask b)"

section \<open>Printing\<close>

text \<open>The first \<open>count\<close> levels that are not empty, from the best one on.\<close>

function top_asks :: "(int \<Rightarrow> int) \<Rightarrow> int \<Rightarrow> nat \<Rightarrow> (rat \<times> int) list" where
  "top_asks levels i count = (if i < MaxPriceLevels \<and> 0 < count then
     if 0 < levels i then (indexToPrice i, levels i) # top_asks levels (i + 1) (count - 1) else top_asks levels (i + 1) count
     else [])"
  by pat_completeness auto

termination top_asks
  by (relation "measure (\<lambda>(levels, i, count). nat (MaxPriceLevels - i))") auto

declare top_asks.simps [simp del]

fun top_bids :: "(int \<Rightarrow> int) \<Rightarrow> nat \<Rightarrow> nat \<Rightarrow> (rat \<times> int) list" where
  "top_bids levels 0 count = []"
| "top_bids levels (Suc i) count = (if count = 0 then []
     else if 0 < levels (int i) then (indexToPrice (int i), levels (int i)) # top_bids levels i (count - 1)
     else top_bids levels i count)"

text \<open>The lines of \<open>print\<close>: the asks with the best one last, the middle price, and the bids.\<close>

definition order_book_print :: "nat \<Rightarrow> 'h order_book \<Rightarrow> (rat \<times> int) list \<times> rat \<times> (rat \<times> int) list" where
  "order_book_print count b = (rev (top_asks (ob_asks b) (ob_best_ask b) count),
     rnd 53 (rnd 53 (indexToPrice (ob_best_ask b) + indexToPrice (ob_best_bid b)) / 2),
     top_bids (ob_bids b) (nat (ob_best_bid b + 1)) count)"

section \<open>The best level\<close>

definition best_bid_ok :: "(int \<Rightarrow> int) \<Rightarrow> int \<Rightarrow> bool" where
  "best_bid_ok L b \<longleftrightarrow> (\<forall>j. 0 \<le> L j) \<and> (\<forall>j. j < 0 \<or> MaxPriceLevels \<le> j \<longrightarrow> L j = 0) \<and> (\<forall>j > b. L j = 0) \<and>
    (0 < L b \<or> (\<forall>j. L j = 0) \<and> (b = - 1 \<or> b = 0))"

definition best_ask_ok :: "(int \<Rightarrow> int) \<Rightarrow> int \<Rightarrow> bool" where
  "best_ask_ok L a \<longleftrightarrow> (\<forall>j. 0 \<le> L j) \<and> (\<forall>j. j < 0 \<or> MaxPriceLevels \<le> j \<longrightarrow> L j = 0) \<and> (\<forall>j < a. L j = 0) \<and>
    (0 < L a \<or> (\<forall>j. L j = 0) \<and> (a = MaxPriceLevels - 1 \<or> a = MaxPriceLevels))"

lemma next_bid_cases:
  obtains (found) i where "i < k" "next_bid L k = int i" "0 < L (int i)" "\<And>j. i < j \<Longrightarrow> j < k \<Longrightarrow> \<not> 0 < L (int j)"
    | (none) "next_bid L k = 0" "\<And>j. j < k \<Longrightarrow> \<not> 0 < L (int j)"
proof -
  have "(\<exists>i < k. next_bid L k = int i \<and> 0 < L (int i) \<and> (\<forall>j. i < j \<and> j < k \<longrightarrow> \<not> 0 < L (int j))) \<or>
    next_bid L k = 0 \<and> (\<forall>j < k. \<not> 0 < L (int j))"
  proof (induction k)
    case (Suc k)
    then show ?case
    proof (cases "0 < L (int k)")
      case True
      then show ?thesis by (intro disjI1 exI [of _ k]) simp
    next
      case False
      with Suc show ?thesis by (auto simp: less_Suc_eq)
    qed
  qed simp
  then show thesis using found none by blast
qed

lemma next_ask_cases:
  obtains (found) j where "i \<le> j" "j < MaxPriceLevels" "next_ask L i = j" "0 < L j" "\<And>l. i \<le> l \<Longrightarrow> l < j \<Longrightarrow> \<not> 0 < L l"
    | (none) "next_ask L i = MaxPriceLevels - 1" "\<And>l. i \<le> l \<Longrightarrow> l < MaxPriceLevels \<Longrightarrow> \<not> 0 < L l"
proof -
  have "(\<exists>j \<ge> i. j < MaxPriceLevels \<and> next_ask L i = j \<and> 0 < L j \<and> (\<forall>l. i \<le> l \<and> l < j \<longrightarrow> \<not> 0 < L l)) \<or>
    next_ask L i = MaxPriceLevels - 1 \<and> (\<forall>l. i \<le> l \<and> l < MaxPriceLevels \<longrightarrow> \<not> 0 < L l)"
    if "k = nat (MaxPriceLevels - i)" for k using that
  proof (induction k arbitrary: i)
    case 0
    then show ?case by (subst (1 2) next_ask.simps) auto
  next
    case (Suc k)
    then have i: "i < MaxPriceLevels" by linarith
    show ?case
    proof (cases "0 < L i")
      case True
      with i show ?thesis by (intro disjI1 exI [of _ i]) (subst next_ask.simps, auto)
    next
      case False
      then have n: "next_ask L i = next_ask L (i + 1)" using i by (subst next_ask.simps) simp
      have "k = nat (MaxPriceLevels - (i + 1))" using Suc.prems by linarith
      have step: "i \<le> l \<longleftrightarrow> l = i \<or> i + 1 \<le> l" for l by linarith
      from Suc.IH [OF \<open>k = _\<close>] show ?thesis
      proof
        assume "\<exists>j \<ge> i + 1. j < MaxPriceLevels \<and> next_ask L (i + 1) = j \<and> 0 < L j \<and> (\<forall>l. i + 1 \<le> l \<and> l < j \<longrightarrow> \<not> 0 < L l)"
        with False n step show ?thesis by (metis add_increasing2 le_less not_one_less_zero linorder_le_cases)
      next
        assume "next_ask L (i + 1) = MaxPriceLevels - 1 \<and> (\<forall>l. i + 1 \<le> l \<and> l < MaxPriceLevels \<longrightarrow> \<not> 0 < L l)"
        with False n step show ?thesis by metis
      qed
    qed
  qed
  from this [OF refl] show thesis using found none by blast
qed

text \<open>Adding to a level, and changing a level that is not empty.\<close>

lemma best_bid_insert:
  assumes "best_bid_ok L b" and "0 \<le> i" and "i < MaxPriceLevels" and "0 < q"
  shows "best_bid_ok (L(i := L i + q)) (if b < i then i else b)"
proof -
  have pos: "0 < L i + q" using assms(1,4) by (simp add: best_bid_ok_def add_nonneg_pos)
  show ?thesis
  proof (cases "0 < L b")
    case True
    with assms pos show ?thesis unfolding best_bid_ok_def by auto
  next
    case False
    then have "\<forall>j. L j = 0" "b = - 1 \<or> b = 0" using assms(1) by (auto simp: best_bid_ok_def)
    with assms pos show ?thesis unfolding best_bid_ok_def by auto
  qed
qed

lemma best_ask_insert:
  assumes "best_ask_ok L a" and "0 \<le> i" and "i < MaxPriceLevels" and "0 < q"
  shows "best_ask_ok (L(i := L i + q)) (if i < a then i else a)"
proof -
  have pos: "0 < L i + q" using assms(1,4) by (simp add: best_ask_ok_def add_nonneg_pos)
  show ?thesis
  proof (cases "0 < L a")
    case True
    with assms pos show ?thesis unfolding best_ask_ok_def by auto
  next
    case False
    then have "\<forall>j. L j = 0" "a = MaxPriceLevels - 1 \<or> a = MaxPriceLevels" using assms(1) by (auto simp: best_ask_ok_def)
    with assms pos show ?thesis unfolding best_ask_ok_def by auto
  qed
qed

lemma best_bid_change:
  assumes ok: "best_bid_ok L b" and i: "0 \<le> i" "i < MaxPriceLevels" "0 < L i" "0 \<le> L i + q"
  defines "L' \<equiv> L(i := L i + q)"
  shows "best_bid_ok L' (if i = b \<and> L' i = 0 then next_bid L' (nat i) else b)"
proof (cases "i = b \<and> L' i = 0")
  case False
  have "i \<le> b" using ok i(3) by (metis best_bid_ok_def less_irrefl not_le)
  moreover have "0 < L b" using ok i(3) by (metis best_bid_ok_def less_irrefl)
  moreover have "0 < L' b" using False calculation i(4) by (auto simp: L'_def)
  moreover have "\<forall>j. 0 \<le> L' j" "\<forall>j. j < 0 \<or> MaxPriceLevels \<le> j \<longrightarrow> L' j = 0" "\<forall>j > b. L' j = 0"
    using ok i calculation(1) by (auto simp: L'_def best_bid_ok_def)
  ultimately show ?thesis unfolding if_not_P [OF False] best_bid_ok_def by blast
next
  case True
  have nn: "\<forall>j. 0 \<le> L' j" "\<forall>j. j < 0 \<or> MaxPriceLevels \<le> j \<longrightarrow> L' j = 0" "\<forall>j \<ge> i. L' j = 0"
    using ok i True by (auto simp: L'_def best_bid_ok_def)
  show ?thesis
  proof (cases rule: next_bid_cases [of "nat i" L'])
    case (found j)
    have "L' l = 0" if "int j < l" for l
    proof (cases "l < i")
      case l: True
      with that found(4) [of "nat l"] nn(1) [rule_format, of l] show ?thesis by (simp add: zless_nat_eq_int_zless)
    qed (use nn in simp)
    with True found nn show ?thesis by (simp add: best_bid_ok_def)
  next
    case none
    have "L' l = 0" for l
    proof (cases "0 \<le> l \<and> l < i")
      case l: True
      with none(2) [of "nat l"] nn(1) [rule_format, of l] show ?thesis by (simp add: nat_less_eq_zless)
    qed (use nn in auto)
    with True none show ?thesis by (simp add: best_bid_ok_def)
  qed
qed

lemma best_ask_change:
  assumes ok: "best_ask_ok L a" and i: "0 \<le> i" "i < MaxPriceLevels" "0 < L i" "0 \<le> L i + q"
  defines "L' \<equiv> L(i := L i + q)"
  shows "best_ask_ok L' (if i = a \<and> L' i = 0 then next_ask L' (i + 1) else a)"
proof (cases "i = a \<and> L' i = 0")
  case False
  have "a \<le> i" using ok i(3) by (metis best_ask_ok_def less_irrefl not_le)
  moreover have "0 < L a" using ok i(3) by (metis best_ask_ok_def less_irrefl)
  moreover have "0 < L' a" using False calculation i(4) by (auto simp: L'_def)
  moreover have "\<forall>j. 0 \<le> L' j" "\<forall>j. j < 0 \<or> MaxPriceLevels \<le> j \<longrightarrow> L' j = 0" "\<forall>j < a. L' j = 0"
    using ok i calculation(1) by (auto simp: L'_def best_ask_ok_def)
  ultimately show ?thesis unfolding if_not_P [OF False] best_ask_ok_def by blast
next
  case True
  have nn: "\<forall>j. 0 \<le> L' j" "\<forall>j. j < 0 \<or> MaxPriceLevels \<le> j \<longrightarrow> L' j = 0" "\<forall>j \<le> i. L' j = 0"
    using ok i True by (auto simp: L'_def best_ask_ok_def)
  show ?thesis
  proof (cases rule: next_ask_cases [of "i + 1" L'])
    case (found j)
    have "L' l = 0" if "l < j" for l
    proof (cases "i + 1 \<le> l")
      case l: True
      with that found(5) [of l] nn(1) [rule_format, of l] show ?thesis by simp
    qed (use nn in simp)
    with True found nn show ?thesis by (simp add: best_ask_ok_def)
  next
    case none
    have "L' l = 0" for l
    proof (cases "i + 1 \<le> l \<and> l < MaxPriceLevels")
      case l: True
      with none(2) [of l] nn(1) [rule_format, of l] show ?thesis by simp
    qed (use nn in auto)
    with True none show ?thesis by (simp add: best_ask_ok_def)
  qed
qed

section \<open>Levels as sums\<close>

text \<open>What an order adds to level \<open>i\<close> of side \<open>s\<close>, and the sum over the live orders.\<close>

definition side_at :: "bool \<Rightarrow> int \<Rightarrow> order \<Rightarrow> int" where
  "side_at s i ord = (if is_buy ord = s \<and> priceToIndex (order_price ord) = Inr i then order_quantity ord else 0)"

definition level_sum :: "bool \<Rightarrow> (u64 \<rightharpoonup> order) \<Rightarrow> int \<Rightarrow> int" where
  "level_sum s live i = (\<Sum>oid \<in> dom live. side_at s i (the (live oid)))"

lemma level_sum_upd:
  assumes "finite (dom live)"
  shows "level_sum s (live(oid \<mapsto> ord)) i = level_sum s (live(oid := None)) i + side_at s i ord"
proof -
  have "dom (live(oid \<mapsto> ord)) = insert oid (dom (live(oid := None)))" by auto
  moreover have "oid \<notin> dom (live(oid := None))" "finite (dom (live(oid := None)))" using assms by auto
  moreover have "(\<Sum>x \<in> dom (live(oid := None)). side_at s i (the ((live(oid \<mapsto> ord)) x))) =
      (\<Sum>x \<in> dom (live(oid := None)). side_at s i (the ((live(oid := None)) x)))"
    by (rule sum.cong) auto
  ultimately show ?thesis unfolding level_sum_def by (simp del: fun_upd_apply dom_fun_upd) simp
qed

lemma level_sum_split:
  assumes "finite (dom live)" and "live oid = Some ord"
  shows "level_sum s live i = level_sum s (live(oid := None)) i + side_at s i ord"
  using level_sum_upd [OF assms(1), of s oid ord i] assms(2) by (simp add: fun_upd_idem)

lemma level_sum_nonneg: "(\<forall>oid ord. live oid = Some ord \<longrightarrow> 0 < order_quantity ord) \<Longrightarrow> 0 \<le> level_sum s live i"
  unfolding level_sum_def by (rule sum_nonneg) (force simp: side_at_def)

section \<open>What a book represents\<close>

definition order_ok :: "u64 \<Rightarrow> order \<Rightarrow> bool" where
  "order_ok oid ord \<longleftrightarrow> order_id ord = oid \<and> 0 < order_quantity ord \<and> in_int (order_quantity ord) \<and>
    (\<exists>i. priceToIndex (order_price ord) = Inr i \<and> 0 \<le> i \<and> i < MaxPriceLevels)"

definition live :: "'h order_book \<Rightarrow> (u64 \<rightharpoonup> nat) \<Rightarrow> u64 \<rightharpoonup> order" where
  "live b ptrs = (\<lambda>oid. map_option (ob_orders b) (ptrs oid))"

definition levels_ok :: "'h order_book \<Rightarrow> bool" where
  "levels_ok b \<longleftrightarrow> best_bid_ok (ob_bids b) (ob_best_bid b) \<and> best_ask_ok (ob_asks b) (ob_best_ask b) \<and>
    (\<forall>i. in_int (ob_bids b i) \<and> in_int (ob_asks b i))"

text \<open>
  \<open>ptrs\<close> are the live orders: the map holds them, each level is the sum of the quantities of its
  live orders, and the best levels are right.
\<close>

definition book_rep :: "('h \<Rightarrow> bool) \<Rightarrow> ('h \<Rightarrow> u64 \<Rightarrow> nat option option) \<Rightarrow> 'h order_book \<Rightarrow> (u64 \<rightharpoonup> nat) \<Rightarrow> bool" where
  "book_rep hinv \<alpha> b ptrs \<longleftrightarrow> hinv (ob_map b) \<and> \<alpha> (ob_map b) = (\<lambda>oid. map_option Some (ptrs oid)) \<and>
    finite (dom ptrs) \<and> (\<forall>oid p. ptrs oid = Some p \<longrightarrow> order_ok oid (ob_orders b p)) \<and>
    (\<forall>i. ob_bids b i = level_sum True (live b ptrs) i) \<and> (\<forall>i. ob_asks b i = level_sum False (live b ptrs) i) \<and>
    levels_ok b"

lemma dom_live [simp]: "dom (live b ptrs) = dom ptrs"
  by (auto simp: live_def dom_def)

lemma int_result_Inr: "int_result n = Inr k \<longleftrightarrow> in_int n \<and> k = n"
  by (auto simp: int_result_def)

lemma levels_ok_upd [simp]: "levels_ok (b\<lparr>ob_map := m\<rparr>) = levels_ok b" "levels_ok (b\<lparr>ob_orders := c\<rparr>) = levels_ok b"
  by (simp_all add: levels_ok_def)

lemma level_add_Inr: "level_add L i q = Inr L' \<longleftrightarrow> 0 \<le> i \<and> i < MaxPriceLevels \<and> in_int (L i + q) \<and> L' = L(i := L i + q)"
  by (auto simp: level_add_def int_result_def res_bind_Inr_iff)

text \<open>A change of the level of a live order.\<close>

lemma updatePriceLevel_spec:
  assumes lv: "levels_ok b" and i: "priceToIndex price = Inr i" "0 \<le> i" "i < MaxPriceLevels"
    and pos: "0 < (if buy then ob_bids b i else ob_asks b i)" "0 \<le> (if buy then ob_bids b i else ob_asks b i) + q"
  shows "in_int ((if buy then ob_bids b i else ob_asks b i) + q) \<longleftrightarrow> (\<exists>b'. updatePriceLevel buy price q b = Inr b')"
    and "updatePriceLevel buy price q b = Inr b' \<Longrightarrow> levels_ok b' \<and> ob_map b' = ob_map b \<and> ob_orders b' = ob_orders b \<and>
      ob_bids b' = (ob_bids b)(i := ob_bids b i + (if buy then q else 0)) \<and>
      ob_asks b' = (ob_asks b)(i := ob_asks b i + (if buy then 0 else q))"
proof -
  show "in_int ((if buy then ob_bids b i else ob_asks b i) + q) \<longleftrightarrow> (\<exists>b'. updatePriceLevel buy price q b = Inr b')"
    using i by (cases buy) (auto simp: updatePriceLevel_def res_bind_Inr_iff level_add_Inr)
  assume run: "updatePriceLevel buy price q b = Inr b'"
  show "levels_ok b' \<and> ob_map b' = ob_map b \<and> ob_orders b' = ob_orders b \<and>
      ob_bids b' = (ob_bids b)(i := ob_bids b i + (if buy then q else 0)) \<and>
      ob_asks b' = (ob_asks b)(i := ob_asks b i + (if buy then 0 else q))"
  proof (cases buy)
    case True
    with run i have b': "in_int (ob_bids b i + q)" "b' = b\<lparr>ob_bids := (ob_bids b)(i := ob_bids b i + q), ob_best_bid :=
        if i = ob_best_bid b \<and> ((ob_bids b)(i := ob_bids b i + q)) i = 0
        then next_bid ((ob_bids b)(i := ob_bids b i + q)) (nat i) else ob_best_bid b\<rparr>"
      by (auto simp: updatePriceLevel_def res_bind_Inr_iff level_add_Inr)
    moreover have "best_bid_ok (ob_bids b') (ob_best_bid b')"
      using best_bid_change [of "ob_bids b" "ob_best_bid b" i q] lv i pos True unfolding b'(2) levels_ok_def by simp
    ultimately show ?thesis using lv True by (simp add: levels_ok_def)
  next
    case False
    with run i have b': "in_int (ob_asks b i + q)" "b' = b\<lparr>ob_asks := (ob_asks b)(i := ob_asks b i + q), ob_best_ask :=
        if i = ob_best_ask b \<and> ((ob_asks b)(i := ob_asks b i + q)) i = 0
        then next_ask ((ob_asks b)(i := ob_asks b i + q)) (i + 1) else ob_best_ask b\<rparr>"
      by (auto simp: updatePriceLevel_def res_bind_Inr_iff level_add_Inr)
    moreover have "best_ask_ok (ob_asks b') (ob_best_ask b')"
      using best_ask_change [of "ob_asks b" "ob_best_ask b" i q] lv i pos False unfolding b'(2) levels_ok_def by simp
    ultimately show ?thesis using lv False by (simp add: levels_ok_def)
  qed
qed

locale book_map = subscript_map H hinv \<alpha> None
  for H :: "('h, u64, nat option, 'r) hm_ops" and hinv :: "'h \<Rightarrow> bool" and \<alpha> :: "'h \<Rightarrow> u64 \<Rightarrow> nat option option"
begin

lemma find_order_present:
  assumes "hinv (ob_map b)" and "\<alpha> (ob_map b) oid = Some (Some p)"
  shows "find_order H oid b = Inr (p, b)"
  using contains [OF assms(1), of oid] subscript_present [OF assms] assms(2) by (auto simp: find_order_def order_at_def)

lemma find_order_absent:
  "hinv (ob_map b) \<Longrightarrow> \<alpha> (ob_map b) oid = None \<Longrightarrow>
    find_order H oid b = Inl (Throw (Runtime_Error ''Order not found''))"
  using contains [of "ob_map b" oid] by (simp add: find_order_def)

text \<open>A live order: its level holds at least its quantity.\<close>

lemma live_order:
  assumes rep: "book_rep hinv \<alpha> b ptrs" and p: "ptrs oid = Some p"
  obtains i where "priceToIndex (order_price (ob_orders b p)) = Inr i" "0 \<le> i" "i < MaxPriceLevels"
    "0 < order_quantity (ob_orders b p)" "in_int (order_quantity (ob_orders b p))"
    "order_quantity (ob_orders b p) \<le> (if is_buy (ob_orders b p) then ob_bids b i else ob_asks b i)"
    "find_order H oid b = Inr (p, b)"
proof -
  let ?o = "ob_orders b p"
  have "order_ok oid ?o" using rep p by (simp add: book_rep_def)
  then obtain i where i: "priceToIndex (order_price ?o) = Inr i" "0 \<le> i" "i < MaxPriceLevels" "0 < order_quantity ?o"
    "in_int (order_quantity ?o)"
    unfolding order_ok_def by blast
  have fin: "finite (dom (live b ptrs))" and lo: "live b ptrs oid = Some ?o" using rep p by (auto simp: book_rep_def live_def)
  have "0 \<le> level_sum s ((live b ptrs)(oid := None)) i" for s
    using rep by (intro level_sum_nonneg) (auto simp: book_rep_def order_ok_def live_def)
  then have "order_quantity ?o \<le> level_sum (is_buy ?o) (live b ptrs) i"
    using level_sum_split [OF fin lo, of "is_buy ?o" i] i(1) by (simp add: side_at_def)
  moreover have "level_sum (is_buy ?o) (live b ptrs) i = (if is_buy ?o then ob_bids b i else ob_asks b i)"
    using rep by (cases "is_buy ?o") (simp_all add: book_rep_def)
  moreover have "find_order H oid b = Inr (p, b)" using rep p by (intro find_order_present) (simp_all add: book_rep_def)
  ultimately show thesis using i that by simp
qed

text \<open>Replacing or removing what is live at one number changes the levels by the difference.\<close>

lemma levels_replace:
  assumes fin: "finite (dom l)" and old: "l oid = Some ord" and i: "priceToIndex (order_price ord) = Inr i"
  shows "level_sum s (l(oid := None)) j = level_sum s l j - (if is_buy ord = s \<and> j = i then order_quantity ord else 0)"
    and "level_sum s (l(oid \<mapsto> ord\<lparr>order_quantity := q\<rparr>)) j =
      level_sum s l j + (if is_buy ord = s \<and> j = i then q - order_quantity ord else 0)"
proof -
  show "level_sum s (l(oid := None)) j = level_sum s l j - (if is_buy ord = s \<and> j = i then order_quantity ord else 0)"
    using level_sum_split [OF fin old, of s j] i by (auto simp: side_at_def)
  then show "level_sum s (l(oid \<mapsto> ord\<lparr>order_quantity := q\<rparr>)) j =
      level_sum s l j + (if is_buy ord = s \<and> j = i then q - order_quantity ord else 0)"
    using level_sum_upd [OF fin, of s oid "ord\<lparr>order_quantity := q\<rparr>" j] i by (auto simp: side_at_def)
qed

lemma insert_rep:
  assumes rep: "book_rep hinv \<alpha> b ptrs" and new: "ptrs (order_id (ob_orders b p)) = None"
    and qty: "0 < order_quantity (ob_orders b p)" "in_int (order_quantity (ob_orders b p))"
    and run: "order_insert False H p b = Inr b'"
  shows "book_rep hinv \<alpha> b' (ptrs(order_id (ob_orders b p) \<mapsto> p)) \<and> ob_orders b' = ob_orders b"
proof -
  let ?o = "ob_orders b p"
  let ?ptrs = "ptrs(order_id ?o \<mapsto> p)"
  obtain m i where m: "assign_op H (ob_map b) (order_id ?o) (Some p) = Inr m" and i: "priceToIndex (order_price ?o) = Inr i"
    using run by (auto simp: order_insert_def take_cell_def res_bind_Inr_iff Let_def)
  have m': "hinv m" "\<alpha> m = (\<lambda>oid. map_option Some (?ptrs oid))"
    using assign [OF _ m] rep by (auto simp: book_rep_def)
  have fin: "finite (dom (live b ptrs))" and lv: "levels_ok b" using rep by (simp_all add: book_rep_def)
  have lo: "live b ?ptrs = (live b ptrs)(order_id ?o \<mapsto> ?o)" by (auto simp: live_def)
  have "live b ptrs (order_id ?o) = None" using new by (simp add: live_def)
  then have sum: "level_sum s (live b ?ptrs) j = level_sum s (live b ptrs) j + (if is_buy ?o = s \<and> j = i then order_quantity ?o else 0)" for s j
    using level_sum_upd [OF fin, of s "order_id ?o" ?o j] i by (auto simp: lo side_at_def fun_upd_idem)
  have ok: "order_ok (order_id ?o) ?o" if "0 \<le> i" "i < MaxPriceLevels" using that qty i by (simp add: order_ok_def)
  show ?thesis
  proof (cases "is_buy ?o")
    case True
    with run m i have b': "0 \<le> i" "i < MaxPriceLevels" "in_int (ob_bids b i + order_quantity ?o)"
      "b' = b\<lparr>ob_map := m, ob_bids := (ob_bids b)(i := ob_bids b i + order_quantity ?o),
        ob_best_bid := if ob_best_bid b < i then i else ob_best_bid b\<rparr>"
      by (auto simp: order_insert_def take_cell_def res_bind_Inr_iff level_add_Inr)
    have "levels_ok b'" using lv best_bid_insert [OF _ b'(1,2) qty(1), of "ob_bids b" "ob_best_bid b"] b'(3)
      unfolding b'(4) levels_ok_def by simp
    moreover have "live b' = live b" by (simp add: b'(4) live_def fun_eq_iff)
    ultimately show ?thesis using rep m' ok [OF b'(1,2)] sum True unfolding b'(4)
      by (simp add: book_rep_def)
  next
    case False
    with run m i have b': "0 \<le> i" "i < MaxPriceLevels" "in_int (ob_asks b i + order_quantity ?o)"
      "b' = b\<lparr>ob_map := m, ob_asks := (ob_asks b)(i := ob_asks b i + order_quantity ?o),
        ob_best_ask := if i < ob_best_ask b then i else ob_best_ask b\<rparr>"
      by (auto simp: order_insert_def take_cell_def res_bind_Inr_iff level_add_Inr)
    have "levels_ok b'" using lv best_ask_insert [OF _ b'(1,2) qty(1), of "ob_asks b" "ob_best_ask b"] b'(3)
      unfolding b'(4) levels_ok_def by simp
    moreover have "live b' = live b" by (simp add: b'(4) live_def fun_eq_iff)
    ultimately show ?thesis using rep m' ok [OF b'(1,2)] sum False unfolding b'(4)
      by (simp add: book_rep_def)
  qed
qed

lemma update_rep:
  assumes rep: "book_rep hinv \<alpha> b ptrs" and p: "ptrs oid = Some p" and q: "0 < q" "in_int q"
    and run: "order_update H oid q b = Inr b'"
  shows "book_rep hinv \<alpha> b' ptrs \<and> ob_orders b' = (ob_orders b)(p := (ob_orders b p)\<lparr>order_quantity := q\<rparr>)"
proof -
  let ?o = "ob_orders b p"
  obtain i where i: "priceToIndex (order_price ?o) = Inr i" "0 \<le> i" "i < MaxPriceLevels" "0 < order_quantity ?o"
    "in_int (order_quantity ?o)" "order_quantity ?o \<le> (if is_buy ?o then ob_bids b i else ob_asks b i)"
    "find_order H oid b = Inr (p, b)" by (rule live_order [OF rep p]) blast
  have lv: "levels_ok b" and fin: "finite (dom (live b ptrs))" and lo: "live b ptrs oid = Some ?o"
    using rep p by (auto simp: book_rep_def live_def)
  let ?d = "q - order_quantity ?o"
  obtain b2 where b2: "updatePriceLevel (is_buy ?o) (order_price ?o) ?d b = Inr b2"
    "b' = b2\<lparr>ob_orders := (ob_orders b2)(p := (ob_orders b2 p)\<lparr>order_quantity := q\<rparr>)\<rparr>"
    using run i(7) by (auto simp: order_update_def res_bind_Inr_iff int_result_Inr Let_def)
  have pos: "0 < (if is_buy ?o then ob_bids b i else ob_asks b i)" "0 \<le> (if is_buy ?o then ob_bids b i else ob_asks b i) + ?d"
    using i(4,6) q(1) by linarith+
  have u: "levels_ok b2 \<and> ob_map b2 = ob_map b \<and> ob_orders b2 = ob_orders b \<and>
      ob_bids b2 = (ob_bids b)(i := ob_bids b i + (if is_buy ?o then ?d else 0)) \<and>
      ob_asks b2 = (ob_asks b)(i := ob_asks b i + (if is_buy ?o then 0 else ?d))"
    by (rule updatePriceLevel_spec(2) [OF lv i(1-3) pos b2(1)])
  have key: "order_id (ob_orders b y) = x" if "ptrs x = Some y" for x y
    using rep that by (simp add: book_rep_def order_ok_def)
  have other: "p' = p \<longleftrightarrow> oid' = oid" if "ptrs oid' = Some p'" for oid' p'
  proof
    assume "p' = p"
    then show "oid' = oid" by (simp only: flip: key [OF p] key [OF that])
  next
    assume "oid' = oid"
    then show "p' = p" using that p by simp
  qed
  have "live b' ptrs = (live b ptrs)(oid \<mapsto> ?o\<lparr>order_quantity := q\<rparr>)"
  proof
    fix x show "live b' ptrs x = ((live b ptrs)(oid \<mapsto> ?o\<lparr>order_quantity := q\<rparr>)) x"
      using other [of x] u p by (cases "ptrs x") (auto simp: b2(2) live_def)
  qed
  then have sum: "level_sum s (live b' ptrs) j = level_sum s (live b ptrs) j + (if is_buy ?o = s \<and> j = i then ?d else 0)" for s j
    using levels_replace(2) [OF fin lo i(1)] by simp
  have "order_ok x (ob_orders b' y)" if "ptrs x = Some y" for x y
    using rep that other [OF that] u q i by (auto simp: b2(2) book_rep_def order_ok_def)
  then have "\<forall>x y. ptrs x = Some y \<longrightarrow> order_ok x (ob_orders b' y)" by blast
  moreover have "\<forall>j. ob_bids b' j = level_sum True (live b' ptrs) j" "\<forall>j. ob_asks b' j = level_sum False (live b' ptrs) j"
    unfolding sum using rep u by (simp_all add: b2(2) book_rep_def)
  moreover have "levels_ok b'" "ob_map b' = ob_map b" "ob_orders b' = (ob_orders b)(p := ?o\<lparr>order_quantity := q\<rparr>)"
    using u by (simp_all add: b2(2))
  moreover from this(2) have "hinv (ob_map b')" "\<alpha> (ob_map b') = (\<lambda>x. map_option Some (ptrs x))" "finite (dom ptrs)"
    using rep by (simp_all add: book_rep_def)
  ultimately show ?thesis unfolding book_rep_def by blast
qed

lemma cancel_rep:
  assumes rep: "book_rep hinv \<alpha> b ptrs" and p: "ptrs oid = Some p"
  shows "\<exists>b'. order_cancel False H oid b = Inr b' \<and> book_rep hinv \<alpha> b' (ptrs(oid := None)) \<and> ob_orders b' = ob_orders b"
proof -
  let ?o = "ob_orders b p" and ?ptrs = "ptrs(oid := None)"
  obtain i where i: "priceToIndex (order_price ?o) = Inr i" "0 \<le> i" "i < MaxPriceLevels" "0 < order_quantity ?o"
    "in_int (order_quantity ?o)" "order_quantity ?o \<le> (if is_buy ?o then ob_bids b i else ob_asks b i)"
    "find_order H oid b = Inr (p, b)" by (rule live_order [OF rep p]) blast
  have lv: "levels_ok b" and fin: "finite (dom (live b ptrs))" and lo: "live b ptrs oid = Some ?o"
    using rep p by (auto simp: book_rep_def live_def)
  let ?d = "- order_quantity ?o" and ?L = "if is_buy ?o then ob_bids b i else ob_asks b i"
  have pos: "0 < ?L" "0 \<le> ?L + ?d" using i(4,6) by linarith+
  have "in_int ?L" using lv by (simp add: levels_ok_def)
  then have "in_int (?L + ?d)" using pos i(4) by (simp add: in_int_def)
  then obtain b2 where b2: "updatePriceLevel (is_buy ?o) (order_price ?o) ?d b = Inr b2"
    using updatePriceLevel_spec(1) [OF lv i(1-3) pos] by blast
  have u: "levels_ok b2 \<and> ob_map b2 = ob_map b \<and> ob_orders b2 = ob_orders b \<and>
      ob_bids b2 = (ob_bids b)(i := ob_bids b i + (if is_buy ?o then ?d else 0)) \<and>
      ob_asks b2 = (ob_asks b)(i := ob_asks b i + (if is_buy ?o then 0 else ?d))"
    by (rule updatePriceLevel_spec(2) [OF lv i(1-3) pos b2])
  obtain m where m: "erase_op H (ob_map b2) oid = Inr (\<alpha> (ob_map b2) oid \<noteq> None, m)" "hinv m"
    "\<alpha> m = (\<alpha> (ob_map b2))(oid := None)"
    using erase [of "ob_map b2" oid] u rep by (auto simp: book_rep_def)
  let ?b' = "b2\<lparr>ob_map := m\<rparr>"
  have "int_result ?d = Inr ?d" using i(4,5) by (simp add: int_result_def in_int_def)
  then have "order_cancel False H oid b = Inr ?b'" using i(7) b2 m(1) by (simp add: order_cancel_def Let_def)
  moreover have lv': "live ?b' ?ptrs = (live b ptrs)(oid := None)" using u by (auto simp: live_def)
  then have sum: "level_sum s (live ?b' ?ptrs) j = level_sum s (live b ptrs) j - (if is_buy ?o = s \<and> j = i then order_quantity ?o else 0)" for s j
    using levels_replace(1) [OF fin lo i(1)] by simp
  have "\<forall>j. ob_bids ?b' j = level_sum True (live ?b' ?ptrs) j" "\<forall>j. ob_asks ?b' j = level_sum False (live ?b' ?ptrs) j"
    unfolding sum using rep u by (simp_all add: book_rep_def)
  moreover have "levels_ok ?b'" "hinv (ob_map ?b')" "ob_orders ?b' = ob_orders b" using u m(2) by simp_all
  moreover have "\<alpha> (ob_map ?b') = (\<lambda>x. map_option Some (?ptrs x))" "finite (dom ?ptrs)"
    "\<forall>x y. ?ptrs x = Some y \<longrightarrow> order_ok x (ob_orders ?b' y)"
    using m(3) u rep by (auto simp: book_rep_def)
  ultimately show ?thesis unfolding book_rep_def by blast
qed

end

section \<open>On the hash map of the book\<close>

interpretation fob: book_map "fixed_ops h None" "fixed_inv h" "fixed_map h"
  for h :: "u64 \<Rightarrow> u64"
  by unfold_locales

text \<open>
  C12: On a book whose map and levels represent the live orders, inserting an order with a new
  number and a positive quantity, updating the quantity of a live order to a positive one, and
  cancelling a live order have exactly that effect on the live orders, and afterwards every level
  is again the sum of the quantities of its live orders and the best level of each side the
  extreme one that is not empty. A cancellation always returns; updating or cancelling a number
  that is not live throws.
\<close>

theorem order_book_refines:
  assumes rep: "book_rep (fixed_inv h) (fixed_map h) b ptrs"
  shows "(ptrs (order_id (ob_orders b p)) = None \<longrightarrow> 0 < order_quantity (ob_orders b p) \<longrightarrow>
      in_int (order_quantity (ob_orders b p)) \<longrightarrow> order_insert False (fixed_ops h None) p b = Inr b1 \<longrightarrow>
      book_rep (fixed_inv h) (fixed_map h) b1 (ptrs(order_id (ob_orders b p) \<mapsto> p)) \<and> ob_orders b1 = ob_orders b) \<and>
    (ptrs oid = Some p' \<longrightarrow> 0 < q \<longrightarrow> in_int q \<longrightarrow> order_update (fixed_ops h None) oid q b = Inr b2 \<longrightarrow>
      book_rep (fixed_inv h) (fixed_map h) b2 ptrs \<and>
      ob_orders b2 = (ob_orders b)(p' := (ob_orders b p')\<lparr>order_quantity := q\<rparr>)) \<and>
    (ptrs oid = Some p' \<longrightarrow> (\<exists>b3. order_cancel False (fixed_ops h None) oid b = Inr b3 \<and>
      book_rep (fixed_inv h) (fixed_map h) b3 (ptrs(oid := None)) \<and> ob_orders b3 = ob_orders b)) \<and>
    (ptrs oid = None \<longrightarrow> order_update (fixed_ops h None) oid q b = Inl (Throw (Runtime_Error ''Order not found'')) \<and>
      order_cancel False (fixed_ops h None) oid b = Inl (Throw (Runtime_Error ''Order not found'')))"
proof -
  have "find_order (fixed_ops h None) oid b = Inl (Throw (Runtime_Error ''Order not found''))" if "ptrs oid = None"
    using rep that by (intro fob.find_order_absent) (simp_all add: book_rep_def)
  then show ?thesis
    using fob.insert_rep [OF rep, of p b1] fob.update_rep [OF rep, of oid p' q b2] fob.cancel_rep [OF rep, of oid p']
    by (simp add: order_update_def order_cancel_def)
qed

text \<open>
  C22: When both sides have live orders, the best bid is the highest price level of a live buy
  order and the best ask the lowest of a live sell order, each with the total quantity of its
  live orders.
\<close>

theorem best_quotes:
  assumes rep: "book_rep (fixed_inv h) (fixed_map h) b ptrs"
    and buy: "ptrs oid = Some p" "is_buy (ob_orders b p)" and sell: "ptrs oid' = Some p'" "\<not> is_buy (ob_orders b p')"
  shows "\<exists>i j. bestBid b = Inr (indexToPrice i, level_sum True (live b ptrs) i) \<and> 0 < level_sum True (live b ptrs) i \<and>
    bestAsk b = Inr (indexToPrice j, level_sum False (live b ptrs) j) \<and> 0 < level_sum False (live b ptrs) j \<and>
    (\<forall>x y k. ptrs x = Some y \<longrightarrow> priceToIndex (order_price (ob_orders b y)) = Inr k \<longrightarrow>
      (if is_buy (ob_orders b y) then k \<le> i else j \<le> k))"
proof -
  let ?i = "ob_best_bid b" and ?j = "ob_best_ask b"
  have lv: "best_bid_ok (ob_bids b) ?i" "best_ask_ok (ob_asks b) ?j" using rep by (simp_all add: book_rep_def levels_ok_def)
  have sums: "ob_bids b k = level_sum True (live b ptrs) k" "ob_asks b k = level_sum False (live b ptrs) k" for k
    using rep by (simp_all add: book_rep_def)
  have pos: "0 < (if is_buy (ob_orders b y) then ob_bids b k else ob_asks b k)"
    if "ptrs x = Some y" "priceToIndex (order_price (ob_orders b y)) = Inr k" for x y k
  proof (rule fob.live_order [OF rep that(1)])
    fix k' assume "priceToIndex (order_price (ob_orders b y)) = Inr k'" "0 < order_quantity (ob_orders b y)"
      "order_quantity (ob_orders b y) \<le> (if is_buy (ob_orders b y) then ob_bids b k' else ob_asks b k')"
    with that(2) show ?thesis by (simp split: if_splits)
  qed
  have indexed: "\<exists>k. priceToIndex (order_price (ob_orders b y)) = Inr k" if "ptrs x = Some y" for x y
    using fob.live_order [OF rep that] by blast
  have ex: "\<exists>k. 0 < ob_bids b k" "\<exists>k. 0 < ob_asks b k"
    using indexed [OF buy(1)] indexed [OF sell(1)] pos [OF buy(1)] pos [OF sell(1)] buy(2) sell(2) by auto
  then have top: "0 < ob_bids b ?i" "0 < ob_asks b ?j" using lv unfolding best_bid_ok_def best_ask_ok_def by (metis less_irrefl)+
  then have range: "\<not> (?i < 0 \<or> MaxPriceLevels \<le> ?i)" "\<not> (?j < 0 \<or> MaxPriceLevels \<le> ?j)"
    using lv unfolding best_bid_ok_def best_ask_ok_def by (metis less_irrefl)+
  have beyond: "\<forall>k > ?i. ob_bids b k = 0" "\<forall>k < ?j. ob_asks b k = 0" using lv by (simp_all add: best_bid_ok_def best_ask_ok_def)
  have best: "if is_buy (ob_orders b y) then k \<le> ?i else ?j \<le> k"
    if "ptrs x = Some y" "priceToIndex (order_price (ob_orders b y)) = Inr k" for x y k
    using pos [OF that] beyond by (cases "is_buy (ob_orders b y)") (auto simp flip: not_less)
  have "bestBid b = Inr (indexToPrice ?i, level_sum True (live b ptrs) ?i)" "bestAsk b = Inr (indexToPrice ?j, level_sum False (live b ptrs) ?j)"
    using range sums by (simp_all add: bestBid_def bestAsk_def quote_def)
  moreover have "0 < level_sum True (live b ptrs) ?i" "0 < level_sum False (live b ptrs) ?j" using top sums by simp_all
  ultimately show ?thesis using best by blast
qed

text \<open>
  A book that has just been built is not ready for use: its best levels are outside the arrays,
  so \<open>bestBid\<close> and \<open>bestAsk\<close> read out of bounds, and with \<open>RequireStorage\<close> no cell is ever put
  into \<open>orderPool_\<close>, so the first \<open>insert\<close> takes the last element of an empty vector.
\<close>

lemma new_order_book:
  "bestBid (order_book_new storage cells m) = Inl (UB Out_Of_Bounds) \<and>
   bestAsk (order_book_new storage cells m) = Inl (UB Out_Of_Bounds) \<and>
   order_insert True H p (order_book_new True cells m) = Inl (UB Empty_Container)"
  by (simp add: order_book_new_def order_book_with_def bestBid_def bestAsk_def quote_def order_insert_def take_cell_def PoolSize_def)

section \<open>A sample book, and the ticks\<close>

lemma TickSize_eq: "TickSize = 5764607523034235 / 2 ^ 59"
  unfolding TickSize_def by (subst rnd_eqI [where e = "- 7" and n = 5764607523034235]) simp_all

lemma TicksPerUnit_eq [simp]: "TicksPerUnit = 100"
  unfolding TicksPerUnit_def TickSize_eq by (subst rnd_eqI [where e = 6 and n = 7036874417766400]) simp_all

lemma priceToIndex_whole: "0 \<le> n \<Longrightarrow> n < 2 ^ 24 \<Longrightarrow> priceToIndex (of_int n) = Inr (n * 100)"
  using rnd_of_int [of "n * 100" 53] floor_of_int [of "n * 100"]
  by (simp add: priceToIndex_def truncated_def in_int_def Let_def del: floor_of_int)

text \<open>
  The prices do not come back from the index they are printed for: the price of level 29,
  \<^verbatim>\<open>29 * 0.01\<close>, has index 28, because the product by 100 falls just below 29 and the
  conversion truncates.
\<close>

lemma price_index_not_inverse:
  "priceToIndex (indexToPrice 29) = Inr 28 \<and> indexToPrice 29 = rnd 53 (29 / 100)"
proof -
  have p: "indexToPrice 29 = 5224175567749775 / 2 ^ 54"
    unfolding indexToPrice_def TickSize_eq by (subst rnd_eqI [where e = "- 2" and n = 5224175567749775]) simp_all
  have r: "rnd 53 (5224175567749775 / 2 ^ 54 * 100) = 8162774324609023 / 2 ^ 48"
    by (subst rnd_eqI [where e = 4 and n = 8162774324609023]) simp_all
  have f: "\<lfloor>8162774324609023 / 2 ^ 48 :: rat\<rfloor> = 28" by (simp add: floor_eq_iff)
  have "rnd 53 (29 / 100) = 5224175567749775 / 2 ^ 54"
    by (subst rnd_eqI [where e = "- 2" and n = 5224175567749775]) simp_all
  moreover have "priceToIndex (indexToPrice 29) = Inr 28"
    unfolding priceToIndex_def truncated_def p TicksPerUnit_eq of_int_numeral r f Let_def by (simp add: in_int_def)
  ultimately show ?thesis using p by (simp only: simp_thms)
qed

text \<open>Two orders that have been inserted into a new book: a buy order at 1.00 and a sell order at 2.00.\<close>

definition sample_cells :: "nat \<Rightarrow> order" where
  "sample_cells p = (if p = 0 then \<lparr>order_id = 7, order_price = 1, order_quantity = 5, is_buy = True\<rparr>
    else \<lparr>order_id = 8, order_price = 2, order_quantity = 3, is_buy = False\<rparr>)"

definition sample_ptrs :: "u64 \<rightharpoonup> nat" where
  "sample_ptrs = [7 \<mapsto> 0, 8 \<mapsto> 1]"

lemma new_book_rep:
  assumes "fixed_inv h m" and "fixed_map h m = Map.empty"
  shows "book_rep (fixed_inv h) (fixed_map h) (order_book_new False cells m) Map.empty"
  using assms by (simp add: book_rep_def order_book_new_def order_book_with_def level_sum_def live_def
      levels_ok_def best_bid_ok_def best_ask_ok_def in_int_def)

lemma insert_returns:
  assumes rep: "book_rep (fixed_inv h) (fixed_map h) b ptrs" and free: "n < length (fx_free (ob_map b))"
    and price: "priceToIndex (order_price (ob_orders b p)) = Inr i" "0 \<le> i" "i < MaxPriceLevels"
    and sums: "in_int (ob_bids b i + order_quantity (ob_orders b p))" "in_int (ob_asks b i + order_quantity (ob_orders b p))"
  obtains b' where "order_insert False (fixed_ops h None) p b = Inr b'" "n \<le> length (fx_free (ob_map b'))"
proof -
  let ?o = "ob_orders b p"
  have "fixed_inv h (ob_map b)" using rep by (simp add: book_rep_def)
  from fixed_free_ops(2) [OF this free, of None "order_id ?o"] obtain m where
    m: "assign_op (fixed_ops h None) (ob_map b) (order_id ?o) (Some p) = Inr m" "n \<le> length (fx_free m)"
    by (auto simp: assign_op_def fixed_ops_def fixed_store_def)
  have "returns (order_insert False (fixed_ops h None) p b)"
    using m(1) price sums by (simp add: order_insert_def take_cell_def level_add_def int_result_def Let_def)
  then obtain b' where b': "order_insert False (fixed_ops h None) p b = Inr b'" by (auto simp: returns_iff)
  then have "ob_map b' = m"
    using m(1) price by (auto simp: order_insert_def take_cell_def res_bind_Inr_iff Let_def split: if_splits)
  with m(2) that [OF b'] show thesis by simp
qed

lemma fixed_init_returns: "n \<noteq> 0 \<Longrightarrow> n AND (n - 1) = 0 \<Longrightarrow> fixed_init k v n = Inr (fixed_empty k v n)"
  by (simp add: fixed_init_def fixed_empty_def)

lemma sample_book:
  obtains b where "book_rep (fixed_inv h) (fixed_map h) b sample_ptrs" "ob_orders b = sample_cells"
proof -
  let ?m = "fixed_empty 0 None 1048576 :: (u64, nat option) fixed"
  let ?b = "order_book_new False sample_cells ?m"
  have "fixed_init 0 None 1048576 = Inr ?m" by (rule fixed_init_returns) simp_all
  note rep = new_book_rep [OF conjunct1 [OF fixed_init_Inr [OF this]] conjunct2 [OF fixed_init_Inr [OF this]], of h sample_cells]
  have idx: "priceToIndex 1 = Inr 100" "priceToIndex 2 = Inr 200"
    using priceToIndex_whole [of 1] priceToIndex_whole [of 2] by simp_all
  have b0: "ob_orders ?b = sample_cells" "ob_bids ?b = (\<lambda>_. 0)" "ob_asks ?b = (\<lambda>_. 0)" "ob_map ?b = ?m"
    by (simp_all add: order_book_new_def order_book_with_def)
  have "length (fx_free ?m) = unat (1048576 * 16 :: u64)" by (simp only: fixed_empty_def fixed.simps length_rev length_upt diff_zero)
  then have "2 < length (fx_free ?m)" by simp
  then have "2 < length (fx_free (ob_map ?b))" by (simp only: b0)
  then obtain b1 where b1: "order_insert False (fixed_ops h None) 0 ?b = Inr b1" "2 \<le> length (fx_free (ob_map b1))"
    by (rule insert_returns [OF rep, of 2 0 100])
      (simp_all only: b0, simp_all add: idx MaxPriceLevels_def in_int_def sample_cells_def)
  have r1: "book_rep (fixed_inv h) (fixed_map h) b1 [7 \<mapsto> 0]" "ob_orders b1 = sample_cells"
    using fob.insert_rep [OF rep, of 0 b1] b1(1) by (simp_all add: b0 sample_cells_def in_int_def)
  have "live b1 [7 \<mapsto> 0] = [7 \<mapsto> sample_cells 0]" by (auto simp: live_def r1(2))
  then have "ob_bids b1 200 = 0" "ob_asks b1 200 = 0"
    using r1(1) by (simp_all add: book_rep_def level_sum_def side_at_def sample_cells_def idx)
  then obtain b2 where b2: "order_insert False (fixed_ops h None) 1 b1 = Inr b2"
    by (rule_tac insert_returns [OF r1(1), of 1 1 200])
      (use b1(2) in \<open>simp_all add: idx MaxPriceLevels_def in_int_def sample_cells_def r1(2)\<close>)
  have "book_rep (fixed_inv h) (fixed_map h) b2 sample_ptrs \<and> ob_orders b2 = sample_cells"
    using fob.insert_rep [OF r1(1), of 1 b2] b2 r1(2) by (simp add: sample_cells_def sample_ptrs_def in_int_def)
  then show thesis using that by blast
qed

lemma order_book_refines_witness:
  "\<exists>b b'. order_cancel False (fixed_ops (\<lambda>x. x) None) 7 b = Inr b' \<and> ob_orders b = sample_cells \<and>
    book_rep (fixed_inv (\<lambda>x. x)) (fixed_map (\<lambda>x. x)) b' [8 \<mapsto> 1] \<and>
    order_update (fixed_ops (\<lambda>x. x) None) 9 4 b = Inl (Throw (Runtime_Error ''Order not found''))"
proof -
  obtain b where b: "book_rep (fixed_inv (\<lambda>x. x)) (fixed_map (\<lambda>x. x)) b sample_ptrs" "ob_orders b = sample_cells"
    by (rule sample_book)
  have "sample_ptrs(7 := None) = [8 \<mapsto> 1]" "sample_ptrs 7 = Some 0" "sample_ptrs 9 = None" by (auto simp: sample_ptrs_def)
  with order_book_refines [OF b(1), of undefined undefined 7 0 undefined undefined]
    order_book_refines [OF b(1), of undefined undefined 9 undefined 4 undefined] b(2)
  show ?thesis by metis
qed

lemma best_quotes_witness:
  "\<exists>(b :: (u64, nat option) fixed order_book) i j. ob_orders b = sample_cells \<and>
    bestBid b = Inr (indexToPrice i, level_sum True (live b sample_ptrs) i) \<and>
    bestAsk b = Inr (indexToPrice j, level_sum False (live b sample_ptrs) j)"
proof -
  obtain b where b: "book_rep (fixed_inv (\<lambda>x. x)) (fixed_map (\<lambda>x. x)) b sample_ptrs" "ob_orders b = sample_cells"
    by (rule sample_book)
  have "sample_ptrs 7 = Some 0" "sample_ptrs 8 = Some 1" "is_buy (sample_cells 0)" "\<not> is_buy (sample_cells 1)"
    by (auto simp: sample_ptrs_def sample_cells_def)
  with best_quotes [OF b(1), of 7 0 8 1, unfolded b(2)] b(2) show ?thesis by blast
qed

end
