(* ===== verification/SocketRaii.thy ===== *)
theory SocketRaii
  imports Prelude
begin

text \<open>
  The class \<^verbatim>\<open>Socket\<close> of include/Socket.hpp: an object owns a file descriptor, closes it when it
  is destroyed or overwritten, and can be moved but not copied. Live objects are names with the
  descriptor each holds; the kernel's side is the set of open descriptors.
\<close>

section \<open>Model\<close>

record sock_sys =
  so_fd :: "nat \<rightharpoonup> int"
  so_open :: "int set"
  so_closed :: "int list"

definition sock_init :: sock_sys where
  "sock_init = \<lparr>so_fd = Map.empty, so_open = {}, so_closed = []\<rparr>"

text \<open>\<^verbatim>\<open>::close(fd)\<close> if the descriptor is not negative.\<close>

definition close_fd :: "int \<Rightarrow> sock_sys \<Rightarrow> sock_sys" where
  "close_fd fd s = (if fd \<ge> 0 then s\<lparr>so_open := so_open s - {fd}, so_closed := so_closed s @ [fd]\<rparr> else s)"

text \<open>
  \<^verbatim>\<open>Socket(domain, type, protocol)\<close>, and \<^verbatim>\<open>Socket(fd)\<close> on the result of a call that opens a
  descriptor: \<open>fd\<close> is what the kernel returned, negative on an error.
\<close>

definition socket_new :: "nat \<Rightarrow> int \<Rightarrow> sock_sys \<Rightarrow> sock_sys" where
  "socket_new x fd s = s\<lparr>so_fd := (so_fd s)(x \<mapsto> fd), so_open := (if fd \<ge> 0 then insert fd (so_open s) else so_open s)\<rparr>"

definition socket_destroy :: "nat \<Rightarrow> sock_sys \<Rightarrow> sock_sys" where
  "socket_destroy x s = (case so_fd s x of None \<Rightarrow> s
    | Some fd \<Rightarrow> (close_fd fd s)\<lparr>so_fd := (so_fd s)(x := None)\<rparr>)"

definition socket_move_ctor :: "nat \<Rightarrow> nat \<Rightarrow> sock_sys \<Rightarrow> sock_sys" where
  "socket_move_ctor x other s = (case so_fd s other of None \<Rightarrow> s
    | Some fd \<Rightarrow> s\<lparr>so_fd := (so_fd s)(other \<mapsto> - 1, x \<mapsto> fd)\<rparr>)"

definition socket_move_assign :: "nat \<Rightarrow> nat \<Rightarrow> sock_sys \<Rightarrow> sock_sys" where
  "socket_move_assign x other s = (case (so_fd s x, so_fd s other) of
      (Some old, Some fd) \<Rightarrow> if x = other then s
        else (close_fd old s)\<lparr>so_fd := (so_fd s)(other \<mapsto> - 1, x \<mapsto> fd)\<rparr>
    | _ \<Rightarrow> s)"

definition socket_get :: "nat \<Rightarrow> sock_sys \<Rightarrow> int option" where
  "socket_get x s = so_fd s x"

text \<open>
  What a program can do: construct an object that does not live yet, with a descriptor that is
  not open, or move and destroy objects that live.
\<close>

inductive sock_step :: "sock_sys \<Rightarrow> sock_sys \<Rightarrow> bool" where
  new: "so_fd s x = None \<Longrightarrow> fd \<notin> so_open s \<Longrightarrow> sock_step s (socket_new x fd s)"
| destroy: "so_fd s x \<noteq> None \<Longrightarrow> sock_step s (socket_destroy x s)"
| move_ctor: "so_fd s x = None \<Longrightarrow> so_fd s other \<noteq> None \<Longrightarrow> sock_step s (socket_move_ctor x other s)"
| move_assign: "so_fd s x \<noteq> None \<Longrightarrow> so_fd s other \<noteq> None \<Longrightarrow> sock_step s (socket_move_assign x other s)"

section \<open>Ownership\<close>

definition sock_inv :: "sock_sys \<Rightarrow> bool" where
  "sock_inv s \<longleftrightarrow> (\<forall>fd \<ge> 0. fd \<in> so_open s \<longleftrightarrow> (\<exists>x. so_fd s x = Some fd)) \<and>
     (\<forall>fd \<in> so_open s. fd \<ge> 0) \<and>
     (\<forall>x y fd. fd \<ge> 0 \<and> so_fd s x = Some fd \<and> so_fd s y = Some fd \<longrightarrow> x = y)"

lemma ex_upd_new: "f x = None \<Longrightarrow> (\<exists>z. (f(x \<mapsto> v)) z = Some g) \<longleftrightarrow> v = g \<or> (\<exists>z. f z = Some g)"
  by (metis fun_upd_apply option.distinct(1) option.inject)

lemma sock_inv_step: "sock_step s s' \<Longrightarrow> sock_inv s \<Longrightarrow> sock_inv s'"
proof (induction rule: sock_step.induct)
  case (new s x fd)
  then show ?case
    unfolding sock_inv_def socket_new_def by (simp del: fun_upd_apply add: ex_upd_new) (auto split: if_splits)
next
  case (destroy s x)
  then obtain fd where fd: "so_fd s x = Some fd" by blast
  have "(\<exists>z. ((so_fd s)(x := None)) z = Some g) \<longleftrightarrow> (\<exists>z. so_fd s z = Some g) \<and> g \<noteq> fd" if "0 \<le> g" for g
  proof -
    have "z = x" if "so_fd s z = Some g" "g = fd" for z using destroy(2) fd that \<open>0 \<le> g\<close> by (auto simp: sock_inv_def)
    with fd show ?thesis by (metis fun_upd_apply option.distinct(1) option.inject)
  qed
  with destroy fd show ?case
    by (auto simp: sock_inv_def socket_destroy_def close_fd_def split: if_splits)
next
  case (move_ctor s x other)
  then obtain fd where fd: "so_fd s other = Some fd" by blast
  have "other \<noteq> x" using move_ctor by auto
  then have "(\<exists>z. ((so_fd s)(other \<mapsto> - 1, x \<mapsto> fd)) z = Some g) \<longleftrightarrow> (\<exists>z. so_fd s z = Some g)" if "0 \<le> g" for g
    using fd move_ctor(1) that by (metis fun_upd_apply neg_0_le_iff_le not_one_le_zero option.inject option.simps(3))
  with move_ctor fd \<open>other \<noteq> x\<close> show ?case by (auto simp: sock_inv_def socket_move_ctor_def split: if_splits)
next
  case (move_assign s x other)
  then obtain old fd where fd: "so_fd s x = Some old" "so_fd s other = Some fd" by blast
  show ?case
  proof (cases "x = other")
    case True
    with move_assign fd show ?thesis by (simp add: socket_move_assign_def)
  next
    case False
    have "(\<exists>z. ((so_fd s)(other \<mapsto> - 1, x \<mapsto> fd)) z = Some g) \<longleftrightarrow> (\<exists>z. so_fd s z = Some g) \<and> g \<noteq> old" if "0 \<le> g" for g
    proof -
      have u: "z = y" if "so_fd s z = Some g" "so_fd s y = Some g" for z y
        using move_assign(3) that \<open>0 \<le> g\<close> by (auto simp: sock_inv_def)
      have g: "g \<noteq> - 1" using \<open>0 \<le> g\<close> by simp
      show ?thesis
      proof
        assume "\<exists>z. ((so_fd s)(other \<mapsto> - 1, x \<mapsto> fd)) z = Some g"
        then obtain z where z: "((so_fd s)(other \<mapsto> - 1, x \<mapsto> fd)) z = Some g" by blast
        show "(\<exists>z. so_fd s z = Some g) \<and> g \<noteq> old"
          using z fd False g u [of z x] u [of other x] by (cases "z = x"; cases "z = other") auto
      next
        assume "(\<exists>z. so_fd s z = Some g) \<and> g \<noteq> old"
        then obtain z where z: "so_fd s z = Some g" "g \<noteq> old" by blast
        show "\<exists>z. ((so_fd s)(other \<mapsto> - 1, x \<mapsto> fd)) z = Some g"
          using z fd False by (intro exI [of _ "if z = other then x else z"]) auto
      qed
    qed
    with move_assign fd False show ?thesis
      by (auto simp: sock_inv_def socket_move_assign_def close_fd_def split: if_splits)
  qed
qed

text \<open>Each descriptor closed was open, so it is never closed twice without being opened again.\<close>

definition sock_balance :: "sock_sys \<Rightarrow> sock_sys \<Rightarrow> bool" where
  "sock_balance s s' \<longleftrightarrow> (\<exists>fds. so_closed s' = so_closed s @ fds \<and> set fds \<subseteq> so_open s \<and> length fds \<le> 1)"

lemma sock_balance_step: "sock_step s s' \<Longrightarrow> sock_inv s \<Longrightarrow> sock_balance s s'"
proof (induction rule: sock_step.induct)
  case (destroy s x)
  then show ?case by (auto simp: sock_balance_def socket_destroy_def close_fd_def sock_inv_def split: option.splits)
next
  case (move_assign s x other)
  then show ?case by (auto simp: sock_balance_def socket_move_assign_def close_fd_def sock_inv_def split: option.splits)
qed (auto simp: sock_balance_def socket_new_def socket_move_ctor_def split: option.splits)

lemma sock_inv_reachable: "sock_step\<^sup>*\<^sup>* sock_init s \<Longrightarrow> sock_inv s"
proof (induction rule: rtranclp_induct)
  case base
  show ?case by (simp add: sock_inv_def sock_init_def)
next
  case (step s s')
  then show ?case by (blast intro: sock_inv_step)
qed

text \<open>
  C40: However \<^verbatim>\<open>Socket\<close> objects are constructed, moved, assigned and destroyed, every open
  descriptor belongs to exactly one live object, a step closes at most one descriptor and only
  one that is open, and once no object is left no descriptor is open.
\<close>

theorem socket_ownership:
  assumes "sock_step\<^sup>*\<^sup>* sock_init s"
  shows "(\<forall>fd \<in> so_open s. \<exists>!x. socket_get x s = Some fd) \<and>
    (\<forall>s'. sock_step s s' \<longrightarrow> sock_balance s s') \<and>
    (so_fd s = Map.empty \<longrightarrow> so_open s = {})"
proof -
  have inv: "sock_inv s" using assms by (rule sock_inv_reachable)
  then have "\<exists>!x. so_fd s x = Some fd" if "fd \<in> so_open s" for fd
    using that unfolding sock_inv_def by metis
  moreover have "so_open s = {}" if "so_fd s = Map.empty" using inv that by (auto simp: sock_inv_def)
  ultimately show ?thesis using sock_balance_step inv by (auto simp: socket_get_def)
qed

lemma socket_ownership_witness:
  "\<exists>s. sock_step\<^sup>*\<^sup>* sock_init s \<and> so_open s = {5} \<and> (\<exists>!x. socket_get x s = Some 5)"
proof -
  let ?s = "socket_new 0 5 sock_init"
  have "sock_step sock_init ?s" by (rule sock_step.new) (simp_all add: sock_init_def)
  then have r: "sock_step\<^sup>*\<^sup>* sock_init ?s" by blast
  moreover have "so_open ?s = {5}" by (simp add: socket_new_def sock_init_def)
  ultimately show ?thesis using socket_ownership [OF r] by blast
qed

section \<open>Resolving a host\<close>

text \<open>
  \<open>resolveDockerIP\<close>: \<open>resolve\<close> is \<^verbatim>\<open>getaddrinfo\<close> with its status and the first address, if any,
  \<open>error_text\<close> is \<^verbatim>\<open>gai_strerror\<close> and \<open>dotted\<close> is \<^verbatim>\<open>inet_ntop\<close>. The name is passed as a C
  string, which ends at its first zero character.
\<close>

definition resolveDockerIP :: "(string \<Rightarrow> int \<times> u32 option) \<Rightarrow> (int \<Rightarrow> string) \<Rightarrow> (u32 \<Rightarrow> string) \<Rightarrow> string \<Rightarrow> string res" where
  "resolveDockerIP resolve error_text dotted hostname =
    (let (status, first) = resolve (takeWhile (\<lambda>c. c \<noteq> CHR 0x00) hostname) in
     if status \<noteq> 0 then Inl (Throw (Runtime_Error (''getaddrinfo failed: '' @ error_text status)))
     else case first of None \<Rightarrow> Inl (Throw (Runtime_Error (''getaddrinfo failed: '' @ error_text status)))
       | Some ip \<Rightarrow> Inr (dotted ip))"

lemma resolveDockerIP_returns:
  "returns (resolveDockerIP resolve error_text dotted hostname) \<longleftrightarrow>
    (\<exists>ip. resolve (takeWhile (\<lambda>c. c \<noteq> CHR 0x00) hostname) = (0, Some ip))"
  by (auto simp: resolveDockerIP_def split: prod.split option.split)

end
