(* ===== verification/Messages.thy ===== *)
theory Messages
  imports Prelude
begin

text \<open>
  The wire format of include/Messages.hpp: two packed structs that are sent and received as
  their bytes in memory, little-endian, without padding. Prices and quantities are values of a
  type \<open>'d\<close>; \<open>bits\<close> and \<open>dbl\<close> convert between it and the 64-bit pattern of a \<^verbatim>\<open>double\<close>.
\<close>

type_synonym bytes = "u8 list"

section \<open>Little-endian integers\<close>

primrec le_bytes :: "nat \<Rightarrow> nat \<Rightarrow> bytes" where
  "le_bytes 0 x = []"
| "le_bytes (Suc n) x = of_nat (x mod 256) # le_bytes n (x div 256)"

primrec le_nat :: "bytes \<Rightarrow> nat" where
  "le_nat [] = 0"
| "le_nat (b # bs) = unat b + 256 * le_nat bs"

lemma length_le_bytes [simp]: "length (le_bytes n x) = n"
  by (induction n arbitrary: x) simp_all

lemma unat_of_byte: "unat (of_nat (x mod 256) :: u8) = x mod 256"
  by (simp add: unat_of_nat)

lemma le_nat_bytes: "le_nat (le_bytes n x) = x mod 256 ^ n"
proof (induction n arbitrary: x)
  case (Suc n)
  have "x mod (256 * 256 ^ n) = 256 * (x div 256 mod 256 ^ n) + x mod 256" by (rule mod_mult2_eq)
  with Suc unat_of_byte [of x] show ?case by simp
qed simp

lemma le_bytes_nat: "le_bytes (length bs) (le_nat bs) = bs"
proof (induction bs)
  case (Cons b bs)
  have "unat b < 256" using unsigned_less [of b] by simp
  with Cons show ?case by simp
qed simp

lemma le_nat_less: "le_nat bs < 256 ^ length bs"
proof -
  have "le_nat bs = le_nat bs mod 256 ^ length bs"
    using le_nat_bytes [of "length bs" "le_nat bs"] le_bytes_nat [of bs] by simp
  also have "\<dots> < 256 ^ length bs" by (rule mod_less_divisor) simp
  finally show ?thesis .
qed

definition put64 :: "u64 \<Rightarrow> bytes" where
  "put64 w = le_bytes 8 (unat w)"

definition get64 :: "bytes \<Rightarrow> u64" where
  "get64 bs = of_nat (le_nat bs)"

lemma get_put64 [simp]: "get64 (put64 w) = w"
proof -
  have "unat w < 256 ^ 8" using unsigned_less [of w] by simp
  then show ?thesis by (simp add: get64_def put64_def le_nat_bytes)
qed

lemma put_get64: "length bs = 8 \<Longrightarrow> put64 (get64 bs) = bs"
  using le_nat_less [of bs] le_bytes_nat [of bs]
  by (simp add: get64_def put64_def unat_of_nat)

lemma length_put64 [simp]: "length (put64 w) = 8"
  by (simp add: put64_def)

section \<open>The structs\<close>

record 'd itch_msg =
  message_type :: u8
  sequence_number :: u64
  trade_id :: u64
  timestamp :: u64
  price :: 'd
  quantity :: 'd
  buyer_is_maker :: bool
  best_match :: bool
  symbol :: bytes

record gap_request =
  req_type :: u8
  start_seq :: u64
  end_seq :: u64

definition ITCHTradeMsgSize :: nat where
  "ITCHTradeMsgSize = 51"

definition GapRequestMsgSize :: nat where
  "GapRequestMsgSize = 17"

definition put_bool :: "bool \<Rightarrow> u8" where
  "put_bool b = (if b then 1 else 0)"

definition encode_itch :: "('d \<Rightarrow> u64) \<Rightarrow> 'd itch_msg \<Rightarrow> bytes" where
  "encode_itch bits m = message_type m # put64 (sequence_number m) @ put64 (trade_id m) @ put64 (timestamp m)
     @ put64 (bits (price m)) @ put64 (bits (quantity m))
     @ put_bool (buyer_is_maker m) # put_bool (best_match m) # symbol m"

text \<open>The fields of a struct whose memory is the bytes \<open>bs\<close>; a flag is true if its byte is not 0.\<close>

definition decode_itch :: "(u64 \<Rightarrow> 'd) \<Rightarrow> bytes \<Rightarrow> 'd itch_msg" where
  "decode_itch dbl bs = \<lparr>message_type = bs ! 0, sequence_number = get64 (take 8 (drop 1 bs)),
     trade_id = get64 (take 8 (drop 9 bs)), timestamp = get64 (take 8 (drop 17 bs)),
     price = dbl (get64 (take 8 (drop 25 bs))), quantity = dbl (get64 (take 8 (drop 33 bs))),
     buyer_is_maker = (bs ! 41 \<noteq> 0), best_match = (bs ! 42 \<noteq> 0), symbol = take 8 (drop 43 bs)\<rparr>"

definition encode_gap :: "gap_request \<Rightarrow> bytes" where
  "encode_gap r = req_type r # put64 (start_seq r) @ put64 (end_seq r)"

definition decode_gap :: "bytes \<Rightarrow> gap_request" where
  "decode_gap bs = \<lparr>req_type = bs ! 0, start_seq = get64 (take 8 (drop 1 bs)), end_seq = get64 (take 8 (drop 9 bs))\<rparr>"

text \<open>A message as the program builds it: the symbol fills its eight bytes.\<close>

definition itch_wf :: "'d itch_msg \<Rightarrow> bool" where
  "itch_wf m \<longleftrightarrow> length (symbol m) = 8"

text \<open>The \<open>i\<close>-th trade of a small feed, for concrete runs.\<close>

definition trade_no :: "nat \<Rightarrow> nat itch_msg" where
  "trade_no i = \<lparr>message_type = 80, sequence_number = of_nat i, trade_id = of_nat i, timestamp = of_nat i,
     price = i, quantity = 1, buyer_is_maker = False, best_match = False, symbol = replicate 8 0\<rparr>"

lemma sequence_number_trade_no [simp]: "sequence_number (trade_no i) = of_nat i"
  by (simp add: trade_no_def)

lemma itch_wf_trade_no [simp]: "itch_wf (trade_no i)"
  by (simp add: trade_no_def itch_wf_def)

lemma length_encode_itch [simp]: "itch_wf m \<Longrightarrow> length (encode_itch bits m) = ITCHTradeMsgSize"
  by (simp add: encode_itch_def itch_wf_def ITCHTradeMsgSize_def)

lemma length_encode_gap [simp]: "length (encode_gap r) = GapRequestMsgSize"
  by (simp add: encode_gap_def GapRequestMsgSize_def)

lemma decode_encode_gap [simp]: "decode_gap (encode_gap r) = r"
  by (simp add: decode_gap_def encode_gap_def)

lemma decode_encode_itch:
  assumes "itch_wf m" and "dbl (bits (price m)) = price m" and "dbl (bits (quantity m)) = quantity m"
  shows "decode_itch dbl (encode_itch bits m) = m"
  using assms by (cases m) (simp add: decode_itch_def encode_itch_def itch_wf_def put_bool_def nth_append)

section \<open>The layout of the packed structs\<close>

text \<open>
  The members in the order of their declaration, with their sizes. In a packed struct a member
  begins where the one before it ends; \<open>member_bytes\<close> cuts its bytes out of the memory of the struct.
\<close>

definition itch_members :: "(string \<times> nat) list" where
  "itch_members = [(''message_type'', 1), (''sequence_number'', 8), (''trade_id'', 8), (''timestamp'', 8),
     (''price'', 8), (''quantity'', 8), (''buyer_is_maker'', 1), (''best_match'', 1), (''symbol'', 8)]"

definition gap_members :: "(string \<times> nat) list" where
  "gap_members = [(''type'', 1), (''start_seq'', 8), (''end_seq'', 8)]"

fun member_bytes :: "(string \<times> nat) list \<Rightarrow> string \<Rightarrow> bytes \<Rightarrow> bytes" where
  "member_bytes [] name bs = []"
| "member_bytes ((x, n) # ms) name bs = (if x = name then take n bs else member_bytes ms name (drop n bs))"

text \<open>The bytes of an integer in memory, least significant first, and the integer they stand for.\<close>

definition little_endian :: "nat \<Rightarrow> nat \<Rightarrow> bytes" where
  "little_endian n x = map (\<lambda>j. of_nat (x div 256 ^ j mod 256)) [0..<n]"

definition le_value :: "bytes \<Rightarrow> u64" where
  "le_value bs = of_nat (\<Sum>j < length bs. unat (bs ! j) * 256 ^ j)"

lemma le_bytes_little_endian: "le_bytes n x = little_endian n x"
proof (induction n arbitrary: x)
  case (Suc n)
  have "little_endian (Suc n) x = of_nat (x mod 256) # map (\<lambda>j. of_nat (x div 256 ^ Suc j mod 256)) [0..<n]"
    unfolding little_endian_def upt_conv_Cons [OF zero_less_Suc] map_Suc_upt [symmetric] by simp
  then show ?case using Suc [of "x div 256"] by (simp add: little_endian_def div_mult2_eq [symmetric] del: of_nat_mod)
qed (simp add: little_endian_def)

lemma le_nat_sum: "le_nat bs = (\<Sum>j < length bs. unat (bs ! j) * 256 ^ j)"
proof (induction bs)
  case (Cons b bs)
  have "(\<Sum>j < length (b # bs). unat ((b # bs) ! j) * 256 ^ j)
      = unat b + (\<Sum>j < length bs. unat (bs ! j) * 256 ^ Suc j)"
    by (simp add: sum.lessThan_Suc_shift del: sum.lessThan_Suc)
  also have "\<dots> = unat b + 256 * (\<Sum>j < length bs. unat (bs ! j) * 256 ^ j)"
    by (simp add: sum_distrib_left mult.left_commute)
  finally show ?case using Cons by simp
qed simp

lemma put64_little_endian: "put64 w = little_endian 8 (unat w)"
  by (simp add: put64_def le_bytes_little_endian)

lemma get64_le_value: "get64 = le_value"
  by (rule ext) (simp add: get64_def le_value_def le_nat_sum)

text \<open>What a message is in memory, and what is read from memory, member by member.\<close>

lemma encode_itch_layout:
  assumes "itch_wf m"
  shows "map (\<lambda>(x, n). member_bytes itch_members x (encode_itch bits m)) itch_members =
    [[message_type m], little_endian 8 (unat (sequence_number m)), little_endian 8 (unat (trade_id m)),
     little_endian 8 (unat (timestamp m)), little_endian 8 (unat (bits (price m))),
     little_endian 8 (unat (bits (quantity m))), [if buyer_is_maker m then 1 else 0],
     [if best_match m then 1 else 0], symbol m]"
  using assms by (simp add: itch_members_def encode_itch_def itch_wf_def put_bool_def put64_little_endian [symmetric])

lemma encode_gap_layout:
  "map (\<lambda>(x, n). member_bytes gap_members x (encode_gap r)) gap_members =
    [[req_type r], little_endian 8 (unat (start_seq r)), little_endian 8 (unat (end_seq r))]"
  by (simp add: gap_members_def encode_gap_def put64_little_endian [symmetric])

lemma decode_itch_layout:
  assumes "length bs = ITCHTradeMsgSize"
  shows "decode_itch dbl bs = (let at = (\<lambda>x. member_bytes itch_members x bs) in
    \<lparr>message_type = hd (at ''message_type''), sequence_number = le_value (at ''sequence_number''),
     trade_id = le_value (at ''trade_id''), timestamp = le_value (at ''timestamp''),
     price = dbl (le_value (at ''price'')), quantity = dbl (le_value (at ''quantity'')),
     buyer_is_maker = (at ''buyer_is_maker'' \<noteq> [0]), best_match = (at ''best_match'' \<noteq> [0]), symbol = at ''symbol''\<rparr>)"
  using assms by (simp add: decode_itch_def itch_members_def ITCHTradeMsgSize_def get64_le_value
      take_Suc_conv_app_nth hd_conv_nth hd_drop_conv_nth take_Suc)

lemma decode_gap_layout:
  assumes "length bs = GapRequestMsgSize"
  shows "decode_gap bs = (let at = (\<lambda>x. member_bytes gap_members x bs) in
    \<lparr>req_type = hd (at ''type''), start_seq = le_value (at ''start_seq''), end_seq = le_value (at ''end_seq'')\<rparr>)"
  using assms by (cases bs) (simp_all add: decode_gap_def gap_members_def GapRequestMsgSize_def get64_le_value)

lemma encode_decode_itch:
  assumes l: "length bs = ITCHTradeMsgSize" and "\<forall>w. bits (dbl w) = w" and "bs ! 41 \<in> {0, 1}" "bs ! 42 \<in> {0, 1}"
  shows "encode_itch bits (decode_itch dbl bs) = bs"
proof -
  have flags: "put_bool (bs ! j \<noteq> 0) = bs ! j" if "bs ! j \<in> {0, 1}" for j using that by (auto simp: put_bool_def)
  have put: "put64 (get64 (take 8 (drop j bs))) = take 8 (drop j bs)" if "j \<le> 43" for j
    using that l by (intro put_get64) (simp add: ITCHTradeMsgSize_def)
  have "encode_itch bits (decode_itch dbl bs) = bs ! 0 # take 8 (drop 1 bs) @ take 8 (drop 9 bs) @ take 8 (drop 17 bs) @
      take 8 (drop 25 bs) @ take 8 (drop 33 bs) @ bs ! 41 # bs ! 42 # take 8 (drop 43 bs)"
    using assms(2) by (simp add: encode_itch_def decode_itch_def put flags [OF assms(3)] flags [OF assms(4)])
  also have "\<dots> = bs"
  proof -
    have byte: "bs ! j # drop (Suc j) bs = drop j bs" if "j < 51" for j
      using that l by (intro Cons_nth_drop_Suc) (simp add: ITCHTradeMsgSize_def)
    have word: "take 8 (drop j bs) @ drop (j + 8) bs = drop j bs" for j
      using append_take_drop_id [of 8 "drop j bs"] by (simp add: add.commute)
    have "take 8 (drop 43 bs) = drop 43 bs" using l by (simp add: ITCHTradeMsgSize_def)
    then show ?thesis
      using byte [of 0] word [of 1] word [of 9] word [of 17] word [of 25] word [of 33] byte [of 41] byte [of 42] by simp
  qed
  finally show ?thesis .
qed

text \<open>
  C36: The wire format is the memory of the packed structs. A trade message has 51 bytes and a gap
  request 17, the sum of the sizes of the members. In the order of their declaration and without
  padding each member is where the struct has it: a character as it is, an integer and the 64-bit
  pattern of a double least significant byte first, a flag as 0 or 1, the symbol as it is; and a
  receiver reads each member from there, a flag as true for any byte but 0. Decoding the bytes of
  a message gives the message. Encoding what was decoded gives the bytes again: for any 17 bytes of
  a request, for the 51 bytes of a trade message if its two flag bytes are 0 or 1.
\<close>

theorem wire_round_trip:
  assumes "itch_wf m" and "dbl (bits (price m)) = price m" and "dbl (bits (quantity m)) = quantity m"
    and "length gs = GapRequestMsgSize" and "length bs = ITCHTradeMsgSize"
  shows "length (encode_itch bits m) = ITCHTradeMsgSize \<and> ITCHTradeMsgSize = sum_list (map snd itch_members) \<and>
    map (\<lambda>(x, n). member_bytes itch_members x (encode_itch bits m)) itch_members =
      [[message_type m], little_endian 8 (unat (sequence_number m)), little_endian 8 (unat (trade_id m)),
       little_endian 8 (unat (timestamp m)), little_endian 8 (unat (bits (price m))),
       little_endian 8 (unat (bits (quantity m))), [if buyer_is_maker m then 1 else 0],
       [if best_match m then 1 else 0], symbol m] \<and>
    decode_itch dbl bs = (let at = (\<lambda>x. member_bytes itch_members x bs) in
      \<lparr>message_type = hd (at ''message_type''), sequence_number = le_value (at ''sequence_number''),
       trade_id = le_value (at ''trade_id''), timestamp = le_value (at ''timestamp''),
       price = dbl (le_value (at ''price'')), quantity = dbl (le_value (at ''quantity'')),
       buyer_is_maker = (at ''buyer_is_maker'' \<noteq> [0]), best_match = (at ''best_match'' \<noteq> [0]), symbol = at ''symbol''\<rparr>) \<and>
    decode_itch dbl (encode_itch bits m) = m \<and>
    ((\<forall>w. bits (dbl w) = w) \<and> bs ! 41 \<in> {0, 1} \<and> bs ! 42 \<in> {0, 1} \<longrightarrow> encode_itch bits (decode_itch dbl bs) = bs) \<and>
    length (encode_gap r) = GapRequestMsgSize \<and> GapRequestMsgSize = sum_list (map snd gap_members) \<and>
    map (\<lambda>(x, n). member_bytes gap_members x (encode_gap r)) gap_members =
      [[req_type r], little_endian 8 (unat (start_seq r)), little_endian 8 (unat (end_seq r))] \<and>
    decode_gap gs = (let at = (\<lambda>x. member_bytes gap_members x gs) in
      \<lparr>req_type = hd (at ''type''), start_seq = le_value (at ''start_seq''), end_seq = le_value (at ''end_seq'')\<rparr>) \<and>
    decode_gap (encode_gap r) = r \<and> encode_gap (decode_gap gs) = gs"
proof -
  have l: "length gs = 17" using assms(4) by (simp add: GapRequestMsgSize_def)
  then obtain b gs' where gs: "gs = b # gs'" "length gs' = 16" by (cases gs) simp_all
  then have "take 8 (drop 8 gs') = drop 8 gs'" by simp
  then have "encode_gap (decode_gap gs) = gs"
    using gs by (simp add: encode_gap_def decode_gap_def put_get64)
  moreover have "ITCHTradeMsgSize = sum_list (map snd itch_members)" "GapRequestMsgSize = sum_list (map snd gap_members)"
    by (simp_all add: itch_members_def gap_members_def ITCHTradeMsgSize_def GapRequestMsgSize_def)
  ultimately show ?thesis
    using assms(1) encode_itch_layout [OF assms(1), of bits] encode_gap_layout [of r]
      decode_itch_layout [OF assms(5), of dbl] decode_gap_layout [OF assms(4)]
      decode_encode_itch [of m dbl bits, OF assms(1,2,3)] encode_decode_itch [OF assms(5), of bits dbl]
      length_encode_itch [OF assms(1), of bits] length_encode_gap [of r] decode_encode_gap [of r]
    by blast
qed

lemma wire_round_trip_witness:
  "let m = \<lparr>message_type = 80, sequence_number = 258, trade_id = 4, timestamp = 5, price = 6, quantity = 7,
      buyer_is_maker = True, best_match = False, symbol = replicate 8 66\<rparr> in
    member_bytes itch_members ''sequence_number'' (encode_itch (\<lambda>x. x) m) = [2, 1, 0, 0, 0, 0, 0, 0] \<and>
    decode_itch (\<lambda>x. x) (encode_itch (\<lambda>x. x) m) = m \<and>
    encode_itch (\<lambda>x. x) (decode_itch (\<lambda>x. x) (replicate 51 1)) = replicate 51 1 \<and>
    encode_gap (decode_gap (replicate 17 1)) = replicate 17 1"
proof -
  define m :: "u64 itch_msg" where "m = \<lparr>message_type = 80, sequence_number = 258, trade_id = 4, timestamp = 5,
    price = 6, quantity = 7, buyer_is_maker = True, best_match = False, symbol = replicate 8 66\<rparr>"
  have wf: "itch_wf m" by (simp add: m_def itch_wf_def)
  note t = wire_round_trip [of m "\<lambda>x. x" "\<lambda>x. x" "replicate 17 1" "replicate 51 1", OF wf refl refl]
  have l: "length (replicate 17 1 :: bytes) = GapRequestMsgSize" "length (replicate 51 1 :: bytes) = ITCHTradeMsgSize"
    by (simp_all add: GapRequestMsgSize_def ITCHTradeMsgSize_def)
  note t = t [OF l]
  have ones: "(replicate 51 1 :: bytes) ! 41 \<in> {0, 1}" "(replicate 51 1 :: bytes) ! 42 \<in> {0, 1}" by simp_all
  have "map (\<lambda>(x, n). member_bytes itch_members x (encode_itch (\<lambda>x. x) m)) itch_members ! 1 = little_endian 8 (unat (sequence_number m))"
    using arg_cong [OF t [THEN conjunct2, THEN conjunct2, THEN conjunct1], of "\<lambda>xs. xs ! 1"]
    by (simp only: nth_Cons_0 nth_Cons_Suc One_nat_def)
  then have "member_bytes itch_members ''sequence_number'' (encode_itch (\<lambda>x. x) m) = [2, 1, 0, 0, 0, 0, 0, 0]"
    by (simp add: itch_members_def little_endian_def m_def upt_rec)
  moreover have "encode_itch (\<lambda>x. x) (decode_itch (\<lambda>x. x) (replicate 51 1)) = replicate 51 1"
    using t ones by blast
  ultimately show ?thesis using t unfolding Let_def m_def [symmetric] by blast
qed

section \<open>Checked system calls\<close>

text \<open>
  System calls in order, each with its result and the text of the exception thrown if it is
  negative.
\<close>

fun checked_calls :: "(int \<times> string) list \<Rightarrow> unit res" where
  "checked_calls [] = Inr ()"
| "checked_calls ((r, msg) # cs) = (if r < 0 then Inl (Throw (Runtime_Error msg)) else checked_calls cs)"

end
