(* ===== verification/TradeStore.thy ===== *)
theory TradeStore
  imports Messages "HOL-Library.Multiset" "HOL-Library.Sublist"
begin

text \<open>
  \<^verbatim>\<open>TradeMsgStore\<close> of include/Utils.hpp: the trade files of a directory are read line by line,
  sorted by time and numbered. \<open>stod\<close> is \<^verbatim>\<open>std::stod\<close>, whose result is a value of the type
  \<open>'d\<close> of prices; \<open>srt\<close> is \<^verbatim>\<open>std::sort\<close>, which leaves the order of equal times open.
\<close>

section \<open>The library calls on strings\<close>

definition is_space :: "char \<Rightarrow> bool" where
  "is_space c \<longleftrightarrow> (let n = (of_char c :: nat) in n = 32 \<or> 9 \<le> n \<and> n \<le> 13)"

definition digit_val :: "char \<Rightarrow> nat option" where
  "digit_val c = (let n = of_char c in if 48 \<le> n \<and> n \<le> 57 then Some (n - 48) else None)"

fun read_digits :: "nat \<Rightarrow> string \<Rightarrow> nat" where
  "read_digits acc [] = acc"
| "read_digits acc (c # cs) = (case digit_val c of None \<Rightarrow> acc | Some d \<Rightarrow> read_digits (10 * acc + d) cs)"

text \<open>
  \<^verbatim>\<open>std::stoull\<close> in base 10: leading white space, an optional sign, digits, then anything. A
  minus sign negates modulo \<open>2 ^ 64\<close>.
\<close>

definition read_sign :: "string \<Rightarrow> bool \<times> string" where
  "read_sign s = (case s of [] \<Rightarrow> (False, [])
    | c # cs \<Rightarrow> if c = CHR ''-'' then (True, cs) else if c = CHR ''+'' then (False, cs) else (False, c # cs))"

definition stoull :: "string \<Rightarrow> u64 res" where
  "stoull s = (let (neg, ds) = read_sign (dropWhile is_space s) in
    if ds = [] \<or> digit_val (hd ds) = None then Inl (Throw (Invalid_Argument ''stoull''))
    else let n = read_digits 0 ds in
      if n \<ge> 2 ^ 64 then Inl (Throw (Out_Of_Range ''stoull''))
      else Inr (if neg then - of_nat n else of_nat n))"

text \<open>
  \<^verbatim>\<open>std::getline(ss, token, ',')\<close> on a string stream: the rest of the input and whether the
  stream is still good. Reading past the last field makes it bad, and on a bad stream the call
  leaves \<open>token\<close> as it is.
\<close>

definition getline :: "string \<times> bool \<Rightarrow> string \<Rightarrow> string \<times> (string \<times> bool)" where
  "getline ss token = (let (input, good) = ss in
    if \<not> good then (token, ss)
    else (takeWhile (\<lambda>c. c \<noteq> CHR '','') input,
      case dropWhile (\<lambda>c. c \<noteq> CHR '','') input of [] \<Rightarrow> ([], False) | _ # after \<Rightarrow> (after, True)))"

text \<open>The lines \<^verbatim>\<open>std::getline(file, line)\<close> delivers: no empty line after a final newline.\<close>

function file_lines :: "string \<Rightarrow> string list" where
  "file_lines inp = (if inp = [] then [] else takeWhile (\<lambda>c. c \<noteq> CHR 0x0A) inp #
     file_lines (drop 1 (dropWhile (\<lambda>c. c \<noteq> CHR 0x0A) inp)))"
  by pat_completeness auto

termination file_lines
proof (relation "measure length", simp_all)
  fix inp :: string
  assume "inp \<noteq> []"
  then show "length (dropWhile (\<lambda>c. c \<noteq> CHR 0x0A) inp) - Suc 0 < length inp"
    using length_dropWhile_le [of "\<lambda>c. c \<noteq> CHR 0x0A" inp] by (cases inp) (auto simp: less_Suc_eq_le diff_le_self intro: le_trans)
qed

declare file_lines.simps [simp del]

section \<open>Parsing\<close>

definition store_symbol :: "string \<Rightarrow> bytes" where
  "store_symbol symb = map of_char (take 8 symb) @ replicate (8 - length symb) 0"

text \<open>\<open>sequence_number\<close> is the number of trades stored before this one.\<close>

definition parseTrade :: "(string \<Rightarrow> 'd res) \<Rightarrow> string \<Rightarrow> string \<Rightarrow> 'd itch_msg list \<Rightarrow> 'd itch_msg list res" where
  "parseTrade stod line symb store = (
    let (t1, ss1) = getline (line, True) [] in res_bind (stoull t1) (\<lambda>tid.
    let (t2, ss2) = getline ss1 t1 in res_bind (stod t2) (\<lambda>pr.
    let (t3, ss3) = getline ss2 t2 in res_bind (stod t3) (\<lambda>qty.
    let (t4, ss4) = getline ss3 t3; (t5, ss5) = getline ss4 t4 in res_bind (stoull t5) (\<lambda>ts.
    let (t6, ss6) = getline ss5 t5; (t7, ss7) = getline ss6 t6 in
    Inr (store @ [\<lparr>message_type = 80, sequence_number = of_nat (length store), trade_id = tid,
      timestamp = ts, price = pr, quantity = qty, buyer_is_maker = (t6 = ''True''),
      best_match = (t7 = ''True''), symbol = store_symbol symb\<rparr>]))))))"

text \<open>The part of the file name before the first \<open>-\<close>, the whole name without one.\<close>

definition file_symbol :: "string \<Rightarrow> string" where
  "file_symbol fileName = takeWhile (\<lambda>c. c \<noteq> CHR ''-'') fileName"

fun parse_lines :: "(string \<Rightarrow> 'd res) \<Rightarrow> string \<Rightarrow> string list \<Rightarrow> 'd itch_msg list \<Rightarrow> 'd itch_msg list res" where
  "parse_lines stod symb [] store = Inr store"
| "parse_lines stod symb (line # ls) store = res_bind (parseTrade stod line symb store) (parse_lines stod symb ls)"

text \<open>The contents of a file, \<open>None\<close> if it cannot be opened.\<close>

definition ReadFile :: "(string \<Rightarrow> 'd res) \<Rightarrow> string \<Rightarrow> string option \<Rightarrow> 'd itch_msg list \<Rightarrow> 'd itch_msg list res" where
  "ReadFile stod fileName content store = (case content of
      None \<Rightarrow> Inl (Throw (Runtime_Error ''Trade file open failed''))
    | Some inp \<Rightarrow> parse_lines stod (file_symbol fileName) (file_lines inp) store)"

section \<open>The store\<close>

record dir_entry =
  de_name :: string
  de_regular :: bool
  de_content :: "string option"

definition is_csv :: "string \<Rightarrow> bool" where
  "is_csv fileName \<longleftrightarrow> 4 \<le> length fileName \<and> drop (length fileName - 4) fileName = ''.csv''"

fun read_dir :: "(string \<Rightarrow> 'd res) \<Rightarrow> dir_entry list \<Rightarrow> 'd itch_msg list \<Rightarrow> 'd itch_msg list res" where
  "read_dir stod [] store = Inr store"
| "read_dir stod (e # es) store =
    (if de_regular e \<and> is_csv (de_name e)
     then res_bind (ReadFile stod (de_name e) (de_content e) store) (read_dir stod es)
     else read_dir stod es store)"

definition renumber :: "'d itch_msg list \<Rightarrow> 'd itch_msg list" where
  "renumber store = map (\<lambda>i. (store ! i)\<lparr>sequence_number := of_nat i\<rparr>) [0..<length store]"

definition store_of_file :: "(string \<Rightarrow> 'd res) \<Rightarrow> string \<Rightarrow> string option \<Rightarrow> 'd itch_msg list res" where
  "store_of_file stod fileName content = ReadFile stod fileName content []"

definition store_of_dir :: "(string \<Rightarrow> 'd res) \<Rightarrow> ('d itch_msg list \<Rightarrow> 'd itch_msg list) \<Rightarrow> dir_entry list \<Rightarrow>
    'd itch_msg list res" where
  "store_of_dir stod srt es = res_bind (read_dir stod es []) (\<lambda>store. Inr (renumber (srt store)))"

definition store_get :: "'d itch_msg list \<Rightarrow> nat \<Rightarrow> 'd itch_msg option" where
  "store_get store index = (if index \<ge> length store then None else Some (store ! index))"

text \<open>What \<^verbatim>\<open>std::sort\<close> promises for the comparison of timestamps.\<close>

definition sorts_by_time :: "('d itch_msg list \<Rightarrow> 'd itch_msg list) \<Rightarrow> bool" where
  "sorts_by_time srt \<longleftrightarrow> (\<forall>ms. mset (srt ms) = mset ms \<and> sorted (map (unat \<circ> timestamp) (srt ms)))"

section \<open>Numbers in decimal\<close>

definition digit_char :: "nat \<Rightarrow> char" where
  "digit_char d = char_of (48 + d)"

fun digits10 :: "nat \<Rightarrow> string" where
  "digits10 n = (if n < 10 then [digit_char n] else digits10 (n div 10) @ [digit_char (n mod 10)])"

declare digits10.simps [simp del]

lemma digit_val_char [simp]: "d < 10 \<Longrightarrow> digit_val (digit_char d) = Some d"
  by (simp add: digit_val_def digit_char_def Let_def)

lemma not_special:
  assumes "d < 10"
  shows "\<not> is_space (digit_char d) \<and> digit_char d \<noteq> CHR ''-'' \<and> digit_char d \<noteq> CHR ''+'' \<and> digit_char d \<noteq> CHR '',''"
proof -
  have n: "of_char (digit_char d) = 48 + d" using assms by (simp add: digit_char_def)
  have "of_char (CHR ''-'') = (45 :: nat)" "of_char (CHR ''+'') = (43 :: nat)" "of_char (CHR '','') = (44 :: nat)" by simp_all
  with n show ?thesis by (auto simp: is_space_def Let_def simp del: of_char_Char)
qed

lemma digits10_all: "c \<in> set (digits10 n) \<Longrightarrow> \<exists>d < 10. c = digit_char d"
proof (induction n rule: digits10.induct)
  case (1 n)
  show ?case
  proof (cases "n < 10")
    case True
    with 1(2) show ?thesis by (subst (asm) digits10.simps) auto
  next
    case False
    with 1(2) have "c \<in> set (digits10 (n div 10)) \<or> c = digit_char (n mod 10)" by (subst (asm) digits10.simps) auto
    with 1(1) [OF False] show ?thesis by (metis mod_less_divisor zero_less_numeral)
  qed
qed

lemma digits10_hd: "digits10 n \<noteq> [] \<and> (\<exists>d < 10. hd (digits10 n) = digit_char d)"
proof -
  have ne: "digits10 n \<noteq> []" by (subst digits10.simps) simp
  then have "hd (digits10 n) \<in> set (digits10 n)" by (rule hd_in_set)
  with ne digits10_all show ?thesis by blast
qed

lemma read_digits_append:
  "\<forall>c \<in> set s. digit_val c \<noteq> None \<Longrightarrow> read_digits a (s @ t) = read_digits (read_digits a s) t"
  by (induction s arbitrary: a) auto

lemma read_digits10: "read_digits 0 (digits10 n) = n"
proof (induction n rule: digits10.induct)
  case (1 n)
  have all: "\<forall>c \<in> set (digits10 (n div 10)). digit_val c \<noteq> None"
    using digits10_all [of _ "n div 10"] digit_val_char by fastforce
  show ?case
  proof (cases "n < 10")
    case True
    then show ?thesis by (subst digits10.simps) simp
  next
    case False
    then show ?thesis using 1 [OF False]
      by (subst digits10.simps) (simp add: read_digits_append [OF all])
  qed
qed

lemma stoull_digits10:
  assumes "n < 2 ^ 64"
  shows "stoull (digits10 n) = Inr (of_nat n)"
proof -
  obtain d ds where d: "digits10 n = digit_char d # ds" "d < 10"
    using digits10_hd [of n] by (cases "digits10 n") auto
  then have "read_sign (dropWhile is_space (digits10 n)) = (False, digits10 n)"
    using not_special [OF d(2)] by (simp add: read_sign_def)
  moreover have "digit_val (hd (digits10 n)) = Some d" using d by simp
  ultimately show ?thesis using assms digits10_hd [of n] read_digits10 [of n] by (simp add: stoull_def Let_def)
qed

section \<open>Reading lines\<close>

lemma getline_field:
  assumes "CHR '','' \<notin> set f"
  shows "getline (f @ CHR '','' # rest, True) tok = (f, (rest, True))"
proof -
  let ?P = "\<lambda>c. c \<noteq> CHR '',''"
  have all: "\<And>x. x \<in> set f \<Longrightarrow> ?P x" using assms by metis
  have "takeWhile ?P (f @ CHR '','' # rest) = f" "dropWhile ?P (f @ CHR '','' # rest) = CHR '','' # rest"
    using takeWhile_append2 [of f ?P, OF all] dropWhile_append2 [of f ?P, OF all] by simp_all
  then show ?thesis unfolding getline_def Let_def by simp
qed

lemma getline_last:
  assumes "CHR '','' \<notin> set f"
  shows "getline (f, True) tok = (f, ([], False))"
proof -
  let ?P = "\<lambda>c. c \<noteq> CHR '',''"
  have all: "\<And>x. x \<in> set f \<Longrightarrow> ?P x" using assms by metis
  have f: "takeWhile ?P f = f" "dropWhile ?P f = []"
    using takeWhile_append2 [of f ?P "[]", OF all] dropWhile_append2 [of f ?P "[]", OF all] by simp_all
  show ?thesis unfolding getline_def Let_def prod.case f by simp
qed

lemma getline_bad: "getline (rest, False) tok = (tok, (rest, False))"
  by (simp add: getline_def)

lemma digits10_no_comma: "CHR '','' \<notin> set (digits10 n)"
  using digits10_all not_special by metis

lemma parseTrade_fields:
  assumes "CHR '','' \<notin> set p" "CHR '','' \<notin> set q" "CHR '','' \<notin> set quote" "CHR '','' \<notin> set bm" "CHR '','' \<notin> set best"
    and "tid < 2 ^ 64" "ts < 2 ^ 64" and "stod p = Inr pr" "stod q = Inr qty"
  shows "parseTrade stod (digits10 tid @ CHR '','' # p @ CHR '','' # q @ CHR '','' # quote @ CHR '','' #
      digits10 ts @ CHR '','' # bm @ CHR '','' # best) symb store =
    Inr (store @ [\<lparr>message_type = 80, sequence_number = of_nat (length store), trade_id = of_nat tid,
      timestamp = of_nat ts, price = pr, quantity = qty, buyer_is_maker = (bm = ''True''),
      best_match = (best = ''True''), symbol = store_symbol symb\<rparr>])"
  unfolding parseTrade_def Let_def
  by (simp add: getline_field [OF digits10_no_comma] getline_field [OF assms(1)] getline_field [OF assms(2)]
      getline_field [OF assms(3)] getline_field [OF assms(4)] getline_last [OF assms(5)]
      stoull_digits10 [OF assms(6)] stoull_digits10 [OF assms(7)] assms(8,9))

lemma parseTrade_Inr:
  assumes "parseTrade stod line symb store = Inr store'"
  obtains m where "store' = store @ [m]" "sequence_number m = of_nat (length store)" "itch_wf m" "message_type m = 80"
proof -
  have "length (store_symbol symb) = 8" by (simp add: store_symbol_def)
  then show thesis using assms that
    by (auto simp: parseTrade_def Let_def split_beta res_bind_Inr_iff itch_wf_def)
qed

text \<open>A store that has been filled only by \<open>parseTrade\<close> is numbered from 0.\<close>

definition numbered :: "'d itch_msg list \<Rightarrow> bool" where
  "numbered store \<longleftrightarrow> (\<forall>i < length store. sequence_number (store ! i) = of_nat i \<and> itch_wf (store ! i) \<and>
     message_type (store ! i) = 80)"

lemma numbered_snoc:
  "numbered store \<Longrightarrow> sequence_number m = of_nat (length store) \<Longrightarrow> itch_wf m \<Longrightarrow> message_type m = 80 \<Longrightarrow>
    numbered (store @ [m])"
  by (auto simp: numbered_def nth_append less_Suc_eq)

lemma parse_lines_numbered:
  "parse_lines stod symb ls store = Inr store' \<Longrightarrow> numbered store \<Longrightarrow>
    numbered store' \<and> length store' = length store + length ls"
proof (induction ls arbitrary: store)
  case (Cons line ls)
  from Cons.prems(1) obtain store1 where p: "parseTrade stod line symb store = Inr store1"
    "parse_lines stod symb ls store1 = Inr store'" by (auto simp: res_bind_Inr_iff)
  obtain m where "store1 = store @ [m]" "sequence_number m = of_nat (length store)" "itch_wf m" "message_type m = 80"
    using p(1) by (rule parseTrade_Inr)
  with Cons.IH [OF p(2)] numbered_snoc [OF Cons.prems(2)] show ?case by simp
qed simp

lemma read_dir_numbered: "read_dir stod es store = Inr store' \<Longrightarrow> numbered store \<Longrightarrow> numbered store'"
proof (induction es arbitrary: store)
  case (Cons e es)
  show ?case
  proof (cases "de_regular e \<and> is_csv (de_name e)")
    case True
    then obtain store1 where r: "ReadFile stod (de_name e) (de_content e) store = Inr store1" "read_dir stod es store1 = Inr store'"
      using Cons.prems(1) by (auto simp: res_bind_Inr_iff)
    from r(1) Cons.prems(2) have "numbered store1"
      by (auto simp: ReadFile_def dest: parse_lines_numbered split: option.splits)
    with Cons.IH r(2) show ?thesis by blast
  next
    case False
    with Cons show ?thesis by auto
  qed
qed simp

section \<open>Properties\<close>

lemma map_renumber: "map (\<lambda>m. m\<lparr>sequence_number := 0\<rparr>) (renumber store) = map (\<lambda>m. m\<lparr>sequence_number := 0\<rparr>) store"
  by (rule nth_equalityI) (simp_all add: renumber_def)

lemma numbered_renumber:
  "\<forall>m \<in> set store. itch_wf m \<and> message_type m = 80 \<Longrightarrow> numbered (renumber store)"
  by (simp add: numbered_def renumber_def itch_wf_def)

subsection \<open>The trades of a line, a file and a directory\<close>

text \<open>
  What each line holds when it is read alone, \<open>None\<close> if it does not parse; the lines of a file in
  order, under the symbol of the file name; the files of a directory that count, which are the
  regular files whose name ends in \<^verbatim>\<open>.csv\<close>.
\<close>

definition line_trade :: "(string \<Rightarrow> 'd res) \<Rightarrow> string \<Rightarrow> string \<Rightarrow> 'd itch_msg option" where
  "line_trade stod symb line = (case parseTrade stod line symb [] of Inr [m] \<Rightarrow> Some m | _ \<Rightarrow> None)"

definition file_trades :: "(string \<Rightarrow> 'd res) \<Rightarrow> string \<Rightarrow> string \<Rightarrow> 'd itch_msg option list" where
  "file_trades stod fileName contents =
    map (line_trade stod (takeWhile (\<lambda>c. c \<noteq> CHR ''-'') fileName)) (file_lines contents)"

definition csv_files :: "dir_entry list \<Rightarrow> dir_entry list" where
  "csv_files es = filter (\<lambda>e. de_regular e \<and> suffix ''.csv'' (de_name e)) es"

definition csv_trades :: "(string \<Rightarrow> 'd res) \<Rightarrow> dir_entry list \<Rightarrow> 'd itch_msg option list" where
  "csv_trades stod es = concat (map (\<lambda>e. file_trades stod (de_name e) (the (de_content e))) (csv_files es))"

abbreviation no_number :: "'d itch_msg \<Rightarrow> 'd itch_msg" where
  "no_number m \<equiv> m\<lparr>sequence_number := 0\<rparr>"

lemma is_csv_suffix: "is_csv fileName = suffix ''.csv'' fileName"
proof
  assume "is_csv fileName"
  then have "fileName = take (length fileName - 4) fileName @ ''.csv''"
    unfolding is_csv_def by (metis append_take_drop_id)
  then show "suffix ''.csv'' fileName" by (rule suffixI)
next
  assume "suffix ''.csv'' fileName"
  then obtain b where "fileName = b @ ''.csv''" by (rule suffixE)
  then show "is_csv fileName" by (simp add: is_csv_def)
qed

text \<open>A line is parsed alike whatever is in the store already; only the number differs.\<close>

lemma parseTrade_alone:
  "parseTrade stod line symb store = res_bind (parseTrade stod line symb [])
     (\<lambda>ms. Inr (store @ [(hd ms)\<lparr>sequence_number := of_nat (length store)\<rparr>]))"
  unfolding parseTrade_def Let_def split_beta by (simp add: res_bind_def split: sum.splits)

lemma parseTrade_line_trade:
  "parseTrade stod line symb store = Inr store' \<Longrightarrow>
    \<exists>m. line_trade stod symb line = Some m \<and> no_number m = m \<and> store' = store @ [m\<lparr>sequence_number := of_nat (length store)\<rparr>]"
proof -
  assume "parseTrade stod line symb store = Inr store'"
  then obtain ms where ms: "parseTrade stod line symb [] = Inr ms"
    "store' = store @ [(hd ms)\<lparr>sequence_number := of_nat (length store)\<rparr>]"
    by (subst (asm) parseTrade_alone) (auto simp: res_bind_Inr_iff)
  from ms(1) obtain m where "ms = [] @ [m]" "sequence_number m = of_nat (length ([] :: 'a itch_msg list))" by (rule parseTrade_Inr)
  then show ?thesis using ms by (intro exI [of _ m]) (cases m, simp add: line_trade_def)
qed

lemma parseTrade_line_None:
  assumes "line_trade stod symb line = None"
  shows "\<not> returns (parseTrade stod line symb store)"
proof
  assume "returns (parseTrade stod line symb store)"
  then obtain store' where "parseTrade stod line symb store = Inr store'" by (auto simp: returns_iff)
  from parseTrade_line_trade [OF this] assms show False by simp
qed

lemma line_trade_returns: "line_trade stod symb line \<noteq> None \<Longrightarrow> returns (parseTrade stod line symb store)"
  by (subst parseTrade_alone) (auto simp: line_trade_def returns_iff split: sum.splits)

lemma parse_lines_trades:
  "returns (parse_lines stod symb ls store) = (None \<notin> set (map (line_trade stod symb) ls)) \<and>
    (\<forall>store'. parse_lines stod symb ls store = Inr store' \<longrightarrow>
      map (\<lambda>m. Some (no_number m)) store' = map (\<lambda>m. Some (no_number m)) store @ map (line_trade stod symb) ls)"
proof (induction ls arbitrary: store)
  case (Cons line ls)
  show ?case
  proof (cases "line_trade stod symb line")
    case None
    from parseTrade_line_None [OF this, of store] have "\<not> returns (parse_lines stod symb (line # ls) store)"
      by (cases "parseTrade stod line symb store") (simp_all add: returns_iff)
    with None show ?thesis by (auto simp: returns_iff)
  next
    case (Some m)
    then obtain store1 where p: "parseTrade stod line symb store = Inr store1"
      using line_trade_returns [of stod symb line store] by (auto simp: returns_iff)
    from parseTrade_line_trade [OF p] Some have "store1 = store @ [m\<lparr>sequence_number := of_nat (length store)\<rparr>]" "no_number m = m"
      by auto
    with Cons.IH [of store1] p Some show ?thesis by (simp del: not_None_eq)
  qed
qed simp

lemma ReadFile_trades:
  "returns (ReadFile stod fileName content store) = (\<exists>contents. content = Some contents \<and> None \<notin> set (file_trades stod fileName contents)) \<and>
    (\<forall>store'. ReadFile stod fileName content store = Inr store' \<longrightarrow>
      map (\<lambda>m. Some (no_number m)) store' = map (\<lambda>m. Some (no_number m)) store @ file_trades stod fileName (the content))"
  using parse_lines_trades [of stod "file_symbol fileName"]
  by (cases content) (simp_all add: ReadFile_def file_trades_def file_symbol_def [symmetric])

lemma read_dir_trades:
  "returns (read_dir stod es store) = ((\<forall>e \<in> set (csv_files es). de_content e \<noteq> None) \<and> None \<notin> set (csv_trades stod es)) \<and>
    (\<forall>store'. read_dir stod es store = Inr store' \<longrightarrow>
      map (\<lambda>m. Some (no_number m)) store' = map (\<lambda>m. Some (no_number m)) store @ csv_trades stod es)"
proof (induction es arbitrary: store)
  case (Cons e es)
  let ?read = "ReadFile stod (de_name e) (de_content e) store"
  show ?case
  proof (cases "de_regular e \<and> is_csv (de_name e)")
    case True
    then have c: "csv_files (e # es) = e # csv_files es"
      "csv_trades stod (e # es) = file_trades stod (de_name e) (the (de_content e)) @ csv_trades stod es"
      by (simp_all add: csv_files_def csv_trades_def is_csv_suffix)
    have r: "read_dir stod (e # es) store = res_bind ?read (read_dir stod es)" using True by simp
    note f = ReadFile_trades [of stod "de_name e" "de_content e" store]
    show ?thesis
    proof (cases ?read)
      case (Inl x)
      then show ?thesis using f unfolding r c by (auto simp: returns_iff simp del: not_None_eq)
    next
      case (Inr store1)
      then show ?thesis using f Cons.IH [of store1] unfolding r c by (auto simp: returns_iff simp del: not_None_eq)
    qed
  next
    case False
    then have "csv_files (e # es) = csv_files es" "csv_trades stod (e # es) = csv_trades stod es"
      by (auto simp: csv_files_def csv_trades_def is_csv_suffix)
    with False Cons.IH [of store] show ?thesis by auto
  qed
qed (simp add: csv_files_def csv_trades_def)

text \<open>The lines of a file are what stands between its line feeds; a last line may go without one.\<close>

lemma file_lines_split:
  "\<forall>l \<in> set (last_line # ls). CHR 0x0A \<notin> set l \<Longrightarrow>
    file_lines (concat (map (\<lambda>l. l @ [CHR 0x0A]) ls) @ last_line) = ls @ (if last_line = [] then [] else [last_line])"
proof (induction ls)
  case Nil
  then have t: "takeWhile (\<lambda>c. c \<noteq> CHR 0x0A) last_line = last_line" and d: "dropWhile (\<lambda>c. c \<noteq> CHR 0x0A) last_line = []"
    by (auto simp: takeWhile_eq_all_conv)
  have "file_lines last_line = (if last_line = [] then [] else [last_line])"
    by (subst file_lines.simps, unfold d t) (simp add: file_lines.simps [of "[]"])
  then show ?case by simp
next
  case (Cons l ls)
  have "\<And>c. c \<in> set l \<Longrightarrow> c \<noteq> CHR 0x0A" using Cons.prems by auto
  then have "takeWhile (\<lambda>c. c \<noteq> CHR 0x0A) (l @ CHR 0x0A # r) = l" "dropWhile (\<lambda>c. c \<noteq> CHR 0x0A) (l @ CHR 0x0A # r) = CHR 0x0A # r" for r
    using takeWhile_append2 [of l "\<lambda>c. c \<noteq> CHR 0x0A"] dropWhile_append2 [of l "\<lambda>c. c \<noteq> CHR 0x0A"] by simp_all
  then have "file_lines (l @ CHR 0x0A # r) = l # file_lines r" for r
    by (subst file_lines.simps) simp
  with Cons show ?case by simp
qed

text \<open>
  C3: Loading a directory succeeds exactly if each of its csv files - the regular files whose name
  ends in \<^verbatim>\<open>.csv\<close>, no other entry is looked at - can be opened and each of their lines parses. The
  store then holds exactly the trades of these lines: one for each line, with the values the line
  has when it is parsed alone under the symbol before the first \<open>-\<close> of the file name. They are in
  order of time, each with a symbol of eight bytes, and numbered so that the message at index \<open>i\<close>
  has sequence number \<open>i\<close>. That holds for any \<^verbatim>\<open>std::sort\<close>. A store loaded from one file holds the
  trades of its lines in their order, numbered the same way. The lines of a file are what stands
  between its line feeds, and a last line may go without one.
\<close>

theorem store_loaded_numbered:
  assumes "sorts_by_time srt"
  shows "(returns (store_of_dir stod srt es) \<longleftrightarrow>
      (\<forall>e \<in> set es. de_regular e \<and> suffix ''.csv'' (de_name e) \<longrightarrow> de_content e \<noteq> None) \<and>
      None \<notin> set (csv_trades stod es)) \<and>
    (store_of_dir stod srt es = Inr store \<longrightarrow> numbered store \<and> sorted (map (unat \<circ> timestamp) store) \<and>
      mset (map (\<lambda>m. Some (no_number m)) store) = mset (csv_trades stod es)) \<and>
    (returns (store_of_file stod fileName content) \<longleftrightarrow>
      content \<noteq> None \<and> None \<notin> set (file_trades stod fileName (the content))) \<and>
    (store_of_file stod fileName content = Inr store \<longrightarrow> numbered store \<and>
      map (\<lambda>m. Some (no_number m)) store = file_trades stod fileName (the content)) \<and>
    ((\<forall>l \<in> set (last_line # ls). CHR 0x0A \<notin> set l) \<longrightarrow>
      file_lines (concat (map (\<lambda>l. l @ [CHR 0x0A]) ls) @ last_line) = ls @ (if last_line = [] then [] else [last_line]))"
proof (intro conjI impI)
  show "returns (store_of_dir stod srt es) \<longleftrightarrow>
      (\<forall>e \<in> set es. de_regular e \<and> suffix ''.csv'' (de_name e) \<longrightarrow> de_content e \<noteq> None) \<and> None \<notin> set (csv_trades stod es)"
    using read_dir_trades [of stod es "[]"] by (cases "read_dir stod es []") (auto simp: store_of_dir_def csv_files_def)
next
  assume "store_of_dir stod srt es = Inr store"
  then obtain parsed where p: "read_dir stod es [] = Inr parsed" "store = renumber (srt parsed)"
    by (auto simp: store_of_dir_def res_bind_Inr_iff)
  have s: "mset (srt parsed) = mset parsed" "sorted (map (unat \<circ> timestamp) (srt parsed))"
    using assms by (simp_all add: sorts_by_time_def)
  have num: "numbered parsed" using read_dir_numbered [OF p(1)] by (simp add: numbered_def)
  have "set (srt parsed) = set parsed" using mset_eq_setD [OF s(1)] .
  then have "\<forall>m \<in> set (srt parsed). itch_wf m \<and> message_type m = 80"
    using num by (auto simp: numbered_def in_set_conv_nth)
  then show "numbered store" unfolding p(2) by (rule numbered_renumber)
  have "map (unat \<circ> timestamp) store = map (unat \<circ> timestamp) (srt parsed)"
    unfolding p(2) by (rule nth_equalityI) (simp_all add: renumber_def)
  with s(2) show "sorted (map (unat \<circ> timestamp) store)" by simp
  have "map (\<lambda>m. Some (no_number m)) store = map Some (map no_number (renumber (srt parsed)))" by (simp add: p(2))
  also have "mset \<dots> = mset (map (\<lambda>m. Some (no_number m)) parsed)"
    unfolding map_renumber map_map comp_def mset_map s(1) ..
  also have "map (\<lambda>m. Some (no_number m)) parsed = csv_trades stod es" using read_dir_trades [of stod es "[]"] p(1) by simp
  finally show "mset (map (\<lambda>m. Some (no_number m)) store) = mset (csv_trades stod es)" .
next
  note f = ReadFile_trades [of stod fileName content "[]"]
  show "returns (store_of_file stod fileName content) \<longleftrightarrow> content \<noteq> None \<and> None \<notin> set (file_trades stod fileName (the content))"
    using f by (cases content) (simp_all add: store_of_file_def)
  assume r: "store_of_file stod fileName content = Inr store"
  with f show "map (\<lambda>m. Some (no_number m)) store = file_trades stod fileName (the content)" by (simp add: store_of_file_def)
  obtain contents where "parse_lines stod (file_symbol fileName) (file_lines contents) [] = Inr store"
    using r by (auto simp: store_of_file_def ReadFile_def split: option.splits)
  moreover have "numbered ([] :: 'a itch_msg list)" by (simp add: numbered_def)
  ultimately show "numbered store" using parse_lines_numbered by blast
qed (rule file_lines_split)

text \<open>
  A directory with a csv file of two lines, the later trade first, a text file and a subdirectory
  whose name ends in \<^verbatim>\<open>.csv\<close>.
\<close>

definition sample_dir :: "dir_entry list" where
  "sample_dir = [\<lparr>de_name = ''notes.txt'', de_regular = True, de_content = Some ''no trade''\<rparr>,
     \<lparr>de_name = ''BTC-1.csv'', de_regular = True,
      de_content = Some (''2,1,1,1,7,True,True'' @ CHR 0x0A # ''1,1,1,1,5,False,True'' @ [CHR 0x0A])\<rparr>,
     \<lparr>de_name = ''old.csv'', de_regular = False, de_content = None\<rparr>]"

lemma sample_dir_trades:
  "csv_trades (\<lambda>s. Inr (0 :: nat)) sample_dir = map (\<lambda>(i, ts, b). Some \<lparr>message_type = 80, sequence_number = 0, trade_id = i,
     timestamp = ts, price = 0, quantity = 0, buyer_is_maker = b, best_match = True, symbol = [66, 84, 67] @ replicate 5 0\<rparr>)
     [(2, 7, True), (1, 5, False)]"
proof -
  have f: "csv_files sample_dir = [sample_dir ! 1]"
    by (simp add: csv_files_def sample_dir_def is_csv_suffix [symmetric] is_csv_def)
  have l: "file_lines (the (de_content (sample_dir ! 1))) = [''2,1,1,1,7,True,True'', ''1,1,1,1,5,False,True'']"
    using file_lines_split [of "[]" "[''2,1,1,1,7,True,True'', ''1,1,1,1,5,False,True'']"] by (simp add: sample_dir_def)
  show ?thesis unfolding csv_trades_def f list.map concat.simps file_trades_def l
    by (simp add: sample_dir_def line_trade_def parseTrade_def getline_def stoull_def read_sign_def is_space_def
        digit_val_def store_symbol_def Let_def)
qed

text \<open>
  C37: A line with the seven fields parses to the trade it describes: the identifier and the time
  are recovered from their decimal digits, price and quantity are what \<^verbatim>\<open>std::stod\<close> reads, the
  fourth field is skipped, a flag is set exactly by \<^verbatim>\<open>True\<close>, and the sequence number is the
  position in the store.
\<close>

theorem parseTrade_round_trip:
  assumes "CHR '','' \<notin> set p \<union> set q \<union> set quote" and "tid < 2 ^ 64" and "ts < 2 ^ 64"
    and "stod p = Inr pr" and "stod q = Inr qty"
  shows "parseTrade stod (digits10 tid @ '','' @ p @ '','' @ q @ '','' @ quote @ '','' @ digits10 ts @ '','' @
      (if bm then ''True'' else ''False'') @ '','' @ (if best then ''True'' else ''False'')) symb store =
    Inr (store @ [\<lparr>message_type = 80, sequence_number = of_nat (length store), trade_id = of_nat tid,
      timestamp = of_nat ts, price = pr, quantity = qty, buyer_is_maker = bm, best_match = best,
      symbol = store_symbol symb\<rparr>])"
proof -
  have flag: "CHR '','' \<notin> set (if b then ''True'' else ''False'')" "((if b then ''True'' else ''False'') = ''True'') = b" for b
    by simp_all
  show ?thesis
    using parseTrade_fields [of p q quote "if bm then ''True'' else ''False''" "if best then ''True'' else ''False''" tid ts
        stod pr qty symb store] assms flag by (simp del: set_simps if_split)
qed

lemma parseTrade_round_trip_witness:
  "parseTrade (\<lambda>s. Inr (length s)) (digits10 7 @ '','' @ ''100.5'' @ '','' @ ''2'' @ '','' @ ''201'' @ '','' @ digits10 1700 @ '','' @
      ''True'' @ '','' @ ''False'') ''BTC'' [] =
    Inr [\<lparr>message_type = 80, sequence_number = 0, trade_id = 7, timestamp = 1700, price = 5, quantity = 1,
      buyer_is_maker = True, best_match = False, symbol = store_symbol ''BTC''\<rparr>]"
  using parseTrade_round_trip [of "''100.5''" "''2''" "''201''" 7 1700 "\<lambda>s. Inr (length s)" 5 1 True False "''BTC''" "[]"]
  by simp

lemma store_loaded_numbered_witness:
  "\<exists>store. store_of_dir (\<lambda>s. Inr (0 :: nat)) (sort_key (unat \<circ> timestamp)) sample_dir = Inr store \<and>
    numbered store \<and> sorted (map (unat \<circ> timestamp) store) \<and> mset (map trade_id store) = {#1, 2#}"
proof -
  let ?stod = "\<lambda>s. Inr (0 :: nat)" and ?srt = "sort_key (unat \<circ> timestamp) :: nat itch_msg list \<Rightarrow> nat itch_msg list"
  have srt: "sorts_by_time ?srt" by (simp add: sorts_by_time_def)
  have t: "None \<notin> set (csv_trades ?stod sample_dir)" by (simp add: sample_dir_trades)
  have "\<forall>e \<in> set sample_dir. de_regular e \<and> suffix ''.csv'' (de_name e) \<longrightarrow> de_content e \<noteq> None"
    by (simp add: sample_dir_def is_csv_suffix [symmetric] is_csv_def)
  with t store_loaded_numbered [OF srt, of ?stod sample_dir] have "returns (store_of_dir ?stod ?srt sample_dir)" by blast
  then obtain store where s: "store_of_dir ?stod ?srt sample_dir = Inr store" by (auto simp: returns_iff)
  with store_loaded_numbered [OF srt, of ?stod sample_dir store] have
    r: "numbered store" "sorted (map (unat \<circ> timestamp) store)"
      "mset (map (\<lambda>m. Some (no_number m)) store) = mset (csv_trades ?stod sample_dir)" by blast+
  have "mset (map trade_id store) = image_mset (\<lambda>m. trade_id (the m)) (mset (map (\<lambda>m. Some (no_number m)) store))"
    by (simp add: multiset.map_comp comp_def)
  also have "\<dots> = {#1, 2#}" unfolding r(3) by (simp add: sample_dir_trades)
  finally show ?thesis using s r by blast
qed

text \<open>
  A line with missing fields is not rejected: a stream at its end leaves \<open>token\<close> as it is,
  so the last field that is there is used again. A line of three fields is stored as a trade
  whose timestamp is the digits at the start of its quantity.
\<close>

lemma parseTrade_short_line:
  assumes "CHR '','' \<notin> set p" and "tid < 2 ^ 64" and "n < 2 ^ 64" and "stod p = Inr pr" and "stod (digits10 n) = Inr qty"
  shows "parseTrade stod (digits10 tid @ '','' @ p @ '','' @ digits10 n) symb store =
    Inr (store @ [\<lparr>message_type = 80, sequence_number = of_nat (length store), trade_id = of_nat tid,
      timestamp = of_nat n, price = pr, quantity = qty, buyer_is_maker = False, best_match = False,
      symbol = store_symbol symb\<rparr>])"
proof -
  have T: "digit_val (CHR ''T'') = None" by (simp add: digit_val_def Let_def)
  have "digits10 n \<noteq> ''True''"
  proof
    assume "digits10 n = ''True''"
    then obtain d where "d < 10" "CHR ''T'' = digit_char d" using digits10_all [of "CHR ''T''" n] by auto
    with T digit_val_char [of d] show False by simp
  qed
  then show ?thesis unfolding parseTrade_def Let_def
    using assms by (simp add: getline_field [OF digits10_no_comma] getline_field [OF assms(1)]
        getline_last [OF digits10_no_comma] getline_bad stoull_digits10 [OF assms(2)] stoull_digits10 [OF assms(3)])
qed

lemma parseTrade_short_line_witness:
  "parseTrade (\<lambda>s. Inr (length s)) (digits10 7 @ '','' @ ''100.5'' @ '','' @ digits10 25) ''BTC'' [] =
    Inr [\<lparr>message_type = 80, sequence_number = 0, trade_id = 7, timestamp = 25, price = 5,
      quantity = length (digits10 25), buyer_is_maker = False, best_match = False, symbol = store_symbol ''BTC''\<rparr>]"
  using parseTrade_short_line [of "''100.5''" 7 25 "\<lambda>s. Inr (length s)" 5 "length (digits10 25)" "''BTC''" "[]"]
  by simp

end
