(* ===== verification/AsyncLog.thy ===== *)
theory AsyncLog
  imports MpmcQueue TaggedPool
begin

text \<open>
  include/AsyncLogger.hpp: callers format their message into a cell of a pool and put the cell into
  a queue; the logger's thread takes the cells out, writes them to the stream with a time stamp,
  and gives them back. A call of \<open>log\<close> and a round of the thread are the steps; the queue and
  the pool are those of the class, \<^verbatim>\<open>CustomMPMCLockFreeQueue\<close> and \<^verbatim>\<open>LockFreeThreadSafePool\<close>.
\<close>

section \<open>State\<close>

text \<open>\<open>lm_buffer\<close> is the buffer up to its terminating zero.\<close>

record log_msg =
  lm_buffer :: string
  lm_len :: nat

definition LogBufferSize :: nat where
  "LogBufferSize = 512"

text \<open>\<open>lg_out\<close> lists what the stream was given: the time of each message and its characters.\<close>

record ('q, 'p) logger =
  lg_queue :: 'q
  lg_pool :: 'p
  lg_mem :: "nat \<Rightarrow> log_msg"
  lg_running :: bool
  lg_spin :: u32
  lg_out :: "(nat \<times> string) list"

definition logger_with :: "'q \<Rightarrow> 'p \<Rightarrow> ('q, 'p) logger" where
  "logger_with q p = \<lparr>lg_queue = q, lg_pool = p, lg_mem = (\<lambda>_. \<lparr>lm_buffer = [CHR 0x00], lm_len = 0\<rparr>),
     lg_running = True, lg_spin = 0, lg_out = []\<rparr>"

definition logger_new :: "u64 \<Rightarrow> u64 \<Rightarrow> (nat mpmc, tagged_pool) logger res" where
  "logger_new queueCapacity poolMsgCount =
     res_bind (mpmc_init queueCapacity) (\<lambda>q. Inr (logger_with q (tagged_init poolMsgCount)))"

section \<open>Operations\<close>

text \<open>
  \<open>text\<close> is what the format and its arguments expand to, \<open>None\<close> when \<^verbatim>\<open>snprintf\<close> reports an
  error. The result is the exception thrown, if any. The result of \<open>enqueue\<close> is not looked at.
\<close>

definition log_cell :: "string \<Rightarrow> log_msg" where
  "log_cell t = \<lparr>lm_buffer = take (LogBufferSize - 1) t @ [CHR 0x00],
     lm_len = (if length t < LogBufferSize then length t else LogBufferSize - 1)\<rparr>"

definition log_call :: "('q, nat) q_ops \<Rightarrow> 'p p_ops \<Rightarrow> string option \<Rightarrow> ('q, 'p) logger \<Rightarrow>
    (exn option \<times> ('q, 'p) logger) res" where
  "log_call Q P text st = res_bind (allocate_op P (lg_pool st)) (\<lambda>(r, p). case r of
      None \<Rightarrow> Inr (Some (Runtime_Error ''Logger Pool Exhausted''), st\<lparr>lg_pool := p\<rparr>)
    | Some msg \<Rightarrow> (case text of
        None \<Rightarrow> res_bind (deallocate_op P p (Some msg)) (\<lambda>p'.
          Inr (Some (Runtime_Error ''Encoding error during formatting''), st\<lparr>lg_pool := p'\<rparr>))
      | Some t \<Rightarrow> res_bind (enqueue_op Q (lg_queue st) msg) (\<lambda>(_, q).
          Inr (None, st\<lparr>lg_pool := p, lg_mem := (lg_mem st)(msg := log_cell t), lg_queue := q\<rparr>))))"

definition written :: "log_msg \<Rightarrow> string" where
  "written m = take (lm_len m) (lm_buffer m)"

definition logger_round :: "('q, nat) q_ops \<Rightarrow> 'p p_ops \<Rightarrow> nat \<Rightarrow> ('q, 'p) logger \<Rightarrow> ('q, 'p) logger res" where
  "logger_round Q P now st = res_bind (dequeue_op Q (lg_queue st)) (\<lambda>(r, q).
    let st1 = st\<lparr>lg_queue := q\<rparr> in case r of
      Some msg \<Rightarrow> res_bind (deallocate_op P (lg_pool st1) (Some msg)) (\<lambda>p.
        Inr (st1\<lparr>lg_out := lg_out st1 @ [(now, written (lg_mem st1 msg))], lg_pool := p, lg_spin := 0\<rparr>))
    | None \<Rightarrow> Inr (st1\<lparr>lg_spin := if lg_spin st1 + 1 < 1000 then lg_spin st1 + 1 else 0\<rparr>))"

text \<open>
  A call, an iteration of \<open>LoggerThread\<close>, which first tests the flag, and the destructor, which
  clears it and waits for the thread.
\<close>

datatype log_event = Log "string option" | Logger_Round nat | Close_Logger

fun log_events :: "('q, nat) q_ops \<Rightarrow> 'p p_ops \<Rightarrow> log_event list \<Rightarrow> ('q, 'p) logger \<Rightarrow>
    (exn list \<times> ('q, 'p) logger) res" where
  "log_events Q P [] st = Inr ([], st)"
| "log_events Q P (Log text # es) st = res_bind (log_call Q P text st) (\<lambda>(e, st1).
     res_bind (log_events Q P es st1) (\<lambda>(errs, st2). Inr (case e of None \<Rightarrow> errs | Some x \<Rightarrow> x # errs, st2)))"
| "log_events Q P (Logger_Round now # es) st =
     res_bind (if lg_running st then logger_round Q P now st else Inr st) (log_events Q P es)"
| "log_events Q P (Close_Logger # es) st = log_events Q P es (st\<lparr>lg_running := False\<rparr>)"

section \<open>Specification\<close>

text \<open>The messages that are accepted, cut to the buffer, and the calls that fail.\<close>

fun accepted :: "log_event list \<Rightarrow> string list" where
  "accepted [] = []"
| "accepted (Log (Some t) # es) = take (LogBufferSize - 1) t # accepted es"
| "accepted (_ # es) = accepted es"

fun log_count :: "log_event list \<Rightarrow> nat" where
  "log_count [] = 0"
| "log_count (Log t # es) = Suc (log_count es)"
| "log_count (_ # es) = log_count es"

definition encoding_errors :: "log_event list \<Rightarrow> exn list" where
  "encoding_errors es = map (\<lambda>_. Runtime_Error ''Encoding error during formatting'') (filter ((=) (Log None)) es)"

lemma written_cell: "written (log_cell t) = take (LogBufferSize - 1) t"
  by (simp add: written_def log_cell_def LogBufferSize_def)

lemmas accepted_induct = accepted.induct [case_names nil some none round close]

locale log_system = Q: bounded_queue Q qinv cont cap + P: fatal_pool P pinv free size
  for Q :: "('q, nat) q_ops" and qinv :: "nat \<Rightarrow> 'q \<Rightarrow> bool" and cont :: "'q \<Rightarrow> nat list" and cap :: "'q \<Rightarrow> nat"
    and P :: "'p p_ops" and pinv :: "'p \<Rightarrow> bool" and free :: "'p \<Rightarrow> nat set" and size :: "'p \<Rightarrow> nat" +
  assumes weaken: "qinv (Suc n) q \<Longrightarrow> qinv n q"
begin

text \<open>Every cell is free or in the queue, and the queue has room for all of them.\<close>

definition log_inv :: "nat \<Rightarrow> ('q, 'p) logger \<Rightarrow> bool" where
  "log_inv n st \<longleftrightarrow> qinv n (lg_queue st) \<and> pinv (lg_pool st) \<and>
    partitioned (cont (lg_queue st)) (free (lg_pool st)) (size (lg_pool st)) \<and> size (lg_pool st) \<le> cap (lg_queue st)"

lemma log_inv_weaken: "log_inv (Suc n) st \<Longrightarrow> log_inv n st"
  by (simp add: log_inv_def weaken)

definition log_text :: "('q, 'p) logger \<Rightarrow> string list" where
  "log_text st = map snd (lg_out st) @ map (written \<circ> lg_mem st) (cont (lg_queue st))"

lemma log_call_None:
  assumes inv: "log_inv n st" and room: "free (lg_pool st) \<noteq> {}"
  obtains p where "log_call Q P None st = Inr (Some (Runtime_Error ''Encoding error during formatting''), st\<lparr>lg_pool := p\<rparr>)"
    "log_inv n (st\<lparr>lg_pool := p\<rparr>)" "free p = free (lg_pool st)"
proof -
  have i: "pinv (lg_pool st)" using inv by (simp add: log_inv_def)
  from P.allocate [OF this room] obtain m p1 where a: "allocate_op P (lg_pool st) = Inr (Some m, p1)" "pinv p1"
    "m \<in> free (lg_pool st)" "free p1 = free (lg_pool st) - {m}" "size p1 = size (lg_pool st)" by blast
  have "m < size p1" using P.free_bound [OF i a(3)] a(5) by simp
  moreover have "m \<notin> free p1" using a(4) by simp
  ultimately obtain p2 where d: "deallocate_op P p1 (Some m) = Inr p2" "pinv p2" "free p2 = insert m (free p1)" "size p2 = size p1"
    using P.deallocate [OF a(2)] by blast
  have f: "free p2 = free (lg_pool st)" unfolding d(3) a(4) using a(3) by (rule insert_Diff)
  have "log_call Q P None st = Inr (Some (Runtime_Error ''Encoding error during formatting''), st\<lparr>lg_pool := p2\<rparr>)"
    by (simp add: log_call_def a(1) d(1))
  moreover have "log_inv n (st\<lparr>lg_pool := p2\<rparr>)" using inv d(2) by (simp add: log_inv_def d(4) a(5) f)
  ultimately show thesis using f by (rule that)
qed

lemma log_call_Some:
  assumes inv: "log_inv (Suc n) st" and room: "free (lg_pool st) \<noteq> {}"
  obtains st' where "log_call Q P (Some t) st = Inr (None, st')" "log_inv n st'"
    "log_text st' = log_text st @ [take (LogBufferSize - 1) t]" "Suc (card (free (lg_pool st'))) = card (free (lg_pool st))"
proof -
  have i: "pinv (lg_pool st)" "qinv (Suc n) (lg_queue st)" "partitioned (cont (lg_queue st)) (free (lg_pool st)) (size (lg_pool st))"
    "size (lg_pool st) \<le> cap (lg_queue st)" using inv by (simp_all add: log_inv_def)
  from P.allocate [OF i(1) room] obtain m p1 where a: "allocate_op P (lg_pool st) = Inr (Some m, p1)" "pinv p1"
    "m \<in> free (lg_pool st)" "free p1 = free (lg_pool st) - {m}" "size p1 = size (lg_pool st)" by blast
  have part: "partitioned (cont (lg_queue st) @ [m]) (free p1) (size p1)"
    using i(3) a(3-5) by (auto simp: partitioned_def)
  then have "distinct (cont (lg_queue st) @ [m])" "set (cont (lg_queue st) @ [m]) \<subseteq> {..<size p1}" by (auto simp: partitioned_def)
  then have "length (cont (lg_queue st) @ [m]) \<le> size p1" by (metis card_lessThan card_mono distinct_card finite_lessThan)
  then have "length (cont (lg_queue st)) < cap (lg_queue st)" using i(4) a(5) by simp
  from Q.enqueue_room [OF i(2) this, of m] obtain q where q: "enqueue_op Q (lg_queue st) m = Inr (True, q)" "qinv n q"
    "cont q = cont (lg_queue st) @ [m]" "cap q = cap (lg_queue st)" by blast
  let ?st = "st\<lparr>lg_pool := p1, lg_mem := (lg_mem st)(m := log_cell t), lg_queue := q\<rparr>"
  have "m \<notin> set (cont (lg_queue st))" using i(3) a(3) by (auto simp: partitioned_def)
  then have "log_text ?st = log_text st @ [take (LogBufferSize - 1) t]"
    by (simp add: log_text_def q(3) written_cell)
  moreover have "finite (free (lg_pool st))" using i(3) by (metis finite_Un finite_lessThan partitioned_def)
  then have "Suc (card (free p1)) = card (free (lg_pool st))" unfolding a(4) using a(3) by (rule card_Suc_Diff1)
  moreover have "log_inv n ?st" using part q a i(4) by (simp add: log_inv_def)
  ultimately show thesis using a(1) q(1) by (intro that [of ?st]) (simp_all add: log_call_def Let_def)
qed

lemma logger_round_spec:
  assumes inv: "log_inv (Suc n) st"
  obtains st' where "logger_round Q P now st = Inr st'" "log_inv n st'" "log_text st' = log_text st"
    "free (lg_pool st) \<subseteq> free (lg_pool st')" "lg_running st' = lg_running st"
proof -
  have i: "pinv (lg_pool st)" "qinv (Suc n) (lg_queue st)" "partitioned (cont (lg_queue st)) (free (lg_pool st)) (size (lg_pool st))"
    "size (lg_pool st) \<le> cap (lg_queue st)" using inv by (simp_all add: log_inv_def)
  from Q.dequeue_any [OF i(2)] obtain q where q: "dequeue_op Q (lg_queue st) =
      Inr (if cont (lg_queue st) = [] then None else Some (hd (cont (lg_queue st))), q)" "qinv n q" "cont q = tl (cont (lg_queue st))"
    by blast
  have cap: "cap q = cap (lg_queue st)" by (rule Q.dequeue_capacity [OF i(2) q(1)])
  show thesis
  proof (cases "cont (lg_queue st)")
    case Nil
    then show thesis using inv q cap
      by (intro that [of "st\<lparr>lg_queue := q, lg_spin := if lg_spin st + 1 < 1000 then lg_spin st + 1 else 0\<rparr>"])
        (simp_all add: logger_round_def log_inv_def log_text_def)
  next
    case (Cons m ms)
    then have "m < size (lg_pool st)" "m \<notin> free (lg_pool st)" using i(3) by (auto simp: partitioned_def)
    from P.deallocate [OF i(1) this] obtain p where p: "deallocate_op P (lg_pool st) (Some m) = Inr p" "pinv p"
      "free p = insert m (free (lg_pool st))" "size p = size (lg_pool st)" by blast
    have "partitioned ms (free p) (size p)" using i(3) Cons p by (auto simp: partitioned_def)
    then show thesis using q Cons p i(4) cap
      by (intro that [of "st\<lparr>lg_queue := q, lg_out := lg_out st @ [(now, written (lg_mem st m))], lg_pool := p, lg_spin := 0\<rparr>"])
        (auto simp: logger_round_def log_inv_def log_text_def)
  qed
qed

lemma thread_step:
  assumes inv: "log_inv (Suc n) st"
  shows "\<exists>st1. (if lg_running st then logger_round Q P now st else Inr st) = Inr st1 \<and> log_inv n st1 \<and>
    log_text st1 = log_text st \<and> free (lg_pool st) \<subseteq> free (lg_pool st1)"
proof (cases "lg_running st")
  case True
  from logger_round_spec [OF inv, of now] obtain st1 where "logger_round Q P now st = Inr st1" "log_inv n st1"
    "log_text st1 = log_text st" "free (lg_pool st) \<subseteq> free (lg_pool st1)" by blast
  with True show ?thesis by simp
qed (use log_inv_weaken [OF inv] in simp)

text \<open>What is written and what waits in the queue are the accepted messages, in order.\<close>

lemma log_events_text:
  "log_inv (length es + n) st \<Longrightarrow> log_events Q P es st = Inr (errs, st') \<Longrightarrow>
    log_inv n st' \<and> log_text st' = log_text st @ accepted es \<and> errs = encoding_errors es"
proof (induction es arbitrary: st errs rule: accepted_induct)
  case (some t es)
  then have inv: "log_inv (Suc (length es + n)) st" by simp
  have "free (lg_pool st) \<noteq> {}"
    using P.exhausted_fails [of "lg_pool st"] inv some(3) by (auto simp: log_inv_def log_call_def)
  then obtain st1 where "log_call Q P (Some t) st = Inr (None, st1)" "log_inv (length es + n) st1"
    "log_text st1 = log_text st @ [take (LogBufferSize - 1) t]"
    using log_call_Some [OF inv] by blast
  with some show ?case by (auto simp: res_bind_Inr_iff encoding_errors_def)
next
  case (none es)
  then have inv: "log_inv (length es + n) st" using log_inv_weaken by simp
  have "free (lg_pool st) \<noteq> {}"
    using P.exhausted_fails [of "lg_pool st"] inv none(3) by (auto simp: log_inv_def log_call_def)
  then obtain p where "log_call Q P None st = Inr (Some (Runtime_Error ''Encoding error during formatting''), st\<lparr>lg_pool := p\<rparr>)"
    "log_inv (length es + n) (st\<lparr>lg_pool := p\<rparr>)"
    using log_call_None [OF inv] by blast
  moreover have "log_text (st\<lparr>lg_pool := p\<rparr>) = log_text st" by (simp add: log_text_def)
  ultimately show ?case using none by (auto simp: res_bind_Inr_iff encoding_errors_def)
next
  case (round now es)
  then have inv: "log_inv (Suc (length es + n)) st" by simp
  obtain st1 where st1: "(if lg_running st then logger_round Q P now st else Inr st) = Inr st1" "log_inv (length es + n) st1"
    "log_text st1 = log_text st"
    using thread_step [OF inv, of now] by blast
  then have "log_events Q P es st1 = Inr (errs, st')" using round(3) by simp
  from round(1) [OF st1(2) this] st1(3) show ?case by (simp add: encoding_errors_def)
next
  case (close es)
  then have "log_inv (length es + n) (st\<lparr>lg_running := False\<rparr>)" "log_events Q P es (st\<lparr>lg_running := False\<rparr>) = Inr (errs, st')"
    using log_inv_weaken by (simp_all add: log_inv_def)
  from close(1) [OF this] show ?case by (simp add: encoding_errors_def log_text_def)
qed (simp add: encoding_errors_def)

text \<open>Nothing fails while every call finds a free cell.\<close>

lemma log_events_return:
  "log_inv (length es + n) st \<Longrightarrow> log_count es \<le> card (free (lg_pool st)) \<Longrightarrow>
    \<exists>errs st'. log_events Q P es st = Inr (errs, st')"
proof (induction es arbitrary: st rule: accepted_induct)
  case (some t es)
  then have inv: "log_inv (Suc (length es + n)) st" and "free (lg_pool st) \<noteq> {}" by auto
  then obtain st1 where st1: "log_call Q P (Some t) st = Inr (None, st1)" "log_inv (length es + n) st1"
    "Suc (card (free (lg_pool st1))) = card (free (lg_pool st))"
    using log_call_Some [OF inv] by blast
  with some have "log_count es \<le> card (free (lg_pool st1))" by simp
  from some(1) [OF st1(2) this] st1(1) show ?case by auto
next
  case (none es)
  then have inv: "log_inv (length es + n) st" and "free (lg_pool st) \<noteq> {}" using log_inv_weaken by auto
  then obtain p where p: "log_call Q P None st = Inr (Some (Runtime_Error ''Encoding error during formatting''), st\<lparr>lg_pool := p\<rparr>)"
    "log_inv (length es + n) (st\<lparr>lg_pool := p\<rparr>)" "free p = free (lg_pool st)"
    using log_call_None [OF inv] by blast
  then have "log_count es \<le> card (free (lg_pool (st\<lparr>lg_pool := p\<rparr>)))" using none(3) by simp
  from none(1) [OF p(2) this] p(1) show ?case by auto
next
  case (round now es)
  then have inv: "log_inv (Suc (length es + n)) st" by simp
  obtain st1 where st1: "(if lg_running st then logger_round Q P now st else Inr st) = Inr st1" "log_inv (length es + n) st1"
    "free (lg_pool st) \<subseteq> free (lg_pool st1)"
    using thread_step [OF inv, of now] by blast
  have "finite (free (lg_pool st1))" using st1(2) by (metis finite_Un finite_lessThan log_inv_def partitioned_def)
  then have "log_count es \<le> card (free (lg_pool st1))" using round(3) card_mono [OF _ st1(3)] by simp
  from round(1) [OF st1(2) this] st1(1) show ?case by simp
next
  case (close es)
  then have "log_inv (length es + n) (st\<lparr>lg_running := False\<rparr>)" using log_inv_weaken by (simp add: log_inv_def)
  from close(1) [OF this] close(3) show ?case by simp
qed simp

end

section \<open>On the queue and the pool of the class\<close>

interpretation lgs: log_system "mpmc_ops ew dw" mpmc_inv mpmc_list "\<lambda>q. length (mq_buffer q)"
    "tagged_ops aw pw" tagged_inv tagged_free "\<lambda>p. length (tp_next p)"
  for ew dw aw pw :: "bool list"
  by unfold_locales (rule mpmc_inv_weaken)

lemma logger_new_Inr:
  assumes new: "logger_new c n = Inr st" and "2 \<le> c" "unat n \<le> unat c" "unat n < 2 ^ 32" "2 * unat c + k < 2 ^ 63"
  shows "lgs.log_inv k st \<and> lgs.log_text st = [] \<and> card (tagged_free (lg_pool st)) = unat n"
proof -
  obtain q where q: "mpmc_init c = Inr q" and st: "st = logger_with q (tagged_init n)"
    using new by (auto simp: logger_new_def res_bind_Inr_iff)
  have "length (mq_buffer q) = unat c" using q by (auto simp: mpmc_init_def split: if_splits)
  moreover have "tagged_free (tagged_init n) = {..<unat n}" using tagged_init_inv [OF assms(4)] by (auto simp: tagged_free_def)
  ultimately show ?thesis using mpmc_init_Inr [OF q assms(2,5)] tagged_init_inv [OF assms(4)] assms(3)
    by (simp add: lgs.log_inv_def lgs.log_text_def st logger_with_def partitioned_def) (simp add: tagged_init_def)
qed

text \<open>
  C29: On a logger whose queue holds as many messages as its pool has, no message whose call
  returned is lost while the thread runs: at any time what was written to the stream followed by
  what waits in the queue are the logged texts, cut to 511 characters, in order, and the only
  exceptions thrown are those of the formatting. The calls return if there are at most as many as
  the pool has messages. Once the destructor has cleared the flag, nothing more is written: what
  waits in the queue is dropped.
\<close>

theorem log_written_in_order:
  assumes new: "logger_new c n = Inr st" and sizes: "2 \<le> c" "unat n \<le> unat c" "unat n < 2 ^ 32" "2 * unat c + length es < 2 ^ 63"
  shows "(log_events (mpmc_ops ew dw) (tagged_ops aw pw) es st = Inr (errs, st') \<longrightarrow>
      map snd (lg_out st') @ map (\<lambda>m. written (lg_mem st' m)) (mpmc_list (lg_queue st')) = accepted es \<and>
      errs = encoding_errors es \<and>
      log_events (mpmc_ops ew dw) (tagged_ops aw pw) (Close_Logger # map Logger_Round nows) st' =
        Inr ([], st'\<lparr>lg_running := False\<rparr>)) \<and>
    (log_count es \<le> unat n \<longrightarrow>
      (\<exists>errs st'. log_events (mpmc_ops ew dw) (tagged_ops aw pw) es st = Inr (errs, st')))"
proof -
  note st = logger_new_Inr [OF new sizes(1-3), of "length es"]
  have inv: "lgs.log_inv (length es + 0) st" using st sizes(4) by simp
  have closed: "log_events (mpmc_ops ew dw) (tagged_ops aw pw) (map Logger_Round nows) s = Inr ([], s)"
    if "\<not> lg_running s" for s using that by (induction nows) simp_all
  show ?thesis
    using lgs.log_events_text [OF inv, of ew dw aw pw errs st'] lgs.log_events_return [OF inv, of ew dw aw pw] st sizes
      closed [of "st'\<lparr>lg_running := False\<rparr>"]
    by (auto simp: lgs.log_text_def comp_def)
qed

lemma log_written_in_order_witness:
  "\<exists>st errs st'. logger_new 4 4 = Inr st \<and>
    log_events (mpmc_ops [] []) (tagged_ops [] []) [Log (Some ''a''), Log None, Log (Some ''b''), Logger_Round 7] st = Inr (errs, st') \<and>
    map snd (lg_out st') @ map (\<lambda>m. written (lg_mem st' m)) (mpmc_list (lg_queue st')) = [''a'', ''b''] \<and> length errs = 1"
proof -
  define es where "es = [Log (Some ''a''), Log None, Log (Some ''b''), Logger_Round 7]"
  have es: "length es = 4" "log_count es = 3" "accepted es = [''a'', ''b'']" "length (encoding_errors es) = 1"
    by (simp_all add: es_def LogBufferSize_def encoding_errors_def)
  obtain st where st: "logger_new 4 4 = Inr st" by (simp add: logger_new_def mpmc_init_def)
  note t = log_written_in_order [OF st, of es "[]" "[]" "[]" "[]"]
  have "\<exists>errs st'. log_events (mpmc_ops [] []) (tagged_ops [] []) es st = Inr (errs, st')" using t by (simp add: es)
  then obtain errs st' where r: "log_events (mpmc_ops [] []) (tagged_ops [] []) es st = Inr (errs, st')" by blast
  from t [of errs st'] r st es show ?thesis unfolding es_def [symmetric] by auto
qed

end
