(* ===== verification/AggSender.thy ===== *)
theory AggSender
  imports TradeStore FloatModel SpscQueue AsyncLog "HOL-Library.Multiset"
begin

text \<open>
  include/AggTradeMQSender.hpp: the thread that takes trades from a queue, sums them per symbol
  while their timestamps fall into the same millisecond, and publishes the average price of every
  symbol when the millisecond changes. A \<^verbatim>\<open>double\<close> is the rational number it denotes. The
  publisher's \<^verbatim>\<open>send\<close> and \<^verbatim>\<open>bind\<close> are behind a library: a message that is sent is appended to a
  list.
\<close>

section \<open>The text of a report\<close>

text \<open>
  \<^verbatim>\<open>%.6f\<close>: the exact value rounded to six decimals, ties to even. \<open>nan\<close> is what the
  platform prints for the quotient of two zeros.
\<close>

definition fixed6 :: "rat \<Rightarrow> string" where
  "fixed6 x = (let n = nat (round_half_even (\<bar>x\<bar> * 10 ^ 6)); frac = digits10 (n mod 10 ^ 6) in
    (if x < 0 then ''-'' else []) @ digits10 (n div 10 ^ 6) @ ''.'' @ replicate (6 - length frac) (CHR ''0'') @ frac)"

definition vwap_text :: "string \<Rightarrow> rat \<times> rat \<Rightarrow> string" where
  "vwap_text nan val = (if snd val = 0 then if fst val = 0 then nan else if 0 < fst val then ''inf'' else ''-inf''
    else fixed6 (rnd 53 (fst val / snd val)))"

definition report :: "string \<Rightarrow> u64 \<Rightarrow> bytes \<times> rat \<times> rat \<Rightarrow> string" where
  "report nan t entry = map (\<lambda>b. char_of (unat b)) (fst entry) @ '','' @ digits10 (unat t) @ '','' @ vwap_text nan (snd entry)"

section \<open>State\<close>

text \<open>
  \<open>ag_map\<close> lists the entries of the hash map in the order in which they came in; the order in
  which a loop visits them is the library's and an input.
\<close>

record ('q, 'p, 'l) agg_state =
  ag_queue :: 'q
  ag_pool :: 'p
  ag_mem :: "nat \<Rightarrow> bytes"
  ag_logger :: 'l
  ag_connected :: bool
  ag_running :: bool
  ag_time :: u64
  ag_map :: "(bytes \<times> rat \<times> rat) list"
  ag_recved :: nat
  ag_count :: nat
  ag_sent :: "string list"

definition agg_new :: "u64 \<Rightarrow> 'q \<Rightarrow> 'p \<Rightarrow> (nat \<Rightarrow> bytes) \<Rightarrow> 'l \<Rightarrow> ('q, 'p, 'l) agg_state" where
  "agg_new now_ms q p mem l = \<lparr>ag_queue = q, ag_pool = p, ag_mem = mem, ag_logger = l, ag_connected = False,
     ag_running = True, ag_time = now_ms, ag_map = [], ag_recved = 0, ag_count = 0, ag_sent = []\<rparr>"

section \<open>Operations\<close>

text \<open>\<open>logf\<close> is \<open>log\<close> of the logger. \<open>bind\<close> is the exception the library throws, if any.\<close>

definition agg_connect :: "('l \<Rightarrow> string \<Rightarrow> 'l res) \<Rightarrow> exn option \<Rightarrow> ('q, 'p, 'l) agg_state \<Rightarrow> ('q, 'p, 'l) agg_state res" where
  "agg_connect logf bind_exn st = res_bind (logf (ag_logger st) (''AggregatedTradeMQSender connect'' @ [CHR 0x0A])) (\<lambda>l. case bind_exn of
      Some e \<Rightarrow> Inl (Throw e)
    | None \<Rightarrow> Inr (st\<lparr>ag_logger := l, ag_connected := True\<rparr>))"

text \<open>The loop of \<open>SendMQ\<close>: a text of 128 characters or more is not sent.\<close>

fun send_entries :: "string \<Rightarrow> ('l \<Rightarrow> string \<Rightarrow> 'l res) \<Rightarrow> (bytes \<times> rat \<times> rat) list \<Rightarrow> ('q, 'p, 'l) agg_state \<Rightarrow>
    ('q, 'p, 'l) agg_state res" where
  "send_entries nan logf [] st = Inr st"
| "send_entries nan logf (e # es) st = (let text = report nan (ag_time st) e in
     if 0 < length text \<and> length text < 128
     then if \<not> ag_connected st then Inl (UB Null_Deref)
       else res_bind (logf (ag_logger st) (''Sent: '' @ text @ [CHR 0x0A])) (\<lambda>l. send_entries nan logf es
         (st\<lparr>ag_sent := ag_sent st @ [text], ag_logger := l, ag_count := ag_count st + 1\<rparr>))
     else send_entries nan logf es st)"

definition SendMQ :: "string \<Rightarrow> ('l \<Rightarrow> string \<Rightarrow> 'l res) \<Rightarrow> ((bytes \<times> rat \<times> rat) list \<Rightarrow> (bytes \<times> rat \<times> rat) list) \<Rightarrow>
    ('q, 'p, 'l) agg_state \<Rightarrow> ('q, 'p, 'l) agg_state res" where
  "SendMQ nan logf visit st = res_bind (send_entries nan logf (visit (ag_map st)) st) (\<lambda>st'. Inr (st'\<lparr>ag_map := []\<rparr>))"

text \<open>\<^verbatim>\<open>auto& val = aggMap_[symbol]\<close> and the two additions.\<close>

fun agg_add :: "bytes \<Rightarrow> rat \<Rightarrow> rat \<Rightarrow> (bytes \<times> rat \<times> rat) list \<Rightarrow> (bytes \<times> rat \<times> rat) list" where
  "agg_add k p q [] = [(k, rnd 53 (0 + rnd 53 (p * q)), rnd 53 (0 + q))]"
| "agg_add k p q ((k', a, b) # es) = (if k' = k then (k, rnd 53 (a + rnd 53 (p * q)), rnd 53 (b + q)) # es
     else (k', a, b) # agg_add k p q es)"

text \<open>\<^verbatim>\<open>std::string(msg->symbol, strnlen(msg->symbol, 8))\<close>\<close>

definition msg_symbol :: "rat itch_msg \<Rightarrow> bytes" where
  "msg_symbol m = takeWhile (\<lambda>b. b \<noteq> 0) (symbol m)"

definition AggregateTrade :: "rat itch_msg \<Rightarrow> ('q, 'p, 'l) agg_state \<Rightarrow> ('q, 'p, 'l) agg_state" where
  "AggregateTrade m st = st\<lparr>ag_map := agg_add (msg_symbol m) (price m) (quantity m) (ag_map st)\<rparr>"

lemma AggregateTrade_pool [simp]: "ag_pool (AggregateTrade m st) = ag_pool st"
  by (simp add: AggregateTrade_def)

definition msg_ms :: "rat itch_msg \<Rightarrow> u64" where
  "msg_ms m = timestamp m div 1000"

definition agg_round :: "string \<Rightarrow> (u64 \<Rightarrow> rat) \<Rightarrow> bool \<Rightarrow> ('q, nat) q_ops \<Rightarrow> 'p p_ops \<Rightarrow> ('l \<Rightarrow> string \<Rightarrow> 'l res) \<Rightarrow>
    ((bytes \<times> rat \<times> rat) list \<Rightarrow> (bytes \<times> rat \<times> rat) list) \<Rightarrow> ('q, 'p, 'l) agg_state \<Rightarrow> ('q, 'p, 'l) agg_state res" where
  "agg_round nan dbl destroy Q P logf visit st = res_bind (dequeue_op Q (ag_queue st)) (\<lambda>(r, q).
    let st1 = st\<lparr>ag_queue := q\<rparr> in case r of
      None \<Rightarrow> Inr st1
    | Some msg \<Rightarrow> (let m = decode_itch dbl (ag_mem st1 msg) in
        res_bind (if msg_ms m \<noteq> ag_time st1
          then res_bind (SendMQ nan logf visit st1) (\<lambda>st2. Inr (st2\<lparr>ag_time := msg_ms m\<rparr>)) else Inr st1) (\<lambda>st2.
        let st3 = AggregateTrade m st2 in
        res_bind (if destroy then deallocate_op P (ag_pool st3) (Some msg) else Inr (ag_pool st3)) (\<lambda>p.
          Inr (st3\<lparr>ag_pool := p, ag_recved := ag_recved st3 + 1\<rparr>)))))"

text \<open>
  The rounds of \<open>run\<close> until the flag is cleared, each with the order in which it would visit the
  map, and \<open>stop\<close>, called once the thread has ended. An exception in a round ends the run.
\<close>

fun agg_loop :: "string \<Rightarrow> (u64 \<Rightarrow> rat) \<Rightarrow> bool \<Rightarrow> ('q, nat) q_ops \<Rightarrow> 'p p_ops \<Rightarrow> ('l \<Rightarrow> string \<Rightarrow> 'l res) \<Rightarrow>
    ((bytes \<times> rat \<times> rat) list \<Rightarrow> (bytes \<times> rat \<times> rat) list) list \<Rightarrow> ('q, 'p, 'l) agg_state \<Rightarrow> ('q, 'p, 'l) agg_state res" where
  "agg_loop nan dbl destroy Q P logf [] st = Inr st"
| "agg_loop nan dbl destroy Q P logf (visit # visits) st = (if \<not> ag_running st then Inr st
     else res_bind (agg_round nan dbl destroy Q P logf visit st) (agg_loop nan dbl destroy Q P logf visits))"

definition agg_run :: "string \<Rightarrow> (u64 \<Rightarrow> rat) \<Rightarrow> bool \<Rightarrow> ('q, nat) q_ops \<Rightarrow> 'p p_ops \<Rightarrow> ('l \<Rightarrow> string \<Rightarrow> 'l res) \<Rightarrow>
    ((bytes \<times> rat \<times> rat) list \<Rightarrow> (bytes \<times> rat \<times> rat) list) list \<Rightarrow> ('q, 'p, 'l) agg_state \<Rightarrow> ('q, 'p, 'l) agg_state res" where
  "agg_run nan dbl destroy Q P logf visits st = res_bind (logf (ag_logger st) (''AggregatedTradeMQSender run'' @ [CHR 0x0A])) (\<lambda>l.
    agg_loop nan dbl destroy Q P logf visits (st\<lparr>ag_logger := l\<rparr>))"

definition agg_stop :: "string \<Rightarrow> ('l \<Rightarrow> string \<Rightarrow> 'l res) \<Rightarrow> ((bytes \<times> rat \<times> rat) list \<Rightarrow> (bytes \<times> rat \<times> rat) list) \<Rightarrow>
    ('q, 'p, 'l) agg_state \<Rightarrow> ('q, 'p, 'l) agg_state res" where
  "agg_stop nan logf visit st = res_bind (logf (ag_logger st) (''AggregatedTradeMQSender stop'' @ [CHR 0x0A])) (\<lambda>l.
    let st1 = st\<lparr>ag_logger := l, ag_running := False\<rparr> in
    if 0 < length (ag_map st1) then SendMQ nan logf visit st1 else Inr st1)"

lemma agg_round_msg:
  assumes "dequeue_op Q (ag_queue st) = Inr (Some x, q)"
    and "(if msg_ms (decode_itch dbl (ag_mem st x)) \<noteq> ag_time (st\<lparr>ag_queue := q\<rparr>)
      then res_bind (SendMQ nan logf visit (st\<lparr>ag_queue := q\<rparr>)) (\<lambda>st2. Inr (st2\<lparr>ag_time := msg_ms (decode_itch dbl (ag_mem st x))\<rparr>))
      else Inr (st\<lparr>ag_queue := q\<rparr>)) = Inr st2"
    and "(if destroy then deallocate_op P (ag_pool st2) (Some x) else Inr (ag_pool st2)) = Inr p"
  shows "agg_round nan dbl destroy Q P logf visit st = Inr ((AggregateTrade (decode_itch dbl (ag_mem st x)) st2)
    \<lparr>ag_pool := p, ag_recved := ag_recved (AggregateTrade (decode_itch dbl (ag_mem st x)) st2) + 1\<rparr>)"
proof -
  have mem: "ag_mem (st\<lparr>ag_queue := q\<rparr>) = ag_mem st" by simp
  show ?thesis unfolding agg_round_def assms(1) res_bind.simps prod.case Let_def option.case mem assms(2) AggregateTrade_pool assms(3) ..
qed

section \<open>Specification\<close>

text \<open>The trades of consecutive messages in the same millisecond, newest window first.\<close>

definition window_step :: "(u64 \<times> rat itch_msg list) list \<Rightarrow> rat itch_msg \<Rightarrow> (u64 \<times> rat itch_msg list) list" where
  "window_step ws m = (case ws of [] \<Rightarrow> [(msg_ms m, [m])]
    | (t, ms) # rest \<Rightarrow> if msg_ms m = t then (t, ms @ [m]) # rest else (msg_ms m, [m]) # ws)"

definition windows :: "rat itch_msg list \<Rightarrow> (u64 \<times> rat itch_msg list) list" where
  "windows ms = rev (foldl window_step [] ms)"

text \<open>The sums of the trades of one symbol, and the reports of a window.\<close>

definition symbol_sums :: "bytes \<Rightarrow> rat itch_msg list \<Rightarrow> rat \<times> rat" where
  "symbol_sums k ms = foldl (\<lambda>(a, b) m. (rnd 53 (a + rnd 53 (price m * quantity m)), rnd 53 (b + quantity m))) (0, 0)
     (filter (\<lambda>m. msg_symbol m = k) ms)"

definition window_reports :: "string \<Rightarrow> u64 \<times> rat itch_msg list \<Rightarrow> string list" where
  "window_reports nan w = filter (\<lambda>r. length r < 128)
     (map (\<lambda>k. report nan (fst w) (k, symbol_sums k (snd w))) (remdups (map msg_symbol (snd w))))"

text \<open>\<open>sent\<close> are the reports of the windows, window after window, in any order inside one.\<close>

definition sends_windows :: "string \<Rightarrow> string list \<Rightarrow> (u64 \<times> rat itch_msg list) list \<Rightarrow> bool" where
  "sends_windows nan sent ws \<longleftrightarrow> (\<exists>batches. sent = concat batches \<and>
     list_all2 (\<lambda>batch w. mset batch = mset (window_reports nan w)) batches ws)"

section \<open>The entries of a window\<close>

definition window_entries :: "rat itch_msg list \<Rightarrow> (bytes \<times> rat \<times> rat) list" where
  "window_entries ms = foldl (\<lambda>es m. agg_add (msg_symbol m) (price m) (quantity m) es) [] ms"

lemma agg_add_keys: "fst ` set (agg_add k p q es) = insert k (fst ` set es)"
  by (induction k p q es rule: agg_add.induct) auto

lemma agg_add_distinct: "distinct (map fst es) \<Longrightarrow> distinct (map fst (agg_add k p q es))"
proof (induction k p q es rule: agg_add.induct)
  case (2 k p q k' a b es)
  then show ?case using agg_add_keys [of k p q es] by auto
qed simp

lemma agg_add_length: "length (agg_add k p q es) \<le> Suc (length es)"
  by (induction k p q es rule: agg_add.induct) auto

definition sums_add :: "rat \<Rightarrow> rat \<Rightarrow> rat \<times> rat \<Rightarrow> rat \<times> rat" where
  "sums_add p q s = (case s of (a, b) \<Rightarrow> (rnd 53 (a + rnd 53 (p * q)), rnd 53 (b + q)))"

lemma agg_add_map_of:
  "map_of (agg_add k p q es) = (map_of es)(k \<mapsto> sums_add p q (case map_of es k of None \<Rightarrow> (0, 0) | Some s \<Rightarrow> s))"
  by (induction k p q es rule: agg_add.induct) (auto simp: sums_add_def fun_eq_iff)

lemma window_entries_snoc:
  "window_entries (ms @ [m]) = agg_add (msg_symbol m) (price m) (quantity m) (window_entries ms)"
  by (simp add: window_entries_def)

lemma window_entries_distinct: "distinct (map fst (window_entries ms))"
  by (induction ms rule: rev_induct) (auto simp: window_entries_snoc agg_add_distinct window_entries_def)

lemma window_entries_map_of:
  "map_of (window_entries ms) = (\<lambda>k. if k \<in> set (map msg_symbol ms) then Some (symbol_sums k ms) else None)"
proof (induction ms rule: rev_induct)
  case (snoc m ms)
  have empty: "symbol_sums k ms = (0, 0)" if "k \<notin> msg_symbol ` set ms" for k
  proof -
    have "filter (\<lambda>m. msg_symbol m = k) ms = []" using that by (auto simp: filter_empty_conv)
    then show ?thesis by (simp add: symbol_sums_def)
  qed
  have step: "symbol_sums k (ms @ [m]) = (if msg_symbol m = k then sums_add (price m) (quantity m) (symbol_sums k ms) else symbol_sums k ms)" for k
    by (simp add: symbol_sums_def sums_add_def split: prod.split)
  show ?case using empty [of "msg_symbol m"] by (auto simp: window_entries_snoc agg_add_map_of snoc.IH step fun_eq_iff)
qed (simp add: window_entries_def)

lemma window_entries_mset:
  "mset (window_entries ms) = mset (map (\<lambda>k. (k, symbol_sums k ms)) (remdups (map msg_symbol ms)))" (is "_ = mset ?spec")
proof -
  have d: "distinct (window_entries ms)" "distinct ?spec"
    using window_entries_distinct [of ms] by (auto simp: distinct_map inj_on_def)
  have "e \<in> set (window_entries ms) \<longleftrightarrow> e \<in> set ?spec" for e
    using map_of_eq_Some_iff [OF window_entries_distinct, of ms "fst e" "snd e"]
    by (cases e) (auto simp: window_entries_map_of split: if_splits)
  then have "set (window_entries ms) = set ?spec" by blast
  with d show ?thesis by (simp add: set_eq_iff_mset_eq_distinct del: set_map)
qed

section \<open>The client of the queue, the pool and the logger\<close>

text \<open>A logger that takes \<open>n\<close> more messages.\<close>

locale message_logger =
  fixes logf :: "'l \<Rightarrow> string \<Rightarrow> 'l res" and linv :: "nat \<Rightarrow> 'l \<Rightarrow> bool"
  assumes logs: "linv (Suc n) l \<Longrightarrow> \<exists>l'. logf l text = Inr l' \<and> linv n l'"
    and fewer_logs: "linv (Suc n) l \<Longrightarrow> linv n l"
begin

lemma fewer: "linv (m + n) l \<Longrightarrow> linv n l"
  by (induction m) (auto dest: fewer_logs)

end

lemma report_nonempty: "0 < length (report nan t e)"
  by (simp add: report_def)

lemma sends_windows_snoc:
  assumes "sends_windows nan sent ws" and "mset b = mset (window_reports nan w)"
  shows "sends_windows nan (sent @ b) (ws @ [w])"
proof -
  obtain bs where "sent = concat bs" "list_all2 (\<lambda>b w. mset b = mset (window_reports nan w)) bs ws"
    using assms(1) by (auto simp: sends_windows_def)
  with assms(2) show ?thesis unfolding sends_windows_def
    by (intro exI [of _ "bs @ [b]"] conjI list_all2_appendI) simp_all
qed

lemma reports_mset:
  assumes "mset es = mset (window_entries ms)"
  shows "mset (filter (\<lambda>r. length r < 128) (map (report nan t) es)) = mset (window_reports nan (t, ms))"
proof -
  have "mset (map (report nan t) es) = mset (map (report nan t) (map (\<lambda>k. (k, symbol_sums k ms)) (remdups (map msg_symbol ms))))"
    using assms by (simp only: mset_map window_entries_mset)
  then show ?thesis by (simp only: window_reports_def mset_filter fst_conv snd_conv map_map comp_def)
qed

definition agg_at :: "string \<Rightarrow> rat itch_msg list \<Rightarrow> ('q, 'p, 'l) agg_state \<Rightarrow> bool" where
  "agg_at nan ts st \<longleftrightarrow> (case foldl window_step [] ts of [] \<Rightarrow> ag_map st = [] \<and> ag_sent st = []
    | (t, ms) # rest \<Rightarrow> ag_time st = t \<and> ag_map st = window_entries ms \<and> sends_windows nan (ag_sent st) (rev rest))"

lemma agg_at_upd [simp]:
  "agg_at nan ts (st\<lparr>ag_queue := q\<rparr>) = agg_at nan ts st" "agg_at nan ts (st\<lparr>ag_pool := p\<rparr>) = agg_at nan ts st"
  "agg_at nan ts (st\<lparr>ag_logger := l\<rparr>) = agg_at nan ts st" "agg_at nan ts (st\<lparr>ag_recved := r\<rparr>) = agg_at nan ts st"
  "agg_at nan ts (st\<lparr>ag_running := f\<rparr>) = agg_at nan ts st"
  by (simp_all add: agg_at_def split: list.split prod.split)

definition freed :: "bool \<Rightarrow> nat list \<Rightarrow> nat set" where
  "freed destroy ms = (if destroy then set ms else {})"

lemma freed_append: "F \<union> freed destroy xs \<union> freed destroy ys = F \<union> freed destroy (xs @ ys)"
  by (simp add: freed_def Un_assoc)

definition permutes_entries :: "((bytes \<times> rat \<times> rat) list \<Rightarrow> (bytes \<times> rat \<times> rat) list) \<Rightarrow> bool" where
  "permutes_entries visit \<longleftrightarrow> (\<forall>es. mset (visit es) = mset es)"

context message_logger
begin

lemma send_entries_spec:
  "ag_connected st \<Longrightarrow> linv (length es + n) (ag_logger st) \<Longrightarrow> \<exists>l c. linv n l \<and> send_entries nan logf es st =
    Inr (st\<lparr>ag_sent := ag_sent st @ filter (\<lambda>r. length r < 128) (map (report nan (ag_time st)) es), ag_logger := l, ag_count := c\<rparr>)"
proof (induction es arbitrary: st)
  case Nil
  then show ?case by (intro exI [of _ "ag_logger st"] exI [of _ "ag_count st"]) simp
next
  case (Cons e es)
  let ?text = "report nan (ag_time st) e"
  show ?case
  proof (cases "length ?text < 128")
    case True
    have "linv (Suc (length es + n)) (ag_logger st)" using Cons.prems(2) by simp
    from logs [OF this, of "''Sent: '' @ ?text @ [CHR 0x0A]"] obtain l where
      l: "logf (ag_logger st) (''Sent: '' @ ?text @ [CHR 0x0A]) = Inr l" "linv (length es + n) l" by blast
    let ?st = "st\<lparr>ag_sent := ag_sent st @ [?text], ag_logger := l, ag_count := ag_count st + 1\<rparr>"
    have "ag_connected ?st" "linv (length es + n) (ag_logger ?st)" using Cons.prems(1) l(2) by simp_all
    from Cons.IH [OF this] obtain l' c where "linv n l'" "send_entries nan logf es ?st =
      Inr (?st\<lparr>ag_sent := ag_sent ?st @ filter (\<lambda>r. length r < 128) (map (report nan (ag_time ?st)) es), ag_logger := l', ag_count := c\<rparr>)"
      by blast
    with True l(1) Cons.prems(1) report_nonempty [of nan "ag_time st" e] show ?thesis
      by (intro exI [of _ l'] exI [of _ c]) (simp add: Let_def)
  next
    case False
    have "linv (length es + n) (ag_logger st)" using Cons.prems(2) fewer_logs by simp
    from Cons.IH [OF Cons.prems(1) this] False show ?thesis by (simp add: Let_def)
  qed
qed

lemma SendMQ_spec:
  assumes "ag_connected st" and "linv (length (ag_map st) + n) (ag_logger st)" and "permutes_entries visit"
    and "ag_map st = window_entries ms"
  shows "\<exists>l c b. linv n l \<and> mset b = mset (window_reports nan (ag_time st, ms)) \<and>
    SendMQ nan logf visit st = Inr (st\<lparr>ag_sent := ag_sent st @ b, ag_logger := l, ag_count := c, ag_map := []\<rparr>)"
proof -
  have v: "mset (visit (ag_map st)) = mset (window_entries ms)" using assms(3,4) by (simp add: permutes_entries_def)
  then have "length (visit (ag_map st)) = length (ag_map st)" by (metis assms(4) size_mset)
  then obtain l c where "linv n l" "send_entries nan logf (visit (ag_map st)) st =
    Inr (st\<lparr>ag_sent := ag_sent st @ filter (\<lambda>r. length r < 128) (map (report nan (ag_time st)) (visit (ag_map st))), ag_logger := l, ag_count := c\<rparr>)"
    using send_entries_spec [OF assms(1), of "visit (ag_map st)" n nan] assms(2) by auto
  moreover note reports_mset [OF v, of nan "ag_time st"]
  ultimately show ?thesis unfolding SendMQ_def
    by (intro exI [of _ l] exI [of _ c] exI [of _ "filter (\<lambda>r. length r < 128) (map (report nan (ag_time st)) (visit (ag_map st)))"])
      simp
qed

end

locale agg_client = Q: polling_queue Q qinv cont + P: mem_pool P pinv free size + L: message_logger logf linv
  for Q :: "('q, nat) q_ops" and qinv :: "nat \<Rightarrow> 'q \<Rightarrow> bool" and cont :: "'q \<Rightarrow> nat list"
    and P :: "'p p_ops" and pinv :: "'p \<Rightarrow> bool" and free :: "'p \<Rightarrow> nat set" and size :: "'p \<Rightarrow> nat"
    and logf :: "'l \<Rightarrow> string \<Rightarrow> 'l res" and linv :: "nat \<Rightarrow> 'l \<Rightarrow> bool" +
  fixes nan :: string and dbl :: "u64 \<Rightarrow> rat" and destroy :: bool
begin

text \<open>
  \<open>ts\<close> are the trades taken so far; the logger takes the messages for every entry there is or can
  still be, and \<open>k\<close> more.
\<close>

definition agg_inv :: "nat \<Rightarrow> nat \<Rightarrow> rat itch_msg list \<Rightarrow> ('q, 'p, 'l) agg_state \<Rightarrow> bool" where
  "agg_inv n k ts st \<longleftrightarrow> qinv n (ag_queue st) \<and> pinv (ag_pool st) \<and> ag_connected st \<and> ag_running st \<and>
    distinct (cont (ag_queue st)) \<and> (\<forall>i \<in> set (cont (ag_queue st)). i < size (ag_pool st) \<and> i \<notin> free (ag_pool st)) \<and>
    linv (length (ag_map st) + (length (cont (ag_queue st)) + k)) (ag_logger st) \<and> agg_at nan ts st"

text \<open>The window is closed if the trade is in another millisecond.\<close>

lemma close_window:
  assumes at: "agg_at nan ts st" and "ag_connected st" and "linv (length (ag_map st) + n) (ag_logger st)" and "permutes_entries visit"
  shows "\<exists>l c snt. (if msg_ms m \<noteq> ag_time st
      then res_bind (SendMQ nan logf visit st) (\<lambda>st2. Inr (st2\<lparr>ag_time := msg_ms m\<rparr>)) else Inr st) =
      Inr (st\<lparr>ag_sent := snt, ag_logger := l, ag_count := c, ag_time := msg_ms m,
        ag_map := if msg_ms m \<noteq> ag_time st then [] else ag_map st\<rparr>) \<and>
    linv (length (if msg_ms m \<noteq> ag_time st then [] else ag_map st) + n) l \<and>
    agg_at nan (ts @ [m]) (AggregateTrade m (st\<lparr>ag_sent := snt, ag_logger := l, ag_count := c, ag_time := msg_ms m,
        ag_map := if msg_ms m \<noteq> ag_time st then [] else ag_map st\<rparr>))"
proof (cases "msg_ms m = ag_time st")
  case True
  let ?st = "st\<lparr>ag_sent := ag_sent st, ag_logger := ag_logger st, ag_count := ag_count st, ag_time := msg_ms m, ag_map := ag_map st\<rparr>"
  have "agg_at nan (ts @ [m]) (AggregateTrade m st)"
  proof (cases "foldl window_step [] ts")
    case Nil
    with at have "ag_map st = []" "ag_sent st = []" by (simp_all add: agg_at_def)
    with Nil True show ?thesis
      by (simp add: agg_at_def AggregateTrade_def window_step_def window_entries_def sends_windows_def)
  next
    case (Cons w rest)
    then obtain t ms where "foldl window_step [] ts = (t, ms) # rest" by (cases w) simp
    with at True show ?thesis by (simp add: agg_at_def AggregateTrade_def window_step_def window_entries_snoc)
  qed
  moreover have "?st = st" using True by simp
  ultimately show ?thesis using True assms(3)
    by (intro exI [of _ "ag_logger st"] exI [of _ "ag_count st"] exI [of _ "ag_sent st"]) simp
next
  case False
  have new: "window_entries [m] = agg_add (msg_symbol m) (price m) (quantity m) []" by (simp add: window_entries_def)
  show ?thesis
  proof (cases "foldl window_step [] ts")
    case Nil
    with at have e: "ag_map st = window_entries []" "ag_sent st = []" by (simp_all add: agg_at_def window_entries_def)
    from L.SendMQ_spec [OF assms(2-4) e(1), of nan] obtain l c b where s: "linv n l"
      "mset b = mset (window_reports nan (ag_time st, []))"
      "SendMQ nan logf visit st = Inr (st\<lparr>ag_sent := ag_sent st @ b, ag_logger := l, ag_count := c, ag_map := []\<rparr>)" by blast
    have "b = []" using s(2) by (simp add: window_reports_def)
    with s False Nil e(2) new show ?thesis
      by (intro exI [of _ l] exI [of _ c] exI [of _ "[]"])
        (simp add: agg_at_def AggregateTrade_def window_step_def sends_windows_def)
  next
    case (Cons w rest)
    then obtain t ms where w: "foldl window_step [] ts = (t, ms) # rest" by (cases w) simp
    with at have e: "ag_map st = window_entries ms" "ag_time st = t" "sends_windows nan (ag_sent st) (rev rest)"
      by (simp_all add: agg_at_def)
    from L.SendMQ_spec [OF assms(2-4) e(1), of nan] obtain l c b where s: "linv n l"
      "mset b = mset (window_reports nan (ag_time st, ms))"
      "SendMQ nan logf visit st = Inr (st\<lparr>ag_sent := ag_sent st @ b, ag_logger := l, ag_count := c, ag_map := []\<rparr>)" by blast
    have "sends_windows nan (ag_sent st @ b) (rev rest @ [(t, ms)])"
      using sends_windows_snoc [OF e(3), of b "(t, ms)"] s(2) e(2) by simp
    with s False w new e(2) show ?thesis
      by (intro exI [of _ l] exI [of _ c] exI [of _ "ag_sent st @ b"])
        (simp add: agg_at_def AggregateTrade_def window_step_def)
  qed
qed

lemma agg_round_spec:
  assumes inv: "agg_inv (Suc n) k ts st" and visit: "permutes_entries visit"
  shows "\<exists>st'. agg_round nan dbl destroy Q P logf visit st = Inr st' \<and>
    agg_inv n k (ts @ map (\<lambda>i. decode_itch dbl (ag_mem st i)) (take 1 (cont (ag_queue st)))) st' \<and>
    cont (ag_queue st') = drop 1 (cont (ag_queue st)) \<and> ag_mem st' = ag_mem st \<and>
    free (ag_pool st') = free (ag_pool st) \<union> freed destroy (take 1 (cont (ag_queue st)))"
proof -
  have i: "qinv (Suc n) (ag_queue st)" "pinv (ag_pool st)" "ag_connected st" "ag_running st" "distinct (cont (ag_queue st))"
    "\<forall>i \<in> set (cont (ag_queue st)). i < size (ag_pool st) \<and> i \<notin> free (ag_pool st)"
    "linv (length (ag_map st) + (length (cont (ag_queue st)) + k)) (ag_logger st)" "agg_at nan ts st"
    using inv unfolding agg_inv_def by blast+
  from Q.dequeue_any [OF i(1)] obtain q where q: "dequeue_op Q (ag_queue st) =
      Inr (if cont (ag_queue st) = [] then None else Some (hd (cont (ag_queue st))), q)" "qinv n q" "cont q = tl (cont (ag_queue st))"
    by blast
  show ?thesis
  proof (cases "cont (ag_queue st)")
    case Nil
    have "agg_at nan ts (st\<lparr>ag_queue := q\<rparr>)" using i(8) by simp
    with Nil q i show ?thesis by (simp add: agg_round_def agg_inv_def freed_def)
  next
    case (Cons x xs)
    define m where "m = decode_itch dbl (ag_mem st x)"
    define st1 where "st1 = st\<lparr>ag_queue := q\<rparr>"
    have "agg_at nan ts st1" using i(8) by (simp add: st1_def)
    moreover have "ag_connected st1" "linv (length (ag_map st1) + (Suc (length xs) + k)) (ag_logger st1)"
      using i(3,7) Cons by (simp_all add: st1_def)
    ultimately obtain l c snt where cl: "(if msg_ms m \<noteq> ag_time st1
        then res_bind (SendMQ nan logf visit st1) (\<lambda>st2. Inr (st2\<lparr>ag_time := msg_ms m\<rparr>)) else Inr st1) =
        Inr (st1\<lparr>ag_sent := snt, ag_logger := l, ag_count := c, ag_time := msg_ms m,
          ag_map := if msg_ms m \<noteq> ag_time st1 then [] else ag_map st1\<rparr>)"
      "linv (length (if msg_ms m \<noteq> ag_time st1 then [] else ag_map st1) + (Suc (length xs) + k)) l"
      "agg_at nan (ts @ [m]) (AggregateTrade m (st1\<lparr>ag_sent := snt, ag_logger := l, ag_count := c, ag_time := msg_ms m,
        ag_map := if msg_ms m \<noteq> ag_time st1 then [] else ag_map st1\<rparr>))"
      using close_window [of ts st1 _ visit m] visit by blast
    define es where "es = (if msg_ms m \<noteq> ag_time st1 then [] else ag_map st1)"
    define st3 where "st3 = AggregateTrade m (st1\<lparr>ag_sent := snt, ag_logger := l, ag_count := c, ag_time := msg_ms m, ag_map := es\<rparr>)"
    have st3: "ag_queue st3 = q" "ag_pool st3 = ag_pool st" "ag_mem st3 = ag_mem st" "ag_connected st3" "ag_running st3"
      "ag_logger st3 = l" "ag_map st3 = agg_add (msg_symbol m) (price m) (quantity m) es"
      using i(3,4) by (simp_all add: st3_def AggregateTrade_def st1_def)
    have "x < size (ag_pool st)" "x \<notin> free (ag_pool st)" using i(6) Cons by simp_all
    from P.deallocate [OF i(2) this] obtain p where p: "(if destroy then deallocate_op P (ag_pool st) (Some x) else Inr (ag_pool st)) = Inr p"
      "pinv p" "free p = free (ag_pool st) \<union> freed destroy [x]" "size p = size (ag_pool st)"
      using i(2) by (cases destroy) (auto simp: freed_def)
    let ?st' = "st3\<lparr>ag_pool := p, ag_recved := ag_recved st3 + 1\<rparr>"
    have "agg_round nan dbl destroy Q P logf visit st = Inr ?st'"
      unfolding st3_def m_def
    proof (rule agg_round_msg)
      show "dequeue_op Q (ag_queue st) = Inr (Some x, q)" using q(1) Cons by simp
      show "(if destroy then deallocate_op P (ag_pool (st1\<lparr>ag_sent := snt, ag_logger := l, ag_count := c,
          ag_time := msg_ms (decode_itch dbl (ag_mem st x)), ag_map := es\<rparr>)) (Some x)
        else Inr (ag_pool (st1\<lparr>ag_sent := snt, ag_logger := l, ag_count := c,
          ag_time := msg_ms (decode_itch dbl (ag_mem st x)), ag_map := es\<rparr>))) = Inr p"
        using p(1) by (cases destroy) (simp_all add: st1_def)
    qed (use cl(1) in \<open>simp only: st1_def [symmetric] m_def [symmetric] es_def\<close>)
    moreover have "agg_at nan (ts @ [m]) ?st'" using cl(3) by (simp add: st3_def es_def)
    moreover have "length (ag_map st3) \<le> Suc (length es)" by (simp add: st3(7) agg_add_length)
    then obtain d where "Suc (length es) = d + length (ag_map st3)" by (metis le_add_diff_inverse2)
    then have "length es + (Suc (length xs) + k) = d + (length (ag_map st3) + (length xs + k))" by simp
    then have "linv (d + (length (ag_map st3) + (length xs + k))) l" using cl(2) by (simp only: es_def [symmetric])
    then have "linv (length (ag_map st3) + (length xs + k)) l" by (rule L.fewer)
    moreover have "distinct xs" "\<forall>i \<in> set xs. i < size p \<and> i \<notin> free p"
      using i(5,6) Cons p(3,4) by (auto simp: freed_def)
    ultimately show ?thesis using q Cons st3 p by (simp add: agg_inv_def m_def)
  qed
qed

lemma agg_loop_spec:
  assumes "agg_inv (length visits + n) k ts st" and "\<forall>visit \<in> set visits. permutes_entries visit"
  shows "\<exists>st'. agg_loop nan dbl destroy Q P logf visits st = Inr st' \<and>
    agg_inv n k (ts @ map (\<lambda>i. decode_itch dbl (ag_mem st i)) (take (length visits) (cont (ag_queue st)))) st' \<and>
    cont (ag_queue st') = drop (length visits) (cont (ag_queue st)) \<and>
    free (ag_pool st') = free (ag_pool st) \<union> freed destroy (take (length visits) (cont (ag_queue st)))"
  using assms
proof (induction visits arbitrary: ts st)
  case Nil
  then show ?case by (simp add: freed_def)
next
  case (Cons visit visits)
  let ?c = "cont (ag_queue st)"
  have "agg_inv (Suc (length visits + n)) k ts st" "permutes_entries visit" using Cons.prems by simp_all
  from agg_round_spec [OF this] obtain st1 where r: "agg_round nan dbl destroy Q P logf visit st = Inr st1"
    "agg_inv (length visits + n) k (ts @ map (\<lambda>i. decode_itch dbl (ag_mem st i)) (take 1 ?c)) st1"
    "cont (ag_queue st1) = drop 1 ?c" "ag_mem st1 = ag_mem st" "free (ag_pool st1) = free (ag_pool st) \<union> freed destroy (take 1 ?c)"
    by blast
  have split: "take (length (visit # visits)) ?c = take 1 ?c @ take (length visits) (drop 1 ?c)" by (cases ?c) simp_all
  have "\<forall>visit \<in> set visits. permutes_entries visit" using Cons.prems(2) by simp
  from Cons.IH [OF r(2) this] obtain st' where "agg_loop nan dbl destroy Q P logf visits st1 = Inr st'"
    "agg_inv n k (ts @ map (\<lambda>i. decode_itch dbl (ag_mem st i)) (take (length (visit # visits)) ?c)) st'"
    "cont (ag_queue st') = drop (length (visit # visits)) ?c"
    "free (ag_pool st') = free (ag_pool st) \<union> freed destroy (take (length (visit # visits)) ?c)"
    unfolding split r(3-5) freed_append by auto
  moreover have "ag_running st" using Cons.prems(1) by (simp add: agg_inv_def)
  ultimately show ?case using r(1) by (intro exI [of _ st']) simp
qed

text \<open>\<open>stop\<close> after the thread has ended sends the last window.\<close>

lemma agg_stop_spec:
  assumes inv: "agg_inv n (Suc k) ts st" and visit: "permutes_entries visit"
  shows "\<exists>st'. agg_stop nan logf visit st = Inr st' \<and> sends_windows nan (ag_sent st') (windows ts) \<and> ag_map st' = [] \<and>
    ag_queue st' = ag_queue st \<and> ag_pool st' = ag_pool st"
proof -
  have i: "ag_connected st" "linv (length (ag_map st) + (length (cont (ag_queue st)) + Suc k)) (ag_logger st)" "agg_at nan ts st"
    using inv unfolding agg_inv_def by blast+
  have "linv (Suc (length (ag_map st) + k)) (ag_logger st)"
    using i(2) L.fewer [of "length (cont (ag_queue st))" "Suc (length (ag_map st) + k)"] by (simp add: ac_simps)
  from L.logs [OF this, of "''AggregatedTradeMQSender stop'' @ [CHR 0x0A]"] obtain l where
    l: "logf (ag_logger st) (''AggregatedTradeMQSender stop'' @ [CHR 0x0A]) = Inr l" "linv (length (ag_map st) + k) l" by blast
  let ?st = "st\<lparr>ag_logger := l, ag_running := False\<rparr>"
  show ?thesis
  proof (cases "foldl window_step [] ts")
    case Nil
    with i(3) have "ag_map st = []" "ag_sent st = []" by (simp_all add: agg_at_def)
    with l(1) Nil show ?thesis by (simp add: agg_stop_def windows_def sends_windows_def)
  next
    case (Cons w rest)
    then obtain t ms where w: "foldl window_step [] ts = (t, ms) # rest" by (cases w) simp
    with i(3) have e: "ag_map st = window_entries ms" "ag_time st = t" "sends_windows nan (ag_sent st) (rev rest)"
      by (simp_all add: agg_at_def)
    show ?thesis
    proof (cases "ag_map st = []")
      case True
      then have "mset (window_reports nan (t, ms)) = {#}" using reports_mset [of "[]" ms nan t] e(1) by simp
      then have "sends_windows nan (ag_sent st @ []) (rev rest @ [(t, ms)])"
        by (intro sends_windows_snoc [OF e(3)]) simp
      with True l(1) w show ?thesis by (simp add: agg_stop_def windows_def)
    next
      case False
      have "ag_connected ?st" "linv (length (ag_map ?st) + k) (ag_logger ?st)" "ag_map ?st = window_entries ms"
        using i(1) l(2) e(1) by simp_all
      from L.SendMQ_spec [OF this(1,2) visit this(3), of nan] obtain l' c b where s: "mset b = mset (window_reports nan (t, ms))"
        "SendMQ nan logf visit ?st = Inr (?st\<lparr>ag_sent := ag_sent ?st @ b, ag_logger := l', ag_count := c, ag_map := []\<rparr>)"
        using e(2) by auto
      have "sends_windows nan (ag_sent st @ b) (rev rest @ [(t, ms)])" by (rule sends_windows_snoc [OF e(3) s(1)])
      with False l(1) s(2) w show ?thesis by (simp add: agg_stop_def windows_def)
    qed
  qed
qed

lemma agg_client_run:
  assumes q: "qinv (length visits + n) q" "pinv p" "distinct (cont q)" "\<forall>i \<in> set (cont q). i < size p \<and> i \<notin> free p"
    and l: "linv (length (cont q) + 3) l" and visits: "\<forall>v \<in> set (visit # visits). permutes_entries v"
  shows "\<exists>st'. res_bind (agg_connect logf None (agg_new now q p mem l)) (\<lambda>st.
      res_bind (agg_run nan dbl destroy Q P logf visits st) (agg_stop nan logf visit)) = Inr st' \<and>
    sends_windows nan (ag_sent st') (windows (map (\<lambda>i. decode_itch dbl (mem i)) (take (length visits) (cont q)))) \<and>
    ag_map st' = [] \<and> cont (ag_queue st') = drop (length visits) (cont q) \<and>
    free (ag_pool st') = free p \<union> freed destroy (take (length visits) (cont q))"
proof -
  have "linv (Suc (Suc (length (cont q) + 1))) l" using l by (simp add: numeral_3_eq_3)
  from L.logs [OF this, of "''AggregatedTradeMQSender connect'' @ [CHR 0x0A]"] obtain l1 where
    l1: "logf l (''AggregatedTradeMQSender connect'' @ [CHR 0x0A]) = Inr l1" "linv (Suc (length (cont q) + 1)) l1" by blast
  from L.logs [OF l1(2), of "''AggregatedTradeMQSender run'' @ [CHR 0x0A]"] obtain l2 where
    l2: "logf l1 (''AggregatedTradeMQSender run'' @ [CHR 0x0A]) = Inr l2" "linv (length (cont q) + 1) l2" by blast
  let ?st = "agg_new now q p mem l\<lparr>ag_logger := l2, ag_connected := True\<rparr>"
  have inv: "agg_inv (length visits + n) (Suc 0) [] ?st" using q l2(2) by (simp add: agg_inv_def agg_new_def agg_at_def)
  have "\<forall>v \<in> set visits. permutes_entries v" "permutes_entries visit" using visits by simp_all
  note v = this
  from agg_loop_spec [OF inv v(1)] obtain st1 where r: "agg_loop nan dbl destroy Q P logf visits ?st = Inr st1"
    "agg_inv n (Suc 0) (map (\<lambda>i. decode_itch dbl (mem i)) (take (length visits) (cont q))) st1"
    "cont (ag_queue st1) = drop (length visits) (cont q)" "free (ag_pool st1) = free p \<union> freed destroy (take (length visits) (cont q))"
    by (auto simp: agg_new_def)
  from agg_stop_spec [OF r(2) v(2)] obtain st' where s: "agg_stop nan logf visit st1 = Inr st'"
    "sends_windows nan (ag_sent st') (windows (map (\<lambda>i. decode_itch dbl (mem i)) (take (length visits) (cont q))))"
    "ag_map st' = []" "ag_queue st' = ag_queue st1" "ag_pool st' = ag_pool st1" by blast
  have "res_bind (agg_connect logf None (agg_new now q p mem l)) (\<lambda>st.
      res_bind (agg_run nan dbl destroy Q P logf visits st) (agg_stop nan logf visit)) = Inr st'"
    using l1(1) l2(1) r(1) s(1) by (simp add: agg_connect_def agg_run_def agg_new_def)
  with s r show ?thesis by (intro exI [of _ st']) simp
qed

end

section \<open>On the queue, the pool and the logger of the program\<close>

definition async_log :: "('q, nat) q_ops \<Rightarrow> 'p p_ops \<Rightarrow> ('q, 'p) logger \<Rightarrow> string \<Rightarrow> ('q, 'p) logger res" where
  "async_log Q P l text = res_bind (log_call Q P (Some text) l) (\<lambda>(e, l'). case e of
      None \<Rightarrow> Inr l' | Some x \<Rightarrow> Inl (Throw x))"

definition logger_room :: "nat \<Rightarrow> (nat mpmc, tagged_pool) logger \<Rightarrow> bool" where
  "logger_room n l \<longleftrightarrow> lgs.log_inv n l \<and> n \<le> card (tagged_free (lg_pool l))"

interpretation alg: message_logger "async_log (mpmc_ops ew dw) (tagged_ops aw pw)" logger_room
  for ew dw aw pw :: "bool list"
proof (unfold_locales, goal_cases)
  case (1 n l tx)
  then have "lgs.log_inv (Suc n) l" "tagged_free (lg_pool l) \<noteq> {}" by (auto simp: logger_room_def)
  from lgs.log_call_Some [OF this, of ew dw aw pw tx] obtain l' where
    "log_call (mpmc_ops ew dw) (tagged_ops aw pw) (Some tx) l = Inr (None, l')" "lgs.log_inv n l'"
    "Suc (card (tagged_free (lg_pool l'))) = card (tagged_free (lg_pool l))" by blast
  moreover from this(3) 1 have "n \<le> card (tagged_free (lg_pool l'))" by (simp add: logger_room_def)
  ultimately show ?case by (intro exI [of _ l']) (simp add: async_log_def logger_room_def)
next
  case (2 n l)
  then show ?case using lgs.log_inv_weaken by (simp add: logger_room_def)
qed

interpretation agc: agg_client spsc_ops "\<lambda>_. spsc_inv" spsc_list "tagged_ops aw pw" tagged_inv tagged_free "\<lambda>p. length (tp_next p)"
    "async_log (mpmc_ops ew dw) (tagged_ops law lpw)" logger_room nan dbl destroy
  for aw pw ew dw law lpw :: "bool list" and nan :: string and dbl :: "u64 \<Rightarrow> rat" and destroy :: bool
  by unfold_locales

text \<open>
  C14: Connected to its publisher, run for any number of rounds on the messages of its queue and then
  stopped, the aggregator returns and has published, window after window, one report for every
  symbol traded in the window with the quotient of its two sums, apart from those of 128
  characters or more; a window is a run of consecutive trades in the same millisecond. No sum is
  left over, and with \<open>DESTROY_MESSAGES\<close> every message taken is back in the pool. The logger
  needs room for three messages and one for each trade.
\<close>

theorem agg_publishes_windows:
  assumes "spsc_inv q" and "tagged_inv p" and "distinct (spsc_list q)"
    and "\<forall>i \<in> set (spsc_list q). i < length (tp_next p) \<and> i \<notin> tagged_free p"
    and logger: "logger_new c n = Inr l" "2 \<le> c" "unat n \<le> unat c" "unat c < 2 ^ 32"
      "length (spsc_list q) + 3 \<le> unat n"
    and visits: "\<forall>v \<in> set (visit # visits). permutes_entries v"
  shows "\<exists>st'. res_bind (agg_connect (async_log (mpmc_ops ew dw) (tagged_ops law lpw)) None (agg_new now q p mem l)) (\<lambda>st.
      res_bind (agg_run nan dbl destroy spsc_ops (tagged_ops aw pw) (async_log (mpmc_ops ew dw) (tagged_ops law lpw)) visits st)
        (agg_stop nan (async_log (mpmc_ops ew dw) (tagged_ops law lpw)) visit)) = Inr st' \<and>
    sends_windows nan (ag_sent st') (windows (map (\<lambda>i. decode_itch dbl (mem i)) (take (length visits) (spsc_list q)))) \<and>
    ag_map st' = [] \<and> spsc_list (ag_queue st') = drop (length visits) (spsc_list q) \<and>
    tagged_free (ag_pool st') = tagged_free p \<union> (if destroy then set (take (length visits) (spsc_list q)) else {})"
proof -
  let ?k = "length (spsc_list q) + 3"
  have "unat n < 2 ^ 32" "2 * unat c + ?k < 2 ^ 63" using logger(3-5) by simp_all
  from logger_new_Inr [OF logger(1-3) this] logger(5) have "logger_room ?k l" by (simp add: logger_room_def)
  from agc.agg_client_run [OF assms(1-4) this visits] show ?thesis by (simp only: freed_def)
qed

lemma agg_publishes_windows_witness:
  "\<exists>q p l st'. spsc_list q = [0] \<and> logger_new 16 16 = Inr l \<and>
    res_bind (agg_connect (async_log (mpmc_ops [] []) (tagged_ops [] [])) None
      (agg_new 0 q p (\<lambda>_. encode_itch (\<lambda>_. 0) (trade_no 0)) l)) (\<lambda>st.
      res_bind (agg_run ''-nan'' (\<lambda>w. of_nat (unat w)) True spsc_ops (tagged_ops [] []) (async_log (mpmc_ops [] []) (tagged_ops [] []))
        [rev, rev] st) (agg_stop ''-nan'' (async_log (mpmc_ops [] []) (tagged_ops [] [])) rev)) = Inr st' \<and>
    spsc_list (ag_queue st') = [] \<and> tagged_free (ag_pool st') = {0}"
proof -
  obtain q :: "nat spsc" where q: "spsc_init 2 = Inr q" by (simp add: spsc_init_def)
  have qi: "spsc_inv q" "spsc_list q = []" "sq_capacity q = 2" using spsc_init_Inr [OF q] by auto
  then have len: "spsc_len q = 0" by (simp flip: length_spsc_list)
  obtain q' :: "nat spsc" where q': "spsc_inv q'" "spsc_list q' = [0]" using spsc_enqueue_spec [OF qi(1), of 0] len qi by auto
  have i: "tagged_inv (tagged_init 1) \<and> tagged_list (tagged_init 1) = [0]" using tagged_init_inv [of 1] by simp
  then obtain p where p: "tagged_inv p" "tagged_list p = []" "length (tp_next p) = 1"
    using tagged_allocate_spec [of "tagged_init 1" "[]"] by (auto simp: tagged_init_def)
  obtain l where l: "logger_new 16 16 = Inr l" by (simp add: logger_new_def mpmc_init_def)
  have v: "\<forall>v \<in> set [rev, rev, rev]. permutes_entries v" by (simp add: permutes_entries_def)
  have d: "distinct (spsc_list q')" "\<forall>i \<in> set (spsc_list q'). i < length (tp_next p) \<and> i \<notin> tagged_free p"
    "length (spsc_list q') + 3 \<le> unat (16 :: u64)" using q' p by (simp_all add: tagged_free_def)
  from agg_publishes_windows [OF q'(1) p(1) d(1,2) l _ _ _ d(3) v, of "[]" "[]" "[]" "[]" 0
      "\<lambda>_. encode_itch (\<lambda>_. 0) (trade_no 0)" "''-nan''" "\<lambda>w. of_nat (unat w)" True "[]" "[]"]
  obtain st' where "res_bind (agg_connect (async_log (mpmc_ops [] []) (tagged_ops [] [])) None
      (agg_new 0 q' p (\<lambda>_. encode_itch (\<lambda>_. 0) (trade_no 0)) l)) (\<lambda>st.
      res_bind (agg_run ''-nan'' (\<lambda>w. of_nat (unat w)) True spsc_ops (tagged_ops [] []) (async_log (mpmc_ops [] []) (tagged_ops [] []))
        [rev, rev] st) (agg_stop ''-nan'' (async_log (mpmc_ops [] []) (tagged_ops [] [])) rev)) = Inr st'"
    "spsc_list (ag_queue st') = drop (length [rev, rev]) (spsc_list q')"
    "tagged_free (ag_pool st') = tagged_free p \<union> (if True then set (take (length [rev, rev]) (spsc_list q')) else {})"
    by force
  with q'(2) l p(2) show ?thesis by (intro exI [of _ q'] exI [of _ p] exI [of _ l] exI [of _ st']) (simp add: tagged_free_def)
qed

end
