(* ===== verification/DBManager.thy ===== *)
theory DBManager
  imports TradeStore SpscQueue TaggedPool
begin

text \<open>
  include/DBManager.hpp: the thread that takes messages from a queue, writes them to the table
  \<^verbatim>\<open>trades\<close> in transactions, and gives them back to the pool. The database is behind a library:
  whether a call of it throws is an input, \<open>ok i\<close> for the \<open>i\<close>-th call of a transaction. A
  transaction is atomic: its rows are stored if \<^verbatim>\<open>commit\<close> returns, and none of them otherwise.
\<close>

section \<open>Rows\<close>

record 'd db_row =
  row_type :: bytes
  row_sequence :: u64
  row_trade :: u64
  row_time :: u64
  row_price :: 'd
  row_quantity :: 'd
  row_maker :: bool
  row_best :: bool
  row_symbol :: bytes

text \<open>
  \<^verbatim>\<open>std::string(msg->symbol)\<close> reads up to the first zero byte; without one it reads on behind
  the array.
\<close>

definition c_string :: "bytes \<Rightarrow> bytes res" where
  "c_string bs = (if 0 \<in> set bs then Inr (takeWhile (\<lambda>b. b \<noteq> 0) bs) else Inl (UB Out_Of_Bounds))"

definition trade_row :: "'d itch_msg \<Rightarrow> 'd db_row res" where
  "trade_row m = res_bind (c_string (symbol m)) (\<lambda>symb. Inr
    \<lparr>row_type = [message_type m], row_sequence = sequence_number m, row_trade = trade_id m, row_time = timestamp m,
     row_price = price m, row_quantity = quantity m, row_maker = buyer_is_maker m, row_best = best_match m,
     row_symbol = symb\<rparr>)"

section \<open>State and connection\<close>

text \<open>
  \<open>db_txns\<close> lists the transactions so far: the messages each was given and the rows it stored,
  \<open>None\<close> if a call threw, which is caught and printed.
\<close>

record ('q, 'p, 'd) db_state =
  db_queue :: 'q
  db_pool :: 'p
  db_mem :: "nat \<Rightarrow> bytes"
  db_batch :: "nat list"
  db_txns :: "(bytes list \<times> 'd db_row list option) list"

definition commitBatchSize :: nat where
  "commitBatchSize = 1000"

text \<open>\<open>connect\<close>: an exception of the library or of the test is printed and thrown again.\<close>

definition db_connect :: "exn option \<Rightarrow> bool \<Rightarrow> exn option \<Rightarrow> unit res" where
  "db_connect conn is_open prepare = (case conn of Some e \<Rightarrow> Inl (Throw e)
    | None \<Rightarrow> if \<not> is_open then Inl (Throw (Runtime_Error ''Failed to open DB connection''))
      else (case prepare of Some e \<Rightarrow> Inl (Throw e) | None \<Rightarrow> Inr ()))"

section \<open>One transaction\<close>

text \<open>
  Call 0 opens the transaction, call \<open>i + 1\<close> writes row \<open>i\<close>, and the calls after the last row
  complete the stream (\<open>commitCopy\<close>) and commit. The first call that throws ends the function.
\<close>

fun write_rows :: "(u64 \<Rightarrow> 'd) \<Rightarrow> (nat \<Rightarrow> bool) \<Rightarrow> (nat \<Rightarrow> bytes) \<Rightarrow> nat \<Rightarrow> nat list \<Rightarrow> 'd db_row list option res" where
  "write_rows dbl ok mem i [] = Inr (Some [])"
| "write_rows dbl ok mem i (msg # msgs) = res_bind (trade_row (decode_itch dbl (mem msg))) (\<lambda>row.
     if \<not> ok i then Inr None
     else res_bind (write_rows dbl ok mem (Suc i) msgs) (\<lambda>rows. Inr (map_option ((#) row) rows)))"

definition commitSingle :: "(u64 \<Rightarrow> 'd) \<Rightarrow> (nat \<Rightarrow> bool) \<Rightarrow> (nat \<Rightarrow> bytes) \<Rightarrow> nat \<Rightarrow> 'd db_row list option res" where
  "commitSingle dbl ok mem msg = (if \<not> ok 0 then Inr None
    else res_bind (trade_row (decode_itch dbl (mem msg))) (\<lambda>row. Inr (if ok 1 \<and> ok 2 then Some [row] else None)))"

definition commitBatch :: "(u64 \<Rightarrow> 'd) \<Rightarrow> (nat \<Rightarrow> bool) \<Rightarrow> (nat \<Rightarrow> bytes) \<Rightarrow> nat list \<Rightarrow> 'd db_row list option res" where
  "commitBatch dbl ok mem batch = (if \<not> ok 0 then Inr None
    else res_bind (write_rows dbl ok mem 1 batch) (\<lambda>rows. Inr (if ok (length batch + 1) then rows else None)))"

definition commitCopy :: "(u64 \<Rightarrow> 'd) \<Rightarrow> (nat \<Rightarrow> bool) \<Rightarrow> (nat \<Rightarrow> bytes) \<Rightarrow> nat list \<Rightarrow> 'd db_row list option res" where
  "commitCopy dbl ok mem batch = (if \<not> ok 0 then Inr None
    else res_bind (write_rows dbl ok mem 1 batch) (\<lambda>rows.
      Inr (if ok (length batch + 1) \<and> ok (length batch + 2) then rows else None)))"

section \<open>The loops\<close>

fun give_back :: "'p p_ops \<Rightarrow> nat list \<Rightarrow> 'p \<Rightarrow> 'p res" where
  "give_back P [] pool = Inr pool"
| "give_back P (m # ms) pool = res_bind (deallocate_op P pool (Some m)) (give_back P ms)"

text \<open>
  Commit the batch, give its messages back if \<open>DESTROY_MESSAGES\<close> is set, and clear it.
  \<open>commit\<close> is \<open>commitBatch\<close> or \<open>commitCopy\<close>.
\<close>

definition flush_batch :: "((nat \<Rightarrow> bool) \<Rightarrow> (nat \<Rightarrow> bytes) \<Rightarrow> nat list \<Rightarrow> 'd db_row list option res) \<Rightarrow> bool \<Rightarrow>
    'p p_ops \<Rightarrow> (nat \<Rightarrow> bool) \<Rightarrow> ('q, 'p, 'd) db_state \<Rightarrow> ('q, 'p, 'd) db_state res" where
  "flush_batch commit destroy P ok st = res_bind (commit ok (db_mem st) (db_batch st)) (\<lambda>rows.
    res_bind (if destroy then give_back P (db_batch st) (db_pool st) else Inr (db_pool st)) (\<lambda>pool.
      Inr (st\<lparr>db_pool := pool, db_batch := [],
        db_txns := db_txns st @ [(map (db_mem st) (db_batch st), rows)]\<rparr>)))"

definition batch_round :: "((nat \<Rightarrow> bool) \<Rightarrow> (nat \<Rightarrow> bytes) \<Rightarrow> nat list \<Rightarrow> 'd db_row list option res) \<Rightarrow> bool \<Rightarrow>
    ('q, nat) q_ops \<Rightarrow> 'p p_ops \<Rightarrow> (nat \<Rightarrow> bool) \<Rightarrow> ('q, 'p, 'd) db_state \<Rightarrow> ('q, 'p, 'd) db_state res" where
  "batch_round commit destroy Q P ok st = res_bind (dequeue_op Q (db_queue st)) (\<lambda>(r, q).
    let st1 = st\<lparr>db_queue := q\<rparr> in case r of
      None \<Rightarrow> if db_batch st1 \<noteq> [] then flush_batch commit destroy P ok st1 else Inr st1
    | Some msg \<Rightarrow> (let st2 = st1\<lparr>db_batch := db_batch st1 @ [msg]\<rparr> in
        if length (db_batch st2) \<ge> commitBatchSize then flush_batch commit destroy P ok st2 else Inr st2))"

text \<open>
  The rounds until \<open>stop\<close>, with the outcomes of their transactions, and the flush after them. An
  exception that leaves the loop is caught and printed: then the run is over, and its result is
  the exception.
\<close>

fun batch_loop :: "((nat \<Rightarrow> bool) \<Rightarrow> (nat \<Rightarrow> bytes) \<Rightarrow> nat list \<Rightarrow> 'd db_row list option res) \<Rightarrow> bool \<Rightarrow>
    ('q, nat) q_ops \<Rightarrow> 'p p_ops \<Rightarrow> (nat \<Rightarrow> bool) list \<Rightarrow> (nat \<Rightarrow> bool) \<Rightarrow> ('q, 'p, 'd) db_state \<Rightarrow>
    ('q, 'p, 'd) db_state res" where
  "batch_loop commit destroy Q P [] ok_last st =
    (if db_batch st \<noteq> [] then flush_batch commit destroy P ok_last st else Inr st)"
| "batch_loop commit destroy Q P (ok # oks) ok_last st =
    res_bind (batch_round commit destroy Q P ok st) (batch_loop commit destroy Q P oks ok_last)"

definition runBatch :: "(u64 \<Rightarrow> 'd) \<Rightarrow> bool \<Rightarrow> ('q, nat) q_ops \<Rightarrow> 'p p_ops \<Rightarrow> (nat \<Rightarrow> bool) list \<Rightarrow> (nat \<Rightarrow> bool) \<Rightarrow>
    ('q, 'p, 'd) db_state \<Rightarrow> ('q, 'p, 'd) db_state res" where
  "runBatch dbl destroy Q P oks ok_last st = batch_loop (commitBatch dbl) destroy Q P oks ok_last (st\<lparr>db_batch := []\<rparr>)"

definition runCopy :: "(u64 \<Rightarrow> 'd) \<Rightarrow> bool \<Rightarrow> ('q, nat) q_ops \<Rightarrow> 'p p_ops \<Rightarrow> (nat \<Rightarrow> bool) list \<Rightarrow> (nat \<Rightarrow> bool) \<Rightarrow>
    ('q, 'p, 'd) db_state \<Rightarrow> ('q, 'p, 'd) db_state res" where
  "runCopy dbl destroy Q P oks ok_last st = batch_loop (commitCopy dbl) destroy Q P oks ok_last (st\<lparr>db_batch := []\<rparr>)"

definition single_round :: "(u64 \<Rightarrow> 'd) \<Rightarrow> bool \<Rightarrow> ('q, nat) q_ops \<Rightarrow> 'p p_ops \<Rightarrow> (nat \<Rightarrow> bool) \<Rightarrow>
    ('q, 'p, 'd) db_state \<Rightarrow> ('q, 'p, 'd) db_state res" where
  "single_round dbl destroy Q P ok st = res_bind (dequeue_op Q (db_queue st)) (\<lambda>(r, q).
    let st1 = st\<lparr>db_queue := q\<rparr> in case r of
      None \<Rightarrow> Inr st1
    | Some msg \<Rightarrow> res_bind (commitSingle dbl ok (db_mem st1) msg) (\<lambda>rows.
        res_bind (if destroy then deallocate_op P (db_pool st1) (Some msg) else Inr (db_pool st1)) (\<lambda>pool.
          Inr (st1\<lparr>db_pool := pool, db_txns := db_txns st1 @ [([db_mem st1 msg], rows)]\<rparr>))))"

fun runSingle :: "(u64 \<Rightarrow> 'd) \<Rightarrow> bool \<Rightarrow> ('q, nat) q_ops \<Rightarrow> 'p p_ops \<Rightarrow> (nat \<Rightarrow> bool) list \<Rightarrow>
    ('q, 'p, 'd) db_state \<Rightarrow> ('q, 'p, 'd) db_state res" where
  "runSingle dbl destroy Q P [] st = Inr st"
| "runSingle dbl destroy Q P (ok # oks) st =
    res_bind (single_round dbl destroy Q P ok st) (runSingle dbl destroy Q P oks)"

text \<open>\<open>run\<close> calls \<open>runCopy\<close>.\<close>

definition db_run :: "(u64 \<Rightarrow> 'd) \<Rightarrow> bool \<Rightarrow> ('q, nat) q_ops \<Rightarrow> 'p p_ops \<Rightarrow> (nat \<Rightarrow> bool) list \<Rightarrow> (nat \<Rightarrow> bool) \<Rightarrow>
    ('q, 'p, 'd) db_state \<Rightarrow> ('q, 'p, 'd) db_state res" where
  "db_run = runCopy"

section \<open>Rows and transactions\<close>

text \<open>The symbol of the message in these bytes has a zero byte, and the row written for it then.\<close>

definition terminated :: "bytes \<Rightarrow> bool" where
  "terminated bs \<longleftrightarrow> 0 \<in> set (take 8 (drop 43 bs))"

definition row_of :: "(u64 \<Rightarrow> 'd) \<Rightarrow> bytes \<Rightarrow> 'd db_row" where
  "row_of dbl bs = (let m = decode_itch dbl bs in
    \<lparr>row_type = [message_type m], row_sequence = sequence_number m, row_trade = trade_id m, row_time = timestamp m,
     row_price = price m, row_quantity = quantity m, row_maker = buyer_is_maker m, row_best = best_match m,
     row_symbol = takeWhile (\<lambda>b. b \<noteq> 0) (symbol m)\<rparr>)"

lemma trade_row_decode: "terminated bs \<Longrightarrow> trade_row (decode_itch dbl bs) = Inr (row_of dbl bs)"
  by (simp add: trade_row_def c_string_def row_of_def terminated_def decode_itch_def Let_def)

lemma write_rows_spec:
  "\<forall>m \<in> set batch. terminated (mem m) \<Longrightarrow>
    write_rows dbl ok mem i batch =
      Inr (if \<forall>j < length batch. ok (i + j) then Some (map (\<lambda>m. row_of dbl (mem m)) batch) else None)"
proof (induction batch arbitrary: i)
  case (Cons m batch)
  have "(\<forall>j < length (m # batch). ok (i + j)) \<longleftrightarrow> ok i \<and> (\<forall>j < length batch. ok (Suc i + j))"
    by (auto simp: less_Suc_eq_0_disj)
  with Cons show ?case by (auto simp: trade_row_decode)
qed simp

text \<open>Both ways to commit a batch store all of its rows or none, and all if nothing throws.\<close>

locale batch_commit =
  fixes commit :: "(nat \<Rightarrow> bool) \<Rightarrow> (nat \<Rightarrow> bytes) \<Rightarrow> nat list \<Rightarrow> 'd db_row list option res"
    and dbl :: "u64 \<Rightarrow> 'd"
  assumes commit_rows: "\<forall>m \<in> set batch. terminated (mem m) \<Longrightarrow>
    \<exists>rows. commit ok mem batch = Inr rows \<and> (rows = None \<or> rows = Some (map (\<lambda>m. row_of dbl (mem m)) batch)) \<and>
      ((\<forall>i. ok i) \<longrightarrow> rows \<noteq> None)"

interpretation cbat: batch_commit "commitBatch dbl" dbl
  for dbl :: "u64 \<Rightarrow> 'd"
  by unfold_locales (auto simp: commitBatch_def write_rows_spec)

interpretation ccop: batch_commit "commitCopy dbl" dbl
  for dbl :: "u64 \<Rightarrow> 'd"
  by unfold_locales (auto simp: commitCopy_def write_rows_spec)

section \<open>The client of the queue and the pool\<close>

definition txn_ok :: "(u64 \<Rightarrow> 'd) \<Rightarrow> bytes list \<times> 'd db_row list option \<Rightarrow> bool" where
  "txn_ok dbl t \<longleftrightarrow> fst t \<noteq> [] \<and> length (fst t) \<le> commitBatchSize \<and>
    (snd t = None \<or> snd t = Some (map (row_of dbl) (fst t)))"

locale db_client = batch_commit commit dbl + Q: polling_queue Q qinv cont + P: mem_pool P pinv free size
  for commit :: "(nat \<Rightarrow> bool) \<Rightarrow> (nat \<Rightarrow> bytes) \<Rightarrow> nat list \<Rightarrow> 'd db_row list option res"
    and dbl :: "u64 \<Rightarrow> 'd"
    and Q :: "('q, nat) q_ops" and qinv :: "nat \<Rightarrow> 'q \<Rightarrow> bool" and cont :: "'q \<Rightarrow> nat list"
    and P :: "'p p_ops" and pinv :: "'p \<Rightarrow> bool" and free :: "'p \<Rightarrow> nat set" and size :: "'p \<Rightarrow> nat"
begin

text \<open>What the thread has taken or may still take, in order; and the messages of the pool.\<close>

definition held :: "('q, 'p, 'd) db_state \<Rightarrow> nat list" where
  "held st = db_batch st @ cont (db_queue st)"

definition db_log :: "('q, 'p, 'd) db_state \<Rightarrow> bytes list" where
  "db_log st = concat (map fst (db_txns st)) @ map (db_mem st) (held st)"

definition db_inv :: "nat \<Rightarrow> ('q, 'p, 'd) db_state \<Rightarrow> bool" where
  "db_inv n st \<longleftrightarrow> qinv n (db_queue st) \<and> pinv (db_pool st) \<and> distinct (held st) \<and>
    (\<forall>i \<in> set (held st). i < size (db_pool st) \<and> i \<notin> free (db_pool st) \<and> terminated (db_mem st i)) \<and>
    length (db_batch st) < commitBatchSize \<and> (\<forall>t \<in> set (db_txns st). txn_ok dbl t)"

text \<open>A step keeps the log, the memory, and the messages that are free or held.\<close>

definition db_keeps :: "('q, 'p, 'd) db_state \<Rightarrow> ('q, 'p, 'd) db_state \<Rightarrow> bool" where
  "db_keeps st st' \<longleftrightarrow> db_log st' = db_log st \<and> db_mem st' = db_mem st \<and>
    size (db_pool st') = size (db_pool st) \<and>
    free (db_pool st') \<union> set (held st') = free (db_pool st) \<union> set (held st)"

lemma db_keeps_trans: "db_keeps s t \<Longrightarrow> db_keeps t u \<Longrightarrow> db_keeps s u"
  by (simp add: db_keeps_def)

lemma give_back_spec:
  "pinv p \<Longrightarrow> distinct ms \<Longrightarrow> (\<forall>i \<in> set ms. i < size p \<and> i \<notin> free p) \<Longrightarrow>
    \<exists>p'. give_back P ms p = Inr p' \<and> pinv p' \<and> free p' = free p \<union> set ms \<and> size p' = size p"
proof (induction ms arbitrary: p)
  case (Cons m ms)
  from Cons.prems P.deallocate [of p m] obtain p1 where
    p1: "deallocate_op P p (Some m) = Inr p1" "pinv p1" "free p1 = insert m (free p)" "size p1 = size p" by auto
  with Cons.prems have "distinct ms" "\<forall>i \<in> set ms. i < size p1 \<and> i \<notin> free p1" by auto
  from Cons.IH [OF p1(2) this] p1 show ?case by auto
qed simp

lemma flush_spec:
  assumes "qinv n (db_queue st)" "pinv (db_pool st)" "distinct (held st)"
    and ptr: "\<forall>i \<in> set (held st). i < size (db_pool st) \<and> i \<notin> free (db_pool st) \<and> terminated (db_mem st i)"
    and len: "db_batch st \<noteq> []" "length (db_batch st) \<le> commitBatchSize"
    and txns: "\<forall>t \<in> set (db_txns st). txn_ok dbl t"
  shows "\<exists>st'. flush_batch commit True P ok st = Inr st' \<and> db_inv n st' \<and> db_keeps st st' \<and>
    db_batch st' = [] \<and> db_queue st' = db_queue st"
proof -
  have trm: "\<forall>m \<in> set (db_batch st). terminated (db_mem st m)" using ptr by (simp add: held_def)
  obtain rows where rows: "commit ok (db_mem st) (db_batch st) = Inr rows"
    "rows = None \<or> rows = Some (map (\<lambda>m. row_of dbl (db_mem st m)) (db_batch st))"
    using commit_rows [OF trm, of ok] by blast
  have "distinct (db_batch st)" "\<forall>i \<in> set (db_batch st). i < size (db_pool st) \<and> i \<notin> free (db_pool st)"
    using assms(3) ptr by (simp_all add: held_def)
  from give_back_spec [OF assms(2) this] obtain p' where
    p': "give_back P (db_batch st) (db_pool st) = Inr p'" "pinv p'" "free p' = free (db_pool st) \<union> set (db_batch st)"
      "size p' = size (db_pool st)" by blast
  let ?st' = "st\<lparr>db_pool := p', db_batch := [], db_txns := db_txns st @ [(map (db_mem st) (db_batch st), rows)]\<rparr>"
  have eq: "flush_batch commit True P ok st = Inr ?st'" by (simp add: flush_batch_def rows(1) p'(1))
  have "txn_ok dbl (map (db_mem st) (db_batch st), rows)" using rows(2) len by (auto simp: txn_ok_def)
  moreover have "0 < commitBatchSize" by (simp add: commitBatchSize_def)
  ultimately have "db_inv n ?st'"
    using assms(1,3) ptr txns p'(2-4) by (auto simp: db_inv_def held_def)
  moreover have "db_keeps st ?st'" using p'(3,4) by (auto simp: db_keeps_def db_log_def held_def)
  ultimately show ?thesis using eq by auto
qed

lemma batch_round_spec:
  assumes inv: "db_inv (Suc n) st"
  shows "\<exists>st'. batch_round commit True Q P ok st = Inr st' \<and> db_inv n st' \<and> db_keeps st st'"
proof -
  have q: "qinv (Suc n) (db_queue st)" using inv by (simp add: db_inv_def)
  obtain q' where d: "dequeue_op Q (db_queue st) =
      Inr (if cont (db_queue st) = [] then None else Some (hd (cont (db_queue st))), q')"
    "qinv n q'" "cont q' = tl (cont (db_queue st))"
    using Q.dequeue_any [OF q] by blast
  define b where "b = db_batch st @ (if cont (db_queue st) = [] then [] else [hd (cont (db_queue st))])"
  define s where "s = st\<lparr>db_queue := q', db_batch := b\<rparr>"
  have h: "held s = held st" using d(3) by (cases "cont (db_queue st)") (simp_all add: held_def s_def b_def)
  have keeps: "db_keeps st s" unfolding db_keeps_def db_log_def h by (simp add: s_def)
  have len: "length b \<le> commitBatchSize" using inv by (simp add: b_def db_inv_def)
  have facts: "qinv n (db_queue s)" "pinv (db_pool s)" "distinct (held s)"
    "\<forall>i \<in> set (held s). i < size (db_pool s) \<and> i \<notin> free (db_pool s) \<and> terminated (db_mem s i)"
    "\<forall>t \<in> set (db_txns s). txn_ok dbl t"
    using inv d(2) h by (simp_all add: db_inv_def s_def)
  have flush: "\<exists>st'. flush_batch commit True P ok s = Inr st' \<and> db_inv n st' \<and> db_keeps st st'" if "b \<noteq> []"
    using flush_spec [OF facts(1-4) _ _ facts(5), of ok] that len db_keeps_trans [OF keeps] by (auto simp: s_def)
  have stay: "db_inv n s" if "length b < commitBatchSize" using facts that by (simp add: db_inv_def s_def)
  show ?thesis
  proof (cases "cont (db_queue st)")
    case Nil
    then have s: "s = st\<lparr>db_queue := q'\<rparr>" "b = db_batch st" by (simp_all add: s_def b_def)
    moreover have "length b < commitBatchSize" using inv s(2) by (simp add: db_inv_def)
    ultimately show ?thesis using d(1) Nil flush stay keeps by (cases "b = []") (auto simp: batch_round_def)
  next
    case (Cons x xs)
    then have s: "s = st\<lparr>db_queue := q', db_batch := db_batch st @ [x]\<rparr>" "b = db_batch st @ [x]"
      by (simp_all add: s_def b_def)
    then show ?thesis using d(1) Cons flush stay keeps
      by (cases "length b < commitBatchSize") (auto simp: batch_round_def not_less)
  qed
qed

lemma batch_loop_spec:
  "db_inv (length oks + n) st \<Longrightarrow> \<exists>st'. batch_loop commit True Q P oks ok_last st = Inr st' \<and> db_inv n st' \<and>
    db_keeps st st' \<and> db_batch st' = []"
proof (induction oks arbitrary: st)
  case Nil
  show ?case
  proof (cases "db_batch st = []")
    case True
    with Nil show ?thesis by (simp add: db_keeps_def)
  next
    case False
    with Nil flush_spec [of n st ok_last] show ?thesis by (auto simp: db_inv_def)
  qed
next
  case (Cons ok oks)
  then obtain s where s: "batch_round commit True Q P ok st = Inr s" "db_inv (length oks + n) s" "db_keeps st s"
    using batch_round_spec [of "length oks + n" st ok] by auto
  with Cons.IH [OF s(2)] db_keeps_trans [OF s(3)] show ?case by auto
qed

end

section \<open>On the queue and the pool of the receiver\<close>

interpretation dbq: db_client "commitCopy dbl" dbl spsc_ops "\<lambda>_. spsc_inv" spsc_list
    "tagged_ops aw dw" tagged_inv tagged_free "\<lambda>p. length (tp_next p)"
  for dbl :: "u64 \<Rightarrow> 'd" and aw dw :: "bool list"
  by unfold_locales

text \<open>
  C19: However many rounds \<open>run\<close> makes and whichever of its transactions fail, it returns, every
  message it took from the queue went into exactly one transaction, in the order of the queue, a
  transaction has between one and 1000 messages and stored the rows of all of them or none, and
  every message taken is back in the pool when it returns.
\<close>

theorem db_transactions_in_order:
  assumes "spsc_inv (db_queue st)" and "tagged_inv (db_pool st)" and "db_txns st = []"
    and "distinct (spsc_list (db_queue st))"
    and "\<forall>i \<in> set (spsc_list (db_queue st)). i < length (tp_next (db_pool st)) \<and> i \<notin> tagged_free (db_pool st) \<and>
      terminated (db_mem st i)"
  shows "\<exists>st'. db_run dbl True spsc_ops (tagged_ops aw dw) oks ok_last st = Inr st' \<and>
    concat (map fst (db_txns st')) @ map (db_mem st) (spsc_list (db_queue st')) =
      map (db_mem st) (spsc_list (db_queue st)) \<and>
    (\<forall>t \<in> set (db_txns st'). fst t \<noteq> [] \<and> length (fst t) \<le> commitBatchSize \<and>
      (snd t = None \<or> snd t = Some (map (row_of dbl) (fst t)))) \<and>
    tagged_free (db_pool st') \<union> set (spsc_list (db_queue st')) =
      tagged_free (db_pool st) \<union> set (spsc_list (db_queue st))"
proof -
  let ?s = "st\<lparr>db_batch := []\<rparr>"
  have "dbq.db_inv dbl (length oks + 0) ?s" unfolding dbq.db_inv_def dbq.held_def
    using assms by (simp add: commitBatchSize_def)
  from dbq.batch_loop_spec [OF this, of aw dw ok_last] obtain st' where
    "db_run dbl True spsc_ops (tagged_ops aw dw) oks ok_last st = Inr st'" "dbq.db_inv dbl 0 st'"
    "dbq.db_keeps ?s st'" "db_batch st' = []"
    by (auto simp: db_run_def runCopy_def)
  then show ?thesis using assms(3)
    by (auto simp: dbq.db_inv_def dbq.db_keeps_def dbq.db_log_def dbq.held_def txn_ok_def)
qed

lemma byte_of_char_nonzero:
  assumes "c \<noteq> CHR 0x00"
  shows "(of_char c :: u8) \<noteq> 0"
proof
  assume "(of_char c :: u8) = 0"
  then have "(word_of_nat (of_char c) :: u8) = 0" by (simp only: of_nat_of_char)
  then have "(256 :: nat) dvd of_char c" by (simp add: word_of_nat_eq_0_iff del: of_nat_of_char)
  moreover have "(of_char c :: nat) < 256" by simp
  ultimately have "(of_char c :: nat) = of_char (CHR 0x00)" by (auto dest: dvd_imp_le simp: of_char_def)
  then have "c = CHR 0x00" by (simp only: of_char_eq_iff)
  with assms show False by simp
qed

lemma terminated_encode: "itch_wf m \<Longrightarrow> terminated (encode_itch bits m) \<longleftrightarrow> 0 \<in> set (symbol m)"
  by (simp add: terminated_def encode_itch_def itch_wf_def)

definition db_sample :: "(nat spsc, tagged_pool, nat) db_state res" where
  "db_sample = res_bind (spsc_init 2) (\<lambda>q. res_bind (spsc_enqueue q 0) (\<lambda>(_, q'). res_bind (tagged_allocate [] (tagged_init 1)) (\<lambda>(_, p).
     Inr \<lparr>db_queue = q', db_pool = p, db_mem = (\<lambda>_. encode_itch of_nat (trade_no 0)), db_batch = [], db_txns = []\<rparr>)))"

lemma db_sample_state:
  obtains st where "db_sample = Inr st" "spsc_inv (db_queue st)" "spsc_list (db_queue st) = [0]"
    "tagged_inv (db_pool st)" "tagged_list (db_pool st) = []" "length (tp_next (db_pool st)) = 1"
    "db_mem st = (\<lambda>_. encode_itch of_nat (trade_no 0))" "db_batch st = []" "db_txns st = []"
proof -
  obtain q :: "nat spsc" where q: "spsc_init 2 = Inr q" by (simp add: spsc_init_def)
  have qi: "spsc_inv q" "spsc_list q = []" "sq_capacity q = 2" using spsc_init_Inr [OF q] by auto
  then have len: "spsc_len q = 0" by (simp flip: length_spsc_list)
  obtain q' where q': "spsc_enqueue q 0 = Inr (True, q')" "spsc_inv q'" "spsc_list q' = [0]"
    using spsc_enqueue_spec [OF qi(1), of 0] len qi by auto
  have i: "tagged_inv (tagged_init 1) \<and> tagged_list (tagged_init 1) = [0]" using tagged_init_inv [of 1] by simp
  then obtain p where p: "tagged_allocate [] (tagged_init 1) = Inr (Some 0, p)" "tagged_inv p" "tagged_list p = []"
    "length (tp_next p) = 1"
    using tagged_allocate_spec [of "tagged_init 1" "[]"] by (auto simp: tagged_init_def)
  let ?st = "\<lparr>db_queue = q', db_pool = p, db_mem = (\<lambda>_. encode_itch of_nat (trade_no 0)), db_batch = [], db_txns = []\<rparr>"
  have "db_sample = Inr ?st" by (simp add: db_sample_def q q'(1) p(1))
  then show ?thesis using q' p by (intro that [of ?st]) simp_all
qed

lemma db_transactions_in_order_witness:
  "\<exists>st st'. db_sample = Inr st \<and> db_run unat True spsc_ops (tagged_ops [] []) [\<lambda>_. True] (\<lambda>_. True) st = Inr st'"
proof -
  obtain st where st: "db_sample = Inr st" "spsc_inv (db_queue st)" "spsc_list (db_queue st) = [0]"
    "tagged_inv (db_pool st)" "tagged_list (db_pool st) = []" "length (tp_next (db_pool st)) = 1"
    "db_mem st = (\<lambda>_. encode_itch of_nat (trade_no 0))" "db_batch st = []" "db_txns st = []"
    by (rule db_sample_state)
  have "terminated (encode_itch of_nat (trade_no 0))"
    by (subst terminated_encode) (simp_all, simp add: trade_no_def)
  with db_transactions_in_order [of st unat "[]" "[]" "[\<lambda>_. True]" "\<lambda>_. True"] st show ?thesis
    by (auto simp: tagged_free_def)
qed

text \<open>
  A symbol of eight characters or more fills the array of a trade, which then has no
  terminating zero: making the row of such a trade reads behind the array, and so does every
  transaction that reaches it.
\<close>

lemma unterminated_symbol_overread:
  assumes "length symb \<ge> 8" and "CHR 0x00 \<notin> set symb" and "symbol m = store_symbol symb"
  shows "trade_row m = Inl (UB Out_Of_Bounds) \<and>
    (ok 0 \<longrightarrow> decode_itch dbl (mem i) = m \<longrightarrow> commitCopy dbl ok mem (i # batch) = Inl (UB Out_Of_Bounds))"
proof -
  have "of_char c \<noteq> (0 :: u8)" if "c \<in> set (take 8 symb)" for c
    using byte_of_char_nonzero in_set_takeD [OF that] assms(2) by metis
  moreover have "set (store_symbol symb) = of_char ` set (take 8 symb)" using assms(1) by (simp add: store_symbol_def)
  ultimately have "0 \<notin> set (store_symbol symb)" by (metis imageE)
  then have "trade_row m = Inl (UB Out_Of_Bounds)" using assms(3) by (simp add: trade_row_def c_string_def)
  then show ?thesis by (simp add: commitCopy_def)
qed

lemma unterminated_symbol_overread_witness:
  "trade_row (trade_no 0\<lparr>symbol := store_symbol ''DOGEUSDT''\<rparr>) = Inl (UB Out_Of_Bounds)"
  using unterminated_symbol_overread [of "''DOGEUSDT''" "trade_no 0\<lparr>symbol := store_symbol ''DOGEUSDT''\<rparr>"] by simp

end
