(* ===== verification/DBModes.thy ===== *)
theory DBModes
  imports DBManager
begin

text \<open>
  The three loops of \<^verbatim>\<open>DBManager\<close> compared: one transaction per message, prepared statements in
  batches, and the copy stream in batches.
\<close>

text \<open>The rows in the table after the transactions so far.\<close>

definition stored_rows :: "('q, 'p, 'd) db_state \<Rightarrow> 'd db_row list" where
  "stored_rows st = concat (map (\<lambda>t. case snd t of None \<Rightarrow> [] | Some rows \<Rightarrow> rows) (db_txns st))"

definition all_stored :: "('q, 'p, 'd) db_state \<Rightarrow> bool" where
  "all_stored st \<longleftrightarrow> (\<forall>t \<in> set (db_txns st). snd t \<noteq> None)"

lemma batch_loop_cong:
  assumes "\<And>ok. ok \<in> set (ok_last # oks) \<Longrightarrow> commit ok = commit' ok"
  shows "batch_loop commit destroy Q P oks ok_last st = batch_loop commit' destroy Q P oks ok_last st"
proof -
  have flush: "flush_batch commit destroy P ok = flush_batch commit' destroy P ok" if "commit ok = commit' ok" for ok
    using that by (intro ext) (simp add: flush_batch_def)
  have round: "batch_round commit destroy Q P ok = batch_round commit' destroy Q P ok" if "commit ok = commit' ok" for ok
    unfolding batch_round_def flush [OF that] ..
  show ?thesis using assms
  proof (induction oks arbitrary: st)
    case Nil
    then show ?case by (simp add: flush)
  next
    case (Cons ok oks)
    have "batch_loop commit destroy Q P oks ok_last = batch_loop commit' destroy Q P oks ok_last"
      by (intro ext Cons.IH Cons.prems) auto
    with Cons.prems show ?case by (simp add: round)
  qed
qed

lemma commit_same_rows: "commitBatch dbl (\<lambda>_. True) = commitCopy dbl (\<lambda>_. True)"
  by (intro ext) (simp add: commitBatch_def commitCopy_def)

context db_client
begin

text \<open>A step that takes the next message, if there is one, and loses no row.\<close>

definition takes :: "nat \<Rightarrow> ('q, 'p, 'd) db_state \<Rightarrow> ('q, 'p, 'd) db_state \<Rightarrow> bool" where
  "takes k st st' \<longleftrightarrow> db_keeps st st' \<and> cont (db_queue st') = drop k (cont (db_queue st)) \<and>
    (all_stored st \<longrightarrow> all_stored st')"

lemma takes_trans: "takes j s t \<Longrightarrow> takes k t u \<Longrightarrow> takes (k + j) s u"
  by (auto simp: takes_def intro: db_keeps_trans)

lemma flush_stores:
  assumes "flush_batch commit True P (\<lambda>_. True) s = Inr s'" and "\<forall>m \<in> set (db_batch s). terminated (db_mem s m)"
  shows "db_queue s' = db_queue s \<and> (all_stored s \<longrightarrow> all_stored s')"
  using assms commit_rows [OF assms(2), of "\<lambda>_. True"]
  by (auto simp: flush_batch_def all_stored_def res_bind_def split: sum.splits)

lemma batch_round_takes:
  assumes inv: "db_inv (Suc n) st" and run: "batch_round commit True Q P (\<lambda>_. True) st = Inr st'"
  shows "db_inv n st' \<and> takes 1 st st'"
proof -
  have st': "db_inv n st'" "db_keeps st st'" using batch_round_spec [OF inv, of "\<lambda>_. True"] run by auto
  have q: "qinv (Suc n) (db_queue st)" using inv by (simp add: db_inv_def)
  obtain q' where d: "dequeue_op Q (db_queue st) =
      Inr (if cont (db_queue st) = [] then None else Some (hd (cont (db_queue st))), q')" "cont q' = tl (cont (db_queue st))"
    using Q.dequeue_any [OF q] by blast
  have trm: "\<forall>m \<in> set (held st). terminated (db_mem st m)" using inv by (simp add: db_inv_def)
  have fl: "db_queue st' = q' \<and> (all_stored st \<longrightarrow> all_stored st')"
    if "flush_batch commit True P (\<lambda>_. True) (st\<lparr>db_queue := q', db_batch := b\<rparr>) = Inr st'" "set b \<subseteq> set (held st)" for b
    using flush_stores [OF that(1)] that(2) trm by (auto simp: all_stored_def)
  have "db_queue st' = q' \<and> (all_stored st \<longrightarrow> all_stored st')"
  proof (cases "cont (db_queue st)")
    case Nil
    then show ?thesis using run d(1) fl [of "db_batch st"]
      by (auto simp: batch_round_def Let_def held_def all_stored_def split: if_splits)
  next
    case (Cons x xs)
    then show ?thesis using run d(1) fl [of "db_batch st @ [x]"]
      by (auto simp: batch_round_def Let_def held_def all_stored_def split: if_splits)
  qed
  with st' d(2) show ?thesis by (simp add: takes_def drop_Suc)
qed

lemma batch_loop_takes:
  "db_inv (k + n) st \<Longrightarrow> batch_loop commit True Q P (replicate k (\<lambda>_. True)) (\<lambda>_. True) st = Inr st' \<Longrightarrow> takes k st st'"
proof (induction k arbitrary: st)
  case 0
  show ?case
  proof (cases "db_batch st = []")
    case True
    with 0 show ?thesis by (simp add: takes_def db_keeps_def)
  next
    case False
    with 0 have "flush_batch commit True P (\<lambda>_. True) st = Inr st'" "\<forall>m \<in> set (db_batch st). terminated (db_mem st m)"
      by (simp_all add: db_inv_def held_def)
    with flush_stores [OF this] flush_spec [of n st "\<lambda>_. True"] 0 False show ?thesis by (auto simp: takes_def db_inv_def)
  qed
next
  case (Suc k)
  then obtain s where s: "batch_round commit True Q P (\<lambda>_. True) st = Inr s"
    "batch_loop commit True Q P (replicate k (\<lambda>_. True)) (\<lambda>_. True) s = Inr st'"
    by (auto simp: res_bind_def split: sum.splits)
  from Suc.prems(1) have "db_inv (Suc (k + n)) st" by simp
  note r = batch_round_takes [OF this s(1)]
  with Suc.IH [OF _ s(2)] takes_trans [of 1 st s k st'] show ?case by simp
qed

lemma single_round_takes:
  assumes inv: "db_inv (Suc n) st" and empty: "db_batch st = []"
  shows "\<exists>st'. single_round dbl True Q P (\<lambda>_. True) st = Inr st' \<and> db_inv n st' \<and> db_batch st' = [] \<and> takes 1 st st'"
proof -
  have q: "qinv (Suc n) (db_queue st)" using inv by (simp add: db_inv_def)
  obtain q' where d: "dequeue_op Q (db_queue st) =
      Inr (if cont (db_queue st) = [] then None else Some (hd (cont (db_queue st))), q')"
    "qinv n q'" "cont q' = tl (cont (db_queue st))"
    using Q.dequeue_any [OF q] by blast
  show ?thesis
  proof (cases "cont (db_queue st)")
    case Nil
    let ?st' = "st\<lparr>db_queue := q'\<rparr>"
    have "db_inv n ?st'" "takes 1 st ?st'" using inv d Nil empty
      by (simp_all add: db_inv_def held_def takes_def db_keeps_def db_log_def all_stored_def)
    then show ?thesis using d(1) Nil empty by (auto simp: single_round_def)
  next
    case (Cons x xs)
    have x: "x < size (db_pool st)" "x \<notin> free (db_pool st)" "terminated (db_mem st x)" "x \<notin> set xs"
      using inv Cons empty by (simp_all add: db_inv_def held_def)
    have "pinv (db_pool st)" using inv by (simp add: db_inv_def)
    from P.deallocate [OF this x(1,2)] obtain p' where p': "deallocate_op P (db_pool st) (Some x) = Inr p'" "pinv p'"
      "free p' = insert x (free (db_pool st))" "size p' = size (db_pool st)" by blast
    let ?row = "row_of dbl (db_mem st x)"
    let ?st' = "st\<lparr>db_queue := q', db_pool := p', db_txns := db_txns st @ [([db_mem st x], Some [?row])]\<rparr>"
    have "single_round dbl True Q P (\<lambda>_. True) st = Inr ?st'"
      using d(1) Cons x(3) p'(1) by (simp add: single_round_def commitSingle_def trade_row_decode)
    moreover have "txn_ok dbl ([db_mem st x], Some [?row])" by (simp add: txn_ok_def commitBatchSize_def)
    then have "db_inv n ?st'" "takes 1 st ?st'" using inv d(2,3) Cons empty x(4) p'
      by (auto simp: db_inv_def held_def takes_def db_keeps_def db_log_def all_stored_def)
    ultimately show ?thesis using empty by auto
  qed
qed

lemma runSingle_takes:
  "db_inv (k + n) st \<Longrightarrow> db_batch st = [] \<Longrightarrow>
    \<exists>st'. runSingle dbl True Q P (replicate k (\<lambda>_. True)) st = Inr st' \<and> db_inv n st' \<and> db_batch st' = [] \<and> takes k st st'"
proof (induction k arbitrary: st)
  case 0
  then show ?case by (simp add: takes_def db_keeps_def)
next
  case (Suc k)
  from Suc.prems(1) have "db_inv (Suc (k + n)) st" by simp
  from single_round_takes [OF this Suc.prems(2)] obtain s where
    s: "single_round dbl True Q P (\<lambda>_. True) st = Inr s" "db_inv (k + n) s" "db_batch s = []" "takes 1 st s" by blast
  from Suc.IH [OF s(2,3)] takes_trans [OF s(4)] s(1) show ?case by auto
qed

text \<open>The table and the pool after \<open>k\<close> messages, in whatever way they were stored.\<close>

lemma taken_result:
  assumes takes: "takes k st st'" and inv: "db_inv n st'" "db_inv m st" and "db_batch st' = []" and "db_batch st = []" and "db_txns st = []"
  shows "stored_rows st' = map (\<lambda>i. row_of dbl (db_mem st i)) (take k (cont (db_queue st)))"
    and "free (db_pool st') = free (db_pool st) \<union> set (take k (cont (db_queue st)))"
proof -
  have rows: "stored_rows st' = map (row_of dbl) (concat (map fst (db_txns st')))" 
  proof -
    have "all_stored st'" using takes assms(6) by (simp add: takes_def all_stored_def)
    then have "snd t = Some (map (row_of dbl) (fst t))" if "t \<in> set (db_txns st')" for t
      using inv(1) that unfolding db_inv_def txn_ok_def all_stored_def by blast
    then have "map (\<lambda>t. case snd t of None \<Rightarrow> [] | Some rows \<Rightarrow> rows) (db_txns st') = map (\<lambda>t. map (row_of dbl) (fst t)) (db_txns st')"
      by (intro map_cong refl) simp
    then show ?thesis by (simp only: stored_rows_def map_concat map_map comp_def)
  qed
  let ?c = "cont (db_queue st)"
  have "concat (map fst (db_txns st')) @ map (db_mem st) (drop k ?c) = map (db_mem st) (take k ?c @ drop k ?c)"
    using takes assms(4-6) by (auto simp: takes_def db_keeps_def db_log_def held_def)
  then have "concat (map fst (db_txns st')) = map (db_mem st) (take k ?c)" unfolding map_append by simp
  with rows show "stored_rows st' = map (\<lambda>i. row_of dbl (db_mem st i)) (take k ?c)" by simp
  have "cont (db_queue st') = drop k ?c" "free (db_pool st') \<union> set (held st') = free (db_pool st) \<union> set (held st)"
    using takes unfolding takes_def db_keeps_def by blast+
  then have "free (db_pool st') \<union> set (drop k ?c) = free (db_pool st) \<union> set ?c"
    using assms(4,5) unfolding held_def by (simp only: append_Nil)
  moreover have "set (drop k ?c) \<inter> free (db_pool st') = {}"
    using inv(1) takes assms(4) by (auto simp: db_inv_def held_def takes_def)
  moreover have "distinct ?c" "set ?c \<inter> free (db_pool st) = {}" using inv(2) assms(5) by (auto simp: db_inv_def held_def)
  moreover from this(1) have "set (take k ?c) \<inter> set (drop k ?c) = {}" by (simp add: set_take_disj_set_drop_if_distinct)
  moreover have "set ?c = set (take k ?c) \<union> set (drop k ?c)" by (metis append_take_drop_id set_append)
  ultimately show "free (db_pool st') = free (db_pool st) \<union> set (take k ?c)" by blast
qed

end

text \<open>
  C20: As long as no call of the database throws, the loops \<open>runSingle\<close>, \<open>runBatch\<close> and \<open>runCopy\<close>
  are equivalent: after the same number of rounds the table holds the same rows, those of the first
  messages of the queue in order, and queue and pool hold the same messages.
\<close>

theorem db_modes_agree:
  assumes "spsc_inv (db_queue st)" and "tagged_inv (db_pool st)" and "db_txns st = []" and "db_batch st = []"
    and "distinct (spsc_list (db_queue st))"
    and "\<forall>i \<in> set (spsc_list (db_queue st)). i < length (tp_next (db_pool st)) \<and> i \<notin> tagged_free (db_pool st) \<and>
      terminated (db_mem st i)"
  shows "\<exists>s1 s2. runSingle dbl True spsc_ops (tagged_ops aw dw) (replicate k (\<lambda>_. True)) st = Inr s1 \<and>
    runBatch dbl True spsc_ops (tagged_ops aw dw) (replicate k (\<lambda>_. True)) (\<lambda>_. True) st = Inr s2 \<and>
    runCopy dbl True spsc_ops (tagged_ops aw dw) (replicate k (\<lambda>_. True)) (\<lambda>_. True) st = Inr s2 \<and>
    stored_rows s1 = map (\<lambda>i. row_of dbl (db_mem st i)) (take k (spsc_list (db_queue st))) \<and> stored_rows s2 = stored_rows s1 \<and>
    spsc_list (db_queue s1) = drop k (spsc_list (db_queue st)) \<and> spsc_list (db_queue s2) = spsc_list (db_queue s1) \<and>
    tagged_free (db_pool s2) = tagged_free (db_pool s1)"
proof -
  have st: "st\<lparr>db_batch := []\<rparr> = st" using assms(4) by (cases st) simp
  have inv: "dbq.db_inv dbl (k + 0) st" unfolding dbq.db_inv_def dbq.held_def
    using assms by (simp add: commitBatchSize_def)
  from dbq.runSingle_takes [OF this assms(4), of aw dw] obtain s1 where
    s1: "runSingle dbl True spsc_ops (tagged_ops aw dw) (replicate k (\<lambda>_. True)) st = Inr s1"
      "dbq.db_inv dbl 0 s1" "db_batch s1 = []" "dbq.takes k st s1" by blast
  have "dbq.db_inv dbl (length (replicate k (\<lambda>_ :: nat. True)) + 0) st" using inv by simp
  from dbq.batch_loop_spec [OF this, of aw dw "\<lambda>_. True"] obtain s2 where
    s2: "batch_loop (commitCopy dbl) True spsc_ops (tagged_ops aw dw) (replicate k (\<lambda>_. True)) (\<lambda>_. True) st = Inr s2"
      "dbq.db_inv dbl 0 s2" "db_batch s2 = []" by blast
  note t2 = dbq.batch_loop_takes [OF inv s2(1)]
  have "batch_loop (commitBatch dbl) True spsc_ops (tagged_ops aw dw) (replicate k (\<lambda>_. True)) (\<lambda>_. True) st = Inr s2"
    using s2(1) by (subst batch_loop_cong [where commit' = "commitCopy dbl"]) (auto simp: commit_same_rows)
  then have "runBatch dbl True spsc_ops (tagged_ops aw dw) (replicate k (\<lambda>_. True)) (\<lambda>_. True) st = Inr s2"
    by (simp add: runBatch_def st)
  moreover have "runCopy dbl True spsc_ops (tagged_ops aw dw) (replicate k (\<lambda>_. True)) (\<lambda>_. True) st = Inr s2"
    using s2(1) by (simp add: runCopy_def st)
  ultimately show ?thesis
    using s1 dbq.taken_result [OF s1(4,2) inv s1(3) assms(4,3)] dbq.taken_result [OF t2 s2(2) inv s2(3) assms(4,3)] t2
    by (intro exI [of _ s1] exI [of _ s2]) (simp add: dbq.takes_def)
qed

lemma db_modes_agree_witness:
  "\<exists>st s1 s2. db_sample = Inr st \<and>
    runSingle unat True spsc_ops (tagged_ops [] []) (replicate 2 (\<lambda>_. True)) st = Inr s1 \<and>
    runCopy unat True spsc_ops (tagged_ops [] []) (replicate 2 (\<lambda>_. True)) (\<lambda>_. True) st = Inr s2 \<and>
    stored_rows s1 = [row_of unat (encode_itch of_nat (trade_no 0))] \<and> stored_rows s2 = stored_rows s1"
proof -
  obtain st where st: "db_sample = Inr st" "spsc_inv (db_queue st)" "spsc_list (db_queue st) = [0]"
    "tagged_inv (db_pool st)" "tagged_list (db_pool st) = []" "length (tp_next (db_pool st)) = 1"
    "db_mem st = (\<lambda>_. encode_itch of_nat (trade_no 0))" "db_batch st = []" "db_txns st = []"
    by (rule db_sample_state)
  have "terminated (encode_itch of_nat (trade_no 0))"
    by (subst terminated_encode) (simp_all, simp add: trade_no_def)
  with db_modes_agree [of st unat "[]" "[]" 2] st show ?thesis by (auto simp: tagged_free_def)
qed

end
