(* ===== verification/TradeReceiver.thy ===== *)
theory TradeReceiver
  imports Messages QueueSpec PoolSpec
begin

text \<open>
  include/TradeReceiver.hpp: the receiver of multicast datagrams, the sequencer behind it, and
  the recovery manager the sequencer calls when it sees a gap. They share a pool of messages and
  pass pointers to them through queues. A message is its 51 bytes in memory.
\<close>

section \<open>State\<close>

text \<open>
  \<open>sd_tcp\<close> are the bytes that the snapshot server has put on the connection and that have not
  been received; \<open>sd_events\<close> is what the calls of \<^verbatim>\<open>epoll_wait\<close> to come report: that the
  connection is readable and how many bytes have arrived (0 for a closed connection or an error
  of \<^verbatim>\<open>recv\<close>), that five seconds have passed, or a failure.
\<close>

datatype recov_event = Readable nat | Timed_Out | Wait_Failed

record ('rq, 'sq, 'p) seq_state =
  sd_recv :: 'rq
  sd_send :: 'sq
  sd_pool :: 'p
  sd_mem :: "nat \<Rightarrow> bytes"
  sd_next :: u64
  sd_requests :: "gap_request list"
  sd_tcp :: bytes
  sd_events :: "recov_event list"

text \<open>The constructor of the sequencer: the numbers start at 0, and nothing has been requested.\<close>

definition seq_new :: "'rq \<Rightarrow> 'sq \<Rightarrow> 'p \<Rightarrow> (nat \<Rightarrow> bytes) \<Rightarrow> recov_event list \<Rightarrow> ('rq, 'sq, 'p) seq_state" where
  "seq_new recvQueue sendQueue pool mem events = \<lparr>sd_recv = recvQueue, sd_send = sendQueue, sd_pool = pool, sd_mem = mem,
     sd_next = 0, sd_requests = [], sd_tcp = [], sd_events = events\<rparr>"

definition msg_seq :: "bytes \<Rightarrow> u64" where
  "msg_seq bs = get64 (take 8 (drop 1 bs))"

text \<open>\<^verbatim>\<open>recv(fd, msg, ...)\<close> of \<open>n\<close> bytes overwrites the first \<open>n\<close> bytes of the message.\<close>

definition recv_into :: "bytes \<Rightarrow> bytes \<Rightarrow> bytes" where
  "recv_into new old = new @ drop (length new) old"

section \<open>TradeRecoveryManager\<close>

fun try_connect :: "int list \<Rightarrow> int \<Rightarrow> int" where
  "try_connect [] status = status"
| "try_connect (r # rs) status = (if r = 0 then 0 else try_connect rs r)"

definition recoveryConnectionAttempts :: nat where
  "recoveryConnectionAttempts = 50"

text \<open>\<open>attempt i\<close> is the result of the \<open>i\<close>-th call of \<^verbatim>\<open>::connect\<close>.\<close>

definition recovery_connect :: "int \<Rightarrow> int \<Rightarrow> int \<Rightarrow> (nat \<Rightarrow> int) \<Rightarrow> unit res" where
  "recovery_connect socketFD nodelay pton attempt = checked_calls
    [(socketFD, ''Failed to create TradeRecoveryManager socket''), (nodelay, ''Failed to set TCP_NODELAY''),
     (pton, ''Failed to create inet_pton at TradeRecoveryManager''),
     (try_connect (map attempt [1..<recoveryConnectionAttempts + 1]) (- 1), ''Failed to connect at TradeRecoveryManager'')]"

text \<open>
  \<open>onRecoveredMsg\<close> of the sequencer, the callback: the message must be the next one. The result
  of \<open>enqueue\<close> is not looked at.
\<close>

definition onRecoveredMsg :: "('sq, nat) q_ops \<Rightarrow> nat \<Rightarrow> ('rq, 'sq, 'p) seq_state \<Rightarrow> ('rq, 'sq, 'p) seq_state res" where
  "onRecoveredMsg S msg st =
    (if msg_seq (sd_mem st msg) \<noteq> sd_next st then Inl (Throw (Runtime_Error ''Failed to recover message''))
     else res_bind (enqueue_op S (sd_send st) msg) (\<lambda>(_, sq).
       Inr (st\<lparr>sd_send := sq, sd_next := sd_next st + 1\<rparr>)))"

text \<open>
  The other side of the connection and the kernel: the bytes the server sends back for a request,
  and the results of \<^verbatim>\<open>send\<close>, \<^verbatim>\<open>epoll_create1\<close> and \<^verbatim>\<open>epoll_ctl\<close> in the recovery that follows
  \<open>n\<close> others.
\<close>

record recov_env =
  answer :: "gap_request \<Rightarrow> bytes"
  send_result :: "nat \<Rightarrow> int"
  epoll_result :: "nat \<Rightarrow> int"
  ctl_result :: "nat \<Rightarrow> int"

definition sendRecoveryRequest :: "recov_env \<Rightarrow> u64 \<Rightarrow> u64 \<Rightarrow> ('rq, 'sq, 'p) seq_state \<Rightarrow>
    ('rq, 'sq, 'p) seq_state res" where
  "sendRecoveryRequest env startSeq endSeq st = (let r = \<lparr>req_type = 48, start_seq = startSeq, end_seq = endSeq\<rparr> in
    if send_result env (length (sd_requests st)) \<noteq> int GapRequestMsgSize
    then Inl (Throw (Runtime_Error ''Failed to send full recovery request at sendRecoveryRequest''))
    else Inr (st\<lparr>sd_requests := sd_requests st @ [r], sd_tcp := sd_tcp st @ answer env r\<rparr>))"

text \<open>
  The receiving loop. A message is allocated before each \<^verbatim>\<open>recv\<close>; with a null pointer \<^verbatim>\<open>recv\<close>
  fails, and the null pointer goes back to the pool. Waiting for an event that never comes is
  \<open>Diverges\<close>.
\<close>

fun receive_loop :: "('sq, nat) q_ops \<Rightarrow> 'p p_ops \<Rightarrow> recov_event list \<Rightarrow> u64 \<Rightarrow> u64 \<Rightarrow>
    ('rq, 'sq, 'p) seq_state \<Rightarrow> ('rq, 'sq, 'p) seq_state res" where
  "receive_loop S P [] received num st =
    (if received < num then Inl Diverges else Inr (st\<lparr>sd_events := []\<rparr>))"
| "receive_loop S P (e # es) received num st =
    (if \<not> received < num then Inr (st\<lparr>sd_events := e # es\<rparr>)
     else case e of
       Timed_Out \<Rightarrow> receive_loop S P es received num st
     | Wait_Failed \<Rightarrow> Inr (st\<lparr>sd_events := es\<rparr>)
     | Readable n \<Rightarrow> res_bind (allocate_op P (sd_pool st)) (\<lambda>(msg, pool). case msg of
         None \<Rightarrow> res_bind (deallocate_op P pool None) (\<lambda>pool'. Inr (st\<lparr>sd_pool := pool', sd_events := es\<rparr>))
       | Some i \<Rightarrow>
           let got = take (min n ITCHTradeMsgSize) (sd_tcp st);
             st1 = st\<lparr>sd_pool := pool, sd_mem := (sd_mem st)(i := recv_into got (sd_mem st i)),
               sd_tcp := drop (length got) (sd_tcp st)\<rparr> in
           if length got \<noteq> ITCHTradeMsgSize
           then res_bind (deallocate_op P pool (Some i)) (\<lambda>pool'.
             if got = [] then Inr (st1\<lparr>sd_pool := pool', sd_events := es\<rparr>)
             else receive_loop S P es received num (st1\<lparr>sd_pool := pool'\<rparr>))
           else res_bind (onRecoveredMsg S i st1) (receive_loop S P es (received + 1) num)))"

definition receiveRecoveryMessages :: "('sq, nat) q_ops \<Rightarrow> 'p p_ops \<Rightarrow> int \<Rightarrow> int \<Rightarrow> u64 \<Rightarrow> u64 \<Rightarrow>
    ('rq, 'sq, 'p) seq_state \<Rightarrow> ('rq, 'sq, 'p) seq_state res" where
  "receiveRecoveryMessages S P epollFD ctl startSeq endSeq st =
    res_bind (checked_calls [(epollFD, ''epoll_create1() failed at receiveRecoveryMessages''),
        (ctl, ''epoll_ctl() failed at receiveRecoveryMessages'')])
      (\<lambda>_. receive_loop S P (sd_events st) 0 (endSeq - startSeq + 1) st)"

definition recover :: "('sq, nat) q_ops \<Rightarrow> 'p p_ops \<Rightarrow> recov_env \<Rightarrow> u64 \<Rightarrow> u64 \<Rightarrow>
    ('rq, 'sq, 'p) seq_state \<Rightarrow> ('rq, 'sq, 'p) seq_state res" where
  "recover S P env startSeq endSeq st = (let n = length (sd_requests st) in
    res_bind (sendRecoveryRequest env startSeq endSeq st)
      (receiveRecoveryMessages S P (epoll_result env n) (ctl_result env n) startSeq endSeq))"

section \<open>TradeDataSequencer\<close>

text \<open>One round of \<open>run\<close>. After a recovery the message that showed the gap is forwarded, come what may.\<close>

definition forward :: "('sq, nat) q_ops \<Rightarrow> nat \<Rightarrow> ('rq, 'sq, 'p) seq_state \<Rightarrow> ('rq, 'sq, 'p) seq_state res" where
  "forward S msg st = res_bind (enqueue_op S (sd_send st) msg) (\<lambda>(_, sq).
     Inr (st\<lparr>sd_send := sq, sd_next := sd_next st + 1\<rparr>))"

definition seq_round :: "('rq, nat) q_ops \<Rightarrow> ('sq, nat) q_ops \<Rightarrow> 'p p_ops \<Rightarrow> recov_env \<Rightarrow>
    ('rq, 'sq, 'p) seq_state \<Rightarrow> ('rq, 'sq, 'p) seq_state res" where
  "seq_round R S P env st = res_bind (dequeue_op R (sd_recv st)) (\<lambda>(r, rq).
    let st1 = st\<lparr>sd_recv := rq\<rparr> in case r of
      None \<Rightarrow> Inr st1
    | Some msg \<Rightarrow> (let s = msg_seq (sd_mem st msg) in
        if s > sd_next st
        then res_bind (recover S P env (sd_next st) (s - 1) st1) (forward S msg)
        else if s < sd_next st
        then res_bind (deallocate_op P (sd_pool st) (Some msg)) (\<lambda>pool. Inr (st1\<lparr>sd_pool := pool\<rparr>))
        else forward S msg st1))"

text \<open>\<open>run\<close>: as many rounds as pass before \<open>stop\<close> clears the flag.\<close>

fun seq_run :: "('rq, nat) q_ops \<Rightarrow> ('sq, nat) q_ops \<Rightarrow> 'p p_ops \<Rightarrow> recov_env \<Rightarrow> nat \<Rightarrow>
    ('rq, 'sq, 'p) seq_state \<Rightarrow> ('rq, 'sq, 'p) seq_state res" where
  "seq_run R S P env 0 st = Inr st"
| "seq_run R S P env (Suc n) st = res_bind (seq_round R S P env st) (seq_run R S P env n)"

definition setSequenceNum :: "u64 \<Rightarrow> ('rq, 'sq, 'p) seq_state \<Rightarrow> ('rq, 'sq, 'p) seq_state" where
  "setSequenceNum sequence st = st\<lparr>sd_next := sequence + 1\<rparr>"

definition getSequenceNum :: "('rq, 'sq, 'p) seq_state \<Rightarrow> u64" where
  "getSequenceNum st = sd_next st - 1"

section \<open>MulticastTradeDataReceiver\<close>

record ('q, 'p) mcast_state =
  mr_queue :: 'q
  mr_pool :: 'p
  mr_mem :: "nat \<Rightarrow> bytes"

definition mcast_new :: "'q \<Rightarrow> 'p \<Rightarrow> (nat \<Rightarrow> bytes) \<Rightarrow> ('q, 'p) mcast_state" where
  "mcast_new queue pool mem = \<lparr>mr_queue = queue, mr_pool = pool, mr_mem = mem\<rparr>"

definition multicast_connect :: "int \<Rightarrow> int \<Rightarrow> int \<Rightarrow> int \<Rightarrow> int \<Rightarrow> unit res" where
  "multicast_connect socketFD reuse bnd pton member = checked_calls
    [(socketFD, ''Failed to create MulticastTradeDataReceiver socket''),
     (reuse, ''Failed to SO_REUSEADDR at MulticastTradeDataReceiver''),
     (bnd, ''Failed to bind at MulticastTradeDataReceiver''),
     (pton, ''Failed to create inet_pton at MulticastTradeDataReceiver''),
     (member, ''Failed to IP_ADD_MEMBERSHIP at MulticastTradeDataReceiver'')]"

text \<open>
  One round of \<open>run\<close>: \<open>None\<close> is an error of \<^verbatim>\<open>recv\<close>, otherwise the datagram's first 51 bytes,
  or none after \<^verbatim>\<open>shutdown\<close>. Neither its length nor the result of \<open>enqueue\<close> is looked at.
\<close>

definition mcast_round :: "('q, nat) q_ops \<Rightarrow> 'p p_ops \<Rightarrow> bytes option \<Rightarrow> ('q, 'p) mcast_state \<Rightarrow> ('q, 'p) mcast_state res" where
  "mcast_round Q P data st = res_bind (allocate_op P (mr_pool st)) (\<lambda>(r, pool). case r of
      None \<Rightarrow> Inl (Throw (Runtime_Error ''Msg Pool exhausted at MulticastTradeDataReceiver''))
    | Some msg \<Rightarrow> (case data of
        None \<Rightarrow> res_bind (deallocate_op P pool (Some msg)) (\<lambda>pool'. Inr (st\<lparr>mr_pool := pool'\<rparr>))
      | Some bs \<Rightarrow> res_bind (enqueue_op Q (mr_queue st) msg) (\<lambda>(_, q).
          Inr (st\<lparr>mr_pool := pool, mr_queue := q,
            mr_mem := (mr_mem st)(msg := recv_into (take ITCHTradeMsgSize bs) (mr_mem st msg))\<rparr>))))"

fun mcast_run :: "('q, nat) q_ops \<Rightarrow> 'p p_ops \<Rightarrow> bytes option list \<Rightarrow> ('q, 'p) mcast_state \<Rightarrow> ('q, 'p) mcast_state res" where
  "mcast_run Q P [] st = Inr st"
| "mcast_run Q P (d # ds) st = res_bind (mcast_round Q P d st) (mcast_run Q P ds)"

end
