(* ===== verification/Sequencer.thy ===== *)
theory Sequencer
  imports TradeReceiver
begin

text \<open>
  The sequencer of include/TradeReceiver.hpp as a client of two queues and a pool: what the
  recovery loop does when the connection delivers, and what one round adds to the send queue.
\<close>

section \<open>Events and answers\<close>

text \<open>The connection delivers: a whole message has arrived, or the wait is repeated.\<close>

definition prompt :: "recov_event \<Rightarrow> bool" where
  "prompt e \<longleftrightarrow> e = Timed_Out \<or> (\<exists>n \<ge> ITCHTradeMsgSize. e = Readable n)"

text \<open>\<open>ms\<close> are messages of 51 bytes with consecutive sequence numbers from \<open>k\<close> on.\<close>

fun consecutive :: "u64 \<Rightarrow> bytes list \<Rightarrow> bool" where
  "consecutive k [] \<longleftrightarrow> True"
| "consecutive k (b # bs) \<longleftrightarrow> length b = ITCHTradeMsgSize \<and> msg_seq b = k \<and> consecutive (k + 1) bs"

lemma u64_of_unat: "of_nat (unat x) = x" for x :: u64
  by simp

lemma unat_Suc_less: "x < y \<Longrightarrow> unat (x + 1) = Suc (unat x)" for x y :: u64
  using u64_lt [of y] by (simp add: word_less_nat_alt unat_word_ariths)

lemma consecutive_snoc: "consecutive k (bs @ [b]) \<longleftrightarrow>
    consecutive k bs \<and> length b = ITCHTradeMsgSize \<and> msg_seq b = k + of_nat (length bs)"
  by (induction bs arbitrary: k) (auto simp: add.assoc)

lemma prompt_cases [consumes 1, case_names timeout ready]:
  "prompt e \<Longrightarrow> (e = Timed_Out \<Longrightarrow> P) \<Longrightarrow>
    (\<And>n. e = Readable n \<Longrightarrow> min n ITCHTradeMsgSize = ITCHTradeMsgSize \<Longrightarrow> P) \<Longrightarrow> P"
  by (auto simp: prompt_def min_def)

section \<open>The interfaces the sequencer uses\<close>

locale sequencer = R: endless_queue R rinv rcont rcap + S: endless_queue S sinv scont scap + P: guarded_pool P pinv free size
  for R :: "('rq, nat) q_ops" and rinv :: "nat \<Rightarrow> 'rq \<Rightarrow> bool" and rcont :: "'rq \<Rightarrow> nat list" and rcap :: "'rq \<Rightarrow> nat"
    and S :: "('sq, nat) q_ops" and sinv :: "nat \<Rightarrow> 'sq \<Rightarrow> bool" and scont :: "'sq \<Rightarrow> nat list" and scap :: "'sq \<Rightarrow> nat"
    and P :: "'p p_ops" and pinv :: "'p \<Rightarrow> bool" and free :: "'p \<Rightarrow> nat set" and size :: "'p \<Rightarrow> nat"
begin

text \<open>The queue to the consumer has room for every message of the pool that is free.\<close>

definition room :: "('rq, 'sq, 'p) seq_state \<Rightarrow> bool" where
  "room st \<longleftrightarrow> finite (free (sd_pool st)) \<and> length (scont (sd_send st)) + card (free (sd_pool st)) \<le> scap (sd_send st)"

definition seq_ok :: "('rq, 'sq, 'p) seq_state \<Rightarrow> bool" where
  "seq_ok st \<longleftrightarrow> sinv 0 (sd_send st) \<and> pinv (sd_pool st) \<and> (\<forall>i. length (sd_mem st i) = ITCHTradeMsgSize) \<and> room st"

text \<open>
  \<open>ms\<close> have been received: they are in the queue to the consumer, in messages that were free,
  and all else is as it was.
\<close>

definition received_all :: "bytes list \<Rightarrow> ('rq, 'sq, 'p) seq_state \<Rightarrow> ('rq, 'sq, 'p) seq_state \<Rightarrow> bool" where
  "received_all ms st st' \<longleftrightarrow> (\<exists>js. scont (sd_send st') = scont (sd_send st) @ js \<and> map (sd_mem st') js = ms \<and>
     distinct js \<and> set js \<subseteq> free (sd_pool st) \<and> free (sd_pool st') = free (sd_pool st) - set js \<and>
     (\<forall>i. i \<notin> free (sd_pool st) \<longrightarrow> sd_mem st' i = sd_mem st i)) \<and>
     size (sd_pool st') = size (sd_pool st) \<and> scap (sd_send st') = scap (sd_send st) \<and>
     sd_recv st' = sd_recv st \<and> sd_requests st' = sd_requests st \<and>
     sd_next st' = sd_next st + of_nat (length ms)"

lemma received_all_Nil: "received_all [] st (st\<lparr>sd_events := es\<rparr>)"
  by (simp add: received_all_def)

lemma received_all_Cons:
  assumes "i \<in> free (sd_pool st)" and "scont (sd_send s) = scont (sd_send st) @ [i]" and "sd_mem s i = b"
    and "free (sd_pool s) = free (sd_pool st) - {i}" and "\<forall>j. j \<noteq> i \<longrightarrow> sd_mem s j = sd_mem st j"
    and "size (sd_pool s) = size (sd_pool st)" and "scap (sd_send s) = scap (sd_send st)"
    and "sd_recv s = sd_recv st" and "sd_requests s = sd_requests st" and "sd_next s = sd_next st + 1"
    and "received_all bs s st'"
  shows "received_all (b # bs) st st'"
proof -
  from assms(11) obtain js where js: "scont (sd_send st') = scont (sd_send s) @ js" "map (sd_mem st') js = bs" "distinct js"
    "set js \<subseteq> free (sd_pool s)" "free (sd_pool st') = free (sd_pool s) - set js"
    "\<forall>j. j \<notin> free (sd_pool s) \<longrightarrow> sd_mem st' j = sd_mem s j"
    unfolding received_all_def by blast
  have "map (sd_mem st') (i # js) = b # bs" using js(2,6) assms(3,4) by simp
  moreover have "distinct (i # js)" "set (i # js) \<subseteq> free (sd_pool st)" using js(3,4) assms(1,4) by auto
  moreover have "free (sd_pool st') = free (sd_pool st) - set (i # js)" using js(5) assms(4) by auto
  moreover have "\<forall>j. j \<notin> free (sd_pool st) \<longrightarrow> sd_mem st' j = sd_mem st j" using js(6) assms(1,4,5) by auto
  moreover have "scont (sd_send st') = scont (sd_send st) @ i # js" using js(1) assms(2) by simp
  ultimately have "\<exists>js. scont (sd_send st') = scont (sd_send st) @ js \<and> map (sd_mem st') js = b # bs \<and>
     distinct js \<and> set js \<subseteq> free (sd_pool st) \<and> free (sd_pool st') = free (sd_pool st) - set js \<and>
     (\<forall>i. i \<notin> free (sd_pool st) \<longrightarrow> sd_mem st' i = sd_mem st i)"
    by (intro exI [of _ "i # js"] conjI) assumption+
  then show ?thesis using assms(6-11) unfolding received_all_def by simp
qed

text \<open>The callback: the message with the next number goes into the queue to the consumer.\<close>

lemma recovered_msg:
  assumes ok: "seq_ok st" and i: "i \<in> free (sd_pool st)" "pinv p" "free p = free (sd_pool st) - {i}" "size p = size (sd_pool st)"
    and b: "length b = ITCHTradeMsgSize" "msg_seq b = sd_next st"
    and s1: "s1 = st\<lparr>sd_pool := p, sd_mem := (sd_mem st)(i := b), sd_tcp := t\<rparr>"
  shows "\<exists>s. onRecoveredMsg S i s1 = Inr s \<and> seq_ok s \<and> sd_tcp s = t \<and> sd_next s = sd_next st + 1 \<and>
    sd_events s = sd_events st \<and> card (free (sd_pool st)) = Suc (card (free (sd_pool s))) \<and>
    (\<forall>bs st'. received_all bs s st' \<longrightarrow> received_all (b # bs) st st')"
proof -
  have fin: "finite (free (sd_pool st))" and le: "length (scont (sd_send st)) + card (free (sd_pool st)) \<le> scap (sd_send st)"
    using ok by (simp_all add: seq_ok_def room_def)
  have card: "card (free (sd_pool st)) = Suc (card (free p))" using fin i(1,3) by (metis card_Suc_Diff1)
  then have "length (scont (sd_send st)) < scap (sd_send st)" using le by linarith
  then obtain q where q: "enqueue_op S (sd_send st) i = Inr (True, q)" "sinv 0 q" "scap q = scap (sd_send st)"
    "scont q = scont (sd_send st) @ [i]"
    using S.enqueue_step [of 0 "sd_send st" i] ok by (auto simp: seq_ok_def)
  let ?s = "s1\<lparr>sd_send := q, sd_next := sd_next st + 1\<rparr>"
  have "onRecoveredMsg S i s1 = Inr ?s" using q(1) b(2) by (simp add: onRecoveredMsg_def s1)
  moreover have "seq_ok ?s" using ok q i(2,3) b(1) le card fin by (simp add: seq_ok_def room_def s1)
  moreover have "received_all (b # bs) st st'" if "received_all bs ?s st'" for bs st'
    by (rule received_all_Cons [OF i(1) _ _ _ _ _ _ _ _ _ that]) (use q i s1 in auto)
  ultimately show ?thesis using card by (auto simp: s1)
qed

text \<open>One round of the receiving loop on a readable connection with a whole message.\<close>

lemma receive_round:
  assumes ok: "seq_ok st" and bs: "consecutive (sd_next st) (b # bs)" "sd_tcp st = concat (b # bs)"
    and n: "min n ITCHTradeMsgSize = ITCHTradeMsgSize" and less: "received < num"
    and a: "allocate_op P (sd_pool st) = Inr (Some i, p)"
  shows "\<exists>s. receive_loop S P (Readable n # es) received num st = receive_loop S P es (received + 1) num s \<and>
    seq_ok s \<and> sd_tcp s = concat bs \<and> sd_next s = sd_next st + 1 \<and>
    card (free (sd_pool st)) = Suc (card (free (sd_pool s))) \<and>
    (\<forall>cs st'. received_all cs s st' \<longrightarrow> received_all (b # cs) st st')"
proof -
  have pool: "pinv p" "i \<in> free (sd_pool st)" "free p = free (sd_pool st) - {i}" "size p = size (sd_pool st)"
    using P.allocate_SomeD [OF _ a] ok by (auto simp: seq_ok_def)
  have b: "length b = ITCHTradeMsgSize" "msg_seq b = sd_next st" using bs(1) by simp_all
  have got: "take (min n ITCHTradeMsgSize) (sd_tcp st) = b" using n b(1) bs(2) by simp
  have into: "recv_into b (sd_mem st i) = b" using ok b(1) by (simp add: recv_into_def seq_ok_def)
  let ?s1 = "st\<lparr>sd_pool := p, sd_mem := (sd_mem st)(i := b), sd_tcp := concat bs\<rparr>"
  from recovered_msg [OF ok pool(2,1,3,4) b refl, of "concat bs"] obtain s where
    s: "onRecoveredMsg S i ?s1 = Inr s" "seq_ok s" "sd_tcp s = concat bs" "sd_next s = sd_next st + 1"
      "card (free (sd_pool st)) = Suc (card (free (sd_pool s)))"
      "\<forall>cs st'. received_all cs s st' \<longrightarrow> received_all (b # cs) st st'" by blast
  have "drop (length b) (sd_tcp st) = concat bs" using bs(2) by simp
  then have "receive_loop S P (Readable n # es) received num st = receive_loop S P es (received + 1) num s"
    using less a s(1) b(1) by (simp add: got into Let_def)
  with s show ?thesis by blast
qed

text \<open>
  When the connection delivers, the loop receives exactly the messages it asked for, in order. It
  returns if the pool has a message for each and enough waits report data.
\<close>

lemma receive_loop_prompt:
  "\<forall>e \<in> set es. prompt e \<Longrightarrow> seq_ok st \<Longrightarrow> consecutive (sd_next st) bs \<Longrightarrow> sd_tcp st = concat bs \<Longrightarrow>
    unat received + length bs = unat num \<Longrightarrow> receive_loop S P es received num st = Inr st' \<Longrightarrow>
    seq_ok st' \<and> received_all bs st st' \<and> sd_tcp st' = [] \<and> (\<forall>e \<in> set (sd_events st'). prompt e)"
proof (induction es arbitrary: st bs received)
  case Nil
  then have "\<not> received < num" "st' = st\<lparr>sd_events := []\<rparr>" by (auto split: if_splits)
  moreover from this(1) have "length bs = 0" using Nil.prems(5) by (simp add: word_less_nat_alt del: length_0_conv)
  ultimately show ?case using Nil by (simp add: received_all_Nil seq_ok_def room_def)
next
  case (Cons e es)
  show ?case
  proof (cases bs)
    case Nil
    then have "st' = st\<lparr>sd_events := e # es\<rparr>" using Cons.prems(5,6) by (auto split: if_splits simp: word_less_nat_alt)
    with Cons.prems Nil show ?thesis by (simp add: received_all_Nil seq_ok_def room_def)
  next
    case (Cons b bs')
    then have less: "received < num" using Cons.prems(5) by (simp add: word_less_nat_alt)
    have "prompt e" using Cons.prems(1) by simp
    then show ?thesis
    proof (cases rule: prompt_cases)
      case timeout
      then show ?thesis using Cons.prems less by (intro Cons.IH) simp_all
    next
      case (ready n)
      obtain i p where a: "allocate_op P (sd_pool st) = Inr (Some i, p)"
      proof -
        obtain r p where r: "allocate_op P (sd_pool st) = Inr (r, p)"
          using Cons.prems(6) less ready(1) by (cases "allocate_op P (sd_pool st)") auto
        show thesis
        proof (cases r)
          case None
          then obtain f where "deallocate_op P p None = Inl f"
            using P.allocate_NoneD [of "sd_pool st" p] Cons.prems(2) r by (auto simp: seq_ok_def)
          with Cons.prems(6) r None less ready(1) show ?thesis by simp
        next
          case (Some i)
          with r that show ?thesis by blast
        qed
      qed
      have c: "consecutive (sd_next st) (b # bs')" "sd_tcp st = concat (b # bs')" using Cons.prems(3,4) Cons by simp_all
      from receive_round [OF Cons.prems(2) c ready(2) less a, of es] obtain s where
        s: "receive_loop S P (e # es) received num st = receive_loop S P es (received + 1) num s" "seq_ok s"
        "sd_tcp s = concat bs'" "sd_next s = sd_next st + 1" "\<forall>cs st'. received_all cs s st' \<longrightarrow> received_all (b # cs) st st'"
        using ready(1) by auto
      have "unat (received + 1) = Suc (unat received)" using less by (rule unat_Suc_less)
      then have "unat (received + 1) + length bs' = unat num" using Cons.prems(5) Cons by simp
      moreover have "consecutive (sd_next s) bs'" using c(1) s(4) by simp
      moreover have "receive_loop S P es (received + 1) num s = Inr st'" using Cons.prems(6) s(1) by simp
      ultimately have "seq_ok st' \<and> received_all bs' s st' \<and> sd_tcp st' = [] \<and> (\<forall>e \<in> set (sd_events st'). prompt e)"
        using Cons.IH [OF _ s(2) _ s(3)] Cons.prems(1) by simp
      with s(5) Cons show ?thesis by simp
    qed
  qed
qed

lemma receive_loop_returns:
  "\<forall>e \<in> set es. prompt e \<Longrightarrow> seq_ok st \<Longrightarrow> consecutive (sd_next st) bs \<Longrightarrow> sd_tcp st = concat bs \<Longrightarrow>
    unat received + length bs = unat num \<Longrightarrow> length bs \<le> length (filter (\<lambda>e. e \<noteq> Timed_Out) es) \<Longrightarrow>
    length bs \<le> card (free (sd_pool st)) \<Longrightarrow> \<exists>st'. receive_loop S P es received num st = Inr st'"
proof (induction es arbitrary: st bs received)
  case Nil
  then show ?case by (simp add: word_less_nat_alt)
next
  case (Cons e es)
  show ?case
  proof (cases bs)
    case Nil
    then show ?thesis using Cons.prems(5) by (simp add: word_less_nat_alt)
  next
    case (Cons b bs')
    then have less: "received < num" using Cons.prems(5) by (simp add: word_less_nat_alt)
    have "prompt e" using Cons.prems(1) by simp
    then show ?thesis
    proof (cases rule: prompt_cases)
      case timeout
      then show ?thesis using Cons.prems less Cons.IH [of st bs received] by simp
    next
      case (ready n)
      have "free (sd_pool st) \<noteq> {}" using Cons.prems(7) Cons by auto
      then obtain i p where a: "allocate_op P (sd_pool st) = Inr (Some i, p)"
        using P.allocate [of "sd_pool st"] Cons.prems(2) by (auto simp: seq_ok_def)
      have c: "consecutive (sd_next st) (b # bs')" "sd_tcp st = concat (b # bs')" using Cons.prems(3,4) Cons by simp_all
      from receive_round [OF Cons.prems(2) c ready(2) less a, of es] obtain s where
        s: "receive_loop S P (e # es) received num st = receive_loop S P es (received + 1) num s" "seq_ok s"
        "sd_tcp s = concat bs'" "sd_next s = sd_next st + 1" "card (free (sd_pool st)) = Suc (card (free (sd_pool s)))"
        using ready(1) by auto
      have "unat (received + 1) = Suc (unat received)" using less by (rule unat_Suc_less)
      then have "unat (received + 1) + length bs' = unat num" using Cons.prems(5) Cons by simp
      moreover have "consecutive (sd_next s) bs'" using c(1) s(4) by simp
      moreover have "length bs' \<le> length (filter (\<lambda>e. e \<noteq> Timed_Out) es)" using Cons.prems(6) Cons ready(1) by simp
      moreover have "length bs' \<le> card (free (sd_pool s))" using Cons.prems(7) Cons s(5) by simp
      ultimately show ?thesis using Cons.IH [OF _ s(2) _ s(3)] Cons.prems(1) s(1) by simp
    qed
  qed
qed

end

section \<open>A numbered source\<close>

text \<open>
  \<open>src\<close> are the trades of the server as bytes, numbered by position. The server answers a
  request inside the source with the messages of the range.
\<close>

definition numbered_source :: "bytes list \<Rightarrow> bool" where
  "numbered_source src \<longleftrightarrow> length src < 2 ^ 63 \<and>
    (\<forall>k < length src. length (src ! k) = ITCHTradeMsgSize \<and> msg_seq (src ! k) = of_nat k)"

definition serves :: "recov_env \<Rightarrow> bytes list \<Rightarrow> bool" where
  "serves env src \<longleftrightarrow> (\<forall>a b. a \<le> b \<longrightarrow> b < length src \<longrightarrow>
    answer env \<lparr>req_type = 48, start_seq = of_nat a, end_seq = of_nat b\<rparr> = concat (take (b + 1 - a) (drop a src)))"

lemma consecutive_source:
  assumes "numbered_source src"
  shows "a + n \<le> length src \<Longrightarrow> consecutive (of_nat a) (take n (drop a src))"
proof (induction n)
  case (Suc n)
  then have a: "a + n < length src" by simp
  then have "take (Suc n) (drop a src) = take n (drop a src) @ [src ! (a + n)]"
    by (simp add: take_Suc_conv_app_nth)
  with Suc a assms show ?case by (simp add: consecutive_snoc numbered_source_def)
qed simp

lemma source_member:
  assumes "numbered_source src" and "b \<in> set src"
  shows "length b = ITCHTradeMsgSize \<and> unat (msg_seq b) < length src \<and> src ! unat (msg_seq b) = b"
proof -
  obtain k where k: "k < length src" "src ! k = b" using assms(2) by (auto simp: in_set_conv_nth)
  then have "k < 2 ^ 64" using assms(1) by (simp add: numbered_source_def)
  then have "unat (of_nat k :: u64) = k" by (simp add: unat_of_nat)
  with k assms(1) show ?thesis by (auto simp: numbered_source_def)
qed

context sequencer
begin

text \<open>A recovery of the range up to \<open>s\<close> from a source that has it.\<close>

lemma recover_prompt:
  assumes src: "numbered_source src" "serves env src" "unat s < length src" and less: "sd_next st < s"
    and inv: "seq_ok st" "sd_tcp st = []" "\<forall>e \<in> set (sd_events st). prompt e"
  defines "bs \<equiv> take (unat s - unat (sd_next st)) (drop (unat (sd_next st)) src)"
    and "rq \<equiv> sd_requests st @ [\<lparr>req_type = 48, start_seq = sd_next st, end_seq = s - 1\<rparr>]"
  shows "length bs = unat s - unat (sd_next st)"
    and "recover S P env (sd_next st) (s - 1) st = Inr st' \<Longrightarrow>
      seq_ok st' \<and> received_all bs (st\<lparr>sd_requests := rq\<rparr>) st' \<and> sd_tcp st' = [] \<and> (\<forall>e \<in> set (sd_events st'). prompt e)"
    and "\<forall>n. send_result env n = int GapRequestMsgSize \<and> epoll_result env n \<ge> 0 \<and> ctl_result env n \<ge> 0 \<Longrightarrow>
      length bs \<le> length (filter (\<lambda>e. e \<noteq> Timed_Out) (sd_events st)) \<Longrightarrow> length bs \<le> card (free (sd_pool st)) \<Longrightarrow>
      \<exists>st'. recover S P env (sd_next st) (s - 1) st = Inr st'"
proof -
  let ?a = "unat (sd_next st)" and ?n = "unat s - unat (sd_next st)"
  let ?st = "st\<lparr>sd_requests := rq, sd_tcp := concat bs\<rparr>"
  have lt: "?a < unat s" using less by (simp add: word_less_nat_alt)
  show len: "length bs = ?n" using src(3) lt by (simp add: bs_def)
  have s1: "of_nat (unat s - 1) = s - 1" using lt by (simp add: of_nat_diff)
  have "answer env \<lparr>req_type = 48, start_seq = of_nat ?a, end_seq = of_nat (unat s - 1)\<rparr> =
      concat (take (unat s - 1 + 1 - ?a) (drop ?a src))"
    by (rule src(2) [unfolded serves_def, rule_format]) (use lt src(3) in linarith)+
  moreover have "unat s - 1 + 1 = unat s" using lt by linarith
  ultimately have ans: "answer env \<lparr>req_type = 48, start_seq = sd_next st, end_seq = s - 1\<rparr> = concat bs"
    using s1 by (simp only: bs_def u64_of_unat)
  have cons: "consecutive (sd_next ?st) bs"
    using consecutive_source [OF src(1), of ?a ?n] src(3) lt by (simp add: bs_def)
  have num: "unat (0 :: u64) + length bs = unat (s - 1 - sd_next st + 1)"
    using len less by (simp add: unat_sub_if_size word_less_nat_alt)
  have ok: "seq_ok ?st" using inv(1) by (simp add: seq_ok_def room_def)
  have evs: "\<forall>e \<in> set (sd_events st). prompt e" "sd_tcp ?st = concat bs" using inv(3) by simp_all
  have rec: "recover S P env (sd_next st) (s - 1) st =
    (if send_result env (length (sd_requests st)) \<noteq> int GapRequestMsgSize
     then Inl (Throw (Runtime_Error ''Failed to send full recovery request at sendRecoveryRequest''))
     else receiveRecoveryMessages S P (epoll_result env (length (sd_requests st))) (ctl_result env (length (sd_requests st)))
       (sd_next st) (s - 1) ?st)"
    using inv(2) ans by (simp add: recover_def sendRecoveryRequest_def Let_def rq_def)
  show "\<exists>st'. recover S P env (sd_next st) (s - 1) st = Inr st'"
    if "\<forall>n. send_result env n = int GapRequestMsgSize \<and> epoll_result env n \<ge> 0 \<and> ctl_result env n \<ge> 0"
      "length bs \<le> length (filter (\<lambda>e. e \<noteq> Timed_Out) (sd_events st))" "length bs \<le> card (free (sd_pool st))"
  proof -
    have "\<not> epoll_result env n < 0" "\<not> ctl_result env n < 0" for n using that(1) by (simp_all add: not_less)
    moreover have "\<exists>st'. receive_loop S P (sd_events st) 0 (s - 1 - sd_next st + 1) ?st = Inr st'"
      by (rule receive_loop_returns [OF evs(1) ok cons evs(2) num]) (use that in simp_all)
    ultimately show ?thesis using that(1) by (simp add: rec receiveRecoveryMessages_def)
  qed
  assume run: "recover S P env (sd_next st) (s - 1) st = Inr st'"
  have loop: "receive_loop S P (sd_events st) 0 (s - 1 - sd_next st + 1) ?st = Inr st'"
    using run unfolding rec receiveRecoveryMessages_def by (auto simp: res_bind_Inr_iff split: if_splits)
  from receive_loop_prompt [OF evs(1) ok cons evs(2) num loop]
  show "seq_ok st' \<and> received_all bs (st\<lparr>sd_requests := rq\<rparr>) st' \<and> sd_tcp st' = [] \<and> (\<forall>e \<in> set (sd_events st'). prompt e)"
    by (simp add: received_all_def)
qed

text \<open>
  What one round appends to the queue to the consumer: the next trades of the source, in
  messages that were free or came from the receiver.
\<close>

definition appends :: "bytes list \<Rightarrow> nat set \<Rightarrow> ('rq, 'sq, 'p) seq_state \<Rightarrow> ('rq, 'sq, 'p) seq_state \<Rightarrow> bool" where
  "appends src came st st' \<longleftrightarrow> (\<exists>js. scont (sd_send st') = scont (sd_send st) @ js \<and>
     unat (sd_next st') = unat (sd_next st) + length js \<and> unat (sd_next st') \<le> length src \<and>
     map (sd_mem st') js = take (length js) (drop (unat (sd_next st)) src) \<and>
     distinct js \<and> set js \<inter> free (sd_pool st') = {} \<and> set js \<union> free (sd_pool st') = free (sd_pool st) \<union> came) \<and>
   (\<forall>i. i \<notin> free (sd_pool st) \<longrightarrow> sd_mem st' i = sd_mem st i) \<and>
   size (sd_pool st') = size (sd_pool st) \<and> scap (sd_send st') = scap (sd_send st) \<and> sd_recv st' = sd_recv st"

lemma appends_nothing:
  assumes "sd_send st' = sd_send st" and "sd_next st' = sd_next st" and "sd_recv st' = sd_recv st"
    and "free (sd_pool st') = free (sd_pool st) \<union> came" and "sd_mem st' = sd_mem st"
    and "size (sd_pool st') = size (sd_pool st)" and "unat (sd_next st) \<le> length src"
  shows "appends src came st st'"
  unfolding appends_def using assms by (intro conjI exI [of _ "[]"]) auto

text \<open>Forwarding the message with the next number.\<close>

lemma forward_spec:
  assumes src: "numbered_source src" "sd_mem st i = src ! unat (sd_next st)" "unat (sd_next st) < length src"
    and ok: "seq_ok st" and i: "i \<notin> free (sd_pool st)"
    and rm: "length (scont (sd_send st)) + card (free (sd_pool st)) < scap (sd_send st)"
  shows "\<exists>st'. forward S i st = Inr st' \<and> seq_ok st' \<and> appends src {i} st st' \<and> sd_tcp st' = sd_tcp st \<and>
    sd_events st' = sd_events st"
proof -
  have "length (scont (sd_send st)) < scap (sd_send st)" using rm by linarith
  then obtain q where q: "enqueue_op S (sd_send st) i = Inr (True, q)" "sinv 0 q" "scap q = scap (sd_send st)"
    "scont q = scont (sd_send st) @ [i]"
    using S.enqueue_step [of 0 "sd_send st" i] ok by (auto simp: seq_ok_def)
  let ?s = "st\<lparr>sd_send := q, sd_next := sd_next st + 1\<rparr>"
  have "length src < 2 ^ 64" using src(1) by (simp add: numbered_source_def)
  then have "sd_next st < of_nat (length src)"
    using src(3) by (simp add: word_less_nat_alt unat_of_nat)
  then have nxt: "unat (sd_next st + 1) = Suc (unat (sd_next st))" by (rule unat_Suc_less)
  have "take (Suc 0) (drop (unat (sd_next st)) src) = [src ! unat (sd_next st)]"
    using src(3) by (simp add: take_Suc_conv_app_nth)
  then have "appends src {i} st ?s" unfolding appends_def
    using q(3,4) nxt src(2,3) i by (intro conjI exI [of _ "[i]"]) auto
  moreover have "seq_ok ?s" using ok q rm by (simp add: seq_ok_def room_def)
  ultimately show ?thesis using q(1) by (simp add: forward_def)
qed

text \<open>A recovery and the message that showed the gap.\<close>

lemma received_facts:
  assumes bs: "received_all (take (unat s - unat (sd_next st)) (drop (unat (sd_next st)) src)) st st1"
    and src: "unat s < length src" "sd_next st < s" and fin: "finite (free (sd_pool st))" and i: "i \<notin> free (sd_pool st)"
  shows "sd_next st1 = s" and "sd_mem st1 i = sd_mem st i" and "i \<notin> free (sd_pool st1)" and "scap (sd_send st1) = scap (sd_send st)"
    and "length (scont (sd_send st1)) + card (free (sd_pool st1)) = length (scont (sd_send st)) + card (free (sd_pool st))"
proof -
  let ?a = "unat (sd_next st)" and ?bs = "take (unat s - unat (sd_next st)) (drop (unat (sd_next st)) src)"
  have lt: "?a < unat s" using src(2) by (simp add: word_less_nat_alt)
  have len: "length ?bs = unat s - ?a" using src(1) lt by simp
  from bs obtain js where js: "scont (sd_send st1) = scont (sd_send st) @ js" "distinct js"
    "set js \<subseteq> free (sd_pool st)" "free (sd_pool st1) = free (sd_pool st) - set js"
    "\<forall>i. i \<notin> free (sd_pool st) \<longrightarrow> sd_mem st1 i = sd_mem st i"
    and rest: "scap (sd_send st1) = scap (sd_send st)" "sd_next st1 = sd_next st + of_nat (unat s - ?a)"
    unfolding received_all_def len by blast
  show "sd_next st1 = s" using rest(2) lt by (simp add: of_nat_diff)
  show "sd_mem st1 i = sd_mem st i" "i \<notin> free (sd_pool st1)" using js(4,5) i by simp_all
  show "scap (sd_send st1) = scap (sd_send st)" by (rule rest(1))
  have "length js + card (free (sd_pool st1)) = card (free (sd_pool st))"
    using js(2-4) fin by (metis card_Diff_subset card_mono distinct_card finite_set le_add_diff_inverse)
  then show "length (scont (sd_send st1)) + card (free (sd_pool st1)) = length (scont (sd_send st)) + card (free (sd_pool st))"
    using js(1) by simp
qed

lemma recovered_appends:
  assumes bs: "received_all (take (unat s - unat (sd_next st)) (drop (unat (sd_next st)) src)) st st1"
    and src: "unat s < length src" "sd_next st < s" and i: "i \<notin> free (sd_pool st)" and nxt: "sd_next st1 = s"
    and fwd: "appends src {i} st1 st'"
  shows "appends src {i} st st'"
proof -
  let ?a = "unat (sd_next st)" and ?bs = "take (unat s - unat (sd_next st)) (drop (unat (sd_next st)) src)"
  have lt: "?a < unat s" using src(2) by (simp add: word_less_nat_alt)
  from bs obtain js where js: "scont (sd_send st1) = scont (sd_send st) @ js" "map (sd_mem st1) js = ?bs" "distinct js"
    "set js \<subseteq> free (sd_pool st)" "free (sd_pool st1) = free (sd_pool st) - set js"
    "\<forall>i. i \<notin> free (sd_pool st) \<longrightarrow> sd_mem st1 i = sd_mem st i"
    and rest: "size (sd_pool st1) = size (sd_pool st)" "scap (sd_send st1) = scap (sd_send st)" "sd_recv st1 = sd_recv st"
    unfolding received_all_def by blast
  have "length ?bs = unat s - ?a" using src(1) lt by simp
  then have ljs: "length js = unat s - ?a" using js(2) by (metis length_map)
  from fwd obtain ks where ks: "scont (sd_send st') = scont (sd_send st1) @ ks" "unat (sd_next st') = unat s + length ks"
    "unat (sd_next st') \<le> length src" "map (sd_mem st') ks = take (length ks) (drop (unat s) src)" "distinct ks"
    "set ks \<inter> free (sd_pool st') = {}" "set ks \<union> free (sd_pool st') = free (sd_pool st1) \<union> {i}"
    "\<forall>i. i \<notin> free (sd_pool st1) \<longrightarrow> sd_mem st' i = sd_mem st1 i"
    and rest': "size (sd_pool st') = size (sd_pool st1)" "scap (sd_send st') = scap (sd_send st1)" "sd_recv st' = sd_recv st1"
    unfolding appends_def nxt by blast
  have "map (sd_mem st') js = ?bs" using js(2,5) ks(8) by (auto intro: map_cong [OF refl] simp flip: js(2))
  moreover have "take (unat s - ?a + length ks) (drop ?a src) = ?bs @ take (length ks) (drop (unat s) src)"
    unfolding take_add drop_drop using lt by simp
  ultimately have "map (sd_mem st') (js @ ks) = take (length (js @ ks)) (drop ?a src)"
    by (simp only: map_append ks(4) length_append ljs)
  moreover have "distinct (js @ ks)" using js(3,4) ks(5,7) js(5) i by auto
  moreover have "set (js @ ks) \<inter> free (sd_pool st') = {}" using js(4,5) ks(6,7) i by auto
  moreover have "set (js @ ks) \<union> free (sd_pool st') = free (sd_pool st) \<union> {i}" using js(4,5) ks(7) by auto
  moreover have "unat (sd_next st') = ?a + length (js @ ks)" using ks(2) ljs lt by simp
  moreover have "scont (sd_send st') = scont (sd_send st) @ (js @ ks)" using js(1) ks(1) by simp
  moreover have "\<forall>i. i \<notin> free (sd_pool st) \<longrightarrow> sd_mem st' i = sd_mem st i" using js(5,6) ks(8) by auto
  ultimately show ?thesis
    unfolding appends_def using rest rest' ks(3) by (intro conjI exI [of _ "js @ ks"]) simp_all
qed

lemma appends_requests: "appends src came (st\<lparr>sd_requests := rq\<rparr>) st' = appends src came st st'"
  by (simp add: appends_def)

lemma appends_recv: "appends src came (st\<lparr>sd_recv := q\<rparr>) st' \<longleftrightarrow>
   (\<exists>js. scont (sd_send st') = scont (sd_send st) @ js \<and>
     unat (sd_next st') = unat (sd_next st) + length js \<and> unat (sd_next st') \<le> length src \<and>
     map (sd_mem st') js = take (length js) (drop (unat (sd_next st)) src) \<and>
     distinct js \<and> set js \<inter> free (sd_pool st') = {} \<and> set js \<union> free (sd_pool st') = free (sd_pool st) \<union> came) \<and>
   (\<forall>i. i \<notin> free (sd_pool st) \<longrightarrow> sd_mem st' i = sd_mem st i) \<and>
   size (sd_pool st') = size (sd_pool st) \<and> scap (sd_send st') = scap (sd_send st) \<and> sd_recv st' = q"
  by (simp add: appends_def)

text \<open>One round of the sequencer, when it returns.\<close>

lemma seq_round_spec:
  assumes src: "numbered_source src" "serves env src"
    and ok: "rinv 0 (sd_recv st)" "seq_ok st" "sd_tcp st = []" "\<forall>e \<in> set (sd_events st). prompt e"
    and rm: "length (scont (sd_send st)) + card (free (sd_pool st)) + length (rcont (sd_recv st)) \<le> scap (sd_send st)"
    and recv: "\<forall>i \<in> set (rcont (sd_recv st)). i \<notin> free (sd_pool st) \<and> i < size (sd_pool st) \<and> sd_mem st i \<in> set src"
    and nxt: "unat (sd_next st) \<le> length src"
    and run: "seq_round R S P env st = Inr st'"
  shows "rinv 0 (sd_recv st') \<and> rcont (sd_recv st') = tl (rcont (sd_recv st)) \<and> seq_ok st' \<and> sd_tcp st' = [] \<and>
    (\<forall>e \<in> set (sd_events st'). prompt e) \<and>
    (\<exists>q. appends src (if rcont (sd_recv st) = [] then {} else {hd (rcont (sd_recv st))}) (st\<lparr>sd_recv := q\<rparr>) st')"
proof -
  obtain q where q: "dequeue_op R (sd_recv st) = Inr (if rcont (sd_recv st) = [] then None else Some (hd (rcont (sd_recv st))), q)"
    "rinv 0 q" "rcont q = tl (rcont (sd_recv st))"
    using R.dequeue_step [OF ok(1)] by blast
  let ?st = "st\<lparr>sd_recv := q\<rparr>"
  have ok1: "seq_ok ?st" using ok(2) by (simp add: seq_ok_def room_def)
  show ?thesis
  proof (cases "rcont (sd_recv st)")
    case Nil
    then have "st' = ?st" using run q(1) by (simp add: seq_round_def)
    with Nil q ok ok1 appends_nothing [of ?st ?st "{}" src] nxt show ?thesis by auto
  next
    case (Cons i rest)
    let ?s = "msg_seq (sd_mem st i)"
    have i: "i \<notin> free (sd_pool st)" "i < size (sd_pool st)" "sd_mem st i \<in> set src" using recv Cons by auto
    note mem = source_member [OF src(1) i(3)]
    have fin: "finite (free (sd_pool st))" using ok(2) by (simp add: seq_ok_def room_def)
    have rm1: "length (scont (sd_send ?st)) + card (free (sd_pool ?st)) < scap (sd_send ?st)" using rm Cons by simp
    consider (less) "?s < sd_next st" | (eq) "?s = sd_next st" | (gr) "sd_next st < ?s" by fastforce
    then show ?thesis
    proof cases
      case less
      obtain p where p: "deallocate_op P (sd_pool st) (Some i) = Inr p" "pinv p" "free p = insert i (free (sd_pool st))"
        "size p = size (sd_pool st)"
        using P.deallocate [of "sd_pool st" i] ok(2) i by (auto simp: seq_ok_def)
      moreover have "\<not> sd_next st < ?s" using less by simp
      ultimately have "st' = ?st\<lparr>sd_pool := p\<rparr>" using run q(1) Cons less by (simp add: seq_round_def Let_def)
      moreover have "seq_ok (?st\<lparr>sd_pool := p\<rparr>)" using ok1 p rm1 fin i(1) by (simp add: seq_ok_def room_def)
      ultimately show ?thesis using q p ok Cons nxt appends_nothing [of "?st\<lparr>sd_pool := p\<rparr>" ?st "{i}" src] by auto
    next
      case eq
      then have "forward S i ?st = Inr st'" using run q(1) Cons by (simp add: seq_round_def Let_def)
      then have "seq_ok st' \<and> appends src {i} ?st st' \<and> sd_tcp st' = sd_tcp ?st \<and> sd_events st' = sd_events ?st"
        using forward_spec [OF src(1) _ _ ok1 _ rm1, of i] mem eq i(1) by auto
      moreover from this have "sd_recv st' = q" by (simp add: appends_def)
      ultimately show ?thesis using q ok Cons by auto
    next
      case gr
      with run q(1) Cons obtain st1 where st1: "recover S P env (sd_next ?st) (?s - 1) ?st = Inr st1" "forward S i st1 = Inr st'"
        by (auto simp: seq_round_def Let_def res_bind_Inr_iff dest: order.asym)
      have tcp: "sd_next ?st < ?s" "sd_tcp ?st = []" "\<forall>e \<in> set (sd_events ?st). prompt e" using gr ok by simp_all
      obtain rq where r: "seq_ok st1" "received_all (take (unat ?s - unat (sd_next ?st)) (drop (unat (sd_next ?st)) src))
          (?st\<lparr>sd_requests := rq\<rparr>) st1" "sd_tcp st1 = []" "\<forall>e \<in> set (sd_events st1). prompt e"
        using recover_prompt(2) [OF src conjunct1 [OF conjunct2 [OF mem]] tcp(1) ok1 tcp(2,3) st1(1)] by blast
      let ?st2 = "?st\<lparr>sd_requests := rq\<rparr>"
      have next2: "sd_next ?st2 < ?s" "finite (free (sd_pool ?st2))" "i \<notin> free (sd_pool ?st2)" using gr fin i by simp_all
      have rec2: "received_all (take (unat ?s - unat (sd_next ?st2)) (drop (unat (sd_next ?st2)) src)) ?st2 st1" using r(2) by simp
      have s: "unat ?s < length src" using mem by blast
      note f = received_facts [OF rec2 s next2]
      have "sd_mem st1 i = src ! unat (sd_next st1)" "unat (sd_next st1) < length src" using f(1,2) mem by simp_all
      moreover have "length (scont (sd_send st1)) + card (free (sd_pool st1)) < scap (sd_send st1)" using f(4,5) rm1 by simp
      ultimately have fwd: "seq_ok st' \<and> appends src {i} st1 st' \<and> sd_tcp st' = sd_tcp st1 \<and> sd_events st' = sd_events st1"
        using forward_spec [OF src(1) _ _ r(1) f(3)] st1(2) by fastforce
      then have app: "appends src {i} ?st2 st'" using recovered_appends [OF rec2 s next2(1,3) f(1)] by blast
      then have "sd_recv st' = q" by (simp add: appends_def)
      moreover have "appends src {i} ?st st'" using app unfolding appends_requests .
      ultimately show ?thesis using fwd r(3,4) q Cons by auto
    qed
  qed
qed

end

end
