(* ===== verification/TradeServer.thy ===== *)
theory TradeServer
  imports TradeStore
begin

text \<open>
  include/TradeServer.hpp: the snapshot server that answers gap requests over TCP, the multicast
  server that sends the whole store, and the class that starts them. What is sent is recorded as
  the calls of \<^verbatim>\<open>send\<close> with a message, in order; the program does not look at their results. A
  call with a null pointer fails with \<^verbatim>\<open>EFAULT\<close>, sends nothing and is not recorded.
\<close>

section \<open>Setting up\<close>

definition createSnapshotServer :: "int \<Rightarrow> int \<Rightarrow> int \<Rightarrow> int \<Rightarrow> int \<Rightarrow> int \<Rightarrow> unit res" where
  "createSnapshotServer serverFD opt bnd lis epollFD ctl = checked_calls
    [(serverFD, ''Failed to create SnapshotServer socket''), (opt, ''setsockopt SnapshotServer failed''),
     (bnd, ''bind SnapshotServer failed''), (lis, ''listen SnapshotServer failed''),
     (epollFD, ''epoll_create1 SnapshotServer failed''), (ctl, ''epoll_ctl SnapshotServer failed'')]"

definition createMulticastServer :: "int \<Rightarrow> unit res" where
  "createMulticastServer serverFD = checked_calls [(serverFD, ''Failed to create MulticastServer socket'')]"

section \<open>Answering a gap request\<close>

text \<open>
  \<^verbatim>\<open>for (int i = start; i <= end; ++i) send(fd, get(i), ...)\<close>: \<open>i\<close> is an \<^verbatim>\<open>int\<close>, converted
  to 64 bits for the comparison and the index. Incrementing the largest \<^verbatim>\<open>int\<close> is undefined.
\<close>

function gap_sends :: "'d itch_msg list \<Rightarrow> int \<Rightarrow> u64 \<Rightarrow> 'd itch_msg list res" where
  "gap_sends store i till = (if \<not> of_int i \<le> till then Inr []
     else if i \<ge> 2 ^ 31 - 1 then Inl (UB Signed_Overflow)
     else res_bind (gap_sends store (i + 1) till) (\<lambda>rest.
       Inr (case store_get store (unat (of_int i :: u64)) of None \<Rightarrow> rest | Some m \<Rightarrow> m # rest)))"
  by pat_completeness auto

termination gap_sends
  by (relation "measure (\<lambda>(store, i, till). nat (2 ^ 31 - 1 - i))") auto

declare gap_sends.simps [simp del]

text \<open>An invalid range is reported and then served like any other.\<close>

definition invalid_gap :: "'d itch_msg list \<Rightarrow> gap_request \<Rightarrow> bool" where
  "invalid_gap store r \<longleftrightarrow> start_seq r > end_seq r \<or> unat (end_seq r) \<ge> length store"

definition serveGapRequest :: "'d itch_msg list \<Rightarrow> gap_request \<Rightarrow> 'd itch_msg list res" where
  "serveGapRequest store r = gap_sends store (sint (ucast (start_seq r) :: 32 word)) (end_seq r)"

text \<open>\<^verbatim>\<open>for (int i = 0; i < size(); ++i)\<close>.\<close>

function all_sends :: "'d itch_msg list \<Rightarrow> nat \<Rightarrow> (nat \<Rightarrow> bool) \<Rightarrow> 'd itch_msg list res" where
  "all_sends store i sent = (if i \<ge> length store then Inr []
     else if i \<ge> 2 ^ 31 - 1 then Inl (UB Signed_Overflow)
     else res_bind (all_sends store (Suc i) sent) (\<lambda>rest. Inr (if sent i then store ! i # rest else rest)))"
  by pat_completeness auto

termination all_sends
  by (relation "measure (\<lambda>(store, i, sent). length store - i)") auto

declare all_sends.simps [simp del]

definition replayAll :: "'d itch_msg list \<Rightarrow> 'd itch_msg list res" where
  "replayAll store = all_sends store 0 (\<lambda>_. True)"

section \<open>The event loop of the snapshot server\<close>

text \<open>
  What \<^verbatim>\<open>epoll_wait\<close> reports for one descriptor, with the results of the calls the handler
  makes: \<^verbatim>\<open>accept\<close> and \<^verbatim>\<open>epoll_ctl\<close> on the listening socket, \<^verbatim>\<open>read\<close> on a client
  (\<open>None\<close> for a result that is not positive).
\<close>

datatype snap_event = On_Listen int int | On_Client int "bytes option"

record 'd snap_state =
  sn_clients :: "int list"
  sn_closed :: "int list"
  sn_sent :: "(int \<times> 'd itch_msg) list"

definition snap_init :: "'d snap_state" where
  "snap_init = \<lparr>sn_clients = [], sn_closed = [], sn_sent = []\<rparr>"

definition snap_send :: "int \<Rightarrow> 'd itch_msg list \<Rightarrow> 'd snap_state \<Rightarrow> 'd snap_state" where
  "snap_send fd ms s = s\<lparr>sn_sent := sn_sent s @ map (\<lambda>m. (fd, m)) ms\<rparr>"

definition handle_request :: "'d itch_msg list \<Rightarrow> int \<Rightarrow> gap_request \<Rightarrow> 'd snap_state \<Rightarrow> 'd snap_state res" where
  "handle_request store fd r s =
    (if req_type r = 48 then res_bind (serveGapRequest store r) (\<lambda>ms. Inr (snap_send fd ms s))
     else if req_type r = 49 then res_bind (replayAll store) (\<lambda>ms. Inr (snap_send fd ms s))
     else Inr s)"

definition handle_event :: "'d itch_msg list \<Rightarrow> snap_event \<Rightarrow> 'd snap_state \<Rightarrow> 'd snap_state res" where
  "handle_event store ev s = (case ev of
      On_Listen client_fd ctl \<Rightarrow>
        if client_fd < 0 then Inr s
        else if ctl < 0 then Inr (s\<lparr>sn_closed := sn_closed s @ [client_fd]\<rparr>)
        else Inr (s\<lparr>sn_clients := sn_clients s @ [client_fd]\<rparr>)
    | On_Client fd data \<Rightarrow> (case data of
        None \<Rightarrow> Inr (s\<lparr>sn_clients := removeAll fd (sn_clients s), sn_closed := sn_closed s @ [fd]\<rparr>)
      | Some bs \<Rightarrow>
          if length bs \<noteq> GapRequestMsgSize then Inr s
          else handle_request store fd (decode_gap bs) s))"

text \<open>
  The loop over the results of \<^verbatim>\<open>epoll_wait\<close>: a list of events, an interruption by a signal
  (\<open>Inl True\<close>), or another error, which throws.
\<close>

fun handle_events :: "'d itch_msg list \<Rightarrow> snap_event list \<Rightarrow> 'd snap_state \<Rightarrow> 'd snap_state res" where
  "handle_events store [] s = Inr s"
| "handle_events store (ev # evs) s = res_bind (handle_event store ev s) (handle_events store evs)"

fun serveClients :: "'d itch_msg list \<Rightarrow> (bool + snap_event list) list \<Rightarrow> 'd snap_state \<Rightarrow> 'd snap_state res" where
  "serveClients store [] s = Inr s"
| "serveClients store (Inl eintr # ws) s =
    (if eintr then serveClients store ws s else Inl (Throw (Runtime_Error ''epoll_wait SnapshotServer failed'')))"
| "serveClients store (Inr evs # ws) s = res_bind (handle_events store evs s) (serveClients store ws)"

section \<open>The multicast server and the threads\<close>

text \<open>\<open>gaps\<close> is \<^verbatim>\<open>createMulticastGap\<close>; \<open>ok i\<close> says that \<^verbatim>\<open>sendto\<close> of message \<open>i\<close> succeeds.\<close>

definition multicast_skips :: "nat \<Rightarrow> bool" where
  "multicast_skips i \<longleftrightarrow> (i + 1) mod 1000 = 0 \<or> (i + 2) mod 1000 = 0"

definition multicast_serve :: "bool \<Rightarrow> (nat \<Rightarrow> bool) \<Rightarrow> 'd itch_msg list \<Rightarrow> 'd itch_msg list res" where
  "multicast_serve gaps ok store = all_sends store 0 (\<lambda>i. \<not> (gaps \<and> multicast_skips i) \<and> ok i)"

text \<open>What each server does on its thread: set up, then serve. The result is what was sent.\<close>

definition snapshot_run :: "int \<Rightarrow> int \<Rightarrow> int \<Rightarrow> int \<Rightarrow> int \<Rightarrow> int \<Rightarrow> 'd itch_msg list \<Rightarrow> (bool + snap_event list) list \<Rightarrow>
    'd snap_state res" where
  "snapshot_run serverFD opt bnd lis epollFD ctl store waits = res_bind (createSnapshotServer serverFD opt bnd lis epollFD ctl)
     (\<lambda>_. serveClients store waits snap_init)"

definition createMulticastGap :: bool where
  "createMulticastGap = False"

definition multicast_run :: "int \<Rightarrow> (nat \<Rightarrow> bool) \<Rightarrow> 'd itch_msg list \<Rightarrow> 'd itch_msg list res" where
  "multicast_run serverFD ok store = res_bind (createMulticastServer serverFD) (\<lambda>_. multicast_serve createMulticastGap ok store)"

record 'd trade_server =
  ts_store :: "'d itch_msg list"
  ts_need_snapshot :: bool

definition trade_server_of_file :: "(string \<Rightarrow> 'd res) \<Rightarrow> string \<Rightarrow> string option \<Rightarrow> bool \<Rightarrow> 'd trade_server res" where
  "trade_server_of_file stod tradeFile content need = res_bind (store_of_file stod tradeFile content)
     (\<lambda>store. Inr \<lparr>ts_store = store, ts_need_snapshot = need\<rparr>)"

definition trade_server_of_dir :: "(string \<Rightarrow> 'd res) \<Rightarrow> ('d itch_msg list \<Rightarrow> 'd itch_msg list) \<Rightarrow> dir_entry list \<Rightarrow> bool \<Rightarrow>
    'd trade_server res" where
  "trade_server_of_dir stod srt entries need = res_bind (store_of_dir stod srt entries)
     (\<lambda>store. Inr \<lparr>ts_store = store, ts_need_snapshot = need\<rparr>)"

datatype server_thread = Snapshot_Thread | Multicast_Thread

definition trade_server_run :: "bool \<Rightarrow> server_thread list" where
  "trade_server_run needSnapshotServer = (if needSnapshotServer then [Snapshot_Thread] else []) @ [Multicast_Thread]"

section \<open>What is sent\<close>

lemma of_int_u64_small: "0 \<le> i \<Longrightarrow> i < 2 ^ 63 \<Longrightarrow> unat (of_int i :: u64) = nat i"
  by (simp add: unsigned_of_int take_bit_int_eq_self)

lemma of_int_nat_small: "i < 2 ^ 63 \<Longrightarrow> unat (of_int (int i) :: u64) = i"
  by (simp add: unsigned_of_nat take_bit_nat_eq_self)

text \<open>From a position below \<open>2 ^ 31\<close> on, the loop delivers what the store has in the range.\<close>

lemma gap_sends_range:
  assumes "unat till < 2 ^ 31 - 1"
  shows "n = unat till + 1 - i \<Longrightarrow> i \<le> unat till + 1 \<Longrightarrow>
    gap_sends store (int i) till = Inr (take (unat till + 1 - i) (drop i store))"
proof (induction n arbitrary: i)
  case 0
  then have i: "i = unat till + 1" by linarith
  have "unat (of_int (int i) :: u64) = i" using i assms by (intro of_int_nat_small) simp
  with i have "\<not> (of_int (int i) :: u64) \<le> till" unfolding word_le_nat_alt by linarith
  with 0 show ?case by (subst gap_sends.simps) simp
next
  case (Suc n)
  then have i: "i \<le> unat till" by simp
  have u: "unat (of_int (int i) :: u64) = i" using i assms by (intro of_int_nat_small) simp
  then have c: "(of_int (int i) :: u64) \<le> till" using i by (simp add: word_le_nat_alt)
  have "\<not> int i \<ge> 2 ^ 31 - 1" using i assms by simp
  moreover have "gap_sends store (int i + 1) till = Inr (take (unat till - i) (drop (Suc i) store))"
    using Suc.IH [of "Suc i"] Suc.prems by (simp add: add.commute)
  moreover have "unat till + 1 - i = Suc (unat till - i)" using i by simp
  moreover have "(case store_get store i of None \<Rightarrow> take (unat till - i) (drop (Suc i) store)
      | Some m \<Rightarrow> m # take (unat till - i) (drop (Suc i) store)) = take (Suc (unat till - i)) (drop i store)"
    using Cons_nth_drop_Suc [of i store] by (cases "i < length store") (auto simp: store_get_def simp flip: take_Suc_Cons)
  ultimately show ?case using c u by (subst gap_sends.simps) simp
qed

lemma gap_sends_overflow:
  assumes "2 ^ 31 - 1 \<le> unat till"
  shows "n = nat (2 ^ 31 - 1 - i) \<Longrightarrow> 0 \<le> i \<Longrightarrow> i < 2 ^ 31 \<Longrightarrow> gap_sends store i till = Inl (UB Signed_Overflow)"
proof (induction n arbitrary: i)
  case 0
  then have "i = 2 ^ 31 - 1" by simp
  moreover from this have "(of_int i :: u64) \<le> till"
    using assms by (simp add: word_le_nat_alt)
  ultimately show ?case by (subst gap_sends.simps) simp
next
  case (Suc n)
  then have i: "i < 2 ^ 31 - 1" by simp
  then have "(of_int i :: u64) \<le> till"
    using assms Suc.prems(2) of_int_u64_small [of i] by (simp add: word_le_nat_alt)
  moreover have "gap_sends store (i + 1) till = Inl (UB Signed_Overflow)"
    using Suc.IH [of "i + 1"] Suc.prems(1,2) i by simp
  ultimately show ?case using i by (subst gap_sends.simps) simp
qed

lemma all_sends_filter:
  assumes "length store < 2 ^ 31"
  shows "n = length store - i \<Longrightarrow> i \<le> length store \<Longrightarrow>
    all_sends store i sent = Inr (map ((!) store) (filter sent [i..<length store]))"
proof (induction n arbitrary: i)
  case 0
  then show ?case by (subst all_sends.simps) simp
next
  case (Suc n)
  then have i: "i < length store" by simp
  have "all_sends store (Suc i) sent = Inr (map ((!) store) (filter sent [Suc i..<length store]))"
    using Suc.IH [of "Suc i"] Suc.prems by simp
  with i assms show ?case by (subst all_sends.simps) (simp add: upt_conv_Cons [OF i])
qed

section \<open>Properties\<close>

lemma uint_less_2p31: "unat (start :: u64) < 2 ^ 31 \<Longrightarrow> uint start < 2 ^ 31"
proof -
  assume "unat start < 2 ^ 31"
  then have "int (unat start) < int (2 ^ 31)" by (simp only: of_nat_less_iff)
  then show ?thesis by simp
qed

lemma int_of_start:
  assumes "unat (start :: u64) < 2 ^ 31"
  shows "sint (ucast start :: 32 word) = int (unat start)"
proof -
  have "- (2 ^ 31) \<le> (0 :: int)" by simp
  also have "0 \<le> uint start" by simp
  finally have "signed_take_bit 31 (uint start) = uint start"
    using uint_less_2p31 [OF assms] by (rule signed_take_bit_int_eq_self)
  then show ?thesis by (simp add: signed_ucast_eq)
qed

text \<open>
  C13: For a store of fewer than \<open>2 ^ 31 - 1\<close> trades, a gap request inside the store is answered
  with exactly the messages of the range, in order; a range that ends behind the store is
  answered with what there is; a replay sends the whole store, and the multicast server sends
  every message once, in order, but those it is configured to leave out or whose datagram fails.
\<close>

theorem server_sends:
  assumes store: "length store < 2 ^ 31 - 1" and range: "unat (end_seq r) < 2 ^ 31 - 1" "start_seq r \<le> end_seq r"
  shows "serveGapRequest store r =
      Inr (take (unat (end_seq r) + 1 - unat (start_seq r)) (drop (unat (start_seq r)) store)) \<and>
    replayAll store = Inr store \<and>
    multicast_serve gaps ok store =
      Inr (map ((!) store) (filter (\<lambda>i. \<not> (gaps \<and> multicast_skips i) \<and> ok i) [0..<length store]))"
proof (intro conjI)
  have le: "unat (start_seq r) \<le> unat (end_seq r)" using range(2) by (simp add: word_le_nat_alt)
  then have "unat (start_seq r) < 2 ^ 31" using range(1) by linarith
  from int_of_start [OF this] le
  show "serveGapRequest store r =
      Inr (take (unat (end_seq r) + 1 - unat (start_seq r)) (drop (unat (start_seq r)) store))"
    using gap_sends_range [OF range(1) refl, of "unat (start_seq r)" store] by (simp add: serveGapRequest_def)
  have len: "length store < 2 ^ 31" using store by linarith
  show "replayAll store = Inr store"
    using all_sends_filter [OF len refl, of 0 "\<lambda>_. True"] by (simp add: replayAll_def map_nth)
  show "multicast_serve gaps ok store =
      Inr (map ((!) store) (filter (\<lambda>i. \<not> (gaps \<and> multicast_skips i) \<and> ok i) [0..<length store]))"
    unfolding multicast_serve_def using all_sends_filter [OF len refl] by simp
qed

lemma server_sends_witness:
  "serveGapRequest [trade_no 0, trade_no 1, trade_no 2, trade_no 3] \<lparr>req_type = 48, start_seq = 1, end_seq = 2\<rparr> =
     Inr [trade_no 1, trade_no 2]"
proof -
  have "serveGapRequest [trade_no 0, trade_no 1, trade_no 2, trade_no 3] \<lparr>req_type = 48, start_seq = 1, end_seq = 2\<rparr> =
     Inr (take (unat (2 :: u64) + 1 - unat (1 :: u64)) (drop (unat (1 :: u64)) [trade_no 0, trade_no 1, trade_no 2, trade_no 3]))"
    using server_sends [of "[trade_no 0, trade_no 1, trade_no 2, trade_no 3]"
        "\<lparr>req_type = 48, start_seq = 1, end_seq = 2\<rparr>" False "\<lambda>_. True"]
    by (simp add: word_le_nat_alt)
  then show ?thesis by simp
qed

text \<open>
  C38: An invalid gap request is reported but served all the same. If its end is \<open>2 ^ 31 - 1\<close> or
  more, as in a request for \<open>0\<close> to \<open>2 ^ 64 - 1\<close>, the \<^verbatim>\<open>int\<close> loop variable overflows, which is
  undefined behaviour a client can cause at will.
\<close>

theorem invalid_gap_request_overflows:
  assumes "length store < 2 ^ 31" and "2 ^ 31 - 1 \<le> unat (end_seq r)" and "unat (start_seq r) < 2 ^ 31"
  shows "invalid_gap store r \<and> serveGapRequest store r = Inl (UB Signed_Overflow)"
proof -
  have "serveGapRequest store r = Inl (UB Signed_Overflow)"
    unfolding serveGapRequest_def int_of_start [OF assms(3)]
    using uint_less_2p31 [OF assms(3)] by (intro gap_sends_overflow [OF assms(2) refl]) simp_all
  moreover have "unat (end_seq r) \<ge> length store" using assms(1,2) by linarith
  ultimately show ?thesis by (simp add: invalid_gap_def)
qed

lemma invalid_gap_request_overflows_witness:
  "serveGapRequest ([] :: nat itch_msg list) \<lparr>req_type = 48, start_seq = 0, end_seq = - 1\<rparr> = Inl (UB Signed_Overflow)"
proof -
  have "unat (- 1 :: u64) = 2 ^ 64 - 1" by (simp add: unsigned_minus_1_eq_mask mask_eq_exp_minus_1)
  then show ?thesis
    using invalid_gap_request_overflows [of "[] :: nat itch_msg list" "\<lparr>req_type = 48, start_seq = 0, end_seq = - 1\<rparr>"] by simp
qed

subsection \<open>What a client is sent for the bytes it writes\<close>

text \<open>
  The answer to the bytes of one \<^verbatim>\<open>read\<close>: for a request of type \<^verbatim>\<open>'0'\<close> the part of the store from
  the lower 32 bits of \<^verbatim>\<open>start_seq\<close> to \<^verbatim>\<open>end_seq\<close>, for type \<^verbatim>\<open>'1'\<close> the whole store, for any other
  type and any other number of bytes nothing. The loop over the range overflows if it ends at
  \<open>2 ^ 31 - 1\<close> or above and is entered or, from a negative start, passes \<open>-1\<close>.
\<close>

definition request_answer :: "'d itch_msg list \<Rightarrow> bytes \<Rightarrow> 'd itch_msg list" where
  "request_answer store bs = (if length bs \<noteq> 17 then [] else
     let first = unat (le_value (member_bytes gap_members ''start_seq'' bs)) mod 2 ^ 32;
         till = unat (le_value (member_bytes gap_members ''end_seq'' bs)) in
     if hd bs = 48 then (if first < 2 ^ 31 then take (till + 1 - first) (drop first store) else [])
     else if hd bs = 49 then store else [])"

definition request_overflows :: "bytes \<Rightarrow> bool" where
  "request_overflows bs \<longleftrightarrow> length bs = 17 \<and> hd bs = 48 \<and>
     (let first = unat (le_value (member_bytes gap_members ''start_seq'' bs)) mod 2 ^ 32;
          till = unat (le_value (member_bytes gap_members ''end_seq'' bs)) in
      2 ^ 31 - 1 \<le> till \<and> (first < 2 ^ 31 \<or> till = 2 ^ 64 - 1))"

fun event_sends :: "'d itch_msg list \<Rightarrow> snap_event \<Rightarrow> (int \<times> 'd itch_msg) list" where
  "event_sends store (On_Client fd (Some bs)) = map (Pair fd) (request_answer store bs)"
| "event_sends store _ = []"

fun event_closes :: "snap_event \<Rightarrow> int list" where
  "event_closes (On_Client fd None) = [fd]"
| "event_closes (On_Listen fd ctl) = (if 0 \<le> fd \<and> ctl < 0 then [fd] else [])"
| "event_closes _ = []"

fun event_overflows :: "snap_event \<Rightarrow> bool" where
  "event_overflows (On_Client fd (Some bs)) = request_overflows bs"
| "event_overflows _ = False"

definition served_events :: "(bool + snap_event list) list \<Rightarrow> snap_event list" where
  "served_events ws = concat (map (case_sum (\<lambda>_. []) (\<lambda>evs. evs)) ws)"

text \<open>The \<^verbatim>\<open>int\<close> loop variable starts at the lower 32 bits of \<^verbatim>\<open>start_seq\<close>, read as signed.\<close>

lemma int_of_any_start:
  fixes start :: u64
  defines "first \<equiv> unat start mod 2 ^ 32"
  shows "sint (ucast start :: 32 word) = (if first < 2 ^ 31 then int first else int first - 2 ^ 32)"
proof -
  have u: "uint start mod 2 ^ 32 = int first" unfolding first_def by (simp add: of_nat_mod)
  have b: "int first < 2 ^ 32" using pos_mod_bound [of "2 ^ 32" "uint start"] unfolding u by simp
  have "sint (ucast start :: 32 word) = (uint start + 2 ^ 31) mod 2 ^ 32 - 2 ^ 31"
    by (simp add: signed_ucast_eq signed_take_bit_eq_take_bit_shift take_bit_eq_mod)
  also have "(uint start + 2 ^ 31) mod 2 ^ 32 = (int first + 2 ^ 31) mod 2 ^ 32"
    unfolding u [symmetric] by (simp only: mod_add_left_eq)
  also have "(int first + 2 ^ 31) mod 2 ^ 32 = (if first < 2 ^ 31 then int first + 2 ^ 31 else int first - 2 ^ 31)"
  proof (cases "first < 2 ^ 31")
    case True
    then have "int first < 2 ^ 31" by simp
    then show ?thesis using True by (simp add: mod_pos_pos_trivial)
  next
    case False
    then have "2 ^ 31 \<le> int first" by simp
    then have "(int first + 2 ^ 31) mod 2 ^ 32 = int first + 2 ^ 31 - 2 ^ 32" using b by (intro int_mod_pos_eq [where q = 1]) simp_all
    then show ?thesis using False by simp
  qed
  finally show ?thesis by simp
qed

text \<open>A negative loop variable is a huge number in the comparison, and an index without a message.\<close>

lemma gap_sends_negative:
  assumes "length store < 2 ^ 31"
  shows "n = nat (- i) \<Longrightarrow> i < 0 \<Longrightarrow> - (2 ^ 31) \<le> i \<Longrightarrow>
    gap_sends store i till = (if unat till = 2 ^ 64 - 1 then Inl (UB Signed_Overflow) else Inr [])"
proof (induction n arbitrary: i)
  case 0
  then show ?case by simp
next
  case (Suc n)
  have u: "unat (of_int i :: u64) = nat (2 ^ 64 + i)"
  proof -
    have "uint (of_int i :: u64) = i mod 2 ^ 64" by (simp add: unsigned_of_int take_bit_eq_mod)
    also have "\<dots> = 2 ^ 64 + i" using Suc.prems(2,3) by (intro int_mod_pos_eq [where q = "-1"]) simp_all
    finally show ?thesis by (metis nat_uint_eq)
  qed
  have top: "unat till < 2 ^ 64" using unsigned_less [of till] by simp
  show ?case
  proof (cases "of_int i \<le> till")
    case False
    moreover have "unat (of_int i :: u64) \<le> 2 ^ 64 - 1" unfolding u using Suc.prems(2) by simp
    ultimately have "unat till \<noteq> 2 ^ 64 - 1" unfolding word_le_nat_alt by linarith
    with False show ?thesis by (subst gap_sends.simps) simp
  next
    case True
    have rest: "gap_sends store (i + 1) till = (if unat till = 2 ^ 64 - 1 then Inl (UB Signed_Overflow) else Inr [])"
    proof (cases "i + 1 < 0")
      case True
      with Suc show ?thesis by simp
    next
      case False
      then have i: "i = - 1" using Suc.prems(2) by simp
      then have "nat (2 ^ 64 + i) \<le> unat till" using \<open>of_int i \<le> till\<close> u by (simp add: word_le_nat_alt)
      then have "unat till = 2 ^ 64 - 1" using top i by simp
      with i gap_sends_overflow [of till _ 0 store, OF _ refl] show ?thesis by simp
    qed
    have "store_get store (unat (of_int i :: u64)) = None"
      unfolding u store_get_def using Suc.prems(3) assms by simp
    with True rest Suc.prems(2) show ?thesis by (subst gap_sends.simps) simp
  qed
qed

lemma serveGapRequest_exact:
  assumes store: "length store < 2 ^ 31"
  shows "serveGapRequest store r = (let first = unat (start_seq r) mod 2 ^ 32; till = unat (end_seq r) in
    if 2 ^ 31 - 1 \<le> till \<and> (first < 2 ^ 31 \<or> till = 2 ^ 64 - 1) then Inl (UB Signed_Overflow)
    else Inr (if first < 2 ^ 31 then take (till + 1 - first) (drop first store) else []))"
proof -
  define first where "first = unat (start_seq r) mod 2 ^ 32"
  define till where "till = unat (end_seq r)"
  have i: "serveGapRequest store r = gap_sends store (if first < 2 ^ 31 then int first else int first - 2 ^ 32) (end_seq r)"
    unfolding serveGapRequest_def int_of_any_start first_def ..
  have b: "first < 2 ^ 32" unfolding first_def by (rule mod_less_divisor) simp
  have "serveGapRequest store r = (if 2 ^ 31 - 1 \<le> till \<and> (first < 2 ^ 31 \<or> till = 2 ^ 64 - 1) then Inl (UB Signed_Overflow)
    else Inr (if first < 2 ^ 31 then take (till + 1 - first) (drop first store) else []))"
  proof (cases "first < 2 ^ 31")
    case False
    moreover from this have "gap_sends store (int first - 2 ^ 32) (end_seq r)
        = (if till = 2 ^ 64 - 1 then Inl (UB Signed_Overflow) else Inr [])"
      unfolding till_def using b by (intro gap_sends_negative [OF store refl]) simp_all
    ultimately show ?thesis using i by simp
  next
    case True
    then have i: "serveGapRequest store r = gap_sends store (int first) (end_seq r)" using i by simp
    consider "2 ^ 31 - 1 \<le> till" | "till < 2 ^ 31 - 1" "first \<le> till + 1" | "till < 2 ^ 31 - 1" "till + 1 < first" by linarith
    then show ?thesis
    proof cases
      case 1
      then show ?thesis using True gap_sends_overflow [of "end_seq r" _ "int first" store, OF _ refl] by (simp add: i till_def)
    next
      case 2
      then show ?thesis using True gap_sends_range [of "end_seq r" _ first store, OF _ refl] by (simp add: i till_def)
    next
      case 3
      have "unat (of_int (int first) :: u64) = first" using True by (intro of_int_nat_small) simp
      then have "\<not> of_int (int first) \<le> end_seq r" using 3(2) unfolding word_le_nat_alt till_def by linarith
      then have "gap_sends store (int first) (end_seq r) = Inr []" by (subst gap_sends.simps) simp
      with 3 True show ?thesis by (simp add: i)
    qed
  qed
  then show ?thesis unfolding Let_def first_def till_def .
qed

lemma handle_event_exact:
  assumes store: "length store < 2 ^ 31"
  shows "returns (handle_event store ev s) = (\<not> event_overflows ev) \<and>
    (\<forall>s'. handle_event store ev s = Inr s' \<longrightarrow>
      sn_sent s' = sn_sent s @ event_sends store ev \<and> sn_closed s' = sn_closed s @ event_closes ev)"
proof (cases ev)
  case (On_Listen fd ctl)
  then show ?thesis by (simp add: handle_event_def)
next
  case (On_Client fd data)
  show ?thesis
  proof (cases data)
    case None
    then show ?thesis using On_Client by (simp add: handle_event_def)
  next
    case (Some bs)
    have ev: "ev = On_Client fd (Some bs)" using On_Client Some by simp
    have replay: "replayAll store = Inr store"
      using all_sends_filter [OF store refl, of 0 "\<lambda>_. True"] by (simp add: replayAll_def map_nth)
    show ?thesis
    proof (cases "length bs = GapRequestMsgSize")
      case False
      then show ?thesis unfolding ev
        by (simp add: handle_event_def request_answer_def request_overflows_def GapRequestMsgSize_def)
    next
      case True
      then have l: "length bs = 17" by (simp add: GapRequestMsgSize_def)
      then have "take 1 bs = [hd bs]" by (cases bs) simp_all
      then have d: "decode_gap bs = \<lparr>req_type = hd bs, start_seq = le_value (member_bytes gap_members ''start_seq'' bs),
          end_seq = le_value (member_bytes gap_members ''end_seq'' bs)\<rparr>"
        using decode_gap_layout [OF True] by (simp add: Let_def gap_members_def)
      have h: "handle_event store ev s = handle_request store fd (decode_gap bs) s"
        unfolding ev handle_event_def using True by simp
      consider "hd bs = 48" | "hd bs = 49" | "hd bs \<noteq> 48" "hd bs \<noteq> 49" by blast
      then show ?thesis
      proof cases
        case 1
        then show ?thesis unfolding h handle_request_def serveGapRequest_exact [OF store] d
          by (simp add: ev l request_answer_def request_overflows_def Let_def snap_send_def)
      next
        case 2
        then show ?thesis unfolding h handle_request_def d
          by (simp add: ev l replay request_answer_def request_overflows_def Let_def snap_send_def)
      next
        case 3
        then show ?thesis unfolding h handle_request_def d
          by (simp add: ev l request_answer_def request_overflows_def Let_def)
      qed
    qed
  qed
qed

lemma handle_events_exact:
  assumes store: "length store < 2 ^ 31"
  shows "returns (handle_events store evs s) = (\<forall>ev \<in> set evs. \<not> event_overflows ev) \<and>
    (\<forall>s'. handle_events store evs s = Inr s' \<longrightarrow> sn_sent s' = sn_sent s @ concat (map (event_sends store) evs) \<and>
      sn_closed s' = sn_closed s @ concat (map event_closes evs))"
proof (induction evs arbitrary: s)
  case (Cons ev evs)
  note e = handle_event_exact [OF store, of ev s]
  show ?case
  proof (cases "handle_event store ev s")
    case (Inl x)
    then show ?thesis using e by simp
  next
    case (Inr s1)
    then show ?thesis using e Cons.IH [of s1] by auto
  qed
qed simp

lemma serveClients_exact:
  assumes store: "length store < 2 ^ 31"
  shows "returns (serveClients store ws s) = (Inl False \<notin> set ws \<and> (\<forall>ev \<in> set (served_events ws). \<not> event_overflows ev)) \<and>
    (\<forall>s'. serveClients store ws s = Inr s' \<longrightarrow>
      sn_sent s' = sn_sent s @ concat (map (event_sends store) (served_events ws)) \<and>
      sn_closed s' = sn_closed s @ concat (map event_closes (served_events ws)))"
proof (induction ws arbitrary: s)
  case (Cons w ws)
  show ?case
  proof (cases w)
    case (Inl eintr)
    then show ?thesis using Cons.IH [of s] by (simp add: served_events_def)
  next
    case (Inr evs)
    note e = handle_events_exact [OF store, of evs s]
    show ?thesis
    proof (cases "handle_events store evs s")
      case (Inl x)
      then show ?thesis using e Inr by (auto simp: served_events_def)
    next
      case (Inr s1)
      then show ?thesis using e \<open>w = Inr evs\<close> Cons.IH [of s1] by (auto simp: served_events_def)
    qed
  qed
qed (simp add: served_events_def)

lemma request_answer_subset: "set (request_answer store bs) \<subseteq> set store"
  unfolding request_answer_def Let_def using set_take_subset set_drop_subset by (fastforce split: if_splits)

lemma request_answer_range:
  assumes "length store < 2 ^ 31" and "start_seq r \<le> end_seq r" and "unat (end_seq r) < length store" and "req_type r = 48"
  shows "request_answer store (encode_gap r) = take (unat (end_seq r) + 1 - unat (start_seq r)) (drop (unat (start_seq r)) store)"
proof -
  have "unat (start_seq r) < 2 ^ 31" using assms(1,2,3) unfolding word_le_nat_alt by linarith
  then have m: "unat (start_seq r) mod 2 ^ 32 = unat (start_seq r)" "unat (start_seq r) < 2 ^ 31" by simp_all
  have "member_bytes gap_members ''start_seq'' (encode_gap r) = put64 (start_seq r)"
    "member_bytes gap_members ''end_seq'' (encode_gap r) = put64 (end_seq r)"
    by (simp_all add: gap_members_def encode_gap_def)
  then have "le_value (member_bytes gap_members ''start_seq'' (encode_gap r)) = start_seq r"
    "le_value (member_bytes gap_members ''end_seq'' (encode_gap r)) = end_seq r"
    unfolding get64_le_value [symmetric] by simp_all
  moreover have "hd (encode_gap r) = 48" using assms(4) by (simp add: encode_gap_def)
  ultimately show ?thesis unfolding request_answer_def length_encode_gap Let_def using m by (simp add: GapRequestMsgSize_def)
qed

text \<open>
  C39: Over any run of its event loop the snapshot server sends, on each connection, exactly the
  answers to the requests read from it, in the order of the events: to a request of type \<^verbatim>\<open>'0'\<close> the
  messages of the store from its start to its end, to type \<^verbatim>\<open>'1'\<close> the whole store, on the
  connection the request came from; nothing to other types, and nothing to a read of any other size
  than the 17 bytes of a request, such as two requests that arrive together. It closes exactly the
  connections whose read reports the end or an error, or that \<^verbatim>\<open>epoll_ctl\<close> refuses. The loop throws
  exactly on an error of \<^verbatim>\<open>epoll_wait\<close> other than \<^verbatim>\<open>EINTR\<close>, and is otherwise defined unless a request
  overflows the loop variable.
\<close>

theorem snapshot_server_safe:
  assumes "length store < 2 ^ 31"
  shows "(returns (serveClients store ws snap_init) \<longleftrightarrow>
      Inl False \<notin> set ws \<and> (\<forall>ev \<in> set (served_events ws). \<not> event_overflows ev)) \<and>
    (serveClients store ws snap_init = Inr s \<longrightarrow>
      sn_sent s = concat (map (event_sends store) (served_events ws)) \<and>
      sn_closed s = concat (map event_closes (served_events ws)) \<and>
      (\<forall>(fd, m) \<in> set (sn_sent s). m \<in> set store)) \<and>
    (start_seq r1 \<le> end_seq r1 \<and> unat (end_seq r1) < length store \<and> req_type r1 = 48 \<longrightarrow>
      event_sends store (On_Client fd (Some (encode_gap r1))) =
        map (Pair fd) (take (unat (end_seq r1) + 1 - unat (start_seq r1)) (drop (unat (start_seq r1)) store))) \<and>
    (req_type r1 = 49 \<longrightarrow> event_sends store (On_Client fd (Some (encode_gap r1))) = map (Pair fd) store) \<and>
    handle_event store (On_Client fd (Some (encode_gap r1 @ encode_gap r2))) s = Inr s"
proof (intro conjI impI)
  note e = serveClients_exact [OF assms, of ws snap_init]
  show "returns (serveClients store ws snap_init) \<longleftrightarrow>
      Inl False \<notin> set ws \<and> (\<forall>ev \<in> set (served_events ws). \<not> event_overflows ev)" by (rule e [THEN conjunct1])
  assume r: "serveClients store ws snap_init = Inr s"
  from e r show sent: "sn_sent s = concat (map (event_sends store) (served_events ws))"
    and "sn_closed s = concat (map event_closes (served_events ws))" by (simp_all add: snap_init_def)
  have "m \<in> set store" if "(c, m) \<in> set (event_sends store ev)" for c m ev
    using that request_answer_subset [of store] by (cases "(store, ev)" rule: event_sends.cases) auto
  then show "\<forall>(fd, m) \<in> set (sn_sent s). m \<in> set store" unfolding sent by auto
next
  assume "start_seq r1 \<le> end_seq r1 \<and> unat (end_seq r1) < length store \<and> req_type r1 = 48"
  then show "event_sends store (On_Client fd (Some (encode_gap r1))) =
      map (Pair fd) (take (unat (end_seq r1) + 1 - unat (start_seq r1)) (drop (unat (start_seq r1)) store))"
    using request_answer_range [OF assms] by simp
next
  assume "req_type r1 = 49"
  then have "hd (encode_gap r1) = 49" by (simp add: encode_gap_def)
  then have "request_answer store (encode_gap r1) = store"
    unfolding request_answer_def length_encode_gap Let_def by (simp add: GapRequestMsgSize_def)
  then show "event_sends store (On_Client fd (Some (encode_gap r1))) = map (Pair fd) store" by simp
next
  have "length (encode_gap r1 @ encode_gap r2) \<noteq> GapRequestMsgSize"
    unfolding length_append length_encode_gap by (simp add: GapRequestMsgSize_def)
  then show "handle_event store (On_Client fd (Some (encode_gap r1 @ encode_gap r2))) s = Inr s" by (simp add: handle_event_def)
qed

text \<open>Two clients: one asks for messages 1 and 2, the other for a replay; the first one leaves.\<close>

lemma snapshot_server_safe_witness:
  "let store = [trade_no 0, trade_no 1, trade_no 2, trade_no 3];
       gap = \<lparr>req_type = 48, start_seq = 1, end_seq = 2\<rparr>; replay = \<lparr>req_type = 49, start_seq = 0, end_seq = 0\<rparr> in
   \<exists>s. serveClients store [Inr [On_Listen 4 0], Inl True, Inr [On_Listen 5 0, On_Client 4 (Some (encode_gap gap))],
         Inr [On_Client 5 (Some (encode_gap replay)), On_Client 4 None]] snap_init = Inr s \<and>
     sn_sent s = [(4, trade_no 1), (4, trade_no 2), (5, trade_no 0), (5, trade_no 1), (5, trade_no 2), (5, trade_no 3)] \<and>
     sn_closed s = [4]"
proof -
  define gap where "gap = \<lparr>req_type = 48, start_seq = 1, end_seq = 2\<rparr>"
  define replay where "replay = \<lparr>req_type = 49, start_seq = 0, end_seq = 0\<rparr>"
  define store where "store = [trade_no 0, trade_no 1, trade_no 2, trade_no 3]"
  define ws where "ws = [Inr [On_Listen 4 0], Inl True, Inr [On_Listen 5 0, On_Client 4 (Some (encode_gap gap))],
    Inr [On_Client 5 (Some (encode_gap replay)), On_Client 4 None]]"
  have len: "length store < 2 ^ 31" by (simp add: store_def)
  have ev: "served_events ws = [On_Listen 4 0, On_Listen 5 0, On_Client 4 (Some (encode_gap gap)),
      On_Client 5 (Some (encode_gap replay)), On_Client 4 None]"
    by (simp add: served_events_def ws_def)
  have no: "\<not> request_overflows (encode_gap gap)" "\<not> request_overflows (encode_gap replay)"
    by (simp_all add: request_overflows_def gap_members_def encode_gap_def gap_def replay_def get64_le_value [symmetric])
  have "Inl False \<notin> set ws" by (simp add: ws_def)
  then have "returns (serveClients store ws snap_init)"
    using snapshot_server_safe [OF len, of ws] no unfolding ev by simp
  then obtain s where s: "serveClients store ws snap_init = Inr s" by (auto simp: returns_iff)
  note t = snapshot_server_safe [OF len, of ws s]
  have "event_sends store (On_Client 4 (Some (encode_gap gap))) = [(4, trade_no 1), (4, trade_no 2)]"
    using snapshot_server_safe [OF len, of ws s gap 4] by (simp add: gap_def store_def word_le_nat_alt)
  moreover have "event_sends store (On_Client 5 (Some (encode_gap replay))) = map (Pair 5) store"
    using snapshot_server_safe [OF len, of ws s replay 5] by (simp add: replay_def)
  ultimately have "sn_sent s = [(4, trade_no 1), (4, trade_no 2), (5, trade_no 0), (5, trade_no 1), (5, trade_no 2), (5, trade_no 3)]"
    "sn_closed s = [4]" using t s unfolding ev by (simp_all add: store_def)
  with s show ?thesis unfolding Let_def gap_def replay_def store_def ws_def by blast
qed

end
