(* ===== verification/Pipeline.thy ===== *)
theory Pipeline
  imports Sequencer DBManager TradeServer
begin

text \<open>
  The program of test/RunTradeReceiver.cpp: the multicast receiver, the sequencer and the
  database writer as three threads that share a pool and are joined by two queues, with the
  trade server on the other side. A step is one round of one thread; the rounds interleave in
  any order.
\<close>

section \<open>The threads\<close>

record ('rq, 'sq, 'p, 'd) feed =
  fd_seq :: "('rq, 'sq, 'p) seq_state"
  fd_batch :: "nat list"
  fd_txns :: "(bytes list \<times> 'd db_row list option) list"

definition feed_receive :: "('rq, nat) q_ops \<Rightarrow> 'p p_ops \<Rightarrow> bytes option \<Rightarrow> ('rq, 'sq, 'p, 'd) feed \<Rightarrow>
    ('rq, 'sq, 'p, 'd) feed res" where
  "feed_receive R P data f = (let s = fd_seq f in
    res_bind (mcast_round R P data \<lparr>mr_queue = sd_recv s, mr_pool = sd_pool s, mr_mem = sd_mem s\<rparr>) (\<lambda>m.
      Inr (f\<lparr>fd_seq := s\<lparr>sd_recv := mr_queue m, sd_pool := mr_pool m, sd_mem := mr_mem m\<rparr>\<rparr>)))"

definition feed_sequence :: "('rq, nat) q_ops \<Rightarrow> ('sq, nat) q_ops \<Rightarrow> 'p p_ops \<Rightarrow> recov_env \<Rightarrow> ('rq, 'sq, 'p, 'd) feed \<Rightarrow>
    ('rq, 'sq, 'p, 'd) feed res" where
  "feed_sequence R S P env f = res_bind (seq_round R S P env (fd_seq f)) (\<lambda>s. Inr (f\<lparr>fd_seq := s\<rparr>))"

definition feed_store :: "(u64 \<Rightarrow> 'd) \<Rightarrow> ('sq, nat) q_ops \<Rightarrow> 'p p_ops \<Rightarrow> (nat \<Rightarrow> bool) \<Rightarrow> ('rq, 'sq, 'p, 'd) feed \<Rightarrow>
    ('rq, 'sq, 'p, 'd) feed res" where
  "feed_store dbl S P ok f = (let s = fd_seq f in
    res_bind (batch_round (commitCopy dbl) True S P ok
        \<lparr>db_queue = sd_send s, db_pool = sd_pool s, db_mem = sd_mem s, db_batch = fd_batch f, db_txns = fd_txns f\<rparr>) (\<lambda>d.
      Inr (f\<lparr>fd_seq := s\<lparr>sd_send := db_queue d, sd_pool := db_pool d\<rparr>, fd_batch := db_batch d, fd_txns := db_txns d\<rparr>)))"

text \<open>
  The datagrams that arrive are trades of the source \<open>src\<close>: some may be missing, repeated or
  out of order. \<open>wait\<close> adds what a later call of \<^verbatim>\<open>epoll_wait\<close> will report.
\<close>

inductive feed_step :: "('rq, nat) q_ops \<Rightarrow> ('sq, nat) q_ops \<Rightarrow> 'p p_ops \<Rightarrow> (u64 \<Rightarrow> 'd) \<Rightarrow> recov_env \<Rightarrow> bytes list \<Rightarrow>
    ('rq, 'sq, 'p, 'd) feed \<Rightarrow> ('rq, 'sq, 'p, 'd) feed \<Rightarrow> bool" for R S P dbl env src where
  receive: "feed_receive R P (Some b) f = Inr f' \<Longrightarrow> b \<in> set src \<Longrightarrow> feed_step R S P dbl env src f f'"
| receive_error: "feed_receive R P None f = Inr f' \<Longrightarrow> feed_step R S P dbl env src f f'"
| sequence: "feed_sequence R S P env f = Inr f' \<Longrightarrow> feed_step R S P dbl env src f f'"
| store: "feed_store dbl S P ok f = Inr f' \<Longrightarrow> feed_step R S P dbl env src f f'"
| wait: "prompt e \<Longrightarrow> feed_step R S P dbl env src f (f\<lparr>fd_seq := (fd_seq f)\<lparr>sd_events := sd_events (fd_seq f) @ [e]\<rparr>\<rparr>)"

definition feed_init :: "'rq \<Rightarrow> 'sq \<Rightarrow> 'p \<Rightarrow> ('rq, 'sq, 'p, 'd) feed" where
  "feed_init rq sq p = \<lparr>fd_seq = \<lparr>sd_recv = rq, sd_send = sq, sd_pool = p, sd_mem = (\<lambda>_. replicate ITCHTradeMsgSize 0),
     sd_next = 0, sd_requests = [], sd_tcp = [], sd_events = []\<rparr>, fd_batch = [], fd_txns = []\<rparr>"

section \<open>Invariant\<close>

text \<open>What has gone through the sequencer: in a transaction, in the batch, or in the queue to the writer.\<close>

locale feed_system = sequencer R rinv rcont rcap S sinv scont scap P pinv free size
  for R :: "('rq, nat) q_ops" and rinv :: "nat \<Rightarrow> 'rq \<Rightarrow> bool" and rcont :: "'rq \<Rightarrow> nat list" and rcap :: "'rq \<Rightarrow> nat"
    and S :: "('sq, nat) q_ops" and sinv :: "nat \<Rightarrow> 'sq \<Rightarrow> bool" and scont :: "'sq \<Rightarrow> nat list" and scap :: "'sq \<Rightarrow> nat"
    and P :: "'p p_ops" and pinv :: "'p \<Rightarrow> bool" and free :: "'p \<Rightarrow> nat set" and size :: "'p \<Rightarrow> nat" +
  fixes dbl :: "u64 \<Rightarrow> 'd"
begin

sublocale db: db_client "commitCopy dbl" dbl S sinv scont P pinv free size
  by unfold_locales

definition owned :: "('rq, 'sq, 'p, 'd) feed \<Rightarrow> nat list" where
  "owned f = fd_batch f @ scont (sd_send (fd_seq f)) @ rcont (sd_recv (fd_seq f))"

definition shared :: "('rq, 'sq, 'p, 'd) feed \<Rightarrow> bool" where
  "shared f \<longleftrightarrow> distinct (owned f) \<and>
    (\<forall>i \<in> set (owned f). i < size (sd_pool (fd_seq f)) \<and> i \<notin> free (sd_pool (fd_seq f))) \<and>
    size (sd_pool (fd_seq f)) \<le> scap (sd_send (fd_seq f))"

definition feed_inv :: "bytes list \<Rightarrow> ('rq, 'sq, 'p, 'd) feed \<Rightarrow> bool" where
  "feed_inv src f \<longleftrightarrow> (let s = fd_seq f in
    rinv 0 (sd_recv s) \<and> seq_ok s \<and> sd_tcp s = [] \<and> (\<forall>e \<in> set (sd_events s). prompt e) \<and> shared f \<and>
    (\<forall>i \<in> set (rcont (sd_recv s)). sd_mem s i \<in> set src) \<and> unat (sd_next s) \<le> length src \<and>
    length (fd_batch f) < commitBatchSize \<and> (\<forall>t \<in> set (fd_txns f). txn_ok dbl t) \<and>
    concat (map fst (fd_txns f)) @ map (sd_mem s) (fd_batch f @ scont (sd_send s)) = take (unat (sd_next s)) src)"

text \<open>Distinct messages of the pool: they fit into the queue to the writer together.\<close>

lemma shared_room:
  assumes "shared f" and "pinv (sd_pool (fd_seq f))"
  shows "finite (free (sd_pool (fd_seq f)))"
    and "length (owned f) + card (free (sd_pool (fd_seq f))) \<le> scap (sd_send (fd_seq f))"
proof -
  let ?fr = "free (sd_pool (fd_seq f))" and ?n = "size (sd_pool (fd_seq f))"
  have sub: "set (owned f) \<union> ?fr \<subseteq> {..<?n}" using assms P.free_bound by (auto simp: shared_def)
  show fin: "finite ?fr" using sub finite_subset [of ?fr "{..<?n}"] by auto
  have "set (owned f) \<inter> ?fr = {}" using assms(1) by (auto simp: shared_def)
  then have "card (set (owned f)) + card ?fr = card (set (owned f) \<union> ?fr)" using fin by (simp add: card_Un_disjoint)
  also have "\<dots> \<le> ?n" using card_mono [OF _ sub] by simp
  finally show "length (owned f) + card ?fr \<le> scap (sd_send (fd_seq f))"
    using assms(1) by (simp add: shared_def distinct_card)
qed

lemma shared_okI:
  assumes "shared f" and "sinv 0 (sd_send (fd_seq f))" and "pinv (sd_pool (fd_seq f))"
    and "\<forall>i. length (sd_mem (fd_seq f) i) = ITCHTradeMsgSize"
  shows "seq_ok (fd_seq f)"
  using shared_room [OF assms(1,3)] assms(2-4) by (simp add: seq_ok_def room_def owned_def)

lemma mcast_round_cases:
  assumes "mcast_round R P data m = Inr m'"
  obtains (kept) i p where "data = None" "allocate_op P (mr_pool m) = Inr (Some i, p)"
      "deallocate_op P p (Some i) = Inr (mr_pool m')" "mr_queue m' = mr_queue m" "mr_mem m' = mr_mem m"
    | (queued) b i ok where "data = Some b" "allocate_op P (mr_pool m) = Inr (Some i, mr_pool m')"
      "enqueue_op R (mr_queue m) i = Inr (ok, mr_queue m')"
      "mr_mem m' = (mr_mem m)(i := recv_into (take ITCHTradeMsgSize b) (mr_mem m i))"
proof -
  obtain r p where r: "allocate_op P (mr_pool m) = Inr (r, p)"
    using assms(1) by (auto simp: mcast_round_def res_bind_Inr_iff)
  then obtain i where i: "r = Some i" using assms(1) by (cases r) (simp_all add: mcast_round_def)
  show thesis
  proof (cases data)
    case None
    with r i assms(1) kept show thesis by (auto simp: mcast_round_def res_bind_Inr_iff)
  next
    case (Some b)
    with r i assms(1) queued show thesis by (auto simp: mcast_round_def res_bind_Inr_iff)
  qed
qed

lemma receive_inv:
  assumes src: "numbered_source src" and inv: "feed_inv src f" and run: "feed_receive R P data f = Inr f'"
    and data: "\<forall>b. data = Some b \<longrightarrow> b \<in> set src"
  shows "feed_inv src f'"
proof -
  let ?s = "fd_seq f"
  let ?m = "\<lparr>mr_queue = sd_recv ?s, mr_pool = sd_pool ?s, mr_mem = sd_mem ?s\<rparr>"
  obtain m where m: "mcast_round R P data ?m = Inr m"
    and f': "f' = f\<lparr>fd_seq := ?s\<lparr>sd_recv := mr_queue m, sd_pool := mr_pool m, sd_mem := mr_mem m\<rparr>\<rparr>"
    using run by (auto simp: feed_receive_def res_bind_Inr_iff Let_def)
  have sh: "shared f" and p: "pinv (sd_pool ?s)" and ok: "seq_ok ?s" using inv by (simp_all add: feed_inv_def seq_ok_def Let_def)
  from m show ?thesis
  proof (cases rule: mcast_round_cases)
    case (kept i q)
    have a: "pinv q" "i \<in> free (sd_pool ?s)" "i < size (sd_pool ?s)" "free q = free (sd_pool ?s) - {i}" "size q = size (sd_pool ?s)"
      using P.allocate_SomeD [OF p, of i q] kept(2) by simp_all
    obtain p' where p': "deallocate_op P q (Some i) = Inr p'" "pinv p'" "free p' = insert i (free q)" "size p' = size q"
      using P.deallocate [of q i] a by auto
    with kept a have e: "mr_pool m = p'" "free p' = free (sd_pool ?s)" "size p' = size (sd_pool ?s)" by auto
    have sh': "shared f'" using sh kept e by (simp add: f' shared_def owned_def)
    have "seq_ok (fd_seq f')" by (rule shared_okI [OF sh']) (use ok kept p' e in \<open>simp_all add: f' seq_ok_def\<close>)
    with inv sh' kept e p' show ?thesis by (simp add: f' feed_inv_def Let_def)
  next
    case (queued b i okq)
    have a: "pinv (mr_pool m)" "i \<in> free (sd_pool ?s)" "i < size (sd_pool ?s)" "free (mr_pool m) = free (sd_pool ?s) - {i}"
      "size (mr_pool m) = size (sd_pool ?s)"
      using P.allocate_SomeD [OF p, of i "mr_pool m"] queued(2) by simp_all
    have q: "rinv 0 (mr_queue m)" "rcont (mr_queue m) = (if okq then rcont (sd_recv ?s) @ [i] else rcont (sd_recv ?s))"
      using R.enqueue_step [of 0 "sd_recv ?s" i] queued(3) inv by (auto simp: feed_inv_def Let_def)
    have b: "b \<in> set src" "length b = ITCHTradeMsgSize" using data queued(1) source_member [OF src] by auto
    have mem: "mr_mem m = (sd_mem ?s)(i := b)" using queued(4) b(2) ok by (simp add: recv_into_def seq_ok_def)
    have own: "i \<notin> set (owned f)" using sh a(2) by (auto simp: shared_def)
    have sh': "shared f'" using sh own a q(2) by (auto simp: f' shared_def owned_def)
    have "seq_ok (fd_seq f')" by (rule shared_okI [OF sh']) (use ok a mem b in \<open>simp_all add: f' seq_ok_def\<close>)
    moreover have "map (mr_mem m) (fd_batch f) = map (sd_mem ?s) (fd_batch f)"
      "map (mr_mem m) (scont (sd_send ?s)) = map (sd_mem ?s) (scont (sd_send ?s))"
      using own mem by (auto simp: owned_def)
    moreover have "\<forall>j \<in> set (rcont (sd_recv (fd_seq f'))). sd_mem (fd_seq f') j \<in> set src"
      using inv q(2) mem b(1) own by (auto simp: f' feed_inv_def owned_def Let_def split: if_splits)
    ultimately show ?thesis using inv sh' q(1) by (simp add: f' feed_inv_def Let_def cong: map_cong)
  qed
qed

lemma sequence_inv:
  assumes src: "numbered_source src" "serves env src" and inv: "feed_inv src f" and run: "feed_sequence R S P env f = Inr f'"
  shows "feed_inv src f'"
proof -
  let ?s = "fd_seq f"
  define came where "came = (if rcont (sd_recv (fd_seq f)) = [] then {} else {hd (rcont (sd_recv (fd_seq f)))})"
  obtain s' where s': "seq_round R S P env ?s = Inr s'" and f': "f' = f\<lparr>fd_seq := s'\<rparr>"
    using run by (auto simp: feed_sequence_def res_bind_Inr_iff)
  have sh: "shared f" and p: "pinv (sd_pool ?s)" and nxt: "unat (sd_next ?s) \<le> length src"
    using inv by (simp_all add: feed_inv_def seq_ok_def Let_def)
  have rm: "length (scont (sd_send ?s)) + card (free (sd_pool ?s)) + length (rcont (sd_recv ?s)) \<le> scap (sd_send ?s)"
    using shared_room(2) [OF sh p] by (simp add: owned_def)
  have rc: "\<forall>i \<in> set (rcont (sd_recv ?s)). i \<notin> free (sd_pool ?s) \<and> i < size (sd_pool ?s) \<and> sd_mem ?s i \<in> set src"
    using inv sh by (simp add: feed_inv_def shared_def owned_def Let_def)
  have start: "rinv 0 (sd_recv ?s)" "seq_ok ?s" "sd_tcp ?s = []" "\<forall>e \<in> set (sd_events ?s). prompt e"
    using inv by (simp_all add: feed_inv_def Let_def)
  note spec = seq_round_spec [OF src start rm rc nxt s', folded came_def]
  then obtain q where app: "appends src came (?s\<lparr>sd_recv := q\<rparr>) s'" by blast
  have r: "rinv 0 (sd_recv s')" "rcont (sd_recv s') = tl (rcont (sd_recv ?s))" "seq_ok s'" "sd_tcp s' = []"
    "\<forall>e \<in> set (sd_events s'). prompt e" using spec by blast+
  from app obtain js where js: "scont (sd_send s') = scont (sd_send ?s) @ js" "unat (sd_next s') = unat (sd_next ?s) + length js"
    "unat (sd_next s') \<le> length src" "map (sd_mem s') js = take (length js) (drop (unat (sd_next ?s)) src)" "distinct js"
    "set js \<inter> free (sd_pool s') = {}" "set js \<union> free (sd_pool s') = free (sd_pool ?s) \<union> came"
    and mem: "\<forall>i. i \<notin> free (sd_pool ?s) \<longrightarrow> sd_mem s' i = sd_mem ?s i"
    and sz: "size (sd_pool s') = size (sd_pool ?s)" "scap (sd_send s') = scap (sd_send ?s)"
    unfolding appends_recv by blast
  let ?r = "rcont (sd_recv ?s)" and ?b = "fd_batch f @ scont (sd_send ?s)"
  have d: "distinct (?b @ ?r)" "\<forall>i \<in> set (?b @ ?r). i < size (sd_pool ?s) \<and> i \<notin> free (sd_pool ?s)"
    using sh by (simp_all add: shared_def owned_def)
  have "distinct ?r" using d(1) by simp
  then have came: "came \<subseteq> set ?r \<and> came \<inter> set (tl ?r) = {} \<and> set (tl ?r) \<subseteq> set ?r \<and> distinct (tl ?r)"
    unfolding came_def by (cases ?r) auto
  note came = came [THEN conjunct1] came [THEN conjunct2, THEN conjunct1]
    came [THEN conjunct2, THEN conjunct2, THEN conjunct1] came [THEN conjunct2, THEN conjunct2, THEN conjunct2]
  have bound: "i < size (sd_pool ?s)" if "i \<in> free (sd_pool ?s) \<union> came" for i
    using that P.free_bound [OF p] d(2) came(1) by auto
  have fresh: "i \<notin> set js \<union> free (sd_pool s')" if "i \<in> set ?b \<union> set (tl ?r)" for i
    using that d came(1-3) unfolding js(7) by auto
  have lt: "i < size (sd_pool ?s)" if "i \<in> set js" for i using that bound js(7) by blast
  have own: "owned f' = ?b @ js @ tl ?r" by (simp add: f' owned_def js(1) r(2))
  have "distinct (owned f')" unfolding own using d(1) came(4) js(5) fresh by (auto dest: came(3) [THEN subsetD])
  moreover have "\<forall>i \<in> set (owned f'). i < size (sd_pool s') \<and> i \<notin> free (sd_pool s')"
    unfolding own sz using d(2) fresh js(6) lt came(3) by auto
  ultimately have sh': "shared f'" using sh sz by (simp add: f' shared_def)
  have log: "concat (map fst (fd_txns f)) @ map (sd_mem ?s) ?b = take (unat (sd_next ?s)) src"
    using inv by (simp add: feed_inv_def Let_def)
  have b: "map (sd_mem s') ?b = map (sd_mem ?s) ?b" using d(2) mem by simp
  have "concat (map fst (fd_txns f)) @ map (sd_mem s') (?b @ js) = take (unat (sd_next s')) src"
    unfolding js(2) take_add map_append [of _ ?b js] b js(4) append_assoc [symmetric] log by (rule refl)
  moreover have "\<forall>i \<in> set (tl ?r). sd_mem s' i \<in> set src" using rc came(3) mem by auto
  ultimately show ?thesis using inv sh' r(1-5) js(1,3) by (simp add: f' feed_inv_def Let_def)
qed

lemma batch_round_queue:
  "batch_round commit d S P ok st = Inr st' \<Longrightarrow> \<exists>r. dequeue_op S (db_queue st) = Inr (r, db_queue st')"
  by (auto simp: batch_round_def flush_batch_def res_bind_Inr_iff Let_def split: option.splits if_splits)

lemma store_db_inv:
  assumes src: "\<forall>b \<in> set src. terminated b" and inv: "feed_inv src f"
  shows "db.db_inv (Suc 0) \<lparr>db_queue = sd_send (fd_seq f), db_pool = sd_pool (fd_seq f), db_mem = sd_mem (fd_seq f),
    db_batch = fd_batch f, db_txns = fd_txns f\<rparr>"
proof -
  let ?s = "fd_seq f"
  have sh: "shared f" and ok: "seq_ok ?s" and log: "concat (map fst (fd_txns f)) @
      map (sd_mem ?s) (fd_batch f @ scont (sd_send ?s)) = take (unat (sd_next ?s)) src"
    using inv by (simp_all add: feed_inv_def Let_def)
  have "sd_mem ?s i \<in> set src" if "i \<in> set (fd_batch f @ scont (sd_send ?s))" for i
    using that arg_cong [OF log, of set] set_take_subset [of "unat (sd_next ?s)" src] by auto
  moreover have "distinct (fd_batch f @ scont (sd_send ?s))"
    "\<forall>i \<in> set (fd_batch f @ scont (sd_send ?s)). i < size (sd_pool ?s) \<and> i \<notin> free (sd_pool ?s)"
    using sh by (auto simp: shared_def owned_def)
  moreover have "sinv (Suc 0) (sd_send ?s)" "pinv (sd_pool ?s)" using ok S.endless by (simp_all add: seq_ok_def)
  moreover have "length (fd_batch f) < commitBatchSize" "\<forall>t \<in> set (fd_txns f). txn_ok dbl t"
    using inv by (simp_all add: feed_inv_def Let_def)
  ultimately show ?thesis using src unfolding db.db_inv_def db.held_def by simp
qed

lemma store_inv:
  assumes src: "\<forall>b \<in> set src. terminated b" and inv: "feed_inv src f" and run: "feed_store dbl S P ok f = Inr f'"
  shows "feed_inv src f'"
proof -
  let ?s = "fd_seq f"
  let ?d = "\<lparr>db_queue = sd_send ?s, db_pool = sd_pool ?s, db_mem = sd_mem ?s, db_batch = fd_batch f, db_txns = fd_txns f\<rparr>"
  obtain d where d: "batch_round (commitCopy dbl) True S P ok ?d = Inr d"
    and f': "f' = f\<lparr>fd_seq := ?s\<lparr>sd_send := db_queue d, sd_pool := db_pool d\<rparr>, fd_batch := db_batch d, fd_txns := db_txns d\<rparr>"
    using run by (auto simp: feed_store_def res_bind_Inr_iff Let_def)
  have sh: "shared f" and ok: "seq_ok ?s" and log: "concat (map fst (fd_txns f)) @
      map (sd_mem ?s) (fd_batch f @ scont (sd_send ?s)) = take (unat (sd_next ?s)) src"
    using inv by (simp_all add: feed_inv_def Let_def)
  have "db.db_inv (Suc 0) ?d" using src inv by (rule store_db_inv)
  from db.batch_round_spec [OF this, of ok] d have e: "db.db_inv 0 d" "db.db_keeps ?d d" by auto
  have keep: "db_mem d = sd_mem ?s" "size (db_pool d) = size (sd_pool ?s)"
    "free (db_pool d) \<union> set (db_batch d @ scont (db_queue d)) = free (sd_pool ?s) \<union> set (fd_batch f @ scont (sd_send ?s))"
    and same: "db.db_log d = db.db_log ?d"
    using e(2) by (simp_all add: db.db_keeps_def db.held_def)
  have log': "concat (map fst (db_txns d)) @ map (sd_mem ?s) (db_batch d @ scont (db_queue d)) = take (unat (sd_next ?s)) src"
    using same log unfolding db.db_log_def keep(1) db.held_def by simp
  have cap: "scap (db_queue d) = scap (sd_send ?s)"
    using batch_round_queue [OF d] S.dequeue_step [of 0 "sd_send ?s"] ok by (auto simp: seq_ok_def)
  have dist: "distinct (db_batch d @ scont (db_queue d))"
    "\<forall>i \<in> set (db_batch d @ scont (db_queue d)). i < size (db_pool d) \<and> i \<notin> free (db_pool d)"
    "sinv 0 (db_queue d)" "pinv (db_pool d)"
    using e(1) by (simp_all add: db.db_inv_def db.held_def)
  have r: "distinct (rcont (sd_recv ?s))" "\<forall>i \<in> set (rcont (sd_recv ?s)). i < size (sd_pool ?s) \<and>
      i \<notin> free (sd_pool ?s) \<union> set (fd_batch f @ scont (sd_send ?s))"
    using sh by (auto simp: shared_def owned_def)
  have "distinct (owned f')" using dist(1) r unfolding keep(3) [symmetric] by (auto simp: f' owned_def)
  moreover have "\<forall>i \<in> set (owned f'). i < size (db_pool d) \<and> i \<notin> free (db_pool d)"
    using dist(2) r unfolding keep(3) [symmetric] keep(2) by (auto simp: f' owned_def)
  ultimately have sh': "shared f'" using sh keep(2) cap by (simp add: f' shared_def)
  have "seq_ok (fd_seq f')" by (rule shared_okI [OF sh']) (use ok dist(3,4) in \<open>simp_all add: f' seq_ok_def\<close>)
  then show ?thesis using inv sh' log' e(1) by (simp add: f' feed_inv_def db.db_inv_def Let_def)
qed

lemma feed_step_inv:
  assumes "numbered_source src" "serves env src" "\<forall>b \<in> set src. terminated b"
  shows "feed_step R S P dbl env src f f' \<Longrightarrow> feed_inv src f \<Longrightarrow> feed_inv src f'"
proof (induction rule: feed_step.induct)
  case (wait e f)
  then show ?case by (auto simp: feed_inv_def seq_ok_def room_def shared_def owned_def Let_def)
qed (use assms receive_inv sequence_inv store_inv in \<open>blast+\<close>)

lemma feed_reachable:
  assumes "numbered_source src" "serves env src" "\<forall>b \<in> set src. terminated b"
  shows "(feed_step R S P dbl env src)\<^sup>*\<^sup>* f f' \<Longrightarrow> feed_inv src f \<Longrightarrow> feed_inv src f'"
  by (induction rule: rtranclp_induct) (use feed_step_inv [OF assms] in blast)+

text \<open>The rounds that cannot fail, and what the others need.\<close>

lemma feed_store_returns:
  assumes "\<forall>b \<in> set src. terminated b" and "feed_inv src f"
  shows "returns (feed_store dbl S P ok f)"
  using db.batch_round_spec [OF store_db_inv [OF assms], of ok] by (auto simp: feed_store_def Let_def returns_iff)

lemma feed_receive_returns:
  assumes inv: "feed_inv src f" and avail: "free (sd_pool (fd_seq f)) \<noteq> {}"
  shows "returns (feed_receive R P data f)"
proof -
  have p: "pinv (sd_pool (fd_seq f))" and r: "rinv 0 (sd_recv (fd_seq f))" using inv by (simp_all add: feed_inv_def seq_ok_def Let_def)
  obtain i p' where a: "allocate_op P (sd_pool (fd_seq f)) = Inr (Some i, p')" "pinv p'" "i \<in> free (sd_pool (fd_seq f))"
    "free p' = free (sd_pool (fd_seq f)) - {i}" "size p' = size (sd_pool (fd_seq f))"
    using P.allocate [OF p avail] by blast
  have "i < size p'" "i \<notin> free p'" using a P.free_bound [OF p] by auto
  from P.deallocate [OF a(2) this] obtain p'' where "deallocate_op P p' (Some i) = Inr p''" by blast
  moreover obtain ok q where "enqueue_op R (sd_recv (fd_seq f)) i = Inr (ok, q)" using R.enqueue_step [OF r, of i] by blast
  ultimately show ?thesis using a(1) by (cases data) (auto simp: feed_receive_def mcast_round_def returns_iff Let_def)
qed

lemma forward_returns: "seq_ok st \<Longrightarrow> returns (forward S i st)"
  using S.enqueue_step [of 0 "sd_send st" i] by (auto simp: seq_ok_def forward_def returns_iff)

lemma feed_sequence_returns:
  assumes src: "numbered_source src" "serves env src" and inv: "feed_inv src f"
    and recv: "rcont (sd_recv (fd_seq f)) = [] \<or> (let k = msg_seq (sd_mem (fd_seq f) (hd (rcont (sd_recv (fd_seq f)))));
        missing = unat k - unat (sd_next (fd_seq f)) in
      k \<le> sd_next (fd_seq f) \<or>
      (\<forall>n. send_result env n = int GapRequestMsgSize \<and> epoll_result env n \<ge> 0 \<and> ctl_result env n \<ge> 0) \<and>
      missing \<le> card (free (sd_pool (fd_seq f))) \<and> missing \<le> length (filter (\<lambda>e. e \<noteq> Timed_Out) (sd_events (fd_seq f))))"
  shows "returns (feed_sequence R S P env f)"
proof -
  let ?s = "fd_seq f"
  have ok: "rinv 0 (sd_recv ?s)" "seq_ok ?s" "sd_tcp ?s = []" "\<forall>e \<in> set (sd_events ?s). prompt e"
    using inv by (simp_all add: feed_inv_def Let_def)
  obtain q where q: "dequeue_op R (sd_recv ?s) = Inr (if rcont (sd_recv ?s) = [] then None else Some (hd (rcont (sd_recv ?s))), q)"
    using R.dequeue_step [OF ok(1)] by blast
  let ?st = "?s\<lparr>sd_recv := q\<rparr>"
  have ok1: "seq_ok ?st" using ok(2) by (simp add: seq_ok_def room_def)
  have "returns (seq_round R S P env ?s)"
  proof (cases "rcont (sd_recv ?s)")
    case Nil
    then show ?thesis using q by (simp add: seq_round_def returns_iff)
  next
    case (Cons i rest)
    let ?k = "msg_seq (sd_mem ?s i)"
    have i: "i \<notin> free (sd_pool ?s)" "i < size (sd_pool ?s)" "sd_mem ?s i \<in> set src"
      using inv Cons by (simp_all add: feed_inv_def shared_def owned_def Let_def)
    consider (less) "?k < sd_next ?s" | (eq) "?k = sd_next ?s" | (gr) "sd_next ?s < ?k" by fastforce
    then show ?thesis
    proof cases
      case less
      obtain p where "deallocate_op P (sd_pool ?s) (Some i) = Inr p"
        using P.deallocate [of "sd_pool ?s" i] ok(2) i by (auto simp: seq_ok_def)
      moreover have "\<not> sd_next ?s < ?k" using less by simp
      ultimately show ?thesis using q Cons less by (simp add: seq_round_def returns_iff Let_def)
    next
      case eq
      then show ?thesis using q Cons forward_returns [OF ok1, of i] by (simp add: seq_round_def Let_def)
    next
      case gr
      have k: "unat ?k < length src" using source_member [OF src(1) i(3)] by simp
      have g: "sd_next ?st < ?k" "sd_tcp ?st = []" "\<forall>e \<in> set (sd_events ?st). prompt e" using gr ok by simp_all
      have need: "\<forall>n. send_result env n = int GapRequestMsgSize \<and> epoll_result env n \<ge> 0 \<and> ctl_result env n \<ge> 0"
        "unat ?k - unat (sd_next ?s) \<le> card (free (sd_pool ?s))"
        "unat ?k - unat (sd_next ?s) \<le> length (filter (\<lambda>e. e \<noteq> Timed_Out) (sd_events ?s))"
        using recv Cons gr by (auto simp: Let_def)
      note rp = recover_prompt [OF src k g(1) ok1 g(2,3)]
      obtain st1 where st1: "recover S P env (sd_next ?st) (?k - 1) ?st = Inr st1" using rp(3) [OF need(1)] rp(1) need by auto
      with rp(2) have "seq_ok st1" by blast
      with q Cons gr st1 forward_returns [of st1 i] show ?thesis by (simp add: seq_round_def Let_def)
    qed
  qed
  then show ?thesis by (auto simp: feed_sequence_def returns_iff)
qed

lemma feed_init_inv:
  assumes "rinv 0 rq" "rcont rq = []" "sinv 0 sq" "scont sq = []" "pinv p" "size p \<le> scap sq"
  shows "feed_inv src (feed_init rq sq p)"
proof -
  let ?f = "feed_init rq sq p :: ('rq, 'sq, 'p, 'd) feed"
  have sh: "shared ?f" using assms by (simp add: shared_def owned_def feed_init_def)
  have "seq_ok (fd_seq ?f)" by (rule shared_okI [OF sh]) (use assms in \<open>simp_all add: feed_init_def\<close>)
  with sh assms show ?thesis by (simp add: feed_inv_def feed_init_def commitBatchSize_def)
qed

end

section \<open>With the trade server\<close>

text \<open>
  What the snapshot server puts on the connection when it reads the request \<open>r\<close>, as bytes.
\<close>

definition server_answer :: "('d \<Rightarrow> u64) \<Rightarrow> 'd itch_msg list \<Rightarrow> gap_request \<Rightarrow> bytes" where
  "server_answer bits store r = (case handle_event store (On_Client 0 (Some (encode_gap r))) snap_init of
     Inr s \<Rightarrow> concat (map (\<lambda>(fd, m). encode_itch bits m) (sn_sent s)) | Inl _ \<Rightarrow> [])"

lemma msg_seq_encode [simp]: "msg_seq (encode_itch bits m) = sequence_number m"
  by (simp add: msg_seq_def encode_itch_def)

lemma encoded_source:
  assumes "numbered store" and "length store < 2 ^ 63"
  shows "numbered_source (map (encode_itch bits) store)"
  using assms by (simp add: numbered_source_def numbered_def)

lemma server_answer_range:
  assumes "length store < 2 ^ 31 - 1" and "a \<le> b" and "b < length store"
  shows "server_answer bits store \<lparr>req_type = 48, start_seq = of_nat a, end_seq = of_nat b\<rparr> =
    concat (take (b + 1 - a) (drop a (map (encode_itch bits) store)))"
proof -
  have ab: "unat (of_nat a :: u64) = a" "unat (of_nat b :: u64) = b" using assms by (simp_all add: unat_of_nat)
  have "gap_sends store (int a) (of_nat b) = Inr (take (b + 1 - a) (drop a store))"
    using gap_sends_range [of "of_nat b" "b + 1 - a" a store] ab assms by simp
  moreover have "sint (ucast (of_nat a :: u64) :: 32 word) = int a"
    using int_of_start [of "of_nat a"] ab assms by simp
  ultimately have "serveGapRequest store \<lparr>req_type = 48, start_seq = of_nat a, end_seq = of_nat b\<rparr> =
      Inr (take (b + 1 - a) (drop a store))" by (simp add: serveGapRequest_def)
  then have "server_answer bits store \<lparr>req_type = 48, start_seq = of_nat a, end_seq = of_nat b\<rparr> =
      concat (map (encode_itch bits) (take (b + 1 - a) (drop a store)))"
    by (simp add: server_answer_def handle_event_def handle_request_def snap_send_def snap_init_def comp_def)
  then show ?thesis by (simp only: take_map drop_map)
qed

lemma server_serves:
  assumes "length store < 2 ^ 31 - 1" and "answer env = server_answer bits store"
  shows "serves env (map (encode_itch bits) store)"
  using assms server_answer_range [OF assms(1)] by (auto simp: serves_def)

section \<open>The system of test/RunTradeReceiver.cpp\<close>

interpretation rcv: feed_system spsc_ops "\<lambda>_. spsc_inv" spsc_list "\<lambda>q. unat (sq_capacity q)"
    spsc_ops "\<lambda>_. spsc_inv" spsc_list "\<lambda>q. unat (sq_capacity q)"
    "tagged_ops aw dw" tagged_inv tagged_free "\<lambda>p. length (tp_next p)" dbl
  for aw dw :: "bool list" and dbl :: "u64 \<Rightarrow> 'd"
  by unfold_locales



lemma row_sequence_of [simp]: "row_sequence (row_of dbl (encode_itch bits m)) = sequence_number m"
  by (simp add: row_of_def Let_def decode_itch_def encode_itch_def)









section \<open>One gap\<close>

text \<open>
  C2: A gap of any length is closed in one round: when the connection delivers, the pool has a
  free message for each missing trade and the queue to the consumer has room, the sequencer that
  expects trade \<open>j\<close> and dequeues trade \<open>k > j\<close> returns with the trades \<open>j\<close> to \<open>k\<close> appended to
  that queue, in order, and expects trade \<open>k + 1\<close>.
\<close>

theorem gap_recovered_in_order:
  assumes src: "numbered_source src" "serves env src"
    and env: "\<forall>n. send_result env n = int GapRequestMsgSize \<and> epoll_result env n \<ge> 0 \<and> ctl_result env n \<ge> 0"
    and queues: "spsc_inv (sd_recv st)" "spsc_inv (sd_send st)" "spsc_list (sd_recv st) = i # rest"
    and pool: "tagged_inv (sd_pool st)" "\<forall>m. length (sd_mem st m) = ITCHTradeMsgSize"
    and recv: "\<forall>m \<in> set (i # rest). m < length (tp_next (sd_pool st)) \<and> m \<notin> tagged_free (sd_pool st) \<and> sd_mem st m \<in> set src"
    and gap: "sd_mem st i = src ! k" "k < length src" "unat (sd_next st) < k"
    and room: "length (spsc_list (sd_send st)) + card (tagged_free (sd_pool st)) + length (i # rest) \<le> unat (sq_capacity (sd_send st))"
    and avail: "k - unat (sd_next st) \<le> card (tagged_free (sd_pool st))"
    and conn: "sd_tcp st = []" "\<forall>e \<in> set (sd_events st). prompt e"
      "k - unat (sd_next st) \<le> length (filter (\<lambda>e. e \<noteq> Timed_Out) (sd_events st))"
  shows "\<exists>st' js. seq_round spsc_ops spsc_ops (tagged_ops aw dw) env st = Inr st' \<and>
    spsc_list (sd_send st') = spsc_list (sd_send st) @ js \<and>
    map (sd_mem st') js = take (k + 1 - unat (sd_next st)) (drop (unat (sd_next st)) src) \<and>
    unat (sd_next st') = k + 1"
proof -
  have fin: "finite (tagged_free (sd_pool st))" by (simp add: tagged_free_def)
  have ok: "rcv.seq_ok st" using queues pool room fin by (simp add: rcv.seq_ok_def rcv.room_def)
  have kk: "k < 2 ^ 63" using src(1) gap(2) by (simp add: numbered_source_def)
  have seq: "msg_seq (sd_mem st i) = of_nat k" using src(1) gap(1,2) by (simp add: numbered_source_def)
  have uk: "unat (of_nat k :: u64) = k" using kk by (simp add: unat_of_nat)
  obtain q where q: "spsc_dequeue (sd_recv st) = Inr (Some i, q)"
    using spq.dequeue_step [of "sd_recv st"] queues(1,3) by (auto simp: spsc_ops_def)
  let ?st = "st\<lparr>sd_recv := q\<rparr>"
  have ok1: "rcv.seq_ok ?st" using ok by (simp add: rcv.seq_ok_def rcv.room_def)
  have g: "unat (of_nat k :: u64) < length src" "sd_next ?st < of_nat k" "sd_tcp ?st = []" "\<forall>e \<in> set (sd_events ?st). prompt e"
    using gap uk conn by (simp_all add: word_less_nat_alt)
  note rp = rcv.recover_prompt [OF src g(1,2) ok1 g(3,4)]
  obtain st1 where st1: "recover spsc_ops (tagged_ops aw dw) env (sd_next st) (of_nat k - 1) ?st = Inr st1"
    using rp(3) [OF env] rp(1) conn(3) avail uk by auto
  let ?bs = "take (unat (of_nat k :: u64) - unat (sd_next ?st)) (drop (unat (sd_next ?st)) src)"
  obtain rq where r: "rcv.seq_ok st1" "rcv.received_all ?bs (?st\<lparr>sd_requests := rq\<rparr>) st1"
    using rp(2) st1 by auto
  let ?st2 = "?st\<lparr>sd_requests := rq\<rparr>"
  have i: "i \<notin> tagged_free (sd_pool ?st2)" "sd_next ?st2 < of_nat k" "finite (tagged_free (sd_pool ?st2))"
    using recv g(2) fin by simp_all
  have rec2: "rcv.received_all (take (unat (of_nat k :: u64) - unat (sd_next ?st2)) (drop (unat (sd_next ?st2)) src)) ?st2 st1"
    using r(2) by simp
  note f = rcv.received_facts [OF rec2 g(1) i(2,3,1)]
  have "length (spsc_list (sd_send st1)) + card (tagged_free (sd_pool st1)) < unat (sq_capacity (sd_send st1))"
    using f(4,5) room by simp
  moreover have "sd_mem st1 i = src ! unat (sd_next st1)" "unat (sd_next st1) < length src" using f(1,2) gap uk by simp_all
  ultimately obtain st' where st': "forward spsc_ops i st1 = Inr st'" "rcv.appends src {i} st1 st'"
    using rcv.forward_spec [OF src(1) _ _ r(1) f(3)] by blast
  have "rcv.appends src {i} ?st st'"
    using rcv.recovered_appends [OF rec2 g(1) i(2,1) f(1) st'(2)] unfolding rcv.appends_requests .
  then obtain js where js: "spsc_list (sd_send st') = spsc_list (sd_send st) @ js" "unat (sd_next st') = unat (sd_next st) + length js"
    "map (sd_mem st') js = take (length js) (drop (unat (sd_next st)) src)"
    unfolding rcv.appends_recv by blast
  have "seq_round spsc_ops spsc_ops (tagged_ops aw dw) env st = Inr st'"
    using q seq g(2) st1 st'(1) by (simp add: seq_round_def spsc_ops_def Let_def)
  moreover have "unat (sd_next st') = k + 1"
  proof -
    have "sd_next st' = sd_next st1 + 1" using st'(1) by (auto simp: forward_def res_bind_Inr_iff)
    then have "sd_next st' = of_nat (k + 1)" using f(1) by simp
    moreover have "k + 1 < 2 ^ 64" using kk by simp
    ultimately show ?thesis by (simp only: unat_of_nat len_bit0 len_num1 mod_less) simp
  qed
  ultimately show ?thesis using js by (metis add_diff_cancel_left')
qed

text \<open>A state in which trade 1 has arrived and trade 0 has not, with one more message in the pool.\<close>

definition gap_state :: "nat spsc \<Rightarrow> nat spsc \<Rightarrow> tagged_pool \<Rightarrow> recov_event list \<Rightarrow> (nat spsc, nat spsc, tagged_pool) seq_state" where
  "gap_state rq sq p es = \<lparr>sd_recv = rq, sd_send = sq, sd_pool = p, sd_mem = (\<lambda>_. encode_itch of_nat (trade_no 1)),
     sd_next = 0, sd_requests = [], sd_tcp = [], sd_events = es\<rparr>"

definition gap_env :: recov_env where
  "gap_env = \<lparr>answer = server_answer of_nat [trade_no 0, trade_no 1], send_result = (\<lambda>_. 17), epoll_result = (\<lambda>_. 3),
     ctl_result = (\<lambda>_. 0)\<rparr>"

lemma gap_state_parts:
  obtains rq sq :: "nat spsc" and p :: tagged_pool where "spsc_inv rq" "spsc_list rq = [1]" "spsc_inv sq" "spsc_list sq = []" "unat (sq_capacity sq) = 4"
    "tagged_inv p" "tagged_free p = {0}" "length (tp_next p) = 2"
proof -
  obtain sq :: "nat spsc" where sq: "spsc_init 4 = Inr sq" by (simp add: spsc_init_def)
  have q: "spsc_inv sq" "spsc_list sq = []" "unat (sq_capacity sq) = 4" using spsc_init_Inr [OF sq] by auto
  obtain ok rq where "spsc_inv rq" "ok = (length (spsc_list sq) < unat (sq_capacity sq))"
    "spsc_list rq = (if ok then spsc_list sq @ [1] else spsc_list sq)"
    using spq.enqueue_step [OF q(1), of 1] by blast
  then have rq: "spsc_inv rq" "spsc_list rq = [1]" using q by simp_all
  have "[0..<2] = [0, 1 :: nat]" by (simp add: upt_rec)
  then have i: "tagged_inv (tagged_init 2)" "tagged_list (tagged_init 2) = [1, 0]" using tagged_init_inv [of 2] by simp_all
  then obtain p where "tagged_inv p" "tagged_list p = [0]" "length (tp_next p) = 2"
    using tagged_allocate_spec [of "tagged_init 2" "[]"] by (auto simp: tagged_init_def)
  with q rq that show thesis by (simp add: tagged_free_def)
qed

lemma gap_recovered_in_order_witness:
  "\<exists>st st' js. st = gap_state (sd_recv st) (sd_send st) (sd_pool st) [Timed_Out, Readable 51] \<and>
    spsc_list (sd_recv st) = [1] \<and> spsc_list (sd_send st) = [] \<and>
    seq_round spsc_ops spsc_ops (tagged_ops [] []) gap_env st = Inr st' \<and>
    spsc_list (sd_send st') = js \<and> map (sd_mem st') js = [encode_itch of_nat (trade_no 0), encode_itch of_nat (trade_no 1)]"
proof -
  obtain rq sq :: "nat spsc" and p :: tagged_pool where q: "spsc_inv rq" "spsc_list rq = [1]" "spsc_inv sq" "spsc_list sq = []" "unat (sq_capacity sq) = 4"
    "tagged_inv p" "tagged_free p = {0}" "length (tp_next p) = 2" by (rule gap_state_parts)
  let ?st = "gap_state rq sq p [Timed_Out, Readable 51]" and ?store = "[trade_no 0, trade_no 1]"
  let ?src = "map (encode_itch of_nat) ?store"
  have "numbered ?store" by (auto simp: numbered_def nth_Cons trade_no_def itch_wf_def split: nat.splits)
  then have src: "numbered_source ?src" "serves gap_env ?src"
    using encoded_source [of ?store of_nat] server_serves [of ?store gap_env of_nat] by (simp_all add: gap_env_def)
  have "\<exists>st' js. seq_round spsc_ops spsc_ops (tagged_ops [] []) gap_env ?st = Inr st' \<and>
    spsc_list (sd_send st') = spsc_list (sd_send ?st) @ js \<and>
    map (sd_mem st') js = take (1 + 1 - unat (sd_next ?st)) (drop (unat (sd_next ?st)) ?src) \<and> unat (sd_next st') = 1 + 1"
    by (rule gap_recovered_in_order [OF src, where i = 1 and rest = "[]"])
      (use q in \<open>simp_all add: gap_state_def gap_env_def GapRequestMsgSize_def ITCHTradeMsgSize_def prompt_def\<close>)
  then obtain st' js where "seq_round spsc_ops spsc_ops (tagged_ops [] []) gap_env ?st = Inr st'" "spsc_list (sd_send st') = js"
    "map (sd_mem st') js = ?src"
    using q(4) by (auto simp: gap_state_def)
  then show ?thesis using q(2,4) by (intro exI [of _ ?st] exI [of _ st'] exI [of _ js]) (simp add: gap_state_def)
qed

text \<open>
  C34: A recovery that ends early goes unnoticed: when \<^verbatim>\<open>epoll_wait\<close> fails before the first
  missing trade has arrived, the sequencer forwards the trade that showed the gap all the same and
  counts it as the one it expected, so the consumer sees a later trade in its place.
\<close>

theorem recovery_cut_short:
  assumes "spsc_inv (sd_recv st)" "spsc_inv (sd_send st)" "spsc_list (sd_recv st) = i # rest"
    and "sd_next st < msg_seq (sd_mem st i)" and "sd_events st = Wait_Failed # es"
    and "send_result env (length (sd_requests st)) = int GapRequestMsgSize"
    and "epoll_result env (length (sd_requests st)) \<ge> 0" "ctl_result env (length (sd_requests st)) \<ge> 0"
    and "length (spsc_list (sd_send st)) < unat (sq_capacity (sd_send st))"
  shows "\<exists>st'. seq_round spsc_ops spsc_ops P env st = Inr st' \<and>
    spsc_list (sd_send st') = spsc_list (sd_send st) @ [i] \<and> sd_mem st' = sd_mem st \<and> sd_next st' = sd_next st + 1"
proof -
  obtain q where q: "spsc_dequeue (sd_recv st) = Inr (Some i, q)"
    using spq.dequeue_step [of "sd_recv st"] assms(1,3) by (auto simp: spsc_ops_def)
  obtain sq where sq: "spsc_enqueue (sd_send st) i = Inr (True, sq)" "spsc_list sq = spsc_list (sd_send st) @ [i]"
    using spq.enqueue_step [of "sd_send st" i] assms(2,9) by (auto simp: spsc_ops_def)
  have "0 < msg_seq (sd_mem st i) - 1 - sd_next st + 1" using assms(4) by (simp add: word_gt_0)
  then show ?thesis using q sq assms(4-8)
    by (simp add: seq_round_def recover_def sendRecoveryRequest_def receiveRecoveryMessages_def forward_def spsc_ops_def Let_def)
qed

lemma recovery_cut_short_witness:
  "\<exists>st st'. sd_next st = 0 \<and> spsc_list (sd_send st) = [] \<and> seq_round spsc_ops spsc_ops (tagged_ops [] []) gap_env st = Inr st' \<and>
    map (msg_seq \<circ> sd_mem st') (spsc_list (sd_send st')) = [1] \<and> sd_next st' = 1"
proof -
  obtain rq sq :: "nat spsc" and p :: tagged_pool where q: "spsc_inv rq" "spsc_list rq = [1]" "spsc_inv sq" "spsc_list sq = []" "unat (sq_capacity sq) = 4"
    by (rule gap_state_parts)
  let ?st = "gap_state rq sq p [Wait_Failed]"
  have "\<exists>st'. seq_round spsc_ops spsc_ops (tagged_ops [] []) gap_env ?st = Inr st' \<and>
    spsc_list (sd_send st') = spsc_list (sd_send ?st) @ [1] \<and> sd_mem st' = sd_mem ?st \<and> sd_next st' = sd_next ?st + 1"
    by (rule recovery_cut_short [where i = 1 and rest = "[]" and es = "[]"])
      (use q in \<open>simp_all add: gap_state_def gap_env_def GapRequestMsgSize_def\<close>)
  then obtain st' where "seq_round spsc_ops spsc_ops (tagged_ops [] []) gap_env ?st = Inr st'"
    "spsc_list (sd_send st') = [1]" "sd_mem st' = sd_mem ?st" "sd_next st' = 1"
    using q(4) by (auto simp: gap_state_def)
  then show ?thesis using q(4) by (intro exI [of _ ?st] exI [of _ st']) (simp add: gap_state_def)
qed

end
