(* ===== verification/MoodyHeap.thy ===== *)
theory MoodyHeap
  imports Ring
begin

text \<open>
  The blocks of \<^verbatim>\<open>moodycamel::ConcurrentQueue\<close> (moodycamel/concurrentqueue.h): their elements and
  counters, the array of initial blocks, the free list, and where a producer gets a block from. The
  calls of one thread after another, with the default traits: 32 elements in a block, and blocks
  that were allocated later are deleted when they are empty.
\<close>

section \<open>Blocks\<close>

text \<open>
  An element is \<open>None\<close> before it is constructed and after it is destroyed. The field \<open>emptyFlags\<close>
  of explicit producers is left out, and so is \<open>next\<close>, which implicit producers use only inside
  \<^verbatim>\<open>enqueue_bulk\<close> (MoodyBulkEnqueue). A block that
  was deleted is \<open>None\<close> in the memory \<open>mh_blocks\<close>; the blocks below \<open>mh_pool_size\<close> are the array
  \<open>initialBlockPool\<close>. A pointer to a block is its index.
\<close>

record 'a block =
  bk_elements :: "'a option list"
  bk_dequeued :: u64
  bk_refs :: u32
  bk_free_next :: "nat option"
  bk_dynamic :: bool

record 'a mheap =
  mh_blocks :: "'a block option list"
  mh_pool_index :: u64
  mh_pool_size :: u64
  mh_free :: "nat option"

definition BLOCK_SIZE :: u64 where
  "BLOCK_SIZE = 32"

definition new_block :: "'a block" where
  "new_block = \<lparr>bk_elements = replicate 32 None, bk_dequeued = 0, bk_refs = 0, bk_free_next = None, bk_dynamic = True\<rparr>"

definition read_block :: "'a mheap \<Rightarrow> nat \<Rightarrow> 'a block res" where
  "read_block h b = (if b \<ge> length (mh_blocks h) then Inl (UB Out_Of_Bounds)
    else case mh_blocks h ! b of None \<Rightarrow> Inl (UB Dead_Object) | Some bk \<Rightarrow> Inr bk)"

definition write_block :: "'a mheap \<Rightarrow> nat \<Rightarrow> 'a block \<Rightarrow> 'a mheap" where
  "write_block h b bk = h\<lparr>mh_blocks := (mh_blocks h)[b := Some bk]\<rparr>"

text \<open>In the context of an implicit producer the block counts the elements that were dequeued.\<close>

definition set_empty :: "'a block \<Rightarrow> bool \<times> 'a block" where
  "set_empty bk = (bk_dequeued bk = BLOCK_SIZE - 1, bk\<lparr>bk_dequeued := bk_dequeued bk + 1\<rparr>)"

definition reset_empty :: "'a block \<Rightarrow> 'a block" where
  "reset_empty bk = bk\<lparr>bk_dequeued := 0\<rparr>"

definition element_slot :: "u64 \<Rightarrow> nat" where
  "element_slot idx = unat (idx AND (BLOCK_SIZE - 1))"

definition construct :: "'a block \<Rightarrow> u64 \<Rightarrow> 'a \<Rightarrow> 'a block" where
  "construct bk idx x = bk\<lparr>bk_elements := (bk_elements bk)[element_slot idx := Some x]\<rparr>"

text \<open>Reading an element out of the block and destroying it.\<close>

definition move_out :: "'a block \<Rightarrow> u64 \<Rightarrow> ('a \<times> 'a block) res" where
  "move_out bk idx = (case bk_elements bk ! element_slot idx of
      None \<Rightarrow> Inl (UB Dead_Object)
    | Some x \<Rightarrow> Inr (x, bk\<lparr>bk_elements := (bk_elements bk)[element_slot idx := None]\<rparr>))"

section \<open>The free list\<close>

text \<open>
  \<open>bk_refs\<close> counts the references to a node, of which the list holds one; its top bit says that
  the node should be put on the list. Without other threads the exchanges succeed, and the loop
  of \<open>try_get\<close> would not end on a node without references.
\<close>

definition SHOULD_BE_ON_FREELIST :: u32 where
  "SHOULD_BE_ON_FREELIST = 0x80000000"

definition REFS_MASK :: u32 where
  "REFS_MASK = 0x7FFFFFFF"

definition add_knowing_refcount_is_zero :: "'a mheap \<Rightarrow> nat \<Rightarrow> 'a mheap res" where
  "add_knowing_refcount_is_zero h node = res_bind (read_block h node) (\<lambda>bk.
    Inr ((write_block h node (bk\<lparr>bk_free_next := mh_free h, bk_refs := 1\<rparr>))\<lparr>mh_free := Some node\<rparr>))"

definition freelist_add :: "'a mheap \<Rightarrow> nat \<Rightarrow> 'a mheap res" where
  "freelist_add h node = res_bind (read_block h node) (\<lambda>bk.
    let h' = write_block h node (bk\<lparr>bk_refs := bk_refs bk + SHOULD_BE_ON_FREELIST\<rparr>) in
    if bk_refs bk = 0 then add_knowing_refcount_is_zero h' node else Inr h')"

definition freelist_try_get :: "'a mheap \<Rightarrow> (nat option \<times> 'a mheap) res" where
  "freelist_try_get h = (case mh_free h of
      None \<Rightarrow> Inr (None, h)
    | Some head \<Rightarrow> res_bind (read_block h head) (\<lambda>bk.
        if bk_refs bk AND REFS_MASK = 0 then Inl Diverges
        else Inr (Some head, (write_block h head (bk\<lparr>bk_refs := bk_refs bk + 1 - 2\<rparr>))\<lparr>mh_free := bk_free_next bk\<rparr>)))"

section \<open>The block pool\<close>

text \<open>\<open>ok\<close> is whether the allocation succeeds.\<close>

definition populate_initial_block_list :: "bool \<Rightarrow> u64 \<Rightarrow> 'a mheap" where
  "populate_initial_block_list ok blockCount =
    (if blockCount = 0 \<or> \<not> ok then \<lparr>mh_blocks = [], mh_pool_index = 0, mh_pool_size = 0, mh_free = None\<rparr>
     else \<lparr>mh_blocks = replicate (unat blockCount) (Some (new_block\<lparr>bk_dynamic := False\<rparr>)), mh_pool_index = 0,
       mh_pool_size = blockCount, mh_free = None\<rparr>)"

definition try_get_block_from_initial_pool :: "'a mheap \<Rightarrow> nat option \<times> 'a mheap" where
  "try_get_block_from_initial_pool h = (if mh_pool_index h \<ge> mh_pool_size h then (None, h)
    else let index = mh_pool_index h in
      (if index < mh_pool_size h then Some (unat index) else None, h\<lparr>mh_pool_index := index + 1\<rparr>))"

definition add_block_to_free_list :: "'a mheap \<Rightarrow> nat \<Rightarrow> 'a mheap res" where
  "add_block_to_free_list h b = res_bind (read_block h b) (\<lambda>bk.
    if bk_dynamic bk then Inr (h\<lparr>mh_blocks := (mh_blocks h)[b := None]\<rparr>) else freelist_add h b)"

definition requisition_block :: "bool \<Rightarrow> 'a mheap \<Rightarrow> (nat option \<times> 'a mheap) res" where
  "requisition_block ok h = (case try_get_block_from_initial_pool h of (Some b, h1) \<Rightarrow> Inr (Some b, h1)
    | (None, h1) \<Rightarrow> res_bind (freelist_try_get h1) (\<lambda>(r, h2). case r of
        Some b \<Rightarrow> Inr (Some b, h2)
      | None \<Rightarrow> if ok then Inr (Some (length (mh_blocks h2)), h2\<lparr>mh_blocks := mh_blocks h2 @ [Some new_block]\<rparr>)
          else Inr (None, h2)))"

section \<open>Who has which block\<close>

definition block_at :: "'a mheap \<Rightarrow> nat \<Rightarrow> 'a block option" where
  "block_at h b = (if b < length (mh_blocks h) then mh_blocks h ! b else None)"

fun free_chain :: "'a mheap \<Rightarrow> nat option \<Rightarrow> nat list \<Rightarrow> bool" where
  "free_chain h p [] \<longleftrightarrow> p = None"
| "free_chain h p (b # bs) \<longleftrightarrow> p = Some b \<and> (\<exists>bk. block_at h b = Some bk \<and> bk_refs bk = 1 \<and> \<not> bk_dynamic bk \<and>
    length (bk_elements bk) = 32 \<and> free_chain h (bk_free_next bk) bs)"

text \<open>A block that is in use, or that never was, has no references from the free list.\<close>

definition idle_block :: "'a mheap \<Rightarrow> nat \<Rightarrow> bool" where
  "idle_block h b \<longleftrightarrow> (\<exists>bk. block_at h b = Some bk \<and> bk_refs bk = 0 \<and> length (bk_elements bk) = 32)"

definition unused_blocks :: "'a mheap \<Rightarrow> nat set" where
  "unused_blocks h = {unat (mh_pool_index h)..<unat (mh_pool_size h)}"

definition live_blocks :: "'a mheap \<Rightarrow> nat set" where
  "live_blocks h = {b. block_at h b \<noteq> None}"

text \<open>The blocks of the initial array stay; those that were allocated later are deleted.\<close>

definition pool_shape :: "'a mheap \<Rightarrow> bool" where
  "pool_shape h \<longleftrightarrow> (\<forall>b bk. block_at h b = Some bk \<longrightarrow> (bk_dynamic bk \<longleftrightarrow> unat (mh_pool_size h) \<le> b)) \<and>
    {..<unat (mh_pool_size h)} \<subseteq> live_blocks h"

text \<open>
  Every block is unused, on the free list, owned by a producer, or deleted; \<open>owned\<close> are the
  blocks of the producers.
\<close>

definition heap_inv :: "'a mheap \<Rightarrow> nat set \<Rightarrow> bool" where
  "heap_inv h owned \<longleftrightarrow> (\<exists>fl. free_chain h (mh_free h) fl \<and> distinct fl \<and> set fl \<inter> owned = {} \<and>
      set fl \<inter> unused_blocks h = {} \<and> live_blocks h \<subseteq> owned \<union> set fl \<union> unused_blocks h) \<and> pool_shape h \<and>
    owned \<inter> unused_blocks h = {} \<and> unat (mh_pool_size h) \<le> length (mh_blocks h) \<and>
    (\<forall>b \<in> owned \<union> unused_blocks h. idle_block h b)"

section \<open>What the operations do\<close>

lemma block_at_write [simp]: "block_at (write_block h b bk) c = (if c = b \<and> b < length (mh_blocks h) then Some bk else block_at h c)"
  by (simp add: block_at_def write_block_def)

lemma write_twice [simp]: "write_block (write_block h b x) b y = write_block h b y"
  by (simp add: write_block_def)

lemma write_block_simps [simp]: "mh_pool_index (write_block h b bk) = mh_pool_index h" "mh_pool_size (write_block h b bk) = mh_pool_size h"
  "mh_free (write_block h b bk) = mh_free h" "length (mh_blocks (write_block h b bk)) = length (mh_blocks h)"
  by (simp_all add: write_block_def)

lemma block_at_update [simp]: "block_at (h\<lparr>mh_pool_index := i\<rparr>) b = block_at h b" "block_at (h\<lparr>mh_free := f\<rparr>) b = block_at h b"
  by (simp_all add: block_at_def)

lemma read_block_Inr: "block_at h b = Some bk \<Longrightarrow> read_block h b = Inr bk"
  by (simp add: block_at_def read_block_def split: if_splits)

lemma block_at_bound: "block_at h b = Some bk \<Longrightarrow> b < length (mh_blocks h)"
  by (simp add: block_at_def split: if_splits)

lemma free_chain_cong: "(\<And>b. b \<in> set fl \<Longrightarrow> block_at h' b = block_at h b) \<Longrightarrow> free_chain h' p fl = free_chain h p fl"
  by (induction fl arbitrary: p) auto

lemma idle_block_cong: "block_at h' b = block_at h b \<Longrightarrow> idle_block h' b = idle_block h b"
  by (simp add: idle_block_def)

lemma live_blocks_simps [simp]: "live_blocks (h\<lparr>mh_pool_index := i\<rparr>) = live_blocks h" "live_blocks (h\<lparr>mh_free := f\<rparr>) = live_blocks h"
  "pool_shape (h\<lparr>mh_pool_index := i\<rparr>) = pool_shape h" "pool_shape (h\<lparr>mh_free := f\<rparr>) = pool_shape h"
  by (simp_all add: live_blocks_def pool_shape_def)

lemma live_blocks_write [simp]: "b \<in> live_blocks h \<Longrightarrow> live_blocks (write_block h b bk) = live_blocks h"
  by (auto simp: live_blocks_def split: if_splits)

lemma pool_shape_write:
  "pool_shape h \<Longrightarrow> block_at h b = Some old \<Longrightarrow> bk_dynamic bk = bk_dynamic old \<Longrightarrow> pool_shape (write_block h b bk)"
  by (auto simp: pool_shape_def live_blocks_def split: if_splits)

lemma live_block: "block_at h b = Some bk \<Longrightarrow> b \<in> live_blocks h"
  by (simp add: live_blocks_def)

lemma heap_invE:
  assumes "heap_inv h owned"
  obtains fl where "free_chain h (mh_free h) fl" "distinct fl" "set fl \<inter> owned = {}" "set fl \<inter> unused_blocks h = {}"
    "owned \<inter> unused_blocks h = {}" "unat (mh_pool_size h) \<le> length (mh_blocks h)" "\<And>b. b \<in> owned \<Longrightarrow> idle_block h b"
    "\<And>b. b \<in> unused_blocks h \<Longrightarrow> idle_block h b" "pool_shape h" "live_blocks h \<subseteq> owned \<union> set fl \<union> unused_blocks h"
  using assms unfolding heap_inv_def by blast

lemma write_owned:
  assumes inv: "heap_inv h owned" and b: "b \<in> owned" and bk: "bk_refs bk = 0" "length (bk_elements bk) = 32"
    and old: "block_at h b = Some old" "bk_dynamic bk = bk_dynamic old"
  shows "heap_inv (write_block h b bk) owned" and "block_at (write_block h b bk) b = Some bk"
proof -
  obtain fl where i: "free_chain h (mh_free h) fl" "distinct fl" "set fl \<inter> owned = {}" "set fl \<inter> unused_blocks h = {}"
    "owned \<inter> unused_blocks h = {}" "unat (mh_pool_size h) \<le> length (mh_blocks h)" "\<And>b. b \<in> owned \<Longrightarrow> idle_block h b"
    "\<And>b. b \<in> unused_blocks h \<Longrightarrow> idle_block h b" "pool_shape h" "live_blocks h \<subseteq> owned \<union> set fl \<union> unused_blocks h"
    using inv by (rule heap_invE) blast
  have lt: "b < length (mh_blocks h)" using i(7) [OF b] by (auto simp: idle_block_def dest: block_at_bound)
  then show "block_at (write_block h b bk) b = Some bk" by simp
  have chain: "free_chain (write_block h b bk) (mh_free h) fl"
    using i(1,3) b by (subst free_chain_cong [of fl _ h]) auto
  have "idle_block (write_block h b bk) c" if "c \<in> owned \<union> unused_blocks h" for c
    using i(7,8) that bk lt by (cases "c = b") (auto simp: idle_block_def)
  moreover have "pool_shape (write_block h b bk)" by (rule pool_shape_write [OF i(9) old])
  ultimately show "heap_inv (write_block h b bk) owned"
    using chain i live_blocks_write [OF live_block [OF old(1)]] unfolding heap_inv_def unused_blocks_def by auto
qed

text \<open>Another block than the owned ones is handed out, and nothing happens to those.\<close>

lemma requisition_spec:
  assumes inv: "heap_inv h owned"
  shows "\<exists>r h'. requisition_block ok h = Inr (r, h') \<and> (\<forall>b \<in> owned. block_at h' b = block_at h b) \<and>
    (case r of None \<Rightarrow> \<not> ok \<and> h' = h | Some b \<Rightarrow> b \<notin> owned \<and> heap_inv h' (insert b owned))"
proof -
  obtain fl where i: "free_chain h (mh_free h) fl" "distinct fl" "set fl \<inter> owned = {}" "set fl \<inter> unused_blocks h = {}"
    "owned \<inter> unused_blocks h = {}" "unat (mh_pool_size h) \<le> length (mh_blocks h)" "\<And>b. b \<in> owned \<Longrightarrow> idle_block h b"
    "\<And>b. b \<in> unused_blocks h \<Longrightarrow> idle_block h b" "pool_shape h" "live_blocks h \<subseteq> owned \<union> set fl \<union> unused_blocks h"
    using inv by (rule heap_invE) blast
  show ?thesis
  proof (cases "mh_pool_index h < mh_pool_size h")
    case True
    let ?b = "unat (mh_pool_index h)" and ?h = "h\<lparr>mh_pool_index := mh_pool_index h + 1\<rparr>"
    have lt: "?b < unat (mh_pool_size h)" using True by (simp add: word_less_nat_alt)
    moreover have "unat (mh_pool_size h) < 2 ^ 64" by (rule u64_lt)
    ultimately have suc: "unat (mh_pool_index h + 1) = Suc ?b" using distance_Suc [of "mh_pool_index h" 0] by simp
    have unused: "unused_blocks h = insert ?b (unused_blocks ?h)" "?b \<notin> unused_blocks ?h"
      using lt suc by (auto simp: unused_blocks_def)
    have "heap_inv ?h (insert ?b owned)"
      unfolding heap_inv_def
    proof (intro conjI exI [of _ fl])
      show "free_chain ?h (mh_free ?h) fl" using i(1) by (subst free_chain_cong [of fl _ h]) simp_all
      show "\<forall>b \<in> insert ?b owned \<union> unused_blocks ?h. idle_block ?h b"
        using i(7,8) unused by (auto simp: idle_block_def)
    qed (use i unused in auto)
    moreover have "?b \<notin> owned" using i(5) unused by auto
    moreover have "\<not> mh_pool_size h \<le> mh_pool_index h" using True by simp
    ultimately show ?thesis using True
      by (intro exI [of _ "Some ?b"] exI [of _ ?h]) (simp add: requisition_block_def try_get_block_from_initial_pool_def Let_def)
  next
    case False
    then have "mh_pool_size h \<le> mh_pool_index h" by simp
    then have pool: "try_get_block_from_initial_pool h = (None, h)" "unused_blocks h = {}"
      by (simp_all add: try_get_block_from_initial_pool_def unused_blocks_def word_le_nat_alt)
    show ?thesis
    proof (cases fl)
      case Nil
      then have none: "freelist_try_get h = Inr (None, h)" using i(1) by (simp add: freelist_try_get_def)
      show ?thesis
      proof (cases ok)
        case True
        let ?b = "length (mh_blocks h)" and ?h = "h\<lparr>mh_blocks := mh_blocks h @ [Some new_block]\<rparr>"
        have keep: "block_at ?h c = block_at h c" if "c \<noteq> ?b" for c using that by (simp add: block_at_def nth_append)
        have fresh: "?b \<notin> owned" using i(7) by (auto simp: idle_block_def dest: block_at_bound)
        have "idle_block ?h c" if "c \<in> insert ?b owned" for c
          using that i(7) keep [of c] by (cases "c = ?b") (auto simp: idle_block_def block_at_def new_block_def)
        moreover have "live_blocks ?h = insert ?b (live_blocks h)" by (auto simp: live_blocks_def block_at_def nth_append)
        moreover have "pool_shape ?h" using i(6,9)
          by (fastforce simp: pool_shape_def live_blocks_def block_at_def nth_append new_block_def split: if_splits)
        ultimately have "heap_inv ?h (insert ?b owned)" using i(1,6,10) Nil pool(2)
          by (auto intro!: exI [of _ "[]"] simp: heap_inv_def unused_blocks_def)
        moreover have "\<forall>c \<in> owned. block_at ?h c = block_at h c" using keep fresh by metis
        ultimately show ?thesis using fresh True
          by (intro exI [of _ "Some ?b"] exI [of _ ?h]) (simp add: requisition_block_def pool none)
      qed (use none pool in \<open>simp add: requisition_block_def\<close>)
    next
      case (Cons b bs)
      then obtain bk where b: "mh_free h = Some b" "block_at h b = Some bk" "bk_refs bk = 1" "\<not> bk_dynamic bk"
        "length (bk_elements bk) = 32" "free_chain h (bk_free_next bk) bs" using i(1) by auto
      let ?bk = "bk\<lparr>bk_refs := 0\<rparr>"
      let ?h = "(write_block h b ?bk)\<lparr>mh_free := bk_free_next bk\<rparr>"
      have nin: "b \<notin> owned" "b \<notin> set bs" using i(2,3) Cons by auto
      have lt: "b < length (mh_blocks h)" using b(2) by (rule block_at_bound)
      have get: "freelist_try_get h = Inr (Some b, ?h)"
        using b by (simp add: freelist_try_get_def read_block_Inr REFS_MASK_def)
      have "heap_inv ?h (insert b owned)"
        unfolding heap_inv_def
      proof (intro conjI exI [of _ bs])
        show "free_chain ?h (mh_free ?h) bs" using b(6) nin by (subst free_chain_cong [of bs _ h]) auto
        show "pool_shape ?h" using pool_shape_write [OF i(9) b(2), of ?bk] by simp
        show "live_blocks ?h \<subseteq> insert b owned \<union> set bs \<union> unused_blocks ?h"
          using i(10) Cons live_block [OF b(2)] pool(2) by auto
        show "\<forall>c \<in> insert b owned \<union> unused_blocks ?h. idle_block ?h c"
          using i(7) lt b(5) pool(2) nin by (auto simp: idle_block_def unused_blocks_def)
      qed (use i nin Cons pool in \<open>auto simp: unused_blocks_def\<close>)
      with get nin pool show ?thesis
        by (intro exI [of _ "Some b"] exI [of _ ?h]) (auto simp: requisition_block_def)
    qed
  qed
qed

lemma release_spec:
  assumes inv: "heap_inv h owned" and b: "b \<in> owned"
  shows "\<exists>h'. add_block_to_free_list h b = Inr h' \<and> heap_inv h' (owned - {b}) \<and>
    (\<forall>c \<in> owned - {b}. block_at h' c = block_at h c)"
proof -
  obtain fl where i: "free_chain h (mh_free h) fl" "distinct fl" "set fl \<inter> owned = {}" "set fl \<inter> unused_blocks h = {}"
    "owned \<inter> unused_blocks h = {}" "unat (mh_pool_size h) \<le> length (mh_blocks h)" "\<And>b. b \<in> owned \<Longrightarrow> idle_block h b"
    "\<And>b. b \<in> unused_blocks h \<Longrightarrow> idle_block h b" "pool_shape h" "live_blocks h \<subseteq> owned \<union> set fl \<union> unused_blocks h"
    using inv by (rule heap_invE) blast
  obtain bk where bk: "block_at h b = Some bk" "bk_refs bk = 0" "length (bk_elements bk) = 32"
    using i(7) [OF b] by (auto simp: idle_block_def)
  have lt: "b < length (mh_blocks h)" using bk(1) by (rule block_at_bound)
  show ?thesis
  proof (cases "bk_dynamic bk")
    case True
    let ?h = "h\<lparr>mh_blocks := (mh_blocks h)[b := None]\<rparr>"
    have keep: "block_at ?h c = block_at h c" if "c \<noteq> b" for c using that by (simp add: block_at_def)
    have "heap_inv ?h (owned - {b})"
      unfolding heap_inv_def
    proof (intro conjI exI [of _ fl])
      have "live_blocks ?h = live_blocks h - {b}"
        using lt by (auto simp: live_blocks_def block_at_def nth_list_update split: if_splits)
      then show "live_blocks ?h \<subseteq> owned - {b} \<union> set fl \<union> unused_blocks ?h" using i(10) by (auto simp: unused_blocks_def)
      have "unat (mh_pool_size h) \<le> b" using i(9) True bk(1) by (auto simp: pool_shape_def)
      then show "pool_shape ?h" using i(9) lt
        by (auto simp: pool_shape_def live_blocks_def block_at_def nth_list_update split: if_splits)
      have "\<And>c. c \<in> set fl \<Longrightarrow> c \<noteq> b" using i(3) b by auto
      then show "free_chain ?h (mh_free ?h) fl" using i(1) free_chain_cong [OF keep] by simp
      show "\<forall>c \<in> owned - {b} \<union> unused_blocks ?h. idle_block ?h c"
      proof
        fix c assume c: "c \<in> owned - {b} \<union> unused_blocks ?h"
        then have "c \<noteq> b" using i(5) b by (auto simp: unused_blocks_def)
        moreover have "idle_block h c" using c i(7,8) by (auto simp: unused_blocks_def)
        ultimately show "idle_block ?h c" unfolding idle_block_def using keep [of c] by metis
      qed
    qed (use i in \<open>auto simp: unused_blocks_def\<close>)
    then show ?thesis using True bk(1) keep by (auto simp: add_block_to_free_list_def read_block_Inr)
  next
    case False
    let ?bk = "bk\<lparr>bk_refs := SHOULD_BE_ON_FREELIST\<rparr>"
    let ?bk' = "?bk\<lparr>bk_free_next := mh_free h, bk_refs := 1\<rparr>"
    let ?h1 = "write_block h b ?bk"
    let ?h = "(write_block ?h1 b ?bk')\<lparr>mh_free := Some b\<rparr>"
    have "block_at ?h1 b = Some ?bk" using lt by simp
    then have run: "add_block_to_free_list h b = Inr ?h"
      using False bk
      by (simp add: add_block_to_free_list_def freelist_add_def add_knowing_refcount_is_zero_def read_block_Inr Let_def)
    have keep: "block_at ?h c = block_at h c" if "c \<noteq> b" for c using that by simp
    have at: "block_at ?h b = Some ?bk'" using lt by simp
    have "heap_inv ?h (owned - {b})"
      unfolding heap_inv_def
    proof (intro conjI exI [of _ "b # fl"])
      have "free_chain ?h (mh_free h) fl" using i(1,3) b keep by (subst free_chain_cong [of fl _ h]) auto
      then show "free_chain ?h (mh_free ?h) (b # fl)" using at bk(3) False by simp
      have "pool_shape ?h1" using pool_shape_write [OF i(9) bk(1)] by simp
      moreover have "block_at ?h1 b = Some ?bk" using lt by simp
      ultimately have "pool_shape (write_block ?h1 b ?bk')" by (rule pool_shape_write) simp
      then show "pool_shape ?h" by simp
      have "live_blocks ?h = live_blocks h" using live_block [OF bk(1)] by simp
      then show "live_blocks ?h \<subseteq> owned - {b} \<union> set (b # fl) \<union> unused_blocks ?h" using i(10) by (auto simp: unused_blocks_def)
      show "\<forall>c \<in> owned - {b} \<union> unused_blocks ?h. idle_block ?h c"
      proof
        fix c assume c: "c \<in> owned - {b} \<union> unused_blocks ?h"
        then have "c \<noteq> b" using i(5) b by (auto simp: unused_blocks_def)
        moreover have "idle_block h c" using c i(7,8) by (auto simp: unused_blocks_def)
        ultimately show "idle_block ?h c" unfolding idle_block_def using keep [of c] by metis
      qed
    qed (use i b in \<open>auto simp: unused_blocks_def\<close>)
    with run keep show ?thesis by (intro exI [of _ ?h]) auto
  qed
qed

lemma populate_inv:
  "heap_inv (populate_initial_block_list ok n) {}"
  by (auto intro!: exI [of _ "[]"] simp: populate_initial_block_list_def heap_inv_def unused_blocks_def idle_block_def block_at_def
      new_block_def live_blocks_def pool_shape_def split: if_splits)

end
