(* ===== verification/MoodyIndex.thy ===== *)
theory MoodyIndex
  imports MoodyHeap "HOL-Library.Signed_Division"
begin

text \<open>
  The block index of an implicit producer (\<^verbatim>\<open>ConcurrentQueue::ImplicitProducer\<close> in
  moodycamel/concurrentqueue.h): a ring of pointers to entries that maps the index of the first
  element of a block to the block, and doubles when it is full.
\<close>

section \<open>Model\<close>

text \<open>
  \<open>ih_index\<close> points into the entries \<open>pr_entries\<close> of all the arrays the producer has allocated
  so far; a larger index shares the entries of the one before it. The links to the old indices are
  only followed by the destructor and left out.
\<close>

record index_entry =
  ie_key :: u64
  ie_value :: "nat option"

record index_header =
  ih_capacity :: u64
  ih_tail :: u64
  ih_index :: "nat list"

record producer =
  pr_tail :: u64
  pr_head :: u64
  pr_optimistic :: u64
  pr_overcommit :: u64
  pr_tail_block :: "nat option"
  pr_inactive :: bool
  pr_entries :: "index_entry list"
  pr_header :: "index_header option"
  pr_next_capacity :: u64

definition IMPLICIT_INITIAL_INDEX_SIZE :: u64 where
  "IMPLICIT_INITIAL_INDEX_SIZE = 32"

definition INVALID_BLOCK_BASE :: u64 where
  "INVALID_BLOCK_BASE = 1"

text \<open>\<^verbatim>\<open>malloc\<close> fails when it has no memory, and for more than \<open>2 ^ 63 - 1\<close> bytes.\<close>

definition malloc_succeeds :: "bool \<Rightarrow> u64 \<Rightarrow> bool" where
  "malloc_succeeds ok bytes \<longleftrightarrow> ok \<and> bytes < 2 ^ 63"

definition new_block_index :: "bool \<Rightarrow> producer \<Rightarrow> bool \<times> producer" where
  "new_block_index ok p = (
    let prevCapacity = (case pr_header p of None \<Rightarrow> 0 | Some prev \<Rightarrow> ih_capacity prev);
        entryCount = (case pr_header p of None \<Rightarrow> pr_next_capacity p | Some prev \<Rightarrow> prevCapacity);
        old = (case pr_header p of None \<Rightarrow> []
          | Some prev \<Rightarrow> map (\<lambda>i. ih_index prev ! unat ((ih_tail prev + 1 + of_nat i) AND (ih_capacity prev - 1))) [0..<unat prevCapacity]);
        n = length (pr_entries p) in
    if \<not> malloc_succeeds ok (40 + 7 + 16 * entryCount + 7 + 8 * pr_next_capacity p) then (False, p)
    else (True, p\<lparr>pr_entries := pr_entries p @ replicate (unat entryCount) \<lparr>ie_key = INVALID_BLOCK_BASE, ie_value = None\<rparr>,
      pr_header := Some \<lparr>ih_capacity = pr_next_capacity p, ih_tail = (prevCapacity - 1) AND (pr_next_capacity p - 1),
        ih_index = old @ [n..<n + unat entryCount]\<rparr>,
      pr_next_capacity := push_bit 1 (pr_next_capacity p)\<rparr>))"

definition new_producer :: "bool \<Rightarrow> producer" where
  "new_producer ok = snd (new_block_index ok \<lparr>pr_tail = 0, pr_head = 0, pr_optimistic = 0, pr_overcommit = 0,
     pr_tail_block = None, pr_inactive = False, pr_entries = [], pr_header = None,
     pr_next_capacity = IMPLICIT_INITIAL_INDEX_SIZE\<rparr>)"

text \<open>The entry that was reserved, or \<open>None\<close> if there is no index or no larger one.\<close>

definition reserve_entry :: "producer \<Rightarrow> index_header \<Rightarrow> u64 \<Rightarrow> u64 \<Rightarrow> producer" where
  "reserve_entry p ix newTail blockStartIndex = (let e = ih_index ix ! unat newTail in
    p\<lparr>pr_entries := (pr_entries p)[e := (pr_entries p ! e)\<lparr>ie_key := blockStartIndex\<rparr>], pr_header := Some (ix\<lparr>ih_tail := newTail\<rparr>)\<rparr>)"

definition insert_block_index_entry :: "bool \<Rightarrow> u64 \<Rightarrow> producer \<Rightarrow> nat option \<times> producer" where
  "insert_block_index_entry ok blockStartIndex p = (case pr_header p of None \<Rightarrow> (None, p)
    | Some ix \<Rightarrow>
      let newTail = (ih_tail ix + 1) AND (ih_capacity ix - 1); e = ih_index ix ! unat newTail in
      if ie_key (pr_entries p ! e) = INVALID_BLOCK_BASE \<or> ie_value (pr_entries p ! e) = None
      then (Some e, reserve_entry p ix newTail blockStartIndex)
      else (case new_block_index ok p of (False, p') \<Rightarrow> (None, p')
        | (True, p') \<Rightarrow> (case pr_header p' of None \<Rightarrow> (None, p')
          | Some ix' \<Rightarrow> let newTail' = (ih_tail ix' + 1) AND (ih_capacity ix' - 1) in
              (Some (ih_index ix' ! unat newTail'), reserve_entry p' ix' newTail' blockStartIndex))))"

definition set_entry_value :: "nat \<Rightarrow> nat option \<Rightarrow> producer \<Rightarrow> producer" where
  "set_entry_value e v p = p\<lparr>pr_entries := (pr_entries p)[e := (pr_entries p ! e)\<lparr>ie_value := v\<rparr>]\<rparr>"

definition rewind_block_index_tail :: "producer \<Rightarrow> producer" where
  "rewind_block_index_tail p = p\<lparr>pr_header :=
     map_option (\<lambda>ix. ix\<lparr>ih_tail := (ih_tail ix - 1) AND (ih_capacity ix - 1)\<rparr>) (pr_header p)\<rparr>"

text \<open>
  The division is signed: the block usually lies behind the last one, so the offset is not positive;
  it may be while \<^verbatim>\<open>enqueue_bulk\<close> gives blocks back.
\<close>

definition get_block_index_index_for_index :: "u64 \<Rightarrow> producer \<Rightarrow> nat res" where
  "get_block_index_index_for_index index p = (case pr_header p of None \<Rightarrow> Inl (UB Null_Deref)
    | Some ix \<Rightarrow> if unat (ih_tail ix) \<ge> length (ih_index ix) then Inl (UB Out_Of_Bounds) else
      let base = index AND NOT (BLOCK_SIZE - 1);
          tailBase = ie_key (pr_entries p ! (ih_index ix ! unat (ih_tail ix)));
          offset = word_of_int (sint (base - tailBase) sdiv sint BLOCK_SIZE)
      in Inr (unat ((ih_tail ix + offset) AND (ih_capacity ix - 1))))"

definition get_block_index_entry_for_index :: "u64 \<Rightarrow> producer \<Rightarrow> nat res" where
  "get_block_index_entry_for_index index p = (case pr_header p of None \<Rightarrow> Inl (UB Null_Deref)
    | Some ix \<Rightarrow> res_bind (get_block_index_index_for_index index p) (\<lambda>idx.
        if idx \<ge> length (ih_index ix) then Inl (UB Out_Of_Bounds) else Inr (ih_index ix ! idx)))"

section \<open>What the index holds\<close>

text \<open>The entry \<open>d\<close> places behind the tail of a ring of size \<open>n\<close>.\<close>

definition behind :: "nat \<Rightarrow> nat \<Rightarrow> nat \<Rightarrow> nat" where
  "behind n t d = (t + n - d) mod n"

definition index_wf :: "nat \<Rightarrow> producer \<Rightarrow> index_header \<Rightarrow> bool" where
  "index_wf k p ix \<longleftrightarrow> pr_header p = Some ix \<and> k \<le> 58 \<and> ih_capacity ix = 2 ^ k \<and> length (ih_index ix) = 2 ^ k \<and>
    distinct (ih_index ix) \<and> set (ih_index ix) \<subseteq> {..<length (pr_entries p)} \<and> unat (ih_tail ix) < 2 ^ k \<and>
    pr_next_capacity p = 2 ^ Suc k"

definition entry_behind :: "nat \<Rightarrow> producer \<Rightarrow> index_header \<Rightarrow> nat \<Rightarrow> index_entry" where
  "entry_behind k p ix d = pr_entries p ! (ih_index ix ! behind (2 ^ k) (unat (ih_tail ix)) d)"

definition free_entry :: "index_entry \<Rightarrow> bool" where
  "free_entry e \<longleftrightarrow> ie_key e = INVALID_BLOCK_BASE \<or> ie_value e = None"

text \<open>
  \<open>B\<close> blocks were started so far, of which the last ones, \<open>bs\<close> from the newest to the oldest,
  are in use; all other entries are free.
\<close>

definition index_holds :: "producer \<Rightarrow> nat \<Rightarrow> nat list \<Rightarrow> bool" where
  "index_holds p B bs \<longleftrightarrow> length bs \<le> B \<and> (\<exists>k ix. index_wf k p ix \<and> length bs \<le> 2 ^ k \<and>
    (\<forall>d < length bs. entry_behind k p ix d = \<lparr>ie_key = of_nat (32 * (B - Suc d)), ie_value = Some (bs ! d)\<rparr>) \<and>
    (\<forall>d. length bs \<le> d \<and> d < 2 ^ k \<longrightarrow> free_entry (entry_behind k p ix d)))"

text \<open>Between the reservation of an entry and the store of its block.\<close>

definition index_reserved :: "producer \<Rightarrow> nat \<Rightarrow> nat list \<Rightarrow> nat \<Rightarrow> bool" where
  "index_reserved p B bs e \<longleftrightarrow> length bs \<le> B \<and> (\<exists>k ix. index_wf k p ix \<and> length bs < 2 ^ k \<and>
    e = ih_index ix ! unat (ih_tail ix) \<and> ie_key (pr_entries p ! e) = of_nat (32 * B) \<and>
    (\<forall>d < length bs. entry_behind k p ix (Suc d) = \<lparr>ie_key = of_nat (32 * (B - Suc d)), ie_value = Some (bs ! d)\<rparr>) \<and>
    (\<forall>d. length bs \<le> d \<and> Suc d < 2 ^ k \<longrightarrow> free_entry (entry_behind k p ix (Suc d))))"

section \<open>Ring positions\<close>

lemma behind_0: "t < n \<Longrightarrow> behind n t 0 = t"
  by (simp add: behind_def)

lemma behind_lt: "0 < n \<Longrightarrow> behind n t d < n"
  by (simp add: behind_def)

lemma behind_inj:
  assumes "d < n" "e < n" "behind n t d = behind n t e"
  shows "d = e"
proof -
  have "t + 1 + (n - Suc d) = t + n - d" "t + 1 + (n - Suc e) = t + n - e" using assms(1,2) by linarith+
  with assms(3) have "(t + 1 + (n - Suc d)) mod n = (t + 1 + (n - Suc e)) mod n" unfolding behind_def by (simp only:)
  then have "n - Suc d = n - Suc e" using mod_add_eq_iff [of "n - Suc d" n "n - Suc e" "t + 1"] assms by simp
  then show ?thesis using assms by linarith
qed

lemma behind_Suc:
  assumes "Suc d \<le> n"
  shows "behind n (Suc t mod n) (Suc d) = behind n t d"
proof -
  have "(Suc t mod n + n - Suc d) mod n = (Suc t mod n + (n - Suc d)) mod n" using assms by simp
  also have "\<dots> = (Suc t + (n - Suc d)) mod n" by (simp only: mod_add_left_eq)
  also have "Suc t + (n - Suc d) = t + n - d" using assms by linarith
  finally show ?thesis by (simp add: behind_def)
qed

lemma behind_last: "0 < n \<Longrightarrow> behind n t (n - 1) = Suc t mod n"
  by (simp add: behind_def)

lemma unat_sub_of_nat_mask:
  fixes w :: u64
  assumes k: "k \<le> 64" and d: "d \<le> 2 ^ k"
  shows "unat ((w - of_nat d) AND (2 ^ k - 1)) = (unat w + 2 ^ k - d) mod 2 ^ k"
proof -
  have le: "(2 :: nat) ^ k \<le> 2 ^ 64" using k by (intro power_increasing) simp_all
  obtain m :: nat where m: "2 ^ 64 = 2 ^ k * m" using k le_imp_power_dvd [of k 64 "2 :: nat"] by (auto elim: dvdE)
  have "m \<noteq> 0" using m by (intro notI) simp
  then obtain m' where m': "m = Suc m'" using not0_implies_Suc by blast
  have "(of_nat (2 ^ 64 - d) :: u64) = of_nat (2 ^ 64) - of_nat d" using d le by (subst of_nat_diff) simp_all
  also have "\<dots> = - of_nat d" by simp
  finally have "w - of_nat d = w + of_nat (2 ^ 64 - d)" by simp
  then have "unat ((w - of_nat d) AND (2 ^ k - 1)) = (unat w + (2 ^ 64 - d)) mod 2 ^ k"
    using k by (simp only: unat_add_of_nat_mask)
  also have "unat w + (2 ^ 64 - d) = unat w + 2 ^ k - d + 2 ^ k * m'" unfolding m m' using d by simp
  also have "(unat w + 2 ^ k - d + 2 ^ k * m') mod 2 ^ k = (unat w + 2 ^ k - d) mod 2 ^ k" by simp
  finally show ?thesis .
qed

section \<open>The operations on the index\<close>

lemma index_wfD:
  assumes "index_wf k p ix"
  shows "pr_header p = Some ix" "k \<le> 58" "ih_capacity ix = 2 ^ k" "length (ih_index ix) = 2 ^ k" "distinct (ih_index ix)"
    "set (ih_index ix) \<subseteq> {..<length (pr_entries p)}" "unat (ih_tail ix) < 2 ^ k" "pr_next_capacity p = 2 ^ Suc k"
  using assms by (simp_all add: index_wf_def)

text \<open>Reserving the next entry of an index that has room.\<close>

lemma reserve_spec:
  assumes holds: "index_holds p B bs" and wf: "index_wf k p ix" and room: "length bs < 2 ^ k"
  defines "nt \<equiv> (ih_tail ix + 1) AND (ih_capacity ix - 1)"
  shows "index_reserved (reserve_entry p ix nt (of_nat (32 * B))) B bs (ih_index ix ! unat nt)"
    and "free_entry (pr_entries p ! (ih_index ix ! unat nt))"
proof -
  note w = index_wfD [OF wf]
  obtain k' ix' where h: "index_wf k' p ix'" "length bs \<le> 2 ^ k'" "length bs \<le> B"
    "\<And>d. d < length bs \<Longrightarrow> entry_behind k' p ix' d = \<lparr>ie_key = of_nat (32 * (B - Suc d)), ie_value = Some (bs ! d)\<rparr>"
    "\<And>d. length bs \<le> d \<Longrightarrow> d < 2 ^ k' \<Longrightarrow> free_entry (entry_behind k' p ix' d)"
    using holds unfolding index_holds_def by blast
  have eq: "ix' = ix" "k' = k" using index_wfD(1,4) [OF h(1)] w(1,4) by auto
  let ?n = "(2 :: nat) ^ k" and ?t = "unat (ih_tail ix)"
  have nt: "unat nt = Suc ?t mod ?n" unfolding nt_def w(3) using w(2) by (intro unat_succ_mask) simp
  have nt_last: "unat nt = behind ?n ?t (?n - 1)" using behind_last [of ?n ?t] nt by simp
  define e where "e = ih_index ix ! unat nt"
  have lt: "unat nt < length (ih_index ix)" using nt w(4) by simp
  have "e \<in> set (ih_index ix)" unfolding e_def using lt by (rule nth_mem)
  then have e: "e < length (pr_entries p)" using w(6) by blast
  define p' where "p' = reserve_entry p ix nt (of_nat (32 * B))"
  define jx where "jx = ix\<lparr>ih_tail := nt\<rparr>"
  have p': "pr_entries p' = (pr_entries p)[e := (pr_entries p ! e)\<lparr>ie_key := of_nat (32 * B)\<rparr>]" "pr_header p' = Some jx"
    "pr_next_capacity p' = pr_next_capacity p"
    by (simp_all add: p'_def reserve_entry_def Let_def e_def jx_def)
  have wf': "index_wf k p' jx" using w nt by (simp add: index_wf_def p' jx_def)
  have old: "entry_behind k p' jx (Suc d) = entry_behind k p ix d" if "Suc d < ?n" for d
  proof -
    have pos: "behind ?n (unat nt) (Suc d) = behind ?n ?t d" using that unfolding nt by (intro behind_Suc) simp
    have "behind ?n ?t d \<noteq> unat nt" using behind_inj [of d ?n "?n - 1" ?t] that nt_last by auto
    then have "ih_index ix ! behind ?n ?t d \<noteq> e"
      unfolding e_def using w(4,5) lt behind_lt [of ?n ?t d] by (simp add: nth_eq_iff_index_eq)
    then show ?thesis by (simp add: entry_behind_def jx_def pos p'(1))
  qed
  have "index_reserved p' B bs e"
    unfolding index_reserved_def
  proof (intro conjI exI [of _ k] exI [of _ jx] allI impI)
    fix d assume d: "d < length bs"
    then have "Suc d < ?n \<or> False" using room by linarith
    then show "entry_behind k p' jx (Suc d) = \<lparr>ie_key = of_nat (32 * (B - Suc d)), ie_value = Some (bs ! d)\<rparr>"
      using old h(4) [unfolded eq, OF d] by simp
  next
    fix d assume "length bs \<le> d \<and> Suc d < ?n"
    then show "free_entry (entry_behind k p' jx (Suc d))" using old h(5) [unfolded eq, of d] by simp
  qed (use h(3) wf' room e in \<open>auto simp: jx_def e_def [symmetric] p'(1)\<close>)
  then show "index_reserved (reserve_entry p ix nt (of_nat (32 * B))) B bs (ih_index ix ! unat nt)"
    by (simp add: p'_def e_def)
  have "free_entry (entry_behind k p ix (?n - 1))" using h(5) [unfolded eq, of "?n - 1"] room by simp
  then show "free_entry (pr_entries p ! (ih_index ix ! unat nt))" by (simp add: entry_behind_def nt_last)
qed

lemma index_holdsE:
  assumes "index_holds p B bs"
  obtains k ix where "length bs \<le> B" "index_wf k p ix" "length bs \<le> 2 ^ k"
    "\<And>d. d < length bs \<Longrightarrow> entry_behind k p ix d = \<lparr>ie_key = of_nat (32 * (B - Suc d)), ie_value = Some (bs ! d)\<rparr>"
    "\<And>d. length bs \<le> d \<Longrightarrow> d < 2 ^ k \<Longrightarrow> free_entry (entry_behind k p ix d)"
  using assms unfolding index_holds_def by blast

lemma index_reservedE:
  assumes "index_reserved p B bs e"
  obtains k ix where "length bs \<le> B" "index_wf k p ix" "length bs < 2 ^ k" "e = ih_index ix ! unat (ih_tail ix)"
    "ie_key (pr_entries p ! e) = of_nat (32 * B)"
    "\<And>d. d < length bs \<Longrightarrow> entry_behind k p ix (Suc d) = \<lparr>ie_key = of_nat (32 * (B - Suc d)), ie_value = Some (bs ! d)\<rparr>"
    "\<And>d. length bs \<le> d \<Longrightarrow> Suc d < 2 ^ k \<Longrightarrow> free_entry (entry_behind k p ix (Suc d))"
  using assms unfolding index_reserved_def by blast

text \<open>The other fields of the producer.\<close>

lemma index_fields [simp]:
  "pr_tail (set_entry_value e v p) = pr_tail p" "pr_head (set_entry_value e v p) = pr_head p"
  "pr_optimistic (set_entry_value e v p) = pr_optimistic p" "pr_overcommit (set_entry_value e v p) = pr_overcommit p"
  "pr_tail_block (set_entry_value e v p) = pr_tail_block p" "pr_inactive (set_entry_value e v p) = pr_inactive p"
  "pr_tail (rewind_block_index_tail p) = pr_tail p" "pr_head (rewind_block_index_tail p) = pr_head p"
  "pr_optimistic (rewind_block_index_tail p) = pr_optimistic p" "pr_overcommit (rewind_block_index_tail p) = pr_overcommit p"
  "pr_tail_block (rewind_block_index_tail p) = pr_tail_block p" "pr_inactive (rewind_block_index_tail p) = pr_inactive p"
  by (simp_all add: set_entry_value_def rewind_block_index_tail_def)

definition same_counters :: "producer \<Rightarrow> producer \<Rightarrow> bool" where
  "same_counters p p' \<longleftrightarrow> pr_tail p' = pr_tail p \<and> pr_head p' = pr_head p \<and> pr_optimistic p' = pr_optimistic p \<and>
    pr_overcommit p' = pr_overcommit p \<and> pr_tail_block p' = pr_tail_block p \<and> pr_inactive p' = pr_inactive p"

lemma same_counters_reserve: "same_counters p (reserve_entry p ix nt s)"
  by (simp add: same_counters_def reserve_entry_def Let_def)

lemma new_block_index_counters: "new_block_index ok p = (b, p') \<Longrightarrow> same_counters p p'"
  by (auto simp: new_block_index_def Let_def same_counters_def split: if_splits)

lemma entry_position:
  assumes "index_wf k p ix" and "d < 2 ^ k"
  shows "ih_index ix ! behind (2 ^ k) (unat (ih_tail ix)) d < length (pr_entries p)"
proof -
  have "behind (2 ^ k) (unat (ih_tail ix)) d < length (ih_index ix)" using index_wfD(4) [OF assms(1)] by (simp add: behind_lt)
  then have "ih_index ix ! behind (2 ^ k) (unat (ih_tail ix)) d \<in> set (ih_index ix)" by (rule nth_mem)
  then show ?thesis using index_wfD(6) [OF assms(1)] by blast
qed

text \<open>A larger index holds the same blocks.\<close>

lemma grow_spec:
  assumes holds: "index_holds p B bs" and wf: "index_wf k p ix"
  shows "new_block_index ok p = (False, p) \<and> (\<not> ok \<or> k = 58) \<or>
    (\<exists>p' ix'. new_block_index ok p = (True, p') \<and> index_holds p' B bs \<and> index_wf (Suc k) p' ix')"
proof -
  note w = index_wfD [OF wf]
  let ?n = "(2 :: nat) ^ k" and ?t = "unat (ih_tail ix)" and ?m = "length (pr_entries p)"
  have n: "unat (2 ^ k :: u64) = ?n" "unat (2 ^ Suc k :: u64) = 2 * ?n" using w(2) unat_2p [of k] unat_2p [of "Suc k"] by simp_all
  have le: "?n \<le> 2 ^ 58" using w(2) by (intro power_increasing) simp_all
  define bytes :: u64 where "bytes = 40 + 7 + 16 * 2 ^ k + 7 + 8 * 2 ^ Suc k"
  have "bytes = of_nat (54 + 32 * ?n)" by (simp add: bytes_def)
  moreover have "54 + 32 * ?n < 2 ^ 64" using le by simp
  ultimately have bytes: "unat bytes = 54 + 32 * ?n" by (simp only: unat_of_nat_u64)
  have small: "bytes < 2 ^ 63 \<longleftrightarrow> 54 + 32 * ?n < 2 ^ 63" by (simp add: word_less_nat_alt bytes)
  define old where "old = map (\<lambda>i. ih_index ix ! unat ((ih_tail ix + 1 + of_nat i) AND (2 ^ k - 1))) [0..<?n]"
  define p' where "p' = p\<lparr>pr_entries := pr_entries p @ replicate ?n \<lparr>ie_key = INVALID_BLOCK_BASE, ie_value = None\<rparr>,
      pr_header := Some \<lparr>ih_capacity = 2 ^ Suc k, ih_tail = (2 ^ k - 1) AND (2 ^ Suc k - 1), ih_index = old @ [?m..<?m + ?n]\<rparr>,
      pr_next_capacity := push_bit 1 (2 ^ Suc k)\<rparr>"
  have run: "new_block_index ok p = (if ok \<and> bytes < 2 ^ 63 then (True, p') else (False, p))"
    unfolding new_block_index_def Let_def w(1) option.case w(3,8) n old_def [symmetric] malloc_succeeds_def bytes_def [symmetric]
    by (simp add: p'_def)
  show ?thesis
  proof (cases "ok \<and> bytes < 2 ^ 63")
    case False
    have "k = 58" if "ok"
    proof (rule ccontr)
      assume "k \<noteq> 58"
      then have "k \<le> 57" using w(2) by simp
      then have "?n \<le> 2 ^ 57" by (intro power_increasing) simp_all
      then have "54 + 32 * ?n < 2 ^ 63" by simp
      with small False that show False by simp
    qed
    with run False show ?thesis by auto
  next
    case True
    have k57: "k \<le> 57"
    proof (rule ccontr)
      assume "\<not> k \<le> 57"
      then have "k = 58" using w(2) by simp
      with small True show False by simp
    qed
    define jx where "jx = \<lparr>ih_capacity = 2 ^ Suc k, ih_tail = (2 ^ k - 1) AND (2 ^ Suc k - 1), ih_index = old @ [?m..<?m + ?n]\<rparr>"
    have t': "unat (ih_tail jx) = ?n - 1"
    proof -
      have "unat (ih_tail jx) = unat (2 ^ k - 1 :: u64) mod 2 ^ Suc k" unfolding jx_def index_header.simps
        using k57 by (intro unat_and_mask) simp
      also have "unat (2 ^ k - 1 :: u64) = ?n - 1" using n(1) unat_minus_one [of "2 ^ k :: u64"] k57 by simp
      also have "(?n - 1) mod 2 ^ Suc k = ?n - 1" by (rule mod_less) (simp add: less_imp_diff_less)
      finally show ?thesis .
    qed
    have old_nth: "old ! i = ih_index ix ! ((?t + 1 + i) mod ?n)" if "i < ?n" for i
    proof -
      have "unat ((ih_tail ix + 1 + of_nat i) AND (2 ^ k - 1)) = (?t + 1 + i) mod ?n"
        using unat_add_of_nat_mask [of k "ih_tail ix" "Suc i"] w(2) by (simp add: add.assoc)
      with that show ?thesis by (simp add: old_def)
    qed
    have len_old: "length old = ?n" by (simp add: old_def)
    have set_old: "set old \<subseteq> set (ih_index ix)"
    proof
      fix e assume "e \<in> set old"
      then obtain i where "i < ?n" "e = ih_index ix ! ((?t + 1 + i) mod ?n)" using old_nth len_old by (auto simp: in_set_conv_nth)
      moreover have "(?t + 1 + i) mod ?n < length (ih_index ix)" using w(4) by simp
      ultimately show "e \<in> set (ih_index ix)" using nth_mem by blast
    qed
    have "distinct old"
      unfolding distinct_conv_nth
    proof (intro allI impI)
      fix i j assume ij: "i < length old" "j < length old" "i \<noteq> j"
      then have "(?t + 1 + i) mod ?n \<noteq> (?t + 1 + j) mod ?n" using mod_add_eq_iff [of i ?n j "?t + 1"] len_old by simp
      then show "old ! i \<noteq> old ! j" using ij len_old old_nth w(4,5) by (simp add: nth_eq_iff_index_eq)
    qed
    then have wf': "index_wf (Suc k) p' jx"
      unfolding index_wf_def using k57 w(6) set_old len_old t' by (auto simp: p'_def jx_def push_bit_eq_mult less_imp_diff_less)
    have low: "entry_behind (Suc k) p' jx d = entry_behind k p ix d" if d: "d < ?n" for d
    proof -
      have "behind (2 * ?n) (?n - 1) d = ?n - 1 - d"
      proof -
        have "?n - 1 + 2 * ?n - d = ?n - 1 - d + 2 * ?n" using d by linarith
        then have "behind (2 * ?n) (?n - 1) d = (?n - 1 - d) mod (2 * ?n)" unfolding behind_def by (simp only: mod_add_self2)
        moreover have "?n - 1 - d < 2 * ?n" using d by linarith
        ultimately show ?thesis by (simp only: mod_less)
      qed
      moreover have "?t + 1 + (?n - 1 - d) = ?t + ?n - d" using d by linarith
      ultimately have "ih_index jx ! behind (2 ^ Suc k) (unat (ih_tail jx)) d = ih_index ix ! behind ?n ?t d"
        using d len_old old_nth [of "?n - 1 - d"] unfolding t' by (simp add: jx_def nth_append behind_def)
      moreover have "ih_index ix ! behind ?n ?t d < ?m" using wf d by (rule entry_position)
      ultimately show ?thesis by (simp add: entry_behind_def p'_def nth_append)
    qed
    have high: "free_entry (entry_behind (Suc k) p' jx d)" if d: "?n \<le> d" "d < 2 ^ Suc k" for d
    proof -
      define i where "i = 2 * ?n - 1 - d"
      have i: "i < ?n" "?n - 1 + 2 * ?n - d = ?n + i" using d by (simp_all add: i_def)
      then have "behind (2 * ?n) (?n - 1) d = ?n + i" unfolding behind_def i(2) by simp
      then have "ih_index jx ! behind (2 ^ Suc k) (unat (ih_tail jx)) d = ?m + i"
        using len_old i(1) unfolding t' by (simp add: jx_def nth_append)
      then show ?thesis using i(1) by (simp add: entry_behind_def p'_def nth_append free_entry_def)
    qed
    obtain k' ix' where h: "length bs \<le> B" "index_wf k' p ix'" "length bs \<le> 2 ^ k'"
      "\<And>d. d < length bs \<Longrightarrow> entry_behind k' p ix' d = \<lparr>ie_key = of_nat (32 * (B - Suc d)), ie_value = Some (bs ! d)\<rparr>"
      "\<And>d. length bs \<le> d \<Longrightarrow> d < 2 ^ k' \<Longrightarrow> free_entry (entry_behind k' p ix' d)"
      using holds by (rule index_holdsE) blast
    have eq: "ix' = ix" "k' = k" using index_wfD(1,4) [OF h(2)] w(1,4) by auto
    have "index_holds p' B bs"
      unfolding index_holds_def
    proof (intro conjI exI [of _ "Suc k"] exI [of _ jx] allI impI)
      fix d assume d: "length bs \<le> d \<and> d < 2 ^ Suc k"
      show "free_entry (entry_behind (Suc k) p' jx d)"
        using h(5) [unfolded eq, of d] low [of d] high [of d] d by (cases "d < ?n") simp_all
    qed (use h [unfolded eq] wf' low in auto)
    with run True wf' show ?thesis by auto
  qed
qed

lemma index_in_use: "of_nat (32 * x) \<noteq> (1 :: u64)"
proof
  assume "of_nat (32 * x) = (1 :: u64)"
  then have "unat (of_nat (32 * x) :: u64) = 1" by simp
  then have "32 * x mod 2 ^ 64 = 1" by (simp only: unsigned_of_nat take_bit_nat_def) simp
  then have "32 * x mod 2 ^ 64 mod 32 = 1" by simp
  moreover have "32 * x mod 2 ^ 64 mod 32 = 32 * x mod 32" by (rule mod_mod_cancel) simp
  ultimately show False by simp
qed

lemma insert_spec:
  assumes holds: "index_holds p B bs"
  shows "(\<exists>e p'. insert_block_index_entry ok (of_nat (32 * B)) p = (Some e, p') \<and> index_reserved p' B bs e \<and> same_counters p p') \<or>
    (insert_block_index_entry ok (of_nat (32 * B)) p = (None, p) \<and> (\<not> ok \<or> length bs = 2 ^ 58))"
proof -
  obtain k ix where h: "length bs \<le> B" "index_wf k p ix" "length bs \<le> 2 ^ k"
    "\<And>d. d < length bs \<Longrightarrow> entry_behind k p ix d = \<lparr>ie_key = of_nat (32 * (B - Suc d)), ie_value = Some (bs ! d)\<rparr>"
    using holds by (rule index_holdsE) blast
  note w = index_wfD [OF h(2)]
  let ?nt = "(ih_tail ix + 1) AND (ih_capacity ix - 1)"
  have nt: "unat ?nt = Suc (unat (ih_tail ix)) mod 2 ^ k" unfolding w(3) using w(2) by (intro unat_succ_mask) simp
  show ?thesis
  proof (cases "length bs < 2 ^ k")
    case True
    note r = reserve_spec [OF holds h(2) True]
    then show ?thesis using same_counters_reserve [of p ix ?nt]
      by (auto simp: insert_block_index_entry_def w(1) Let_def free_entry_def)
  next
    case False
    then have full: "length bs = 2 ^ k" using h(3) by simp
    have last: "entry_behind k p ix (2 ^ k - 1) = \<lparr>ie_key = of_nat (32 * (B - 2 ^ k)), ie_value = Some (bs ! (2 ^ k - 1))\<rparr>"
      using h(4) [of "2 ^ k - 1"] full by simp
    have at: "ih_index ix ! unat ?nt = ih_index ix ! behind (2 ^ k) (unat (ih_tail ix)) (2 ^ k - 1)"
      using behind_last [of "2 ^ k" "unat (ih_tail ix)"] nt by simp
    have "\<not> free_entry (pr_entries p ! (ih_index ix ! unat ?nt))"
      using last index_in_use [of "B - 2 ^ k"] unfolding at entry_behind_def free_entry_def by (simp add: INVALID_BLOCK_BASE_def)
    then have run: "insert_block_index_entry ok (of_nat (32 * B)) p = (case new_block_index ok p of (False, p') \<Rightarrow> (None, p')
        | (True, p') \<Rightarrow> (case pr_header p' of None \<Rightarrow> (None, p')
          | Some ix' \<Rightarrow> let newTail' = (ih_tail ix' + 1) AND (ih_capacity ix' - 1) in
              (Some (ih_index ix' ! unat newTail'), reserve_entry p' ix' newTail' (of_nat (32 * B)))))"
      unfolding insert_block_index_entry_def w(1) option.case Let_def free_entry_def by (simp only: if_False)
    from grow_spec [OF holds h(2), of ok] show ?thesis
    proof (elim disjE conjE exE)
      assume "new_block_index ok p = (False, p)" "\<not> ok"
      with run show ?thesis by simp
    next
      assume "new_block_index ok p = (False, p)" "k = 58"
      with run full show ?thesis by simp
    next
      fix p' ix' assume g: "new_block_index ok p = (True, p')" "index_holds p' B bs" "index_wf (Suc k) p' ix'"
      have "length bs < 2 ^ Suc k" using full by simp
      note r = reserve_spec [OF g(2,3) this]
      have "same_counters p (reserve_entry p' ix' nt s)" for nt s
        using new_block_index_counters [OF g(1)] same_counters_reserve [of p' ix' nt s] by (simp add: same_counters_def)
      with r(1) show ?thesis unfolding run g(1) by (simp add: index_wfD(1) [OF g(3)] Let_def)
    qed
  qed
qed

text \<open>Setting the value of one entry.\<close>

lemma set_entry_behind:
  assumes wf: "index_wf k p ix" and d: "d < 2 ^ k" "d' < 2 ^ k"
  shows "index_wf k (set_entry_value (ih_index ix ! behind (2 ^ k) (unat (ih_tail ix)) d) v p) ix"
    and "entry_behind k (set_entry_value (ih_index ix ! behind (2 ^ k) (unat (ih_tail ix)) d) v p) ix d' =
      (if d' = d then (entry_behind k p ix d)\<lparr>ie_value := v\<rparr> else entry_behind k p ix d')"
proof -
  note w = index_wfD [OF wf]
  show "index_wf k (set_entry_value (ih_index ix ! behind (2 ^ k) (unat (ih_tail ix)) d) v p) ix"
    using wf by (simp add: index_wf_def set_entry_value_def)
  have "behind (2 ^ k) (unat (ih_tail ix)) d < 2 ^ k" "behind (2 ^ k) (unat (ih_tail ix)) d' < 2 ^ k" by (simp_all add: behind_lt)
  then have "ih_index ix ! behind (2 ^ k) (unat (ih_tail ix)) d' = ih_index ix ! behind (2 ^ k) (unat (ih_tail ix)) d \<longleftrightarrow> d' = d"
    using behind_inj [OF d(2,1), of "unat (ih_tail ix)"] w(4,5) by (auto simp: nth_eq_iff_index_eq)
  then show "entry_behind k (set_entry_value (ih_index ix ! behind (2 ^ k) (unat (ih_tail ix)) d) v p) ix d' =
      (if d' = d then (entry_behind k p ix d)\<lparr>ie_value := v\<rparr> else entry_behind k p ix d')"
    using entry_position [OF wf d(1)] by (auto simp: entry_behind_def set_entry_value_def)
qed

lemma fill_spec:
  assumes "index_reserved p B bs e"
  shows "index_holds (set_entry_value e (Some b) p) (Suc B) (b # bs)"
proof -
  obtain k ix where r: "length bs \<le> B" "index_wf k p ix" "length bs < 2 ^ k" "e = ih_index ix ! unat (ih_tail ix)"
    "ie_key (pr_entries p ! e) = of_nat (32 * B)"
    "\<And>d. d < length bs \<Longrightarrow> entry_behind k p ix (Suc d) = \<lparr>ie_key = of_nat (32 * (B - Suc d)), ie_value = Some (bs ! d)\<rparr>"
    "\<And>d. length bs \<le> d \<Longrightarrow> Suc d < 2 ^ k \<Longrightarrow> free_entry (entry_behind k p ix (Suc d))"
    using assms by (rule index_reservedE) blast
  have b0: "behind (2 ^ k) (unat (ih_tail ix)) 0 = unat (ih_tail ix)" using index_wfD(7) [OF r(2)] by (rule behind_0)
  have e: "e = ih_index ix ! behind (2 ^ k) (unat (ih_tail ix)) 0" using r(4) b0 by simp
  have z: "(0 :: nat) < 2 ^ k" by simp
  note s = set_entry_behind [OF r(2) z, of _ "Some b", folded e]
  have e0: "entry_behind k p ix 0 = pr_entries p ! e" by (simp add: entry_behind_def b0 r(4))
  show ?thesis
    unfolding index_holds_def
  proof (intro conjI exI [of _ k] exI [of _ ix] allI impI)
    show "index_wf k (set_entry_value e (Some b) p) ix" by (rule s(1) [OF z])
    fix d assume d: "d < length (b # bs)"
    show "entry_behind k (set_entry_value e (Some b) p) ix d = \<lparr>ie_key = of_nat (32 * (Suc B - Suc d)), ie_value = Some ((b # bs) ! d)\<rparr>"
    proof (cases d)
      case 0
      then show ?thesis using s(2) [OF z] e0 r(5) by simp
    next
      case (Suc d')
      then have "d < 2 ^ k" using d r(3) by simp
      then show ?thesis using s(2) [of d] Suc d r(6) [of d'] by simp
    qed
  next
    fix d assume d: "length (b # bs) \<le> d \<and> d < 2 ^ k"
    then obtain d' where "d = Suc d'" by (cases d) simp_all
    with d s(2) [of d] r(7) [of d'] show "free_entry (entry_behind k (set_entry_value e (Some b) p) ix d)" by simp
  qed (use r(1,3) in simp_all)
qed

lemma cancel_spec:
  assumes "index_reserved p B bs e"
  shows "index_holds (set_entry_value e None (rewind_block_index_tail p)) B bs"
proof -
  obtain k ix where r: "length bs \<le> B" "index_wf k p ix" "length bs < 2 ^ k" "e = ih_index ix ! unat (ih_tail ix)"
    "ie_key (pr_entries p ! e) = of_nat (32 * B)"
    "\<And>d. d < length bs \<Longrightarrow> entry_behind k p ix (Suc d) = \<lparr>ie_key = of_nat (32 * (B - Suc d)), ie_value = Some (bs ! d)\<rparr>"
    "\<And>d. length bs \<le> d \<Longrightarrow> Suc d < 2 ^ k \<Longrightarrow> free_entry (entry_behind k p ix (Suc d))"
    using assms by (rule index_reservedE) blast
  note w = index_wfD [OF r(2)]
  let ?n = "(2 :: nat) ^ k" and ?t = "unat (ih_tail ix)"
  define jx where "jx = ix\<lparr>ih_tail := (ih_tail ix - 1) AND (ih_capacity ix - 1)\<rparr>"
  define q where "q = rewind_block_index_tail p"
  have t': "unat (ih_tail jx) = (?t + ?n - 1) mod ?n"
    using unat_sub_of_nat_mask [of k 1 "ih_tail ix"] w(2) by (simp add: jx_def w(3))
  have q: "pr_header q = Some jx" "pr_entries q = pr_entries p" "pr_next_capacity q = pr_next_capacity p"
    by (simp_all add: q_def rewind_block_index_tail_def w(1) jx_def)
  have wf': "index_wf k q jx" unfolding index_wf_def q using w t' by (simp add: jx_def)
  have Suc_t: "Suc (unat (ih_tail jx)) mod ?n = ?t"
  proof -
    have "Suc ((?t + ?n - 1) mod ?n) mod ?n = Suc (?t + ?n - 1) mod ?n" by (simp only: mod_Suc_eq)
    also have "Suc (?t + ?n - 1) = ?t + ?n" by simp
    finally show ?thesis using w(7) t' by simp
  qed
  have shift: "entry_behind k q jx d = entry_behind k p ix (Suc d)" if "Suc d \<le> ?n" for d
    using behind_Suc [OF that, of "unat (ih_tail jx)"] unfolding Suc_t by (simp add: entry_behind_def q jx_def)
  have n1: "?n - 1 < ?n" by simp
  have "behind ?n (unat (ih_tail jx)) (?n - 1) = ?t" using behind_last [of ?n "unat (ih_tail jx)"] Suc_t by simp
  then have e: "e = ih_index jx ! behind ?n (unat (ih_tail jx)) (?n - 1)" using r(4) by (simp add: jx_def)
  note s = set_entry_behind [OF wf' n1, of _ None, folded e]
  show ?thesis unfolding q_def [symmetric] index_holds_def
  proof (intro conjI exI [of _ k] exI [of _ jx] allI impI)
    show "index_wf k (set_entry_value e None q) jx" by (rule s(1) [OF n1])
    fix d assume d: "d < length bs"
    then have "d < ?n" "d \<noteq> ?n - 1" "Suc d \<le> ?n" using r(3) by linarith+
    then show "entry_behind k (set_entry_value e None q) jx d = \<lparr>ie_key = of_nat (32 * (B - Suc d)), ie_value = Some (bs ! d)\<rparr>"
      using s(2) [of d] shift r(6) [OF d] by simp
  next
    fix d assume d: "length bs \<le> d \<and> d < ?n"
    show "free_entry (entry_behind k (set_entry_value e None q) jx d)"
    proof (cases "d = ?n - 1")
      case True
      then show ?thesis using s(2) [of d] by (simp add: free_entry_def)
    next
      case False
      then have "Suc d < ?n" using d by linarith
      then show ?thesis using s(2) [of d] shift [of d] r(7) [of d] d False by simp
    qed
  qed (use r(1,3) in simp_all)
qed

section \<open>Finding the block of an element\<close>

lemma slot_mask: "unat (of_nat (32 * j + i) AND (BLOCK_SIZE - 1)) = i" if "i < 32"
proof -
  have "unat ((of_nat (32 * j + i) :: u64) AND (2 ^ 5 - 1)) = (32 * j + i) mod 2 ^ 5"
    using unat_add_of_nat_mask [of 5 0 "32 * j + i"] by simp
  then show ?thesis using that by (simp add: BLOCK_SIZE_def)
qed

lemma base_mask: "of_nat (32 * j + i) AND NOT (BLOCK_SIZE - 1) = of_nat (32 * j)" if "i < 32"
proof -
  let ?w = "of_nat (32 * j + i) :: u64"
  have m: "BLOCK_SIZE - 1 = mask 5" by (simp add: BLOCK_SIZE_def mask_eq_exp_minus_1)
  have "?w AND mask 5 = of_nat i"
    using slot_mask [OF that, of j] that unfolding m word_unat_eq_iff by (simp add: unat_of_nat_u64)
  moreover have "(?w AND NOT (mask 5)) + (?w AND mask 5) = ?w"
    by (subst disjunctive_add_eq_or) (auto simp: bit_eq_iff bit_simps)
  ultimately show ?thesis unfolding m by (simp add: algebra_simps)
qed

lemma block_distance:
  assumes "j < i + 2 ^ 58" and "i < j + 2 ^ 58"
  shows "word_of_int (sint (of_nat (32 * j) - of_nat (32 * i) :: u64) sdiv sint BLOCK_SIZE) = (of_nat j - of_nat i :: u64)"
proof -
  have "(of_nat (32 * j) - of_nat (32 * i) :: u64) = word_of_int (32 * (int j - int i))" by (simp add: algebra_simps)
  moreover have "signed_take_bit 63 (32 * (int j - int i)) = 32 * (int j - int i)"
    using assms by (intro signed_take_bit_int_eq_self) simp_all
  ultimately have s: "sint (of_nat (32 * j) - of_nat (32 * i) :: u64) = 32 * (int j - int i)" by (simp only: signed_of_int) simp
  have "sint BLOCK_SIZE = 32" by (simp add: BLOCK_SIZE_def)
  moreover have "32 * (int j - int i) sdiv 32 = int j - int i"
    by (cases "int i \<le> int j") (simp_all add: signed_divide_int_def sgn_if abs_if)
  ultimately show ?thesis unfolding s by simp
qed

text \<open>Where a lookup comes out, from the key \<open>32 * i\<close> of the last entry; also for a later block.\<close>

lemma lookup_position:
  assumes wf: "index_wf k p ix" and key: "ie_key (pr_entries p ! (ih_index ix ! unat (ih_tail ix))) = of_nat (32 * i)"
    and near: "j < i + 2 ^ 58" "i < j + 2 ^ 58" and s: "s < 32"
  shows "get_block_index_index_for_index (of_nat (32 * j + s)) p = Inr (unat ((ih_tail ix + (of_nat j - of_nat i)) AND (2 ^ k - 1)))"
  using index_wfD [OF wf]
  unfolding get_block_index_index_for_index_def base_mask [OF s]
  by (simp only: option.case Let_def key block_distance [OF near]) simp

lemma lookup_index:
  assumes holds: "index_holds p B bs" and wf: "index_wf k p ix" and d: "d < length bs" and i: "i < 32"
  shows "get_block_index_index_for_index (of_nat (32 * (B - Suc d) + i)) p = Inr (behind (2 ^ k) (unat (ih_tail ix)) d)"
proof -
  obtain k' ix' where h: "length bs \<le> B" "index_wf k' p ix'" "length bs \<le> 2 ^ k'"
    "\<And>d. d < length bs \<Longrightarrow> entry_behind k' p ix' d = \<lparr>ie_key = of_nat (32 * (B - Suc d)), ie_value = Some (bs ! d)\<rparr>"
    using holds by (rule index_holdsE) blast
  note w = index_wfD [OF wf]
  have eq: "ix' = ix" "k' = k" using index_wfD(1,4) [OF h(2)] w(1,4) by auto
  have dk: "d < 2 ^ k" using d h(3) eq(2) by simp
  have "(2 :: nat) ^ k \<le> 2 ^ 58" using w(2) by (intro power_increasing) simp_all
  with dk have d58: "d < 2 ^ 58" by linarith
  have t0: "entry_behind k p ix 0 = pr_entries p ! (ih_index ix ! unat (ih_tail ix))"
    using behind_0 [OF w(7)] by (simp add: entry_behind_def)
  have "0 < length bs" using d by linarith
  then have key: "ie_key (pr_entries p ! (ih_index ix ! unat (ih_tail ix))) = of_nat (32 * (B - 1))"
    using h(4) [of 0] t0 by (simp add: eq)
  have "B - 1 = B - Suc d + d" using d h(1) by linarith
  then have diff: "of_nat (B - Suc d) - of_nat (B - 1) = (- of_nat d :: u64)" by simp
  have "B - Suc d < B - 1 + 2 ^ 58" "B - 1 < B - Suc d + 2 ^ 58" using d58 by linarith+
  note r = lookup_position [OF wf key this i]
  have "ih_tail ix + (of_nat (B - Suc d) - of_nat (B - 1)) = ih_tail ix - of_nat d" by (simp only: diff) simp
  moreover have "unat ((ih_tail ix - of_nat d) AND (2 ^ k - 1)) = behind (2 ^ k) (unat (ih_tail ix)) d"
    using unat_sub_of_nat_mask [of k d "ih_tail ix"] w(2) dk by (simp add: behind_def)
  ultimately show ?thesis using r by (simp only:)
qed

lemma lookup_spec:
  assumes holds: "index_holds p B bs" and d: "d < length bs" and i: "i < 32"
  shows "\<exists>e. get_block_index_entry_for_index (of_nat (32 * (B - Suc d) + i)) p = Inr e \<and>
    ie_value (pr_entries p ! e) = Some (bs ! d) \<and>
    (Suc d = length bs \<longrightarrow> index_holds (set_entry_value e None p) B (butlast bs))"
proof -
  obtain k ix where h: "length bs \<le> B" "index_wf k p ix" "length bs \<le> 2 ^ k"
    "\<And>d. d < length bs \<Longrightarrow> entry_behind k p ix d = \<lparr>ie_key = of_nat (32 * (B - Suc d)), ie_value = Some (bs ! d)\<rparr>"
    "\<And>d. length bs \<le> d \<Longrightarrow> d < 2 ^ k \<Longrightarrow> free_entry (entry_behind k p ix d)"
    using holds by (rule index_holdsE) blast
  note w = index_wfD [OF h(2)]
  let ?t = "unat (ih_tail ix)"
  have dk: "d < 2 ^ k" using d h(3) by linarith
  define e where "e = ih_index ix ! behind (2 ^ k) ?t d"
  have "get_block_index_index_for_index (of_nat (32 * (B - Suc d) + i)) p = Inr (behind (2 ^ k) ?t d)"
    using holds h(2) d i by (rule lookup_index)
  moreover have "behind (2 ^ k) ?t d < length (ih_index ix)" using w(4) by (simp add: behind_lt)
  ultimately have run: "get_block_index_entry_for_index (of_nat (32 * (B - Suc d) + i)) p = Inr e"
    by (simp add: get_block_index_entry_for_index_def w(1) e_def)
  have val: "ie_value (pr_entries p ! e) = Some (bs ! d)" using h(4) [OF d] by (simp add: entry_behind_def e_def)
  have "index_holds (set_entry_value e None p) B (butlast bs)" if last: "Suc d = length bs"
    unfolding index_holds_def
  proof (intro conjI exI [of _ k] exI [of _ ix] allI impI)
    note s = set_entry_behind [OF h(2) dk, of _ None, folded e_def]
    show "index_wf k (set_entry_value e None p) ix" by (rule s(1) [OF dk])
    fix c assume c: "c < length (butlast bs)"
    then have "c < 2 ^ k" "c \<noteq> d" "c < length bs" using last dk by simp_all
    then show "entry_behind k (set_entry_value e None p) ix c = \<lparr>ie_key = of_nat (32 * (B - Suc c)), ie_value = Some (butlast bs ! c)\<rparr>"
      using s(2) [of c] h(4) [of c] c by (simp add: nth_butlast)
  next
    note s = set_entry_behind [OF h(2) dk, of _ None, folded e_def]
    fix c assume c: "length (butlast bs) \<le> c \<and> c < 2 ^ k"
    then have "c = d \<or> length bs \<le> c" using last by simp linarith
    then show "free_entry (entry_behind k (set_entry_value e None p) ix c)"
      using s(2) [of c] h(5) [of c] c last by (cases "c = d") (simp_all add: free_entry_def)
  qed (use h(1,3) in simp_all)
  with run val show ?thesis by blast
qed

lemma new_producer_spec:
  "ok \<Longrightarrow> index_holds (new_producer ok) 0 []"
    "\<not> ok \<Longrightarrow> pr_header (new_producer ok) = None"
    "pr_tail (new_producer ok) = 0" "pr_head (new_producer ok) = 0" "pr_optimistic (new_producer ok) = 0"
    "pr_overcommit (new_producer ok) = 0" "pr_inactive (new_producer ok) = False"
proof -
  let ?ix = "\<lparr>ih_capacity = 32, ih_tail = 31, ih_index = [0..<32]\<rparr>"
  have p: "new_producer ok = (if ok then
     \<lparr>pr_tail = 0, pr_head = 0, pr_optimistic = 0, pr_overcommit = 0, pr_tail_block = None, pr_inactive = False,
     pr_entries = replicate 32 \<lparr>ie_key = INVALID_BLOCK_BASE, ie_value = None\<rparr>, pr_header = Some ?ix, pr_next_capacity = 64\<rparr>
     else \<lparr>pr_tail = 0, pr_head = 0, pr_optimistic = 0, pr_overcommit = 0, pr_tail_block = None, pr_inactive = False,
     pr_entries = [], pr_header = None, pr_next_capacity = 32\<rparr>)"
    unfolding new_producer_def new_block_index_def Let_def malloc_succeeds_def IMPLICIT_INITIAL_INDEX_SIZE_def
    by (simp add: push_bit_eq_mult del: upt_conv_Cons)
  show "pr_tail (new_producer ok) = 0" "pr_head (new_producer ok) = 0" "pr_optimistic (new_producer ok) = 0"
    "pr_overcommit (new_producer ok) = 0" "pr_inactive (new_producer ok) = False"
    unfolding p by (auto split: if_split)
  show "\<not> ok \<Longrightarrow> pr_header (new_producer ok) = None" unfolding p by (simp split: if_split)
  assume ok
  then have p': "pr_header (new_producer ok) = Some ?ix" "pr_next_capacity (new_producer ok) = 64"
    "pr_entries (new_producer ok) = replicate 32 \<lparr>ie_key = INVALID_BLOCK_BASE, ie_value = None\<rparr>"
    unfolding p by (auto split: if_split)
  have n32: "(32 :: nat) = 2 ^ 5" by simp
  have wf: "index_wf 5 (new_producer ok) ?ix" unfolding index_wf_def p' by (auto simp: n32 [symmetric])
  show "index_holds (new_producer ok) 0 []"
    unfolding index_holds_def
  proof (intro conjI exI [of _ 5] exI [of _ ?ix] allI impI)
    fix d :: nat assume "length ([] :: nat list) \<le> d \<and> d < 2 ^ 5"
    have "behind (2 ^ 5) (unat (ih_tail ?ix)) d < 32" using behind_lt [of "2 ^ 5"] by simp
    then show "free_entry (entry_behind 5 (new_producer ok) ?ix d)"
      unfolding entry_behind_def p' free_entry_def by simp
  qed (use wf in simp_all)
qed

end
