(* ===== verification/MoodyProducer.thy ===== *)
theory MoodyProducer
  imports MoodyIndex
begin

text \<open>
  \<^verbatim>\<open>ImplicitProducer\<close> of moodycamel/concurrentqueue.h: the elements one thread enqueued, in blocks
  of 32 that its block index finds. The calls of one thread after another; the element type does
  not throw when it is copied or moved.
\<close>

section \<open>The operations\<close>

definition circular_less_than :: "u64 \<Rightarrow> u64 \<Rightarrow> bool" where
  "circular_less_than a b \<longleftrightarrow> a - b > push_bit 63 1"

definition size_approx :: "producer \<Rightarrow> u64" where
  "size_approx p = (if circular_less_than (pr_head p) (pr_tail p) then pr_tail p - pr_head p else 0)"

definition put_element :: "'a \<Rightarrow> u64 \<Rightarrow> producer \<Rightarrow> 'a mheap \<Rightarrow> (bool \<times> producer \<times> 'a mheap) res" where
  "put_element x currentTailIndex p h = (case pr_tail_block p of None \<Rightarrow> Inl (UB Null_Deref)
    | Some b \<Rightarrow> res_bind (read_block h b) (\<lambda>bk.
        Inr (True, p\<lparr>pr_tail := 1 + currentTailIndex\<rparr>, write_block h b (construct bk currentTailIndex x))))"

text \<open>
  \<open>ok1\<close> and \<open>ok2\<close> say whether memory for a larger index and for a block is there. The default
  traits set no limit on the size of a producer. That the tail is not behind the head, which the
  code asserts, is \<open>producer_assertion\<close> below.
\<close>

definition producer_enqueue :: "bool \<Rightarrow> bool \<Rightarrow> 'a \<Rightarrow> producer \<Rightarrow> 'a mheap \<Rightarrow> (bool \<times> producer \<times> 'a mheap) res" where
  "producer_enqueue ok1 ok2 x p h = (let currentTailIndex = pr_tail p in
    if currentTailIndex AND (BLOCK_SIZE - 1) = 0 then
      if \<not> circular_less_than (pr_head p) (currentTailIndex + BLOCK_SIZE) then Inr (False, p, h)
      else (case insert_block_index_entry ok1 currentTailIndex p of (None, p1) \<Rightarrow> Inr (False, p1, h)
        | (Some idxEntry, p1) \<Rightarrow> res_bind (requisition_block ok2 h) (\<lambda>(newBlock, h1). case newBlock of
              None \<Rightarrow> Inr (False, set_entry_value idxEntry None (rewind_block_index_tail p1), h1)
            | Some b \<Rightarrow> res_bind (read_block h1 b) (\<lambda>bk.
                put_element x currentTailIndex ((set_entry_value idxEntry (Some b) p1)\<lparr>pr_tail_block := Some b\<rparr>)
                  (write_block h1 b (reset_empty bk)))))
    else put_element x currentTailIndex p h)"

definition take_element :: "u64 \<Rightarrow> producer \<Rightarrow> 'a mheap \<Rightarrow> ('a option \<times> producer \<times> 'a mheap) res" where
  "take_element index p h = res_bind (get_block_index_entry_for_index index p) (\<lambda>entry.
    case ie_value (pr_entries p ! entry) of None \<Rightarrow> Inl (UB Null_Deref)
    | Some b \<Rightarrow> res_bind (read_block h b) (\<lambda>bk. res_bind (move_out bk index) (\<lambda>(element, bk').
        case set_empty bk' of (emptied, bk'') \<Rightarrow>
          if emptied then res_bind (add_block_to_free_list (write_block h b bk'') b)
            (\<lambda>h'. Inr (Some element, set_entry_value entry None p, h'))
          else Inr (Some element, p, write_block h b bk''))))"

definition producer_dequeue :: "producer \<Rightarrow> 'a mheap \<Rightarrow> ('a option \<times> producer \<times> 'a mheap) res" where
  "producer_dequeue p h = (let overcommit = pr_overcommit p in
    if circular_less_than (pr_optimistic p - overcommit) (pr_tail p) then
      let myDequeueCount = pr_optimistic p; p1 = p\<lparr>pr_optimistic := pr_optimistic p + 1\<rparr> in
      if circular_less_than (myDequeueCount - overcommit) (pr_tail p1)
      then take_element (pr_head p1) (p1\<lparr>pr_head := pr_head p1 + 1\<rparr>) h
      else Inr (None, p1\<lparr>pr_overcommit := pr_overcommit p1 + 1\<rparr>, h)
    else Inr (None, p, h))"

section \<open>What a producer holds\<close>

text \<open>
  \<open>H\<close> elements were dequeued and \<open>T\<close> enqueued, \<open>B\<close> blocks were started; block \<open>j\<close> holds the
  elements from \<open>32 * j\<close> on and stays until all its elements are dequeued. The counters are
  these numbers modulo \<open>2 ^ 64\<close>.
\<close>

definition block_holds :: "'a block \<Rightarrow> nat \<Rightarrow> nat \<Rightarrow> nat \<Rightarrow> 'a list \<Rightarrow> bool" where
  "block_holds bk j H T xs \<longleftrightarrow> bk_refs bk = 0 \<and> length (bk_elements bk) = 32 \<and> bk_dequeued bk = of_nat (H - 32 * j) \<and>
    (\<forall>i < 32. H \<le> 32 * j + i \<and> 32 * j + i < T \<longrightarrow> bk_elements bk ! i = Some (xs ! (32 * j + i - H)))"

definition blocks_hold :: "'a mheap \<Rightarrow> nat list \<Rightarrow> nat \<Rightarrow> nat \<Rightarrow> nat \<Rightarrow> 'a list \<Rightarrow> bool" where
  "blocks_hold h bs B H T xs \<longleftrightarrow>
    (\<forall>j. H div 32 \<le> j \<and> j < B \<longrightarrow> (\<exists>bk. block_at h (bs ! (B - Suc j)) = Some bk \<and> block_holds bk j H T xs))"

definition counters_at :: "producer \<Rightarrow> nat \<Rightarrow> nat \<Rightarrow> nat \<Rightarrow> bool" where
  "counters_at p B H T \<longleftrightarrow> pr_head p = of_nat H \<and> pr_tail p = of_nat T \<and> pr_optimistic p - pr_overcommit p = of_nat H \<and>
    H \<le> T \<and> T \<le> 32 * B \<and> 32 * B < H + 2 ^ 63"

definition producer_at :: "'a mheap \<Rightarrow> producer \<Rightarrow> nat list \<Rightarrow> nat \<Rightarrow> nat \<Rightarrow> nat \<Rightarrow> 'a list \<Rightarrow> bool" where
  "producer_at h p bs B H T xs \<longleftrightarrow> index_holds p B bs \<and> length bs = B - H div 32 \<and> distinct bs \<and> counters_at p B H T \<and>
    length xs = T - H \<and> (bs \<noteq> [] \<longrightarrow> pr_tail_block p = Some (bs ! 0)) \<and> blocks_hold h bs B H T xs"

text \<open>
  The blocks of \<open>own\<close> hold the elements \<open>xs\<close>, the oldest first. A producer whose first index
  could not be allocated never holds an element.
\<close>

definition producer_holds :: "'a mheap \<Rightarrow> producer \<Rightarrow> nat set \<Rightarrow> 'a list \<Rightarrow> bool" where
  "producer_holds h p own xs \<longleftrightarrow>
    (\<exists>bs B H T. producer_at h p bs B H T xs \<and> 32 * B < T + 32 \<and> own = set bs) \<or>
    (pr_header p = None \<and> counters_at p 0 0 0 \<and> own = {} \<and> xs = [])"

section \<open>Counters\<close>

lemma circular_less_than_neg:
  fixes w :: u64
  assumes "w \<noteq> 0"
  shows "push_bit 63 1 < - w \<longleftrightarrow> unat w < 2 ^ 63"
proof -
  have "(of_nat (2 ^ 64 - unat w) :: u64) = of_nat (2 ^ 64) - of_nat (unat w)"
    using u64_lt [of w] by (intro of_nat_diff) (rule less_imp_le)
  also have "\<dots> = - w" by simp
  finally have "unat (- w) = unat (of_nat (2 ^ 64 - unat w) :: u64)" by (simp only:)
  also have "\<dots> = 2 ^ 64 - unat w" using assms by (intro unat_of_nat_u64) (simp add: unat_gt_0)
  finally have u: "unat (- w) = 2 ^ 64 - unat w" .
  have "unat (2 ^ 63 :: u64) = 2 ^ 63" by simp
  then have "push_bit 63 1 < - w \<longleftrightarrow> 2 ^ 63 < 2 ^ 64 - unat w" by (simp only: push_bit_eq_mult mult_1 word_less_nat_alt u)
  moreover have "2 ^ 63 < 2 ^ 64 - n \<longleftrightarrow> n < (2 :: nat) ^ 63" for n by (simp, linarith)
  ultimately show ?thesis by (simp only:)
qed

lemma circular_less_than_of_nat:
  assumes "H \<le> T" "T < H + 2 ^ 64"
  shows "circular_less_than (of_nat H) (of_nat T) \<longleftrightarrow> H < T \<and> T < H + 2 ^ 63"
proof (cases "H = T")
  case True
  then show ?thesis by (simp add: circular_less_than_def)
next
  case False
  define n where "n = T - H"
  have n: "T = H + n" "n < 2 ^ 64" "n \<noteq> 0" using False assms by (simp_all add: n_def)
  have u: "unat (of_nat n :: u64) = n" using n(2) by (rule unat_of_nat_u64)
  then have "(of_nat n :: u64) \<noteq> 0" using n(3) by auto
  note circular_less_than_neg [OF this, unfolded u]
  moreover have "of_nat H - of_nat T = - (of_nat n :: u64)" by (simp add: n(1))
  ultimately show ?thesis using n(3) by (simp only: circular_less_than_def n(1) nat_add_left_cancel_less) simp
qed

lemma index_holds_cong:
  "pr_entries q = pr_entries p \<Longrightarrow> pr_header q = pr_header p \<Longrightarrow> pr_next_capacity q = pr_next_capacity p \<Longrightarrow>
    index_holds q B bs = index_holds p B bs"
  by (simp add: index_holds_def index_wf_def entry_behind_def)

lemma block_boundary: "of_nat T AND (BLOCK_SIZE - 1) = 0 \<longleftrightarrow> T mod 32 = 0"
proof -
  have "unat (of_nat (32 * (T div 32) + T mod 32) AND (BLOCK_SIZE - 1)) = T mod 32" by (rule slot_mask) simp
  then have "unat (of_nat T AND (BLOCK_SIZE - 1)) = T mod 32" by simp
  then show ?thesis by (metis unat_eq_0)
qed

lemma circular_less_than_not: "\<lbrakk>H \<le> T; T < H + 2 ^ 63\<rbrakk> \<Longrightarrow> \<not> circular_less_than (of_nat T) (of_nat H)"
proof
  assume d: "H \<le> T" "T < H + 2 ^ 63" and less: "circular_less_than (of_nat T) (of_nat H)"
  let ?w = "of_nat (T - H) :: u64"
  have lt: "T - H < 2 ^ 63" using d by linarith
  then have u: "unat ?w = T - H" by (intro unat_of_nat_u64) simp
  have "of_nat T - of_nat H = ?w" using d(1) by (simp add: of_nat_diff)
  then have "unat (push_bit 63 1 :: u64) < T - H" using less unfolding circular_less_than_def word_less_nat_alt by (simp only: u)
  moreover have "unat (push_bit 63 1 :: u64) = 2 ^ 63" by simp
  ultimately show False using lt by linarith
qed

text \<open>The end of the block, or the end of the elements if that comes first.\<close>

lemma end_index:
  fixes H n :: nat
  assumes "n < 2 ^ 63"
  defines "stop \<equiv> 32 * Suc (H div 32)"
  shows "(if circular_less_than (of_nat (H + n)) ((of_nat H AND NOT (BLOCK_SIZE - 1)) + BLOCK_SIZE) then of_nat (H + n)
      else (of_nat H AND NOT (BLOCK_SIZE - 1)) + BLOCK_SIZE) = (of_nat (H + min n (32 - H mod 32)) :: u64)"
    and "H + n < stop \<Longrightarrow> min n (32 - H mod 32) = n" and "stop \<le> H + n \<Longrightarrow> H + min n (32 - H mod 32) = stop"
proof -
  have s: "stop = H + (32 - H mod 32)" using mult_div_mod_eq [of 32 H] mod_less_divisor [OF zero_less_numeral, of H] unfolding stop_def mult_Suc_right by linarith
  have base: "(of_nat H AND NOT (BLOCK_SIZE - 1)) + BLOCK_SIZE = (of_nat stop :: u64)"
    using base_mask [of "H mod 32" "H div 32"] by (simp add: stop_def BLOCK_SIZE_def)
  show le: "H + n < stop \<Longrightarrow> min n (32 - H mod 32) = n" and ge: "stop \<le> H + n \<Longrightarrow> H + min n (32 - H mod 32) = stop"
    unfolding s by simp_all
  show "(if circular_less_than (of_nat (H + n)) ((of_nat H AND NOT (BLOCK_SIZE - 1)) + BLOCK_SIZE) then of_nat (H + n)
      else (of_nat H AND NOT (BLOCK_SIZE - 1)) + BLOCK_SIZE) = (of_nat (H + min n (32 - H mod 32)) :: u64)"
  proof (cases "H + n < stop")
    case True
    then have "circular_less_than (of_nat (H + n)) (of_nat stop)" using circular_less_than_of_nat [of "H + n" stop] s by simp
    then show ?thesis unfolding base le [OF True] by simp
  next
    case False
    then have "\<not> circular_less_than (of_nat (H + n)) (of_nat stop)" using s assms(1) by (intro circular_less_than_not) simp_all
    then show ?thesis unfolding base using ge False by simp
  qed
qed

lemma producer_assertion: "counters_at p B H T \<Longrightarrow> \<not> circular_less_than (pr_tail p) (pr_head p)"
  using circular_less_than_not [of H T] by (simp add: counters_at_def)

lemma size_approx_spec: "counters_at p B H T \<Longrightarrow> size_approx p = of_nat (T - H)"
  using circular_less_than_of_nat [of H T] by (auto simp: counters_at_def size_approx_def of_nat_diff)

section \<open>Appending an element\<close>

lemma element_slot_of_nat: "i < 32 \<Longrightarrow> element_slot (of_nat (32 * j + i)) = i"
  unfolding element_slot_def by (rule slot_mask)

lemma block_holds_snoc:
  assumes "block_holds bk j H T xs" and "length xs = T - H" "H \<le> T" "32 * Suc j \<le> T"
  shows "block_holds bk j H (Suc T) (xs @ [x])"
  unfolding block_holds_def
proof (intro conjI allI impI)
  fix i assume i: "i < 32" "H \<le> 32 * j + i \<and> 32 * j + i < Suc T"
  then have "32 * j + i < T" using assms(4) by simp
  moreover then have "32 * j + i - H < length xs" using i assms(2) by linarith
  ultimately show "bk_elements bk ! i = Some ((xs @ [x]) ! (32 * j + i - H))"
    using assms(1) i by (simp add: block_holds_def nth_append)
qed (use assms(1) in \<open>simp_all add: block_holds_def\<close>)

lemma block_holds_construct:
  assumes "block_holds bk j H T xs" and "length xs = T - H" "H \<le> T" "32 * j \<le> T" "T < 32 * Suc j"
  shows "block_holds (construct bk (of_nat T) x) j H (Suc T) (xs @ [x])"
  unfolding block_holds_def
proof (intro conjI allI impI)
  define t where "t = T - 32 * j"
  have t: "t < 32" "T = 32 * j + t" using assms(4,5) by (simp_all add: t_def)
  then have slot: "element_slot (of_nat T) = t" using element_slot_of_nat by simp
  fix i assume i: "i < 32" "H \<le> 32 * j + i \<and> 32 * j + i < Suc T"
  show "bk_elements (construct bk (of_nat T) x) ! i = Some ((xs @ [x]) ! (32 * j + i - H))"
  proof (cases "i = t")
    case True
    then show ?thesis using assms(1,2) t(1) unfolding t(2) slot [unfolded t(2)] construct_def block_holds_def
      by (simp add: nth_append)
  next
    case False
    then have "32 * j + i < T" using i t by linarith
    moreover then have "32 * j + i - H < length xs" using i assms(2) by linarith
    ultimately show ?thesis using assms(1) i False by (simp add: block_holds_def construct_def slot nth_append)
  qed
qed (use assms(1) in \<open>simp_all add: block_holds_def construct_def\<close>)

text \<open>Writing an element behind the others, into the block of its index.\<close>

lemma construct_spec:
  assumes heap: "heap_inv h (set bs \<union> rest)" and sep: "set bs \<inter> rest = {}"
    and bs: "length bs = B - H div 32" "distinct bs" and T: "H \<le> T" "T < 32 * B" and xs: "length xs = T - H"
    and hold: "blocks_hold h bs B H T xs"
  shows "\<exists>bk. read_block h (bs ! (B - Suc (T div 32))) = Inr bk \<and>
    heap_inv (write_block h (bs ! (B - Suc (T div 32))) (construct bk (of_nat T) x)) (set bs \<union> rest) \<and>
    blocks_hold (write_block h (bs ! (B - Suc (T div 32))) (construct bk (of_nat T) x)) bs B H (Suc T) (xs @ [x]) \<and>
    (\<forall>c \<in> rest. block_at (write_block h (bs ! (B - Suc (T div 32))) (construct bk (of_nat T) x)) c = block_at h c)"
proof -
  define j where "j = T div 32"
  define c where "c = bs ! (B - Suc j)"
  have j: "H div 32 \<le> j" "j < B" using div_le_mono [OF T(1), of 32] T(2) by (simp_all add: j_def less_mult_imp_div_less mult.commute)
  then have pos: "B - Suc j < length bs" using bs(1) by linarith
  then have c: "c \<in> set bs" by (simp add: c_def)
  obtain bk where bk: "block_at h c = Some bk" "block_holds bk j H T xs" using hold j unfolding blocks_hold_def c_def by blast
  define bk' where "bk' = construct bk (of_nat T) x"
  define h' where "h' = write_block h c bk'"
  have jT: "32 * j \<le> T" "T < 32 * Suc j" by (simp_all add: j_def)
  have holds': "block_holds bk' j H (Suc T) (xs @ [x])" unfolding bk'_def using bk(2) xs T(1) jT by (rule block_holds_construct)
  have "c \<in> set bs \<union> rest" using c by simp
  note w = write_owned [OF heap this _ _ bk(1), of bk', folded h'_def]
  have w': "heap_inv h' (set bs \<union> rest)" "block_at h' c = Some bk'"
    using w holds' by (simp_all add: block_holds_def) (simp_all add: bk'_def construct_def)
  have "blocks_hold h' bs B H (Suc T) (xs @ [x])"
    unfolding blocks_hold_def
  proof (intro allI impI)
    fix i assume i: "H div 32 \<le> i \<and> i < B"
    show "\<exists>bk. block_at h' (bs ! (B - Suc i)) = Some bk \<and> block_holds bk i H (Suc T) (xs @ [x])"
    proof (cases "i = j")
      case True
      then show ?thesis using w'(2) holds' by (simp add: c_def)
    next
      case False
      have "B - Suc i < length bs" "B - Suc i \<noteq> B - Suc j" using False i j bs(1) by linarith+
      then have "bs ! (B - Suc i) \<noteq> c" using bs(2) pos by (simp add: c_def nth_eq_iff_index_eq)
      then have same: "block_at h' (bs ! (B - Suc i)) = block_at h (bs ! (B - Suc i))" by (simp add: h'_def)
      obtain d where d: "block_at h (bs ! (B - Suc i)) = Some d" "block_holds d i H T xs"
        using hold i unfolding blocks_hold_def by blast
      have "block_holds d i H (Suc T) (xs @ [x])"
      proof (cases "i < j")
        case True
        then have "32 * Suc i \<le> T" using jT(1) by simp
        with d(2) xs T(1) show ?thesis by (rule block_holds_snoc)
      next
        case False
        then have "Suc T \<le> 32 * i" using \<open>i \<noteq> j\<close> jT(2) by simp
        with d(2) show ?thesis by (simp add: block_holds_def)
      qed
      with same d(1) show ?thesis by simp
    qed
  qed
  moreover have "c \<notin> rest" using sep c by blast
  then have "\<forall>b \<in> rest. block_at h' b = block_at h b" by (auto simp: h'_def)
  ultimately show ?thesis using bk(1) w'(1) read_block_Inr unfolding h'_def bk'_def c_def j_def by blast
qed

lemma put_spec:
  assumes heap: "heap_inv h (set bs \<union> rest)" and sep: "set bs \<inter> rest = {}"
    and at: "producer_at h p bs B H T xs" and room: "T < 32 * B" "32 * B \<le> T + 32"
  shows "\<exists>p' h'. put_element x (of_nat T) p h = Inr (True, p', h') \<and> producer_at h' p' bs B H (Suc T) (xs @ [x]) \<and>
    heap_inv h' (set bs \<union> rest) \<and> (\<forall>c \<in> rest. block_at h' c = block_at h c)"
proof -
  have p: "index_holds p B bs" "length bs = B - H div 32" "distinct bs" "counters_at p B H T" "length xs = T - H"
    "blocks_hold h bs B H T xs"
    using at by (simp_all add: producer_at_def)
  have HT: "H \<le> T" using p(4) by (simp add: counters_at_def)
  have "H div 32 \<le> T div 32" using HT by (rule div_le_mono)
  moreover have TB: "T div 32 < B" using room by (simp add: less_mult_imp_div_less mult.commute)
  ultimately have "bs \<noteq> []" using p(2) by auto
  then have tb: "pr_tail_block p = Some (bs ! 0)" using at by (simp add: producer_at_def)
  have last: "B - Suc (T div 32) = 0" using TB room(2) by linarith
  obtain bk where bk: "read_block h (bs ! 0) = Inr bk"
    "heap_inv (write_block h (bs ! 0) (construct bk (of_nat T) x)) (set bs \<union> rest)"
    "blocks_hold (write_block h (bs ! 0) (construct bk (of_nat T) x)) bs B H (Suc T) (xs @ [x])"
    "\<forall>c \<in> rest. block_at (write_block h (bs ! 0) (construct bk (of_nat T) x)) c = block_at h c"
    using construct_spec [OF heap sep p(2,3) HT room(1) p(5,6), of x] unfolding last by blast
  define q where "q = p\<lparr>pr_tail := 1 + of_nat T\<rparr>"
  have run: "put_element x (of_nat T) p h = Inr (True, q, write_block h (bs ! 0) (construct bk (of_nat T) x))"
    using bk(1) by (simp add: put_element_def tb q_def)
  have "counters_at q B H (Suc T)" using p(4) room by (simp add: counters_at_def q_def)
  moreover have "index_holds q B bs" using p(1) by (subst index_holds_cong [of _ p]) (simp_all add: q_def)
  ultimately have "producer_at (write_block h (bs ! 0) (construct bk (of_nat T) x)) q bs B H (Suc T) (xs @ [x])"
    using p(2,3,5) bk(3) tb HT by (simp add: producer_at_def q_def)
  with run bk(2,4) show ?thesis by blast
qed

lemma index_holds_header: "index_holds p B bs \<Longrightarrow> pr_header p \<noteq> None"
  by (auto simp: index_holds_def index_wf_def)

lemma counters_at_cong: "same_counters p q \<Longrightarrow> counters_at q B H T = counters_at p B H T"
  by (simp add: counters_at_def same_counters_def)

text \<open>A new block behind the full ones.\<close>

lemma start_block:
  assumes heap: "heap_inv h (set bs \<union> rest)" and at: "producer_at h p bs B H T xs" and T: "T \<le> 32 * B" "32 * Suc B < H + 2 ^ 63"
    and res: "index_reserved p1 B bs e" "same_counters p p1"
    and b: "b \<notin> set bs \<union> rest" "heap_inv h1 (insert b (set bs \<union> rest))" "\<forall>c \<in> set bs \<union> rest. block_at h1 c = block_at h c"
  defines "q \<equiv> (set_entry_value e (Some b) p1)\<lparr>pr_tail_block := Some b\<rparr>"
  shows "\<exists>bk. read_block h1 b = Inr bk \<and> heap_inv (write_block h1 b (reset_empty bk)) (set (b # bs) \<union> rest) \<and>
    producer_at (write_block h1 b (reset_empty bk)) q (b # bs) (Suc B) H T xs"
proof -
  have p: "length bs = B - H div 32" "distinct bs" "counters_at p B H T" "length xs = T - H" "blocks_hold h bs B H T xs"
    using at by (simp_all add: producer_at_def)
  have HT: "H \<le> T" "H div 32 \<le> B" using p(3) T div_le_mono [of H "32 * B" 32] by (simp_all add: counters_at_def)
  have "idle_block h1 b" using b(2) by (auto elim: heap_invE)
  then obtain bk where bk: "block_at h1 b = Some bk" "bk_refs bk = 0" "length (bk_elements bk) = 32"
    by (auto simp: idle_block_def)
  define h2 where "h2 = write_block h1 b (reset_empty bk)"
  note w = write_owned [OF b(2) insertI1, of "reset_empty bk", folded h2_def]
  have w': "heap_inv h2 (set (b # bs) \<union> rest)" "block_at h2 b = Some (reset_empty bk)"
    using w bk by (simp_all add: reset_empty_def)
  have "index_holds (set_entry_value e (Some b) p1) (Suc B) (b # bs)" using res(1) by (rule fill_spec)
  then have ix: "index_holds q (Suc B) (b # bs)" by (subst index_holds_cong [of _ "set_entry_value e (Some b) p1"]) (simp_all add: q_def)
  have "counters_at q (Suc B) H T" using p(3) T res(2) by (simp add: counters_at_def same_counters_def q_def)
  moreover have "blocks_hold h2 (b # bs) (Suc B) H T xs"
    unfolding blocks_hold_def
  proof (intro allI impI)
    fix j assume j: "H div 32 \<le> j \<and> j < Suc B"
    show "\<exists>bk. block_at h2 ((b # bs) ! (Suc B - Suc j)) = Some bk \<and> block_holds bk j H T xs"
    proof (cases "j = B")
      case True
      then show ?thesis using w'(2) bk HT T by (auto simp: block_holds_def reset_empty_def)
    next
      case False
      then have "j < B" using j by linarith
      then have "Suc B - Suc j = Suc (B - Suc j)" by linarith
      then have pos: "(b # bs) ! (Suc B - Suc j) = bs ! (B - Suc j)" by (simp only: nth_Cons_Suc)
      have "B - Suc j < length bs" using \<open>j < B\<close> j p(1) by linarith
      then have "bs ! (B - Suc j) \<in> set bs" by simp
      moreover then have "bs ! (B - Suc j) \<noteq> b" using b(1) by blast
      ultimately have "block_at h2 (bs ! (B - Suc j)) = block_at h (bs ! (B - Suc j))" using b(3) by (simp add: h2_def)
      then show ?thesis using p(5) j \<open>j < B\<close> unfolding pos(1) blocks_hold_def by simp
    qed
  qed
  ultimately have "producer_at h2 q (b # bs) (Suc B) H T xs"
    unfolding producer_at_def using ix p(1,2,4) b(1) HT(2) by (simp add: q_def Suc_diff_le)
  with w'(1) bk(1) show ?thesis by (intro exI [of _ bk]) (simp add: h2_def read_block_Inr)
qed

lemma enqueue_spec:
  assumes heap: "heap_inv h (own \<union> rest)" and sep: "own \<inter> rest = {}" and holds: "producer_holds h p own xs"
  shows "\<exists>r p' h' own'. producer_enqueue ok1 ok2 x p h = Inr (r, p', h') \<and>
    producer_holds h' p' own' (if r then xs @ [x] else xs) \<and> heap_inv h' (own' \<union> rest) \<and> own' \<inter> rest = {} \<and>
    (\<forall>c \<in> rest. block_at h' c = block_at h c) \<and> (pr_header p' = None \<longleftrightarrow> pr_header p = None) \<and>
    (\<not> r \<longrightarrow> pr_header p = None \<or> \<not> ok1 \<or> \<not> ok2 \<or> 2 ^ 63 - 32 \<le> length xs)"
  (is "\<exists>r p' h' own'. ?goal r p' h' own'")
  using holds [unfolded producer_holds_def]
proof (elim disjE exE conjE)
  assume dead: "pr_header p = None" "counters_at p 0 0 0" "own = {}" "xs = []"
  have "producer_enqueue ok1 ok2 x p h = Inr (False, p, h)" using dead
    by (simp add: producer_enqueue_def counters_at_def circular_less_than_def BLOCK_SIZE_def insert_block_index_entry_def push_bit_eq_mult)
  with dead heap sep holds have "?goal False p h own" by simp
  then show ?thesis by (intro exI)
next
  fix bs B H T assume at: "producer_at h p bs B H T xs" and B: "32 * B < T + 32" and own: "own = set bs"
  have p: "index_holds p B bs" "length bs = B - H div 32" "distinct bs" "counters_at p B H T" "length xs = T - H" "blocks_hold h bs B H T xs"
    using at by (simp_all add: producer_at_def)
  have c: "pr_head p = of_nat H" "pr_tail p = of_nat T" "H \<le> T" "T \<le> 32 * B" "32 * B < H + 2 ^ 63"
    using p(4) by (simp_all add: counters_at_def)
  note heap = heap [unfolded own] and sep = sep [unfolded own] and hd = index_holds_header [OF p(1)]
  show ?thesis
  proof (cases "T mod 32 = 0")
    case False
    then have "T < 32 * B" using c(4) by (cases "T = 32 * B") simp_all
    with put_spec [OF heap sep at, of x] B obtain p' h' where put: "put_element x (of_nat T) p h = Inr (True, p', h')"
      "producer_at h' p' bs B H (Suc T) (xs @ [x])" "heap_inv h' (set bs \<union> rest)" "\<forall>c \<in> rest. block_at h' c = block_at h c" by auto
    have "producer_enqueue ok1 ok2 x p h = Inr (True, p', h')"
      using False put(1) unfolding producer_enqueue_def c(2) Let_def block_boundary by simp
    moreover have "producer_holds h' p' (set bs) (xs @ [x])" unfolding producer_holds_def using put(2) B by fastforce
    moreover have "pr_header p' \<noteq> None" using put(2) by (auto simp: producer_at_def dest: index_holds_header)
    ultimately have "?goal True p' h' (set bs)" using put(3,4) sep hd by (simp del: not_None_eq)
    then show ?thesis by (intro exI)
  next
    case True
    then have TB: "T = 32 * B" using B c(4) by presburger
    have run: "producer_enqueue ok1 ok2 x p h = (if \<not> circular_less_than (of_nat H) (of_nat (T + 32)) then Inr (False, p, h)
      else (case insert_block_index_entry ok1 (of_nat (32 * B)) p of (None, p1) \<Rightarrow> Inr (False, p1, h)
        | (Some idxEntry, p1) \<Rightarrow> res_bind (requisition_block ok2 h) (\<lambda>(newBlock, h1). case newBlock of
              None \<Rightarrow> Inr (False, set_entry_value idxEntry None (rewind_block_index_tail p1), h1)
            | Some b \<Rightarrow> res_bind (read_block h1 b) (\<lambda>bk.
                put_element x (of_nat T) ((set_entry_value idxEntry (Some b) p1)\<lparr>pr_tail_block := Some b\<rparr>)
                  (write_block h1 b (reset_empty bk))))))"
      unfolding producer_enqueue_def c(1,2) Let_def block_boundary using True by (simp add: BLOCK_SIZE_def TB)
    have "T + 32 < H + 2 ^ 64" "H \<le> T + 32" using c TB by simp_all
    note less = circular_less_than_of_nat [OF this(2,1)]
    show ?thesis
    proof (cases "T + 32 < H + 2 ^ 63")
      case False
      then have "2 ^ 63 - 32 \<le> length xs" using p(5) c(3) by simp
      then have "?goal False p h own" using False run less assms by simp
      then show ?thesis by (intro exI)
    next
      case room: True
      then have run: "producer_enqueue ok1 ok2 x p h = (case insert_block_index_entry ok1 (of_nat (32 * B)) p of (None, p1) \<Rightarrow> Inr (False, p1, h)
        | (Some idxEntry, p1) \<Rightarrow> res_bind (requisition_block ok2 h) (\<lambda>(newBlock, h1). case newBlock of
              None \<Rightarrow> Inr (False, set_entry_value idxEntry None (rewind_block_index_tail p1), h1)
            | Some b \<Rightarrow> res_bind (read_block h1 b) (\<lambda>bk.
                put_element x (of_nat T) ((set_entry_value idxEntry (Some b) p1)\<lparr>pr_tail_block := Some b\<rparr>)
                  (write_block h1 b (reset_empty bk)))))"
        using run less c(3) by simp
      have room': "32 * Suc B < H + 2 ^ 63" using room TB by simp
      from insert_spec [OF p(1), of ok1] show ?thesis
      proof (elim disjE exE conjE)
        assume none: "insert_block_index_entry ok1 (of_nat (32 * B)) p = (None, p)" and "\<not> ok1"
        then have "?goal False p h own" using run assms by simp
        then show ?thesis by (intro exI)
      next
        assume "length bs = 2 ^ 58"
        then have "B = H div 32 + 2 ^ 58" using p(2) by simp
        then have False using room' by simp
        then show ?thesis ..
      next
        fix e p1 assume ins: "insert_block_index_entry ok1 (of_nat (32 * B)) p = (Some e, p1)" "index_reserved p1 B bs e" "same_counters p p1"
        obtain r h1 where req: "requisition_block ok2 h = Inr (r, h1)" "\<forall>b \<in> set bs \<union> rest. block_at h1 b = block_at h b"
          "case r of None \<Rightarrow> \<not> ok2 \<and> h1 = h | Some b \<Rightarrow> b \<notin> set bs \<union> rest \<and> heap_inv h1 (insert b (set bs \<union> rest))"
          using requisition_spec [OF heap, of ok2] by blast
        show ?thesis
        proof (cases r)
          case None
          let ?q = "set_entry_value e None (rewind_block_index_tail p1)"
          have ix: "index_holds ?q B bs" using ins(2) by (rule cancel_spec)
          have "same_counters p ?q" using ins(3) by (simp add: same_counters_def)
          then have "producer_at h ?q bs B H T xs"
            using ix at counters_at_cong [of p ?q] by (simp add: producer_at_def same_counters_def)
          then have "producer_holds h ?q own xs" unfolding producer_holds_def using B own by blast
          moreover have "pr_header ?q \<noteq> None" using ix by (rule index_holds_header)
          ultimately have "?goal False ?q h own" using run ins(1) req None hd assms(1,2) by (simp del: not_None_eq)
          then show ?thesis by (intro exI)
        next
          case (Some b)
          with req have b: "b \<notin> set bs \<union> rest" "heap_inv h1 (insert b (set bs \<union> rest))" by simp_all
          obtain bk where s: "read_block h1 b = Inr bk" "heap_inv (write_block h1 b (reset_empty bk)) (set (b # bs) \<union> rest)"
            "producer_at (write_block h1 b (reset_empty bk)) ((set_entry_value e (Some b) p1)\<lparr>pr_tail_block := Some b\<rparr>) (b # bs) (Suc B) H T xs"
            using start_block [OF heap at eq_refl [OF TB] room' ins(2,3) b req(2)] by blast
          have sep': "set (b # bs) \<inter> rest = {}" using sep b(1) by auto
          obtain p' h' where put: "put_element x (of_nat T) ((set_entry_value e (Some b) p1)\<lparr>pr_tail_block := Some b\<rparr>)
              (write_block h1 b (reset_empty bk)) = Inr (True, p', h')"
            "producer_at h' p' (b # bs) (Suc B) H (Suc T) (xs @ [x])" "heap_inv h' (set (b # bs) \<union> rest)"
            "\<forall>c \<in> rest. block_at h' c = block_at (write_block h1 b (reset_empty bk)) c"
            using put_spec [OF s(2) sep' s(3), of x] TB by auto
          have "producer_holds h' p' (set (b # bs)) (xs @ [x])" unfolding producer_holds_def using put(2) TB by fastforce
          moreover have "pr_header p' \<noteq> None" using put(2) by (auto simp: producer_at_def dest: index_holds_header)
          moreover have "\<forall>c \<in> rest. block_at h' c = block_at h c" using put(4) req(2) b(1) by auto
          moreover have "producer_enqueue ok1 ok2 x p h = Inr (True, p', h')"
            unfolding run ins(1) req(1) Some by (simp add: s(1) put(1))
          ultimately have "?goal True p' h' (set (b # bs))" using put(3) sep' hd by (simp del: not_None_eq)
          then show ?thesis by (intro exI)
        qed
      qed
    qed
  qed
qed

section \<open>Taking the oldest element\<close>

lemma block_holds_tl:
  assumes "block_holds bk j H T xs" and "Suc H \<le> 32 * j" and "length xs = T - H" "xs \<noteq> []"
  shows "block_holds bk j (Suc H) T (tl xs)"
  unfolding block_holds_def
proof (intro conjI allI impI)
  fix i assume i: "i < 32" "Suc H \<le> 32 * j + i \<and> 32 * j + i < T"
  then have n: "32 * j + i - H = Suc (32 * j + i - Suc H)" "32 * j + i - Suc H < length (tl xs)"
    using assms(3) by (simp_all, linarith+)
  then have "tl xs ! (32 * j + i - Suc H) = xs ! (32 * j + i - H)" by (simp add: nth_tl)
  then show "bk_elements bk ! i = Some (tl xs ! (32 * j + i - Suc H))" using assms(1) i by (simp add: block_holds_def)
qed (use assms(1,2) in \<open>simp_all add: block_holds_def\<close>)

text \<open>The element is moved out of its block, which counts it.\<close>

lemma take_from_block:
  assumes bk: "block_holds bk j H T xs" and j: "j = H div 32" and xs: "length xs = T - H" "xs = y # ys"
  shows "\<exists>bk'. move_out bk (of_nat H) = Inr (y, bk') \<and> fst (set_empty bk') = (H mod 32 = 31) \<and>
    bk_refs (snd (set_empty bk')) = 0 \<and> length (bk_elements (snd (set_empty bk'))) = 32 \<and>
    bk_dynamic (snd (set_empty bk')) = bk_dynamic bk \<and> block_holds (snd (set_empty bk')) j (Suc H) T ys"
proof -
  define i where "i = H mod 32"
  have i: "i < 32" "H = 32 * j + i" by (simp_all add: i_def j)
  then have i': "H - 32 * j = i" by linarith
  have HT: "H < T" using xs by simp
  have slot: "element_slot (of_nat H) = i" using element_slot_of_nat [OF i(1), of j] i(2) by simp
  have "bk_elements bk ! i = Some (xs ! (32 * j + i - H))" using bk i HT unfolding block_holds_def by simp
  then have el: "bk_elements bk ! i = Some y" using i(2) xs(2) by simp
  define bk' where "bk' = bk\<lparr>bk_elements := (bk_elements bk)[i := None]\<rparr>"
  have b: "bk_refs bk = 0" "length (bk_elements bk) = 32" "bk_dequeued bk = of_nat i"
    using bk i' by (simp_all add: block_holds_def)
  have "unat (of_nat i :: u64) = i" using i(1) by (intro unat_of_nat_u64) simp
  then have "(of_nat i :: u64) = 31 \<longleftrightarrow> i = 31" by (simp add: word_unat_eq_iff)
  then have full: "fst (set_empty bk') = (i = 31)" using b(3) by (simp add: set_empty_def bk'_def BLOCK_SIZE_def)
  have "block_holds (snd (set_empty bk')) j (Suc H) T ys"
    unfolding block_holds_def
  proof (intro conjI allI impI)
    have "Suc H - 32 * j = Suc i" using i by linarith
    then show "bk_dequeued (snd (set_empty bk')) = of_nat (Suc H - 32 * j)" using b(3) by (simp add: set_empty_def bk'_def)
    fix c assume c: "c < 32" "Suc H \<le> 32 * j + c \<and> 32 * j + c < T"
    then have n: "c \<noteq> i" "32 * j + c - H = Suc (32 * j + c - Suc H)" using i(2) by linarith+
    have "bk_elements bk ! c = Some (xs ! (32 * j + c - H))" using bk c unfolding block_holds_def by simp
    then show "bk_elements (snd (set_empty bk')) ! c = Some (ys ! (32 * j + c - Suc H))"
      using n xs(2) by (simp add: set_empty_def bk'_def)
  qed (use b in \<open>simp_all add: set_empty_def bk'_def\<close>)
  moreover have "move_out bk (of_nat H) = Inr (y, bk')" by (simp add: move_out_def slot el bk'_def)
  moreover have "bk_refs (snd (set_empty bk')) = 0" "length (bk_elements (snd (set_empty bk'))) = 32"
    "bk_dynamic (snd (set_empty bk')) = bk_dynamic bk"
    using b by (simp_all add: set_empty_def bk'_def)
  ultimately show ?thesis using full by (auto simp: i_def)
qed

lemma take_spec:
  assumes heap: "heap_inv h (set bs \<union> rest)" and sep: "set bs \<inter> rest = {}" and at: "producer_at h p bs B H T (y # ys)"
    and q: "pr_entries q = pr_entries p" "pr_header q = pr_header p" "pr_next_capacity q = pr_next_capacity p"
      "pr_tail_block q = pr_tail_block p" "counters_at q B (Suc H) T"
  shows "\<exists>q' h' bs'. take_element (of_nat H) q h = Inr (Some y, q', h') \<and> producer_at h' q' bs' B (Suc H) T ys \<and>
    set bs' \<subseteq> set bs \<and> heap_inv h' (set bs' \<union> rest) \<and> (\<forall>c \<in> rest. block_at h' c = block_at h c)"
proof -
  have p: "index_holds p B bs" "length bs = B - H div 32" "distinct bs" "length (y # ys) = T - H"
    "bs \<noteq> [] \<longrightarrow> pr_tail_block p = Some (bs ! 0)" "blocks_hold h bs B H T (y # ys)"
    using at by (simp_all add: producer_at_def)
  have c: "Suc H \<le> T" "T \<le> 32 * B" using q(5) by (simp_all add: counters_at_def)
  define j where "j = H div 32"
  define d where "d = B - Suc j"
  have "j < B" using c unfolding j_def by (intro less_mult_imp_div_less) simp
  then have d: "length bs = Suc d" "d < length bs" "B - Suc d = j" using p(2) by (simp_all add: d_def j_def)
  have Hj: "32 * (B - Suc d) + H mod 32 = H" unfolding d(3) j_def by simp
  have ix: "index_holds q B bs" using p(1) by (subst index_holds_cong [of _ p]) (use q in simp_all)
  obtain e where e: "get_block_index_entry_for_index (of_nat H) q = Inr e" "ie_value (pr_entries q ! e) = Some (bs ! d)"
    "index_holds (set_entry_value e None q) B (butlast bs)"
    using lookup_spec [OF ix d(2), of "H mod 32"] d(1) unfolding Hj by auto
  obtain bk where bk: "block_at h (bs ! d) = Some bk" "block_holds bk j H T (y # ys)"
    using p(6) \<open>j < B\<close> unfolding blocks_hold_def d_def j_def by blast
  obtain bk' where m: "move_out bk (of_nat H) = Inr (y, bk')" "fst (set_empty bk') = (H mod 32 = 31)"
    "bk_refs (snd (set_empty bk')) = 0" "length (bk_elements (snd (set_empty bk'))) = 32"
    "block_holds (snd (set_empty bk')) j (Suc H) T ys" "bk_dynamic (snd (set_empty bk')) = bk_dynamic bk"
    using take_from_block [OF bk(2) j_def p(4) refl] by blast
  have mem: "bs ! d \<in> set bs" using d(2) by (rule nth_mem)
  then have mem': "bs ! d \<in> set bs \<union> rest" "bs ! d \<notin> rest" using sep by blast+
  define h1 where "h1 = write_block h (bs ! d) (snd (set_empty bk'))"
  note w = write_owned [OF heap mem'(1) m(3,4) bk(1) m(6), folded h1_def]
  have other: "block_at h1 b = block_at h b" if "b \<noteq> bs ! d" for b using that by (simp add: h1_def)
  have later: "block_holds b i (Suc H) T ys" if "j < i" "block_holds b i H T (y # ys)" for b i
  proof -
    have "Suc H \<le> 32 * i" using that(1) unfolding j_def by linarith
    from block_holds_tl [OF that(2) this p(4)] show ?thesis by simp
  qed
  have at_i: "\<exists>b. block_at h1 (bs ! (B - Suc i)) = Some b \<and> block_holds b i (Suc H) T ys \<and> bs ! (B - Suc i) \<noteq> bs ! d \<and>
      bs ! (B - Suc i) \<in> set bs" if i: "j < i" "i < B" for i
  proof -
    have lt: "B - Suc i < d" using i by (simp add: d_def)
    then have ne: "bs ! (B - Suc i) \<noteq> bs ! d" using p(3) d by (simp add: nth_eq_iff_index_eq)
    have "H div 32 \<le> i \<and> i < B" using i by (simp add: j_def)
    then obtain b where "block_at h (bs ! (B - Suc i)) = Some b" "block_holds b i H T (y # ys)"
      using p(6) unfolding blocks_hold_def by blast
    then show ?thesis using later [OF i(1)] other [OF ne] ne lt d by auto
  qed
  have run: "take_element (of_nat H) q h = (if H mod 32 = 31 then res_bind (add_block_to_free_list h1 (bs ! d))
            (\<lambda>h'. Inr (Some y, set_entry_value e None q, h'))
          else Inr (Some y, q, h1))"
    using m(2) by (simp add: take_element_def e(1,2) read_block_Inr [OF bk(1)] m(1) split_beta h1_def)
  show ?thesis
  proof (cases "H mod 32 = 31")
    case True
    then have div: "Suc H div 32 = Suc j" by (simp add: j_def div_Suc mod_Suc)
    obtain h' where r: "add_block_to_free_list h1 (bs ! d) = Inr h'" "heap_inv h' (set bs \<union> rest - {bs ! d})"
      "\<forall>c \<in> set bs \<union> rest - {bs ! d}. block_at h' c = block_at h1 c"
      using release_spec [OF w(1) mem'(1)] by blast
    obtain cs b where cs: "bs = cs @ [b]" using d(1) by (cases bs rule: rev_cases) simp_all
    then have "bs ! d = b" "butlast bs = cs" "b \<notin> set cs" using d(1) p(3) by (auto simp: nth_append)
    then have "bs ! d \<notin> set (butlast bs)" "set bs = insert (bs ! d) (set (butlast bs))" using cs by simp_all
    then have own: "set bs \<union> rest - {bs ! d} = set (butlast bs) \<union> rest" using mem'(2) by blast
    have "blocks_hold h' (butlast bs) B (Suc H) T ys"
      unfolding blocks_hold_def div
    proof (intro allI impI)
      fix i assume i: "Suc j \<le> i \<and> i < B"
      then obtain b where b: "block_at h1 (bs ! (B - Suc i)) = Some b" "block_holds b i (Suc H) T ys" "bs ! (B - Suc i) \<noteq> bs ! d"
        "bs ! (B - Suc i) \<in> set bs" using at_i [of i] by auto
      then have "block_at h' (bs ! (B - Suc i)) = Some b" using r(3) by simp
      moreover have "butlast bs ! (B - Suc i) = bs ! (B - Suc i)" using i d(1) unfolding d_def by (intro nth_butlast) (simp, linarith)
      ultimately show "\<exists>bk. block_at h' (butlast bs ! (B - Suc i)) = Some bk \<and> block_holds bk i (Suc H) T ys"
        using b(2) by auto
    qed
    moreover have "pr_tail_block q = Some (butlast bs ! 0)" if "butlast bs \<noteq> []"
    proof -
      have "bs \<noteq> []" "0 < length (butlast bs)" using that by (auto simp only: length_greater_0_conv butlast.simps)
      then show ?thesis using p(5) q(4) nth_butlast [of 0 bs] by simp
    qed
    moreover have "counters_at (set_entry_value e None q) B (Suc H) T" using q(5) by (simp add: counters_at_def)
    ultimately have "producer_at h' (set_entry_value e None q) (butlast bs) B (Suc H) T ys"
      using e(3) d(1) p(3,4) \<open>j < B\<close> unfolding producer_at_def div by (auto simp: distinct_butlast d_def)
    moreover have "take_element (of_nat H) q h = Inr (Some y, set_entry_value e None q, h')" using run True r(1) by simp
    moreover have "\<forall>c \<in> rest. block_at h' c = block_at h c" using r(3) other mem'(2) by auto
    moreover have "heap_inv h' (set (butlast bs) \<union> rest)" using r(2) own by simp
    ultimately show ?thesis by (intro exI [of _ "set_entry_value e None q"] exI [of _ h'] exI [of _ "butlast bs"]) (auto dest: in_set_butlastD)
  next
    case False
    then have div: "Suc H div 32 = j" by (simp add: j_def div_Suc mod_Suc)
    have "blocks_hold h1 bs B (Suc H) T ys"
      unfolding blocks_hold_def div
    proof (intro allI impI)
      fix i assume i: "j \<le> i \<and> i < B"
      show "\<exists>bk. block_at h1 (bs ! (B - Suc i)) = Some bk \<and> block_holds bk i (Suc H) T ys"
      proof (cases "i = j")
        case True
        then show ?thesis using w(2) m(5) by (simp add: d_def)
      next
        case False
        then show ?thesis using at_i [of i] i by auto
      qed
    qed
    then have "producer_at h1 q bs B (Suc H) T ys" using ix p q div by (simp add: producer_at_def j_def)
    moreover have "\<forall>c \<in> rest. block_at h1 c = block_at h c" using other mem'(2) by metis
    ultimately show ?thesis using run False w(1) by (intro exI [of _ q] exI [of _ h1] exI [of _ bs]) simp
  qed
qed

lemma dequeue_spec:
  assumes heap: "heap_inv h (own \<union> rest)" and sep: "own \<inter> rest = {}" and holds: "producer_holds h p own xs"
  shows "\<exists>p' h' own'. producer_dequeue p h = Inr (case xs of [] \<Rightarrow> None | y # _ \<Rightarrow> Some y, p', h') \<and>
    producer_holds h' p' own' (tl xs) \<and> own' \<subseteq> own \<and> heap_inv h' (own' \<union> rest) \<and>
    (\<forall>c \<in> rest. block_at h' c = block_at h c) \<and> (pr_header p' = None \<longleftrightarrow> pr_header p = None)"
proof (cases xs)
  case Nil
  have "producer_dequeue p h = Inr (None, p, h)"
  proof -
    obtain B H T where c: "counters_at p B H T" "T - H = 0" using holds Nil by (auto simp: producer_holds_def producer_at_def)
    then have "H = T" by (simp add: counters_at_def)
    then show ?thesis using c by (simp add: producer_dequeue_def counters_at_def circular_less_than_def)
  qed
  then show ?thesis using assms Nil by auto
next
  case (Cons y ys)
  then obtain bs B H T where at: "producer_at h p bs B H T (y # ys)" and B: "32 * B < T + 32" and own: "own = set bs"
    using holds unfolding producer_holds_def by auto
  have c: "pr_head p = of_nat H" "pr_tail p = of_nat T" "pr_optimistic p - pr_overcommit p = of_nat H" "H < T" "T \<le> 32 * B"
    "32 * B < H + 2 ^ 63" "pr_header p \<noteq> None"
    using at by (auto simp: producer_at_def counters_at_def dest: index_holds_header)
  define q where "q = p\<lparr>pr_optimistic := pr_optimistic p + 1, pr_head := pr_head p + 1\<rparr>"
  have "circular_less_than (of_nat H) (of_nat T)" using circular_less_than_of_nat [of H T] c by simp
  then have run: "producer_dequeue p h = take_element (of_nat H) q h"
    by (simp add: producer_dequeue_def Let_def c(1-3) q_def)
  have opt: "pr_optimistic p + 1 - pr_overcommit p = of_nat (Suc H)" using c(3) by (simp add: algebra_simps)
  have q: "pr_entries q = pr_entries p" "pr_header q = pr_header p" "pr_next_capacity q = pr_next_capacity p"
    "pr_tail_block q = pr_tail_block p" "counters_at q B (Suc H) T"
    using c opt by (simp_all add: q_def counters_at_def)
  obtain q' h' bs' where t: "take_element (of_nat H) q h = Inr (Some y, q', h')" "producer_at h' q' bs' B (Suc H) T ys"
    "set bs' \<subseteq> own" "heap_inv h' (set bs' \<union> rest)" "\<forall>c \<in> rest. block_at h' c = block_at h c"
    using take_spec [OF heap [unfolded own] sep [unfolded own] at q] unfolding own by blast
  have "producer_holds h' q' (set bs') (tl xs)" unfolding producer_holds_def using t(2) B Cons by auto
  moreover have "pr_header q' \<noteq> None" using t(2) by (auto simp: producer_at_def dest: index_holds_header)
  ultimately show ?thesis using run t(1,3-5) Cons c(7)
    by (intro exI [of _ q'] exI [of _ h'] exI [of _ "set bs'"]) (simp del: not_None_eq)
qed

lemma new_producer_holds: "producer_holds h (new_producer ok) {} []"
proof (cases ok)
  case True
  then have "producer_at h (new_producer ok) [] 0 0 0 []"
    using new_producer_spec(1) new_producer_spec(3-) [of ok] by (simp add: producer_at_def counters_at_def blocks_hold_def)
  then show ?thesis unfolding producer_holds_def by fastforce
next
  case False
  then show ?thesis using new_producer_spec(2-) [of ok] by (simp add: producer_holds_def counters_at_def)
qed

lemma producer_holds_cong:
  assumes "\<And>b. b \<in> own \<Longrightarrow> block_at h' b = block_at h b" and "producer_holds h p own xs"
  shows "producer_holds h' p own xs"
  using assms(2) unfolding producer_holds_def
proof (elim disjE exE conjE)
  fix bs B H T assume at: "producer_at h p bs B H T xs" and B: "32 * B < T + 32" and own: "own = set bs"
  have "bs ! (B - Suc j) \<in> own" if "H div 32 \<le> j \<and> j < B" for j
  proof -
    have "B - Suc j < length bs" using at that unfolding producer_at_def by linarith
    then show ?thesis by (simp add: own)
  qed
  then have "blocks_hold h' bs B H T xs" using at assms(1) unfolding producer_at_def blocks_hold_def by metis
  then have "producer_at h' p bs B H T xs" using at by (simp add: producer_at_def)
  with B own show "(\<exists>bs B H T. producer_at h' p bs B H T xs \<and> 32 * B < T + 32 \<and> own = set bs) \<or>
    (pr_header p = None \<and> counters_at p 0 0 0 \<and> own = {} \<and> xs = [])" by blast
qed simp

end
