(* ===== verification/MoodyThreads.thy ===== *)
theory MoodyThreads
  imports MoodyProducer
begin

text \<open>
  How \<^verbatim>\<open>moodycamel::ConcurrentQueue\<close> finds the producer of a thread (moodycamel/concurrentqueue.h):
  the hash of thread identifiers, the chain of hash tables that grow, the list of producers, and
  what happens when a thread exits. The calls of one thread at a time.
\<close>

section \<open>Thread identifiers\<close>

text \<open>
  On x86-64 a thread is known by the address of a thread-local variable, which is neither of the
  two invalid ones; a new thread may get the address of one that exited.
\<close>

definition invalid_thread_id :: u64 where
  "invalid_thread_id = 0"

definition invalid_thread_id2 :: u64 where
  "invalid_thread_id2 = 1"

definition thread_key :: "u64 \<Rightarrow> bool" where
  "thread_key tid \<longleftrightarrow> tid \<noteq> invalid_thread_id \<and> tid \<noteq> invalid_thread_id2"

definition xor_shift :: "u64 \<Rightarrow> u64" where
  "xor_shift h = h XOR drop_bit 33 h"

definition hash_thread_id :: "u64 \<Rightarrow> u64" where
  "hash_thread_id tid = xor_shift (xor_shift (xor_shift tid * 0xff51afd7ed558ccd) * 0xc4ceb9fe1a85ec53)"

text \<open>The hash keeps identifiers apart: each of its steps can be undone.\<close>

lemma xor_shift_twice: "xor_shift (xor_shift h) = h"
  by (rule bit_word_eqI) (simp add: xor_shift_def bit_simps, auto dest: bit_imp_le_length)

definition unhash_thread_id :: "u64 \<Rightarrow> u64" where
  "unhash_thread_id h = xor_shift (xor_shift (xor_shift h * 0x9cb4b2f8129337db) * 0x4f74430c22a54005)"

lemma unhash_hash: "unhash_thread_id (hash_thread_id tid) = tid"
proof -
  have "(0xff51afd7ed558ccd :: u64) * 0x4f74430c22a54005 = 1" "(0xc4ceb9fe1a85ec53 :: u64) * 0x9cb4b2f8129337db = 1" by simp_all
  then have "w * 0xff51afd7ed558ccd * 0x4f74430c22a54005 = w" "w * 0xc4ceb9fe1a85ec53 * 0x9cb4b2f8129337db = w" for w :: u64
    by (simp_all only: mult.assoc mult_1_right)
  then show ?thesis by (simp only: unhash_thread_id_def hash_thread_id_def xor_shift_twice)
qed

section \<open>Hash tables\<close>

text \<open>
  \<open>cq_hash\<close> is the chain of tables from the current one to the oldest; a pointer to a producer is
  its place in \<open>cq_producers\<close>, to which new ones are appended, so that the list from
  \<open>producerListTail\<close> on is its reverse. \<open>cq_listeners\<close> are the listeners for the exit of each
  thread, the last one first.
\<close>

record thread_table =
  tt_capacity :: u64
  tt_keys :: "u64 list"
  tt_values :: "nat option list"

record 'a cqueue =
  cq_producers :: "producer list"
  cq_producer_count :: u32
  cq_hash :: "thread_table list"
  cq_count :: u64
  cq_listeners :: "(u64 \<times> nat) list"
  cq_heap :: "'a mheap"

text \<open>Which allocations of a call succeed.\<close>

record alloc =
  al_hash :: bool
  al_producer :: bool
  al_index :: bool
  al_block :: bool

definition new_table :: "u64 \<Rightarrow> thread_table" where
  "new_table capacity = \<lparr>tt_capacity = capacity, tt_keys = replicate (unat capacity) invalid_thread_id,
     tt_values = replicate (unat capacity) None\<rparr>"

text \<open>
  The loops over a table stop at the first slot with a key of some kind. After a whole round
  without one they would go on for ever.
\<close>

fun probe_slots :: "(u64 \<Rightarrow> bool) \<Rightarrow> thread_table \<Rightarrow> u64 \<Rightarrow> nat \<Rightarrow> nat res" where
  "probe_slots stop t index 0 = Inl Diverges"
| "probe_slots stop t index (Suc n) = (let i = index AND (tt_capacity t - 1) in
    if unat i \<ge> length (tt_keys t) then Inl (UB Out_Of_Bounds)
    else if stop (tt_keys t ! unat i) then Inr (unat i)
    else probe_slots stop t (i + 1) n)"

definition find_thread :: "u64 \<Rightarrow> thread_table \<Rightarrow> nat option res" where
  "find_thread tid t = res_bind (probe_slots (\<lambda>k. k = tid \<or> k = invalid_thread_id) t (hash_thread_id tid) (unat (tt_capacity t)))
    (\<lambda>i. Inr (if tt_keys t ! i = tid then Some i else None))"

definition vacant_slot :: "u64 \<Rightarrow> thread_table \<Rightarrow> nat res" where
  "vacant_slot tid t = probe_slots (\<lambda>k. k = invalid_thread_id \<or> k = invalid_thread_id2) t (hash_thread_id tid) (unat (tt_capacity t))"

definition set_slot :: "nat \<Rightarrow> u64 \<Rightarrow> nat option \<Rightarrow> thread_table \<Rightarrow> thread_table" where
  "set_slot i tid v t = t\<lparr>tt_keys := (tt_keys t)[i := tid], tt_values := (tt_values t)[i := v]\<rparr>"

text \<open>How deep in the chain the thread was found, and its producer.\<close>

fun search_tables :: "u64 \<Rightarrow> thread_table list \<Rightarrow> (nat \<times> nat option) option res" where
  "search_tables tid [] = Inr None"
| "search_tables tid (t # ts) = res_bind (find_thread tid t) (\<lambda>r. case r of
      Some i \<Rightarrow> Inr (Some (0, tt_values t ! i))
    | None \<Rightarrow> res_bind (search_tables tid ts) (\<lambda>r. Inr (map_option (\<lambda>(d, v). (Suc d, v)) r)))"

section \<open>Finding or adding a producer\<close>

text \<open>\<open>0\<close> after 64 shifts, and then the loop does not end.\<close>

fun grow_capacity :: "nat \<Rightarrow> u64 \<Rightarrow> u64 \<Rightarrow> u64 res" where
  "grow_capacity 0 newCount newCapacity = Inl Diverges"
| "grow_capacity (Suc n) newCount newCapacity = (if newCount \<ge> drop_bit 1 newCapacity
    then grow_capacity n newCount (push_bit 1 newCapacity) else Inr newCapacity)"

text \<open>\<open>None\<close> if a larger table is needed and there is no memory for it.\<close>

definition grow_hash :: "alloc \<Rightarrow> u64 \<Rightarrow> thread_table list \<Rightarrow> thread_table list option res" where
  "grow_hash a newCount ts = (case ts of [] \<Rightarrow> Inl (UB Null_Deref)
    | mainHash # _ \<Rightarrow>
      if newCount \<ge> drop_bit 1 (tt_capacity mainHash) then
        res_bind (grow_capacity 65 newCount (push_bit 1 (tt_capacity mainHash))) (\<lambda>newCapacity.
          if \<not> malloc_succeeds (al_hash a) (24 + 8 - 1 + 16 * newCapacity) then Inr None
          else Inr (Some (new_table newCapacity # ts)))
      else Inr (Some ts))"

definition recycle_or_create_producer :: "alloc \<Rightarrow> 'a cqueue \<Rightarrow> nat option \<times> 'a cqueue" where
  "recycle_or_create_producer a q = (case List.find (\<lambda>i. pr_inactive (cq_producers q ! i)) (rev [0..<length (cq_producers q)]) of
      Some i \<Rightarrow> (Some i, q\<lparr>cq_producers := (cq_producers q)[i := (cq_producers q ! i)\<lparr>pr_inactive := False\<rparr>]\<rparr>)
    | None \<Rightarrow> if \<not> al_producer a then (None, q)
        else (Some (length (cq_producers q)), q\<lparr>cq_producers := cq_producers q @ [new_producer (al_index a)],
          cq_producer_count := cq_producer_count q + 1\<rparr>))"

definition subscribe :: "u64 \<Rightarrow> nat \<Rightarrow> (u64 \<times> nat) list \<Rightarrow> (u64 \<times> nat) list" where
  "subscribe tid p listeners = (tid, p) # listeners"

text \<open>
  Without other threads the resize lock is free, and there is room in the table after the test
  whether to grow it; otherwise the loop would repeat with the same values.
\<close>

definition insert_thread :: "alloc \<Rightarrow> u64 \<Rightarrow> 'a cqueue \<Rightarrow> (nat option \<times> 'a cqueue) res" where
  "insert_thread a tid q = (let newCount = 1 + cq_count q in
    res_bind (grow_hash a newCount (cq_hash q)) (\<lambda>r. case r of
      None \<Rightarrow> Inr (None, q\<lparr>cq_count := newCount - 1\<rparr>)
    | Some [] \<Rightarrow> Inl (UB Null_Deref)
    | Some (mainHash # ts) \<Rightarrow>
      if newCount < drop_bit 1 (tt_capacity mainHash) + drop_bit 2 (tt_capacity mainHash) then
        (case recycle_or_create_producer a (q\<lparr>cq_hash := mainHash # ts, cq_count := newCount\<rparr>) of
          (None, q1) \<Rightarrow> Inr (None, q1\<lparr>cq_count := newCount - 1\<rparr>)
        | (Some p, q1) \<Rightarrow> res_bind (vacant_slot tid mainHash) (\<lambda>i.
            Inr (Some p, q1\<lparr>cq_listeners := subscribe tid p (cq_listeners q1),
              cq_count := (if tt_keys mainHash ! i = invalid_thread_id2 then newCount - 1 else newCount),
              cq_hash := set_slot i tid (Some p) mainHash # ts\<rparr>)))
      else Inl Diverges))"

definition get_or_add_implicit_producer :: "alloc \<Rightarrow> u64 \<Rightarrow> 'a cqueue \<Rightarrow> (nat option \<times> 'a cqueue) res" where
  "get_or_add_implicit_producer a tid q = res_bind (search_tables tid (cq_hash q)) (\<lambda>r. case r of
      None \<Rightarrow> insert_thread a tid q
    | Some (0, v) \<Rightarrow> Inr (v, q)
    | Some (Suc _, v) \<Rightarrow> (case cq_hash q of [] \<Rightarrow> Inl (UB Null_Deref)
        | mainHash # ts \<Rightarrow> res_bind (vacant_slot tid mainHash) (\<lambda>i.
            Inr (v, q\<lparr>cq_hash := set_slot i tid v mainHash # ts\<rparr>))))"

text \<open>A thread that exits leaves a reusable slot in every table, and its producer to another thread.\<close>

fun retire_thread :: "u64 \<Rightarrow> thread_table list \<Rightarrow> thread_table list res" where
  "retire_thread tid [] = Inr []"
| "retire_thread tid (t # ts) = res_bind (find_thread tid t) (\<lambda>r.
    res_bind (retire_thread tid ts) (\<lambda>ts'. Inr ((case r of None \<Rightarrow> t
      | Some i \<Rightarrow> t\<lparr>tt_keys := (tt_keys t)[i := invalid_thread_id2]\<rparr>) # ts')))"

definition implicit_producer_thread_exited :: "u64 \<Rightarrow> nat \<Rightarrow> 'a cqueue \<Rightarrow> 'a cqueue res" where
  "implicit_producer_thread_exited tid p q = res_bind (retire_thread tid (cq_hash q)) (\<lambda>ts.
    Inr (q\<lparr>cq_hash := ts, cq_producers := (cq_producers q)[p := (cq_producers q ! p)\<lparr>pr_inactive := True\<rparr>]\<rparr>))"

fun notify_listeners :: "u64 \<Rightarrow> nat list \<Rightarrow> 'a cqueue \<Rightarrow> 'a cqueue res" where
  "notify_listeners tid [] q = Inr q"
| "notify_listeners tid (p # ps) q = res_bind (implicit_producer_thread_exited tid p q) (notify_listeners tid ps)"

definition listeners_of :: "u64 \<Rightarrow> 'a cqueue \<Rightarrow> nat list" where
  "listeners_of tid q = map snd (filter (\<lambda>l. fst l = tid) (cq_listeners q))"

definition thread_exit :: "u64 \<Rightarrow> 'a cqueue \<Rightarrow> 'a cqueue res" where
  "thread_exit tid q = res_bind (notify_listeners tid (listeners_of tid q) q) (\<lambda>q'.
    Inr (q'\<lparr>cq_listeners := filter (\<lambda>l. fst l \<noteq> tid) (cq_listeners q')\<rparr>))"

definition populate_initial_implicit_producer_hash :: "thread_table list" where
  "populate_initial_implicit_producer_hash = [new_table 32]"

section \<open>What a table holds\<close>

definition table_shape :: "nat \<Rightarrow> thread_table \<Rightarrow> bool" where
  "table_shape k t \<longleftrightarrow> 5 \<le> k \<and> k \<le> 58 \<and> tt_capacity t = 2 ^ k \<and> length (tt_keys t) = 2 ^ k \<and> length (tt_values t) = 2 ^ k"

definition probe_at :: "thread_table \<Rightarrow> u64 \<Rightarrow> nat \<Rightarrow> nat" where
  "probe_at t tid d = (unat (hash_thread_id tid) + d) mod length (tt_keys t)"

definition used_slots :: "thread_table \<Rightarrow> nat set" where
  "used_slots t = {i. i < length (tt_keys t) \<and> tt_keys t ! i \<noteq> invalid_thread_id}"

definition tid_at :: "thread_table \<Rightarrow> u64 \<Rightarrow> nat \<Rightarrow> bool" where
  "tid_at t tid i \<longleftrightarrow> i < length (tt_keys t) \<and> tt_keys t ! i = tid"

text \<open>
  A thread is in one slot, with a producer, and no slot between its first probe and there is
  empty; at most half of the slots are used.
\<close>

definition table_inv :: "thread_table \<Rightarrow> bool" where
  "table_inv t \<longleftrightarrow> (\<exists>k. table_shape k t) \<and> 2 * card (used_slots t) \<le> length (tt_keys t) \<and>
    (\<forall>tid i. thread_key tid \<and> tid_at t tid i \<longrightarrow> tt_values t ! i \<noteq> None \<and> (\<forall>j. tid_at t tid j \<longrightarrow> j = i) \<and>
      (\<exists>d < length (tt_keys t). i = probe_at t tid d \<and> (\<forall>c < d. probe_at t tid c \<in> used_slots t)))"

definition thread_lookup :: "thread_table \<Rightarrow> u64 \<Rightarrow> nat option" where
  "thread_lookup t tid = (case List.find (tid_at t tid) [0..<length (tt_keys t)] of None \<Rightarrow> None | Some i \<Rightarrow> tt_values t ! i)"

fun thread_bound :: "thread_table list \<Rightarrow> u64 \<Rightarrow> nat option" where
  "thread_bound [] tid = None"
| "thread_bound (t # ts) tid = (case thread_lookup t tid of None \<Rightarrow> thread_bound ts tid | Some p \<Rightarrow> Some p)"

lemma table_invE:
  assumes "table_inv t"
  obtains k where "5 \<le> k" "k \<le> 58" "tt_capacity t = 2 ^ k" "length (tt_keys t) = 2 ^ k" "length (tt_values t) = 2 ^ k"
    "2 * card (used_slots t) \<le> 2 ^ k"
  using assms unfolding table_inv_def table_shape_def by metis

lemma table_invD:
  assumes "table_inv t" "thread_key tid" "tid_at t tid i"
  shows "tt_values t ! i \<noteq> None" "tid_at t tid j \<Longrightarrow> j = i"
    "\<exists>d < length (tt_keys t). i = probe_at t tid d \<and> (\<forall>c < d. probe_at t tid c \<in> used_slots t)"
  using assms unfolding table_inv_def by blast+

lemma finite_used [simp]: "finite (used_slots t)"
  by (simp add: used_slots_def)

lemma probe_lt: "0 < length (tt_keys t) \<Longrightarrow> probe_at t tid d < length (tt_keys t)"
  by (simp add: probe_at_def)

lemma tid_at_used: "thread_key tid \<Longrightarrow> tid_at t tid i \<Longrightarrow> i \<in> used_slots t"
  by (auto simp: tid_at_def used_slots_def thread_key_def)

lemma thread_lookup_at:
  assumes inv: "table_inv t" and key: "thread_key tid" and i: "tid_at t tid i"
  shows "thread_lookup t tid = tt_values t ! i" and "thread_lookup t tid \<noteq> None"
proof -
  have "i \<in> set [0..<length (tt_keys t)]" using i by (simp add: tid_at_def)
  then have "List.find (tid_at t tid) [0..<length (tt_keys t)] \<noteq> None" using i by (auto simp: find_None_iff)
  then obtain j where j: "List.find (tid_at t tid) [0..<length (tt_keys t)] = Some j" by blast
  then have "tid_at t tid j" by (auto simp: find_Some_iff)
  then have "j = i" using table_invD(2) [OF inv key i] by simp
  with j show "thread_lookup t tid = tt_values t ! i" by (simp add: thread_lookup_def)
  with table_invD(1) [OF inv key i] show "thread_lookup t tid \<noteq> None" by simp
qed

lemma thread_lookup_None: "(\<And>i. \<not> tid_at t tid i) \<Longrightarrow> thread_lookup t tid = None"
  by (auto simp: thread_lookup_def find_Some_iff split: option.split)

section \<open>Probing\<close>

lemma probe_slots_run:
  assumes shape: "table_shape k t"
  shows "e < fuel \<Longrightarrow> (\<And>c. c < e \<Longrightarrow> \<not> stop (tt_keys t ! ((unat w + c) mod 2 ^ k))) \<Longrightarrow>
    stop (tt_keys t ! ((unat w + e) mod 2 ^ k)) \<Longrightarrow> probe_slots stop t w fuel = Inr ((unat w + e) mod 2 ^ k)"
proof (induction e arbitrary: w fuel)
  case 0
  then obtain n where fuel: "fuel = Suc n" by (cases fuel) simp_all
  have pos: "unat (w AND (2 ^ k - 1)) = unat w mod 2 ^ k"
    using unat_add_of_nat_mask [of k w 0] shape by (simp add: table_shape_def)
  have "\<not> 2 ^ k \<le> unat w mod 2 ^ k" by (simp add: not_le)
  then show ?case using 0(3) pos shape by (simp add: fuel table_shape_def Let_def)
next
  case (Suc e)
  then obtain n where fuel: "fuel = Suc n" "e < n" by (cases fuel) simp_all
  let ?i = "w AND (2 ^ k - 1)"
  have pos: "unat ?i = unat w mod 2 ^ k"
    using unat_add_of_nat_mask [of k w 0] shape by (simp add: table_shape_def)
  have lt: "unat ?i < 2 ^ k" by (simp add: pos)
  have "(2 :: nat) ^ k \<le> 2 ^ 58" using shape by (intro power_increasing) (simp_all add: table_shape_def)
  with lt have "unat (?i + 1) = Suc (unat ?i)" by (simp add: unat_word_ariths)
  then have next_pos: "(unat (?i + 1) + c) mod 2 ^ k = (unat w + Suc c) mod 2 ^ k" for c
    using pos mod_add_left_eq [of "unat w" "2 ^ k" "Suc c"] by simp
  have "\<not> stop (tt_keys t ! unat ?i)" using Suc.prems(2) [of 0] pos by simp
  then have "probe_slots stop t w fuel = probe_slots stop t (?i + 1) n"
    using lt shape by (simp add: fuel table_shape_def Let_def)
  also have "\<dots> = Inr ((unat (?i + 1) + e) mod 2 ^ k)"
    using fuel(2) Suc.prems(2,3) by (intro Suc.IH) (simp_all only: next_pos Suc_less_eq not_False_eq_True)
  finally show ?case by (simp only: next_pos)
qed

text \<open>If some slot stops the loop, the first one from the start of the probe on does.\<close>

lemma probe_slots_spec:
  assumes shape: "table_shape k t" and i: "i < length (tt_keys t)" "stop (tt_keys t ! i)"
  shows "\<exists>e < length (tt_keys t). probe_slots stop t (hash_thread_id tid) (unat (tt_capacity t)) = Inr (probe_at t tid e) \<and>
    stop (tt_keys t ! probe_at t tid e) \<and> (\<forall>c < e. \<not> stop (tt_keys t ! probe_at t tid c))"
proof -
  let ?w = "hash_thread_id tid" and ?n = "(2 :: nat) ^ k"
  have len: "length (tt_keys t) = ?n" "unat (tt_capacity t) = ?n"
    using shape unat_2p [of k] by (simp_all add: table_shape_def)
  let ?d = "(i + ?n - unat ?w mod ?n) mod ?n"
  have "unat ?w mod ?n < ?n" by simp
  then have "(unat ?w + ?d) mod ?n = (unat ?w mod ?n + (i + ?n - unat ?w mod ?n)) mod ?n"
    by (simp only: mod_add_left_eq mod_add_right_eq)
  also have "unat ?w mod ?n + (i + ?n - unat ?w mod ?n) = i + ?n" using \<open>unat ?w mod ?n < ?n\<close> by linarith
  finally have "(unat ?w + ?d) mod ?n = i" using i len by simp
  then have ex: "stop (tt_keys t ! probe_at t tid ?d)" using i by (simp add: probe_at_def len)
  define e where "e = (LEAST e. stop (tt_keys t ! probe_at t tid e))"
  have e: "stop (tt_keys t ! probe_at t tid e)" unfolding e_def using ex by (rule LeastI)
  have least: "\<not> stop (tt_keys t ! probe_at t tid c)" if "c < e" for c using that unfolding e_def by (rule not_less_Least)
  have "e \<le> ?d" unfolding e_def using ex by (rule Least_le)
  moreover have "?d < ?n" by simp
  ultimately have "e < ?n" by linarith
  moreover from this have "probe_slots stop t ?w ?n = Inr ((unat ?w + e) mod ?n)"
    using e least unfolding probe_at_def len by (intro probe_slots_run [OF shape])
  ultimately show ?thesis using e least by (auto simp: len probe_at_def)
qed

lemma table_vacant:
  assumes "table_inv t"
  shows "\<exists>i < length (tt_keys t). tt_keys t ! i = invalid_thread_id"
proof (rule ccontr)
  assume "\<not> ?thesis"
  then have "used_slots t = {..<length (tt_keys t)}" by (auto simp: used_slots_def)
  then have "card (used_slots t) = length (tt_keys t)" by simp
  moreover obtain k :: nat where "length (tt_keys t) = 2 ^ k" "2 * card (used_slots t) \<le> 2 ^ k"
    using assms by (rule table_invE) blast
  ultimately show False by simp
qed

lemma find_thread_spec:
  assumes inv: "table_inv t" and key: "thread_key tid"
  shows "\<exists>r. find_thread tid t = Inr r \<and> (case r of Some i \<Rightarrow> tid_at t tid i | None \<Rightarrow> \<forall>i. \<not> tid_at t tid i)"
proof -
  obtain k where shape: "table_shape k t" using inv by (auto simp: table_inv_def)
  obtain v where v: "v < length (tt_keys t)" "tt_keys t ! v = invalid_thread_id" using table_vacant [OF inv] by blast
  obtain e where e: "e < length (tt_keys t)"
    "probe_slots (\<lambda>k. k = tid \<or> k = invalid_thread_id) t (hash_thread_id tid) (unat (tt_capacity t)) = Inr (probe_at t tid e)"
    "tt_keys t ! probe_at t tid e = tid \<or> tt_keys t ! probe_at t tid e = invalid_thread_id"
    "\<forall>c < e. \<not> (tt_keys t ! probe_at t tid c = tid \<or> tt_keys t ! probe_at t tid c = invalid_thread_id)"
    using probe_slots_spec [OF shape v(1), of "\<lambda>k. k = tid \<or> k = invalid_thread_id" tid] v(2) by blast
  have lt: "probe_at t tid e < length (tt_keys t)" using v(1) by (intro probe_lt) linarith
  show ?thesis
  proof (cases "tt_keys t ! probe_at t tid e = tid")
    case True
    then show ?thesis using lt by (auto simp: find_thread_def e(2) tid_at_def)
  next
    case False
    have "\<not> tid_at t tid i" for i
    proof
      assume i: "tid_at t tid i"
      obtain d where d: "i = probe_at t tid d" "\<forall>c < d. probe_at t tid c \<in> used_slots t" using table_invD(3) [OF inv key i] by blast
      have "tt_keys t ! probe_at t tid d = tid" using i d(1) by (simp add: tid_at_def)
      then have "\<not> d < e" "d \<noteq> e" using e(4) False by auto
      then have "probe_at t tid e \<in> used_slots t" using d(2) by simp
      then show False using e(3) False by (simp add: used_slots_def)
    qed
    then show ?thesis using False by (simp add: find_thread_def e(2))
  qed
qed

section \<open>Changing a slot\<close>

lemma set_slot_simps [simp]:
  "length (tt_keys (set_slot j tid v t)) = length (tt_keys t)" "length (tt_values (set_slot j tid v t)) = length (tt_values t)"
  "tt_capacity (set_slot j tid v t) = tt_capacity t" "probe_at (set_slot j tid v t) u d = probe_at t u d"
  by (simp_all add: set_slot_def probe_at_def)

lemma tid_at_set_slot: "tid_at (set_slot j tid v t) u i \<longleftrightarrow> (if i = j then j < length (tt_keys t) \<and> u = tid else tid_at t u i)"
  by (auto simp: tid_at_def set_slot_def)

lemma used_set_slot: "thread_key tid \<Longrightarrow> j < length (tt_keys t) \<Longrightarrow> used_slots (set_slot j tid v t) = insert j (used_slots t)"
  by (auto simp: used_slots_def set_slot_def thread_key_def nth_list_update)

lemma lookup_eqI:
  assumes inv: "table_inv t" "table_inv t'" and key: "thread_key u" and same: "\<And>i. tid_at t' u i \<longleftrightarrow> tid_at t u i"
    and vals: "\<And>i. tid_at t u i \<Longrightarrow> tt_values t' ! i = tt_values t ! i"
  shows "thread_lookup t' u = thread_lookup t u"
proof (cases "\<exists>i. tid_at t u i")
  case True
  then obtain i where "tid_at t u i" by blast
  then show ?thesis using thread_lookup_at(1) [OF inv(1) key] thread_lookup_at(1) [OF inv(2) key] same vals by simp
next
  case False
  then show ?thesis using same by (simp add: thread_lookup_None)
qed

lemma claim_spec:
  assumes inv: "table_inv t" and key: "thread_key tid" and fresh: "\<And>i. \<not> tid_at t tid i"
    and room: "2 * Suc (card (used_slots t)) \<le> length (tt_keys t)"
  shows "\<exists>j. vacant_slot tid t = Inr j \<and> j < length (tt_keys t) \<and> (tt_keys t ! j = invalid_thread_id2 \<longleftrightarrow> j \<in> used_slots t) \<and>
    table_inv (set_slot j tid (Some p) t) \<and> used_slots (set_slot j tid (Some p) t) = insert j (used_slots t) \<and>
    (\<forall>u. thread_key u \<longrightarrow> thread_lookup (set_slot j tid (Some p) t) u = (if u = tid then Some p else thread_lookup t u))"
proof -
  obtain k where shape: "table_shape k t" using inv by (auto simp: table_inv_def)
  obtain i where i: "i < length (tt_keys t)" "tt_keys t ! i = invalid_thread_id" using table_vacant [OF inv] by blast
  let ?stop = "\<lambda>k. k = invalid_thread_id \<or> k = invalid_thread_id2"
  have "?stop (tt_keys t ! i)" using i(2) by simp
  from probe_slots_spec [OF shape i(1), of ?stop, OF this, of tid] obtain e where e: "e < length (tt_keys t)"
    "probe_slots ?stop t (hash_thread_id tid) (unat (tt_capacity t)) = Inr (probe_at t tid e)"
    "?stop (tt_keys t ! probe_at t tid e)" "\<forall>c < e. \<not> ?stop (tt_keys t ! probe_at t tid c)"
    by blast
  define j where "j = probe_at t tid e"
  define t' where "t' = set_slot j tid (Some p) t"
  have lt: "probe_at t u d < length (tt_keys t)" for u d using i(1) by (intro probe_lt) linarith
  then have j: "j < length (tt_keys t)" "?stop (tt_keys t ! j)" using e(3) by (simp_all add: j_def)
  have used: "used_slots t' = insert j (used_slots t)" unfolding t'_def using key j(1) by (rule used_set_slot)
  have at: "tid_at t' u i \<longleftrightarrow> (if i = j then u = tid else tid_at t u i)" for u i using j(1) by (simp add: t'_def tid_at_set_slot)
  have not_j: "\<not> tid_at t u j" if "thread_key u" for u using j(2) that by (auto simp: tid_at_def thread_key_def)
  have val: "tt_values t' ! i = (if i = j then Some p else tt_values t ! i)" if "i < length (tt_keys t)" for i
    using that shape by (auto simp: t'_def set_slot_def table_shape_def)
  have inv': "table_inv t'"
    unfolding table_inv_def
  proof (intro conjI allI impI)
    show "\<exists>k. table_shape k t'" using shape by (auto simp: table_shape_def t'_def)
    have "card (used_slots t') \<le> Suc (card (used_slots t))" unfolding used by (simp add: card_insert_if)
    then have "2 * card (used_slots t') \<le> length (tt_keys t)" using room by simp
    then show "2 * card (used_slots t') \<le> length (tt_keys t')" by (simp add: t'_def)
    fix u i assume u: "thread_key u \<and> tid_at t' u i"
    have len: "length (tt_keys t') = length (tt_keys t)" and probe: "\<And>u d. probe_at t' u d = probe_at t u d" by (simp_all add: t'_def)
    show "tt_values t' ! i \<noteq> None"
      using u at val j(1) table_invD(1) [OF inv, of u i] by (auto simp: tid_at_def split: if_splits)
    show "j' = i" if "tid_at t' u j'" for j'
      using u at that fresh table_invD(2) [OF inv, of u i j'] by (auto split: if_splits)
    show "\<exists>d < length (tt_keys t'). i = probe_at t' u d \<and> (\<forall>c < d. probe_at t' u c \<in> used_slots t')"
    proof (cases "i = j")
      case True
      then have "u = tid" using u at by simp
      moreover have "\<forall>c < e. probe_at t tid c \<in> used_slots t" using e(4) lt by (auto simp: used_slots_def)
      ultimately show ?thesis using e(1) True by (intro exI [of _ e]) (simp add: len probe used j_def)
    next
      case False
      then have "tid_at t u i" using u at by simp
      then obtain d where "d < length (tt_keys t)" "i = probe_at t u d" "\<forall>c < d. probe_at t u c \<in> used_slots t"
        using table_invD(3) [OF inv] u by blast
      then show ?thesis unfolding len probe used by blast
    qed
  qed
  have "thread_lookup t' u = (if u = tid then Some p else thread_lookup t u)" if u: "thread_key u" for u
  proof (cases "u = tid")
    case True
    have "tid_at t' u j" using at True by simp
    then show ?thesis using thread_lookup_at(1) [OF inv' u] val j(1) True by simp
  next
    case False
    have "thread_lookup t' u = thread_lookup t u"
      using not_j [OF u] at False val by (intro lookup_eqI [OF inv inv' u]) (auto simp: tid_at_def split: if_splits)
    with False show ?thesis by simp
  qed
  moreover have "tt_keys t ! j = invalid_thread_id2 \<longleftrightarrow> j \<in> used_slots t"
    using j by (auto simp: used_slots_def invalid_thread_id_def invalid_thread_id2_def)
  moreover have "vacant_slot tid t = Inr j" using e(2) by (simp add: vacant_slot_def j_def)
  ultimately show ?thesis using j(1) inv' used unfolding t'_def by blast
qed

text \<open>The slot of a thread that exits stays used.\<close>

lemma retire_slot:
  assumes inv: "table_inv t" and key: "thread_key tid" and i: "tid_at t tid i"
  defines "t' \<equiv> t\<lparr>tt_keys := (tt_keys t)[i := invalid_thread_id2]\<rparr>"
  shows "table_inv t'" and "used_slots t' = used_slots t" and "length (tt_keys t') = length (tt_keys t)"
    and "\<And>u. thread_key u \<Longrightarrow> thread_lookup t' u = (if u = tid then None else thread_lookup t u)"
proof -
  obtain k where shape: "table_shape k t" using inv by (auto simp: table_inv_def)
  have ij: "i < length (tt_keys t)" "tt_keys t ! i = tid" using i by (simp_all add: tid_at_def)
  show len: "length (tt_keys t') = length (tt_keys t)" by (simp add: t'_def)
  show used: "used_slots t' = used_slots t"
    using ij key by (auto simp: used_slots_def t'_def nth_list_update thread_key_def invalid_thread_id_def invalid_thread_id2_def)
  have at: "tid_at t' u j \<longleftrightarrow> u \<noteq> tid \<and> tid_at t u j" if "thread_key u" for u j
    using that ij table_invD(2) [OF inv key i, of j] by (auto simp: tid_at_def t'_def nth_list_update thread_key_def)
  have probe: "probe_at t' u d = probe_at t u d" for u d by (simp add: probe_at_def t'_def)
  show inv': "table_inv t'"
    unfolding table_inv_def used len probe
  proof (intro conjI allI impI)
    show "\<exists>k. table_shape k t'" using shape by (auto simp: table_shape_def t'_def)
    show "2 * card (used_slots t) \<le> length (tt_keys t)" using inv by (simp add: table_inv_def)
    fix u j assume u: "thread_key u \<and> tid_at t' u j"
    then have "tid_at t u j" using at by blast
    note d = table_invD [OF inv conjunct1 [OF u] this]
    show "tt_values t' ! j \<noteq> None" using d(1) by (simp add: t'_def)
    show "\<exists>d < length (tt_keys t). j = probe_at t u d \<and> (\<forall>c < d. probe_at t u c \<in> used_slots t)" by (rule d(3))
    show "c = j" if "tid_at t' u c" for c using d(2) at u that by blast
  qed
  fix u assume u: "thread_key u"
  show "thread_lookup t' u = (if u = tid then None else thread_lookup t u)"
  proof (cases "u = tid")
    case True
    then show ?thesis using at [OF u] by (simp add: thread_lookup_None)
  next
    case False
    then have "thread_lookup t' u = thread_lookup t u"
      using at [OF u] by (intro lookup_eqI [OF inv inv' u]) (simp_all add: t'_def)
    with False show ?thesis by simp
  qed
qed

lemma new_table_spec:
  assumes "5 \<le> k" "k \<le> 58"
  shows "table_inv (new_table (2 ^ k))" and "used_slots (new_table (2 ^ k)) = {}" and "length (tt_keys (new_table (2 ^ k))) = 2 ^ k"
    and "\<And>u. thread_key u \<Longrightarrow> thread_lookup (new_table (2 ^ k)) u = None"
proof -
  let ?t = "new_table (2 ^ k)"
  have n: "unat (2 ^ k :: u64) = 2 ^ k" using assms(2) unat_2p [of k] by simp
  show len: "length (tt_keys ?t) = 2 ^ k" by (simp add: new_table_def n)
  show used: "used_slots ?t = {}" by (auto simp: used_slots_def new_table_def)
  have at: "\<not> tid_at ?t u i" if "thread_key u" for u i using that by (auto simp: tid_at_def new_table_def thread_key_def)
  then show "\<And>u. thread_key u \<Longrightarrow> thread_lookup ?t u = None" by (simp add: thread_lookup_None)
  have "table_shape k ?t" using assms by (simp add: table_shape_def new_table_def n)
  then show "table_inv ?t" unfolding table_inv_def using at used by auto
qed

section \<open>The chain of tables\<close>

text \<open>
  Threads that are only in an older table take a slot of the current one when they come back; the
  count covers the slots in use and these.
\<close>

definition pending :: "thread_table list \<Rightarrow> u64 set" where
  "pending ts = {tid. thread_key tid \<and> thread_bound (tl ts) tid \<noteq> None \<and> thread_lookup (hd ts) tid = None}"

definition chain_inv :: "thread_table list \<Rightarrow> nat \<Rightarrow> bool" where
  "chain_inv ts c \<longleftrightarrow> ts \<noteq> [] \<and> (\<forall>t \<in> set ts. table_inv t) \<and> card (used_slots (hd ts)) + card (pending ts) \<le> c \<and>
    2 * c + 2 \<le> length (tt_keys (hd ts))"

lemma lookup_Some_at:
  "thread_lookup t tid = Some p \<Longrightarrow> \<exists>i. tid_at t tid i"
  using thread_lookup_None [of t tid] by auto

lemma finite_bound: "finite {tid. thread_bound ts tid \<noteq> None}"
proof (induction ts)
  case (Cons t ts)
  have "{tid. thread_lookup t tid \<noteq> None} \<subseteq> set (tt_keys t)" by (auto dest!: lookup_Some_at simp: tid_at_def)
  then have "finite {tid. thread_lookup t tid \<noteq> None}" by (rule finite_subset) simp
  moreover have "{tid. thread_bound (t # ts) tid \<noteq> None} \<subseteq> {tid. thread_lookup t tid \<noteq> None} \<union> {tid. thread_bound ts tid \<noteq> None}"
    by (auto split: option.splits)
  ultimately show ?case using Cons by (meson finite_Un finite_subset)
qed simp

lemma finite_pending [simp]: "finite (pending ts)"
  by (rule finite_subset [OF _ finite_bound [of "tl ts"]]) (auto simp: pending_def)

lemma search_tables_spec:
  assumes "\<forall>t \<in> set ts. table_inv t" and key: "thread_key tid"
  shows "\<exists>r. search_tables tid ts = Inr r \<and> (case r of None \<Rightarrow> thread_bound ts tid = None
    | Some (d, v) \<Rightarrow> v = thread_bound ts tid \<and> v \<noteq> None \<and> ts \<noteq> [] \<and> (0 < d \<longrightarrow> thread_lookup (hd ts) tid = None))"
  using assms(1)
proof (induction ts)
  case (Cons t ts)
  then have inv: "table_inv t" by simp
  obtain r where r: "find_thread tid t = Inr r" "case r of Some i \<Rightarrow> tid_at t tid i | None \<Rightarrow> \<forall>i. \<not> tid_at t tid i"
    using find_thread_spec [OF inv key] by blast
  show ?case
  proof (cases r)
    case None
    then have none: "thread_lookup t tid = None" using r(2) by (simp add: thread_lookup_None)
    obtain r' where "search_tables tid ts = Inr r'" "case r' of None \<Rightarrow> thread_bound ts tid = None
      | Some (d, v) \<Rightarrow> v = thread_bound ts tid \<and> v \<noteq> None \<and> ts \<noteq> [] \<and> (0 < d \<longrightarrow> thread_lookup (hd ts) tid = None)"
      using Cons by auto
    then show ?thesis using r(1) None none by (cases r') auto
  next
    case (Some i)
    then have "tid_at t tid i" using r(2) by simp
    note v = thread_lookup_at [OF inv key this]
    then show ?thesis using r(1) Some by auto
  qed
qed simp

lemma pending_claim:
  assumes "\<And>u. thread_key u \<Longrightarrow> thread_lookup t' u = (if u = tid then Some p else thread_lookup t u)"
  shows "pending (t' # ts) = pending (t # ts) - {tid}"
  using assms by (auto simp: pending_def split: if_splits)

text \<open>Giving a thread a slot in the current table.\<close>

lemma chain_claim:
  assumes chain: "chain_inv (t # ts) c" and key: "thread_key tid" and fresh: "thread_lookup t tid = None"
  shows "\<exists>j. vacant_slot tid t = Inr j \<and>
    (\<forall>u. thread_key u \<longrightarrow> thread_bound (set_slot j tid (Some p) t # ts) u = (if u = tid then Some p else thread_bound (t # ts) u)) \<and>
    (thread_bound ts tid \<noteq> None \<longrightarrow> chain_inv (set_slot j tid (Some p) t # ts) c) \<and>
    (2 * c + 4 \<le> length (tt_keys t) \<longrightarrow>
      chain_inv (set_slot j tid (Some p) t # ts) (if tt_keys t ! j = invalid_thread_id2 then c else Suc c))"
proof -
  have c: "table_inv t" "\<forall>t \<in> set ts. table_inv t" "card (used_slots t) + card (pending (t # ts)) \<le> c" "2 * c + 2 \<le> length (tt_keys t)"
    using chain by (simp_all add: chain_inv_def)
  have free: "\<not> tid_at t tid i" for i using thread_lookup_at(2) [OF c(1) key] fresh by blast
  have "2 * Suc (card (used_slots t)) \<le> length (tt_keys t)" using c(3,4) by simp
  from claim_spec [OF c(1) key free this, of p] obtain j where j: "vacant_slot tid t = Inr j" "j < length (tt_keys t)"
    "tt_keys t ! j = invalid_thread_id2 \<longleftrightarrow> j \<in> used_slots t" "table_inv (set_slot j tid (Some p) t)"
    "used_slots (set_slot j tid (Some p) t) = insert j (used_slots t)"
    "\<And>u. thread_key u \<Longrightarrow> thread_lookup (set_slot j tid (Some p) t) u = (if u = tid then Some p else thread_lookup t u)"
    by blast
  have used: "card (insert j (used_slots t)) = (if j \<in> used_slots t then card (used_slots t) else Suc (card (used_slots t)))"
    by (simp add: card_insert_if)
  have pend: "pending (set_slot j tid (Some p) t # ts) = pending (t # ts) - {tid}" using j(6) by (rule pending_claim)
  have bound: "thread_bound (set_slot j tid (Some p) t # ts) u = (if u = tid then Some p else thread_bound (t # ts) u)"
    if "thread_key u" for u using j(6) [OF that] by simp
  have "chain_inv (set_slot j tid (Some p) t # ts) c" if "thread_bound ts tid \<noteq> None"
  proof -
    have "tid \<in> pending (t # ts)" using key fresh that by (simp add: pending_def)
    then have "Suc (card (pending (t # ts) - {tid})) = card (pending (t # ts))" by (intro card_Suc_Diff1) simp_all
    then show ?thesis using c j(4,5) used pend by (auto simp: chain_inv_def split: if_splits)
  qed
  moreover have "chain_inv (set_slot j tid (Some p) t # ts) (if tt_keys t ! j = invalid_thread_id2 then c else Suc c)"
    if "2 * c + 4 \<le> length (tt_keys t)"
  proof -
    have "card (pending (t # ts) - {tid}) \<le> card (pending (t # ts))" by (intro card_mono) auto
    then show ?thesis using c j(3-5) used pend that by (auto simp: chain_inv_def)
  qed
  ultimately show ?thesis using j(1) bound by blast
qed

text \<open>A larger table in front holds no thread yet.\<close>

lemma chain_grow:
  assumes chain: "chain_inv ts c" and k: "length (tt_keys (hd ts)) = 2 ^ k" "5 \<le> k" "k < 58"
  shows "chain_inv (new_table (2 ^ Suc k) # ts) c"
    and "\<And>u. thread_key u \<Longrightarrow> thread_bound (new_table (2 ^ Suc k) # ts) u = thread_bound ts u"
proof -
  have "5 \<le> Suc k" "Suc k \<le> 58" using k by simp_all
  note n = new_table_spec [OF this]
  show b: "\<And>u. thread_key u \<Longrightarrow> thread_bound (new_table (2 ^ Suc k) # ts) u = thread_bound ts u" using n(4) by simp
  obtain t us where ts: "ts = t # us" using chain by (cases ts) (simp_all add: chain_inv_def)
  have c: "table_inv t" "card (used_slots t) + card (pending ts) \<le> c" "2 * c + 2 \<le> 2 ^ k"
    using chain k(1) by (simp_all add: chain_inv_def ts)
  let ?here = "{tid. thread_key tid \<and> thread_lookup t tid \<noteq> None}"
  have "\<forall>tid \<in> ?here. \<exists>i. tid_at t tid i" by (auto dest: lookup_Some_at)
  then obtain f where "\<forall>tid \<in> ?here. tid_at t tid (f tid)" by (rule bchoice [THEN exE])
  then have f: "\<And>tid. tid \<in> ?here \<Longrightarrow> tid_at t tid (f tid)" by (rule bspec)
  have "inj_on f ?here"
  proof (rule inj_onI)
    fix u v assume a: "u \<in> ?here" "v \<in> ?here" "f u = f v"
    then show "u = v" using f [OF a(1)] f [OF a(2)] by (simp add: tid_at_def)
  qed
  moreover have "f ` ?here \<subseteq> used_slots t" using f tid_at_used by auto
  ultimately have here: "card ?here \<le> card (used_slots t)" by (intro card_inj_on_le) simp_all
  have "pending (new_table (2 ^ Suc k) # ts) \<subseteq> ?here \<union> pending ts" using n(4) by (auto simp: pending_def ts split: option.splits)
  moreover have "finite ?here" using \<open>inj_on f ?here\<close> \<open>f ` ?here \<subseteq> used_slots t\<close> by (rule inj_on_finite) simp
  ultimately have "card (pending (new_table (2 ^ Suc k) # ts)) \<le> card (?here \<union> pending ts)" by (intro card_mono) simp_all
  also have "\<dots> \<le> card ?here + card (pending ts)" by (rule card_Un_le)
  finally have "card (pending (new_table (2 ^ Suc k) # ts)) \<le> c" using here c(2) by linarith
  then show "chain_inv (new_table (2 ^ Suc k) # ts) c" using chain n(1-3) c(3) by (simp add: chain_inv_def)
qed

lemma retire_spec:
  assumes key: "thread_key tid" and "\<forall>t \<in> set ts. table_inv t"
  shows "\<exists>ts'. retire_thread tid ts = Inr ts' \<and> (\<forall>t \<in> set ts'. table_inv t) \<and> length ts' = length ts \<and>
    (\<forall>u. thread_key u \<longrightarrow> thread_bound ts' u = (if u = tid then None else thread_bound ts u)) \<and>
    (\<forall>u. thread_key u \<longrightarrow> thread_bound (tl ts') u = (if u = tid then None else thread_bound (tl ts) u)) \<and>
    (ts \<noteq> [] \<longrightarrow> used_slots (hd ts') = used_slots (hd ts) \<and> length (tt_keys (hd ts')) = length (tt_keys (hd ts)) \<and>
      (\<forall>u. thread_key u \<longrightarrow> thread_lookup (hd ts') u = (if u = tid then None else thread_lookup (hd ts) u)))"
  using assms(2)
proof (induction ts)
  case (Cons t ts)
  then have inv: "table_inv t" by simp
  obtain ts' where ts': "retire_thread tid ts = Inr ts'" "\<forall>t \<in> set ts'. table_inv t" "length ts' = length ts"
    "\<forall>u. thread_key u \<longrightarrow> thread_bound ts' u = (if u = tid then None else thread_bound ts u)"
    using Cons by auto
  obtain r where r: "find_thread tid t = Inr r" "case r of Some i \<Rightarrow> tid_at t tid i | None \<Rightarrow> \<forall>i. \<not> tid_at t tid i"
    using find_thread_spec [OF inv key] by blast
  show ?case
  proof (cases r)
    case None
    then have "thread_lookup t tid = None" using r(2) by (simp add: thread_lookup_None)
    then show ?thesis using r(1) None ts' inv by (intro exI [of _ "t # ts'"]) (auto split: option.split)
  next
    case (Some i)
    then have i: "tid_at t tid i" using r(2) by simp
    note s = retire_slot [OF inv key i]
    show ?thesis using r(1) Some ts' s
      by (intro exI [of _ "t\<lparr>tt_keys := (tt_keys t)[i := invalid_thread_id2]\<rparr> # ts'"]) (auto split: option.split)
  qed
qed simp

section \<open>Threads and their producers\<close>

definition bound_producer :: "'a cqueue \<Rightarrow> u64 \<Rightarrow> nat option" where
  "bound_producer q = thread_bound (cq_hash q)"

definition threads_inv :: "'a cqueue \<Rightarrow> bool" where
  "threads_inv q \<longleftrightarrow> chain_inv (cq_hash q) (unat (cq_count q)) \<and>
    (\<forall>tid p. thread_key tid \<and> bound_producer q tid = Some p \<longrightarrow> p < length (cq_producers q) \<and> \<not> pr_inactive (cq_producers q ! p) \<and>
      (\<forall>u. thread_key u \<and> bound_producer q u = Some p \<longrightarrow> u = tid)) \<and>
    (\<forall>tid. thread_key tid \<longrightarrow> listeners_of tid q = (case bound_producer q tid of None \<Rightarrow> [] | Some p \<Rightarrow> [p])) \<and>
    (\<forall>l \<in> set (cq_listeners q). thread_key (fst l))"

text \<open>The list of producers after a producer was found or made for a thread.\<close>

definition producers_step :: "alloc \<Rightarrow> producer list \<Rightarrow> nat \<Rightarrow> producer list \<Rightarrow> bool" where
  "producers_step a ps p ps' \<longleftrightarrow> (p < length ps \<and> pr_inactive (ps ! p) \<and> ps' = ps[p := (ps ! p)\<lparr>pr_inactive := False\<rparr>]) \<or>
    (p = length ps \<and> ps' = ps @ [new_producer (al_index a)])"

lemma recycle_spec:
  "case recycle_or_create_producer a q of
      (None, q') \<Rightarrow> q' = q \<and> \<not> al_producer a
    | (Some p, q') \<Rightarrow> producers_step a (cq_producers q) p (cq_producers q') \<and> cq_hash q' = cq_hash q \<and> cq_count q' = cq_count q \<and>
        cq_heap q' = cq_heap q \<and> cq_listeners q' = cq_listeners q"
  by (auto simp: recycle_or_create_producer_def producers_step_def find_Some_iff rev_nth split: option.splits) 

lemma producers_stepD:
  assumes "producers_step a ps p ps'"
  shows "p < length ps'" "\<not> pr_inactive (ps' ! p)" "p < length ps \<Longrightarrow> pr_inactive (ps ! p)"
    "\<And>i. i < length ps \<Longrightarrow> i < length ps' \<and> (\<not> pr_inactive (ps ! i) \<longrightarrow> ps' ! i = ps ! i)"
  using assms new_producer_spec(7) [of "al_index a"]
  by (auto simp: producers_step_def nth_append nth_list_update)

lemma chain_shape:
  assumes "chain_inv ts c"
  obtains t us k where "ts = t # us" "table_inv t" "5 \<le> k" "k \<le> 58" "tt_capacity t = 2 ^ k" "length (tt_keys t) = 2 ^ k"
    "2 * c + 2 \<le> 2 ^ k"
proof -
  obtain t us where ts: "ts = t # us" "table_inv t" "2 * c + 2 \<le> length (tt_keys t)" using assms by (cases ts) (simp_all add: chain_inv_def)
  from ts(2) obtain k where "5 \<le> k" "k \<le> 58" "tt_capacity t = 2 ^ k" "length (tt_keys t) = 2 ^ k" by (rule table_invE)
  with ts show thesis by (intro that [of t us k]) simp_all
qed

text \<open>Counts and capacities as numbers.\<close>

lemma half_capacity: "k < 64 \<Longrightarrow> unat (drop_bit n (2 ^ k :: u64)) = 2 ^ k div 2 ^ n"
proof -
  assume "k < 64"
  then have "unat (2 ^ k :: u64) = 2 ^ k" by (intro unat_2p) simp
  then show ?thesis by (simp only: unat_drop_bit_eq) (simp only: drop_bit_eq_div)
qed

lemma grow_hash_spec:
  fixes c :: u64
  assumes chain: "chain_inv ts (unat c)"
  shows "(grow_hash a (1 + c) ts = Inr None \<and> (\<not> al_hash a \<or> length (tt_keys (hd ts)) = 2 ^ 58)) \<or>
    (\<exists>t us. grow_hash a (1 + c) ts = Inr (Some (t # us)) \<and> chain_inv (t # us) (unat c) \<and> 2 * unat c + 4 \<le> length (tt_keys t) \<and>
      1 + c < drop_bit 1 (tt_capacity t) + drop_bit 2 (tt_capacity t) \<and>
      (\<forall>u. thread_key u \<longrightarrow> thread_bound (t # us) u = thread_bound ts u))"
proof -
  obtain t us k where ts: "ts = t # us" "table_inv t" "5 \<le> k" "k \<le> 58" "tt_capacity t = 2 ^ k" "length (tt_keys t) = 2 ^ k"
    "2 * unat c + 2 \<le> 2 ^ k" using chain by (rule chain_shape)
  obtain j where j: "k = Suc (Suc j)" using ts(3) by (intro that [of "k - 2"]) simp
  have k58: "(2 :: nat) ^ k \<le> 2 ^ 58" using ts(4) by (intro power_increasing) simp_all
  then have "unat c < 2 ^ 58" using ts(7) by linarith
  then have newc: "unat (1 + c) = Suc (unat c)" by (simp add: unat_word_ariths)
  have fits: "1 + c < drop_bit 1 (2 ^ i) + drop_bit 2 (2 ^ i)" if "2 * unat c + 4 \<le> 2 ^ i" "5 \<le> i" "i \<le> 58" for i
  proof -
    have "i = Suc (Suc (i - 2))" using that(2) by simp
    then obtain m where m: "i = Suc (Suc m)" by blast
    have "unat (drop_bit 1 (2 ^ i :: u64)) = 2 * 2 ^ m" "unat (drop_bit 2 (2 ^ i :: u64)) = 2 ^ m"
      using that(3) half_capacity [of i 1] half_capacity [of i 2] by (simp_all add: m)
    moreover have "(2 :: nat) ^ m \<le> 2 ^ 58" using that(3) m by (intro power_increasing) simp_all
    ultimately have "unat (drop_bit 1 (2 ^ i) + drop_bit 2 (2 ^ i) :: u64) = 3 * 2 ^ m" by (simp add: unat_word_ariths)
    moreover have "Suc (unat c) < 3 * 2 ^ m" using that(1) by (simp add: m)
    ultimately show ?thesis by (simp only: word_less_nat_alt newc)
  qed
  have half: "unat (drop_bit 1 (2 ^ k :: u64)) = 2 * 2 ^ j" using ts(4) half_capacity [of k 1] by (simp add: j)
  show ?thesis
  proof (cases "1 + c \<ge> drop_bit 1 (2 ^ k)")
    case False
    then have "2 * unat c + 4 \<le> 2 ^ k" using half by (simp add: word_le_nat_alt newc j)
    with fits [OF this ts(3,4)] False chain show ?thesis by (simp add: grow_hash_def ts)
  next
    case True
    have "unat (drop_bit 1 (2 ^ Suc k :: u64)) = 2 ^ k" using ts(4) half_capacity [of "Suc k" 1] by simp
    moreover have "Suc (unat c) < 2 ^ k" using ts(7) by linarith
    ultimately have "\<not> drop_bit 1 (2 ^ Suc k) \<le> 1 + c" by (simp only: word_le_nat_alt newc not_le)
    moreover have "push_bit 1 (2 ^ k) = (2 ^ Suc k :: u64)" by (simp add: push_bit_eq_mult)
    ultimately have cap: "grow_capacity 65 (1 + c) (push_bit 1 (2 ^ k)) = Inr (2 ^ Suc k)"
      by (simp only: numeral_eq_Suc grow_capacity.simps if_False)
    define bytes :: u64 where "bytes = 24 + 8 - 1 + 16 * 2 ^ Suc k"
    have "bytes = of_nat (31 + 32 * 2 ^ k)" by (simp add: bytes_def)
    moreover have "31 + 32 * 2 ^ k < (2 :: nat) ^ 64" using k58 by simp
    ultimately have bytes: "unat bytes = 31 + 32 * 2 ^ k" by (simp only: unat_of_nat_u64)
    have small: "bytes < 2 ^ 63 \<longleftrightarrow> k < 58"
    proof (cases "k = 58")
      case True
      then show ?thesis by (simp add: word_less_nat_alt bytes)
    next
      case False
      then have "k \<le> 57" using ts(4) by simp
      then have "(2 :: nat) ^ k \<le> 2 ^ 57" by (intro power_increasing) simp_all
      then show ?thesis using False ts(4) by (simp add: word_less_nat_alt bytes)
    qed
    have run: "grow_hash a (1 + c) ts = Inr (if al_hash a \<and> k < 58 then Some (new_table (2 ^ Suc k) # ts) else None)"
      using True unfolding grow_hash_def ts(1) list.case ts(5) cap res_bind.simps malloc_succeeds_def bytes_def [symmetric] small by simp
    show ?thesis
    proof (cases "al_hash a \<and> k < 58")
      case True
      have "length (tt_keys (hd ts)) = 2 ^ k" by (simp add: ts)
      note g = chain_grow [OF chain this ts(3) conjunct2 [OF True]]
      have len: "length (tt_keys (new_table (2 ^ Suc k))) = 2 ^ Suc k" using True ts(3) by (intro new_table_spec(3)) simp_all
      have room: "2 * unat c + 4 \<le> 2 ^ Suc k" using ts(7) j by simp
      have "tt_capacity (new_table (2 ^ Suc k)) = 2 ^ Suc k" by (simp add: new_table_def)
      then show ?thesis using run True g len room fits [OF room] ts(3) by simp
    next
      case False
      then show ?thesis using run ts by auto
    qed
  qed
qed

lemma chain_bound_free:
  "chain_inv (t # us) c \<Longrightarrow> thread_key tid \<Longrightarrow> thread_bound (t # us) tid = None \<Longrightarrow> thread_lookup t tid = None"
  by (auto split: option.splits)

lemma threads_inv_step:
  assumes inv: "threads_inv q" and chain: "chain_inv (cq_hash q') (unat (cq_count q'))"
    and step: "producers_step a (cq_producers q) p (cq_producers q')" and none: "bound_producer q tid = None"
    and bound: "\<And>u. thread_key u \<Longrightarrow> bound_producer q' u = (if u = tid then Some p else bound_producer q u)"
    and listen: "cq_listeners q' = subscribe tid p (cq_listeners q)" and key: "thread_key tid"
  shows "threads_inv q'"
  unfolding threads_inv_def
proof (intro conjI allI impI)
  note s = producers_stepD [OF step]
  have old: "i < length (cq_producers q)" "\<not> pr_inactive (cq_producers q ! i)" "\<And>v. thread_key v \<Longrightarrow> bound_producer q v = Some i \<Longrightarrow> v = u"
    if "thread_key u" "bound_producer q u = Some i" for u i
    using inv that unfolding threads_inv_def by blast+
  have not_p: "bound_producer q u \<noteq> Some p" if u: "thread_key u" for u
    using old [OF u, of p] s(3) step by (auto simp: producers_step_def)
  fix u i assume u: "thread_key u \<and> bound_producer q' u = Some i"
  show "i < length (cq_producers q')"
    using u bound s(1,4) old(1) by (auto split: if_splits)
  show "\<not> pr_inactive (cq_producers q' ! i)"
    using u bound s(2,4) old(1,2) by (auto split: if_splits)
  fix v assume v: "thread_key v \<and> bound_producer q' v = Some i"
  show "v = u"
  proof (cases "i = p")
    case True
    then show ?thesis using u v bound not_p by (auto split: if_splits)
  next
    case False
    then have "bound_producer q u = Some i" "bound_producer q v = Some i" using u v bound by (auto split: if_splits)
    then show ?thesis using old(3) u v by blast
  qed
next
  have l: "listeners_of u q = (case bound_producer q u of None \<Rightarrow> [] | Some p \<Rightarrow> [p])" if "thread_key u" for u
    using inv that by (simp add: threads_inv_def)
  fix u assume u: "thread_key u"
  show "listeners_of u q' = (case bound_producer q' u of None \<Rightarrow> [] | Some p \<Rightarrow> [p])"
    using l [OF u] none bound [OF u] listen by (auto simp: listeners_of_def subscribe_def)
next
  show "\<forall>l \<in> set (cq_listeners q'). thread_key (fst l)"
    using inv key listen by (auto simp: threads_inv_def subscribe_def)
qed (rule chain)

lemma threads_inv_same:
  assumes inv: "threads_inv q" and chain: "chain_inv (cq_hash q') (unat (cq_count q'))"
    and "cq_producers q' = cq_producers q" "cq_listeners q' = cq_listeners q" "\<And>u. thread_key u \<Longrightarrow> bound_producer q' u = bound_producer q u"
  shows "threads_inv q'"
  using inv assms(2-5) unfolding threads_inv_def listeners_of_def by auto

definition added :: "alloc \<Rightarrow> u64 \<Rightarrow> 'a cqueue \<Rightarrow> nat option \<Rightarrow> 'a cqueue \<Rightarrow> bool" where
  "added a tid q r q' \<longleftrightarrow> threads_inv q' \<and> cq_heap q' = cq_heap q \<and> (case r of
      None \<Rightarrow> cq_producers q' = cq_producers q \<and> (\<forall>u. thread_key u \<longrightarrow> bound_producer q' u = bound_producer q u) \<and>
        (\<not> al_hash a \<or> \<not> al_producer a \<or> length (tt_keys (hd (cq_hash q))) = 2 ^ 58)
    | Some p \<Rightarrow> producers_step a (cq_producers q) p (cq_producers q') \<and>
        (\<forall>u. thread_key u \<longrightarrow> bound_producer q' u = (if u = tid then Some p else bound_producer q u)))"

lemma insert_thread_spec:
  assumes inv: "threads_inv q" and key: "thread_key tid" and none: "bound_producer q tid = None"
  shows "\<exists>r q'. insert_thread a tid q = Inr (r, q') \<and> added a tid q r q'"
proof -
  let ?c = "cq_count q"
  have chain: "chain_inv (cq_hash q) (unat ?c)" using inv by (simp add: threads_inv_def)
  from grow_hash_spec [OF chain, of a] show ?thesis
  proof
    assume g: "grow_hash a (1 + ?c) (cq_hash q) = Inr None \<and> (\<not> al_hash a \<or> length (tt_keys (hd (cq_hash q))) = 2 ^ 58)"
    then have "insert_thread a tid q = Inr (None, q)" by (simp add: insert_thread_def)
    moreover have "added a tid q None q" using inv g by (auto simp: added_def)
    ultimately show ?thesis by blast
  next
    assume "\<exists>t us. grow_hash a (1 + ?c) (cq_hash q) = Inr (Some (t # us)) \<and> chain_inv (t # us) (unat ?c) \<and>
      2 * unat ?c + 4 \<le> length (tt_keys t) \<and> 1 + ?c < drop_bit 1 (tt_capacity t) + drop_bit 2 (tt_capacity t) \<and>
      (\<forall>u. thread_key u \<longrightarrow> thread_bound (t # us) u = thread_bound (cq_hash q) u)"
    then obtain t us where g: "grow_hash a (1 + ?c) (cq_hash q) = Inr (Some (t # us))" "chain_inv (t # us) (unat ?c)"
      "2 * unat ?c + 4 \<le> length (tt_keys t)" "1 + ?c < drop_bit 1 (tt_capacity t) + drop_bit 2 (tt_capacity t)"
      "\<forall>u. thread_key u \<longrightarrow> thread_bound (t # us) u = thread_bound (cq_hash q) u" by blast
    let ?q = "q\<lparr>cq_hash := t # us, cq_count := 1 + ?c\<rparr>"
    have free: "thread_lookup t tid = None" using chain_bound_free [OF g(2) key] g(5) key none by (simp add: bound_producer_def)
    have run: "insert_thread a tid q = (case recycle_or_create_producer a ?q of
          (None, q1) \<Rightarrow> Inr (None, q1\<lparr>cq_count := ?c\<rparr>)
        | (Some p, q1) \<Rightarrow> res_bind (vacant_slot tid t) (\<lambda>i.
            Inr (Some p, q1\<lparr>cq_listeners := subscribe tid p (cq_listeners q1),
              cq_count := (if tt_keys t ! i = invalid_thread_id2 then ?c else 1 + ?c),
              cq_hash := set_slot i tid (Some p) t # us\<rparr>)))"
      using g(4) unfolding insert_thread_def Let_def g(1) res_bind.simps option.case list.case add_diff_cancel_left' by (simp only: if_True)
    obtain r q1 where rc: "recycle_or_create_producer a ?q = (r, q1)" by (cases "recycle_or_create_producer a ?q")
    note spec = recycle_spec [where a = a and q = ?q, unfolded rc prod.case]
    show ?thesis
    proof (cases r)
      case None
      then have q1: "q1 = ?q" "\<not> al_producer a" using spec by simp_all
      have "threads_inv (q1\<lparr>cq_count := ?c\<rparr>)"
        using g(2,5) by (intro threads_inv_same [OF inv]) (simp_all add: q1(1) bound_producer_def)
      then show ?thesis using run rc None q1 g(5) by (auto simp: added_def bound_producer_def)
    next
      case (Some p)
      then have q1: "producers_step a (cq_producers q) p (cq_producers q1)" "cq_heap q1 = cq_heap q"
        "cq_listeners q1 = cq_listeners q" using spec by simp_all
      obtain j where j: "vacant_slot tid t = Inr j"
        "\<And>u. thread_key u \<Longrightarrow> thread_bound (set_slot j tid (Some p) t # us) u = (if u = tid then Some p else thread_bound (t # us) u)"
        "chain_inv (set_slot j tid (Some p) t # us) (if tt_keys t ! j = invalid_thread_id2 then unat ?c else Suc (unat ?c))"
        using chain_claim [OF g(2) key free, of p] g(3) by blast
      define q' where "q' = q1\<lparr>cq_listeners := subscribe tid p (cq_listeners q1), cq_count := (if tt_keys t ! j = invalid_thread_id2 then ?c else 1 + ?c),
              cq_hash := set_slot j tid (Some p) t # us\<rparr>"
      have bound: "bound_producer q' u = (if u = tid then Some p else bound_producer q u)" if "thread_key u" for u
        using j(2) [OF that] g(5) that by (simp add: bound_producer_def q'_def del: thread_bound.simps)
      obtain k where "2 * unat ?c + 2 \<le> 2 ^ k" "k \<le> 58" using chain by (rule chain_shape)
      moreover then have "(2 :: nat) ^ k \<le> 2 ^ 58" by (intro power_increasing) simp_all
      ultimately have "unat (1 + ?c) = Suc (unat ?c)" by (simp add: unat_word_ariths)
      then have "chain_inv (cq_hash q') (unat (cq_count q'))" using j(3) by (simp add: q'_def split: if_splits)
      moreover have step: "producers_step a (cq_producers q) p (cq_producers q')" using q1(1) by (simp add: q'_def)
      moreover have "cq_listeners q' = subscribe tid p (cq_listeners q)" using q1(3) by (simp add: q'_def)
      ultimately have "threads_inv q'" using key by (intro threads_inv_step [OF inv _ _ none bound])
      then have "added a tid q (Some p) q'" using step bound q1(2) by (simp add: added_def q'_def)
      moreover have "insert_thread a tid q = Inr (Some p, q')" using run rc Some j(1) by (simp add: q'_def)
      ultimately show ?thesis by blast
    qed
  qed
qed

text \<open>A thread that has a producer keeps it; otherwise it gets one that no other thread has.\<close>

lemma get_or_add_spec:
  assumes inv: "threads_inv q" and key: "thread_key tid"
  shows "\<exists>r q'. get_or_add_implicit_producer a tid q = Inr (r, q') \<and> (case bound_producer q tid of
      Some p \<Rightarrow> r = Some p \<and> threads_inv q' \<and> cq_heap q' = cq_heap q \<and> cq_producers q' = cq_producers q \<and>
        (\<forall>u. thread_key u \<longrightarrow> bound_producer q' u = bound_producer q u)
    | None \<Rightarrow> added a tid q r q')"
proof -
  have chain: "chain_inv (cq_hash q) (unat (cq_count q))" using inv by (simp add: threads_inv_def)
  then have tabs: "\<forall>t \<in> set (cq_hash q). table_inv t" by (simp add: chain_inv_def)
  obtain r where r: "search_tables tid (cq_hash q) = Inr r" "case r of None \<Rightarrow> thread_bound (cq_hash q) tid = None
    | Some (d, v) \<Rightarrow> v = thread_bound (cq_hash q) tid \<and> v \<noteq> None \<and> cq_hash q \<noteq> [] \<and> (0 < d \<longrightarrow> thread_lookup (hd (cq_hash q)) tid = None)"
    using search_tables_spec [OF tabs key] by blast
  show ?thesis
  proof (cases r)
    case None
    then have none: "bound_producer q tid = None" using r(2) by (simp add: bound_producer_def)
    with insert_thread_spec [OF inv key this, of a] None r(1) show ?thesis by (simp add: get_or_add_implicit_producer_def)
  next
    case (Some dv)
    then obtain d p where dv: "r = Some (d, Some p)" "bound_producer q tid = Some p" "0 < d \<Longrightarrow> thread_lookup (hd (cq_hash q)) tid = None"
      using r(2) by (cases dv) (auto simp: bound_producer_def)
    show ?thesis
    proof (cases d)
      case 0
      then show ?thesis using inv r(1) dv by (simp add: get_or_add_implicit_producer_def)
    next
      case (Suc d')
      obtain t us where ts: "cq_hash q = t # us" using chain by (cases "cq_hash q") (simp_all add: chain_inv_def)
      then have free: "thread_lookup t tid = None" using dv(3) Suc by simp
      then have older: "thread_bound us tid \<noteq> None" using dv(2) by (simp add: bound_producer_def ts)
      obtain j where j: "vacant_slot tid t = Inr j"
        "\<And>u. thread_key u \<Longrightarrow> thread_bound (set_slot j tid (Some p) t # us) u = (if u = tid then Some p else thread_bound (t # us) u)"
        "chain_inv (set_slot j tid (Some p) t # us) (unat (cq_count q))"
        using chain_claim [OF chain [unfolded ts] key free, of p] older by blast
      define q' where "q' = q\<lparr>cq_hash := set_slot j tid (Some p) t # us\<rparr>"
      have bound: "bound_producer q' u = bound_producer q u" if "thread_key u" for u
        using j(2) [OF that] dv(2) by (simp add: bound_producer_def q'_def ts del: thread_bound.simps)
      have "threads_inv q'" using j(3) bound by (intro threads_inv_same [OF inv]) (simp_all add: q'_def)
      moreover have "get_or_add_implicit_producer a tid q = Inr (Some p, q')"
        using r(1) dv(1) Suc j(1) by (simp add: get_or_add_implicit_producer_def ts q'_def)
      ultimately show ?thesis using dv(2) bound by (auto simp: q'_def)
    qed
  qed
qed

lemma thread_exit_spec:
  assumes inv: "threads_inv q" and key: "thread_key tid"
  shows "\<exists>q'. thread_exit tid q = Inr q' \<and> threads_inv q' \<and> cq_heap q' = cq_heap q \<and>
    cq_producers q' = (case bound_producer q tid of None \<Rightarrow> cq_producers q
      | Some p \<Rightarrow> (cq_producers q)[p := (cq_producers q ! p)\<lparr>pr_inactive := True\<rparr>]) \<and>
    (\<forall>u. thread_key u \<longrightarrow> bound_producer q' u = (if u = tid then None else bound_producer q u))"
proof -
  have chain: "chain_inv (cq_hash q) (unat (cq_count q))" using inv by (simp add: threads_inv_def)
  then have tabs: "\<forall>t \<in> set (cq_hash q). table_inv t" "cq_hash q \<noteq> []" by (simp_all add: chain_inv_def)
  have listen: "listeners_of u q = (case bound_producer q u of None \<Rightarrow> [] | Some p \<Rightarrow> [p])" if "thread_key u" for u
    using inv that by (simp add: threads_inv_def)
  have others: "listeners_of u (q'\<lparr>cq_listeners := filter (\<lambda>l. fst l \<noteq> tid) (cq_listeners q)\<rparr>) = (if u = tid then [] else listeners_of u q)"
    for u and q' :: "'a cqueue"
    by (auto simp: listeners_of_def intro!: arg_cong [of _ _ "map snd"] filter_cong)
  show ?thesis
  proof (cases "bound_producer q tid")
    case None
    let ?q = "q\<lparr>cq_listeners := filter (\<lambda>l. fst l \<noteq> tid) (cq_listeners q)\<rparr>"
    have "thread_exit tid q = Inr ?q" using listen [OF key] None by (simp add: thread_exit_def)
    moreover have bound: "bound_producer ?q = bound_producer q" by (rule ext) (simp add: bound_producer_def)
    moreover have "threads_inv ?q"
      using inv None listen others [of _ q] by (auto simp: threads_inv_def bound)
    ultimately show ?thesis using None by auto
  next
    case (Some p)
    obtain ts where ts: "retire_thread tid (cq_hash q) = Inr ts" "\<forall>t \<in> set ts. table_inv t" "length ts = length (cq_hash q)"
      "\<And>u. thread_key u \<Longrightarrow> thread_bound ts u = (if u = tid then None else thread_bound (cq_hash q) u)"
      "\<And>u. thread_key u \<Longrightarrow> thread_bound (tl ts) u = (if u = tid then None else thread_bound (tl (cq_hash q)) u)"
      "used_slots (hd ts) = used_slots (hd (cq_hash q))" "length (tt_keys (hd ts)) = length (tt_keys (hd (cq_hash q)))"
      "\<And>u. thread_key u \<Longrightarrow> thread_lookup (hd ts) u = (if u = tid then None else thread_lookup (hd (cq_hash q)) u)"
      using retire_spec [OF key tabs(1)] tabs(2) by blast
    define q1 where "q1 = q\<lparr>cq_hash := ts, cq_producers := (cq_producers q)[p := (cq_producers q ! p)\<lparr>pr_inactive := True\<rparr>]\<rparr>"
    define q' where "q' = q1\<lparr>cq_listeners := filter (\<lambda>l. fst l \<noteq> tid) (cq_listeners q)\<rparr>"
    have q': "cq_hash q' = ts" "cq_count q' = cq_count q" "cq_heap q' = cq_heap q"
      "cq_producers q' = (cq_producers q)[p := (cq_producers q ! p)\<lparr>pr_inactive := True\<rparr>]" by (simp_all add: q'_def q1_def)
    have run: "thread_exit tid q = Inr q'"
      using listen [OF key] Some ts(1) by (simp add: thread_exit_def implicit_producer_thread_exited_def q'_def q1_def)
    have bound: "bound_producer q' u = (if u = tid then None else bound_producer q u)" if "thread_key u" for u
      using ts(4) [OF that] by (simp add: bound_producer_def q')
    have "pending ts \<subseteq> pending (cq_hash q)" using ts(5,8) by (auto simp: pending_def split: if_splits)
    then have "card (pending ts) \<le> card (pending (cq_hash q))" by (intro card_mono) simp_all
    moreover have "ts \<noteq> []" using ts(3) tabs(2) by auto
    ultimately have chain': "chain_inv ts (unat (cq_count q))" using chain ts(2,6,7) by (simp add: chain_inv_def)
    have old: "i < length (cq_producers q)" "\<not> pr_inactive (cq_producers q ! i)" "\<And>v. thread_key v \<Longrightarrow> bound_producer q v = Some i \<Longrightarrow> v = u"
      if "thread_key u" "bound_producer q u = Some i" for u i
      using inv that unfolding threads_inv_def by blast+
    have "threads_inv q'"
      unfolding threads_inv_def
    proof (intro conjI allI impI)
      show "chain_inv (cq_hash q') (unat (cq_count q'))" using chain' by (simp add: q')
      fix u i assume u: "thread_key u \<and> bound_producer q' u = Some i"
      then have u': "u \<noteq> tid" "bound_producer q u = Some i" using bound by (auto split: if_splits)
      note o = old [OF conjunct1 [OF u] u'(2)]
      have "i \<noteq> p" using o(3) [OF key] Some u'(1) by auto
      with o show "i < length (cq_producers q')" "\<not> pr_inactive (cq_producers q' ! i)" by (simp_all add: q')
      fix v assume "thread_key v \<and> bound_producer q' v = Some i"
      then show "v = u" using o(3) bound by (auto split: if_splits)
    next
      fix u assume u: "thread_key u"
      show "listeners_of u q' = (case bound_producer q' u of None \<Rightarrow> [] | Some p \<Rightarrow> [p])"
        using listen [OF u] bound [OF u] others [of u q1] by (simp add: q'_def)
    next
      show "\<forall>l \<in> set (cq_listeners q'). thread_key (fst l)" using inv by (simp add: threads_inv_def q'_def)
    qed
    then show ?thesis using run bound Some q' by (intro exI [of _ q']) simp
  qed
qed

lemma initial_threads:
  assumes "cq_hash q = populate_initial_implicit_producer_hash" "cq_count q = 0" "cq_listeners q = []"
  shows "threads_inv q" and "\<And>u. thread_key u \<Longrightarrow> bound_producer q u = None"
proof -
  have "(2 :: u64) ^ 5 = 32" by simp
  then have n: "table_inv (new_table 32)" "used_slots (new_table 32) = {}" "length (tt_keys (new_table 32)) = 2 ^ 5"
    "\<And>u. thread_key u \<Longrightarrow> thread_lookup (new_table 32) u = None"
    using new_table_spec [of 5] by simp_all
  show "\<And>u. thread_key u \<Longrightarrow> bound_producer q u = None"
    using assms n(4) by (simp add: bound_producer_def populate_initial_implicit_producer_hash_def)
  then show "threads_inv q" using assms n
    by (auto simp: threads_inv_def chain_inv_def populate_initial_implicit_producer_hash_def pending_def listeners_of_def)
qed

end
