(* ===== verification/MoodyQueue.thy ===== *)
theory MoodyQueue
  imports MoodyThreads QueueSpec
begin

text \<open>
  \<^verbatim>\<open>moodycamel::ConcurrentQueue\<close> (moodycamel/concurrentqueue.h) as the calls of its users see it:
  one stream of elements per producing thread, from which any thread takes. The last part is
  the adapter \<^verbatim>\<open>MoodycamelLockFreeQueue\<close> of include/Queue.hpp.
\<close>

section \<open>The operations\<close>

definition concurrent_queue :: "bool \<Rightarrow> u64 \<Rightarrow> 'a cqueue" where
  "concurrent_queue ok capacity = \<lparr>cq_producers = [], cq_producer_count = 0, cq_hash = populate_initial_implicit_producer_hash,
     cq_count = 0, cq_listeners = [],
     cq_heap = populate_initial_block_list ok (capacity div BLOCK_SIZE + (if capacity AND (BLOCK_SIZE - 1) = 0 then 0 else 1))\<rparr>"

definition inner_enqueue :: "alloc \<Rightarrow> u64 \<Rightarrow> 'a \<Rightarrow> 'a cqueue \<Rightarrow> (bool \<times> 'a cqueue) res" where
  "inner_enqueue a tid x q = res_bind (get_or_add_implicit_producer a tid q) (\<lambda>(r, q1). case r of
      None \<Rightarrow> Inr (False, q1)
    | Some p \<Rightarrow> if p \<ge> length (cq_producers q1) then Inl (UB Out_Of_Bounds)
        else res_bind (producer_enqueue (al_index a) (al_block a) x (cq_producers q1 ! p) (cq_heap q1)) (\<lambda>(b, pr, h).
          Inr (b, q1\<lparr>cq_producers := (cq_producers q1)[p := pr], cq_heap := h\<rparr>)))"

text \<open>
  The first three producers that seem to have elements, and the one of them with the most; then
  the element is taken from that producer, or from one of the others.
\<close>

fun score_producers :: "producer list \<Rightarrow> nat list \<Rightarrow> nat \<Rightarrow> nat option \<Rightarrow> u64 \<Rightarrow> nat \<times> nat option" where
  "score_producers ps [] nonEmptyCount best bestSize = (nonEmptyCount, best)"
| "score_producers ps (i # is) nonEmptyCount best bestSize = (if nonEmptyCount < 3 then
     let size = size_approx (ps ! i) in
     if size > 0 then
       if size > bestSize then score_producers ps is (Suc nonEmptyCount) (Some i) size
       else score_producers ps is (Suc nonEmptyCount) best bestSize
     else score_producers ps is nonEmptyCount best bestSize
   else (nonEmptyCount, best))"

definition dequeue_from :: "nat \<Rightarrow> 'a cqueue \<Rightarrow> ('a option \<times> 'a cqueue) res" where
  "dequeue_from i q = res_bind (producer_dequeue (cq_producers q ! i) (cq_heap q)) (\<lambda>(r, pr, h).
    Inr (r, q\<lparr>cq_producers := (cq_producers q)[i := pr], cq_heap := h\<rparr>))"

fun dequeue_others :: "nat \<Rightarrow> nat list \<Rightarrow> 'a cqueue \<Rightarrow> ('a option \<times> 'a cqueue) res" where
  "dequeue_others best [] q = Inr (None, q)"
| "dequeue_others best (i # is) q = (if i \<noteq> best
    then res_bind (dequeue_from i q) (\<lambda>(r, q'). case r of Some x \<Rightarrow> Inr (Some x, q') | None \<Rightarrow> dequeue_others best is q')
    else dequeue_others best is q)"

definition try_dequeue :: "'a cqueue \<Rightarrow> ('a option \<times> 'a cqueue) res" where
  "try_dequeue q = (let producerList = rev [0..<length (cq_producers q)] in
    case score_producers (cq_producers q) producerList 0 None 0 of (nonEmptyCount, best) \<Rightarrow>
      if nonEmptyCount > 0 then (case best of None \<Rightarrow> Inl (UB Null_Deref)
        | Some b \<Rightarrow> res_bind (dequeue_from b q) (\<lambda>(r, q'). case r of
            Some x \<Rightarrow> Inr (Some x, q')
          | None \<Rightarrow> dequeue_others b producerList q'))
      else Inr (None, q))"

section \<open>The streams\<close>

text \<open>The elements of a producer, read through its block index; the default value never shows.\<close>

definition element_at :: "'a mheap \<Rightarrow> producer \<Rightarrow> u64 \<Rightarrow> 'a option" where
  "element_at h p index = (case get_block_index_entry_for_index index p of Inl _ \<Rightarrow> None
    | Inr e \<Rightarrow> (case ie_value (pr_entries p ! e) of None \<Rightarrow> None
      | Some b \<Rightarrow> (case read_block h b of Inl _ \<Rightarrow> None | Inr bk \<Rightarrow> bk_elements bk ! element_slot index)))"

definition stream :: "'a mheap \<Rightarrow> producer \<Rightarrow> 'a list" where
  "stream h p = List.map_filter (\<lambda>i. element_at h p (pr_head p + of_nat i)) [0..<unat (size_approx p)]"

definition streams :: "'a cqueue \<Rightarrow> 'a list list" where
  "streams q = map (stream (cq_heap q)) (cq_producers q)"

definition streams_hold :: "'a cqueue \<Rightarrow> 'a list list \<Rightarrow> (nat \<Rightarrow> nat set) \<Rightarrow> bool" where
  "streams_hold q sts own \<longleftrightarrow> length sts = length (cq_producers q) \<and> heap_inv (cq_heap q) (\<Union>i < length sts. own i) \<and>
    (\<forall>i < length sts. producer_holds (cq_heap q) (cq_producers q ! i) (own i) (sts ! i)) \<and>
    (\<forall>i < length sts. \<forall>j < length sts. i \<noteq> j \<longrightarrow> own i \<inter> own j = {})"

definition moody_inv :: "'a cqueue \<Rightarrow> bool" where
  "moody_inv q \<longleftrightarrow> threads_inv q \<and> (\<exists>own. streams_hold q (streams q) own)"

lemma counters_size:
  assumes "counters_at p B H T"
  shows "unat (size_approx p) = T - H"
proof -
  have "T - H < 2 ^ 63" using assms unfolding counters_at_def by linarith
  then have "unat (of_nat (T - H) :: u64) = T - H" by (intro unat_of_nat_u64) simp
  then show ?thesis using size_approx_spec [OF assms] by simp
qed

lemma map_filter_Some: "(\<And>x. x \<in> set xs \<Longrightarrow> f x = Some (g x)) \<Longrightarrow> List.map_filter f xs = map g xs"
  by (induction xs) (simp_all add: List.map_filter_simps)

lemma element_at_spec:
  assumes at: "producer_at h p bs B H T xs" and n: "H \<le> n" "n < T"
  shows "element_at h p (of_nat n) = Some (xs ! (n - H))"
proof -
  have p: "index_holds p B bs" "length bs = B - H div 32" "T \<le> 32 * B" "blocks_hold h bs B H T xs"
    using at by (simp_all add: producer_at_def counters_at_def)
  define j where "j = n div 32"
  define d where "d = B - Suc j"
  have "j < B" using n(2) p(3) unfolding j_def by (intro less_mult_imp_div_less) simp
  moreover have Hj: "H div 32 \<le> j" unfolding j_def using n(1) by (rule div_le_mono)
  ultimately have d: "d < length bs" "B - Suc d = j" "H div 32 \<le> j \<and> j < B" using p(2) by (simp_all add: d_def)
  have nj: "32 * (B - Suc d) + n mod 32 = n" unfolding d(2) j_def by simp
  obtain e where e: "get_block_index_entry_for_index (of_nat n) p = Inr e" "ie_value (pr_entries p ! e) = Some (bs ! d)"
    using lookup_spec [OF p(1) d(1), of "n mod 32"] unfolding nj by auto
  obtain bk where bk: "block_at h (bs ! d) = Some bk" "block_holds bk j H T xs"
    using p(4) d(3) unfolding blocks_hold_def d_def by blast
  have n': "32 * j + n mod 32 = n" by (simp add: j_def)
  then have "element_slot (of_nat n) = n mod 32" using element_slot_of_nat [of "n mod 32" j] by simp
  moreover have "bk_elements bk ! (n mod 32) = Some (xs ! (32 * j + n mod 32 - H))"
    using bk(2) n unfolding block_holds_def by (simp add: n' [unfolded j_def] j_def)
  ultimately show ?thesis using n' by (simp add: element_at_def e read_block_Inr [OF bk(1)])
qed

lemma stream_spec: "producer_holds h p own xs \<Longrightarrow> stream h p = xs"
  unfolding producer_holds_def
proof (elim disjE exE conjE)
  fix bs B H T assume at: "producer_at h p bs B H T xs"
  then have c: "pr_head p = of_nat H" "length xs = T - H" "unat (size_approx p) = T - H"
    by (auto simp: producer_at_def counters_at_def intro: counters_size)
  have "element_at h p (pr_head p + of_nat i) = Some (xs ! i)" if "i \<in> set [0..<length xs]" for i
    using element_at_spec [OF at, of "H + i"] that c by simp
  then have "stream h p = map (\<lambda>i. xs ! i) [0..<length xs]"
    unfolding stream_def c(3) c(2) [symmetric] by (rule map_filter_Some)
  then show "stream h p = xs" by (simp add: map_nth)
next
  assume "counters_at p 0 0 0" "xs = []"
  then show "stream h p = xs" using counters_size [of p 0 0 0] by (simp add: stream_def List.map_filter_simps)
qed

lemma size_zero_iff: "producer_holds h p own xs \<Longrightarrow> size_approx p = 0 \<longleftrightarrow> xs = []"
  unfolding producer_holds_def
proof (elim disjE exE conjE)
  fix bs B H T assume at: "producer_at h p bs B H T xs"
  then have "unat (size_approx p) = length xs" by (auto simp: producer_at_def dest: counters_size)
  then show "size_approx p = 0 \<longleftrightarrow> xs = []" by (metis unat_eq_0 length_0_conv)
next
  assume "counters_at p 0 0 0" "xs = []"
  then show "size_approx p = 0 \<longleftrightarrow> xs = []" using counters_size [of p 0 0 0] by (simp add: unat_eq_0)
qed

lemma streams_hold_eq: "streams_hold q sts own \<Longrightarrow> streams q = sts"
  by (rule nth_equalityI) (auto simp: streams_hold_def streams_def stream_spec)

section \<open>One producer changes\<close>

lemma threads_inv_producers:
  assumes "threads_inv q" and "cq_hash q' = cq_hash q" "cq_count q' = cq_count q" "cq_listeners q' = cq_listeners q"
    and "length (cq_producers q') = length (cq_producers q)"
    "\<And>i. i < length (cq_producers q) \<Longrightarrow> pr_inactive (cq_producers q' ! i) = pr_inactive (cq_producers q ! i)"
  shows "threads_inv q'"
  using assms unfolding threads_inv_def bound_producer_def listeners_of_def by auto

lemma threads_inv_update:
  assumes "threads_inv q" and "pr_inactive pr = pr_inactive (cq_producers q ! i)"
  shows "threads_inv (q\<lparr>cq_producers := (cq_producers q)[i := pr], cq_heap := h\<rparr>)"
proof (rule threads_inv_producers [OF assms(1)])
  fix j assume "j < length (cq_producers q)"
  then show "pr_inactive (cq_producers (q\<lparr>cq_producers := (cq_producers q)[i := pr], cq_heap := h\<rparr>) ! j) = pr_inactive (cq_producers q ! j)"
    using assms(2) by (cases "j = i") simp_all
qed simp_all

lemma insert_entry_inactive: "insert_block_index_entry ok s p = (e, p') \<Longrightarrow> pr_inactive p' = pr_inactive p"
  by (auto simp: insert_block_index_entry_def reserve_entry_def Let_def new_block_index_def split: option.splits if_splits)

lemma put_element_inactive: "put_element x t p h = Inr (b, p', h') \<Longrightarrow> pr_inactive p' = pr_inactive p"
  by (auto simp: put_element_def res_bind_Inr_iff split: option.splits)

lemma producer_enqueue_inactive:
  assumes "producer_enqueue ok1 ok2 x p h = Inr (b, p', h')"
  shows "pr_inactive p' = pr_inactive p"
proof -
  obtain e p1 where ins: "insert_block_index_entry ok1 (pr_tail p) p = (e, p1)" by (cases "insert_block_index_entry ok1 (pr_tail p) p")
  then have "pr_inactive p1 = pr_inactive p" by (rule insert_entry_inactive)
  with assms show ?thesis
    by (auto simp: producer_enqueue_def ins Let_def res_bind_Inr_iff dest!: put_element_inactive split: if_splits option.splits)
qed

lemma take_element_inactive: "take_element t p h = Inr (r, p', h') \<Longrightarrow> pr_inactive p' = pr_inactive p"
  by (auto simp: take_element_def set_empty_def res_bind_Inr_iff split: option.splits if_splits)

lemma producer_dequeue_inactive: "producer_dequeue p h = Inr (r, p', h') \<Longrightarrow> pr_inactive p' = pr_inactive p"
  by (auto simp: producer_dequeue_def Let_def dest: take_element_inactive split: if_splits)

text \<open>The blocks of one producer, and those of all others.\<close>

lemma stream_change:
  assumes hold: "streams_hold q sts own" and i: "i < length sts"
  defines "rest \<equiv> \<Union>j \<in> {..<length sts} - {i}. own j"
  shows "heap_inv (cq_heap q) (own i \<union> rest)" "own i \<inter> rest = {}"
    and "\<lbrakk>producer_holds h' p' own' ys; heap_inv h' (own' \<union> rest); own' \<inter> rest = {};
      \<forall>c \<in> rest. block_at h' c = block_at (cq_heap q) c\<rbrakk> \<Longrightarrow>
      streams_hold (q\<lparr>cq_producers := (cq_producers q)[i := p'], cq_heap := h'\<rparr>) (sts[i := ys]) (own(i := own'))"
proof -
  have s: "length sts = length (cq_producers q)" "heap_inv (cq_heap q) (\<Union>i < length sts. own i)"
    "\<And>i. i < length sts \<Longrightarrow> producer_holds (cq_heap q) (cq_producers q ! i) (own i) (sts ! i)"
    "\<And>i j. i < length sts \<Longrightarrow> j < length sts \<Longrightarrow> i \<noteq> j \<Longrightarrow> own i \<inter> own j = {}"
    using hold unfolding streams_hold_def by blast+
  have all: "(\<Union>i < length sts. own i) = own i \<union> rest" using i by (auto simp: rest_def)
  then show "heap_inv (cq_heap q) (own i \<union> rest)" using s(2) by simp
  show "own i \<inter> rest = {}" using s(4) i by (auto simp: rest_def)
  assume h': "producer_holds h' p' own' ys" "heap_inv h' (own' \<union> rest)" "own' \<inter> rest = {}"
    "\<forall>c \<in> rest. block_at h' c = block_at (cq_heap q) c"
  show "streams_hold (q\<lparr>cq_producers := (cq_producers q)[i := p'], cq_heap := h'\<rparr>) (sts[i := ys]) (own(i := own'))"
    unfolding streams_hold_def
  proof (intro conjI allI impI)
    have "(\<Union>j < length (sts[i := ys]). (own(i := own')) j) = own' \<union> rest" using i by (auto simp: rest_def)
    then show "heap_inv (cq_heap (q\<lparr>cq_producers := (cq_producers q)[i := p'], cq_heap := h'\<rparr>)) (\<Union>j < length (sts[i := ys]). (own(i := own')) j)"
      using h'(2) by simp
    fix j assume j: "j < length (sts[i := ys])"
    show "producer_holds (cq_heap (q\<lparr>cq_producers := (cq_producers q)[i := p'], cq_heap := h'\<rparr>))
      (cq_producers (q\<lparr>cq_producers := (cq_producers q)[i := p'], cq_heap := h'\<rparr>) ! j) ((own(i := own')) j) (sts[i := ys] ! j)"
    proof (cases "j = i")
      case True
      then show ?thesis using h'(1) i s(1) by simp
    next
      case False
      then have "own j \<subseteq> rest" using j by (auto simp: rest_def)
      then have same: "\<And>c. c \<in> own j \<Longrightarrow> block_at h' c = block_at (cq_heap q) c" using h'(4) by (meson subsetD)
      have "j < length sts" using j by simp
      with same have "producer_holds h' (cq_producers q ! j) (own j) (sts ! j)" by (intro producer_holds_cong [OF _ s(3)])
      then show ?thesis using False j s(1) by simp
    qed
    fix k assume k: "k < length (sts[i := ys])" "j \<noteq> k"
    have "own' \<inter> own c = {}" if "c \<noteq> i" "c < length sts" for c using h'(3) that by (auto simp: rest_def)
    then show "(own(i := own')) j \<inter> (own(i := own')) k = {}" using s(4) [of j k] j k by auto
  qed (use s(1) in simp)
qed

text \<open>An operation on one producer that keeps to its blocks.\<close>

lemma change_at:
  assumes inv: "moody_inv q" and i: "i < length (cq_producers q)"
  obtains own rest where "heap_inv (cq_heap q) (own \<union> rest)" "own \<inter> rest = {}"
    "producer_holds (cq_heap q) (cq_producers q ! i) own (streams q ! i)"
    "\<And>pr h own' ys. \<lbrakk>producer_holds h pr own' ys; heap_inv h (own' \<union> rest); own' \<inter> rest = {};
      \<forall>c \<in> rest. block_at h c = block_at (cq_heap q) c; pr_inactive pr = pr_inactive (cq_producers q ! i)\<rbrakk> \<Longrightarrow>
      moody_inv (q\<lparr>cq_producers := (cq_producers q)[i := pr], cq_heap := h\<rparr>) \<and>
      streams (q\<lparr>cq_producers := (cq_producers q)[i := pr], cq_heap := h\<rparr>) = (streams q)[i := ys]"
proof -
  obtain own where hold: "streams_hold q (streams q) own" and th: "threads_inv q" using inv by (auto simp: moody_inv_def)
  have len: "i < length (streams q)" using i by (simp add: streams_def)
  define rest where "rest = (\<Union>j \<in> {..<length (streams q)} - {i}. own j)"
  note ch = stream_change [OF hold len, folded rest_def]
  have p: "producer_holds (cq_heap q) (cq_producers q ! i) (own i) (streams q ! i)" using hold len by (simp add: streams_hold_def)
  have "moody_inv (q\<lparr>cq_producers := (cq_producers q)[i := pr], cq_heap := h\<rparr>) \<and>
      streams (q\<lparr>cq_producers := (cq_producers q)[i := pr], cq_heap := h\<rparr>) = (streams q)[i := ys]"
    if e: "producer_holds h pr own' ys" "heap_inv h (own' \<union> rest)" "own' \<inter> rest = {}"
      "\<forall>c \<in> rest. block_at h c = block_at (cq_heap q) c" and act: "pr_inactive pr = pr_inactive (cq_producers q ! i)" for pr h own' ys
  proof -
    note new = ch(3) [OF e]
    have eq: "streams (q\<lparr>cq_producers := (cq_producers q)[i := pr], cq_heap := h\<rparr>) = (streams q)[i := ys]"
      using new by (rule streams_hold_eq)
    moreover have "threads_inv (q\<lparr>cq_producers := (cq_producers q)[i := pr], cq_heap := h\<rparr>)" using th act by (rule threads_inv_update)
    ultimately show ?thesis using new unfolding moody_inv_def by auto
  qed
  with ch(1,2) p show ?thesis by (rule that)
qed

lemma enqueue_at:
  assumes inv: "moody_inv q" and i: "i < length (cq_producers q)"
  shows "\<exists>b pr h. producer_enqueue ok1 ok2 x (cq_producers q ! i) (cq_heap q) = Inr (b, pr, h) \<and>
    moody_inv (q\<lparr>cq_producers := (cq_producers q)[i := pr], cq_heap := h\<rparr>) \<and>
    streams (q\<lparr>cq_producers := (cq_producers q)[i := pr], cq_heap := h\<rparr>) = (if b then (streams q)[i := streams q ! i @ [x]] else streams q) \<and>
    (pr_header pr = None \<longleftrightarrow> pr_header (cq_producers q ! i) = None) \<and>
    (\<not> b \<longrightarrow> pr_header (cq_producers q ! i) = None \<or> \<not> ok1 \<or> \<not> ok2 \<or> 2 ^ 63 - 32 \<le> length (streams q ! i))"
proof -
  obtain own rest where ch: "heap_inv (cq_heap q) (own \<union> rest)" "own \<inter> rest = {}"
    "producer_holds (cq_heap q) (cq_producers q ! i) own (streams q ! i)"
    "\<And>pr h own' ys. \<lbrakk>producer_holds h pr own' ys; heap_inv h (own' \<union> rest); own' \<inter> rest = {};
      \<forall>c \<in> rest. block_at h c = block_at (cq_heap q) c; pr_inactive pr = pr_inactive (cq_producers q ! i)\<rbrakk> \<Longrightarrow>
      moody_inv (q\<lparr>cq_producers := (cq_producers q)[i := pr], cq_heap := h\<rparr>) \<and>
      streams (q\<lparr>cq_producers := (cq_producers q)[i := pr], cq_heap := h\<rparr>) = (streams q)[i := ys]"
    using change_at [OF assms] by blast
  obtain b pr h own' where e: "producer_enqueue ok1 ok2 x (cq_producers q ! i) (cq_heap q) = Inr (b, pr, h)"
    "producer_holds h pr own' (if b then streams q ! i @ [x] else streams q ! i)" "heap_inv h (own' \<union> rest)" "own' \<inter> rest = {}"
    "\<forall>c \<in> rest. block_at h c = block_at (cq_heap q) c" "pr_header pr = None \<longleftrightarrow> pr_header (cq_producers q ! i) = None"
    "\<not> b \<longrightarrow> pr_header (cq_producers q ! i) = None \<or> \<not> ok1 \<or> \<not> ok2 \<or> 2 ^ 63 - 32 \<le> length (streams q ! i)"
    using enqueue_spec [OF ch(1-3), of ok1 ok2 x] by (elim exE conjE) (rule that)
  note new = ch(4) [OF e(2-5) producer_enqueue_inactive [OF e(1)]]
  have "(streams q)[i := if b then streams q ! i @ [x] else streams q ! i] = (if b then (streams q)[i := streams q ! i @ [x]] else streams q)"
    by simp
  with new e(1,6,7) show ?thesis by auto
qed

lemma bound_producer_update [simp]: "bound_producer (q\<lparr>cq_producers := ps, cq_heap := h\<rparr>) = bound_producer q"
  by (rule ext) (simp add: bound_producer_def)

lemma dequeue_at:
  assumes inv: "moody_inv q" and i: "i < length (cq_producers q)"
  shows "\<exists>q'. dequeue_from i q = Inr (case streams q ! i of [] \<Rightarrow> None | x # _ \<Rightarrow> Some x, q') \<and> moody_inv q' \<and>
    streams q' = (streams q)[i := tl (streams q ! i)] \<and> bound_producer q' = bound_producer q \<and> cq_hash q' = cq_hash q \<and>
    (\<forall>j < length (cq_producers q). pr_header (cq_producers q' ! j) = None \<longleftrightarrow> pr_header (cq_producers q ! j) = None)"
proof -
  obtain own rest where ch: "heap_inv (cq_heap q) (own \<union> rest)" "own \<inter> rest = {}"
    "producer_holds (cq_heap q) (cq_producers q ! i) own (streams q ! i)"
    "\<And>pr h own' ys. \<lbrakk>producer_holds h pr own' ys; heap_inv h (own' \<union> rest); own' \<inter> rest = {};
      \<forall>c \<in> rest. block_at h c = block_at (cq_heap q) c; pr_inactive pr = pr_inactive (cq_producers q ! i)\<rbrakk> \<Longrightarrow>
      moody_inv (q\<lparr>cq_producers := (cq_producers q)[i := pr], cq_heap := h\<rparr>) \<and>
      streams (q\<lparr>cq_producers := (cq_producers q)[i := pr], cq_heap := h\<rparr>) = (streams q)[i := ys]"
    using change_at [OF assms] by blast
  obtain pr h own' where e: "producer_dequeue (cq_producers q ! i) (cq_heap q) = Inr (case streams q ! i of [] \<Rightarrow> None | x # _ \<Rightarrow> Some x, pr, h)"
    "producer_holds h pr own' (tl (streams q ! i))" "own' \<subseteq> own" "heap_inv h (own' \<union> rest)"
    "\<forall>c \<in> rest. block_at h c = block_at (cq_heap q) c" "pr_header pr = None \<longleftrightarrow> pr_header (cq_producers q ! i) = None"
    using dequeue_spec [OF ch(1-3)] by (elim exE conjE) (rule that)
  have "own' \<inter> rest = {}" using e(3) ch(2) by blast
  note new = ch(4) [OF e(2,4) this e(5) producer_dequeue_inactive [OF e(1)]]
  let ?q = "q\<lparr>cq_producers := (cq_producers q)[i := pr], cq_heap := h\<rparr>"
  have "dequeue_from i q = Inr (case streams q ! i of [] \<Rightarrow> None | x # _ \<Rightarrow> Some x, ?q)" by (simp add: dequeue_from_def e(1))
  moreover have "pr_header (cq_producers ?q ! j) = None \<longleftrightarrow> pr_header (cq_producers q ! j) = None" for j
    using e(6) i by (cases "j = i") simp_all
  ultimately show ?thesis using new by (intro exI [of _ ?q]) simp
qed

section \<open>The calls\<close>

lemma producer_holds_active [simp]: "producer_holds h (p\<lparr>pr_inactive := b\<rparr>) own xs = producer_holds h p own xs"
proof -
  have "index_holds (p\<lparr>pr_inactive := b\<rparr>) B bs = index_holds p B bs" for B bs by (rule index_holds_cong) simp_all
  then show ?thesis by (simp add: producer_holds_def producer_at_def counters_at_def)
qed

definition all_indexed :: "'a cqueue \<Rightarrow> bool" where
  "all_indexed q \<longleftrightarrow> (\<forall>p \<in> set (cq_producers q). pr_header p \<noteq> None)"

definition pad :: "nat \<Rightarrow> 'a list list \<Rightarrow> 'a list list" where
  "pad p sts = (if p < length sts then sts else sts @ [[]])"

lemma streams_hold_activity:
  assumes hold: "streams_hold q sts own" and "cq_heap q' = cq_heap q" "cq_producers q' = (cq_producers q)[p := (cq_producers q ! p)\<lparr>pr_inactive := b\<rparr>]"
  shows "streams_hold q' sts own"
proof -
  have "producer_holds (cq_heap q) (cq_producers q' ! i) (own i) (sts ! i)" if "i < length sts" for i
    using hold that assms(3) by (cases "i = p") (simp_all add: streams_hold_def)
  then show ?thesis using hold unfolding streams_hold_def assms(2) by (auto simp: assms(3))
qed

lemma streams_hold_append:
  assumes hold: "streams_hold q sts own" and "cq_heap q' = cq_heap q" "cq_producers q' = cq_producers q @ [new_producer ok]"
  shows "streams_hold q' (sts @ [[]]) (own(length sts := {}))"
  unfolding streams_hold_def
proof (intro conjI allI impI)
  have "(\<Union>i < length (sts @ [[]]). (own(length sts := {})) i) = (\<Union>i < length sts. own i)" by (auto simp: less_Suc_eq)
  moreover have "heap_inv (cq_heap q) (\<Union>i < length sts. own i)" using hold unfolding streams_hold_def by blast
  ultimately show "heap_inv (cq_heap q') (\<Union>i < length (sts @ [[]]). (own(length sts := {})) i)"
    by (simp only: assms(2))
  fix i assume i: "i < length (sts @ [[]])"
  show "producer_holds (cq_heap q') (cq_producers q' ! i) ((own(length sts := {})) i) ((sts @ [[]]) ! i)"
    using hold assms(2,3) i new_producer_holds [of "cq_heap q" ok]
    by (cases "i = length sts") (auto simp: streams_hold_def nth_append)
  fix j assume j: "j < length (sts @ [[]])" "i \<noteq> j"
  have "own i \<inter> own j = {}" if "i < length sts" "j < length sts" using hold that j(2) unfolding streams_hold_def by blast
  then show "(own(length sts := {})) i \<inter> (own(length sts := {})) j = {}" using i j by (auto simp: less_Suc_eq)
qed (use hold assms(3) in \<open>simp add: streams_hold_def\<close>)

lemma streams_hold_step:
  assumes hold: "streams_hold q (streams q) own" and step: "producers_step a (cq_producers q) p (cq_producers q')" and heap: "cq_heap q' = cq_heap q"
  shows "\<exists>own'. streams_hold q' (pad p (streams q)) own'"
  using step unfolding producers_step_def
proof (elim disjE conjE)
  assume "p < length (cq_producers q)" "cq_producers q' = (cq_producers q)[p := (cq_producers q ! p)\<lparr>pr_inactive := False\<rparr>]"
  then show ?thesis using streams_hold_activity [OF hold heap, of p False] by (auto simp: pad_def streams_def)
next
  assume "p = length (cq_producers q)" "cq_producers q' = cq_producers q @ [new_producer (al_index a)]"
  then show ?thesis using streams_hold_append [OF hold heap, of "al_index a"] by (auto simp: pad_def streams_def)
qed

lemma new_producer_indexed: "pr_header (new_producer True) \<noteq> None"
  using new_producer_spec(1) [of True] by (intro index_holds_header) simp

lemma step_indexed:
  "producers_step a (cq_producers q) p (cq_producers q') \<Longrightarrow> al_index a \<Longrightarrow> all_indexed q \<Longrightarrow> all_indexed q'"
  using new_producer_indexed by (auto simp: producers_step_def all_indexed_def dest!: set_update_subset_insert [THEN subsetD])

text \<open>The producer of the calling thread.\<close>

lemma get_producer:
  assumes inv: "moody_inv q" and key: "thread_key tid"
  shows "\<exists>r q'. get_or_add_implicit_producer a tid q = Inr (r, q') \<and> moody_inv q' \<and> (al_index a \<and> all_indexed q \<longrightarrow> all_indexed q') \<and>
    (\<forall>u. thread_key u \<longrightarrow> bound_producer q' u = (if u = tid then r else bound_producer q u)) \<and>
    (case r of None \<Rightarrow> bound_producer q tid = None \<and> streams q' = streams q \<and>
        (\<not> al_hash a \<or> \<not> al_producer a \<or> length (tt_keys (hd (cq_hash q))) = 2 ^ 58)
    | Some p \<Rightarrow> (bound_producer q tid = None \<or> bound_producer q tid = Some p) \<and> p \<le> length (streams q) \<and>
        (bound_producer q tid = None \<longrightarrow> (\<forall>u. thread_key u \<longrightarrow> bound_producer q u \<noteq> Some p)) \<and> streams q' = pad p (streams q))"
proof -
  obtain own where hold: "streams_hold q (streams q) own" and th: "threads_inv q" using inv by (auto simp: moody_inv_def)
  obtain r q' where g: "get_or_add_implicit_producer a tid q = Inr (r, q')" "case bound_producer q tid of
      Some p \<Rightarrow> r = Some p \<and> threads_inv q' \<and> cq_heap q' = cq_heap q \<and> cq_producers q' = cq_producers q \<and>
        (\<forall>u. thread_key u \<longrightarrow> bound_producer q' u = bound_producer q u)
    | None \<Rightarrow> added a tid q r q'"
    using get_or_add_spec [OF th key, of a] by blast
  have unchanged: "moody_inv q' \<and> streams q' = streams q \<and> (all_indexed q \<longrightarrow> all_indexed q')"
    if "threads_inv q'" "cq_heap q' = cq_heap q" "cq_producers q' = cq_producers q"
    using that hold by (auto simp: moody_inv_def streams_def streams_hold_def all_indexed_def)
  show ?thesis
  proof (cases "bound_producer q tid")
    case (Some p)
    have "p < length (streams q)" using th key Some by (auto simp: threads_inv_def streams_def)
    then show ?thesis using g Some unchanged by (intro exI [of _ r] exI [of _ q']) (auto simp: pad_def)
  next
    case None
    then have ad: "added a tid q r q'" using g(2) by simp
    show ?thesis
    proof (cases r)
      case none: None
      then show ?thesis using ad g(1) None unchanged by (intro exI [of _ r] exI [of _ q']) (auto simp: added_def)
    next
      case (Some p)
      then have s: "threads_inv q'" "cq_heap q' = cq_heap q" "producers_step a (cq_producers q) p (cq_producers q')"
        "\<And>u. thread_key u \<Longrightarrow> bound_producer q' u = (if u = tid then Some p else bound_producer q u)"
        using ad by (auto simp: added_def)
      obtain own' where own': "streams_hold q' (pad p (streams q)) own'" using streams_hold_step [OF hold s(3,2)] by blast
      then have eq: "streams q' = pad p (streams q)" by (rule streams_hold_eq)
      have "moody_inv q'" using s(1) own' by (auto simp: moody_inv_def eq)
      moreover have "p \<le> length (streams q)" using s(3) by (auto simp: producers_step_def streams_def)
      moreover have "bound_producer q u \<noteq> Some p" if "thread_key u" for u
      proof
        assume "bound_producer q u = Some p"
        then have "p < length (cq_producers q)" "\<not> pr_inactive (cq_producers q ! p)" using th that by (auto simp: threads_inv_def)
        then show False using s(3) by (auto simp: producers_step_def)
      qed
      ultimately show ?thesis using g(1) Some None eq s(4) step_indexed [OF s(3)]
        by (intro exI [of _ r] exI [of _ q']) auto
    qed
  qed
qed

text \<open>
  An accepted element becomes the last one of the stream of the thread, and nothing else changes
  in any stream. It is rejected only if memory is short.
\<close>

lemma inner_enqueue_spec:
  assumes inv: "moody_inv q" and key: "thread_key tid"
  shows "\<exists>b q'. inner_enqueue a tid x q = Inr (b, q') \<and> moody_inv q' \<and> (al_index a \<and> all_indexed q \<longrightarrow> all_indexed q') \<and>
    (\<forall>u. thread_key u \<and> u \<noteq> tid \<longrightarrow> bound_producer q' u = bound_producer q u) \<and>
    (case bound_producer q' tid of None \<Rightarrow> \<not> b \<and> bound_producer q tid = None \<and> streams q' = streams q
    | Some p \<Rightarrow> (bound_producer q tid = None \<or> bound_producer q tid = Some p) \<and> p \<le> length (streams q) \<and>
        (bound_producer q tid = None \<longrightarrow> (\<forall>u. thread_key u \<longrightarrow> bound_producer q u \<noteq> Some p)) \<and>
        streams q' = (if b then (pad p (streams q))[p := pad p (streams q) ! p @ [x]] else pad p (streams q))) \<and>
    (\<not> b \<longrightarrow> \<not> al_hash a \<or> \<not> al_producer a \<or> \<not> al_index a \<or> \<not> al_block a \<or> \<not> all_indexed q \<or>
      length (tt_keys (hd (cq_hash q))) = 2 ^ 58 \<or> (\<exists>xs \<in> set (streams q). 2 ^ 63 - 32 \<le> length xs))"
proof -
  obtain r q1 where g: "get_or_add_implicit_producer a tid q = Inr (r, q1)" "moody_inv q1" "al_index a \<and> all_indexed q \<longrightarrow> all_indexed q1"
    "\<forall>u. thread_key u \<longrightarrow> bound_producer q1 u = (if u = tid then r else bound_producer q u)"
    "case r of None \<Rightarrow> bound_producer q tid = None \<and> streams q1 = streams q \<and>
        (\<not> al_hash a \<or> \<not> al_producer a \<or> length (tt_keys (hd (cq_hash q))) = 2 ^ 58)
    | Some p \<Rightarrow> (bound_producer q tid = None \<or> bound_producer q tid = Some p) \<and> p \<le> length (streams q) \<and>
        (bound_producer q tid = None \<longrightarrow> (\<forall>u. thread_key u \<longrightarrow> bound_producer q u \<noteq> Some p)) \<and> streams q1 = pad p (streams q)"
    using get_producer [OF inv key, of a] by (elim exE conjE) (rule that)
  have b1: "bound_producer q1 tid = r" using g(4) key by simp
  show ?thesis
  proof (cases r)
    case None
    then show ?thesis using g b1 by (intro exI [of _ False] exI [of _ q1]) (simp add: inner_enqueue_def)
  next
    case (Some p)
    then have s: "bound_producer q tid = None \<or> bound_producer q tid = Some p" "p \<le> length (streams q)"
      "bound_producer q tid = None \<longrightarrow> (\<forall>u. thread_key u \<longrightarrow> bound_producer q u \<noteq> Some p)" "streams q1 = pad p (streams q)"
      using g(5) by simp_all
    have "length (cq_producers q1) = length (pad p (streams q))" using arg_cong [OF s(4), of length] by (simp add: streams_def)
    then have p: "p < length (cq_producers q1)" using s(2) by (simp add: pad_def)
    obtain b pr h where e: "producer_enqueue (al_index a) (al_block a) x (cq_producers q1 ! p) (cq_heap q1) = Inr (b, pr, h)"
      "moody_inv (q1\<lparr>cq_producers := (cq_producers q1)[p := pr], cq_heap := h\<rparr>)"
      "streams (q1\<lparr>cq_producers := (cq_producers q1)[p := pr], cq_heap := h\<rparr>) = (if b then (streams q1)[p := streams q1 ! p @ [x]] else streams q1)"
      "pr_header pr = None \<longleftrightarrow> pr_header (cq_producers q1 ! p) = None"
      "\<not> b \<longrightarrow> pr_header (cq_producers q1 ! p) = None \<or> \<not> al_index a \<or> \<not> al_block a \<or> 2 ^ 63 - 32 \<le> length (streams q1 ! p)"
      using enqueue_at [OF g(2) p, of "al_index a" "al_block a" x] by (elim exE conjE) (rule that)
    let ?q = "q1\<lparr>cq_producers := (cq_producers q1)[p := pr], cq_heap := h\<rparr>"
    have run: "inner_enqueue a tid x q = Inr (b, ?q)" using p e(1) by (simp add: inner_enqueue_def g(1) Some)
    have bound: "bound_producer ?q = bound_producer q1" by (rule ext) (simp add: bound_producer_def)
    have "all_indexed ?q" if "all_indexed q1"
    proof -
      have "pr_header pr \<noteq> None" using e(4) that p by (simp add: all_indexed_def)
      then show ?thesis using that by (auto simp: all_indexed_def dest!: set_update_subset_insert [THEN subsetD])
    qed
    moreover have "\<not> al_index a \<or> \<not> al_block a \<or> \<not> all_indexed q \<or> (\<exists>xs \<in> set (streams q). 2 ^ 63 - 32 \<le> length xs)" if "\<not> b"
    proof (rule ccontr)
      assume n: "\<not> ?thesis"
      then have "pr_header (cq_producers q1 ! p) \<noteq> None" using g(3) p by (auto simp: all_indexed_def)
      then have long: "2 ^ 63 - 32 \<le> length (pad p (streams q) ! p)" using e(5) that n s(4) by auto
      then have "p < length (streams q)" using s(2) by (auto simp: pad_def nth_append split: if_splits)
      then show False using n long by (auto simp: pad_def)
    qed
    moreover have "\<forall>u. thread_key u \<and> u \<noteq> tid \<longrightarrow> bound_producer ?q u = bound_producer q u" using g(4) by (simp add: bound)
    moreover have "bound_producer ?q tid = Some p" using b1 Some by (simp add: bound)
    ultimately show ?thesis using run e(2,3) s g(3) by (intro exI [of _ b] exI [of _ ?q]) auto
  qed
qed

section \<open>Taking an element\<close>

lemma score_spec:
  assumes "n = 0 \<and> best = None \<and> s = 0 \<or> 0 < n \<and> (\<exists>b. best = Some b \<and> b \<in> S \<and> size_approx (ps ! b) \<noteq> 0)"
  shows "case score_producers ps is n best s of (m, best') \<Rightarrow>
    if m = 0 then n = 0 \<and> (\<forall>i \<in> set is. size_approx (ps ! i) = 0)
    else \<exists>b. best' = Some b \<and> b \<in> S \<union> set is \<and> size_approx (ps ! b) \<noteq> 0"
  using assms
proof (induction "is" arbitrary: n best s S)
  case Nil
  then show ?case by auto
next
  case (Cons i "is")
  show ?case
  proof (cases "n < 3 \<and> size_approx (ps ! i) \<noteq> 0")
    case False
    then show ?thesis using Cons.prems Cons.IH [of n best s S] by (auto simp: Let_def word_gt_0 split: prod.splits if_splits)
  next
    case True
    then have pos: "0 < size_approx (ps ! i)" by (simp add: word_gt_0)
    define best1 s1 where "best1 = (if s < size_approx (ps ! i) then Some i else best)"
      and "s1 = (if s < size_approx (ps ! i) then size_approx (ps ! i) else s)"
    have step: "score_producers ps (i # is) n best s = score_producers ps is (Suc n) best1 s1"
      using True pos by (simp add: Let_def best1_def s1_def)
    have "\<exists>b. best1 = Some b \<and> b \<in> insert i S \<and> size_approx (ps ! b) \<noteq> 0"
      using Cons.prems True pos by (auto simp: best1_def)
    then show ?thesis unfolding step using Cons.IH [of "Suc n" best1 s1 "insert i S"] by (auto split: prod.splits if_splits)
  qed
qed

lemma stream_size: "moody_inv q \<Longrightarrow> i < length (cq_producers q) \<Longrightarrow> size_approx (cq_producers q ! i) = 0 \<longleftrightarrow> streams q ! i = []"
  by (auto simp: moody_inv_def streams_hold_def streams_def dest!: size_zero_iff [THEN iffD1, rotated] size_zero_iff [THEN iffD2, rotated])

lemma try_dequeue_spec:
  assumes inv: "moody_inv q"
  shows "\<exists>r q'. try_dequeue q = Inr (r, q') \<and> moody_inv q' \<and> bound_producer q' = bound_producer q \<and> (all_indexed q \<longrightarrow> all_indexed q') \<and>
    (case r of None \<Rightarrow> q' = q \<and> (\<forall>xs \<in> set (streams q). xs = [])
    | Some x \<Rightarrow> \<exists>p < length (streams q). \<exists>xs. streams q ! p = x # xs \<and> streams q' = (streams q)[p := xs])"
proof -
  let ?is = "rev [0..<length (cq_producers q)]"
  obtain m best where sc: "score_producers (cq_producers q) ?is 0 None 0 = (m, best)"
    by (cases "score_producers (cq_producers q) ?is 0 None 0")
  have spec: "if m = 0 then \<forall>i \<in> set ?is. size_approx (cq_producers q ! i) = 0
    else \<exists>b. best = Some b \<and> b \<in> set ?is \<and> size_approx (cq_producers q ! b) \<noteq> 0"
    using score_spec [of 0 None 0 "{}" "cq_producers q" ?is] unfolding sc by (auto split: if_splits)
  show ?thesis
  proof (cases "m = 0")
    case True
    then have "streams q ! i = []" if "i < length (cq_producers q)" for i using spec stream_size [OF inv that] that by simp
    then have "\<forall>xs \<in> set (streams q). xs = []" by (auto simp: in_set_conv_nth streams_def)
    then show ?thesis using True inv by (intro exI [of _ None] exI [of _ q]) (simp add: try_dequeue_def sc)
  next
    case False
    then obtain b where b: "best = Some b" "b < length (cq_producers q)" "size_approx (cq_producers q ! b) \<noteq> 0" using spec by auto
    then obtain x xs where st: "streams q ! b = x # xs" using stream_size [OF inv b(2)] by (cases "streams q ! b") simp_all
    obtain q' where d: "dequeue_from b q = Inr (Some x, q')" "moody_inv q'" "streams q' = (streams q)[b := xs]"
      "bound_producer q' = bound_producer q"
      "\<forall>j < length (cq_producers q). pr_header (cq_producers q' ! j) = None \<longleftrightarrow> pr_header (cq_producers q ! j) = None"
      using dequeue_at [OF inv b(2)] st by auto
    have len: "length (cq_producers q') = length (cq_producers q)" using arg_cong [OF d(3), of length] by (simp add: streams_def)
    have "all_indexed q \<longrightarrow> all_indexed q'"
      using d(5) unfolding all_indexed_def all_set_conv_all_nth len by blast
    moreover have "try_dequeue q = Inr (Some x, q')" using False by (simp add: try_dequeue_def sc b(1) d(1))
    moreover have "b < length (streams q)" using b(2) by (simp add: streams_def)
    ultimately show ?thesis using d(2-4) st by (intro exI [of _ "Some x"] exI [of _ q']) auto
  qed
qed

lemma exit_spec:
  assumes inv: "moody_inv q" and key: "thread_key tid"
  shows "\<exists>q'. thread_exit tid q = Inr q' \<and> moody_inv q' \<and> streams q' = streams q \<and>
    (\<forall>u. thread_key u \<longrightarrow> bound_producer q' u = (if u = tid then None else bound_producer q u))"
proof -
  obtain own where hold: "streams_hold q (streams q) own" and th: "threads_inv q" using inv by (auto simp: moody_inv_def)
  obtain q' where q': "thread_exit tid q = Inr q'" "threads_inv q'" "cq_heap q' = cq_heap q"
    "cq_producers q' = (case bound_producer q tid of None \<Rightarrow> cq_producers q
      | Some p \<Rightarrow> (cq_producers q)[p := (cq_producers q ! p)\<lparr>pr_inactive := True\<rparr>])"
    "\<forall>u. thread_key u \<longrightarrow> bound_producer q' u = (if u = tid then None else bound_producer q u)"
    using thread_exit_spec [OF th key] by blast
  have new: "streams_hold q' (streams q) own"
  proof (cases "bound_producer q tid")
    case None
    then have ps: "cq_producers q' = cq_producers q" using q'(4) by simp
    have "streams_hold q' (streams q) own = streams_hold q (streams q) own" unfolding streams_hold_def q'(3) ps by (rule refl)
    with hold show ?thesis by simp
  next
    case (Some p)
    then show ?thesis using q'(4) by (intro streams_hold_activity [OF hold q'(3), of p True]) simp
  qed
  then have "streams q' = streams q" by (rule streams_hold_eq)
  then show ?thesis using q'(1,2,5) new by (auto simp: moody_inv_def)
qed

lemma initial_queue:
  "moody_inv (concurrent_queue ok capacity)" "streams (concurrent_queue ok capacity) = []" "all_indexed (concurrent_queue ok capacity)"
  "\<And>u. thread_key u \<Longrightarrow> bound_producer (concurrent_queue ok capacity) u = None"
proof -
  have f: "cq_hash (concurrent_queue ok capacity) = populate_initial_implicit_producer_hash"
    "cq_count (concurrent_queue ok capacity) = 0" "cq_listeners (concurrent_queue ok capacity) = []"
    by (simp_all add: concurrent_queue_def)
  note t = initial_threads [OF f]
  show "\<And>u. thread_key u \<Longrightarrow> bound_producer (concurrent_queue ok capacity) u = None" by (rule t(2))
  show s: "streams (concurrent_queue ok capacity) = []" by (simp add: streams_def concurrent_queue_def)
  show "all_indexed (concurrent_queue ok capacity)" by (simp add: all_indexed_def concurrent_queue_def)
  have "streams_hold (concurrent_queue ok capacity) [] (\<lambda>_. {})"
    by (simp add: streams_hold_def concurrent_queue_def populate_inv)
  then show "moody_inv (concurrent_queue ok capacity)" using t(1) unfolding moody_inv_def s by blast
qed

end
