(* ===== verification/MoodyFifo.thy ===== *)
theory MoodyFifo
  imports MoodyQueue "HOL-Library.Multiset"
begin

text \<open>
  What the callers of \<^verbatim>\<open>moodycamel::ConcurrentQueue\<close> rely on: over any sequence of calls by any
  threads, threads that start and exit included, nothing is lost or duplicated and the elements of
  one thread come out in the order in which it put them in; and the adapter
  \<^verbatim>\<open>MoodycamelLockFreeQueue\<close> of include/Queue.hpp as one of the program's queue types.
\<close>

section \<open>Sequences of calls\<close>

text \<open>
  Elements are paired with the thread that enqueues them. \<open>addr\<close> gives the identifier of a thread,
  the address of a thread-local variable.
\<close>

datatype ('t, 'a) moody_call = Enq alloc 't 'a | Deq | Exit 't

fun moody_calls :: "('t \<Rightarrow> u64) \<Rightarrow> ('t, 'a) moody_call list \<Rightarrow> ('t \<times> 'a) cqueue \<Rightarrow>
    (('t \<times> 'a) list \<times> ('t \<times> 'a) list \<times> ('t \<times> 'a) cqueue) res" where
  "moody_calls addr [] q = Inr ([], [], q)"
| "moody_calls addr (Enq a th x # cs) q = res_bind (inner_enqueue a (addr th) (th, x) q) (\<lambda>(ok, q').
     res_bind (moody_calls addr cs q') (\<lambda>(ins, outs, q''). Inr (if ok then (th, x) # ins else ins, outs, q'')))"
| "moody_calls addr (Deq # cs) q = res_bind (try_dequeue q) (\<lambda>(r, q').
     res_bind (moody_calls addr cs q') (\<lambda>(ins, outs, q''). Inr (ins, case r of Some x \<Rightarrow> x # outs | None \<Rightarrow> outs, q'')))"
| "moody_calls addr (Exit th # cs) q = res_bind (thread_exit (addr th) q) (moody_calls addr cs)"

text \<open>
  Two threads have the same identifier only one after the other, and a thread that exited makes no
  more calls.
\<close>

fun threads_ok :: "('t \<Rightarrow> u64) \<Rightarrow> (u64 \<Rightarrow> 't option) \<Rightarrow> 't set \<Rightarrow> ('t, 'a) moody_call list \<Rightarrow> bool" where
  "threads_ok addr cur gone [] \<longleftrightarrow> True"
| "threads_ok addr cur gone (Enq a th x # cs) \<longleftrightarrow> thread_key (addr th) \<and> th \<notin> gone \<and>
     (cur (addr th) = None \<or> cur (addr th) = Some th) \<and> threads_ok addr (cur(addr th \<mapsto> th)) gone cs"
| "threads_ok addr cur gone (Deq # cs) \<longleftrightarrow> threads_ok addr cur gone cs"
| "threads_ok addr cur gone (Exit th # cs) \<longleftrightarrow> cur (addr th) = Some th \<and>
     threads_ok addr (cur(addr th := None)) (insert th gone) cs"

definition of_thread :: "'t \<Rightarrow> ('t \<times> 'a) list \<Rightarrow> ('t \<times> 'a) list" where
  "of_thread th xs = filter (\<lambda>x. fst x = th) xs"

section \<open>The order of each thread\<close>

text \<open>\<open>home\<close> is the stream that the elements of a thread are in.\<close>

definition in_stream :: "('t \<Rightarrow> nat option) \<Rightarrow> ('t \<times> 'a) cqueue \<Rightarrow> 't \<Rightarrow> ('t \<times> 'a) list" where
  "in_stream home q th = (case home th of None \<Rightarrow> [] | Some p \<Rightarrow> of_thread th (streams q ! p))"

definition homes :: "('t \<Rightarrow> u64) \<Rightarrow> (u64 \<Rightarrow> 't option) \<Rightarrow> 't set \<Rightarrow> ('t \<Rightarrow> nat option) \<Rightarrow> ('t \<times> 'a) cqueue \<Rightarrow> bool" where
  "homes addr cur gone home q \<longleftrightarrow> moody_inv q \<and>
    (\<forall>th p. home th = Some p \<longrightarrow> p < length (streams q)) \<and>
    (\<forall>th p. p < length (streams q) \<and> home th \<noteq> Some p \<longrightarrow> of_thread th (streams q ! p) = []) \<and>
    (\<forall>u p. thread_key u \<and> bound_producer q u = Some p \<longrightarrow> (\<exists>th. cur u = Some th \<and> home th = Some p)) \<and>
    (\<forall>u th. cur u = Some th \<longrightarrow> addr th = u \<and> thread_key u \<and> th \<notin> gone) \<and>
    (\<forall>th. home th \<noteq> None \<longrightarrow> th \<in> gone \<or> cur (addr th) = Some th \<and> bound_producer q (addr th) = home th)"

lemma homesD:
  assumes "homes addr cur gone home q"
  shows "moody_inv q" "home th = Some p \<Longrightarrow> p < length (streams q)"
    "p < length (streams q) \<Longrightarrow> home th \<noteq> Some p \<Longrightarrow> of_thread th (streams q ! p) = []"
    "thread_key u \<Longrightarrow> bound_producer q u = Some p \<Longrightarrow> \<exists>th. cur u = Some th \<and> home th = Some p"
    "cur u = Some th \<Longrightarrow> addr th = u \<and> thread_key u \<and> th \<notin> gone"
    "home th \<noteq> None \<Longrightarrow> th \<in> gone \<or> cur (addr th) = Some th \<and> bound_producer q (addr th) = home th"
  using assms unfolding homes_def by blast+

lemma of_thread_append [simp]: "of_thread th (xs @ ys) = of_thread th xs @ of_thread th ys"
  by (simp add: of_thread_def)

lemma of_thread_simps [simp]: "of_thread th [] = []" "of_thread th (x # xs) = (if fst x = th then x # of_thread th xs else of_thread th xs)"
  by (simp_all add: of_thread_def)

lemma pad_simps [simp]: "length (pad p sts) = (if p < length sts then length sts else Suc (length sts))"
  "i < length sts \<Longrightarrow> pad p sts ! i = sts ! i"
  by (auto simp: pad_def nth_append)

lemma pad_new: "p \<le> length sts \<Longrightarrow> \<not> p < length sts \<Longrightarrow> pad p sts ! p = []"
  by (auto simp: pad_def nth_append)

lemma mset_concat_update:
  "p < length xs \<Longrightarrow> mset (concat (xs[p := ys])) + mset (xs ! p) = mset (concat xs) + mset ys"
proof (induction xs arbitrary: p)
  case (Cons x xs)
  then show ?case by (cases p) (auto simp: ac_simps)
qed simp

lemma mset_concat_pad [simp]: "mset (concat (pad p sts)) = mset (concat sts)"
  by (simp add: pad_def)

text \<open>Enqueueing keeps every thread at its stream, and gives the caller one if it has none.\<close>

lemma enqueue_homes:
  assumes h: "homes addr cur gone home q" and key: "thread_key (addr th)" and live: "th \<notin> gone"
    and cur: "cur (addr th) = None \<or> cur (addr th) = Some th"
  shows "\<exists>ok q' home'. inner_enqueue a (addr th) (th, x) q = Inr (ok, q') \<and> homes addr (cur(addr th \<mapsto> th)) gone home' q' \<and>
    (\<forall>t. in_stream home' q' t = in_stream home q t @ (if ok \<and> t = th then [(th, x)] else [])) \<and>
    mset (concat (streams q')) = mset (concat (streams q)) + (if ok then {#(th, x)#} else {#})"
proof -
  note d = homesD [OF h]
  obtain ok q' where e: "inner_enqueue a (addr th) (th, x) q = Inr (ok, q')" "moody_inv q'"
    "\<forall>u. thread_key u \<and> u \<noteq> addr th \<longrightarrow> bound_producer q' u = bound_producer q u"
    "case bound_producer q' (addr th) of None \<Rightarrow> \<not> ok \<and> bound_producer q (addr th) = None \<and> streams q' = streams q
    | Some p \<Rightarrow> (bound_producer q (addr th) = None \<or> bound_producer q (addr th) = Some p) \<and> p \<le> length (streams q) \<and>
        (bound_producer q (addr th) = None \<longrightarrow> (\<forall>u. thread_key u \<longrightarrow> bound_producer q u \<noteq> Some p)) \<and>
        streams q' = (if ok then (pad p (streams q))[p := pad p (streams q) ! p @ [(th, x)]] else pad p (streams q))"
    using inner_enqueue_spec [OF d(1) key, of a "(th, x)"] by blast
  have other: "bound_producer q' (addr t) = bound_producer q (addr t)" if "cur (addr t) = Some t" "addr t \<noteq> addr th" for t
    using e(3) d(5) [OF that(1)] that(2) by simp
  have mine: "home th = bound_producer q (addr th)"
  proof (cases "bound_producer q (addr th)")
    case None
    then show ?thesis using d(6) [of th] live by (cases "home th") auto
  next
    case (Some p)
    then obtain t where "cur (addr th) = Some t" "home t = Some p" using d(4) [OF key] by blast
    with Some cur show ?thesis by auto
  qed
  have same: "t = th" if "cur (addr t) = Some t" "addr t = addr th" for t using that cur by auto
  show ?thesis
  proof (cases "bound_producer q' (addr th)")
    case None
    then have n: "\<not> ok" "bound_producer q (addr th) = None" "streams q' = streams q" using e(4) by simp_all
    have "homes addr (cur(addr th \<mapsto> th)) gone home q'"
      unfolding homes_def n(3)
    proof (intro conjI allI impI)
      fix u p assume u: "thread_key u \<and> bound_producer q' u = Some p"
      then have "u \<noteq> addr th" using None by auto
      with u show "\<exists>t. (cur(addr th \<mapsto> th)) u = Some t \<and> home t = Some p" using e(3) d(4) [of u p] by auto
    next
      fix t assume t: "home t \<noteq> None"
      then have "t \<noteq> th" using mine n(2) by auto
      with d(6) [OF t] show "t \<in> gone \<or> (cur(addr th \<mapsto> th)) (addr t) = Some t \<and> bound_producer q' (addr t) = home t"
        using other [of t] same [of t] by auto
    qed (use e(2) d key live in \<open>auto split: if_splits\<close>)
    moreover have "in_stream home q' t = in_stream home q t" for t unfolding in_stream_def n(3) by (rule refl)
    ultimately show ?thesis using e(1) n by (intro exI [of _ ok] exI [of _ q'] exI [of _ home]) simp
  next
    case (Some p)
    then have s: "bound_producer q (addr th) = None \<or> bound_producer q (addr th) = Some p" "p \<le> length (streams q)"
      "bound_producer q (addr th) = None \<longrightarrow> (\<forall>u. thread_key u \<longrightarrow> bound_producer q u \<noteq> Some p)"
      "streams q' = (if ok then (pad p (streams q))[p := pad p (streams q) ! p @ [(th, x)]] else pad p (streams q))"
      using e(4) by simp_all
    define home' where "home' = home(th \<mapsto> p)"
    have len: "length (streams q') = (if p < length (streams q) then length (streams q) else Suc (length (streams q)))"
      by (simp add: s(4))
    have p: "p < length (streams q')" using s(2) len by simp
    have at: "of_thread t (streams q' ! i) = of_thread t (pad p (streams q) ! i) @ (if ok \<and> t = th \<and> i = p then [(th, x)] else [])"
      if "i < length (streams q')" for t i
      using s(2) by (cases "i = p") (simp_all add: s(4))
    have old: "of_thread t (pad p (streams q) ! i) = []" if "i < length (streams q')" "home t \<noteq> Some i" for t i
      using that d(3) [of i t] len pad_new [of p "streams q"] by (cases "i < length (streams q)") (auto split: if_splits simp: pad_def nth_append)
    have th_old: "of_thread th (pad p (streams q) ! p) = (case home th of None \<Rightarrow> [] | Some p \<Rightarrow> of_thread th (streams q ! p))"
    proof (cases "home th")
      case None
      then show ?thesis using old [OF p, of th] by simp
    next
      case (Some i)
      then have "i = p" using mine s(1) by simp
      then show ?thesis using Some d(2) [OF Some] by simp
    qed
    have "homes addr (cur(addr th \<mapsto> th)) gone home' q'"
      unfolding homes_def
    proof (intro conjI allI impI)
      fix t i assume t: "home' t = Some i"
      show "i < length (streams q')" using t d(2) [of t i] p len by (auto simp: home'_def split: if_splits)
    next
      fix t i assume t: "i < length (streams q') \<and> home' t \<noteq> Some i"
      then have "\<not> (t = th \<and> i = p)" "home t \<noteq> Some i" using s(1) mine by (auto simp: home'_def split: if_splits)
      then show "of_thread t (streams q' ! i) = []" using t at [of i t] old [of i t] by simp
    next
      fix u i assume u: "thread_key u \<and> bound_producer q' u = Some i"
      show "\<exists>t. (cur(addr th \<mapsto> th)) u = Some t \<and> home' t = Some i"
      proof (cases "u = addr th")
        case True
        then show ?thesis using u Some by (simp add: home'_def)
      next
        case False
        then obtain t where t: "cur u = Some t" "home t = Some i" using u e(3) d(4) [of u i] by auto
        then have "t \<noteq> th" using d(5) [OF t(1)] False by auto
        then show ?thesis using t False by (auto simp: home'_def)
      qed
    next
      fix t assume t: "home' t \<noteq> None"
      show "t \<in> gone \<or> (cur(addr th \<mapsto> th)) (addr t) = Some t \<and> bound_producer q' (addr t) = home' t"
      proof (cases "t = th")
        case True
        then show ?thesis using Some by (simp add: home'_def)
      next
        case False
        then have "home t \<noteq> None" using t by (simp add: home'_def)
        from d(6) [OF this] show ?thesis using False other [of t] same [of t] by (auto simp: home'_def)
      qed
    qed (use e(2) d(5) key live in \<open>auto split: if_splits\<close>)
    moreover have "in_stream home' q' t = in_stream home q t @ (if ok \<and> t = th then [(th, x)] else [])" for t
    proof (cases "t = th")
      case True
      then show ?thesis using at [OF p, of th] th_old by (simp add: in_stream_def home'_def)
    next
      case False
      then show ?thesis using at d(2) [of t] len by (auto simp: in_stream_def home'_def split: option.split)
    qed
    moreover have "mset (concat (streams q')) = mset (concat (streams q)) + (if ok then {#(th, x)#} else {#})"
    proof -
      have "mset (concat ((pad p (streams q))[p := pad p (streams q) ! p @ [(th, x)]])) = mset (concat (streams q)) + {#(th, x)#}"
        using mset_concat_update [of p "pad p (streams q)" "pad p (streams q) ! p @ [(th, x)]"] p len by (simp split: if_splits)
      then show ?thesis by (simp add: s(4))
    qed
    ultimately show ?thesis using e(1) by blast
  qed
qed

text \<open>The element that is taken is the oldest one of its thread.\<close>

lemma dequeue_homes:
  assumes h: "homes addr cur gone home q"
  shows "\<exists>r q'. try_dequeue q = Inr (r, q') \<and> homes addr cur gone home q' \<and>
    (\<forall>t. in_stream home q t = (case r of None \<Rightarrow> [] | Some x \<Rightarrow> of_thread t [x]) @ in_stream home q' t) \<and>
    mset (concat (streams q)) = (case r of None \<Rightarrow> {#} | Some x \<Rightarrow> {#x#}) + mset (concat (streams q'))"
proof -
  note d = homesD [OF h]
  obtain r q' where e: "try_dequeue q = Inr (r, q')" "moody_inv q'" "bound_producer q' = bound_producer q"
    "case r of None \<Rightarrow> q' = q \<and> (\<forall>xs \<in> set (streams q). xs = [])
    | Some x \<Rightarrow> \<exists>p < length (streams q). \<exists>xs. streams q ! p = x # xs \<and> streams q' = (streams q)[p := xs]"
    using try_dequeue_spec [OF d(1)] by blast
  show ?thesis
  proof (cases r)
    case None
    then show ?thesis using e h by (intro exI [of _ r] exI [of _ q']) simp
  next
    case (Some x)
    then obtain p xs where p: "p < length (streams q)" "streams q ! p = x # xs" "streams q' = (streams q)[p := xs]" using e(4) by auto
    have home: "home (fst x) = Some p" using d(3) [OF p(1), of "fst x"] p(2) by (cases "home (fst x) = Some p") simp_all
    have at: "of_thread t (streams q ! i) = (if i = p then of_thread t [x] else []) @ of_thread t (streams q' ! i)" for t i
      using p by (cases "i = p") simp_all
    have len: "length (streams q') = length (streams q)" by (simp add: p(3))
    have "homes addr cur gone home q'"
      unfolding homes_def len e(3)
    proof (intro conjI allI impI)
      fix t i assume "i < length (streams q) \<and> home t \<noteq> Some i"
      then show "of_thread t (streams q' ! i) = []" using d(3) [of i t] at [of t i] by simp
    qed (use e(2) d in blast)+
    moreover have "in_stream home q t = of_thread t [x] @ in_stream home q' t" for t
    proof (cases "home t")
      case None
      then have "t \<noteq> fst x" using home by auto
      then show ?thesis using None by (simp add: in_stream_def)
    next
      case (Some i)
      have "i \<noteq> p \<Longrightarrow> t \<noteq> fst x" using home Some by auto
      then show ?thesis using Some at [of t i] by (auto simp: in_stream_def)
    qed
    moreover have "mset (concat (streams q)) = {#x#} + mset (concat (streams q'))"
      using mset_concat_update [OF p(1), of xs] p(2,3) by simp
    ultimately show ?thesis using e(1) Some by (intro exI [of _ r] exI [of _ q']) simp
  qed
qed

lemma exit_homes:
  assumes h: "homes addr cur gone home q" and cur: "cur (addr th) = Some th"
  shows "\<exists>q'. thread_exit (addr th) q = Inr q' \<and> homes addr (cur(addr th := None)) (insert th gone) home q' \<and> streams q' = streams q"
proof -
  note d = homesD [OF h]
  have key: "thread_key (addr th)" using d(5) [OF cur] by simp
  obtain q' where e: "thread_exit (addr th) q = Inr q'" "moody_inv q'" "streams q' = streams q"
    "\<forall>u. thread_key u \<longrightarrow> bound_producer q' u = (if u = addr th then None else bound_producer q u)"
    using exit_spec [OF d(1) key] by blast
  have "homes addr (cur(addr th := None)) (insert th gone) home q'"
    unfolding homes_def e(3)
  proof (intro conjI allI impI)
    fix u p assume u: "thread_key u \<and> bound_producer q' u = Some p"
    then have "u \<noteq> addr th" "bound_producer q u = Some p" using e(4) by (auto split: if_splits)
    then show "\<exists>t. (cur(addr th := None)) u = Some t \<and> home t = Some p" using d(4) [of u p] u by auto
  next
    fix u t assume u: "(cur(addr th := None)) u = Some t"
    then have "cur u = Some t" "u \<noteq> addr th" by (auto split: if_splits)
    note o = d(5) [OF this(1)]
    from o show "addr t = u" "thread_key u" by simp_all
    show "t \<notin> insert th gone" using o \<open>u \<noteq> addr th\<close> by auto
  next
    fix t assume "home t \<noteq> None"
    from d(6) [OF this] show "t \<in> insert th gone \<or> (cur(addr th := None)) (addr t) = Some t \<and> bound_producer q' (addr t) = home t"
    proof
      assume t: "cur (addr t) = Some t \<and> bound_producer q (addr t) = home t"
      then have "thread_key (addr t)" using d(5) by blast
      show ?thesis
      proof (cases "addr t = addr th")
        case True
        have "t = th" using conjunct1 [OF t] cur unfolding True by simp
        then show ?thesis by simp
      next
        case False
        then show ?thesis using t e(4) \<open>thread_key (addr t)\<close> by simp
      qed
    qed simp
  next
    fix t p assume "home t = Some p"
    then show "p < length (streams q)" by (rule d(2))
  next
    fix t p assume "p < length (streams q) \<and> home t \<noteq> Some p"
    then show "of_thread t (streams q ! p) = []" using d(3) [of p t] by simp
  qed (rule e(2))
  with e(1,3) show ?thesis by blast
qed

lemma calls_fifo_homes:
  "homes addr cur gone home q \<Longrightarrow> threads_ok addr cur gone cs \<Longrightarrow>
    \<exists>ins outs q' rest. moody_calls addr cs q = Inr (ins, outs, q') \<and>
      (\<forall>t. in_stream home q t @ of_thread t ins = of_thread t outs @ rest t) \<and>
      mset (concat (streams q)) + mset ins = mset outs + mset (concat (streams q')) \<and> moody_inv q'"
proof (induction cs arbitrary: cur gone home q)
  case Nil
  then have "moody_inv q" by (simp add: homes_def)
  then show ?case by (intro exI [of _ "[]"] exI [of _ q] exI [of _ "in_stream home q"]) simp
next
  case (Cons c cs)
  show ?case
  proof (cases c)
    case (Enq a th x)
    then have ok: "thread_key (addr th)" "th \<notin> gone" "cur (addr th) = None \<or> cur (addr th) = Some th"
      "threads_ok addr (cur(addr th \<mapsto> th)) gone cs" using Cons.prems(2) by simp_all
    obtain b q1 home' where e: "inner_enqueue a (addr th) (th, x) q = Inr (b, q1)" "homes addr (cur(addr th \<mapsto> th)) gone home' q1"
      "\<forall>t. in_stream home' q1 t = in_stream home q t @ (if b \<and> t = th then [(th, x)] else [])"
      "mset (concat (streams q1)) = mset (concat (streams q)) + (if b then {#(th, x)#} else {#})"
      using enqueue_homes [OF Cons.prems(1) ok(1-3), of a x] by blast
    obtain ins outs q' rest where r: "moody_calls addr cs q1 = Inr (ins, outs, q')"
      "\<forall>t. in_stream home' q1 t @ of_thread t ins = of_thread t outs @ rest t"
      "mset (concat (streams q1)) + mset ins = mset outs + mset (concat (streams q'))" "moody_inv q'"
      using Cons.IH [OF e(2) ok(4)] by blast
    have "moody_calls addr (c # cs) q = Inr (if b then (th, x) # ins else ins, outs, q')" using Enq e(1) r(1) by simp
    moreover have "in_stream home q t @ of_thread t (if b then (th, x) # ins else ins) = of_thread t outs @ rest t" for t
      using e(3) [rule_format, of t] r(2) [rule_format, of t] by (cases b; cases "t = th") simp_all
    moreover have "mset (concat (streams q)) + mset (if b then (th, x) # ins else ins) = mset outs + mset (concat (streams q'))"
      using e(4) r(3) by (cases b) (simp_all add: ac_simps)
    ultimately show ?thesis using r(4) by blast
  next
    case Deq
    then have ok: "threads_ok addr cur gone cs" using Cons.prems(2) by simp
    obtain x q1 where e: "try_dequeue q = Inr (x, q1)" "homes addr cur gone home q1"
      "\<forall>t. in_stream home q t = (case x of None \<Rightarrow> [] | Some x \<Rightarrow> of_thread t [x]) @ in_stream home q1 t"
      "mset (concat (streams q)) = (case x of None \<Rightarrow> {#} | Some x \<Rightarrow> {#x#}) + mset (concat (streams q1))"
      using dequeue_homes [OF Cons.prems(1)] by blast
    obtain ins outs q' rest where r: "moody_calls addr cs q1 = Inr (ins, outs, q')"
      "\<forall>t. in_stream home q1 t @ of_thread t ins = of_thread t outs @ rest t"
      "mset (concat (streams q1)) + mset ins = mset outs + mset (concat (streams q'))" "moody_inv q'"
      using Cons.IH [OF e(2) ok] by blast
    have "moody_calls addr (c # cs) q = Inr (ins, case x of Some x \<Rightarrow> x # outs | None \<Rightarrow> outs, q')" using Deq e(1) r(1) by simp
    moreover have "in_stream home q t @ of_thread t ins = of_thread t (case x of Some x \<Rightarrow> x # outs | None \<Rightarrow> outs) @ rest t" for t
      using e(3) r(2) by (cases x) simp_all
    moreover have "mset (concat (streams q)) + mset ins = mset (case x of Some x \<Rightarrow> x # outs | None \<Rightarrow> outs) + mset (concat (streams q'))"
      using e(4) r(3) by (cases x) simp_all
    ultimately show ?thesis using r(4) by blast
  next
    case (Exit th)
    then have ok: "cur (addr th) = Some th" "threads_ok addr (cur(addr th := None)) (insert th gone) cs" using Cons.prems(2) by simp_all
    obtain q1 where e: "thread_exit (addr th) q = Inr q1" "homes addr (cur(addr th := None)) (insert th gone) home q1" "streams q1 = streams q"
      using exit_homes [OF Cons.prems(1) ok(1)] by blast
    have same: "in_stream home q1 = in_stream home q" unfolding in_stream_def e(3) by (rule refl)
    then show ?thesis using Cons.IH [OF e(2) ok(2)] Exit e(1,3) by simp
  qed
qed

section \<open>The adapter MoodycamelLockFreeQueue\<close>

text \<open>
  One thread that makes all calls, as \<^verbatim>\<open>Queue<MoodycamelLockFreeQueue>\<close> for it: \<open>T msg = nullptr;
  queue_.try_dequeue(msg); return msg;\<close>. The constructor prints a line and makes a queue for
  \<^verbatim>\<open>Const::queueCapacity\<close> elements, which is no bound.
\<close>

definition moody_enqueue :: "alloc \<Rightarrow> u64 \<Rightarrow> 'a cqueue \<Rightarrow> 'a \<Rightarrow> (bool \<times> 'a cqueue) res" where
  "moody_enqueue a tid q ptr = inner_enqueue a tid ptr q"

definition moody_dequeue :: "'a cqueue \<Rightarrow> ('a option \<times> 'a cqueue) res" where
  "moody_dequeue q = try_dequeue q"

definition moody_ops :: "alloc \<Rightarrow> u64 \<Rightarrow> ('a cqueue, 'a) q_ops" where
  "moody_ops a tid = \<lparr>enqueue_op = moody_enqueue a tid, dequeue_op = moody_dequeue\<rparr>"

definition one_thread :: "u64 \<Rightarrow> 'a cqueue \<Rightarrow> bool" where
  "one_thread tid q \<longleftrightarrow> thread_key tid \<and> moody_inv q \<and>
    (streams q = [] \<and> bound_producer q tid = None \<or> length (streams q) = 1 \<and> bound_producer q tid = Some 0)"

lemma one_thread_initial: "thread_key tid \<Longrightarrow> one_thread tid (concurrent_queue ok capacity)"
  by (simp add: one_thread_def initial_queue)

lemma one_thread_enqueue:
  assumes "one_thread tid q"
  shows "\<exists>ok q'. inner_enqueue a tid x q = Inr (ok, q') \<and> one_thread tid q' \<and>
    concat (streams q') = (if ok then concat (streams q) @ [x] else concat (streams q))"
proof -
  have o: "thread_key tid" "moody_inv q"
    "streams q = [] \<and> bound_producer q tid = None \<or> length (streams q) = 1 \<and> bound_producer q tid = Some 0"
    using assms by (simp_all add: one_thread_def)
  obtain ok q' where e: "inner_enqueue a tid x q = Inr (ok, q')" "moody_inv q'"
    "case bound_producer q' tid of None \<Rightarrow> \<not> ok \<and> bound_producer q tid = None \<and> streams q' = streams q
    | Some p \<Rightarrow> (bound_producer q tid = None \<or> bound_producer q tid = Some p) \<and> p \<le> length (streams q) \<and>
        (bound_producer q tid = None \<longrightarrow> (\<forall>u. thread_key u \<longrightarrow> bound_producer q u \<noteq> Some p)) \<and>
        streams q' = (if ok then (pad p (streams q))[p := pad p (streams q) ! p @ [x]] else pad p (streams q))"
    using inner_enqueue_spec [OF o(2,1), of a x] by blast
  show ?thesis
  proof (cases "bound_producer q' tid")
    case None
    then show ?thesis using e o by (auto simp: one_thread_def)
  next
    case (Some p)
    then have s: "bound_producer q tid = None \<or> bound_producer q tid = Some p" "p \<le> length (streams q)"
      "streams q' = (if ok then (pad p (streams q))[p := pad p (streams q) ! p @ [x]] else pad p (streams q))" using e(3) by simp_all
    then have p: "p = 0" using o(3) by auto
    obtain xs where xs: "pad p (streams q) = [xs]" "concat (streams q) = xs"
      using o(3) p by (cases "streams q") (auto simp: pad_def)
    then have "streams q' = (if ok then [xs @ [x]] else [xs])" using s(3) p by simp
    then show ?thesis using e(1,2) o(1) Some p xs(2) by (auto simp: one_thread_def)
  qed
qed

lemma one_thread_dequeue:
  assumes "one_thread tid q" and c: "concat (streams q) = ys"
  shows "\<exists>q'. try_dequeue q = Inr (case ys of [] \<Rightarrow> None | x # _ \<Rightarrow> Some x, q') \<and> one_thread tid q' \<and> concat (streams q') = tl ys"
proof -
  have o: "thread_key tid" "moody_inv q"
    "streams q = [] \<and> bound_producer q tid = None \<or> length (streams q) = 1 \<and> bound_producer q tid = Some 0"
    using assms by (simp_all add: one_thread_def)
  obtain r q' where e: "try_dequeue q = Inr (r, q')" "moody_inv q'" "bound_producer q' = bound_producer q"
    "case r of None \<Rightarrow> q' = q \<and> (\<forall>xs \<in> set (streams q). xs = [])
    | Some x \<Rightarrow> \<exists>p < length (streams q). \<exists>xs. streams q ! p = x # xs \<and> streams q' = (streams q)[p := xs]"
    using try_dequeue_spec [OF o(2)] by blast
  show ?thesis
  proof (cases r)
    case None
    then have "ys = []" "q' = q" using e(4) c by auto
    then show ?thesis using e(1) None assms by simp
  next
    case (Some x)
    then obtain p xs where p: "p < length (streams q)" "streams q ! p = x # xs" "streams q' = (streams q)[p := xs]" using e(4) by auto
    then have "streams q = [x # xs]" using o(3) by (cases "streams q") auto
    then show ?thesis using p e(1-3) o Some c by (auto simp: one_thread_def)
  qed
qed

interpretation mlq: polling_queue "moody_ops a tid" "\<lambda>_. one_thread tid" "\<lambda>q. concat (streams q)" for a tid
proof
  fix n q x assume "one_thread tid q"
  then show "\<exists>ok q'. enqueue_op (moody_ops a tid) q x = Inr (ok, q') \<and> one_thread tid q' \<and>
      concat (streams q') = (if ok then concat (streams q) @ [x] else concat (streams q))"
    using one_thread_enqueue [of tid q a x] by (simp only: moody_ops_def moody_enqueue_def q_ops.select_convs)
next
  fix n q x xs assume "one_thread tid q" "concat (streams q) = x # xs"
  from one_thread_dequeue [OF this] show "\<exists>q'. dequeue_op (moody_ops a tid) q = Inr (Some x, q') \<and> one_thread tid q' \<and> concat (streams q') = xs"
    by (simp only: moody_ops_def moody_dequeue_def q_ops.select_convs list.case list.sel)
next
  fix n q assume "one_thread tid q" "concat (streams q) = []"
  from one_thread_dequeue [OF this] show "\<exists>q'. dequeue_op (moody_ops a tid) q = Inr (None, q') \<and> one_thread tid q' \<and> concat (streams q') = []"
    by (simp only: moody_ops_def moody_dequeue_def q_ops.select_convs list.case list.sel)
qed

text \<open>A thread that makes all calls sees an unbounded FIFO queue.\<close>

lemma moody_adapter_fifo:
  assumes "thread_key tid"
  shows "\<exists>ins outs q'. queue_calls (moody_ops a tid) cs (concurrent_queue ok capacity) = Inr (ins, outs, q') \<and>
    ins = outs @ concat (streams q')"
proof -
  have "one_thread tid (concurrent_queue ok capacity)" using assms by (rule one_thread_initial)
  from mlq.calls_fifo [OF this, where cs = cs and a = a] show ?thesis by (simp only: initial_queue(2) concat.simps append_Nil) blast
qed

lemma calls_balanced:
  assumes "threads_ok addr (\<lambda>_. None) {} cs"
  shows "\<exists>ins outs q. moody_calls addr cs (concurrent_queue ok capacity) = Inr (ins, outs, q) \<and> moody_inv q \<and>
    mset ins = mset outs + mset (concat (streams q)) \<and> (\<forall>t. \<exists>rest. of_thread t ins = of_thread t outs @ rest)"
proof -
  let ?q = "concurrent_queue ok capacity"
  have h: "homes addr (\<lambda>_. None) {} (\<lambda>_. None) ?q" by (simp add: homes_def initial_queue)
  obtain ins outs q rest where r: "moody_calls addr cs ?q = Inr (ins, outs, q)"
    "\<forall>t. in_stream (\<lambda>_. None) ?q t @ of_thread t ins = of_thread t outs @ rest t"
    "mset (concat (streams ?q)) + mset ins = mset outs + mset (concat (streams q))" "moody_inv q"
    using calls_fifo_homes [OF h assms] by blast
  then have "\<forall>t. of_thread t ins = of_thread t outs @ rest t" "mset ins = mset outs + mset (concat (streams q))"
    by (simp_all add: in_stream_def initial_queue)
  with r(1,4) show ?thesis by blast
qed

section \<open>Properties\<close>

text \<open>
  C6: Any sequence of calls by any threads, starting from a new queue, returns: no access to memory
  that is not there, no endless loop. The elements dequeued and those still in the queue are the
  accepted ones, none lost and none twice, and of every thread the elements come out in the order
  in which it put them in. Threads may exit, and later threads may have their identifiers and take
  over their producers.
\<close>

theorem moody_threads_fifo:
  assumes "threads_ok addr (\<lambda>_. None) {} cs"
  shows "\<exists>ins outs q. moody_calls addr cs (concurrent_queue ok capacity) = Inr (ins, outs, q) \<and>
    mset ins = mset outs + mset (concat (streams q)) \<and> (\<forall>t. \<exists>rest. of_thread t ins = of_thread t outs @ rest)"
  using calls_balanced [OF assms] by blast

definition all_memory :: alloc where
  "all_memory = \<lparr>al_hash = True, al_producer = True, al_index = True, al_block = True\<rparr>"

text \<open>The threads 0 and 2 have the same identifier, one after the other.\<close>

definition sample_calls :: "(nat, nat) moody_call list" where
  "sample_calls = [Enq all_memory 0 10, Enq all_memory 1 20, Enq all_memory 0 11, Deq, Deq, Exit 0, Enq all_memory 2 30, Deq, Deq, Deq]"

definition sample_addr :: "nat \<Rightarrow> u64" where
  "sample_addr t = (if t = 1 then 4096 else 8192)"

lemma sample_threads: "threads_ok sample_addr (\<lambda>_. None) {} sample_calls"
  by (simp add: sample_calls_def sample_addr_def thread_key_def invalid_thread_id_def invalid_thread_id2_def)

lemma sample_outs:
  "(case moody_calls sample_addr sample_calls (concurrent_queue True 64) of Inl e \<Rightarrow> [] | Inr (ins, outs, q) \<Rightarrow> outs)
    = [(0, 10), (1, 20), (0, 11), (2, 30)]"
  by code_simp

lemma moody_threads_fifo_witness:
  "\<exists>ins outs q. moody_calls sample_addr sample_calls (concurrent_queue True 64) = Inr (ins, outs, q) \<and>
    outs = [(0, 10), (1, 20), (0, 11), (2, 30)] \<and> mset ins = mset outs + mset (concat (streams q)) \<and>
    (\<forall>t. \<exists>rest. of_thread t ins = of_thread t outs @ rest)"
proof -
  obtain ins outs q where m: "moody_calls sample_addr sample_calls (concurrent_queue True 64) = Inr (ins, outs, q)"
    "mset ins = mset outs + mset (concat (streams q))" "\<forall>t. \<exists>rest. of_thread t ins = of_thread t outs @ rest"
    using moody_threads_fifo [OF sample_threads, where ok = True and capacity = 64] by blast
  moreover from m(1) have "outs = [(0, 10), (1, 20), (0, 11), (2, 30)]" using sample_outs by simp
  ultimately show ?thesis by blast
qed

text \<open>
  C24: \<open>try_dequeue\<close> returns the oldest element of some stream and removes just that element, or
  nothing, and then every stream is empty: the heuristic that looks at three producers only misses
  no element.
\<close>

theorem moody_try_dequeue:
  assumes "moody_inv q"
  shows "\<exists>r q'. try_dequeue q = Inr (r, q') \<and> moody_inv q' \<and> (case r of
      None \<Rightarrow> q' = q \<and> (\<forall>xs \<in> set (streams q). xs = [])
    | Some x \<Rightarrow> \<exists>p < length (streams q). \<exists>xs. streams q ! p = x # xs \<and> streams q' = (streams q)[p := xs])"
  using try_dequeue_spec [OF assms] by blast

text \<open>A queue with two elements of one thread.\<close>

definition two_elements :: "nat cqueue" where
  "two_elements = (case inner_enqueue all_memory 4096 7 (concurrent_queue True 64) of Inl e \<Rightarrow> concurrent_queue True 64
    | Inr (ok, q) \<Rightarrow> (case inner_enqueue all_memory 4096 8 q of Inl e \<Rightarrow> q | Inr (ok, q') \<Rightarrow> q'))"

lemma two_elements_inv: "moody_inv two_elements"
proof -
  have key: "thread_key 4096" by (simp add: thread_key_def invalid_thread_id_def invalid_thread_id2_def)
  obtain ok q where e: "inner_enqueue all_memory 4096 (7 :: nat) (concurrent_queue True 64) = Inr (ok, q)" "moody_inv q"
    using inner_enqueue_spec [OF initial_queue(1) key, of all_memory 7 True 64] by blast
  obtain ok' q' where "inner_enqueue all_memory 4096 8 q = Inr (ok', q')" "moody_inv q'"
    using inner_enqueue_spec [OF e(2) key, of all_memory 8] by blast
  with e(1) show ?thesis by (simp add: two_elements_def)
qed

lemma two_elements_streams: "streams two_elements = [[7, 8]]"
  by code_simp

lemma moody_try_dequeue_witness:
  "\<exists>q'. try_dequeue two_elements = Inr (Some 7, q') \<and> streams q' = [[8]]"
  using moody_try_dequeue [OF two_elements_inv] unfolding two_elements_streams by (auto split: option.splits)

text \<open>
  \<open>enqueue\<close> accepts every element as long as the allocations it makes succeed, no earlier
  producer lacks its index for want of memory, and no stream comes near \<open>2 ^ 63\<close> elements.
\<close>

lemma moody_enqueue_accepts:
  assumes "moody_inv q" "thread_key tid" "al_hash a" "al_producer a" "al_index a" "al_block a" "all_indexed q"
    and "length (tt_keys (hd (cq_hash q))) < 2 ^ 58" "\<And>xs. xs \<in> set (streams q) \<Longrightarrow> length xs < 2 ^ 63 - 32"
  shows "\<exists>q' p. inner_enqueue a tid x q = Inr (True, q') \<and> moody_inv q' \<and> all_indexed q' \<and> bound_producer q' tid = Some p \<and>
    p < length (streams q') \<and> streams q' ! p = (if p < length (streams q) then streams q ! p else []) @ [x]"
proof -
  obtain b q' where e: "inner_enqueue a tid x q = Inr (b, q')" "moody_inv q'" "al_index a \<and> all_indexed q \<longrightarrow> all_indexed q'"
    "case bound_producer q' tid of None \<Rightarrow> \<not> b \<and> bound_producer q tid = None \<and> streams q' = streams q
    | Some p \<Rightarrow> (bound_producer q tid = None \<or> bound_producer q tid = Some p) \<and> p \<le> length (streams q) \<and>
        (bound_producer q tid = None \<longrightarrow> (\<forall>u. thread_key u \<longrightarrow> bound_producer q u \<noteq> Some p)) \<and>
        streams q' = (if b then (pad p (streams q))[p := pad p (streams q) ! p @ [x]] else pad p (streams q))"
    "\<not> b \<longrightarrow> \<not> al_hash a \<or> \<not> al_producer a \<or> \<not> al_index a \<or> \<not> al_block a \<or> \<not> all_indexed q \<or>
      length (tt_keys (hd (cq_hash q))) = 2 ^ 58 \<or> (\<exists>xs \<in> set (streams q). 2 ^ 63 - 32 \<le> length xs)"
    using inner_enqueue_spec [OF assms(1,2), of a x] by (elim exE conjE) (rule that)
  have short: "\<not> 2 ^ 63 - 32 \<le> length xs" if "xs \<in> set (streams q)" for xs using assms(9) [OF that] by (simp only: not_le)
  have ne: "length (tt_keys (hd (cq_hash q))) \<noteq> 2 ^ 58" using assms(8) by simp
  have b using e(5) short ne assms(3-7) by blast
  then obtain p where p: "bound_producer q' tid = Some p" "p \<le> length (streams q)"
    "streams q' = (pad p (streams q))[p := pad p (streams q) ! p @ [x]]" using e(4) by (auto split: option.splits)
  then have "streams q' ! p = (if p < length (streams q) then streams q ! p else []) @ [x]" "p < length (streams q')"
    using pad_new [OF p(2)] by (auto split: if_splits)
  then show ?thesis using e(1-3) \<open>b\<close> p(1) assms(5,7) by auto
qed

lemma moody_enqueue_accepts_witness:
  "\<exists>q' p. inner_enqueue all_memory 4096 (5 :: nat) (concurrent_queue False 64) = Inr (True, q') \<and>
    bound_producer q' 4096 = Some p \<and> streams q' ! p = [5]"
proof -
  have "thread_key 4096" by (simp add: thread_key_def invalid_thread_id_def invalid_thread_id2_def)
  moreover have "length (tt_keys (hd (cq_hash (concurrent_queue False 64 :: nat cqueue)))) = 32"
    by (simp add: concurrent_queue_def populate_initial_implicit_producer_hash_def new_table_def)
  moreover have inv: "moody_inv (concurrent_queue False 64 :: nat cqueue)" by (rule initial_queue)
  ultimately show ?thesis
    using moody_enqueue_accepts [OF inv, of 4096 all_memory 5] by (auto simp: all_memory_def initial_queue)
qed

end
