(* ===== verification/MoodyDestroy.thy ===== *)
theory MoodyDestroy
  imports MoodyFifo
begin

text \<open>
  Destroying a \<^verbatim>\<open>moodycamel::ConcurrentQueue\<close> (moodycamel/concurrentqueue.h) when no call is
  pending: the elements that were not taken, the blocks of the producers, the free list, the array
  of initial blocks, and the listeners that wait for the exit of a thread.
\<close>

section \<open>The operations\<close>

text \<open>The chain of a thread's listeners; each producer has one listener.\<close>

fun unsubscribe :: "nat \<Rightarrow> (u64 \<times> nat) list \<Rightarrow> (u64 \<times> nat) list" where
  "unsubscribe p [] = []"
| "unsubscribe p (l # ls) = (if snd l = p then ls else l # unsubscribe p ls)"

text \<open>
  The loop over the elements that are left, with the block of the last one; the list are the
  elements destroyed, in order. The counter comes to the tail after \<open>n\<close> rounds.
\<close>

fun destroy_elements :: "nat \<Rightarrow> u64 \<Rightarrow> nat option \<Rightarrow> producer \<Rightarrow> 'a mheap \<Rightarrow> ('a list \<times> 'a mheap) res" where
  "destroy_elements n index block p h = (if index = pr_tail p then Inr ([], h) else case n of 0 \<Rightarrow> Inl Diverges | Suc m \<Rightarrow>
    res_bind (if index AND (BLOCK_SIZE - 1) = 0 \<or> block = None
        then res_bind (case block of None \<Rightarrow> Inr h | Some b \<Rightarrow> add_block_to_free_list h b) (\<lambda>h1.
          res_bind (get_block_index_entry_for_index index p) (\<lambda>e. Inr (ie_value (pr_entries p ! e), h1)))
        else Inr (block, h)) (\<lambda>(block', h1). case block' of None \<Rightarrow> Inl (UB Null_Deref)
      | Some b \<Rightarrow> res_bind (read_block h1 b) (\<lambda>bk. res_bind (move_out bk index) (\<lambda>(x, bk').
          res_bind (destroy_elements m (index + 1) (Some b) p (write_block h1 b bk')) (\<lambda>(xs, h2). Inr (x # xs, h2))))))"

declare destroy_elements.simps [simp del]

definition destroy_producer :: "producer \<Rightarrow> 'a mheap \<Rightarrow> ('a list \<times> 'a mheap) res" where
  "destroy_producer p h = (let tail = pr_tail p; index = pr_head p; forceFreeLastBlock = index \<noteq> tail in
    res_bind (destroy_elements (unat (tail - index)) index None p h) (\<lambda>(xs, h1).
      res_bind (case pr_tail_block p of
          Some b \<Rightarrow> if forceFreeLastBlock \<or> tail AND (BLOCK_SIZE - 1) \<noteq> 0 then add_block_to_free_list h1 b else Inr h1
        | None \<Rightarrow> Inr h1) (\<lambda>h2. Inr (xs, h2))))"

text \<open>
  The destructor of a producer starts with its listener, and ends with the memory of its block
  index, which goes with the record of the producer.
\<close>

fun destroy_producers :: "nat list \<Rightarrow> 'a cqueue \<Rightarrow> ('a list \<times> 'a cqueue) res" where
  "destroy_producers [] q = Inr ([], q)"
| "destroy_producers (i # is) q = (let p = cq_producers q ! i;
      q1 = (if pr_inactive p then q else q\<lparr>cq_listeners := unsubscribe i (cq_listeners q)\<rparr>) in
    res_bind (destroy_producer p (cq_heap q1)) (\<lambda>(xs, h).
      res_bind (destroy_producers is (q1\<lparr>cq_heap := h\<rparr>)) (\<lambda>(ys, q2). Inr (xs @ ys, q2))))"

definition delete_block :: "nat \<Rightarrow> 'a mheap \<Rightarrow> 'a mheap" where
  "delete_block b h = h\<lparr>mh_blocks := (mh_blocks h)[b := None]\<rparr>"

text \<open>No node is on the free list twice, so there are at most as many rounds as blocks.\<close>

fun destroy_free_list :: "nat \<Rightarrow> nat option \<Rightarrow> 'a mheap \<Rightarrow> 'a mheap res" where
  "destroy_free_list n None h = Inr h"
| "destroy_free_list 0 (Some b) h = Inl Diverges"
| "destroy_free_list (Suc n) (Some b) h = res_bind (read_block h b) (\<lambda>bk.
    destroy_free_list n (bk_free_next bk) (if bk_dynamic bk then delete_block b h else h))"

fun destroy_array :: "nat \<Rightarrow> 'a mheap \<Rightarrow> 'a mheap res" where
  "destroy_array 0 h = Inr h"
| "destroy_array (Suc i) h = res_bind (read_block h i) (\<lambda>bk. destroy_array i (delete_block i h))"

text \<open>
  The result are the elements destroyed, and what is left of the queue. The first of the hash
  tables is a member of the queue, the others are freed.
\<close>

definition destroy_queue :: "'a cqueue \<Rightarrow> ('a list \<times> 'a cqueue) res" where
  "destroy_queue q = res_bind (destroy_producers (rev [0..<length (cq_producers q)]) q) (\<lambda>(xs, q1).
    res_bind (destroy_free_list (length (mh_blocks (cq_heap q1))) (mh_free (cq_heap q1)) (cq_heap q1)) (\<lambda>h1.
      res_bind (destroy_array (unat (mh_pool_size h1)) h1) (\<lambda>h2.
        Inr (xs, q1\<lparr>cq_producers := [], cq_hash := [], cq_heap := h2\<rparr>))))"

section \<open>One producer\<close>

text \<open>
  Block \<open>j\<close> of the producer still holds the elements from \<open>n\<close> on; \<open>xs\<close> are those.
\<close>

definition elements_left :: "'a mheap \<Rightarrow> nat list \<Rightarrow> nat \<Rightarrow> nat \<Rightarrow> nat \<Rightarrow> 'a list \<Rightarrow> bool" where
  "elements_left h bs B n T xs \<longleftrightarrow> length xs = T - n \<and>
    (\<forall>j. n div 32 \<le> j \<and> j < B \<longrightarrow> (\<exists>bk. block_at h (bs ! (B - Suc j)) = Some bk \<and> bk_refs bk = 0 \<and> length (bk_elements bk) = 32 \<and>
      (\<forall>i < 32. n \<le> 32 * j + i \<and> 32 * j + i < T \<longrightarrow> bk_elements bk ! i = Some (xs ! (32 * j + i - n)))))"

lemma elements_left_cong:
  assumes "elements_left h bs B n T xs" and "\<And>j. n div 32 \<le> j \<Longrightarrow> j < B \<Longrightarrow> block_at h' (bs ! (B - Suc j)) = block_at h (bs ! (B - Suc j))"
  shows "elements_left h' bs B n T xs"
  using assms unfolding elements_left_def by metis

lemma producer_elements: "producer_at h p bs B H T xs \<Longrightarrow> elements_left h bs B H T xs"
  unfolding producer_at_def blocks_hold_def block_holds_def elements_left_def by blast

text \<open>What does not change while the elements of a producer are destroyed.\<close>

definition shelf :: "producer \<Rightarrow> nat list \<Rightarrow> nat \<Rightarrow> nat \<Rightarrow> nat \<Rightarrow> bool" where
  "shelf p bs B H T \<longleftrightarrow> index_holds p B bs \<and> length bs = B - H div 32 \<and> distinct bs \<and> H \<le> T \<and> T \<le> 32 * B \<and>
    32 * B < H + 2 ^ 63 \<and> pr_tail p = of_nat T"

text \<open>The block that was looked up last, and the number of the first block that is not freed.\<close>

definition looking_at :: "nat list \<Rightarrow> nat \<Rightarrow> nat \<Rightarrow> nat \<Rightarrow> nat option \<Rightarrow> nat \<Rightarrow> bool" where
  "looking_at bs B H n block c \<longleftrightarrow> block = None \<and> n = H \<and> c = H div 32 \<or>
    H < n \<and> c = (n - 1) div 32 \<and> block = Some (bs ! (B - Suc c))"

lemma shelf_block:
  assumes sh: "shelf p bs B H T" and n: "H \<le> n" "n < T"
  shows "n div 32 < B" "B - Suc (n div 32) < length bs" "B - n div 32 = Suc (B - Suc (n div 32))"
    "\<exists>e. get_block_index_entry_for_index (of_nat n) p = Inr e \<and> ie_value (pr_entries p ! e) = Some (bs ! (B - Suc (n div 32)))"
proof -
  show lt: "n div 32 < B" using sh n by (intro less_mult_imp_div_less) (simp add: shelf_def)
  have "H div 32 \<le> n div 32" using n(1) by (rule div_le_mono)
  then show d: "B - Suc (n div 32) < length bs" using lt sh unfolding shelf_def by linarith
  show "B - n div 32 = Suc (B - Suc (n div 32))" using lt by linarith
  have e: "32 * (B - Suc (B - Suc (n div 32))) + n mod 32 = n" using lt by simp
  have "index_holds p B bs" using sh by (simp add: shelf_def)
  from lookup_spec [OF this d, of "n mod 32", unfolded e] show "\<exists>e. get_block_index_entry_for_index (of_nat n) p = Inr e \<and>
      ie_value (pr_entries p ! e) = Some (bs ! (B - Suc (n div 32)))" by auto
qed

lemma shelf_other:
  assumes sh: "shelf p bs B H T" and j: "H div 32 \<le> j" "j < k" "k < B"
  shows "bs ! (B - Suc k) \<noteq> bs ! (B - Suc j)" "bs ! (B - Suc k) \<in> set (take (B - k) bs)"
proof -
  have "B - Suc k < length bs" "B - Suc j < length bs" "B - Suc k \<noteq> B - Suc j" using sh j unfolding shelf_def by linarith+
  then show "bs ! (B - Suc k) \<noteq> bs ! (B - Suc j)" using sh by (simp add: shelf_def nth_eq_iff_index_eq)
  have "B - Suc k < B - k" using j by linarith
  then show "bs ! (B - Suc k) \<in> set (take (B - k) bs)"
    using \<open>B - Suc k < length bs\<close> by (auto simp: in_set_conv_nth intro!: exI [of _ "B - Suc k"])
qed

text \<open>The part of a round that finds the block of the element, and frees the one before.\<close>

lemma acquire_block:
  assumes sh: "shelf p bs B H T" and sep: "set bs \<inter> rest = {}" and n: "H \<le> n" "n < T" and look: "looking_at bs B H n block c"
    and heap: "heap_inv h (set (take (B - c) bs) \<union> rest)" and left: "elements_left h bs B n T xs"
  shows "\<exists>h1. (if of_nat n AND (BLOCK_SIZE - 1) = 0 \<or> block = None
        then res_bind (case block of None \<Rightarrow> Inr h | Some b \<Rightarrow> add_block_to_free_list h b) (\<lambda>h1.
          res_bind (get_block_index_entry_for_index (of_nat n) p) (\<lambda>e. Inr (ie_value (pr_entries p ! e), h1)))
        else Inr (block, h)) = Inr (Some (bs ! (B - Suc (n div 32))), h1) \<and>
      heap_inv h1 (set (take (B - n div 32) bs) \<union> rest) \<and> elements_left h1 bs B n T xs \<and> (\<forall>b \<in> rest. block_at h1 b = block_at h b)"
proof -
  note d = shelf_block [OF sh n]
  obtain e where e: "get_block_index_entry_for_index (of_nat n) p = Inr e"
    "ie_value (pr_entries p ! e) = Some (bs ! (B - Suc (n div 32)))" using d(4) by blast
  show ?thesis
  proof (cases block)
    case None
    then have "c = n div 32" using look by (auto simp: looking_at_def)
    then show ?thesis using None e heap left by simp
  next
    case (Some b)
    then have c: "H < n" "c = (n - 1) div 32" "b = bs ! (B - Suc c)" using look by (auto simp: looking_at_def)
    show ?thesis
    proof (cases "n mod 32 = 0")
      case False
      then have "c = n div 32" using c(1,2) by (cases n) (simp_all add: div_Suc)
      then show ?thesis using Some c(3) heap left False by (simp add: block_boundary)
    next
      case True
      then have n': "n div 32 = Suc c" using c(1,2) by (cases n) (simp_all add: div_Suc)
      have Hc: "H div 32 \<le> c" unfolding c(2) using c(1) by (intro div_le_mono) simp
      have cB: "c < B" "B - c = Suc (B - Suc c)" "B - Suc c < length bs"
        using d(1) n' Hc sh unfolding shelf_def by linarith+
      have split: "take (B - c) bs = take (B - Suc c) bs @ [b]" unfolding cB(2) c(3) using cB(3) by (rule take_Suc_conv_app_nth)
      have "distinct (take (B - c) bs)" using sh by (simp add: shelf_def)
      moreover have "b \<in> set bs" using cB(3) c(3) by simp
      then have "b \<notin> rest" using sep by blast
      ultimately have own: "set (take (B - c) bs) \<union> rest - {b} = set (take (B - n div 32) bs) \<union> rest"
        "b \<in> set (take (B - c) bs) \<union> rest" unfolding split n' by auto
      obtain h1 where r: "add_block_to_free_list h b = Inr h1" "heap_inv h1 (set (take (B - n div 32) bs) \<union> rest)"
        "\<forall>x \<in> set (take (B - n div 32) bs) \<union> rest. block_at h1 x = block_at h x"
        using release_spec [OF heap own(2)] unfolding own(1) by blast
      have "elements_left h1 bs B n T xs"
      proof (rule elements_left_cong [OF left])
        fix j assume j: "n div 32 \<le> j" "j < B"
        have "H div 32 \<le> c" "c < j" using Hc j n' by simp_all
        then have "bs ! (B - Suc j) \<in> set (take (B - j) bs)" using shelf_other(2) [OF sh _ _ j(2)] by blast
        moreover have "set (take (B - j) bs) \<subseteq> set (take (B - n div 32) bs)" using j(1) by (intro set_take_subset_set_take) simp
        ultimately show "block_at h1 (bs ! (B - Suc j)) = block_at h (bs ! (B - Suc j))" using r(3) by blast
      qed
      with r e Some True show ?thesis by (simp add: block_boundary)
    qed
  qed
qed

lemma destroy_one:
  assumes sh: "shelf p bs B H T" and sep: "set bs \<inter> rest = {}" and n: "H \<le> n" "n < T"
    and heap: "heap_inv h (set (take (B - n div 32) bs) \<union> rest)" and left: "elements_left h bs B n T (y # ys)"
  shows "\<exists>bk bk'. read_block h (bs ! (B - Suc (n div 32))) = Inr bk \<and> move_out bk (of_nat n) = Inr (y, bk') \<and>
    heap_inv (write_block h (bs ! (B - Suc (n div 32))) bk') (set (take (B - n div 32) bs) \<union> rest) \<and>
    elements_left (write_block h (bs ! (B - Suc (n div 32))) bk') bs B (Suc n) T ys \<and>
    (\<forall>b \<in> rest. block_at (write_block h (bs ! (B - Suc (n div 32))) bk') b = block_at h b)"
proof -
  note d = shelf_block [OF sh n]
  define j where "j = n div 32"
  define i where "i = n mod 32"
  have ij: "n = 32 * j + i" "i < 32" by (simp_all add: i_def j_def)
  obtain bk where bk: "block_at h (bs ! (B - Suc j)) = Some bk" "bk_refs bk = 0" "length (bk_elements bk) = 32"
    "\<And>i. i < 32 \<Longrightarrow> n \<le> 32 * j + i \<and> 32 * j + i < T \<Longrightarrow> bk_elements bk ! i = Some ((y # ys) ! (32 * j + i - n))"
    using left d(1) unfolding elements_left_def j_def by blast
  have y: "bk_elements bk ! i = Some y" using bk(4) [of i] ij n(2) by simp
  have slot: "element_slot (of_nat n) = i" using element_slot_of_nat [OF ij(2), of j] ij(1) by simp
  define bk' where "bk' = bk\<lparr>bk_elements := (bk_elements bk)[i := None]\<rparr>"
  define h' where "h' = write_block h (bs ! (B - Suc j)) bk'"
  have mem: "bs ! (B - Suc j) \<in> set (take (B - j) bs)"
    using d(2,3) unfolding j_def by (auto simp: in_set_conv_nth intro!: exI [of _ "B - Suc (n div 32)"])
  then have "bs ! (B - Suc j) \<in> set bs" by (rule in_set_takeD)
  then have notin: "bs ! (B - Suc j) \<notin> rest" using sep by blast
  have mem': "bs ! (B - Suc j) \<in> set (take (B - j) bs) \<union> rest" using mem by simp
  note w = write_owned [OF heap [folded j_def] mem' _ _ bk(1), of bk', folded h'_def]
  have w': "heap_inv h' (set (take (B - j) bs) \<union> rest)" "block_at h' (bs ! (B - Suc j)) = Some bk'"
    using w bk(2,3) by (simp_all add: bk'_def)
  have "elements_left h' bs B (Suc n) T ys"
    unfolding elements_left_def
  proof (intro conjI allI impI)
    have "Suc (length ys) = T - n" using left unfolding elements_left_def by simp
    then show "length ys = T - Suc n" by linarith
    fix k assume k: "Suc n div 32 \<le> k \<and> k < B"
    have nk: "n div 32 \<le> k" using k div_le_mono [of n "Suc n" 32] by linarith
    obtain b where b: "block_at h' (bs ! (B - Suc k)) = Some b" "bk_refs b = 0" "length (bk_elements b) = 32"
      "\<And>i. i < 32 \<Longrightarrow> Suc n \<le> 32 * k + i \<and> 32 * k + i < T \<Longrightarrow> bk_elements b ! i = Some ((y # ys) ! (32 * k + i - n))"
    proof (cases "k = j")
      case True
      show ?thesis
      proof (rule that [of bk'])
        fix c assume c: "c < 32" "Suc n \<le> 32 * k + c \<and> 32 * k + c < T"
        then have "c \<noteq> i" using ij True by linarith
        then show "bk_elements bk' ! c = Some ((y # ys) ! (32 * k + c - n))" using bk(4) [of c] c True by (simp add: bk'_def)
      qed (use w'(2) bk(2,3) True in \<open>simp_all add: bk'_def\<close>)
    next
      case False
      then have "j < k" using nk by (simp add: j_def)
      moreover have "H div 32 \<le> j" unfolding j_def using n(1) by (rule div_le_mono)
      ultimately have "bs ! (B - Suc k) \<noteq> bs ! (B - Suc j)" using shelf_other(1) [OF sh] k by blast
      then have "block_at h' (bs ! (B - Suc k)) = block_at h (bs ! (B - Suc k))" by (simp add: h'_def)
      moreover obtain b where "block_at h (bs ! (B - Suc k)) = Some b" "bk_refs b = 0" "length (bk_elements b) = 32"
        "\<And>i. i < 32 \<Longrightarrow> n \<le> 32 * k + i \<and> 32 * k + i < T \<Longrightarrow> bk_elements b ! i = Some ((y # ys) ! (32 * k + i - n))"
        using left nk k unfolding elements_left_def by blast
      ultimately show ?thesis by (intro that [of b]) simp_all
    qed
    moreover have "(y # ys) ! (32 * k + c - n) = ys ! (32 * k + c - Suc n)" if "Suc n \<le> 32 * k + c" for c
    proof -
      have "32 * k + c - n = Suc (32 * k + c - Suc n)" using that by linarith
      then show ?thesis by simp
    qed
    ultimately show "\<exists>bk. block_at h' (bs ! (B - Suc k)) = Some bk \<and> bk_refs bk = 0 \<and> length (bk_elements bk) = 32 \<and>
        (\<forall>i < 32. Suc n \<le> 32 * k + i \<and> 32 * k + i < T \<longrightarrow> bk_elements bk ! i = Some (ys ! (32 * k + i - Suc n)))"
      by (intro exI [of _ b]) simp
  qed
  moreover have "move_out bk (of_nat n) = Inr (y, bk')" by (simp add: move_out_def slot y bk'_def)
  moreover have "\<forall>b \<in> rest. block_at h' b = block_at h b" using notin by (auto simp: h'_def)
  ultimately show ?thesis using w'(1) bk(1) read_block_Inr unfolding h'_def j_def by blast
qed

lemma destroy_run:
  assumes sh: "shelf p bs B H T" and sep: "set bs \<inter> rest = {}"
  shows "\<lbrakk>n + k = T; H \<le> n; looking_at bs B H n block c; heap_inv h (set (take (B - c) bs) \<union> rest); elements_left h bs B n T xs\<rbrakk> \<Longrightarrow>
    \<exists>h' c' block'. destroy_elements k (of_nat n) block p h = Inr (xs, h') \<and> looking_at bs B H T block' c' \<and>
      heap_inv h' (set (take (B - c') bs) \<union> rest) \<and> (\<forall>b \<in> rest. block_at h' b = block_at h b)"
proof (induction k arbitrary: n block c h xs)
  case 0
  then have "xs = []" "destroy_elements 0 (of_nat n) block p h = Inr ([], h)"
    using sh by (simp_all add: elements_left_def shelf_def destroy_elements.simps)
  with 0 show ?case by auto
next
  case (Suc k)
  have n: "n < T" using Suc.prems(1) by linarith
  obtain y ys where xs: "xs = y # ys" using Suc.prems(5) n by (cases xs) (simp_all add: elements_left_def)
  obtain h1 where a: "(if of_nat n AND (BLOCK_SIZE - 1) = 0 \<or> block = None
        then res_bind (case block of None \<Rightarrow> Inr h | Some b \<Rightarrow> add_block_to_free_list h b) (\<lambda>h1.
          res_bind (get_block_index_entry_for_index (of_nat n) p) (\<lambda>e. Inr (ie_value (pr_entries p ! e), h1)))
        else Inr (block, h)) = Inr (Some (bs ! (B - Suc (n div 32))), h1)"
    "heap_inv h1 (set (take (B - n div 32) bs) \<union> rest)" "elements_left h1 bs B n T (y # ys)" "\<forall>b \<in> rest. block_at h1 b = block_at h b"
    using acquire_block [OF sh sep Suc.prems(2) n Suc.prems(3-5)] unfolding xs by blast
  obtain bk bk' where m: "read_block h1 (bs ! (B - Suc (n div 32))) = Inr bk" "move_out bk (of_nat n) = Inr (y, bk')"
    "heap_inv (write_block h1 (bs ! (B - Suc (n div 32))) bk') (set (take (B - n div 32) bs) \<union> rest)"
    "elements_left (write_block h1 (bs ! (B - Suc (n div 32))) bk') bs B (Suc n) T ys"
    "\<forall>b \<in> rest. block_at (write_block h1 (bs ! (B - Suc (n div 32))) bk') b = block_at h1 b"
    using destroy_one [OF sh sep Suc.prems(2) n a(2,3)] by blast
  have look: "looking_at bs B H (Suc n) (Some (bs ! (B - Suc (n div 32)))) (n div 32)" using Suc.prems(2) by (simp add: looking_at_def)
  have nk: "Suc n + k = T" "H \<le> Suc n" using Suc.prems(1,2) by simp_all
  obtain h' c' block' where r: "destroy_elements k (of_nat (Suc n)) (Some (bs ! (B - Suc (n div 32)))) p
      (write_block h1 (bs ! (B - Suc (n div 32))) bk') = Inr (ys, h')" "looking_at bs B H T block' c'"
    "heap_inv h' (set (take (B - c') bs) \<union> rest)"
    "\<forall>b \<in> rest. block_at h' b = block_at (write_block h1 (bs ! (B - Suc (n div 32))) bk') b"
    using Suc.IH [OF nk look m(3,4)] by blast
  have "T < n + 2 ^ 63" using sh Suc.prems(2) unfolding shelf_def by linarith
  then have "circular_less_than (of_nat n) (of_nat T)" using circular_less_than_of_nat [of n T] n by simp
  then have "(of_nat n :: u64) \<noteq> of_nat T" by (auto simp: circular_less_than_def)
  then have "of_nat n \<noteq> pr_tail p" using sh by (simp add: shelf_def)
  moreover have "of_nat n + 1 = (of_nat (Suc n) :: u64)" by simp
  ultimately have "destroy_elements (Suc k) (of_nat n) block p h = Inr (xs, h')"
    by (subst destroy_elements.simps) (simp only: if_False nat.case a(1) res_bind.simps prod.case option.case m(1,2) r(1) xs)
  then show ?case using r(2-4) m(5) a(4) by auto
qed

text \<open>All elements that are left are destroyed, the oldest first, and all blocks are given back.\<close>

lemma destroy_producer_spec:
  assumes heap: "heap_inv h (own \<union> rest)" and sep: "own \<inter> rest = {}" and holds: "producer_holds h p own xs"
  shows "\<exists>h'. destroy_producer p h = Inr (xs, h') \<and> heap_inv h' rest \<and> (\<forall>b \<in> rest. block_at h' b = block_at h b)"
  using holds unfolding producer_holds_def
proof (elim disjE exE conjE)
  assume "pr_header p = None" "counters_at p 0 0 0" "own = {}" "xs = []"
  then show ?thesis using heap
    by (intro exI [of _ h]) (simp add: destroy_producer_def destroy_elements.simps counters_at_def split: option.split)
next
  fix bs B H T assume at: "producer_at h p bs B H T xs" and B: "32 * B < T + 32" and own: "own = set bs"
  note heap = heap [unfolded own] and sep = sep [unfolded own]
  have p: "index_holds p B bs" "length bs = B - H div 32" "distinct bs" "H \<le> T" "T \<le> 32 * B" "32 * B < H + 2 ^ 63"
    "pr_tail p = of_nat T" "pr_head p = of_nat H" "bs \<noteq> [] \<longrightarrow> pr_tail_block p = Some (bs ! 0)"
    using at by (simp_all add: producer_at_def counters_at_def)
  have sh: "shelf p bs B H T" using p by (simp add: shelf_def)
  have look: "looking_at bs B H H None (H div 32)" by (simp add: looking_at_def)
  have heap': "heap_inv h (set (take (B - H div 32) bs) \<union> rest)" using heap p(2) by simp
  have "H + (T - H) = T" using p(4) by simp
  from destroy_run [OF sh sep this order_refl look heap' producer_elements [OF at]] obtain h1 c block where
    r: "destroy_elements (T - H) (of_nat H) None p h = Inr (xs, h1)" "looking_at bs B H T block c"
      "heap_inv h1 (set (take (B - c) bs) \<union> rest)" "\<forall>b \<in> rest. block_at h1 b = block_at h b" by blast
  have u: "unat (of_nat T - of_nat H :: u64) = T - H"
  proof -
    have "(of_nat T - of_nat H :: u64) = of_nat (T - H)" using p(4) by (simp add: of_nat_diff)
    moreover have "T - H < 2 ^ 64" using p(5,6) by simp
    ultimately show ?thesis by (simp add: unat_of_nat_u64)
  qed
  have ne: "(of_nat H :: u64) \<noteq> of_nat T \<longleftrightarrow> H \<noteq> T" using u p(4) by auto
  have run: "destroy_producer p h = res_bind (case pr_tail_block p of
      Some b \<Rightarrow> if H \<noteq> T \<or> T mod 32 \<noteq> 0 then add_block_to_free_list h1 b else Inr h1 | None \<Rightarrow> Inr h1) (\<lambda>h2. Inr (xs, h2))"
    unfolding destroy_producer_def Let_def p(7,8) u r(1) ne block_boundary res_bind.simps prod.case by (rule refl)
  show ?thesis
  proof (cases "H \<noteq> T \<or> T mod 32 \<noteq> 0")
    case True
    have "c < B \<and> B \<le> Suc c"
    proof (cases "H = T")
      case True
      then have "c = T div 32" "T mod 32 \<noteq> 0" using r(2) \<open>H \<noteq> T \<or> T mod 32 \<noteq> 0\<close> by (auto simp: looking_at_def)
      moreover from this have "T = 32 * c + T mod 32" "T mod 32 < 32" by simp_all
      ultimately show ?thesis using B p(5) by linarith
    next
      case False
      then have "c = (T - 1) div 32" "0 < T" using r(2) p(4) by (auto simp: looking_at_def)
      moreover from this have "T - 1 = 32 * c + (T - 1) mod 32" "(T - 1) mod 32 < 32" by simp_all
      ultimately show ?thesis using B p(5) by linarith
    qed
    moreover have "H div 32 \<le> c" using r(2) by (auto simp: looking_at_def intro: div_le_mono)
    ultimately have one: "B - c = Suc 0" "bs \<noteq> []" using p(2) by auto
    then have own1: "set (take (B - c) bs) = {bs ! 0}" by (cases bs) simp_all
    have mem: "bs ! 0 \<in> {bs ! 0} \<union> rest" by simp
    have "bs ! 0 \<in> set bs" using one(2) by simp
    then have "{bs ! 0} \<union> rest - {bs ! 0} = rest" using sep by blast
    then obtain h2 where "add_block_to_free_list h1 (bs ! 0) = Inr h2" "heap_inv h2 rest" "\<forall>b \<in> rest. block_at h2 b = block_at h1 b"
      using release_spec [OF r(3) [unfolded own1] mem] by auto
    then show ?thesis using run True p(9) one(2) r(4) by (intro exI [of _ h2]) simp
  next
    case False
    then have "T = 32 * (T div 32)" "H = T" by auto
    then have "B \<le> T div 32" using B by linarith
    then have "bs = []" using p(2) \<open>H = T\<close> by simp
    then show ?thesis using run False r(3,4) by (intro exI [of _ h1]) (simp split: option.split)
  qed
qed

section \<open>The queue\<close>

lemma unsubscribe_filter: "distinct (map snd ls) \<Longrightarrow> unsubscribe p ls = filter (\<lambda>l. snd l \<noteq> p) ls"
  by (induction ls) (force intro!: filter_True [symmetric])+

lemma listeners_distinct:
  assumes "threads_inv q"
  shows "distinct (map snd (cq_listeners q))"
    and "l \<in> set (cq_listeners q) \<Longrightarrow> snd l < length (cq_producers q) \<and> \<not> pr_inactive (cq_producers q ! snd l)"
proof -
  have key: "thread_key (fst l)" if "l \<in> set (cq_listeners q)" for l using assms that by (auto simp: threads_inv_def)
  have listen: "listeners_of u q = (case bound_producer q u of None \<Rightarrow> [] | Some p \<Rightarrow> [p])" if "thread_key u" for u
    using assms that by (simp add: threads_inv_def)
  have bound: "bound_producer q (fst l) = Some (snd l)" if "l \<in> set (cq_listeners q)" for l
  proof -
    have "snd l \<in> set (listeners_of (fst l) q)" using that by (auto simp: listeners_of_def)
    then show ?thesis using listen [OF key [OF that]] by (auto split: option.splits)
  qed
  then show "l \<in> set (cq_listeners q) \<Longrightarrow> snd l < length (cq_producers q) \<and> \<not> pr_inactive (cq_producers q ! snd l)"
    using assms key unfolding threads_inv_def by blast
  have one: "length (filter (\<lambda>l. fst l = fst k) (cq_listeners q)) \<le> 1" if "k \<in> set (cq_listeners q)" for k
    using listen [OF key [OF that]] by (auto simp: listeners_of_def split: option.splits dest!: arg_cong [of "map _ _" _ length])
  have same: "fst l = fst k" if "l \<in> set (cq_listeners q)" "k \<in> set (cq_listeners q)" "snd l = snd k" for l k
    using bound [OF that(1)] bound [OF that(2)] key [OF that(1)] key [OF that(2)] that(3) assms unfolding threads_inv_def by metis
  have "distinct (map snd ls)" if "\<forall>k \<in> set ls. length (filter (\<lambda>l. fst l = fst k) ls) \<le> 1"
    "\<forall>l \<in> set ls. \<forall>k \<in> set ls. snd l = snd k \<longrightarrow> fst l = fst k" for ls :: "(u64 \<times> nat) list"
    using that
  proof (induction ls)
    case Nil
    show ?case by simp
  next
    case (Cons l ls)
    have one: "length (filter (\<lambda>l. fst l = fst k) (l # ls)) \<le> 1" if "k \<in> set (l # ls)" for k
      using Cons.prems(1) that by blast
    define F where "F = filter (\<lambda>k. fst k = fst l) ls"
    have "length (l # F) \<le> 1" unfolding F_def using one [of l, OF list.set_intros(1)] by (simp only: filter.simps refl if_True)
    then have "F = []" by (cases F) simp_all
    then have "\<forall>k \<in> set ls. fst k \<noteq> fst l" unfolding F_def filter_empty_conv .
    moreover have "fst k = fst l" if "k \<in> set ls" "snd k = snd l" for k 
      using Cons.prems(2) that by (meson list.set_intros)
    ultimately have "snd l \<notin> snd ` set ls" by fastforce
    moreover have "\<forall>k \<in> set ls. length (filter (\<lambda>l. fst l = fst k) ls) \<le> 1"
    proof
      fix k assume "k \<in> set ls"
      then show "length (filter (\<lambda>l. fst l = fst k) ls) \<le> 1" using one [of k] by (simp split: if_splits)
    qed
    then have "distinct (map snd ls)" by (rule Cons.IH) (meson Cons.prems(2) list.set_intros(2))
    ultimately show ?case by simp
  qed
  then show "distinct (map snd (cq_listeners q))" using one same by blast
qed

text \<open>The listeners that stay when some producers are destroyed.\<close>

definition still_listening :: "producer list \<Rightarrow> nat set \<Rightarrow> (u64 \<times> nat) list \<Rightarrow> (u64 \<times> nat) list" where
  "still_listening ps is ls = filter (\<lambda>l. \<not> (snd l \<in> is \<and> \<not> pr_inactive (ps ! snd l))) ls"

lemma destroy_producers_spec:
  assumes "heap_inv (cq_heap q) (\<Union>i \<in> set ks. own i)" and "distinct ks"
    and "\<And>i. i \<in> set ks \<Longrightarrow> producer_holds (cq_heap q) (cq_producers q ! i) (own i) (sts ! i)"
    and "\<And>i j. i \<in> set ks \<Longrightarrow> j \<in> set ks \<Longrightarrow> i \<noteq> j \<Longrightarrow> own i \<inter> own j = {}" and "distinct (map snd (cq_listeners q))"
  shows "\<exists>q'. destroy_producers ks q = Inr (concat (map ((!) sts) ks), q') \<and> heap_inv (cq_heap q') {} \<and>
    cq_producers q' = cq_producers q \<and> cq_listeners q' = still_listening (cq_producers q) (set ks) (cq_listeners q)"
  using assms
proof (induction "ks" arbitrary: q)
  case Nil
  then show ?case by (simp add: still_listening_def)
next
  case (Cons i js)
  define rest where "rest = (\<Union>j \<in> set js. own j)"
  define q1 where "q1 = (if pr_inactive (cq_producers q ! i) then q else q\<lparr>cq_listeners := unsubscribe i (cq_listeners q)\<rparr>)"
  have q1: "cq_heap q1 = cq_heap q" "cq_producers q1 = cq_producers q"
    "cq_listeners q1 = still_listening (cq_producers q) {i} (cq_listeners q)"
    using unsubscribe_filter [OF Cons.prems(5), of i]
    by (auto simp: q1_def still_listening_def intro!: filter_cong filter_True [symmetric])
  have heap: "heap_inv (cq_heap q) (own i \<union> rest)" using Cons.prems(1) by (simp add: rest_def)
  have sep: "own i \<inter> rest = {}" using Cons.prems(2,4) by (fastforce simp: rest_def)
  obtain h where h: "destroy_producer (cq_producers q ! i) (cq_heap q) = Inr (sts ! i, h)" "heap_inv h rest"
    "\<forall>b \<in> rest. block_at h b = block_at (cq_heap q) b"
    using destroy_producer_spec [OF heap sep, of "cq_producers q ! i" "sts ! i"] Cons.prems(3) by auto
  let ?q = "q1\<lparr>cq_heap := h\<rparr>"
  have "producer_holds h (cq_producers q ! j) (own j) (sts ! j)" if "j \<in> set js" for j
    using h(3) that Cons.prems(3) by (intro producer_holds_cong [of "own j" h "cq_heap q"]) (auto simp: rest_def)
  moreover have "distinct (map snd (cq_listeners ?q))"
    using Cons.prems(5) by (simp add: q1(3) still_listening_def distinct_map_filter)
  ultimately obtain q' where r: "destroy_producers js ?q = Inr (concat (map ((!) sts) js), q')" "heap_inv (cq_heap q') {}"
    "cq_producers q' = cq_producers q" "cq_listeners q' = still_listening (cq_producers q) (set js) (cq_listeners q1)"
    using Cons.IH [of ?q] Cons.prems(2,4) h(2) q1(2) unfolding rest_def by auto
  have "destroy_producers (i # js) q = Inr (concat (map ((!) sts) (i # js)), q')"
    using h(1) r(1) q1(1) by (simp add: Let_def q1_def [symmetric])
  moreover have "cq_listeners q' = still_listening (cq_producers q) (set (i # js)) (cq_listeners q)"
    unfolding r(4) q1(3) by (auto simp: still_listening_def intro!: filter_cong)
  ultimately show ?case using r(2,3) by blast
qed

lemma destroy_free_list_spec:
  "free_chain h p fl \<Longrightarrow> length fl \<le> n \<Longrightarrow> destroy_free_list n p h = Inr h"
proof (induction fl arbitrary: n p)
  case Nil
  then show ?case by simp
next
  case (Cons b fl)
  then show ?case by (cases n) (auto simp: read_block_Inr)
qed

lemma destroy_array_spec:
  "{..<n} \<subseteq> live_blocks h \<Longrightarrow> \<exists>h'. destroy_array n h = Inr h' \<and> live_blocks h' = live_blocks h - {..<n}"
proof (induction n arbitrary: h)
  case (Suc n)
  then have "n \<in> live_blocks h" by auto
  then obtain bk where bk: "block_at h n = Some bk" by (auto simp: live_blocks_def)
  then have l: "live_blocks (delete_block n h) = live_blocks h - {n}"
    by (auto simp: live_blocks_def delete_block_def block_at_def nth_list_update split: if_splits)
  then have "{..<n} \<subseteq> live_blocks (delete_block n h)" using Suc.prems by auto
  from Suc.IH [OF this] show ?case using bk l by (auto simp: read_block_Inr lessThan_Suc)
qed simp

text \<open>What is left of a queue in a consistent state: no element, no block, no listener.\<close>

lemma destroy_queue_spec:
  assumes "moody_inv q"
  shows "\<exists>q'. destroy_queue q = Inr (concat (rev (streams q)), q') \<and> live_blocks (cq_heap q') = {} \<and> cq_listeners q' = []"
proof -
  obtain own where hold: "streams_hold q (streams q) own" and th: "threads_inv q" using assms by (auto simp: moody_inv_def)
  let ?is = "rev [0..<length (cq_producers q)]"
  have len: "length (streams q) = length (cq_producers q)" by (simp add: streams_def)
  have set_is: "set ?is = {..<length (streams q)}" by (auto simp: len)
  have "heap_inv (cq_heap q) (\<Union>i \<in> set ?is. own i)" using hold unfolding set_is streams_hold_def by blast
  then obtain q1 where q1: "destroy_producers ?is q = Inr (concat (map ((!) (streams q)) ?is), q1)" "heap_inv (cq_heap q1) {}"
    "cq_listeners q1 = still_listening (cq_producers q) (set ?is) (cq_listeners q)"
    using destroy_producers_spec [where q = q and ks = ?is and own = own and sts = "streams q"] hold listeners_distinct(1) [OF th]
    unfolding streams_hold_def set_is by auto
  have "map ((!) (streams q)) ?is = rev (streams q)" unfolding rev_map [symmetric] len [symmetric] map_nth by (rule refl)
  with q1(1) have run: "destroy_producers ?is q = Inr (concat (rev (streams q)), q1)" by (simp only:)
  have none: "cq_listeners q1 = []"
    using listeners_distinct(2) [OF th] unfolding q1(3) still_listening_def set_is len by (simp add: filter_empty_conv)
  let ?h = "cq_heap q1"
  obtain fl where i: "free_chain ?h (mh_free ?h) fl" "distinct fl" "pool_shape ?h" "live_blocks ?h \<subseteq> set fl \<union> unused_blocks ?h"
    using q1(2) by (rule heap_invE) (rule that, simp_all)
  have chain: "\<exists>bk. block_at h b = Some bk \<and> \<not> bk_dynamic bk" if "free_chain h p fl" "b \<in> set fl" for h :: "'a mheap" and p fl b
    using that by (induction fl arbitrary: p) auto
  have "length fl \<le> length (mh_blocks ?h)"
  proof -
    have "set fl \<subseteq> {..<length (mh_blocks ?h)}" using chain [OF i(1)] block_at_bound by blast
    then have "card (set fl) \<le> card {..<length (mh_blocks ?h)}" by (rule card_mono [OF finite_lessThan])
    then show ?thesis using i(2) by (simp add: distinct_card)
  qed
  from destroy_free_list_spec [OF i(1) this] have fl: "destroy_free_list (length (mh_blocks ?h)) (mh_free ?h) ?h = Inr ?h" .
  have "{..<unat (mh_pool_size ?h)} \<subseteq> live_blocks ?h" using i(3) by (simp add: pool_shape_def)
  from destroy_array_spec [OF this] obtain h2 where h2: "destroy_array (unat (mh_pool_size ?h)) ?h = Inr h2"
    "live_blocks h2 = live_blocks ?h - {..<unat (mh_pool_size ?h)}" by blast
  have "b < unat (mh_pool_size ?h)" if "b \<in> live_blocks ?h" for b
  proof (cases "b \<in> set fl")
    case True
    then show ?thesis using chain [OF i(1)] i(3) by (force simp: pool_shape_def)
  next
    case False
    then show ?thesis using that i(4) by (auto simp: unused_blocks_def)
  qed
  then have "live_blocks h2 = {}" using h2(2) by auto
  then show ?thesis using none by (simp add: destroy_queue_def run fl h2(1))
qed

section \<open>Properties\<close>

text \<open>
  C7: The life of a \<^verbatim>\<open>ConcurrentQueue\<close>: any sequence of calls by any threads on a new queue, and
  then its destructor. Everything returns and every access is to memory that is there. Each
  accepted element is handed out or destroyed exactly once; every block that was allocated is
  freed, none twice; and no listener remains that the exit of a thread would call.
\<close>

theorem moody_lifetime:
  assumes "threads_ok addr (\<lambda>_. None) {} cs"
  shows "\<exists>ins outs q left q'. moody_calls addr cs (concurrent_queue ok capacity) = Inr (ins, outs, q) \<and>
    destroy_queue q = Inr (left, q') \<and> mset ins = mset outs + mset left \<and>
    live_blocks (cq_heap q') = {} \<and> cq_listeners q' = []"
proof -
  obtain ins outs q where c: "moody_calls addr cs (concurrent_queue ok capacity) = Inr (ins, outs, q)" "moody_inv q"
    "mset ins = mset outs + mset (concat (streams q))" using calls_balanced [OF assms] by blast
  obtain q' where d: "destroy_queue q = Inr (concat (rev (streams q)), q')" "live_blocks (cq_heap q') = {}" "cq_listeners q' = []"
    using destroy_queue_spec [OF c(2)] by blast
  have "mset (concat (rev xss)) = mset (concat xss)" for xss :: "('a \<times> 'b) list list" by (induction xss) simp_all
  then show ?thesis using c(1,3) d by auto
qed

definition life_calls :: "(nat, nat) moody_call list" where
  "life_calls = [Enq all_memory 0 10, Enq all_memory 1 20, Enq all_memory 0 11, Deq, Exit 0]"

lemma life_threads: "threads_ok sample_addr (\<lambda>_. None) {} life_calls"
  by (simp add: life_calls_def sample_addr_def thread_key_def invalid_thread_id_def invalid_thread_id2_def)

lemma life_left:
  "(case moody_calls sample_addr life_calls (concurrent_queue True 32) of Inl e \<Rightarrow> 0 | Inr (ins, outs, q) \<Rightarrow>
    (case destroy_queue q of Inl e \<Rightarrow> 0 | Inr (left, q') \<Rightarrow> length left)) = 2"
  by code_simp

lemma moody_lifetime_witness:
  "\<exists>ins outs q left q'. moody_calls sample_addr life_calls (concurrent_queue True 32) = Inr (ins, outs, q) \<and>
    destroy_queue q = Inr (left, q') \<and> length left = 2 \<and> mset ins = mset outs + mset left \<and> live_blocks (cq_heap q') = {}"
proof -
  obtain ins outs q left q' where m: "moody_calls sample_addr life_calls (concurrent_queue True 32) = Inr (ins, outs, q)"
    "destroy_queue q = Inr (left, q')" "mset ins = mset outs + mset left" "live_blocks (cq_heap q') = {}"
    using moody_lifetime [OF life_threads, where ok = True and capacity = 32] by blast
  then have "length left = 2" using life_left by simp
  with m show ?thesis by blast
qed

end
