(* ===== verification/MoodyCounters.thy ===== *)
theory MoodyCounters
  imports MoodyProducer Interleaving
begin

text \<open>
  The four counters of \<^verbatim>\<open>ImplicitProducer\<close> (moodycamel/concurrentqueue.h) when its thread enqueues
  while any number of threads dequeue, interleaved at their accesses to the counters in a single
  total order. A consumer takes a ticket from \<open>dequeueOptimisticCount\<close> first, and returns it through
  \<open>dequeueOvercommit\<close> if it was too late; only then it takes an index from \<open>headIndex\<close>. Where the
  element of an index is stored is the subject of MoodyIndex and MoodyProducer; here the elements
  are a list, and reading the element of an index is one step.
\<close>

section \<open>Step machine\<close>

text \<open>
  Where a consumer is in \<open>dequeue\<close>: it has loaded the tail; the overcommit, too; it has passed the
  first test; it has its ticket; it has passed the second test; or failed it; it has its index.
\<close>

datatype dq_pc = DQ_Idle | DQ_Tail u64 | DQ_Over u64 u64 | DQ_Wants u64 | DQ_Ticket u64 u64
  | DQ_Mine | DQ_Late | DQ_Index u64

text \<open>
  \<open>dq_elems\<close> are the elements enqueued, that of index \<open>n\<close> at position \<open>n\<close>, \<open>dq_outs\<close> the element
  that was returned for an index. For the proofs only, \<open>dq_won\<close> and \<open>dq_lost\<close> are the tickets that
  passed and failed the second test.
\<close>

record 'a dq_sys =
  dq_producer :: producer
  dq_pc :: "nat \<Rightarrow> dq_pc"
  dq_elems :: "'a list"
  dq_outs :: "nat \<rightharpoonup> 'a"
  dq_won :: "nat set"
  dq_lost :: "nat set"

definition dq_start :: "producer \<Rightarrow> 'a dq_sys" where
  "dq_start p = \<lparr>dq_producer = p, dq_pc = (\<lambda>_. DQ_Idle), dq_elems = [], dq_outs = Map.empty, dq_won = {}, dq_lost = {}\<rparr>"

definition dq_goto :: "nat \<Rightarrow> dq_pc \<Rightarrow> 'a dq_sys \<Rightarrow> 'a dq_sys" where
  "dq_goto i pc s = s\<lparr>dq_pc := (dq_pc s)(i := pc)\<rparr>"

text \<open>The first rule is the store to \<open>tailIndex\<close> with which \<open>enqueue\<close> publishes its element.\<close>

inductive dq_step :: "'a dq_sys \<Rightarrow> 'a dq_sys \<Rightarrow> bool" where
  dq_publish: "p = dq_producer s \<Longrightarrow> dq_step s (s\<lparr>dq_producer := p\<lparr>pr_tail := pr_tail p + 1\<rparr>, dq_elems := dq_elems s @ [x]\<rparr>)"
| dq_load_tail: "dq_pc s i = DQ_Idle \<Longrightarrow> dq_step s (dq_goto i (DQ_Tail (pr_tail (dq_producer s))) s)"
| dq_load_over: "dq_pc s i = DQ_Tail tail \<Longrightarrow> dq_step s (dq_goto i (DQ_Over tail (pr_overcommit (dq_producer s))) s)"
| dq_some: "dq_pc s i = DQ_Over tail overcommit \<Longrightarrow>
    circular_less_than (pr_optimistic (dq_producer s) - overcommit) tail \<Longrightarrow> dq_step s (dq_goto i (DQ_Wants overcommit) s)"
| dq_none: "dq_pc s i = DQ_Over tail overcommit \<Longrightarrow>
    \<not> circular_less_than (pr_optimistic (dq_producer s) - overcommit) tail \<Longrightarrow> dq_step s (dq_goto i DQ_Idle s)"
| dq_ticket: "dq_pc s i = DQ_Wants overcommit \<Longrightarrow> p = dq_producer s \<Longrightarrow>
    dq_step s (dq_goto i (DQ_Ticket overcommit (pr_optimistic p)) (s\<lparr>dq_producer := p\<lparr>pr_optimistic := pr_optimistic p + 1\<rparr>\<rparr>))"
| dq_in_time: "dq_pc s i = DQ_Ticket overcommit myDequeueCount \<Longrightarrow>
    circular_less_than (myDequeueCount - overcommit) (pr_tail (dq_producer s)) \<Longrightarrow>
    dq_step s (dq_goto i DQ_Mine (s\<lparr>dq_won := insert (unat myDequeueCount) (dq_won s)\<rparr>))"
| dq_too_late: "dq_pc s i = DQ_Ticket overcommit myDequeueCount \<Longrightarrow>
    \<not> circular_less_than (myDequeueCount - overcommit) (pr_tail (dq_producer s)) \<Longrightarrow>
    dq_step s (dq_goto i DQ_Late (s\<lparr>dq_lost := insert (unat myDequeueCount) (dq_lost s)\<rparr>))"
| dq_claim: "dq_pc s i = DQ_Mine \<Longrightarrow> p = dq_producer s \<Longrightarrow>
    dq_step s (dq_goto i (DQ_Index (pr_head p)) (s\<lparr>dq_producer := p\<lparr>pr_head := pr_head p + 1\<rparr>\<rparr>))"
| dq_give_back: "dq_pc s i = DQ_Late \<Longrightarrow> p = dq_producer s \<Longrightarrow>
    dq_step s (dq_goto i DQ_Idle (s\<lparr>dq_producer := p\<lparr>pr_overcommit := pr_overcommit p + 1\<rparr>\<rparr>))"
| dq_take: "dq_pc s i = DQ_Index index \<Longrightarrow> unat index < length (dq_elems s) \<Longrightarrow>
    dq_step s (dq_goto i DQ_Idle (s\<lparr>dq_outs := (dq_outs s)(unat index \<mapsto> dq_elems s ! unat index)\<rparr>))"

text \<open>A consumer whose element is not there: not yet published, or already taken.\<close>

definition dq_faulty :: "'a dq_sys \<Rightarrow> nat \<Rightarrow> bool" where
  "dq_faulty s i \<longleftrightarrow> (case dq_pc s i of
      DQ_Index index \<Rightarrow> length (dq_elems s) \<le> unat index \<or> unat index \<in> dom (dq_outs s)
    | _ \<Rightarrow> False)"

section \<open>Invariant\<close>

text \<open>As long as less than \<open>2 ^ 63\<close> tickets were taken and elements enqueued, no counter wraps.\<close>

definition dq_small :: "'a dq_sys \<Rightarrow> bool" where
  "dq_small s \<longleftrightarrow> unat (pr_optimistic (dq_producer s)) < 2 ^ 63 \<and> unat (pr_tail (dq_producer s)) < 2 ^ 63"

fun ticket_of :: "dq_pc \<Rightarrow> nat option" where
  "ticket_of (DQ_Ticket c m) = Some (unat m)"
| "ticket_of _ = None"

fun index_of :: "dq_pc \<Rightarrow> nat option" where
  "index_of (DQ_Index n) = Some (unat n)"
| "index_of _ = None"

abbreviation opt_of :: "'a dq_sys \<Rightarrow> nat" where "opt_of s \<equiv> unat (pr_optimistic (dq_producer s))"
abbreviation over_of :: "'a dq_sys \<Rightarrow> nat" where "over_of s \<equiv> unat (pr_overcommit (dq_producer s))"
abbreviation head_of :: "'a dq_sys \<Rightarrow> nat" where "head_of s \<equiv> unat (pr_head (dq_producer s))"
abbreviation tail_of :: "'a dq_sys \<Rightarrow> nat" where "tail_of s \<equiv> unat (pr_tail (dq_producer s))"

text \<open>Every ticket is with one thread, or has passed or failed the second test.\<close>

definition dq_tickets :: "'a dq_sys \<Rightarrow> bool" where
  "dq_tickets s \<longleftrightarrow> exclusive ticket_of (dq_pc s) \<and> dq_won s \<inter> dq_lost s = {} \<and>
    values_of ticket_of (dq_pc s) \<inter> (dq_won s \<union> dq_lost s) = {} \<and>
    values_of ticket_of (dq_pc s) \<union> dq_won s \<union> dq_lost s = {..<opt_of s}"

text \<open>Those that passed become indices, those that failed are counted in \<open>dequeueOvercommit\<close>.\<close>

definition dq_counts :: "'a dq_sys \<Rightarrow> bool" where
  "dq_counts s \<longleftrightarrow> finite (threads_at ((=) DQ_Mine) (dq_pc s)) \<and> finite (threads_at ((=) DQ_Late) (dq_pc s)) \<and>
    head_of s + card (threads_at ((=) DQ_Mine) (dq_pc s)) = card (dq_won s) \<and>
    over_of s + card (threads_at ((=) DQ_Late) (dq_pc s)) = card (dq_lost s) \<and> tail_of s = length (dq_elems s)"

text \<open>
  An overcommit that a thread has loaded counts tickets that failed before the thread takes its
  own; so a ticket that passes comes after at most as many others that pass as there are elements.
\<close>

fun pc_knows :: "nat \<Rightarrow> nat set \<Rightarrow> dq_pc \<Rightarrow> bool" where
  "pc_knows overcommit lost (DQ_Over t c) \<longleftrightarrow> unat c \<le> overcommit"
| "pc_knows overcommit lost (DQ_Wants c) \<longleftrightarrow> unat c \<le> overcommit"
| "pc_knows overcommit lost (DQ_Ticket c m) \<longleftrightarrow> unat c \<le> card {f \<in> lost. f < unat m}"
| "pc_knows overcommit lost _ \<longleftrightarrow> True"

definition dq_known :: "'a dq_sys \<Rightarrow> bool" where
  "dq_known s \<longleftrightarrow> (\<forall>i. pc_knows (over_of s) (dq_lost s) (dq_pc s i)) \<and>
    (\<forall>m \<in> dq_won s. m < tail_of s + card {f \<in> dq_lost s. f < m})"

definition dq_taken :: "'a dq_sys \<Rightarrow> bool" where
  "dq_taken s \<longleftrightarrow> exclusive index_of (dq_pc s) \<and> values_of index_of (dq_pc s) \<inter> dom (dq_outs s) = {} \<and>
    values_of index_of (dq_pc s) \<union> dom (dq_outs s) = {..<head_of s} \<and>
    (\<forall>n x. dq_outs s n = Some x \<longrightarrow> n < length (dq_elems s) \<and> x = dq_elems s ! n)"

definition dq_inv :: "'a dq_sys \<Rightarrow> bool" where
  "dq_inv s \<longleftrightarrow> dq_tickets s \<and> dq_counts s \<and> dq_known s \<and> dq_taken s"

lemma circular_less_than_small:
  assumes "unat a < 2 ^ 63" and "unat b < 2 ^ 63"
  shows "circular_less_than a b \<longleftrightarrow> unat a < unat b"
proof (cases "unat a \<le> unat b")
  case True
  moreover have "unat b < unat a + 2 ^ 63" "unat b < unat a + 2 ^ 64" using assms by simp_all
  ultimately show ?thesis using circular_less_than_of_nat [of "unat a" "unat b"] by simp
next
  case False
  then have "unat (a - b) = unat a - unat b" by (simp add: unat_sub_if_size)
  then have "unat (a - b) < 2 ^ 63" using assms by simp
  then show ?thesis using False by (simp add: circular_less_than_def word_less_nat_alt push_bit_eq_mult)
qed

lemma unat_inc: "unat x < 2 ^ 63 \<Longrightarrow> unat (x + 1) = Suc (unat x)" for x :: u64
  by (simp add: unat_word_ariths)

text \<open>There are at most as many tickets that passed as elements.\<close>

lemma won_bound:
  assumes "dq_tickets s" and "dq_known s"
  shows "card (dq_won s) \<le> tail_of s" and "finite (dq_won s)" and "finite (dq_lost s)" and "card (dq_lost s) \<le> opt_of s"
proof -
  have sub: "dq_won s \<subseteq> {..<opt_of s}" "dq_lost s \<subseteq> {..<opt_of s}" using assms(1) by (auto simp: dq_tickets_def)
  then show fin: "finite (dq_won s)" "finite (dq_lost s)" by (auto intro: finite_subset)
  show "card (dq_lost s) \<le> opt_of s" using card_mono [OF _ sub(2)] by simp
  show "card (dq_won s) \<le> tail_of s"
  proof (cases "dq_won s = {}")
    case False
    define M where "M = Max (dq_won s)"
    let ?L = "{f \<in> dq_lost s. f < M}"
    have M: "M \<in> dq_won s" "\<And>m. m \<in> dq_won s \<Longrightarrow> m \<le> M" using fin(1) False by (simp_all add: M_def)
    have "dq_won s \<union> ?L \<subseteq> {..M}" using M(2) by auto
    then have "card (dq_won s \<union> ?L) \<le> Suc M" using card_mono [of "{..M}"] by fastforce
    moreover have "card (dq_won s \<union> ?L) = card (dq_won s) + card ?L"
      using fin assms(1) by (intro card_Un_disjoint) (auto simp: dq_tickets_def)
    moreover have "M < tail_of s + card ?L" using assms(2) M(1) by (auto simp: dq_known_def)
    ultimately show ?thesis by linarith
  qed simp
qed

subsection \<open>Every step keeps the invariant\<close>

lemma dq_keep_move:
  assumes "dq_inv s" and "ticket_of (dq_pc s i) = None" "index_of (dq_pc s i) = None" "dq_pc s i \<notin> {DQ_Mine, DQ_Late}"
    and "ticket_of pc = None" "index_of pc = None" "pc \<notin> {DQ_Mine, DQ_Late}"
    and "pc_knows (over_of s) (dq_lost s) pc"
  shows "dq_inv (dq_goto i pc s)"
proof -
  have "(DQ_Mine = pc) = (DQ_Mine = dq_pc s i)" "(DQ_Late = pc) = (DQ_Late = dq_pc s i)" using assms(4,7) by auto
  then have same: "values_of ticket_of ((dq_pc s)(i := pc)) = values_of ticket_of (dq_pc s)"
    "values_of index_of ((dq_pc s)(i := pc)) = values_of index_of (dq_pc s)"
    "threads_at ((=) DQ_Mine) ((dq_pc s)(i := pc)) = threads_at ((=) DQ_Mine) (dq_pc s)"
    "threads_at ((=) DQ_Late) ((dq_pc s)(i := pc)) = threads_at ((=) DQ_Late) (dq_pc s)"
    using assms(2,3,5,6) by (simp_all add: values_same threads_same)
  have "exclusive ticket_of ((dq_pc s)(i := pc))" "exclusive index_of ((dq_pc s)(i := pc))"
    using assms(1,5,6) by (auto simp: dq_inv_def dq_tickets_def dq_taken_def intro: exclusive_leave)
  then have "dq_tickets (dq_goto i pc s)" "dq_taken (dq_goto i pc s)"
    using assms(1) by (simp_all add: dq_inv_def dq_tickets_def dq_taken_def dq_goto_def same)
  moreover have "dq_counts (dq_goto i pc s)" using assms(1) by (simp add: dq_inv_def dq_counts_def dq_goto_def same)
  moreover have "dq_known (dq_goto i pc s)" using assms(1,8) by (simp add: dq_inv_def dq_known_def dq_goto_def)
  ultimately show ?thesis by (simp add: dq_inv_def)
qed

lemma dq_keep_publish:
  assumes "dq_inv s" and "dq_small s"
  shows "dq_inv (s\<lparr>dq_producer := (dq_producer s)\<lparr>pr_tail := pr_tail (dq_producer s) + 1\<rparr>, dq_elems := dq_elems s @ [x]\<rparr>)"
proof -
  have "unat (pr_tail (dq_producer s) + 1) = Suc (tail_of s)" using assms(2) by (intro unat_inc) (simp add: dq_small_def)
  then show ?thesis using assms(1)
    by (fastforce simp: dq_inv_def dq_tickets_def dq_counts_def dq_known_def dq_taken_def nth_append intro: less_SucI)
qed

lemma dq_keep_ticket:
  assumes inv: "dq_inv s" and small: "dq_small s" and pc: "dq_pc s i = DQ_Wants c"
  shows "dq_inv (dq_goto i (DQ_Ticket c (pr_optimistic (dq_producer s)))
    (s\<lparr>dq_producer := (dq_producer s)\<lparr>pr_optimistic := pr_optimistic (dq_producer s) + 1\<rparr>\<rparr>))" (is "dq_inv ?t")
proof -
  let ?pc = "DQ_Ticket c (pr_optimistic (dq_producer s))"
  have suc: "unat (pr_optimistic (dq_producer s) + 1) = Suc (opt_of s)" using small by (intro unat_inc) (simp add: dq_small_def)
  have t: "dq_tickets s" and k: "dq_known s" and n: "dq_counts s" and u: "dq_taken s" using inv by (simp_all add: dq_inv_def)
  have val: "values_of ticket_of ((dq_pc s)(i := ?pc)) = insert (opt_of s) (values_of ticket_of (dq_pc s))"
    by (rule values_enter) (simp_all add: pc)
  have new: "opt_of s \<notin> values_of ticket_of (dq_pc s)" using t by (auto simp: dq_tickets_def)
  have "exclusive ticket_of ((dq_pc s)(i := ?pc))"
    by (rule exclusive_enter [where v = "opt_of s"]) (use t new in \<open>simp_all add: dq_tickets_def\<close>)
  then have "dq_tickets ?t" using t unfolding dq_tickets_def by (auto simp: dq_goto_def val suc lessThan_Suc)
  moreover have "{f \<in> dq_lost s. f < opt_of s} = dq_lost s" using t by (auto simp: dq_tickets_def)
  then have "unat c \<le> card {f \<in> dq_lost s. f < opt_of s}"
    using k [unfolded dq_known_def, THEN conjunct1, THEN spec, of i] n unfolding pc by (simp add: dq_counts_def)
  then have "dq_known ?t" using k by (simp add: dq_known_def dq_goto_def)
  moreover have "threads_at ((=) DQ_Mine) ((dq_pc s)(i := ?pc)) = threads_at ((=) DQ_Mine) (dq_pc s)"
    "threads_at ((=) DQ_Late) ((dq_pc s)(i := ?pc)) = threads_at ((=) DQ_Late) (dq_pc s)"
    by (rule threads_same, simp add: pc)+
  then have "dq_counts ?t" using n by (simp add: dq_counts_def dq_goto_def)
  moreover have "values_of index_of ((dq_pc s)(i := ?pc)) = values_of index_of (dq_pc s)" by (rule values_same) (simp add: pc)
  then have "dq_taken ?t" using u exclusive_leave [of index_of "dq_pc s" ?pc i] by (simp add: dq_taken_def dq_goto_def)
  ultimately show ?thesis by (simp add: dq_inv_def)
qed

lemma dq_keep_in_time:
  assumes inv: "dq_inv s" and small: "dq_small s" and pc: "dq_pc s i = DQ_Ticket c m"
    and less: "circular_less_than (m - c) (pr_tail (dq_producer s))"
  shows "dq_inv (dq_goto i DQ_Mine (s\<lparr>dq_won := insert (unat m) (dq_won s)\<rparr>))" (is "dq_inv ?t")
proof -
  have t: "dq_tickets s" and k: "dq_known s" and n: "dq_counts s" and u: "dq_taken s" using inv by (simp_all add: dq_inv_def)
  note w = won_bound [OF t k]
  have tick: "ticket_of (dq_pc s i) = Some (unat m)" by (simp add: pc)
  then have mem: "unat m \<in> values_of ticket_of (dq_pc s)" by blast
  then have m: "unat m \<notin> dq_won s" "unat m \<notin> dq_lost s" "unat m < opt_of s" using t by (auto simp: dq_tickets_def)
  have val: "values_of ticket_of ((dq_pc s)(i := DQ_Mine)) = values_of ticket_of (dq_pc s) - {unat m}"
    using t tick by (intro values_leave) (simp_all add: dq_tickets_def)
  have "exclusive ticket_of ((dq_pc s)(i := DQ_Mine))" using t by (intro exclusive_leave) (simp_all add: dq_tickets_def)
  then have "dq_tickets ?t" using t mem m unfolding dq_tickets_def by (auto simp: dq_goto_def val)
  moreover have c: "unat c \<le> card {f \<in> dq_lost s. f < unat m}"
    using k [unfolded dq_known_def, THEN conjunct1, THEN spec, of i] by (simp add: pc)
  have "card {f \<in> dq_lost s. f < unat m} \<le> unat m" using card_mono [of "{..<unat m}" "{f \<in> dq_lost s. f < unat m}"] by auto
  with c have mc: "unat (m - c) = unat m - unat c" "unat c \<le> unat m" by (simp_all add: unat_sub_if_size)
  moreover have "unat m - unat c < 2 ^ 63" "tail_of s < 2 ^ 63" using m(3) small unfolding dq_small_def by linarith+
  ultimately have "unat m - unat c < tail_of s" using less circular_less_than_small [of "m - c"] by simp
  then have "unat m < tail_of s + card {f \<in> dq_lost s. f < unat m}" using c mc(2) by linarith
  then have "dq_known ?t" using k by (auto simp: dq_known_def dq_goto_def)
  moreover have "card (threads_at ((=) DQ_Mine) ((dq_pc s)(i := DQ_Mine))) = Suc (card (threads_at ((=) DQ_Mine) (dq_pc s)))"
    using n by (intro threads_enter) (simp_all add: dq_counts_def pc)
  moreover have "threads_at ((=) DQ_Late) ((dq_pc s)(i := DQ_Mine)) = threads_at ((=) DQ_Late) (dq_pc s)"
    by (rule threads_same) (simp add: pc)
  ultimately have "dq_counts ?t" using n m(1) w(2) by (simp add: dq_counts_def dq_goto_def threads_finite)
  moreover have "values_of index_of ((dq_pc s)(i := DQ_Mine)) = values_of index_of (dq_pc s)" by (rule values_same) (simp add: pc)
  then have "dq_taken ?t" using u exclusive_leave [of index_of "dq_pc s" DQ_Mine i] by (simp add: dq_taken_def dq_goto_def)
  ultimately show ?thesis using \<open>dq_tickets ?t\<close> \<open>dq_known ?t\<close> by (simp add: dq_inv_def)
qed

lemma dq_keep_too_late:
  assumes inv: "dq_inv s" and pc: "dq_pc s i = DQ_Ticket c m"
  shows "dq_inv (dq_goto i DQ_Late (s\<lparr>dq_lost := insert (unat m) (dq_lost s)\<rparr>))" (is "dq_inv ?t")
proof -
  have t: "dq_tickets s" and k: "dq_known s" and n: "dq_counts s" and u: "dq_taken s" using inv by (simp_all add: dq_inv_def)
  note w = won_bound [OF t k]
  have tick: "ticket_of (dq_pc s i) = Some (unat m)" by (simp add: pc)
  then have mem: "unat m \<in> values_of ticket_of (dq_pc s)" by blast
  then have m: "unat m \<notin> dq_won s" "unat m \<notin> dq_lost s" using t by (auto simp: dq_tickets_def)
  have val: "values_of ticket_of ((dq_pc s)(i := DQ_Late)) = values_of ticket_of (dq_pc s) - {unat m}"
    using t tick by (intro values_leave) (simp_all add: dq_tickets_def)
  have "exclusive ticket_of ((dq_pc s)(i := DQ_Late))" using t by (intro exclusive_leave) (simp_all add: dq_tickets_def)
  then have "dq_tickets ?t" using t mem m unfolding dq_tickets_def by (auto simp: dq_goto_def val)
  moreover have more: "card {f \<in> dq_lost s. f < x} \<le> card {f \<in> insert (unat m) (dq_lost s). f < x}" for x
    using w(3) by (intro card_mono) auto
  have knows: "pc_knows v (dq_lost s) q \<Longrightarrow> pc_knows v (insert (unat m) (dq_lost s)) q" for v q
    by (cases "(v, dq_lost s, q)" rule: pc_knows.cases) (auto intro: le_trans [OF _ more] simp del: insert_iff)
  have "dq_known ?t"
    unfolding dq_known_def
  proof (intro conjI allI ballI)
    fix j show "pc_knows (over_of ?t) (dq_lost ?t) (dq_pc ?t j)"
      using k knows by (simp add: dq_known_def dq_goto_def)
  next
    fix x assume "x \<in> dq_won ?t"
    then have "x < tail_of s + card {f \<in> dq_lost s. f < x}" using k by (simp add: dq_known_def dq_goto_def)
    with more [of x] show "x < tail_of ?t + card {f \<in> dq_lost ?t. f < x}" by (simp add: dq_goto_def del: insert_iff)
  qed
  moreover have "card (threads_at ((=) DQ_Late) ((dq_pc s)(i := DQ_Late))) = Suc (card (threads_at ((=) DQ_Late) (dq_pc s)))"
    using n by (intro threads_enter) (simp_all add: dq_counts_def pc)
  moreover have "threads_at ((=) DQ_Mine) ((dq_pc s)(i := DQ_Late)) = threads_at ((=) DQ_Mine) (dq_pc s)"
    by (rule threads_same) (simp add: pc)
  ultimately have "dq_counts ?t" using n m(2) w(3) by (simp add: dq_counts_def dq_goto_def threads_finite)
  moreover have "values_of index_of ((dq_pc s)(i := DQ_Late)) = values_of index_of (dq_pc s)" by (rule values_same) (simp add: pc)
  then have "dq_taken ?t" using u exclusive_leave [of index_of "dq_pc s" DQ_Late i] by (simp add: dq_taken_def dq_goto_def)
  ultimately show ?thesis using \<open>dq_tickets ?t\<close> \<open>dq_known ?t\<close> by (simp add: dq_inv_def)
qed

lemma dq_keep_claim:
  assumes inv: "dq_inv s" and small: "dq_small s" and pc: "dq_pc s i = DQ_Mine"
  shows "dq_inv (dq_goto i (DQ_Index (pr_head (dq_producer s)))
    (s\<lparr>dq_producer := (dq_producer s)\<lparr>pr_head := pr_head (dq_producer s) + 1\<rparr>\<rparr>))" (is "dq_inv ?t")
    and "head_of s < tail_of s"
proof -
  let ?pc = "DQ_Index (pr_head (dq_producer s))"
  have t: "dq_tickets s" and k: "dq_known s" and n: "dq_counts s" and u: "dq_taken s" using inv by (simp_all add: dq_inv_def)
  have mine: "Suc (card (threads_at ((=) DQ_Mine) ((dq_pc s)(i := ?pc)))) = card (threads_at ((=) DQ_Mine) (dq_pc s))"
    using n by (intro threads_leave) (simp_all add: dq_counts_def pc)
  then show lt: "head_of s < tail_of s" using n won_bound(1) [OF t k] unfolding dq_counts_def by linarith
  then have suc: "unat (pr_head (dq_producer s) + 1) = Suc (head_of s)" using small by (intro unat_inc) (simp add: dq_small_def)
  have "threads_at ((=) DQ_Late) ((dq_pc s)(i := ?pc)) = threads_at ((=) DQ_Late) (dq_pc s)" by (rule threads_same) (simp add: pc)
  then have "dq_counts ?t" using n mine by (simp add: dq_counts_def dq_goto_def suc threads_finite)
  moreover have "values_of ticket_of ((dq_pc s)(i := ?pc)) = values_of ticket_of (dq_pc s)" by (rule values_same) (simp add: pc)
  then have "dq_tickets ?t" using t exclusive_leave [of ticket_of "dq_pc s" ?pc i] by (simp add: dq_tickets_def dq_goto_def)
  moreover have "dq_known ?t" using k by (simp add: dq_known_def dq_goto_def)
  moreover have val: "values_of index_of ((dq_pc s)(i := ?pc)) = insert (head_of s) (values_of index_of (dq_pc s))"
    by (rule values_enter) (simp_all add: pc)
  have new: "head_of s \<notin> values_of index_of (dq_pc s)" "head_of s \<notin> dom (dq_outs s)" using u by (auto simp: dq_taken_def)
  have "exclusive index_of ((dq_pc s)(i := ?pc))"
    by (rule exclusive_enter [where v = "head_of s"]) (use u new in \<open>simp_all add: dq_taken_def\<close>)
  then have "dq_taken ?t" using u new unfolding dq_taken_def by (auto simp: dq_goto_def val suc lessThan_Suc)
  ultimately show "dq_inv ?t" by (simp add: dq_inv_def)
qed

lemma dq_keep_give_back:
  assumes inv: "dq_inv s" and small: "dq_small s" and pc: "dq_pc s i = DQ_Late"
  shows "dq_inv (dq_goto i DQ_Idle (s\<lparr>dq_producer := (dq_producer s)\<lparr>pr_overcommit := pr_overcommit (dq_producer s) + 1\<rparr>\<rparr>))" (is "dq_inv ?t")
proof -
  have t: "dq_tickets s" and k: "dq_known s" and n: "dq_counts s" and u: "dq_taken s" using inv by (simp_all add: dq_inv_def)
  have late: "Suc (card (threads_at ((=) DQ_Late) ((dq_pc s)(i := DQ_Idle)))) = card (threads_at ((=) DQ_Late) (dq_pc s))"
    using n by (intro threads_leave) (simp_all add: dq_counts_def pc)
  then have "over_of s < opt_of s" using n won_bound(4) [OF t k] unfolding dq_counts_def by linarith
  then have suc: "unat (pr_overcommit (dq_producer s) + 1) = Suc (over_of s)" using small by (intro unat_inc) (simp add: dq_small_def)
  have "threads_at ((=) DQ_Mine) ((dq_pc s)(i := DQ_Idle)) = threads_at ((=) DQ_Mine) (dq_pc s)" by (rule threads_same) (simp add: pc)
  then have "dq_counts ?t" using n late by (simp add: dq_counts_def dq_goto_def suc threads_finite)
  moreover have "values_of ticket_of ((dq_pc s)(i := DQ_Idle)) = values_of ticket_of (dq_pc s)" by (rule values_same) (simp add: pc)
  then have "dq_tickets ?t" using t exclusive_leave [of ticket_of "dq_pc s" DQ_Idle i] by (simp add: dq_tickets_def dq_goto_def)
  moreover have "values_of index_of ((dq_pc s)(i := DQ_Idle)) = values_of index_of (dq_pc s)" by (rule values_same) (simp add: pc)
  then have "dq_taken ?t" using u exclusive_leave [of index_of "dq_pc s" DQ_Idle i] by (simp add: dq_taken_def dq_goto_def)
  moreover have "pc_knows v L q \<Longrightarrow> pc_knows (Suc v) L q" for v L q
    by (cases "(v, L, q)" rule: pc_knows.cases) auto
  then have "dq_known ?t" using k by (simp add: dq_known_def dq_goto_def suc)
  ultimately show ?thesis by (simp add: dq_inv_def)
qed

lemma dq_keep_take:
  assumes inv: "dq_inv s" and pc: "dq_pc s i = DQ_Index n" and n: "unat n < length (dq_elems s)"
  shows "dq_inv (dq_goto i DQ_Idle (s\<lparr>dq_outs := (dq_outs s)(unat n \<mapsto> dq_elems s ! unat n)\<rparr>))" (is "dq_inv ?t")
proof -
  have t: "dq_tickets s" and k: "dq_known s" and c: "dq_counts s" and u: "dq_taken s" using inv by (simp_all add: dq_inv_def)
  have ix: "index_of (dq_pc s i) = Some (unat n)" by (simp add: pc)
  then have mem: "unat n \<in> values_of index_of (dq_pc s)" by blast
  have "values_of index_of ((dq_pc s)(i := DQ_Idle)) = values_of index_of (dq_pc s) - {unat n}"
    using u ix by (intro values_leave) (simp_all add: dq_taken_def)
  moreover have "exclusive index_of ((dq_pc s)(i := DQ_Idle))" using u by (intro exclusive_leave) (simp_all add: dq_taken_def)
  ultimately have "dq_taken ?t" using u mem n unfolding dq_taken_def by (auto simp: dq_goto_def split: if_splits)
  moreover have same: "values_of ticket_of ((dq_pc s)(i := DQ_Idle)) = values_of ticket_of (dq_pc s)"
    "threads_at ((=) DQ_Mine) ((dq_pc s)(i := DQ_Idle)) = threads_at ((=) DQ_Mine) (dq_pc s)"
    "threads_at ((=) DQ_Late) ((dq_pc s)(i := DQ_Idle)) = threads_at ((=) DQ_Late) (dq_pc s)"
    by (simp_all add: values_same threads_same pc)
  have "dq_tickets ?t" using t exclusive_leave [of ticket_of "dq_pc s" DQ_Idle i] by (simp add: dq_tickets_def dq_goto_def same)
  moreover have "dq_counts ?t" using c by (simp add: dq_counts_def dq_goto_def same)
  moreover have "dq_known ?t" using k by (simp add: dq_known_def dq_goto_def)
  ultimately show ?thesis by (simp add: dq_inv_def)
qed

lemma dq_step_inv:
  assumes "dq_step s t" and "dq_inv s" and "dq_small s"
  shows "dq_inv t"
  using assms(1)
proof (cases rule: dq_step.cases)
  case (dq_publish p x)
  with dq_keep_publish [OF assms(2,3)] show ?thesis by simp
next
  case (dq_load_tail i)
  then show ?thesis using dq_keep_move [OF assms(2), of i] by simp
next
  case (dq_load_over i tail)
  then show ?thesis using dq_keep_move [OF assms(2), of i] by simp
next
  case (dq_some i tail c)
  have "pc_knows (over_of s) (dq_lost s) (dq_pc s i)" using assms(2) unfolding dq_inv_def dq_known_def by blast
  with dq_some show ?thesis using dq_keep_move [OF assms(2), of i] by simp
next
  case (dq_none i tail c)
  then show ?thesis using dq_keep_move [OF assms(2), of i] by simp
next
  case (dq_ticket i c p)
  with dq_keep_ticket [OF assms(2,3)] show ?thesis by simp
next
  case (dq_in_time i c m)
  with dq_keep_in_time [OF assms(2,3)] show ?thesis by simp
next
  case (dq_too_late i c m)
  with dq_keep_too_late [OF assms(2)] show ?thesis by simp
next
  case (dq_claim i p)
  with dq_keep_claim(1) [OF assms(2,3)] show ?thesis by simp
next
  case (dq_give_back i p)
  with dq_keep_give_back [OF assms(2,3)] show ?thesis by simp
next
  case (dq_take i n)
  with dq_keep_take [OF assms(2)] show ?thesis by simp
qed

lemma dq_start_inv: "dq_inv (dq_start (new_producer ok))"
  using new_producer_spec(3-6) [of ok]
  by (simp add: dq_inv_def dq_tickets_def dq_counts_def dq_known_def dq_taken_def dq_start_def values_const threads_at_def)

lemma dq_run_inv: "guarded_run dq_step dq_small (dq_start (new_producer ok)) s \<Longrightarrow> dq_inv s"
  by (erule run_invariant) (use dq_start_inv dq_step_inv in blast)+

text \<open>When no call is pending, the counters are those of the calls one after another.\<close>

lemma dq_quiet:
  assumes inv: "dq_inv s" and idle: "\<And>i. dq_pc s i = DQ_Idle" and B: "tail_of s \<le> 32 * B" "32 * B < head_of s + 2 ^ 63"
  shows "counters_at (dq_producer s) B (head_of s) (tail_of s)" and "{..<head_of s} = dom (dq_outs s)"
proof -
  have t: "dq_tickets s" and k: "dq_known s" and n: "dq_counts s" and u: "dq_taken s" using inv by (simp_all add: dq_inv_def)
  note w = won_bound [OF t k]
  have none: "values_of ticket_of (dq_pc s) = {}" "values_of index_of (dq_pc s) = {}"
    "threads_at ((=) DQ_Mine) (dq_pc s) = {}" "threads_at ((=) DQ_Late) (dq_pc s) = {}"
    by (simp_all add: values_of_def threads_at_def idle)
  show "{..<head_of s} = dom (dq_outs s)" using u none by (simp add: dq_taken_def)
  have "card (dq_won s \<union> dq_lost s) = opt_of s" using t none by (simp add: dq_tickets_def)
  moreover have "card (dq_won s \<union> dq_lost s) = card (dq_won s) + card (dq_lost s)"
    using w t by (intro card_Un_disjoint) (simp_all add: dq_tickets_def)
  ultimately have sum: "opt_of s = head_of s + over_of s" using n none by (simp add: dq_counts_def)
  have "pr_optimistic (dq_producer s) = of_nat (head_of s + over_of s)" unfolding sum [symmetric] by simp
  then have "pr_optimistic (dq_producer s) - pr_overcommit (dq_producer s) = pr_head (dq_producer s)" by simp
  moreover have "head_of s \<le> tail_of s" using n none w(1) by (simp add: dq_counts_def)
  ultimately show "counters_at (dq_producer s) B (head_of s) (tail_of s)" using B by (simp add: counters_at_def)
qed

section \<open>Properties\<close>

text \<open>
  C8: One thread enqueues while any number of threads dequeue from its producer, interleaved at
  every access to the four counters, up to \<open>2 ^ 63\<close> elements and attempts. No index is handed out
  for which there is no element, none is handed out twice, and every index below the head has been
  handed out, so each element is taken at most once and none is skipped. Once no call is pending,
  the counters are as if the calls had been made one after another.
\<close>

theorem dequeue_tickets:
  assumes "guarded_run dq_step dq_small (dq_start (new_producer ok)) s"
  shows "\<not> dq_faulty s i \<and> head_of s \<le> length (dq_elems s) \<and>
    (dq_outs s n = Some x \<longrightarrow> n < head_of s \<and> x = dq_elems s ! n) \<and>
    (n < head_of s \<longrightarrow> n \<in> dom (dq_outs s) \<or> (\<exists>!j. index_of (dq_pc s j) = Some n)) \<and>
    ((\<forall>j. dq_pc s j = DQ_Idle) \<and> tail_of s \<le> 32 * B \<and> 32 * B < head_of s + 2 ^ 63 \<longrightarrow>
      counters_at (dq_producer s) B (head_of s) (tail_of s) \<and> dom (dq_outs s) = {..<head_of s})"
proof -
  have inv: "dq_inv s" using assms by (rule dq_run_inv)
  then have t: "dq_tickets s" and k: "dq_known s" and c: "dq_counts s" and u: "dq_taken s" by (simp_all add: dq_inv_def)
  have le: "head_of s \<le> length (dq_elems s)" using won_bound(1) [OF t k] c unfolding dq_counts_def by linarith
  have "\<not> dq_faulty s i"
  proof (cases "dq_pc s i")
    case (DQ_Index m)
    then have "index_of (dq_pc s i) = Some (unat m)" by simp
    then have "unat m \<in> values_of index_of (dq_pc s)" by blast
    then have "unat m < head_of s" "unat m \<notin> dom (dq_outs s)" using u by (auto simp: dq_taken_def)
    then show ?thesis using DQ_Index le by (simp add: dq_faulty_def)
  qed (simp_all add: dq_faulty_def)
  moreover have "dq_outs s n = Some x \<longrightarrow> n < head_of s \<and> x = dq_elems s ! n" using u by (auto simp: dq_taken_def)
  moreover have "n < head_of s \<longrightarrow> n \<in> dom (dq_outs s) \<or> (\<exists>!j. index_of (dq_pc s j) = Some n)"
  proof
    assume "n < head_of s"
    then have "n \<in> values_of index_of (dq_pc s) \<or> n \<in> dom (dq_outs s)" using u by (auto simp: dq_taken_def)
    moreover have "exclusive index_of (dq_pc s)" using u by (simp add: dq_taken_def)
    ultimately show "n \<in> dom (dq_outs s) \<or> (\<exists>!j. index_of (dq_pc s j) = Some n)"
      unfolding values_of_def using exclusiveD [where f = index_of] by blast
  qed
  ultimately show ?thesis using le dq_quiet [OF inv] by blast
qed

text \<open>Two threads want the only element: both take a ticket, and the later one returns its own.\<close>

lemma dequeue_tickets_witness:
  "\<exists>s :: nat dq_sys. dq_outs s 0 = Some 7 \<and> dq_elems s ! 0 = 7 \<and> dq_pc s 1 = DQ_Late \<and> opt_of s = 2 \<and>
    \<not> dq_faulty s 1 \<and> head_of s \<le> length (dq_elems s)"
proof -
  let ?p = "new_producer True" and ?s = "dq_start (new_producer True) :: nat dq_sys"
  note p = new_producer_spec(3-6) [of True]
  let ?a = "?s\<lparr>dq_producer := ?p\<lparr>pr_tail := pr_tail ?p + 1\<rparr>, dq_elems := [7]\<rparr>"
  let ?b = "dq_goto 0 (DQ_Tail 1) ?a" let ?c = "dq_goto 0 (DQ_Over 1 0) ?b" let ?d = "dq_goto 0 (DQ_Wants 0) ?c"
  let ?e = "dq_goto 1 (DQ_Tail 1) ?d" let ?f = "dq_goto 1 (DQ_Over 1 0) ?e" let ?g = "dq_goto 1 (DQ_Wants 0) ?f"
  let ?h = "dq_goto 0 (DQ_Ticket 0 0) (?g\<lparr>dq_producer := (dq_producer ?g)\<lparr>pr_optimistic := 1\<rparr>\<rparr>)"
  let ?i = "dq_goto 1 (DQ_Ticket 0 1) (?h\<lparr>dq_producer := (dq_producer ?h)\<lparr>pr_optimistic := 2\<rparr>\<rparr>)"
  let ?j = "dq_goto 1 DQ_Late (?i\<lparr>dq_lost := {1}\<rparr>)"
  let ?k = "dq_goto 0 DQ_Mine (?j\<lparr>dq_won := {0}\<rparr>)"
  let ?l = "dq_goto 0 (DQ_Index 0) (?k\<lparr>dq_producer := (dq_producer ?k)\<lparr>pr_head := 1\<rparr>\<rparr>)"
  let ?m = "dq_goto 0 DQ_Idle (?l\<lparr>dq_outs := [0 \<mapsto> 7]\<rparr>)"
  note run = guarded_run.run_more [where step = dq_step and P = dq_small and s = ?s]
  note simps = dq_start_def dq_goto_def dq_small_def p circular_less_than_small
  have "guarded_run dq_step dq_small ?s ?s" by (rule guarded_run.run_none) (simp add: simps)
  then have "guarded_run dq_step dq_small ?s ?a" by (rule run) (use dq_publish [of ?p ?s 7] in \<open>simp_all add: simps\<close>)
  then have "guarded_run dq_step dq_small ?s ?b" by (rule run) (use dq_load_tail [of ?a 0] in \<open>simp_all add: simps\<close>)
  then have "guarded_run dq_step dq_small ?s ?c" by (rule run) (use dq_load_over [of ?b 0 1] in \<open>simp_all add: simps\<close>)
  then have "guarded_run dq_step dq_small ?s ?d" by (rule run) (use dq_some [of ?c 0 1 0] in \<open>simp_all add: simps\<close>)
  then have "guarded_run dq_step dq_small ?s ?e" by (rule run) (use dq_load_tail [of ?d 1] in \<open>simp_all add: simps\<close>)
  then have "guarded_run dq_step dq_small ?s ?f" by (rule run) (use dq_load_over [of ?e 1 1] in \<open>simp_all add: simps\<close>)
  then have "guarded_run dq_step dq_small ?s ?g" by (rule run) (use dq_some [of ?f 1 1 0] in \<open>simp_all add: simps\<close>)
  then have "guarded_run dq_step dq_small ?s ?h" by (rule run) (use dq_ticket [of ?g 0 0] in \<open>simp_all add: simps\<close>)
  then have "guarded_run dq_step dq_small ?s ?i" by (rule run) (use dq_ticket [of ?h 1 0] in \<open>simp_all add: simps\<close>)
  then have "guarded_run dq_step dq_small ?s ?j" by (rule run) (use dq_too_late [of ?i 1 0 1] in \<open>simp_all add: simps\<close>)
  then have "guarded_run dq_step dq_small ?s ?k" by (rule run) (use dq_in_time [of ?j 0 0 0] in \<open>simp_all add: simps\<close>)
  then have "guarded_run dq_step dq_small ?s ?l" by (rule run) (use dq_claim [of ?k 0] in \<open>simp_all add: simps\<close>)
  then have r: "guarded_run dq_step dq_small ?s ?m" by (rule run) (use dq_take [of ?l 0 0] in \<open>simp_all add: simps\<close>)
  have "dq_outs ?m 0 = Some 7" "dq_elems ?m ! 0 = 7" "dq_pc ?m 1 = DQ_Late" "opt_of ?m = 2" by (simp_all add: simps)
  moreover have "\<not> dq_faulty ?m 1 \<and> head_of ?m \<le> length (dq_elems ?m)" using dequeue_tickets [OF r, of 1] by blast
  ultimately show ?thesis by blast
qed

end
