(* ===== verification/MoodyBulkDequeue.thy ===== *)
theory MoodyBulkDequeue
  imports MoodyFifo
begin

text \<open>
  Dequeueing many elements at once from a \<^verbatim>\<open>moodycamel::ConcurrentQueue\<close>
  (moodycamel/concurrentqueue.h, \<^verbatim>\<open>try_dequeue_bulk\<close> and \<^verbatim>\<open>ImplicitProducer::dequeue_bulk\<close>), for the
  calls of one thread after another and elements that do not throw when they are moved. The lemmas
  compare the walk over the blocks with as many times taking one element.
\<close>

section \<open>Model\<close>

definition set_many_empty :: "u64 \<Rightarrow> 'a block \<Rightarrow> bool \<times> 'a block" where
  "set_many_empty cnt bk = (bk_dequeued bk + cnt = BLOCK_SIZE, bk\<lparr>bk_dequeued := bk_dequeued bk + cnt\<rparr>)"

text \<open>The elements from \<open>index\<close> on that lie in one block, \<open>n\<close> of them.\<close>

fun move_items :: "nat \<Rightarrow> u64 \<Rightarrow> 'a block \<Rightarrow> ('a list \<times> 'a block) res" where
  "move_items 0 index bk = Inr ([], bk)"
| "move_items (Suc n) index bk = res_bind (move_out bk index) (\<lambda>(x, bk').
    res_bind (move_items n (index + 1) bk') (\<lambda>(xs, bk''). Inr (x # xs, bk'')))"

text \<open>
  One round for each block; a round takes at least one element unless none is wanted at all, which
  bounds the rounds. \<open>stop\<close> is \<^verbatim>\<open>firstIndex + actualCount\<close>.
\<close>

fun take_blocks :: "nat \<Rightarrow> u64 \<Rightarrow> u64 \<Rightarrow> index_header \<Rightarrow> nat \<Rightarrow> producer \<Rightarrow> 'a mheap \<Rightarrow> ('a list \<times> producer \<times> 'a mheap) res" where
  "take_blocks 0 index stop ix indexIndex p h = Inl Diverges"
| "take_blocks (Suc n) index stop ix indexIndex p h = (
    let blockEnd = (index AND NOT (BLOCK_SIZE - 1)) + BLOCK_SIZE;
        endIndex = (if circular_less_than stop blockEnd then stop else blockEnd) in
    if indexIndex \<ge> length (ih_index ix) then Inl (UB Out_Of_Bounds)
    else let entry = ih_index ix ! indexIndex in (case ie_value (pr_entries p ! entry) of None \<Rightarrow> Inl (UB Null_Deref)
      | Some b \<Rightarrow> res_bind (read_block h b) (\<lambda>bk. res_bind (move_items (unat (endIndex - index)) index bk) (\<lambda>(xs, bk').
          case set_many_empty (endIndex - index) bk' of (emptied, bk'') \<Rightarrow>
            res_bind (if emptied then res_bind (add_block_to_free_list (write_block h b bk'') b)
                (\<lambda>h'. Inr (set_entry_value entry None p, h')) else Inr (p, write_block h b bk'')) (\<lambda>(p', h').
              if endIndex = stop then Inr (xs, p', h')
              else res_bind (take_blocks n endIndex stop ix (unat ((of_nat indexIndex + 1) AND (ih_capacity ix - 1))) p' h')
                (\<lambda>(ys, p'', h''). Inr (xs @ ys, p'', h'')))))))"

definition producer_dequeue_bulk :: "u64 \<Rightarrow> producer \<Rightarrow> 'a mheap \<Rightarrow> ('a list \<times> producer \<times> 'a mheap) res" where
  "producer_dequeue_bulk limit p h = (
    let overcommit = pr_overcommit p; desiredCount = pr_tail p - (pr_optimistic p - overcommit) in
    if circular_less_than 0 desiredCount then
      let desired = (if desiredCount < limit then desiredCount else limit);
          myDequeueCount = pr_optimistic p; p1 = p\<lparr>pr_optimistic := pr_optimistic p + desired\<rparr>;
          actualCount = pr_tail p1 - (myDequeueCount - overcommit) in
      if circular_less_than 0 actualCount then
        let actual = (if desired < actualCount then desired else actualCount);
            p2 = (if actual < desired then p1\<lparr>pr_overcommit := pr_overcommit p1 + (desired - actual)\<rparr> else p1);
            firstIndex = pr_head p2; p3 = p2\<lparr>pr_head := pr_head p2 + actual\<rparr> in
        (case pr_header p3 of None \<Rightarrow> Inl (UB Null_Deref)
        | Some ix \<Rightarrow> res_bind (get_block_index_index_for_index firstIndex p3) (\<lambda>indexIndex.
            take_blocks (Suc (unat actual)) firstIndex (firstIndex + actual) ix indexIndex p3 h))
      else Inr ([], p1\<lparr>pr_overcommit := pr_overcommit p1 + desired\<rparr>, h)
    else Inr ([], p, h))"

text \<open>\<^verbatim>\<open>ConcurrentQueue::try_dequeue_bulk\<close>: the producers in turn; the result is what was written to \<^verbatim>\<open>itemFirst\<close>.\<close>

fun dequeue_bulk_from :: "nat list \<Rightarrow> u64 \<Rightarrow> 'a cqueue \<Rightarrow> ('a list \<times> 'a cqueue) res" where
  "dequeue_bulk_from [] limit q = Inr ([], q)"
| "dequeue_bulk_from (i # js) limit q = res_bind (producer_dequeue_bulk limit (cq_producers q ! i) (cq_heap q)) (\<lambda>(xs, pr, h).
    let q' = q\<lparr>cq_producers := (cq_producers q)[i := pr], cq_heap := h\<rparr>; cnt = of_nat (length xs) in
    if cnt = limit then Inr (xs, q')
    else res_bind (dequeue_bulk_from js (limit - cnt) q') (\<lambda>(ys, q''). Inr (xs @ ys, q'')))"

definition try_dequeue_bulk :: "u64 \<Rightarrow> 'a cqueue \<Rightarrow> ('a list \<times> 'a cqueue) res" where
  "try_dequeue_bulk limit q = dequeue_bulk_from (rev [0..<length (cq_producers q)]) limit q"

section \<open>As many times taking one element\<close>

fun take_elements :: "nat \<Rightarrow> u64 \<Rightarrow> producer \<Rightarrow> 'a mheap \<Rightarrow> ('a list \<times> producer \<times> 'a mheap) res" where
  "take_elements 0 index p h = Inr ([], p, h)"
| "take_elements (Suc n) index p h = res_bind (take_element index p h) (\<lambda>(r, p', h'). case r of None \<Rightarrow> Inl Diverges
    | Some x \<Rightarrow> res_bind (take_elements n (index + 1) p' h') (\<lambda>(xs, p'', h''). Inr (x # xs, p'', h'')))"

text \<open>Taking an element depends on no counter and changes none.\<close>

definition with_counts :: "u64 \<Rightarrow> u64 \<Rightarrow> producer \<Rightarrow> producer" where
  "with_counts a b p = p\<lparr>pr_head := a, pr_optimistic := b\<rparr>"

lemma with_counts_simps [simp]:
  "pr_header (with_counts a b p) = pr_header p" "pr_entries (with_counts a b p) = pr_entries p"
  "pr_next_capacity (with_counts a b p) = pr_next_capacity p" "pr_tail_block (with_counts a b p) = pr_tail_block p"
  "pr_tail (with_counts a b p) = pr_tail p" "pr_overcommit (with_counts a b p) = pr_overcommit p"
  "pr_head (with_counts a b p) = a" "pr_optimistic (with_counts a b p) = b"
  "set_entry_value e v (with_counts a b p) = with_counts a b (set_entry_value e v p)"
  "with_counts a b (with_counts c d p) = with_counts a b p"
  "with_counts (pr_head p) (pr_optimistic p) p = p"
  by (simp_all add: with_counts_def set_entry_value_def)

lemma with_counts_index [simp]:
  "get_block_index_index_for_index i (with_counts a b p) = get_block_index_index_for_index i p"
  "get_block_index_entry_for_index i (with_counts a b p) = get_block_index_entry_for_index i p"
  unfolding get_block_index_entry_for_index_def get_block_index_index_for_index_def with_counts_simps by (rule refl)+

lemma take_element_counts:
  assumes "take_element i (with_counts a b p) h = Inr (x, p', h')"
  shows "take_element i p h = Inr (x, with_counts (pr_head p) (pr_optimistic p) p', h')" and "p' = with_counts a b p'"
proof -
  obtain e c bk y bk' where e: "get_block_index_entry_for_index i p = Inr e" "ie_value (pr_entries p ! e) = Some c"
    "read_block h c = Inr bk" "move_out bk i = Inr (y, bk')"
    using assms by (auto simp: take_element_def res_bind_Inr_iff split: option.splits)
  obtain emptied bk2 where s: "set_empty bk' = (emptied, bk2)" by (cases "set_empty bk'")
  have hd: "pr_head (set_entry_value e None p) = pr_head p" "pr_optimistic (set_entry_value e None p) = pr_optimistic p" by simp_all
  have set: "with_counts (pr_head p) (pr_optimistic p) (set_entry_value e None p) = set_entry_value e None p"
    using with_counts_simps(11) [of "set_entry_value e None p"] by (simp only: hd)
  show "take_element i p h = Inr (x, with_counts (pr_head p) (pr_optimistic p) p', h')" "p' = with_counts a b p'"
    using assms by (auto simp: take_element_def e s set res_bind_Inr_iff split: if_splits)
qed

lemma take_many:
  "\<lbrakk>heap_inv h (set bs \<union> rest); set bs \<inter> rest = {}; producer_at h (with_counts (of_nat H) c p) bs B H T xs; n \<le> length xs\<rbrakk> \<Longrightarrow>
    \<exists>p' h' bs'. take_elements n (of_nat H) p h = Inr (take n xs, p', h') \<and> p' = with_counts (pr_head p) (pr_optimistic p) p' \<and>
      producer_at h' (with_counts (of_nat (H + n)) (c + of_nat n) p') bs' B (H + n) T (drop n xs) \<and> set bs' \<subseteq> set bs \<and>
      heap_inv h' (set bs' \<union> rest) \<and> (\<forall>b \<in> rest. block_at h' b = block_at h b)"
proof (induction n arbitrary: H c p h bs xs)
  case 0
  then show ?case by (intro exI [of _ p] exI [of _ h] exI [of _ bs]) (simp add: with_counts_def)
next
  case (Suc n)
  obtain y ys where xs: "xs = y # ys" using Suc.prems(4) by (cases xs) simp_all
  have at: "producer_at h (with_counts (of_nat H) c p) bs B H T (y # ys)" using Suc.prems(3) by (simp only: xs)
  then have c: "c - pr_overcommit p = of_nat H" "H < T" "pr_tail p = of_nat T" "T \<le> 32 * B" "32 * B < H + 2 ^ 63"
    by (auto simp: producer_at_def counters_at_def)
  have c1: "c + 1 - pr_overcommit p = of_nat (Suc H)" using c(1) by (simp add: algebra_simps)
  define q where "q = with_counts (of_nat (Suc H)) (c + 1) p"
  have "counters_at q B (Suc H) T" using c c1 by (simp add: counters_at_def q_def)
  then obtain q' h1 bs1 where t: "take_element (of_nat H) q h = Inr (Some y, q', h1)" "producer_at h1 q' bs1 B (Suc H) T ys"
    "set bs1 \<subseteq> set bs" "heap_inv h1 (set bs1 \<union> rest)" "\<forall>b \<in> rest. block_at h1 b = block_at h b"
    using take_spec [OF Suc.prems(1,2) at, of q] by (auto simp: q_def)
  define p1 where "p1 = with_counts (pr_head p) (pr_optimistic p) q'"
  note e = take_element_counts [OF t(1) [unfolded q_def]]
  have q': "with_counts (of_nat (Suc H)) (c + 1) p1 = q'" using e(2) by (simp add: p1_def)
  have at1: "producer_at h1 (with_counts (of_nat (Suc H)) (c + 1) p1) bs1 B (Suc H) T ys" using t(2) by (simp only: q')
  have sep: "set bs1 \<inter> rest = {}" using t(3) Suc.prems(2) by blast
  have "n \<le> length ys" using Suc.prems(4) xs by simp
  from Suc.IH [OF t(4) sep at1 this] obtain p' h' bs' where r:
    "take_elements n (of_nat (Suc H)) p1 h1 = Inr (take n ys, p', h')" "p' = with_counts (pr_head p1) (pr_optimistic p1) p'"
    "producer_at h' (with_counts (of_nat (Suc H + n)) (c + 1 + of_nat n) p') bs' B (Suc H + n) T (drop n ys)"
    "set bs' \<subseteq> set bs1" "heap_inv h' (set bs' \<union> rest)" "\<forall>b \<in> rest. block_at h' b = block_at h1 b" by blast
  have "take_elements (Suc n) (of_nat H) p h = Inr (take (Suc n) xs, p', h')"
    using e(1) r(1) by (simp add: p1_def [symmetric] xs add.commute)
  moreover have "p' = with_counts (pr_head p) (pr_optimistic p) p'" using r(2) by (simp add: p1_def)
  moreover have "producer_at h' (with_counts (of_nat (H + Suc n)) (c + of_nat (Suc n)) p') bs' B (H + Suc n) T (drop (Suc n) xs)"
    using r(3) by (simp add: xs algebra_simps)
  ultimately show ?case using r(4-6) t(3,5) by (intro exI [of _ p'] exI [of _ h'] exI [of _ bs']) auto
qed

text \<open>A run of elements of one block, all at once or one after another.\<close>

lemma move_items_dequeued:
  "move_items n i (bk\<lparr>bk_dequeued := v\<rparr>) = res_bind (move_items n i bk) (\<lambda>(xs, bk'). Inr (xs, bk'\<lparr>bk_dequeued := v\<rparr>))"
proof (induction n arbitrary: i bk)
  case (Suc n)
  show ?case
  proof (cases "bk_elements bk ! element_slot i")
    case (Some x)
    have "move_out (bk\<lparr>bk_dequeued := v\<rparr>) i = Inr (x, (bk\<lparr>bk_elements := (bk_elements bk)[element_slot i := None]\<rparr>)\<lparr>bk_dequeued := v\<rparr>)"
      using Some by (simp add: move_out_def)
    moreover have "move_out bk i = Inr (x, bk\<lparr>bk_elements := (bk_elements bk)[element_slot i := None]\<rparr>)"
      using Some by (simp add: move_out_def)
    ultimately show ?thesis using Suc.IH [of "i + 1" "bk\<lparr>bk_elements := (bk_elements bk)[element_slot i := None]\<rparr>"]
      by (cases "move_items n (i + 1) (bk\<lparr>bk_elements := (bk_elements bk)[element_slot i := None]\<rparr>)") auto
  qed (simp add: move_out_def)
qed simp

lemma move_items_block: "move_items n i bk = Inr (xs, bk') \<Longrightarrow> bk_dequeued bk' = bk_dequeued bk"
proof (induction n arbitrary: i bk xs)
  case (Suc n)
  then show ?case by (fastforce simp: res_bind_Inr_iff move_out_def split: option.splits)
qed simp

lemma span_in_block:
  "\<lbrakk>\<And>i. i < Suc n \<Longrightarrow> get_block_index_entry_for_index (index + of_nat i) p = Inr e; ie_value (pr_entries p ! e) = Some b;
    block_at h b = Some bk; unat (bk_dequeued bk) + Suc n \<le> 32; take_elements (Suc n) index p h = Inr (xs, p', h')\<rbrakk> \<Longrightarrow>
    \<exists>bk'. move_items (Suc n) index bk = Inr (xs, bk') \<and> bk_dequeued bk' = bk_dequeued bk \<and>
      (if unat (bk_dequeued bk) + Suc n = 32
       then p' = set_entry_value e None p \<and>
         add_block_to_free_list (write_block h b (bk'\<lparr>bk_dequeued := bk_dequeued bk + of_nat (Suc n)\<rparr>)) b = Inr h'
       else p' = p \<and> h' = write_block h b (bk'\<lparr>bk_dequeued := bk_dequeued bk + of_nat (Suc n)\<rparr>))"
proof (induction n arbitrary: index h bk xs)
  case 0
  have e: "get_block_index_entry_for_index index p = Inr e" using 0(1) [of 0] by simp
  have rd: "read_block h b = Inr bk" using 0(3) by (rule read_block_Inr)
  obtain y bk1 where m: "move_out bk index = Inr (y, bk1)"
    using 0(5) by (auto simp: take_element_def e 0(2) rd res_bind_Inr_iff)
  have d: "bk_dequeued bk1 = bk_dequeued bk" using m by (auto simp: move_out_def split: option.splits)
  have full: "bk_dequeued bk = BLOCK_SIZE - 1 \<longleftrightarrow> unat (bk_dequeued bk) + 1 = 32" by (simp add: BLOCK_SIZE_def word_unat_eq_iff)
  show ?case
  proof (cases "unat (bk_dequeued bk) + 1 = 32")
    case True
    then have "bk_dequeued bk = BLOCK_SIZE - 1" using full by simp
    then show ?thesis using 0(5) True
      by (auto simp: take_element_def e 0(2) rd m set_empty_def d res_bind_Inr_iff)
  next
    case False
    then have "bk_dequeued bk \<noteq> BLOCK_SIZE - 1" using full by simp
    then show ?thesis using 0(5) False
      by (auto simp: take_element_def e 0(2) rd m set_empty_def d res_bind_Inr_iff)
  qed
next
  case (Suc n)
  have e: "get_block_index_entry_for_index index p = Inr e" using Suc.prems(1) [of 0] by simp
  have rd: "read_block h b = Inr bk" using Suc.prems(3) by (rule read_block_Inr)
  obtain y bk1 where m: "move_out bk index = Inr (y, bk1)"
    using Suc.prems(5) by (auto simp: take_element_def e Suc.prems(2) rd res_bind_Inr_iff)
  have d: "bk_dequeued bk1 = bk_dequeued bk" using m by (auto simp: move_out_def split: option.splits)
  have u: "unat (bk_dequeued bk) < 31" using Suc.prems(4) by simp
  then have ne: "bk_dequeued bk \<noteq> BLOCK_SIZE - 1" by (auto simp: BLOCK_SIZE_def)
  have suc: "unat (bk_dequeued bk + 1) = Suc (unat (bk_dequeued bk))" using u by (simp add: unat_word_ariths)
  define bk2 where "bk2 = bk1\<lparr>bk_dequeued := bk_dequeued bk + 1\<rparr>"
  define h2 where "h2 = write_block h b bk2"
  have one: "take_element index p h = Inr (Some y, p, h2)"
    using ne by (simp add: take_element_def e Suc.prems(2) rd m set_empty_def d h2_def bk2_def)
  obtain ys where ys: "take_elements (Suc n) (index + 1) p h2 = Inr (ys, p', h')" "xs = y # ys"
    using Suc.prems(5) unfolding take_elements.simps(2) [of "Suc n"] one by (auto simp: res_bind_Inr_iff)
  have "get_block_index_entry_for_index (index + 1 + of_nat i) p = Inr e" if "i < Suc n" for i
    using Suc.prems(1) [of "Suc i"] that by (simp add: add.assoc)
  moreover have "block_at h2 b = Some bk2" using block_at_bound [OF Suc.prems(3)] by (simp add: h2_def)
  moreover have "unat (bk_dequeued bk2) + Suc n \<le> 32" using Suc.prems(4) suc by (simp add: bk2_def)
  ultimately obtain bk' where r: "move_items (Suc n) (index + 1) bk2 = Inr (ys, bk')" "bk_dequeued bk' = bk_dequeued bk2"
      "if unat (bk_dequeued bk2) + Suc n = 32
       then p' = set_entry_value e None p \<and>
         add_block_to_free_list (write_block h2 b (bk'\<lparr>bk_dequeued := bk_dequeued bk2 + of_nat (Suc n)\<rparr>)) b = Inr h'
       else p' = p \<and> h' = write_block h2 b (bk'\<lparr>bk_dequeued := bk_dequeued bk2 + of_nat (Suc n)\<rparr>)"
    using Suc.IH [OF _ Suc.prems(2) _ _ ys(1), of bk2] by blast
  have "bk1 = bk2\<lparr>bk_dequeued := bk_dequeued bk\<rparr>" using d by (simp add: bk2_def)
  then have "move_items (Suc n) (index + 1) bk1 = Inr (ys, bk'\<lparr>bk_dequeued := bk_dequeued bk\<rparr>)"
    using move_items_dequeued [where n = "Suc n" and i = "index + 1" and bk = bk2 and v = "bk_dequeued bk"] r(1) by simp
  then have mv: "move_items (Suc (Suc n)) index bk = Inr (xs, bk'\<lparr>bk_dequeued := bk_dequeued bk\<rparr>)"
    unfolding move_items.simps(2) [of "Suc n"] by (simp add: m ys(2) del: move_items.simps)
  have "bk_dequeued bk2 + of_nat (Suc n) = bk_dequeued bk + of_nat (Suc (Suc n))" "unat (bk_dequeued bk2) + Suc n = unat (bk_dequeued bk) + Suc (Suc n)"
    using suc by (simp_all add: bk2_def)
  note sums = this
  have twice: "(bk'\<lparr>bk_dequeued := v\<rparr>)\<lparr>bk_dequeued := w\<rparr> = bk'\<lparr>bk_dequeued := w\<rparr>" for v w by simp
  show ?case
  proof (intro exI conjI)
    show "move_items (Suc (Suc n)) index bk = Inr (xs, bk'\<lparr>bk_dequeued := bk_dequeued bk\<rparr>)" by (rule mv)
    show "if unat (bk_dequeued bk) + Suc (Suc n) = 32
       then p' = set_entry_value e None p \<and> add_block_to_free_list
         (write_block h b ((bk'\<lparr>bk_dequeued := bk_dequeued bk\<rparr>)\<lparr>bk_dequeued := bk_dequeued bk + of_nat (Suc (Suc n))\<rparr>)) b = Inr h'
       else p' = p \<and> h' = write_block h b ((bk'\<lparr>bk_dequeued := bk_dequeued bk\<rparr>)\<lparr>bk_dequeued := bk_dequeued bk + of_nat (Suc (Suc n))\<rparr>)"
      using r(3) unfolding h2_def write_twice twice sums .
  qed simp
qed

lemma take_elements_add:
  "take_elements (m + n) i p h = res_bind (take_elements m i p h) (\<lambda>(xs, p', h').
    res_bind (take_elements n (i + of_nat m) p' h') (\<lambda>(ys, p'', h''). Inr (xs @ ys, p'', h'')))"
proof (induction m arbitrary: i p h)
  case 0
  then show ?case by (cases "take_elements n i p h") auto
next
  case (Suc m)
  show ?case
  proof (cases "take_element i p h")
    case (Inr r)
    obtain x p1 h1 where r: "r = (x, p1, h1)" by (cases r)
    show ?thesis
    proof (cases x)
      case (Some y)
      have add: "of_nat (Suc m) = (1 :: u64) + of_nat m" by simp
      show ?thesis unfolding add_Suc take_elements.simps(2) Inr r Some res_bind.simps(2) case_prod_conv option.case Suc.IH add add.assoc
        by (simp add: res_bind_assoc split_beta)
    qed (simp add: Inr r)
  qed simp
qed

section \<open>Block by block\<close>

lemma set_entry_header [simp]: "pr_header (set_entry_value e v p) = pr_header p"
  by (simp add: set_entry_value_def)

lemma index_key [simp]: "get_block_index_index_for_index i (set_entry_value e v p) = get_block_index_index_for_index i p"
proof -
  have "ie_key (pr_entries (set_entry_value e v p) ! x) = ie_key (pr_entries p ! x)" for x
    by (cases "e < length (pr_entries p)") (auto simp: set_entry_value_def nth_list_update not_less list_update_beyond)
  note key = this
  then show ?thesis unfolding get_block_index_index_for_index_def by (simp only: key set_entry_header)
qed

lemma behind_succ: "Suc d \<le> n \<Longrightarrow> behind n t d = Suc (behind n t (Suc d)) mod n"
  unfolding behind_def mod_Suc_eq by (rule arg_cong [where f = "\<lambda>x. x mod n"]) simp

text \<open>The block of the oldest element, its place in the index, and the place of the block behind it.\<close>

lemma oldest_block:
  assumes at: "producer_at h p bs B H T xs" and HT: "H < T"
  shows "\<exists>ix idx e b bk. pr_header p = Some ix \<and> idx < length (ih_index ix) \<and> e = ih_index ix ! idx \<and>
    (\<forall>s < 32. get_block_index_index_for_index (of_nat (32 * (H div 32) + s)) p = Inr idx) \<and>
    ie_value (pr_entries p ! e) = Some b \<and> block_at h b = Some bk \<and> unat (bk_dequeued bk) = H mod 32 \<and>
    (32 * Suc (H div 32) < T \<longrightarrow> get_block_index_index_for_index (of_nat (32 * Suc (H div 32))) p =
      Inr (unat ((of_nat idx + 1) AND (ih_capacity ix - 1))))"
proof -
  have p: "index_holds p B bs" "length bs = B - H div 32" "T \<le> 32 * B" "blocks_hold h bs B H T xs"
    using at by (simp_all add: producer_at_def counters_at_def)
  define j where "j = H div 32"
  define d where "d = B - Suc j"
  have "j < B" using HT p(3) unfolding j_def by (intro less_mult_imp_div_less) simp
  then have d: "d < length bs" "B - Suc d = j" "length bs = Suc d" using p(2) by (simp_all add: d_def j_def)
  obtain k ix where h: "index_wf k p ix" "length bs \<le> 2 ^ k"
    "\<And>d. d < length bs \<Longrightarrow> entry_behind k p ix d = \<lparr>ie_key = of_nat (32 * (B - Suc d)), ie_value = Some (bs ! d)\<rparr>"
    using p(1) by (rule index_holdsE) blast
  note w = index_wfD [OF h(1)]
  define idx where "idx = behind (2 ^ k) (unat (ih_tail ix)) d"
  have idx: "idx < 2 ^ k" by (simp add: idx_def behind_lt)
  have val: "ie_value (pr_entries p ! (ih_index ix ! idx)) = Some (bs ! d)" using h(3) [OF d(1)] by (simp add: entry_behind_def idx_def)
  obtain bk where bk: "block_at h (bs ! d) = Some bk" "block_holds bk j H T xs"
    using p(4) \<open>j < B\<close> unfolding blocks_hold_def d_def j_def by blast
  have "bk_dequeued bk = of_nat (H mod 32)" using bk(2) by (simp add: block_holds_def j_def minus_mult_div_eq_mod)
  then have deq: "unat (bk_dequeued bk) = H mod 32" by (simp only:) (rule unat_of_nat_u64, simp)
  have "get_block_index_index_for_index (of_nat (32 * Suc j)) p = Inr (unat ((of_nat idx + 1) AND (ih_capacity ix - 1)))" if nxt: "32 * Suc j < T"
  proof -
    have "Suc j < B" using less_le_trans [OF nxt p(3)] by simp
    then obtain c where c: "d = Suc c" "c < length bs" "B - Suc c = Suc j" using d by (cases d) (simp_all add: d_def)
    have "get_block_index_index_for_index (of_nat (32 * Suc j)) p = Inr (behind (2 ^ k) (unat (ih_tail ix)) c)"
      using lookup_index [OF p(1) h(1) c(2), of 0] by (simp add: c(3))
    moreover have "Suc c \<le> 2 ^ k" using c d h(2) by simp
    then have "behind (2 ^ k) (unat (ih_tail ix)) c = Suc idx mod 2 ^ k" unfolding idx_def c(1) by (rule behind_succ)
    moreover have "(2 :: nat) ^ k \<le> 2 ^ 58" using w(2) by (intro power_increasing) simp_all
    then have "unat (of_nat idx :: u64) = idx" using idx by (intro unat_of_nat_u64) simp
    then have "unat ((of_nat idx + 1 :: u64) AND (2 ^ k - 1)) = Suc idx mod 2 ^ k" using unat_succ_mask [of k "of_nat idx"] w(2) by simp
    ultimately show ?thesis by (simp only: w(3))
  qed
  moreover have "\<forall>s < 32. get_block_index_index_for_index (of_nat (32 * j + s)) p = Inr idx"
    using lookup_index [OF p(1) h(1) d(1)] unfolding d(2) idx_def by blast
  ultimately show ?thesis using w(1,4) idx val bk(1) deq unfolding j_def [symmetric]
    by (intro exI [of _ ix] exI [of _ idx] exI [of _ "ih_index ix ! idx"] exI [of _ "bs ! d"] exI [of _ bk]) simp
qed

lemma write_block_same [simp]: "block_at h b = Some bk \<Longrightarrow> write_block h b bk = h"
  by (auto simp: write_block_def block_at_def split: if_splits) (metis list_update_id mheap.surjective mheap.update_convs(1))

lemma take_blocks_spec:
  "\<lbrakk>heap_inv h (set bs \<union> rest); set bs \<inter> rest = {}; producer_at h (with_counts (of_nat H) c p) bs B H T xs;
    0 < n; n \<le> length xs; n \<le> fuel; pr_header p = Some ix; get_block_index_index_for_index (of_nat H) p = Inr idx\<rbrakk> \<Longrightarrow>
    take_blocks fuel (of_nat H) (of_nat (H + n)) ix idx p h = take_elements n (of_nat H) p h"
proof (induction fuel arbitrary: H c p h bs xs n idx)
  case 0
  then show ?case by simp
next
  case (Suc fuel)
  define j where "j = H div 32"
  define m where "m = min n (32 - H mod 32)"
  have c: "length xs = T - H" "H \<le> T" "T \<le> 32 * B" "32 * B < H + 2 ^ 63" using Suc.prems(3) by (auto simp: producer_at_def counters_at_def)
  have n63: "n < 2 ^ 63" "H + n \<le> T" "H < T" using c Suc.prems(4,5) by linarith+
  have m: "0 < m" "m \<le> n" "H mod 32 + m \<le> 32" "m \<le> length xs" using Suc.prems(4,5) mod_less_divisor [of 32 H] by (auto simp: m_def)
  note stop = end_index [OF n63(1), of H, folded m_def]
  have H: "H = 32 * j + H mod 32" by (simp add: j_def)
  have Hi: "H + i = 32 * j + (H mod 32 + i)" for i using H by linarith
  obtain ix' idx' e b bk where o: "pr_header p = Some ix'" "idx' < length (ih_index ix')" "e = ih_index ix' ! idx'"
    "\<And>s. s < 32 \<Longrightarrow> get_block_index_index_for_index (of_nat (32 * j + s)) p = Inr idx'" "ie_value (pr_entries p ! e) = Some b"
    "block_at h b = Some bk" "unat (bk_dequeued bk) = H mod 32"
    "32 * Suc j < T \<Longrightarrow> get_block_index_index_for_index (of_nat (32 * Suc j)) p = Inr (unat ((of_nat idx' + 1) AND (ih_capacity ix' - 1)))"
    using oldest_block [OF Suc.prems(3) n63(3)] unfolding j_def [symmetric] with_counts_simps with_counts_index by blast
  have eq: "ix' = ix" "idx' = idx" using o(1) Suc.prems(7,8) o(4) [of "H mod 32"] by (simp_all add: j_def)
  have entry: "get_block_index_entry_for_index (of_nat H + of_nat i) p = Inr e" if "i < m" for i
  proof -
    have "H mod 32 + i < 32" using that m(3) by linarith
    from o(4) [OF this] show ?thesis using o(1,2,3) unfolding Hi [symmetric] by (simp add: get_block_index_entry_for_index_def)
  qed
  obtain p1 h1 bs1 where t: "take_elements m (of_nat H) p h = Inr (take m xs, p1, h1)" "p1 = with_counts (pr_head p) (pr_optimistic p) p1"
    "producer_at h1 (with_counts (of_nat (H + m)) (c + of_nat m) p1) bs1 B (H + m) T (drop m xs)" "set bs1 \<subseteq> set bs"
    "heap_inv h1 (set bs1 \<union> rest)" "\<forall>b \<in> rest. block_at h1 b = block_at h b"
    using take_many [OF Suc.prems(1-3) m(4)] by blast
  obtain m' where m': "m = Suc m'" using m(1) by (cases m) simp_all
  obtain bk' where mv': "move_items m (of_nat H) bk = Inr (take m xs, bk')" "bk_dequeued bk' = bk_dequeued bk"
      "if H mod 32 + m = 32 then p1 = set_entry_value e None p \<and>
         add_block_to_free_list (write_block h b (bk'\<lparr>bk_dequeued := bk_dequeued bk + of_nat m\<rparr>)) b = Inr h1
       else p1 = p \<and> h1 = write_block h b (bk'\<lparr>bk_dequeued := bk_dequeued bk + of_nat m\<rparr>)"
    using span_in_block [of m' "of_nat H" p e b h bk "take m xs" p1 h1] entry o(5,6,7) m(3) t(1) unfolding m' by auto
  define bk2 where "bk2 = bk'\<lparr>bk_dequeued := bk_dequeued bk + of_nat m\<rparr>"
  note mv = mv' [folded bk2_def]
  have "unat (bk_dequeued bk + of_nat m) = H mod 32 + m"
  proof -
    have "bk_dequeued bk = of_nat (H mod 32)" unfolding o(7) [symmetric] by simp
    then have "bk_dequeued bk + of_nat m = of_nat (H mod 32 + m)" by simp
    then show ?thesis using m(3) by (simp only:) (rule unat_of_nat_u64, simp)
  qed
  then have emptied: "set_many_empty (of_nat m) bk' = (H mod 32 + m = 32, bk2)"
    unfolding set_many_empty_def bk2_def mv(2) by (simp add: word_unat_eq_iff BLOCK_SIZE_def)
  have m64: "unat (of_nat m :: u64) = m" using m(3) by (intro unat_of_nat_u64) simp
  have n64: "of_nat (H + m) = (of_nat (H + n) :: u64) \<longleftrightarrow> m = n"
  proof
    assume "of_nat (H + m) = (of_nat (H + n) :: u64)"
    then have "(of_nat m :: u64) = of_nat n" by simp
    then have "unat (of_nat m :: u64) = unat (of_nat n :: u64)" by simp
    moreover have "unat (of_nat n :: u64) = n" using n63(1) by (intro unat_of_nat_u64) simp
    ultimately show "m = n" using m64 by simp
  qed simp
  have run: "take_blocks (Suc fuel) (of_nat H) (of_nat (H + n)) ix idx p h = (if m = n then Inr (take m xs, p1, h1)
      else res_bind (take_blocks fuel (of_nat (H + m)) (of_nat (H + n)) ix (unat ((of_nat idx + 1) AND (ih_capacity ix - 1))) p1 h1)
        (\<lambda>(ys, p'', h''). Inr (take m xs @ ys, p'', h'')))"
    unfolding take_blocks.simps(2) Let_def stop(1) n64
    using o(2,3,5) mv(1,3) m64 by (simp add: eq read_block_Inr [OF o(6)] emptied split: if_splits)
  show ?case
  proof (cases "m = n")
    case True
    then show ?thesis using run t(1) by simp
  next
    case False
    then have full: "H + m = 32 * Suc j" using stop(2,3) unfolding j_def by linarith
    then have p1: "p1 = set_entry_value e None p" using mv(3) H by (simp split: if_splits)
    have rest: "0 < n - m" "n - m \<le> length (drop m xs)" "n - m \<le> fuel" "H + m + (n - m) = H + n" using False m Suc.prems(5,6) by auto
    have "32 * Suc j < T" using full n63(2) m(2) False by linarith
    then have nxt: "get_block_index_index_for_index (of_nat (H + m)) p1 = Inr (unat ((of_nat idx + 1) AND (ih_capacity ix - 1)))"
      using o(8) unfolding eq full p1 by simp
    have hdr: "pr_header p1 = Some ix" using Suc.prems(7) by (simp add: p1)
    have sep: "set bs1 \<inter> rest = {}" using t(4) Suc.prems(2) by blast
    note ih = Suc.IH [OF t(5) sep t(3) rest(1-3) hdr nxt, unfolded rest(4)]
    have "n = m + (n - m)" using m(2) by simp
    then have "take_elements n (of_nat H) p h = res_bind (take_elements (n - m) (of_nat (H + m)) p1 h1) (\<lambda>(ys, p'', h''). Inr (take m xs @ ys, p'', h''))"
      using take_elements_add [of m "n - m" "of_nat H" p h] t(1) by simp
    then show ?thesis using run ih False by simp
  qed
qed

lemma take_no_blocks:
  assumes at: "producer_at h p bs B H T xs" and HT: "H < T" and ix: "pr_header p = Some ix"
    and idx: "get_block_index_index_for_index (of_nat H) p = Inr idx"
  shows "take_blocks (Suc fuel) (of_nat H) (of_nat H) ix idx p h = Inr ([], p, h)"
proof -
  obtain ix' idx' e b bk where o: "pr_header p = Some ix'" "idx' < length (ih_index ix')" "e = ih_index ix' ! idx'"
    "\<And>s. s < 32 \<Longrightarrow> get_block_index_index_for_index (of_nat (32 * (H div 32) + s)) p = Inr idx'" "ie_value (pr_entries p ! e) = Some b"
    "block_at h b = Some bk" "unat (bk_dequeued bk) = H mod 32"
    using oldest_block [OF at HT] by blast
  have eq: "ix' = ix" "idx' = idx" using o(1) ix idx o(4) [of "H mod 32"] by simp_all
  have "set_many_empty 0 bk = (False, bk)" using o(7) mod_less_divisor [OF zero_less_numeral, of H]
    by (auto simp: set_many_empty_def BLOCK_SIZE_def)
  then show ?thesis using end_index(1) [of 0 H] o(2,3,5) write_block_same [OF o(6)] read_block_Inr [OF o(6)]
    unfolding take_blocks.simps(2) Let_def add_0_right min_0L eq by simp
qed

lemma dequeue_bulk_spec:
  assumes heap: "heap_inv h (own \<union> rest)" and sep: "own \<inter> rest = {}" and holds: "producer_holds h p own xs"
  shows "\<exists>p' h' own'. producer_dequeue_bulk limit p h = Inr (take (unat limit) xs, p', h') \<and>
    producer_holds h' p' own' (drop (unat limit) xs) \<and> own' \<subseteq> own \<and> heap_inv h' (own' \<union> rest) \<and>
    (\<forall>c \<in> rest. block_at h' c = block_at h c) \<and> (pr_header p' = None \<longleftrightarrow> pr_header p = None)"
proof (cases "xs = []")
  case True
  obtain B H T where c: "counters_at p B H T" "T - H = 0" using holds True by (auto simp: producer_holds_def producer_at_def)
  then have "H = T" by (simp add: counters_at_def)
  then have "producer_dequeue_bulk limit p h = Inr ([], p, h)"
    using c by (simp add: producer_dequeue_bulk_def counters_at_def circular_less_than_def)
  with assms True show ?thesis by auto
next
  case False
  then obtain bs B H T where at: "producer_at h p bs B H T xs" and B: "32 * B < T + 32" and own: "own = set bs"
    using holds unfolding producer_holds_def by blast
  define n where "n = min (unat limit) (T - H)"
  have c: "pr_head p = of_nat H" "pr_tail p = of_nat T" "pr_optimistic p - pr_overcommit p = of_nat H" "H \<le> T" "T - H < 2 ^ 63"
    "length xs = T - H" "pr_header p \<noteq> None"
    using at unfolding producer_at_def counters_at_def by (auto dest: index_holds_header)
  then have HT: "H < T" using False by (cases "H = T") simp_all
  define q where "q = with_counts (of_nat (H + n)) (pr_optimistic p + of_nat n) p"
  obtain ix idx where ix: "pr_header p = Some ix" "get_block_index_index_for_index (of_nat H) p = Inr idx"
    using oldest_block [OF at HT] by (metis mod_less_divisor mult_div_mod_eq zero_less_numeral)
  have n: "n \<le> T - H" "n \<le> length xs" by (simp_all add: n_def c(6))
  have u: "unat (of_nat (T - H) :: u64) = T - H" using c(5) by (intro unat_of_nat_u64) simp
  have tail: "pr_tail p - of_nat H = of_nat (T - H)" using c(2,4) by (simp add: of_nat_diff)
  have some: "circular_less_than 0 (of_nat (T - H))" using circular_less_than_of_nat [of 0 "T - H"] c(5) HT by simp
  have least: "(if of_nat (T - H) < limit then of_nat (T - H) else limit) = (of_nat n :: u64)"
    by (simp add: n_def min_def word_less_nat_alt u)
  have least': "(if (of_nat n :: u64) < of_nat (T - H) then of_nat n else of_nat (T - H)) = (of_nat n :: u64)" "unat (of_nat n :: u64) = n"
  proof -
    show "unat (of_nat n :: u64) = n" using n(1) c(5) by (intro unat_of_nat_u64) simp
    then have "(of_nat n :: u64) < of_nat (T - H) \<longleftrightarrow> n < T - H" unfolding word_less_nat_alt u by simp
    then show "(if (of_nat n :: u64) < of_nat (T - H) then of_nat n else of_nat (T - H)) = (of_nat n :: u64)"
      using n(1) by (cases "n = T - H") simp_all
  qed
  have same: "pr_tail (p\<lparr>pr_optimistic := x\<rparr>) = pr_tail p" "pr_head (p\<lparr>pr_optimistic := x\<rparr>) = of_nat H" for x
    by (simp_all add: c(1))
  have q: "p\<lparr>pr_optimistic := pr_optimistic p + of_nat n, pr_head := of_nat H + of_nat n\<rparr> = q" by (simp add: q_def with_counts_def)
  have qi: "pr_header q = Some ix" "get_block_index_index_for_index (of_nat H) q = Inr idx" using ix by (simp_all add: q_def)
  have run: "producer_dequeue_bulk limit p h = take_blocks (Suc n) (of_nat H) (of_nat (H + n)) ix idx q h"
    unfolding producer_dequeue_bulk_def Let_def c(3) same tail some least least'(1)
    using some qi by (simp add: same q least'(2) del: take_blocks.simps)
  have restore: "with_counts (of_nat H) (pr_optimistic p) q = p" by (simp add: q_def c(1) [symmetric])
  note heap = heap [unfolded own] and sep = sep [unfolded own]
  have at': "producer_at h (with_counts (of_nat H) (pr_optimistic p) q) bs B H T xs" using at by (simp only: restore)
  have take: "take (unat limit) xs = take n xs" "drop (unat limit) xs = drop n xs" by (auto simp: n_def c(6) min_def)
  obtain p' h' bs' where t: "take_elements n (of_nat H) q h = Inr (take n xs, p', h')" "p' = with_counts (pr_head q) (pr_optimistic q) p'"
    "producer_at h' (with_counts (of_nat (H + n)) (pr_optimistic p + of_nat n) p') bs' B (H + n) T (drop n xs)" "set bs' \<subseteq> set bs"
    "heap_inv h' (set bs' \<union> rest)" "\<forall>b \<in> rest. block_at h' b = block_at h b"
    using take_many [OF heap sep at' n(2)] by (elim exE conjE) (rule that)
  have p': "with_counts (of_nat (H + n)) (pr_optimistic p + of_nat n) p' = p'" using t(2) by (simp add: q_def)
  note at'' = t(3) [unfolded p']
  have "producer_dequeue_bulk limit p h = Inr (take n xs, p', h')"
  proof (cases "n = 0")
    case True
    then have "q = p" by (simp add: q_def c(1) [symmetric])
    then show ?thesis using run take_no_blocks [OF at HT ix, of n] t(1) True by simp
  next
    case False
    then show ?thesis using run t(1) take_blocks_spec [OF heap sep at' _ n(2) _ qi, of "Suc n"] by simp
  qed
  moreover have "producer_holds h' p' (set bs') (drop n xs)" unfolding producer_holds_def using at'' B by blast
  moreover have "pr_header p' \<noteq> None" using at'' by (auto simp: producer_at_def dest: index_holds_header)
  ultimately show ?thesis using t(4-6) c(7) own unfolding take by (intro exI [of _ p'] exI [of _ h'] exI [of _ "set bs'"]) (simp del: not_None_eq)
qed

section \<open>From all the producers\<close>

lemma take_blocks_inactive: "take_blocks n i s ix idx p h = Inr (xs, p', h') \<Longrightarrow> pr_inactive p' = pr_inactive p"
proof (induction n arbitrary: i idx p h xs)
  case (Suc n)
  from Suc.prems show ?case unfolding take_blocks.simps(2) Let_def
    by (auto simp: res_bind_Inr_iff set_many_empty_def dest!: Suc.IH split: if_splits option.splits)
qed simp

lemma producer_dequeue_bulk_inactive: "producer_dequeue_bulk limit p h = Inr (xs, p', h') \<Longrightarrow> pr_inactive p' = pr_inactive p"
  by (auto simp: producer_dequeue_bulk_def Let_def res_bind_Inr_iff simp del: take_blocks.simps
    split: if_splits option.splits dest!: take_blocks_inactive)

lemma dequeue_bulk_from_spec:
  "\<lbrakk>moody_inv q; distinct js; set js \<subseteq> {..<length (cq_producers q)}\<rbrakk> \<Longrightarrow>
    \<exists>q'. dequeue_bulk_from js limit q = Inr (take (unat limit) (concat (map ((!) (streams q)) js)), q') \<and> moody_inv q' \<and>
      length (cq_producers q') = length (cq_producers q) \<and>
      concat (map ((!) (streams q')) js) = drop (unat limit) (concat (map ((!) (streams q)) js)) \<and>
      (\<forall>i < length (cq_producers q). \<exists>k. streams q' ! i = drop k (streams q ! i) \<and> (i \<notin> set js \<longrightarrow> k = 0))"
proof (induction js arbitrary: limit q)
  case Nil
  then show ?case by (auto intro: exI [of _ 0])
next
  case (Cons i js)
  let ?xs = "streams q ! i"
  have i: "i < length (cq_producers q)" "i \<notin> set js" using Cons.prems(2,3) by simp_all
  obtain own rest where ch: "heap_inv (cq_heap q) (own \<union> rest)" "own \<inter> rest = {}"
    "producer_holds (cq_heap q) (cq_producers q ! i) own ?xs"
    "\<And>pr h own' ys. \<lbrakk>producer_holds h pr own' ys; heap_inv h (own' \<union> rest); own' \<inter> rest = {};
      \<forall>c \<in> rest. block_at h c = block_at (cq_heap q) c; pr_inactive pr = pr_inactive (cq_producers q ! i)\<rbrakk> \<Longrightarrow>
      moody_inv (q\<lparr>cq_producers := (cq_producers q)[i := pr], cq_heap := h\<rparr>) \<and>
      streams (q\<lparr>cq_producers := (cq_producers q)[i := pr], cq_heap := h\<rparr>) = (streams q)[i := ys]"
    using change_at [OF Cons.prems(1) i(1)] by blast
  obtain pr h own' where e: "producer_dequeue_bulk limit (cq_producers q ! i) (cq_heap q) = Inr (take (unat limit) ?xs, pr, h)"
    "producer_holds h pr own' (drop (unat limit) ?xs)" "own' \<subseteq> own" "heap_inv h (own' \<union> rest)"
    "\<forall>c \<in> rest. block_at h c = block_at (cq_heap q) c"
    using dequeue_bulk_spec [OF ch(1-3), of limit] by (elim exE conjE) (rule that)
  have "own' \<inter> rest = {}" using e(3) ch(2) by blast
  note new = ch(4) [OF e(2,4) this e(5) producer_dequeue_bulk_inactive [OF e(1)]]
  define q1 where "q1 = q\<lparr>cq_producers := (cq_producers q)[i := pr], cq_heap := h\<rparr>"
  have q1: "moody_inv q1" "streams q1 = (streams q)[i := drop (unat limit) ?xs]" "length (cq_producers q1) = length (cq_producers q)"
    using new by (simp_all add: q1_def)
  have len: "length (streams q) = length (cq_producers q)" by (simp add: streams_def)
  have others: "map ((!) (streams q1)) js = map ((!) (streams q)) js" unfolding q1(2) using i(2) by (intro map_cong refl nth_list_update_neq) blast
  let ?cnt = "of_nat (length (take (unat limit) ?xs)) :: u64"
  have small: "length (take (unat limit) ?xs) \<le> unat limit" by simp
  then have cnt: "unat ?cnt = min (length ?xs) (unat limit)" using u64_lt [of limit] by (simp add: unat_of_nat_u64 min.commute)
  then have all: "?cnt = limit \<longleftrightarrow> unat limit \<le> length ?xs" by (auto simp: word_unat_eq_iff)
  have step: "dequeue_bulk_from (i # js) limit q = (if ?cnt = limit then Inr (take (unat limit) ?xs, q1)
      else res_bind (dequeue_bulk_from js (limit - ?cnt) q1) (\<lambda>(ys, q''). Inr (take (unat limit) ?xs @ ys, q'')))"
    by (simp add: e(1) q1_def Let_def)
  have suffix: "\<exists>k. sts ! c = drop k (streams q ! c) \<and> (c \<notin> set (i # js) \<longrightarrow> k = 0)"
    if "c < length (cq_producers q)" "\<And>c. c < length (cq_producers q) \<Longrightarrow> \<exists>k. sts ! c = drop k (streams q1 ! c) \<and> (c \<notin> set js \<longrightarrow> k = 0)" for c sts
    using that(2) [OF that(1)] that(1) len by (cases "c = i") (auto simp: q1(2))
  show ?case
  proof (cases "?cnt = limit")
    case True
    then have "unat limit \<le> length ?xs" using all by simp
    moreover have "concat (map ((!) (streams q1)) (i # js)) = drop (unat limit) ?xs @ concat (map ((!) (streams q)) js)"
      unfolding list.map concat.simps others using i(1) len by (simp add: q1(2))
    ultimately have "dequeue_bulk_from (i # js) limit q = Inr (take (unat limit) (concat (map ((!) (streams q)) (i # js))), q1)"
      "concat (map ((!) (streams q1)) (i # js)) = drop (unat limit) (concat (map ((!) (streams q)) (i # js)))"
      using step True by simp_all
    moreover have "\<exists>k. streams q1 ! c = drop k (streams q ! c) \<and> (c \<notin> set (i # js) \<longrightarrow> k = 0)" if "c < length (cq_producers q)" for c
      using that by (rule suffix) (auto intro: exI [of _ 0])
    ultimately show ?thesis using q1(1,3) by blast
  next
    case False
    then have short: "length ?xs < unat limit" using all by simp
    then have rest: "unat (limit - ?cnt) = unat limit - length ?xs" using cnt by (simp add: unat_sub_if_size word_size)
    have "set js \<subseteq> {..<length (cq_producers q1)}" using Cons.prems(3) q1(3) by simp
    from Cons.IH [OF q1(1) _ this, of "limit - ?cnt"] obtain q' where r:
      "dequeue_bulk_from js (limit - ?cnt) q1 = Inr (take (unat limit - length ?xs) (concat (map ((!) (streams q)) js)), q')" "moody_inv q'"
      "length (cq_producers q') = length (cq_producers q)"
      "concat (map ((!) (streams q')) js) = drop (unat limit - length ?xs) (concat (map ((!) (streams q)) js))"
      "\<And>c. c < length (cq_producers q) \<Longrightarrow> \<exists>k. streams q' ! c = drop k (streams q1 ! c) \<and> (c \<notin> set js \<longrightarrow> k = 0)"
      using Cons.prems(2) unfolding rest others q1(3) by auto
    have "streams q' ! i = []" using r(5) [OF i(1)] i len short by (auto simp: q1(2))
    then have "dequeue_bulk_from (i # js) limit q = Inr (take (unat limit) (concat (map ((!) (streams q)) (i # js))), q')"
      "concat (map ((!) (streams q')) (i # js)) = drop (unat limit) (concat (map ((!) (streams q)) (i # js)))"
      using step False r(1,4) short by simp_all
    moreover have "\<exists>k. streams q' ! c = drop k (streams q ! c) \<and> (c \<notin> set (i # js) \<longrightarrow> k = 0)" if "c < length (cq_producers q)" for c
      using that r(5) by (rule suffix)
    ultimately show ?thesis using r(2,3) by blast
  qed
qed

lemma try_dequeue_bulk_spec:
  assumes "moody_inv q"
  shows "\<exists>q'. try_dequeue_bulk limit q = Inr (take (unat limit) (concat (rev (streams q))), q') \<and> moody_inv q' \<and>
    concat (rev (streams q')) = drop (unat limit) (concat (rev (streams q))) \<and>
    (\<forall>i < length (streams q). \<exists>k. streams q' ! i = drop k (streams q ! i))"
proof -
  let ?js = "rev [0..<length (cq_producers q)]"
  have map: "map ((!) sts) ?js = rev sts" if "length sts = length (cq_producers q)" for sts :: "'a list list"
    using map_nth [of sts] that by (simp add: rev_map [symmetric])
  have len: "length (streams p) = length (cq_producers p)" for p :: "'a cqueue" by (simp add: streams_def)
  have "distinct ?js" "set ?js \<subseteq> {..<length (cq_producers q)}" by auto
  from dequeue_bulk_from_spec [OF assms this, of limit] show ?thesis
    unfolding try_dequeue_bulk_def by (auto simp: map len)
qed

section \<open>Properties\<close>

text \<open>
  C26: \<open>try_dequeue_bulk\<close> returns and takes as many elements as it is asked for, or all there are: the
  streams one after another, the newest producer first, each from its oldest element on. What it
  leaves is what is left of every stream behind the elements taken.
\<close>

theorem moody_dequeue_bulk:
  assumes "moody_inv q"
  shows "\<exists>q'. try_dequeue_bulk limit q = Inr (take (unat limit) (concat (rev (streams q))), q') \<and> moody_inv q' \<and>
    concat (rev (streams q')) = drop (unat limit) (concat (rev (streams q))) \<and>
    (\<forall>i < length (streams q). \<exists>k. streams q' ! i = drop k (streams q ! i))"
  using try_dequeue_bulk_spec [OF assms] .

lemma moody_dequeue_bulk_witness:
  "\<exists>q. try_dequeue_bulk 5 two_elements = Inr ([7, 8], q) \<and> moody_inv q \<and> concat (rev (streams q)) = []"
proof -
  have s: "streams two_elements = [[7, 8]]" by code_simp
  obtain q where "try_dequeue_bulk 5 two_elements = Inr (take (unat (5 :: u64)) (concat (rev (streams two_elements))), q)" "moody_inv q"
    "concat (rev (streams q)) = drop (unat (5 :: u64)) (concat (rev (streams two_elements)))"
    using moody_dequeue_bulk [OF two_elements_inv, of 5] by blast
  then show ?thesis by (simp add: s)
qed

end
