(* ===== verification/MoodyBulkEnqueue.thy ===== *)
theory MoodyBulkEnqueue
  imports MoodyFifo
begin

text \<open>
  Enqueueing many elements at once on a \<^verbatim>\<open>moodycamel::ConcurrentQueue\<close>
  (moodycamel/concurrentqueue.h, \<^verbatim>\<open>enqueue_bulk\<close> and \<^verbatim>\<open>ImplicitProducer::enqueue_bulk\<close>), for the
  calls of one thread after another and elements that do not throw when they are copied: all blocks
  are reserved first, and given back if one of them is not to be had.
\<close>

section \<open>Model\<close>

text \<open>
  The chain of the new blocks, which the code keeps in their \<^verbatim>\<open>next\<close> fields, is a list. A store to
  \<^verbatim>\<open>next\<close> needs a block that is there.
\<close>

definition link_next :: "bool \<Rightarrow> producer \<Rightarrow> 'a mheap \<Rightarrow> unit res" where
  "link_next linked p h = (if linked then case pr_tail_block p of None \<Rightarrow> Inl (UB Null_Deref)
     | Some tailBlock \<Rightarrow> res_bind (read_block h tailBlock) (\<lambda>_. Inr ()) else Inr ())"

text \<open>
  \<open>n\<close> blocks, for \<open>blockBaseDiff = 32 * n\<close>; \<open>mem i\<close> says whether memory for a larger index and for
  a block is there when \<open>i\<close> more blocks are needed. The result is whether all were reserved, and
  the new blocks, the oldest first.
\<close>

fun reserve_blocks :: "nat \<Rightarrow> (nat \<Rightarrow> bool \<times> bool) \<Rightarrow> u64 \<Rightarrow> u64 \<Rightarrow> producer \<Rightarrow> 'a mheap \<Rightarrow> nat list \<Rightarrow>
    (bool \<times> nat list \<times> producer \<times> 'a mheap) res" where
  "reserve_blocks 0 mem startTailIndex cur p h chain = Inr (True, chain, p, h)"
| "reserve_blocks (Suc n) mem startTailIndex cur p h chain = (let currentTailIndex = cur + BLOCK_SIZE in
    if \<not> circular_less_than (pr_head p) (currentTailIndex + BLOCK_SIZE) then Inr (False, chain, p, h)
    else (case insert_block_index_entry (fst (mem n)) currentTailIndex p of (None, p1) \<Rightarrow> Inr (False, chain, p1, h)
      | (Some idxEntry, p1) \<Rightarrow> res_bind (requisition_block (snd (mem n)) h) (\<lambda>(newBlock, h1). case newBlock of
            None \<Rightarrow> Inr (False, chain, set_entry_value idxEntry None (rewind_block_index_tail p1), h1)
          | Some b \<Rightarrow> res_bind (read_block h1 b) (\<lambda>bk. let h2 = write_block h1 b (reset_empty bk) in
              res_bind (link_next (startTailIndex AND (BLOCK_SIZE - 1) \<noteq> 0 \<or> chain \<noteq> []) p1 h2) (\<lambda>_.
                reserve_blocks n mem startTailIndex currentTailIndex
                  ((set_entry_value idxEntry (Some b) p1)\<lparr>pr_tail_block := Some b\<rparr>) h2 (chain @ [b]))))))"

text \<open>Taking the new blocks out of the index again, the oldest first.\<close>

fun undo_index :: "nat list \<Rightarrow> u64 \<Rightarrow> producer \<Rightarrow> producer res" where
  "undo_index [] currentTailIndex p = Inr p"
| "undo_index (block # chain) currentTailIndex p = res_bind (get_block_index_entry_for_index (currentTailIndex + BLOCK_SIZE) p) (\<lambda>idxEntry.
    undo_index chain (currentTailIndex + BLOCK_SIZE) (rewind_block_index_tail (set_entry_value idxEntry None p)))"

fun add_blocks_to_free_list :: "'a mheap \<Rightarrow> nat list \<Rightarrow> 'a mheap res" where
  "add_blocks_to_free_list h [] = Inr h"
| "add_blocks_to_free_list h (block # chain) = res_bind (add_block_to_free_list h block) (\<lambda>h'. add_blocks_to_free_list h' chain)"

text \<open>The elements of one block, which is only looked at when there is one.\<close>

fun construct_items :: "'a list \<Rightarrow> u64 \<Rightarrow> 'a block \<Rightarrow> 'a block" where
  "construct_items [] currentTailIndex bk = bk"
| "construct_items (x # xs) currentTailIndex bk = construct_items xs (currentTailIndex + 1) (construct bk currentTailIndex x)"

definition put_items :: "'a list \<Rightarrow> u64 \<Rightarrow> nat option \<Rightarrow> 'a mheap \<Rightarrow> 'a mheap res" where
  "put_items xs currentTailIndex tailBlock h = (if xs = [] then Inr h
    else case tailBlock of None \<Rightarrow> Inl (UB Null_Deref)
      | Some b \<Rightarrow> res_bind (read_block h b) (\<lambda>bk. Inr (write_block h b (construct_items xs currentTailIndex bk))))"

fun fill_blocks :: "nat option list \<Rightarrow> nat option \<Rightarrow> 'a list \<Rightarrow> u64 \<Rightarrow> u64 \<Rightarrow> 'a mheap \<Rightarrow> 'a mheap res" where
  "fill_blocks [] endBlock items currentTailIndex newTailIndex h = Inl (UB Null_Deref)"
| "fill_blocks (tailBlock # chain) endBlock items currentTailIndex newTailIndex h = (
    let blockEnd = (currentTailIndex AND NOT (BLOCK_SIZE - 1)) + BLOCK_SIZE;
        stopIndex = (if circular_less_than newTailIndex blockEnd then newTailIndex else blockEnd);
        n = unat (stopIndex - currentTailIndex) in
    res_bind (put_items (take n items) currentTailIndex tailBlock h) (\<lambda>h'.
      if tailBlock = endBlock then Inr h' else fill_blocks chain endBlock (drop n items) stopIndex newTailIndex h'))"

text \<open>\<open>items\<close> are the \<^verbatim>\<open>count\<close> elements from \<^verbatim>\<open>itemFirst\<close> on.\<close>

definition producer_enqueue_bulk :: "(nat \<Rightarrow> bool \<times> bool) \<Rightarrow> 'a list \<Rightarrow> producer \<Rightarrow> 'a mheap \<Rightarrow> (bool \<times> producer \<times> 'a mheap) res" where
  "producer_enqueue_bulk mem items p h = (
    let startTailIndex = pr_tail p; startBlock = pr_tail_block p; cnt = of_nat (length items);
        base = (startTailIndex - 1) AND NOT (BLOCK_SIZE - 1);
        blockBaseDiff = ((startTailIndex + cnt - 1) AND NOT (BLOCK_SIZE - 1)) - base in
    res_bind (reserve_blocks (unat (blockBaseDiff div BLOCK_SIZE)) mem startTailIndex base p h []) (\<lambda>(ok, chain, p1, h1).
      if \<not> ok then res_bind (undo_index chain base p1) (\<lambda>p2. res_bind (add_blocks_to_free_list h1 chain) (\<lambda>h2.
        Inr (False, p2\<lparr>pr_tail_block := startBlock\<rparr>, h2)))
      else
        let newTailIndex = startTailIndex + cnt; endBlock = pr_tail_block p1;
            blocks = (if startTailIndex AND (BLOCK_SIZE - 1) = 0 \<and> chain \<noteq> [] then map Some chain else startBlock # map Some chain) in
        res_bind (fill_blocks blocks endBlock items startTailIndex newTailIndex h1) (\<lambda>h2.
          Inr (True, p1\<lparr>pr_tail_block := endBlock, pr_tail := newTailIndex\<rparr>, h2))))"

definition inner_enqueue_bulk :: "alloc \<Rightarrow> (nat \<Rightarrow> bool \<times> bool) \<Rightarrow> u64 \<Rightarrow> 'a list \<Rightarrow> 'a cqueue \<Rightarrow> (bool \<times> 'a cqueue) res" where
  "inner_enqueue_bulk a mem tid items q = res_bind (get_or_add_implicit_producer a tid q) (\<lambda>(r, q1). case r of
      None \<Rightarrow> Inr (False, q1)
    | Some p \<Rightarrow> if p \<ge> length (cq_producers q1) then Inl (UB Out_Of_Bounds)
        else res_bind (producer_enqueue_bulk mem items (cq_producers q1 ! p) (cq_heap q1)) (\<lambda>(b, pr, h).
          Inr (b, q1\<lparr>cq_producers := (cq_producers q1)[p := pr], cq_heap := h\<rparr>)))"

section \<open>Reserving the blocks\<close>

lemma link_live:
  assumes heap: "heap_inv h (set bs \<union> rest)" and "producer_at h p bs B H T xs" "linked \<longrightarrow> bs \<noteq> []" "pr_tail_block p1 = pr_tail_block p"
    and h': "\<forall>c \<in> set bs. block_at h' c = block_at h c"
  shows "link_next linked p1 h' = Inr ()"
proof (cases linked)
  case True
  then have tb: "pr_tail_block p1 = Some (bs ! 0)" "bs ! 0 \<in> set bs" using assms(2-4) by (auto simp: producer_at_def intro!: nth_mem)
  then have "bs ! 0 \<in> set bs \<union> rest" by blast
  then have "idle_block h (bs ! 0)" using heap by (auto elim: heap_invE)
  then obtain bk where "block_at h' (bs ! 0) = Some bk" using h' tb(2) by (auto simp: idle_block_def)
  then show ?thesis using tb(1) by (simp add: link_next_def read_block_Inr)
qed (simp add: link_next_def)

definition reserved :: "nat \<Rightarrow> (nat \<Rightarrow> bool \<times> bool) \<Rightarrow> nat list \<Rightarrow> nat set \<Rightarrow> nat \<Rightarrow> nat \<Rightarrow> nat \<Rightarrow> 'a list \<Rightarrow>
    producer \<Rightarrow> 'a mheap \<Rightarrow> bool \<Rightarrow> nat list \<Rightarrow> producer \<Rightarrow> 'a mheap \<Rightarrow> bool" where
  "reserved n mem bs rest B H T xs p h ok new p' h' \<longleftrightarrow>
    producer_at h' p' (rev new @ bs) (B + length new) H T xs \<and> heap_inv h' (set (rev new @ bs) \<union> rest) \<and>
    set (rev new @ bs) \<inter> rest = {} \<and> (\<forall>c \<in> set bs \<union> rest. block_at h' c = block_at h c) \<and>
    pr_inactive p' = pr_inactive p \<and> pr_tail_block p' = (if new = [] then pr_tail_block p else Some (last new)) \<and>
    (ok \<longrightarrow> length new = n) \<and> (\<not> ok \<longrightarrow> length new < n \<and> ((\<exists>i < n. mem i \<noteq> (True, True)) \<or> H + 2 ^ 63 \<le> 32 * (B + n)))"

lemma reserve_blocks_spec:
  "\<lbrakk>heap_inv h (set bs \<union> rest); set bs \<inter> rest = {}; producer_at h p bs B H T xs; T \<le> 32 * B; cur = of_nat (32 * B) - BLOCK_SIZE;
    start AND (BLOCK_SIZE - 1) \<noteq> 0 \<or> chain \<noteq> [] \<longrightarrow> bs \<noteq> []\<rbrakk> \<Longrightarrow>
    \<exists>ok new p' h'. reserve_blocks n mem start cur p h chain = Inr (ok, chain @ new, p', h') \<and>
      reserved n mem bs rest B H T xs p h ok new p' h'"
proof (induction n arbitrary: p h bs B cur chain)
  case 0
  then show ?case by (auto simp: reserved_def intro!: exI [of _ "[] :: nat list"])
next
  case (Suc n)
  have p: "index_holds p B bs" "length bs = B - H div 32" "counters_at p B H T" using Suc.prems(3) by (simp_all add: producer_at_def)
  have c: "pr_head p = of_nat H" "H \<le> T" "32 * B < H + 2 ^ 63" using p(3) by (simp_all add: counters_at_def)
  have cur: "cur + BLOCK_SIZE = of_nat (32 * B)" using Suc.prems(5) by simp
  have next_block: "of_nat (32 * B) + BLOCK_SIZE = (of_nat (32 * Suc B) :: u64)" by (simp add: BLOCK_SIZE_def)
  have less: "circular_less_than (pr_head p) (of_nat (32 * Suc B)) \<longleftrightarrow> 32 * Suc B < H + 2 ^ 63"
    using circular_less_than_of_nat [of H "32 * Suc B"] c Suc.prems(4) by simp
  note run = reserve_blocks.simps(2) [of n mem start cur p h chain, unfolded Let_def cur next_block less]
  have fail: "reserved (Suc n) mem bs rest B H T xs p h False [] q h"
    if "producer_at h q bs B H T xs" "same_counters p q" "(\<exists>i < Suc n. mem i \<noteq> (True, True)) \<or> H + 2 ^ 63 \<le> 32 * (B + Suc n)" for q
    using that Suc.prems(1,2) by (simp add: reserved_def same_counters_def)
  show ?case
  proof (cases "32 * Suc B < H + 2 ^ 63")
    case False
    then have "reserved (Suc n) mem bs rest B H T xs p h False [] p h"
      using Suc.prems(3) by (intro fail) (simp_all add: same_counters_def)
    moreover have "reserve_blocks (Suc n) mem start cur p h chain = Inr (False, chain @ [], p, h)"
      unfolding run using False by simp
    ultimately show ?thesis by blast
  next
    case room: True
    from insert_spec [OF p(1), of "fst (mem n)"] show ?thesis
    proof (elim disjE exE conjE)
      assume none: "insert_block_index_entry (fst (mem n)) (of_nat (32 * B)) p = (None, p)" and "\<not> fst (mem n)"
      then have "mem n \<noteq> (True, True)" by auto
      then have "reserved (Suc n) mem bs rest B H T xs p h False [] p h"
        using Suc.prems(3) by (intro fail) (auto simp: same_counters_def)
      moreover have "reserve_blocks (Suc n) mem start cur p h chain = Inr (False, chain @ [], p, h)"
        unfolding run none using room by simp
      ultimately show ?thesis by blast
    next
      assume "length bs = 2 ^ 58"
      then have "B = H div 32 + 2 ^ 58" using p(2) by simp
      then have False using room by simp
      then show ?thesis ..
    next
      fix e p1 assume ins: "insert_block_index_entry (fst (mem n)) (of_nat (32 * B)) p = (Some e, p1)" "index_reserved p1 B bs e" "same_counters p p1"
      obtain r h1 where req: "requisition_block (snd (mem n)) h = Inr (r, h1)" "\<forall>b \<in> set bs \<union> rest. block_at h1 b = block_at h b"
        "case r of None \<Rightarrow> \<not> snd (mem n) \<and> h1 = h | Some b \<Rightarrow> b \<notin> set bs \<union> rest \<and> heap_inv h1 (insert b (set bs \<union> rest))"
        using requisition_spec [OF Suc.prems(1), of "snd (mem n)"] by blast
      show ?thesis
      proof (cases r)
        case None
        let ?q = "set_entry_value e None (rewind_block_index_tail p1)"
        have q: "same_counters p ?q" using ins(3) by (simp add: same_counters_def)
        have "index_holds ?q B bs" using ins(2) by (rule cancel_spec)
        then have "producer_at h ?q bs B H T xs"
          using Suc.prems(3) counters_at_cong [OF q] q by (simp add: producer_at_def same_counters_def)
        moreover have "mem n \<noteq> (True, True)" using req(3) None by auto
        ultimately have "reserved (Suc n) mem bs rest B H T xs p h False [] ?q h" using q by (intro fail) auto
        moreover have "reserve_blocks (Suc n) mem start cur p h chain = Inr (False, chain @ [], ?q, h)"
          unfolding run ins(1) using req None room by simp
        ultimately show ?thesis by blast
      next
        case (Some b)
        with req have b: "b \<notin> set bs \<union> rest" "heap_inv h1 (insert b (set bs \<union> rest))" by simp_all
        let ?q = "(set_entry_value e (Some b) p1)\<lparr>pr_tail_block := Some b\<rparr>"
        obtain bk where s: "read_block h1 b = Inr bk" "heap_inv (write_block h1 b (reset_empty bk)) (set (b # bs) \<union> rest)"
          "producer_at (write_block h1 b (reset_empty bk)) ?q (b # bs) (Suc B) H T xs"
          using start_block [OF Suc.prems(1,3,4) room ins(2,3) b req(2)] by blast
        define h2 where "h2 = write_block h1 b (reset_empty bk)"
        have h2: "\<forall>c \<in> set bs \<union> rest. block_at h2 c = block_at h c" using req(2) b(1) by (auto simp: h2_def)
        have "pr_tail_block p1 = pr_tail_block p" using ins(3) by (simp add: same_counters_def)
        from link_live [OF Suc.prems(1,3,6) this, of h2] h2
        have link: "link_next (start AND (BLOCK_SIZE - 1) \<noteq> 0 \<or> chain \<noteq> []) p1 h2 = Inr ()" by blast
        have step: "reserve_blocks (Suc n) mem start cur p h chain = reserve_blocks n mem start (of_nat (32 * B)) ?q h2 (chain @ [b])"
          unfolding run ins(1) using req(1) Some room link s(1) by (simp add: h2_def [symmetric])
        have cur': "of_nat (32 * B) = of_nat (32 * Suc B) - BLOCK_SIZE" by (simp add: BLOCK_SIZE_def)
        have sep: "set (b # bs) \<inter> rest = {}" using Suc.prems(2) b(1) by auto
        have "T \<le> 32 * Suc B" using Suc.prems(4) by simp
        from Suc.IH [OF s(2) [folded h2_def] sep s(3) [folded h2_def] this cur', of "chain @ [b]"]
        obtain ok new p' h' where r: "reserve_blocks n mem start (of_nat (32 * B)) ?q h2 (chain @ [b]) = Inr (ok, (chain @ [b]) @ new, p', h')"
          "reserved n mem (b # bs) rest (Suc B) H T xs ?q h2 ok new p' h'" by auto
        have "reserved (Suc n) mem bs rest B H T xs p h ok (b # new) p' h'"
          using r(2) h2 ins(3) less_Suc_eq unfolding reserved_def by (auto simp: same_counters_def)
        then show ?thesis using step r(1) by (intro exI [of _ ok] exI [of _ "b # new"] exI [of _ p'] exI [of _ h']) simp
      qed
    qed
  qed
qed

section \<open>Giving the blocks back\<close>

lemma behind_further: "\<lbrakk>i + e \<le> n; 0 < n\<rbrakk> \<Longrightarrow> (behind n t i + n - e) mod n = behind n t (i + e)"
proof -
  assume a: "i + e \<le> n" "0 < n"
  have "((t + n - i) mod n + (n - e)) mod n = (t + n - i + (n - e)) mod n" by (simp only: mod_add_left_eq)
  also have "t + n - i + (n - e) = t + n - (i + e) + n" using a by linarith
  also have "(t + n - (i + e) + n) mod n = (t + n - (i + e)) mod n" by simp
  finally have "((t + n - i) mod n + (n - e)) mod n = (t + n - (i + e)) mod n" .
  moreover have "(t + n - i) mod n + (n - e) = (t + n - i) mod n + n - e" using a by linarith
  ultimately show ?thesis by (simp only: behind_def)
qed

lemma behind_nearer: "\<lbrakk>e \<le> i; i \<le> n\<rbrakk> \<Longrightarrow> (behind n t i + e) mod n = behind n t (i - e)"
proof -
  assume a: "e \<le> i" "i \<le> n"
  have "((t + n - i) mod n + e) mod n = (t + n - i + e) mod n" by (simp only: mod_add_left_eq)
  also have "t + n - i + e = t + n - (i - e)" using a by linarith
  finally show ?thesis by (simp only: behind_def)
qed

text \<open>
  After \<open>i\<close> of the last \<open>m\<close> blocks were taken out of the index of \<open>p\<close>: the tail is \<open>i\<close> places further back,
  and the entries of the \<open>i\<close> oldest of the \<open>m\<close> have no block.
\<close>

definition undone :: "nat \<Rightarrow> producer \<Rightarrow> index_header \<Rightarrow> nat \<Rightarrow> nat \<Rightarrow> producer \<Rightarrow> bool" where
  "undone k p ix m i q \<longleftrightarrow> same_counters p q \<and> length (pr_entries q) = length (pr_entries p) \<and> pr_next_capacity q = pr_next_capacity p \<and>
    (\<exists>u. pr_header q = Some (ix\<lparr>ih_tail := u\<rparr>) \<and> unat u = behind (2 ^ k) (unat (ih_tail ix)) i) \<and>
    (\<forall>d < 2 ^ k. pr_entries q ! (ih_index ix ! behind (2 ^ k) (unat (ih_tail ix)) d) =
      (if m - i \<le> d \<and> d < m then (entry_behind k p ix d)\<lparr>ie_value := None\<rparr> else entry_behind k p ix d))"

lemma undone_wf: "\<lbrakk>undone k p ix m i q; index_wf k p ix; pr_header q = Some jx\<rbrakk> \<Longrightarrow> index_wf k q jx"
  by (auto simp: undone_def index_wf_def behind_lt)

lemma undone_step:
  assumes un: "undone k p ix m i q" and wf: "index_wf k p ix" and i: "i < m" "m \<le> 2 ^ k"
    and keys: "\<And>d. d < m \<Longrightarrow> ie_key (entry_behind k p ix d) = of_nat (32 * (B + m - Suc d))"
  shows "\<exists>e. get_block_index_entry_for_index (of_nat (32 * (B + i))) q = Inr e \<and>
    undone k p ix m (Suc i) (rewind_block_index_tail (set_entry_value e None q))"
proof -
  note w = index_wfD [OF wf]
  let ?n = "(2 :: nat) ^ k" and ?t = "unat (ih_tail ix)"
  obtain u where u: "pr_header q = Some (ix\<lparr>ih_tail := u\<rparr>)" "unat u = behind ?n ?t i" using un by (auto simp: undone_def)
  define jx where "jx = ix\<lparr>ih_tail := u\<rparr>"
  have wf': "index_wf k q jx" using un wf u(1) unfolding jx_def by (rule undone_wf)
  have ent: "pr_entries q ! (ih_index ix ! behind ?n ?t d) = (if m - i \<le> d \<and> d < m then (entry_behind k p ix d)\<lparr>ie_value := None\<rparr> else entry_behind k p ix d)"
    if "d < ?n" for d using un that by (simp add: undone_def)
  have "ie_key (pr_entries q ! (ih_index jx ! unat (ih_tail jx))) = ie_key (entry_behind k p ix i)"
    using ent [of i] i by (simp add: jx_def u(2))
  then have key: "ie_key (pr_entries q ! (ih_index jx ! unat (ih_tail jx))) = of_nat (32 * (B + m - Suc i))" using keys [OF i(1)] by simp
  have "?n \<le> 2 ^ 58" using w(2) by (intro power_increasing) simp_all
  then have near: "B + i < B + m - Suc i + 2 ^ 58" "B + m - Suc i < B + i + 2 ^ 58" using i by linarith+
  define pos where "pos = behind ?n ?t (m - Suc i)"
  have move: "unat ((u + (of_nat (B + i) - of_nat (B + m - Suc i))) AND (2 ^ k - 1)) = pos"
  proof (cases "i \<le> m - Suc i")
    case True
    define e where "e = m - Suc i - i"
    have e: "e \<le> ?n" "i + e = m - Suc i" "B + m - Suc i = B + i + e" using True i by (simp_all add: e_def)
    then have "u + (of_nat (B + i) - of_nat (B + m - Suc i)) = u - of_nat e" by simp
    moreover have "unat ((u - of_nat e) AND (2 ^ k - 1)) = (unat u + ?n - e) mod ?n"
      using w(2) e(1) by (intro unat_sub_of_nat_mask) simp_all
    moreover have "(behind ?n ?t i + ?n - e) mod ?n = behind ?n ?t (i + e)" using e(2) i by (intro behind_further) simp_all
    ultimately show ?thesis by (simp only: u(2) pos_def e(2))
  next
    case False
    define e where "e = i - (m - Suc i)"
    have e: "e \<le> i" "i - e = m - Suc i" "B + i = B + m - Suc i + e" using False i by (simp_all add: e_def)
    have "of_nat (B + i) - of_nat (B + m - Suc i) = (of_nat e :: u64)" unfolding e(3) by simp
    then have "unat ((u + (of_nat (B + i) - of_nat (B + m - Suc i))) AND (2 ^ k - 1)) = (unat u + e) mod ?n"
      using unat_add_of_nat_mask [of k u e] w(2) by simp
    moreover have "(behind ?n ?t i + e) mod ?n = behind ?n ?t (i - e)" using e(1) i by (intro behind_nearer) simp_all
    ultimately show ?thesis by (simp only: u(2) pos_def e(2))
  qed
  have "get_block_index_index_for_index (of_nat (32 * (B + i) + 0)) q = Inr pos"
    using lookup_position [OF wf' key near, of 0] move by (simp add: jx_def)
  moreover have pos: "pos < ?n" by (simp add: pos_def behind_lt)
  ultimately have run: "get_block_index_entry_for_index (of_nat (32 * (B + i))) q = Inr (ih_index ix ! pos)"
    using w(4) by (simp add: get_block_index_entry_for_index_def u(1))
  define q' where "q' = rewind_block_index_tail (set_entry_value (ih_index ix ! pos) None q)"
  have q': "same_counters p q'" "pr_next_capacity q' = pr_next_capacity p" "length (pr_entries q') = length (pr_entries p)"
    "pr_header q' = Some (ix\<lparr>ih_tail := (u - 1) AND (2 ^ k - 1)\<rparr>)"
    "pr_entries q' = (pr_entries q)[ih_index ix ! pos := (pr_entries q ! (ih_index ix ! pos))\<lparr>ie_value := None\<rparr>]"
    using un by (auto simp: undone_def q'_def rewind_block_index_tail_def set_entry_value_def same_counters_def u(1) w(3))
  have "unat ((u - 1) AND (2 ^ k - 1)) = (unat u + ?n - 1) mod ?n" using unat_sub_of_nat_mask [of k 1 u] w(2) by simp
  then have tail: "unat ((u - 1) AND (2 ^ k - 1)) = behind ?n ?t (Suc i)"
    using behind_further [of i 1 ?n ?t] i by (simp add: u(2))
  have "pr_entries q' ! (ih_index ix ! behind ?n ?t d) =
      (if m - Suc i \<le> d \<and> d < m then (entry_behind k p ix d)\<lparr>ie_value := None\<rparr> else entry_behind k p ix d)" if d: "d < ?n" for d
  proof -
    have lt: "behind ?n ?t d < ?n" "ih_index ix ! behind ?n ?t d < length (pr_entries q)"
      using entry_position [OF wf d] un by (simp_all add: undone_def behind_lt)
    have "ih_index ix ! behind ?n ?t d = ih_index ix ! pos \<longleftrightarrow> d = m - Suc i"
      using behind_inj [of d ?n "m - Suc i" ?t] d i pos lt(1) w(4,5) by (auto simp: nth_eq_iff_index_eq pos_def)
    note place = this
    have "pr_entries q' ! (ih_index ix ! behind ?n ?t d) = (if d = m - Suc i then (entry_behind k p ix d)\<lparr>ie_value := None\<rparr>
        else pr_entries q ! (ih_index ix ! behind ?n ?t d))"
    proof (cases "d = m - Suc i")
      case True
      then have "ih_index ix ! pos = ih_index ix ! behind ?n ?t d" "\<not> m - i \<le> d" using place i by auto
      then show ?thesis using ent [OF d] True lt(2) by (simp add: q'(5))
    next
      case False
      then have "ih_index ix ! behind ?n ?t d \<noteq> ih_index ix ! pos" using place by simp
      then show ?thesis using False by (simp add: q'(5))
    qed
    moreover have "m - Suc i \<le> d \<and> d < m \<longleftrightarrow> d = m - Suc i \<or> m - i \<le> d \<and> d < m" using i by linarith
    ultimately show ?thesis using ent [OF d] by auto
  qed
  then have "undone k p ix m (Suc i) q'" unfolding undone_def using q'(1-4) tail by blast
  with run show ?thesis unfolding q'_def by blast
qed

lemma undo_index_spec:
  "\<lbrakk>undone k p ix m i q; index_wf k p ix; m \<le> 2 ^ k; \<And>d. d < m \<Longrightarrow> ie_key (entry_behind k p ix d) = of_nat (32 * (B + m - Suc d));
    length chain = m - i; i \<le> m\<rbrakk> \<Longrightarrow> \<exists>q'. undo_index chain (of_nat (32 * (B + i)) - BLOCK_SIZE) q = Inr q' \<and> undone k p ix m m q'"
proof (induction chain arbitrary: i q)
  case Nil
  then show ?case by simp
next
  case (Cons b chain)
  have i: "i < m" "length chain = m - Suc i" "Suc i \<le> m" using Cons.prems(5) by simp_all
  obtain e where e: "get_block_index_entry_for_index (of_nat (32 * (B + i))) q = Inr e"
    "undone k p ix m (Suc i) (rewind_block_index_tail (set_entry_value e None q))"
    using undone_step [OF Cons.prems(1,2) i(1) Cons.prems(3,4)] by blast
  have "of_nat (32 * (B + i)) = of_nat (32 * (B + Suc i)) - BLOCK_SIZE" by (simp add: BLOCK_SIZE_def)
  then have "undo_index (b # chain) (of_nat (32 * (B + i)) - BLOCK_SIZE) q =
      undo_index chain (of_nat (32 * (B + Suc i)) - BLOCK_SIZE) (rewind_block_index_tail (set_entry_value e None q))"
    unfolding undo_index.simps(2) diff_add_cancel e(1) res_bind.simps(2) by (simp only:)
  then show ?case using Cons.IH [OF e(2) Cons.prems(2-4) i(2,3)] by simp
qed

lemma undo_holds:
  assumes holds: "index_holds p (B + length new) (rev new @ bs)"
  shows "\<exists>q. undo_index new (of_nat (32 * B) - BLOCK_SIZE) p = Inr q \<and> index_holds q B bs \<and> same_counters p q"
proof -
  let ?m = "length new"
  obtain k ix where h: "length (rev new @ bs) \<le> B + ?m" "index_wf k p ix" "length (rev new @ bs) \<le> 2 ^ k"
    "\<And>d. d < length (rev new @ bs) \<Longrightarrow> entry_behind k p ix d = \<lparr>ie_key = of_nat (32 * (B + ?m - Suc d)), ie_value = Some ((rev new @ bs) ! d)\<rparr>"
    "\<And>d. length (rev new @ bs) \<le> d \<Longrightarrow> d < 2 ^ k \<Longrightarrow> free_entry (entry_behind k p ix d)"
    using holds by (rule index_holdsE) blast
  note w = index_wfD [OF h(2)]
  let ?n = "(2 :: nat) ^ k" and ?t = "unat (ih_tail ix)"
  have m: "?m \<le> ?n" using h(3) by simp
  have keys: "ie_key (entry_behind k p ix d) = of_nat (32 * (B + ?m - Suc d))" if "d < ?m" for d using h(4) [of d] that by simp
  have "pr_header p = Some (ix\<lparr>ih_tail := ih_tail ix\<rparr>)" "?t = behind ?n ?t 0" using w(1) behind_0 [OF w(7)] by simp_all
  then have "undone k p ix ?m 0 p" unfolding undone_def
    by (auto simp: same_counters_def entry_behind_def intro!: exI [of _ "ih_tail ix"])
  from undo_index_spec [OF this h(2) m keys, of new] obtain q where
    q: "undo_index new (of_nat (32 * B) - BLOCK_SIZE) p = Inr q" "undone k p ix ?m ?m q" by auto
  obtain u where u: "pr_header q = Some (ix\<lparr>ih_tail := u\<rparr>)" "unat u = behind ?n ?t ?m" using q(2) by (auto simp: undone_def)
  define jx where "jx = ix\<lparr>ih_tail := u\<rparr>"
  have wf: "index_wf k q jx" using q(2) h(2) u(1) unfolding jx_def by (rule undone_wf)
  have old: "entry_behind k q jx d = entry_behind k p ix (?m + d)" if "?m + d < ?n" for d
  proof -
    have "behind ?n (behind ?n ?t ?m) d = behind ?n ?t (?m + d)"
      unfolding behind_def [of ?n "behind ?n ?t ?m"] using that by (intro behind_further) simp_all
    then show ?thesis using q(2) that unfolding entry_behind_def [of k q jx] undone_def by (simp add: jx_def u(2))
  qed
  have freed: "free_entry (entry_behind k q jx d)" if d: "?n \<le> ?m + d" "d < ?n" for d
  proof -
    define c where "c = ?m + d - ?n"
    have c: "c < ?m" "c < ?n" using d m by (simp_all add: c_def)
    have "behind ?n ?t ?m + ?n - d = behind ?n ?t ?m + (?n - d)" using d by simp
    moreover have "(behind ?n ?t ?m + (?n - d)) mod ?n = behind ?n ?t (?m - (?n - d))" using d m by (intro behind_nearer) simp_all
    moreover have "?m - (?n - d) = c" using d by (simp add: c_def)
    ultimately have "behind ?n (behind ?n ?t ?m) d = behind ?n ?t c" unfolding behind_def [of ?n "behind ?n ?t ?m"] by simp
    then have "entry_behind k q jx d = (entry_behind k p ix c)\<lparr>ie_value := None\<rparr>"
      using q(2) c unfolding entry_behind_def [of k q jx] undone_def by (simp add: jx_def u(2))
    then show ?thesis by (simp add: free_entry_def)
  qed
  have "index_holds q B bs"
    unfolding index_holds_def
  proof (intro conjI exI [of _ k] exI [of _ jx] allI impI)
    fix d assume d: "d < length bs"
    then have "?m + d < length (rev new @ bs)" "B + ?m - Suc (?m + d) = B - Suc d" "?m + d < ?n" using h(3) by simp_all
    then show "entry_behind k q jx d = \<lparr>ie_key = of_nat (32 * (B - Suc d)), ie_value = Some (bs ! d)\<rparr>"
      using old [of d] h(4) [of "?m + d"] by (simp add: nth_append)
  next
    fix d assume d: "length bs \<le> d \<and> d < ?n"
    show "free_entry (entry_behind k q jx d)"
      using old [of d] freed [of d] h(5) [of "?m + d"] d by (cases "?m + d < ?n") simp_all
  qed (use h(1,3) wf in simp_all)
  moreover have "same_counters p q" using q(2) by (simp add: undone_def)
  ultimately show ?thesis using q(1) by blast
qed

lemma release_blocks:
  "\<lbrakk>heap_inv h owned; set chain \<subseteq> owned; distinct chain\<rbrakk> \<Longrightarrow> \<exists>h'. add_blocks_to_free_list h chain = Inr h' \<and>
    heap_inv h' (owned - set chain) \<and> (\<forall>c \<in> owned - set chain. block_at h' c = block_at h c)"
proof (induction chain arbitrary: h owned)
  case Nil
  then show ?case by simp
next
  case (Cons b chain)
  then have b: "b \<in> owned" "b \<notin> set chain" "set chain \<subseteq> owned - {b}" "distinct chain" by auto
  obtain h1 where h1: "add_block_to_free_list h b = Inr h1" "heap_inv h1 (owned - {b})" "\<forall>c \<in> owned - {b}. block_at h1 c = block_at h c"
    using release_spec [OF Cons.prems(1) b(1)] by blast
  obtain h' where h': "add_blocks_to_free_list h1 chain = Inr h'" "heap_inv h' (owned - {b} - set chain)"
    "\<forall>c \<in> owned - {b} - set chain. block_at h' c = block_at h1 c" using Cons.IH [OF h1(2) b(3,4)] by blast
  have "owned - {b} - set chain = owned - set (b # chain)" by auto
  with h1 h' show ?case by auto
qed

text \<open>The producer after all that has the blocks and elements it had before.\<close>

lemma undo_spec:
  assumes at: "producer_at h p bs B H T xs" and T: "T \<le> 32 * B"
    and r: "reserved n mem bs rest B H T xs p h False new p1 h1" and sep: "set bs \<inter> rest = {}"
  shows "\<exists>p2 h2. undo_index new (of_nat (32 * B) - BLOCK_SIZE) p1 = Inr p2 \<and> add_blocks_to_free_list h1 new = Inr h2 \<and>
    producer_at h2 (p2\<lparr>pr_tail_block := pr_tail_block p\<rparr>) bs B H T xs \<and> heap_inv h2 (set bs \<union> rest) \<and>
    (\<forall>c \<in> rest. block_at h2 c = block_at h c) \<and> pr_inactive p2 = pr_inactive p"
proof -
  have p1: "producer_at h1 p1 (rev new @ bs) (B + length new) H T xs" "heap_inv h1 (set (rev new @ bs) \<union> rest)"
    "set (rev new @ bs) \<inter> rest = {}" "\<forall>c \<in> set bs \<union> rest. block_at h1 c = block_at h c" "pr_inactive p1 = pr_inactive p"
    using r unfolding reserved_def by blast+
  then have "index_holds p1 (B + length new) (rev new @ bs)" "distinct (rev new @ bs)" by (simp_all add: producer_at_def)
  with undo_holds obtain p2 where p2: "undo_index new (of_nat (32 * B) - BLOCK_SIZE) p1 = Inr p2" "index_holds p2 B bs" "same_counters p1 p2" by blast
  have new: "set new \<subseteq> set (rev new @ bs) \<union> rest" "distinct new" "set (rev new @ bs) \<union> rest - set new = set bs \<union> rest"
    using p1(3) \<open>distinct (rev new @ bs)\<close> by auto
  obtain h2 where h2: "add_blocks_to_free_list h1 new = Inr h2" "heap_inv h2 (set bs \<union> rest)" "\<forall>c \<in> set bs \<union> rest. block_at h2 c = block_at h1 c"
    using release_blocks [OF p1(2) new(1,2)] unfolding new(3) by blast
  let ?q = "p2\<lparr>pr_tail_block := pr_tail_block p\<rparr>"
  have "index_holds ?q B bs" using p2(2) by (subst index_holds_cong [of _ p2]) simp_all
  moreover have "counters_at ?q B H T"
    using at p1(1) p2(3) T by (simp add: producer_at_def counters_at_def same_counters_def)
  moreover have "blocks_hold h2 bs B H T xs"
    unfolding blocks_hold_def
  proof (intro allI impI)
    fix j assume j: "H div 32 \<le> j \<and> j < B"
    then have "B - Suc j < length bs" using at unfolding producer_at_def by linarith
    then have "block_at h2 (bs ! (B - Suc j)) = block_at h (bs ! (B - Suc j))" using h2(3) p1(4) by simp
    then show "\<exists>bk. block_at h2 (bs ! (B - Suc j)) = Some bk \<and> block_holds bk j H T xs"
      using at j by (simp add: producer_at_def blocks_hold_def)
  qed
  ultimately have "producer_at h2 ?q bs B H T xs" using at by (simp add: producer_at_def)
  moreover have "pr_inactive p2 = pr_inactive p" using p1(5) p2(3) by (simp add: same_counters_def)
  ultimately show ?thesis using p2(1) h2 p1(4) by auto
qed

section \<open>Filling the blocks\<close>

lemma put_items_Cons:
  assumes "block_at h b = Some bk"
  shows "put_items (y # ys) i (Some b) h = put_items ys (i + 1) (Some b) (write_block h b (construct bk i y))"
proof -
  have "block_at (write_block h b (construct bk i y)) b = Some (construct bk i y)" using block_at_bound [OF assms] by simp
  then show ?thesis using read_block_Inr [OF assms] by (simp add: put_items_def read_block_Inr)
qed

lemma put_items_spec:
  "\<lbrakk>heap_inv h (set bs \<union> rest); set bs \<inter> rest = {}; length bs = B - H div 32; distinct bs; H \<le> T; j < B; 32 * j \<le> T;
    T + length ys \<le> 32 * Suc j; length xs = T - H; blocks_hold h bs B H T xs\<rbrakk> \<Longrightarrow>
    \<exists>h'. put_items ys (of_nat T) (Some (bs ! (B - Suc j))) h = Inr h' \<and> heap_inv h' (set bs \<union> rest) \<and>
      blocks_hold h' bs B H (T + length ys) (xs @ ys) \<and> (\<forall>c \<in> rest. block_at h' c = block_at h c)"
proof (induction ys arbitrary: T xs h)
  case Nil
  then show ?case by (simp add: put_items_def)
next
  case (Cons y ys)
  let ?b = "bs ! (B - Suc j)"
  have "T < 32 * Suc j" "32 * j \<le> T" using Cons.prems(7,8) by simp_all
  then have j: "T div 32 = j" by (intro div_nat_eqI) (simp_all add: mult.commute)
  have "32 * Suc j \<le> 32 * B" using Cons.prems(6) by (intro mult_le_mono) simp_all
  then have T: "T < 32 * B" using \<open>T < 32 * Suc j\<close> by linarith
  obtain bk where bk: "read_block h ?b = Inr bk" "heap_inv (write_block h ?b (construct bk (of_nat T) y)) (set bs \<union> rest)"
    "blocks_hold (write_block h ?b (construct bk (of_nat T) y)) bs B H (Suc T) (xs @ [y])"
    "\<forall>c \<in> rest. block_at (write_block h ?b (construct bk (of_nat T) y)) c = block_at h c"
    using construct_spec [OF Cons.prems(1-5) T Cons.prems(9,10), of y] unfolding j by blast
  have "block_at h ?b = Some bk" using bk(1) by (auto simp: read_block_def block_at_def split: if_splits option.splits)
  then have step: "put_items (y # ys) (of_nat T) (Some ?b) h = put_items ys (of_nat (Suc T)) (Some ?b) (write_block h ?b (construct bk (of_nat T) y))"
    using put_items_Cons [of h ?b bk y ys "of_nat T"] by (simp add: add.commute)
  have "H \<le> Suc T" "32 * j \<le> Suc T" "Suc T + length ys \<le> 32 * Suc j" "length (xs @ [y]) = Suc T - H" using Cons.prems(5,7,8,9) by simp_all
  from Cons.IH [OF bk(2) Cons.prems(2-4) this(1) Cons.prems(6) this(2-4) bk(3)] bk(4) show ?case unfolding step by auto
qed

lemma fill_blocks_spec:
  "\<lbrakk>heap_inv h (set bs \<union> rest); set bs \<inter> rest = {}; length bs = B - H div 32; distinct bs; H \<le> T; B = T div 32 + Suc d;
    T + length items \<le> 32 * B; 32 * B < T + length items + 32; length items < 2 ^ 63; length xs = T - H; blocks_hold h bs B H T xs\<rbrakk> \<Longrightarrow>
    \<exists>h'. fill_blocks (map Some (rev (take (Suc d) bs))) (Some (bs ! 0)) items (of_nat T) (of_nat (T + length items)) h = Inr h' \<and>
      heap_inv h' (set bs \<union> rest) \<and> blocks_hold h' bs B H (T + length items) (xs @ items) \<and>
      (\<forall>c \<in> rest. block_at h' c = block_at h c)"
proof (induction d arbitrary: T items xs h)
  case (0 T items xs h)
  let ?j = "T div 32"
  have T: "32 * ?j \<le> T" "T + length items \<le> 32 * Suc ?j" using 0(6,7) by simp_all
  have "?j < B" using 0(6) by simp
  then have "bs \<noteq> []" using 0(3) div_le_mono [OF 0(5), of 32] by auto
  then have blocks: "take (Suc 0) bs = [bs ! 0]" by (cases bs) simp_all
  have "length items \<le> 32 - T mod 32" using T(2) mult_div_mod_eq [of 32 T] unfolding mult_Suc_right by linarith
  then have "min (length items) (32 - T mod 32) = length items" by simp
  note stop = end_index(1) [OF 0(9), of T, unfolded this]
  have n: "unat (of_nat (T + length items) - of_nat T :: u64) = length items" using 0(9) by (simp add: unat_of_nat_u64)
  have last: "bs ! (B - Suc ?j) = bs ! 0" using 0(6) by simp
  obtain h' where h': "put_items items (of_nat T) (Some (bs ! 0)) h = Inr h'" "heap_inv h' (set bs \<union> rest)"
    "blocks_hold h' bs B H (T + length items) (xs @ items)" "\<forall>c \<in> rest. block_at h' c = block_at h c"
    using put_items_spec [OF 0(1-5) \<open>?j < B\<close> T 0(10,11)] unfolding last by blast
  then show ?case unfolding blocks rev.simps append_Nil list.map fill_blocks.simps(2) Let_def stop n by simp
next
  case (Suc d T items xs h)
  let ?j = "T div 32"
  define m where "m = 32 - T mod 32"
  have Tm: "T + m = 32 * Suc ?j" using mult_div_mod_eq [of 32 T] mod_less_divisor [OF zero_less_numeral, of T] unfolding m_def mult_Suc_right by linarith
  have "32 * B = 32 * Suc ?j + 32 * Suc d" using Suc.prems(6) by simp
  then have mn: "m < length items" using Suc.prems(8) Tm by simp
  have "min (length items) (32 - T mod 32) = m" using mn by (simp add: m_def)
  note stop = end_index(1) [OF Suc.prems(9), of T, unfolded this]
  have "m < 2 ^ 64" by (simp add: m_def)
  then have "unat (of_nat m :: u64) = m" by (rule unat_of_nat_u64)
  then have n: "unat (of_nat (T + m) - of_nat T :: u64) = m" by simp
  have j: "?j < B" "32 * ?j \<le> T" using Suc.prems(6) by simp_all
  have "Suc (Suc d) \<le> length bs" using Suc.prems(3,6) div_le_mono [OF Suc.prems(5), of 32] by linarith
  then have d: "Suc d < length bs" by simp
  then have blocks: "rev (take (Suc (Suc d)) bs) = bs ! Suc d # rev (take (Suc d) bs)" by (simp add: take_Suc_conv_app_nth)
  have last: "bs ! (B - Suc ?j) = bs ! Suc d" using Suc.prems(6) by simp
  have "T + length (take m items) \<le> 32 * Suc ?j" using mn Tm by simp
  from put_items_spec [OF Suc.prems(1-5) j this Suc.prems(10,11)] obtain h1 where
    h1: "put_items (take m items) (of_nat T) (Some (bs ! Suc d)) h = Inr h1" "heap_inv h1 (set bs \<union> rest)"
    "blocks_hold h1 bs B H (T + length (take m items)) (xs @ take m items)" "\<forall>c \<in> rest. block_at h1 c = block_at h c"
    unfolding last by blast
  have m: "length (take m items) = m" "length (drop m items) = length items - m" using mn by simp_all
  note hold = h1(3) [unfolded m(1)]
  have "0 < length bs" using d by linarith
  then have "bs ! Suc d \<noteq> bs ! 0" using nth_eq_iff_index_eq [OF Suc.prems(4) d, of 0] by simp
  then have step: "fill_blocks (map Some (rev (take (Suc (Suc d)) bs))) (Some (bs ! 0)) items (of_nat T) (of_nat (T + length items)) h =
      fill_blocks (map Some (rev (take (Suc d) bs))) (Some (bs ! 0)) (drop m items) (of_nat (T + m)) (of_nat (T + length items)) h1"
    unfolding blocks list.map fill_blocks.simps(2) Let_def stop n by (simp add: h1(1))
  have prems: "H \<le> T + m" "B = (T + m) div 32 + Suc d" "T + m + length (drop m items) \<le> 32 * B"
    "32 * B < T + m + length (drop m items) + 32" "length (drop m items) < 2 ^ 63" "length (xs @ take m items) = T + m - H"
    using Suc.prems(5-10) mn Tm m by simp_all
  have sum: "T + m + length (drop m items) = T + length items" "(xs @ take m items) @ drop m items = xs @ items" using mn by simp_all
  from Suc.IH [OF h1(2) Suc.prems(2-4) prems(1-6) hold] show ?case unfolding step sum using h1(4) by auto
qed

section \<open>The call on a producer\<close>

text \<open>The first element of the block before the one that is started next.\<close>

lemma base_before:
  assumes "T \<le> 32 * B" "32 * B < T + 32"
  shows "(of_nat T - 1) AND NOT (BLOCK_SIZE - 1) = (of_nat (32 * B) - BLOCK_SIZE :: u64)"
proof (cases "T = 0")
  case True
  then have "B = 0" using assms(2) by simp
  with True show ?thesis by (simp add: BLOCK_SIZE_def)
next
  case False
  define s where "s = T - 1 - 32 * (B - 1)"
  have B: "0 < B" using False assms(1) by (cases B) simp_all
  then have "32 * B = 32 * (B - 1) + 32" by (cases B) simp_all
  then have s: "T - 1 = 32 * (B - 1) + s" "s < 32" using False assms unfolding s_def by linarith+
  have "(of_nat T - 1 :: u64) = of_nat (T - 1)" using False by (simp add: of_nat_diff)
  then have "(of_nat T - 1) AND NOT (BLOCK_SIZE - 1) = (of_nat (32 * (B - 1)) :: u64)" using base_mask [OF s(2), of "B - 1"] by (simp only: s(1))
  also have "\<dots> = of_nat (32 * B) - BLOCK_SIZE" using \<open>32 * B = 32 * (B - 1) + 32\<close> by (simp only:) (simp add: BLOCK_SIZE_def)
  finally show ?thesis .
qed

lemma rounds_needed:
  assumes "T \<le> 32 * B" "32 * B < T + 32" "T + n \<le> 32 * B'" "32 * B' < T + n + 32" "n < 2 ^ 63"
  shows "unat ((((of_nat T + of_nat n - 1) AND NOT (BLOCK_SIZE - 1)) - ((of_nat T - 1) AND NOT (BLOCK_SIZE - 1))) div BLOCK_SIZE) = B' - B"
    and "B \<le> B'"
proof -
  have "32 * B < 32 * Suc B'" using assms(2,3) by simp
  then show le: "B \<le> B'" by simp
  have "(of_nat (T + n) - 1) AND NOT (BLOCK_SIZE - 1) = (of_nat (32 * B') - BLOCK_SIZE :: u64)" using assms(3,4) by (rule base_before)
  moreover have "(of_nat (32 * B') :: u64) - BLOCK_SIZE - (of_nat (32 * B) - BLOCK_SIZE) = of_nat (32 * (B' - B))" using le by (simp add: algebra_simps)
  moreover have "32 * (B' - B) < 2 ^ 64" using assms(1,4,5) by simp
  then have "unat (of_nat (32 * (B' - B)) :: u64) = 32 * (B' - B)" by (rule unat_of_nat_u64)
  then have "unat (of_nat (32 * (B' - B)) div BLOCK_SIZE) = B' - B" by (simp add: unat_div BLOCK_SIZE_def)
  ultimately show "unat ((((of_nat T + of_nat n - 1) AND NOT (BLOCK_SIZE - 1)) - ((of_nat T - 1) AND NOT (BLOCK_SIZE - 1))) div BLOCK_SIZE) = B' - B"
    using base_before [OF assms(1,2)] by simp
qed

text \<open>The blocks in which the elements go are those from the block of the first one on.\<close>

lemma blocks_to_fill:
  assumes at: "producer_at h p bs B H T xs" and B: "32 * B < T + 32" and B': "T + n \<le> 32 * (B + length new)" "32 * (B + length new) < T + n + 32"
    and n: "0 < n \<or> T mod 32 \<noteq> 0"
  shows "\<exists>d. B + length new = T div 32 + Suc d \<and>
    (if T mod 32 = 0 \<and> new \<noteq> [] then map Some new else pr_tail_block p # map Some new) = map Some (rev (take (Suc d) (rev new @ bs)))"
proof -
  have c: "T \<le> 32 * B" "H \<le> T" "length bs = B - H div 32" using at by (simp_all add: producer_at_def counters_at_def)
  show ?thesis
  proof (cases "T mod 32 = 0")
    case True
    then obtain t where t: "T = 32 * t" by (auto simp: mod_eq_0_iff_dvd elim: dvdE)
    then have "32 * t \<le> 32 * B" "32 * B < 32 * Suc t" using B c(1) by simp_all
    then have "t \<le> B" "B < Suc t" by simp_all
    then have TB: "T = 32 * B" using t by simp
    then have "new \<noteq> []" using n True B'(1) by auto
    then obtain d where d: "length new = Suc d" by (cases new) simp_all
    then have "rev (take (Suc d) (rev new @ bs)) = new" by simp
    then show ?thesis using True TB d \<open>new \<noteq> []\<close> by (intro exI [of _ d]) simp
  next
    case False
    define q where "q = T div 32"
    have q: "32 * q < T" "T < 32 * Suc q" using False mult_div_mod_eq [of 32 T] mod_less_divisor [OF zero_less_numeral, of T]
      unfolding q_def mult_Suc_right by linarith+
    then have "32 * q < 32 * B" "32 * B < 32 * Suc (Suc q)" using B c(1) by simp_all
    then have "q < B" "B < Suc (Suc q)" by simp_all
    then have TB: "B = Suc (T div 32)" unfolding q_def by linarith
    have "H div 32 \<le> T div 32" using c(2) by (rule div_le_mono)
    then have "bs \<noteq> []" using c(3) TB by auto
    then have "pr_tail_block p = Some (bs ! 0)" "take 1 bs = [bs ! 0]" using at by (simp add: producer_at_def, cases bs, simp_all)
    then show ?thesis using False TB by (intro exI [of _ "length new"]) simp
  qed
qed

lemma fill_reserved:
  assumes at: "producer_at h p bs B H T xs" and B: "32 * B < T + 32"
    and new: "producer_at h1 p1 (rev new @ bs) (B + length new) H T xs" "heap_inv h1 (set (rev new @ bs) \<union> rest)" "set (rev new @ bs) \<inter> rest = {}"
    and tb: "pr_tail_block p1 = (if new = [] then pr_tail_block p else Some (last new))"
    and B': "T + length items \<le> 32 * (B + length new)" "32 * (B + length new) < T + length items + 32" and n: "length items < 2 ^ 63"
  shows "\<exists>h2. fill_blocks (if T mod 32 = 0 \<and> new \<noteq> [] then map Some new else pr_tail_block p # map Some new) (pr_tail_block p1) items
      (of_nat T) (of_nat (T + length items)) h1 = Inr h2 \<and> heap_inv h2 (set (rev new @ bs) \<union> rest) \<and>
    blocks_hold h2 (rev new @ bs) (B + length new) H (T + length items) (xs @ items) \<and> (\<forall>c \<in> rest. block_at h2 c = block_at h1 c)"
proof (cases "0 < length items \<or> T mod 32 \<noteq> 0")
  case True
  obtain d where d: "B + length new = T div 32 + Suc d"
    "(if T mod 32 = 0 \<and> new \<noteq> [] then map Some new else pr_tail_block p # map Some new) = map Some (rev (take (Suc d) (rev new @ bs)))"
    using blocks_to_fill [OF at B B' True] by blast
  have p1: "length (rev new @ bs) = B + length new - H div 32" "distinct (rev new @ bs)" "H \<le> T" "length xs = T - H"
    "blocks_hold h1 (rev new @ bs) (B + length new) H T xs" "rev new @ bs \<noteq> [] \<longrightarrow> pr_tail_block p1 = Some ((rev new @ bs) ! 0)"
    using new(1) by (simp_all add: producer_at_def counters_at_def)
  have "H div 32 \<le> T div 32" using p1(3) by (rule div_le_mono)
  then have "0 < length (rev new @ bs)" using p1(1) d(1) by linarith
  then have tb1: "pr_tail_block p1 = Some ((rev new @ bs) ! 0)" using p1(6) by simp
  show ?thesis unfolding d(2) tb1 using fill_blocks_spec [OF new(2,3) p1(1-3) d(1) B' n p1(4,5)] .
next
  case False
  then have items: "items = []" "T mod 32 = 0" by simp_all
  have "32 * (B + length new) < 32 * Suc B"
  proof -
    have "T \<le> 32 * B" using at by (simp add: producer_at_def counters_at_def)
    moreover have "length items = 0" using items by simp
    ultimately show ?thesis using B'(2) unfolding mult_Suc_right by linarith
  qed
  then have "B + length new < Suc B" by (simp only: nat_mult_less_cancel_disj)
  then have "new = []" by simp
  then have "fill_blocks (if T mod 32 = 0 \<and> new \<noteq> [] then map Some new else pr_tail_block p # map Some new) (pr_tail_block p1) items
      (of_nat T) (of_nat (T + length items)) h1 = Inr h1" using items tb by (simp add: put_items_def Let_def)
  then show ?thesis using new items by (simp add: producer_at_def)
qed

lemma enqueue_bulk_spec:
  assumes heap: "heap_inv h (own \<union> rest)" and sep: "own \<inter> rest = {}" and holds: "producer_holds h p own xs" and n: "length items < 2 ^ 63"
  shows "\<exists>r p' h' own'. producer_enqueue_bulk mem items p h = Inr (r, p', h') \<and>
    producer_holds h' p' own' (if r then xs @ items else xs) \<and> heap_inv h' (own' \<union> rest) \<and> own' \<inter> rest = {} \<and>
    (\<forall>c \<in> rest. block_at h' c = block_at h c) \<and> (pr_header p' = None \<longleftrightarrow> pr_header p = None) \<and> pr_inactive p' = pr_inactive p \<and>
    (\<not> r \<longrightarrow> pr_header p = None \<or> (\<exists>i \<le> length items div 32. mem i \<noteq> (True, True)) \<or> 2 ^ 63 - 32 < length xs + length items)"
  (is "\<exists>r p' h' own'. ?goal r p' h' own'")
  using holds [unfolded producer_holds_def]
proof (elim disjE exE conjE)
  assume dead: "pr_header p = None" "counters_at p 0 0 0" "own = {}" "xs = []"
  define B' where "B' = (length items + 31) div 32"
  have B': "0 + length items \<le> 32 * B'" "32 * B' < 0 + length items + 32"
    using mult_div_mod_eq [of 32 "length items + 31"] mod_less_divisor [OF zero_less_numeral, of "length items + 31"] unfolding B'_def by linarith+
  have c: "pr_tail p = of_nat 0" "pr_head p = of_nat 0" using dead(2) by (simp_all add: counters_at_def)
  have "(0 :: nat) \<le> 32 * 0" "32 * 0 < (0 :: nat) + 32" by simp_all
  note rounds = rounds_needed(1) [OF this B' n] and base = base_before [OF this]
  note start = producer_enqueue_bulk_def [of mem items p h, unfolded Let_def c(1) rounds, unfolded base]
  have r: "\<exists>r. producer_enqueue_bulk mem items p h = Inr (r, p, h) \<and> (r \<longrightarrow> items = [])"
  proof (cases "items = []")
    case True
    then have "B' = 0" using B' by simp
    have same: "p\<lparr>pr_tail_block := pr_tail_block p, pr_tail := of_nat 0\<rparr> = p" unfolding c(1) [symmetric] by simp
    show ?thesis using same unfolding start \<open>B' = 0\<close> by (intro exI [of _ True]) (simp add: True put_items_def Let_def)
  next
    case False
    then obtain m where m: "B' - 0 = Suc m" using B' by (cases B') simp_all
    have bs: "of_nat (32 * 0) - BLOCK_SIZE + BLOCK_SIZE = (of_nat 0 :: u64)" "of_nat 0 + BLOCK_SIZE = (of_nat 32 :: u64)" by (simp_all add: BLOCK_SIZE_def)
    have "circular_less_than (of_nat 0) (of_nat 32)" using circular_less_than_of_nat [of 0 32] by simp
    then have "reserve_blocks (Suc m) mem (of_nat 0) (of_nat (32 * 0) - BLOCK_SIZE) p h [] = Inr (False, [], p, h)"
      unfolding reserve_blocks.simps(2) Let_def bs c(2) by (simp add: insert_block_index_entry_def dead(1))
    then have "producer_enqueue_bulk mem items p h = Inr (False, p, h)" unfolding start m by simp
    then show ?thesis by blast
  qed
  then obtain r where "producer_enqueue_bulk mem items p h = Inr (r, p, h)" "r \<longrightarrow> items = []" by blast
  then have "?goal r p h own" using dead heap sep holds by auto
  then show ?thesis by (intro exI)
next
  fix bs B H T assume at: "producer_at h p bs B H T xs" and B: "32 * B < T + 32" and own: "own = set bs"
  define B' where "B' = (T + length items + 31) div 32"
  have B': "T + length items \<le> 32 * B'" "32 * B' < T + length items + 32"
    using mult_div_mod_eq [of 32 "T + length items + 31"] mod_less_divisor [OF zero_less_numeral, of "T + length items + 31"]
    unfolding B'_def by linarith+
  have c: "pr_tail p = of_nat T" "H \<le> T" "T \<le> 32 * B" "length xs = T - H" using at by (simp_all add: producer_at_def counters_at_def)
  note rounds = rounds_needed [OF c(3) B B' n]
  note base = base_before [OF c(3) B]
  have sum: "of_nat T + of_nat (length items) = (of_nat (T + length items) :: u64)" by simp
  note heap = heap [unfolded own] and sep = sep [unfolded own]
  have "bs \<noteq> []" if "T mod 32 \<noteq> 0"
  proof -
    have "T div 32 < B" using that c(3) by (intro less_mult_imp_div_less) (cases "T = 32 * B", simp_all)
    then show ?thesis using at div_le_mono [OF c(2), of 32] by (auto simp: producer_at_def)
  qed
  then have linked: "of_nat T AND (BLOCK_SIZE - 1) \<noteq> 0 \<or> [] \<noteq> ([] :: nat list) \<longrightarrow> bs \<noteq> []" by (simp add: block_boundary)
  obtain ok new p1 h1 where r: "reserve_blocks (B' - B) mem (of_nat T) (of_nat (32 * B) - BLOCK_SIZE) p h [] = Inr (ok, new, p1, h1)"
    "reserved (B' - B) mem bs rest B H T xs p h ok new p1 h1"
    using reserve_blocks_spec [OF heap sep at c(3) refl linked, of "B' - B" mem] by auto
  have p1: "producer_at h1 p1 (rev new @ bs) (B + length new) H T xs" "heap_inv h1 (set (rev new @ bs) \<union> rest)"
    "set (rev new @ bs) \<inter> rest = {}" "\<forall>c \<in> set bs \<union> rest. block_at h1 c = block_at h c" "pr_inactive p1 = pr_inactive p"
    "pr_tail_block p1 = (if new = [] then pr_tail_block p else Some (last new))" "ok \<Longrightarrow> length new = B' - B"
    "\<not> ok \<Longrightarrow> (\<exists>i < B' - B. mem i \<noteq> (True, True)) \<or> H + 2 ^ 63 \<le> 32 * (B + (B' - B))"
    using r(2) unfolding reserved_def by blast+
  have hd: "pr_header p \<noteq> None" using at by (auto simp: producer_at_def dest: index_holds_header)
  have run: "producer_enqueue_bulk mem items p h = (if \<not> ok then res_bind (undo_index new (of_nat (32 * B) - BLOCK_SIZE) p1) (\<lambda>p2.
        res_bind (add_blocks_to_free_list h1 new) (\<lambda>h2. Inr (False, p2\<lparr>pr_tail_block := pr_tail_block p\<rparr>, h2)))
      else res_bind (fill_blocks (if T mod 32 = 0 \<and> new \<noteq> [] then map Some new else pr_tail_block p # map Some new) (pr_tail_block p1) items
          (of_nat T) (of_nat (T + length items)) h1) (\<lambda>h2.
        Inr (True, p1\<lparr>pr_tail_block := pr_tail_block p1, pr_tail := of_nat (T + length items)\<rparr>, h2)))"
    unfolding producer_enqueue_bulk_def Let_def c(1) rounds(1) unfolding base r(1) block_boundary sum by simp
  show ?thesis
  proof (cases ok)
    case True
    then have len: "B + length new = B'" using p1(7) rounds(2) by simp
    obtain h2 where f: "fill_blocks (if T mod 32 = 0 \<and> new \<noteq> [] then map Some new else pr_tail_block p # map Some new) (pr_tail_block p1) items
        (of_nat T) (of_nat (T + length items)) h1 = Inr h2" "heap_inv h2 (set (rev new @ bs) \<union> rest)"
      "blocks_hold h2 (rev new @ bs) B' H (T + length items) (xs @ items)" "\<forall>c \<in> rest. block_at h2 c = block_at h1 c"
      using fill_reserved [OF at B p1(1-3,6) _ _ n] B' unfolding len by blast
    let ?q = "p1\<lparr>pr_tail_block := pr_tail_block p1, pr_tail := of_nat (T + length items)\<rparr>"
    have p1': "index_holds p1 B' (rev new @ bs)" "counters_at p1 B' H T" using p1(1) unfolding len by (simp_all add: producer_at_def)
    have "index_holds ?q B' (rev new @ bs)" using p1'(1) by (subst index_holds_cong [of _ p1]) simp_all
    moreover have "counters_at ?q B' H (T + length items)" using p1'(2) B'(1) by (simp add: counters_at_def)
    ultimately have "producer_at h2 ?q (rev new @ bs) B' H (T + length items) (xs @ items)"
      using p1(1) f(3) c(2,4) unfolding len by (simp add: producer_at_def)
    then have "producer_holds h2 ?q (set (rev new @ bs)) (xs @ items)" unfolding producer_holds_def using B'(2) by blast
    moreover have "pr_header ?q \<noteq> None" using p1'(1) by (auto dest: index_holds_header)
    moreover have "producer_enqueue_bulk mem items p h = Inr (True, ?q, h2)" unfolding run f(1) using True by simp
    ultimately have "?goal True ?q h2 (set (rev new @ bs))" using f(2,4) p1(3-5) hd by (simp del: not_None_eq)
    then show ?thesis by (intro exI)
  next
    case False
    have red: "reserved (B' - B) mem bs rest B H T xs p h False new p1 h1" using r(2) False by simp
    obtain p2 h2 where u: "undo_index new (of_nat (32 * B) - BLOCK_SIZE) p1 = Inr p2" "add_blocks_to_free_list h1 new = Inr h2"
      "producer_at h2 (p2\<lparr>pr_tail_block := pr_tail_block p\<rparr>) bs B H T xs" "heap_inv h2 (set bs \<union> rest)"
      "\<forall>c \<in> rest. block_at h2 c = block_at h c" "pr_inactive p2 = pr_inactive p"
      using undo_spec [OF at c(3) red sep] by blast
    let ?q = "p2\<lparr>pr_tail_block := pr_tail_block p\<rparr>"
    have "producer_enqueue_bulk mem items p h = Inr (False, ?q, h2)" unfolding run u(1) using u(2) False by simp
    moreover have "producer_holds h2 ?q own xs" unfolding producer_holds_def using u(3) B own by blast
    moreover have "pr_header ?q \<noteq> None" using u(3) unfolding producer_at_def by (auto dest: index_holds_header)
    moreover have "(\<exists>i \<le> length items div 32. mem i \<noteq> (True, True)) \<or> 2 ^ 63 - 32 < length xs + length items"
    proof -
      have "32 * B' < 32 * B + length items + 32" using B'(2) c(3) by linarith
      then have "32 * (B' - B) < length items + 32" by simp
      moreover have "length items < 32 * Suc (length items div 32)"
        using mult_div_mod_eq [of 32 "length items"] mod_less_divisor [OF zero_less_numeral, of "length items"] unfolding mult_Suc_right by linarith
      ultimately have "32 * (B' - B) < 32 * Suc (Suc (length items div 32))" unfolding mult_Suc_right by linarith
      then have "B' - B \<le> Suc (length items div 32)" by simp
      then have "i \<le> length items div 32" if "i < B' - B" for i using that by linarith
      moreover have "2 ^ 63 - 32 < length xs + length items" if "H + 2 ^ 63 \<le> 32 * (B + (B' - B))"
        using that rounds(2) B'(2) c(2,4) by simp
      ultimately show ?thesis using p1(8) False by blast
    qed
    ultimately have "?goal False ?q h2 own" using u(4-6) assms(2) hd own by (simp del: not_None_eq)
    then show ?thesis by (intro exI)
  qed
qed

section \<open>The call on the queue\<close>

lemma enqueue_bulk_at:
  assumes inv: "moody_inv q" and i: "i < length (cq_producers q)" and n: "length items < 2 ^ 63"
  shows "\<exists>b pr h. producer_enqueue_bulk mem items (cq_producers q ! i) (cq_heap q) = Inr (b, pr, h) \<and>
    moody_inv (q\<lparr>cq_producers := (cq_producers q)[i := pr], cq_heap := h\<rparr>) \<and>
    streams (q\<lparr>cq_producers := (cq_producers q)[i := pr], cq_heap := h\<rparr>) = (if b then (streams q)[i := streams q ! i @ items] else streams q) \<and>
    (\<not> b \<longrightarrow> pr_header (cq_producers q ! i) = None \<or> (\<exists>j \<le> length items div 32. mem j \<noteq> (True, True)) \<or>
      2 ^ 63 - 32 < length (streams q ! i) + length items)"
proof -
  obtain own rest where ch: "heap_inv (cq_heap q) (own \<union> rest)" "own \<inter> rest = {}"
    "producer_holds (cq_heap q) (cq_producers q ! i) own (streams q ! i)"
    "\<And>pr h own' ys. \<lbrakk>producer_holds h pr own' ys; heap_inv h (own' \<union> rest); own' \<inter> rest = {};
      \<forall>c \<in> rest. block_at h c = block_at (cq_heap q) c; pr_inactive pr = pr_inactive (cq_producers q ! i)\<rbrakk> \<Longrightarrow>
      moody_inv (q\<lparr>cq_producers := (cq_producers q)[i := pr], cq_heap := h\<rparr>) \<and>
      streams (q\<lparr>cq_producers := (cq_producers q)[i := pr], cq_heap := h\<rparr>) = (streams q)[i := ys]"
    using change_at [OF inv i] by blast
  obtain b pr h own' where e: "producer_enqueue_bulk mem items (cq_producers q ! i) (cq_heap q) = Inr (b, pr, h)"
    "producer_holds h pr own' (if b then streams q ! i @ items else streams q ! i)" "heap_inv h (own' \<union> rest)" "own' \<inter> rest = {}"
    "\<forall>c \<in> rest. block_at h c = block_at (cq_heap q) c" "pr_inactive pr = pr_inactive (cq_producers q ! i)"
    "\<not> b \<longrightarrow> pr_header (cq_producers q ! i) = None \<or> (\<exists>j \<le> length items div 32. mem j \<noteq> (True, True)) \<or>
      2 ^ 63 - 32 < length (streams q ! i) + length items"
    using enqueue_bulk_spec [OF ch(1-3) n, of mem] by (elim exE conjE) (rule that)
  note new = ch(4) [OF e(2-6)]
  have "(streams q)[i := if b then streams q ! i @ items else streams q ! i] = (if b then (streams q)[i := streams q ! i @ items] else streams q)"
    by simp
  with new e(1,7) show ?thesis by auto
qed

lemma inner_enqueue_bulk_spec:
  assumes inv: "moody_inv q" and key: "thread_key tid" and n: "length items < 2 ^ 63"
  shows "\<exists>b q'. inner_enqueue_bulk a mem tid items q = Inr (b, q') \<and> moody_inv q' \<and>
    (case bound_producer q' tid of None \<Rightarrow> \<not> b \<and> streams q' = streams q
    | Some p \<Rightarrow> (bound_producer q tid = None \<or> bound_producer q tid = Some p) \<and> p \<le> length (streams q) \<and>
        streams q' = (if b then (pad p (streams q))[p := pad p (streams q) ! p @ items] else pad p (streams q))) \<and>
    (\<not> b \<longrightarrow> \<not> al_hash a \<or> \<not> al_producer a \<or> \<not> al_index a \<or> (\<exists>i \<le> length items div 32. mem i \<noteq> (True, True)) \<or> \<not> all_indexed q \<or>
      length (tt_keys (hd (cq_hash q))) = 2 ^ 58 \<or> (\<exists>xs \<in> insert [] (set (streams q)). 2 ^ 63 - 32 < length xs + length items))"
proof -
  obtain r q1 where g: "get_or_add_implicit_producer a tid q = Inr (r, q1)" "moody_inv q1" "al_index a \<and> all_indexed q \<longrightarrow> all_indexed q1"
    "\<forall>u. thread_key u \<longrightarrow> bound_producer q1 u = (if u = tid then r else bound_producer q u)"
    "case r of None \<Rightarrow> bound_producer q tid = None \<and> streams q1 = streams q \<and>
        (\<not> al_hash a \<or> \<not> al_producer a \<or> length (tt_keys (hd (cq_hash q))) = 2 ^ 58)
    | Some p \<Rightarrow> (bound_producer q tid = None \<or> bound_producer q tid = Some p) \<and> p \<le> length (streams q) \<and>
        (bound_producer q tid = None \<longrightarrow> (\<forall>u. thread_key u \<longrightarrow> bound_producer q u \<noteq> Some p)) \<and> streams q1 = pad p (streams q)"
    using get_producer [OF inv key, of a] by (elim exE conjE) (rule that)
  have b1: "bound_producer q1 tid = r" using g(4) key by simp
  show ?thesis
  proof (cases r)
    case None
    then show ?thesis using g(1,2,5) b1 by (intro exI [of _ False] exI [of _ q1]) (simp add: inner_enqueue_bulk_def)
  next
    case (Some p)
    then have s: "bound_producer q tid = None \<or> bound_producer q tid = Some p" "p \<le> length (streams q)" "streams q1 = pad p (streams q)"
      using g(5) by simp_all
    have "length (cq_producers q1) = length (pad p (streams q))" using arg_cong [OF s(3), of length] by (simp add: streams_def)
    then have p: "p < length (cq_producers q1)" using s(2) by (simp add: pad_def)
    obtain b pr h where e: "producer_enqueue_bulk mem items (cq_producers q1 ! p) (cq_heap q1) = Inr (b, pr, h)"
      "moody_inv (q1\<lparr>cq_producers := (cq_producers q1)[p := pr], cq_heap := h\<rparr>)"
      "streams (q1\<lparr>cq_producers := (cq_producers q1)[p := pr], cq_heap := h\<rparr>) = (if b then (streams q1)[p := streams q1 ! p @ items] else streams q1)"
      "\<not> b \<longrightarrow> pr_header (cq_producers q1 ! p) = None \<or> (\<exists>j \<le> length items div 32. mem j \<noteq> (True, True)) \<or>
        2 ^ 63 - 32 < length (streams q1 ! p) + length items"
      using enqueue_bulk_at [OF g(2) p n, of mem] by (elim exE conjE) (rule that)
    define q2 where "q2 = q1\<lparr>cq_producers := (cq_producers q1)[p := pr], cq_heap := h\<rparr>"
    have run: "inner_enqueue_bulk a mem tid items q = Inr (b, q2)" using g(1) e(1) p by (simp add: inner_enqueue_bulk_def Some q2_def)
    have b2: "bound_producer q2 tid = Some p" using b1 Some by (simp add: q2_def)
    have "streams q1 ! p \<in> insert [] (set (streams q))" using s(2,3) by (auto simp: pad_def nth_append)
    moreover have "pr_header (cq_producers q1 ! p) \<noteq> None" if "al_index a" "all_indexed q"
      using g(3) that p unfolding all_indexed_def by (meson nth_mem)
    ultimately have fail: "\<not> b \<longrightarrow> \<not> al_index a \<or> (\<exists>i \<le> length items div 32. mem i \<noteq> (True, True)) \<or> \<not> all_indexed q \<or>
        (\<exists>xs \<in> insert [] (set (streams q)). 2 ^ 63 - 32 < length xs + length items)"
      using e(4) by meson
    then have fail': "\<not> b \<longrightarrow> \<not> al_hash a \<or> \<not> al_producer a \<or> \<not> al_index a \<or> (\<exists>i \<le> length items div 32. mem i \<noteq> (True, True)) \<or> \<not> all_indexed q \<or>
        length (tt_keys (hd (cq_hash q))) = 2 ^ 58 \<or> (\<exists>xs \<in> insert [] (set (streams q)). 2 ^ 63 - 32 < length xs + length items)" by blast
    have "streams q2 = (if b then (pad p (streams q))[p := pad p (streams q) ! p @ items] else pad p (streams q))"
      using e(3) unfolding q2_def s(3) .
    then show ?thesis using run e(2) [folded q2_def] b2 s(1,2) fail' by (intro exI [of _ b] exI [of _ q2]) simp
  qed
qed

section \<open>Properties\<close>

text \<open>
  C25: Enqueueing many elements is all or nothing. The call returns; if it succeeds, the elements are
  at the end of the stream of the calling thread, in their order, and if it fails, because memory
  for one of the blocks or for the index ran out on the way, every stream is what it was and the
  blocks reserved so far are given back.
\<close>

theorem moody_enqueue_bulk:
  assumes "moody_inv q" and "thread_key tid" and "length items < 2 ^ 63"
  shows "\<exists>b q'. inner_enqueue_bulk a mem tid items q = Inr (b, q') \<and> moody_inv q' \<and>
    (case bound_producer q' tid of None \<Rightarrow> \<not> b \<and> streams q' = streams q
    | Some p \<Rightarrow> (bound_producer q tid = None \<or> bound_producer q tid = Some p) \<and> p \<le> length (streams q) \<and>
        streams q' = (if b then (pad p (streams q))[p := pad p (streams q) ! p @ items] else pad p (streams q))) \<and>
    (\<not> b \<longrightarrow> \<not> al_hash a \<or> \<not> al_producer a \<or> \<not> al_index a \<or> (\<exists>i \<le> length items div 32. mem i \<noteq> (True, True)) \<or> \<not> all_indexed q \<or>
      length (tt_keys (hd (cq_hash q))) = 2 ^ 58 \<or> (\<exists>xs \<in> insert [] (set (streams q)). 2 ^ 63 - 32 < length xs + length items))"
  using inner_enqueue_bulk_spec [OF assms] .

text \<open>
  A queue with one initial block. 33 elements need another, for which there is no memory: the first
  is given back and is the only one on the free list. Three elements fit.
\<close>

definition no_block :: "nat \<Rightarrow> bool \<times> bool" where
  "no_block i = (True, False)"

lemma bulk_outcomes:
  "(case inner_enqueue_bulk all_memory no_block 4096 [0..<33] (concurrent_queue True 32 :: nat cqueue) of Inl e \<Rightarrow> None
    | Inr (b, q) \<Rightarrow> Some (b, mh_free (cq_heap q), length (mh_blocks (cq_heap q)))) = Some (False, Some 0, 1)"
  "(case inner_enqueue_bulk all_memory no_block 4096 [7, 8, 9] (concurrent_queue True 32 :: nat cqueue) of Inl e \<Rightarrow> None
    | Inr (b, q) \<Rightarrow> Some (b, streams q)) = Some (True, [[7, 8, 9]])"
  by code_simp+

lemma moody_enqueue_bulk_witness:
  "(\<exists>q. inner_enqueue_bulk all_memory no_block 4096 [0..<33] (concurrent_queue True 32 :: nat cqueue) = Inr (False, q) \<and>
     moody_inv q \<and> concat (streams q) = [] \<and> mh_free (cq_heap q) = Some 0) \<and>
   (\<exists>q. inner_enqueue_bulk all_memory no_block 4096 [7, 8, 9] (concurrent_queue True 32 :: nat cqueue) = Inr (True, q) \<and>
     moody_inv q \<and> streams q = [[7, 8, 9]])"
proof
  let ?q = "concurrent_queue True 32 :: nat cqueue"
  have key: "thread_key 4096" by (simp add: thread_key_def invalid_thread_id_def invalid_thread_id2_def)
  have n: "length [0..<33] < 2 ^ 63" "length [7, 8, 9 :: nat] < 2 ^ 63" by simp_all
  obtain b q where r: "inner_enqueue_bulk all_memory no_block 4096 [0..<33] ?q = Inr (b, q)" "moody_inv q"
    "case bound_producer q 4096 of None \<Rightarrow> \<not> b \<and> streams q = streams ?q
    | Some p \<Rightarrow> (bound_producer ?q 4096 = None \<or> bound_producer ?q 4096 = Some p) \<and> p \<le> length (streams ?q) \<and>
        streams q = (if b then (pad p (streams ?q))[p := pad p (streams ?q) ! p @ [0..<33]] else pad p (streams ?q))"
    using moody_enqueue_bulk [OF initial_queue(1) [where ok = True and capacity = 32] key n(1), where a = all_memory and mem = no_block]
    by (elim exE conjE) (rule that)
  have "\<not> b" "mh_free (cq_heap q) = Some 0" using bulk_outcomes(1) unfolding r(1) by simp_all
  moreover have "streams ?q = []" by (rule initial_queue(2))
  then have "concat (streams q) = []" using r(3) \<open>\<not> b\<close> by (auto simp: pad_def split: option.splits)
  ultimately show "\<exists>q. inner_enqueue_bulk all_memory no_block 4096 [0..<33] ?q = Inr (False, q) \<and> moody_inv q \<and> concat (streams q) = [] \<and>
      mh_free (cq_heap q) = Some 0" using r(1,2) by auto
  obtain b' q' where "inner_enqueue_bulk all_memory no_block 4096 [7, 8, 9] ?q = Inr (b', q')" "moody_inv q'"
    using moody_enqueue_bulk [OF initial_queue(1) [where ok = True and capacity = 32] key n(2), where a = all_memory and mem = no_block] by blast
  then show "\<exists>q. inner_enqueue_bulk all_memory no_block 4096 [7, 8, 9] ?q = Inr (True, q) \<and> moody_inv q \<and> streams q = [[7, 8, 9]]"
    using bulk_outcomes(2) by auto
qed

end
