(* ===== verification/Spec2Isabelle.thy ===== *)
theory Spec2Isabelle
  imports ChainingMap FixedMap OpenMap STLMap LockedQueue SpscConcurrent MpmcProgress LibraryQueue
    LibraryMap LibraryPool StackPools TaggedConcurrent OrderBook SocketRaii AggSender DBModes Pipeline MoodyDestroy
    MoodyCounters MoodyBulkDequeue MoodyBulkEnqueue
begin

text \<open>
  FeederNet is a market data feed in C++: a server sends the trades of recorded files by UDP
  multicast and answers requests for missing trades over TCP; a receiver puts the datagrams into a
  queue, a sequencer delivers the trades in order and asks the server to fill gaps, and further
  threads store the trades in a database or publish averages. The header files under src/include
  also hold the containers these threads share: hash maps, queues and pools of messages, and an
  order book and a logger built on them. This development models those headers.

  \<^bold>\<open>Conventions.\<close> A fallible operation returns \<open>'a res = fault + 'a\<close> (theory Prelude): a fault is
  an exception of the code, undefined behaviour (an access out of bounds, a null pointer, a signed
  overflow, the last element of an empty vector, a conversion out of range), or a loop that does
  not return. Machine integers are words (\<^verbatim>\<open>size_t\<close> is \<open>u64\<close>) where they wrap and integers with
  an explicit range check where overflow is undefined. A \<^verbatim>\<open>double\<close> whose value matters is the
  rational number it denotes, rounded after every operation (FloatModel); where it is only passed
  on it is a value of a type \<open>'d\<close> with its 64 bits. A pointer into a pool is an index. Template
  arguments that satisfy a concept are records of operations: \<open>hm_ops\<close> (MyHM), \<open>q_ops\<close> (MyQ),
  \<open>p_ops\<close> (MyPool). A contract such a record keeps is a locale over the record, an invariant and
  an abstraction; each implementation interprets the contracts it keeps, and the clients are
  proved once against the contract.

  \<^bold>\<open>Hash maps\<close> (include/HashMap.hpp). HashMapSpec: the interface, the contracts (\<open>hash_map\<close> and its
  extensions for the behaviours in which the types differ) and the test program as a client.
  ChainingMap, FixedMap (nodes of a fixed pool linked by indices), OpenMap (linear probing with
  tombstones and rehashing at a load factor, a \<^verbatim>\<open>float\<close>), STLMap and LibraryMap (the adapter over
  absl). Each refines a finite map; OpenMap also shows that rehashing keeps the map, that every
  probe ends, and how an insertion behind a tombstone duplicates a key; FixedMap that its
  \<open>insert\<close> adds an absent key and duplicates a present one.

  \<^bold>\<open>Queues\<close> (include/Queue.hpp). QueueSpec: the interface, the contracts (\<open>fifo_queue\<close>, \<open>polling_queue\<close>,
  \<open>bounded_queue\<close>, \<open>endless_queue\<close>) and sequences of calls as a client, whose every answer is that of
  a list with a bounded length. Ring: buffers addressed by
  counters that wrap. LockedQueue (with its threads and the condition variable as a step relation),
  SpscQueue (one call after another) and SpscConcurrent (the atomic accesses of the two threads
  interleaved), MpmcQueue (one call after another), MpmcConcurrent (the accesses of any number of
  threads interleaved) and MpmcProgress (every run of one thread alone in its call is bounded by the
  spurious failures in it, and ends; an uninterrupted call is a run of the step machine), LibraryQueue (the adapter over Boost).

  \<^bold>\<open>ConcurrentQueue\<close> (moodycamel/concurrentqueue.h, used by \<^verbatim>\<open>MoodycamelLockFreeQueue\<close>): the
  constructor and destructor, \<^verbatim>\<open>enqueue\<close>, \<^verbatim>\<open>try_dequeue\<close>, the bulk calls and the exit of threads. MoodyHeap:
  blocks of 32 elements, the free list, and who owns which block. MoodyIndex: the circular index in
  which a producer finds the block of an element, how it grows, and that lookups with wrapping
  counters and a signed division find the right block. MoodyProducer: enqueueing and dequeueing one
  element; with ghost counters that do not wrap they are an append and a removal at the head of a
  list. MoodyThreads: the hash of thread identifiers, the chain of hash tables with reusable slots,
  and that a thread keeps its producer and shares it with no other. MoodyQueue: the heuristic of
  \<^verbatim>\<open>try_dequeue\<close> over the producers. MoodyFifo: any sequence of calls by any threads, and the adapter
  as an interpretation of \<open>polling_queue\<close>. MoodyDestroy: the destructor, which destroys the elements
  that are left and gives back every block once. MoodyBulkDequeue and MoodyBulkEnqueue: many elements
  at once, a block at a time; enqueueing reserves its blocks first and undoes that if one is not to
  be had. MoodyCounters: the counters of one producer when its thread and any number of consumers
  are inside their calls at the same time; no index is handed out twice or before its element.

  \<^bold>\<open>Pools\<close> (include/MemoryPool.hpp). PoolSpec: the interface, the contracts (\<open>mem_pool\<close>,
  \<open>nullable_pool\<close>, \<open>guarded_pool\<close>, \<open>fatal_pool\<close>) and a client that gives back what it holds.
  StackPools (\<^verbatim>\<open>CustomLockedPool\<close> and \<^verbatim>\<open>CustomLockFreePool\<close>, the latter also with two threads
  interleaved), TaggedPool (\<^verbatim>\<open>LockFreeThreadSafePool\<close>) and TaggedConcurrent (any number of threads on
  it, interleaved at every access: the messages stay partitioned among the threads and the pool as
  long as the tag of the list head does not wrap), LibraryPool (Boost, Folly). Interleaving holds
  what this and other step machines share: runs, invariants of runs, sets of values no two threads
  have in common.

  \<^bold>\<open>Order book\<close> (include/OrderBook.hpp). OrderBook: levels of quantity per tick, over any hash map
  of the interface; the levels are the sums over the live orders and the best levels are extreme.

  \<^bold>\<open>Feed.\<close> Messages (include/Messages.hpp): the packed structs as bytes, with the place of every
  member. TradeStore (include/Utils.hpp): which files of a directory are read, parsing them and
  numbering the trades. TradeServer (include/TradeServer.hpp): the snapshot server's event loop, what
  it answers to the bytes each client writes, and what the multicast server sends; a send is the call
  of \<^verbatim>\<open>send\<close>, whose result the program does not use. SocketRaii (include/Socket.hpp):
  ownership of descriptors. TradeReceiver and Sequencer (include/TradeReceiver.hpp): the multicast
  receiver, the sequencer and the recovery of gaps, with the rounds of their loops as functions and
  what the network and the kernel do as inputs. DBManager (include/DBManager.hpp): batches, and
  transactions that store all of their rows or none; DBModes: its three loops store the same rows.
  AsyncLog (include/AsyncLogger.hpp) and AggSender (include/AggTradeMQSender.hpp): the logger and the
  publisher of averages.

  \<^bold>\<open>Composition.\<close> Pipeline puts the program of test/RunTradeReceiver.cpp together: receiver,
  sequencer and database writer as a step relation whose steps are rounds of one thread in any
  order, connected to the snapshot server's answers. The trades given to transactions, and those on
  their way, are a prefix of the server's trades, in order, without gap or repetition; the database
  holds the rows of exactly the committed transactions, so a prefix as long as none has failed (a
  failed one is not tried again: its batch is lost). One round of the sequencer closes a gap of any
  length if the recovery is not cut short. A run is followed up to the first round that fails; which
  rounds cannot fail is part of the property. AggSender connects the publisher to the queue,
  the pool and the logger it uses.

  \<^bold>\<open>Bounds and fuel.\<close> The loops over chains and probes are partial functions in the option monad and
  are shown to return on every well-formed table. The retry loops of \<^verbatim>\<open>compare_exchange_weak\<close> take
  the list of its spurious failures; one more round than that list is long is enough. The queue of
  Vyukov's kind compares counters as signed 64-bit numbers: its contract is for as many calls as
  keep the tail below \<open>2 ^ 63\<close> by the capacity. Event loops take the list of what the system calls
  report and are defined on every list. The loops over the hash tables of \<^verbatim>\<open>ConcurrentQueue\<close> have as
  many rounds as the table has slots, after which they would repeat, and \<^verbatim>\<open>malloc\<close> fails for more
  than \<open>2 ^ 63 - 1\<close> bytes, so that no capacity overflows. The rounds of the bulk calls are bounded by
  the blocks they need. What is shown of threads interleaved on the tagged pool is for less than
  \<open>2 ^ 32\<close> exchanges, and of the counters of \<^verbatim>\<open>ConcurrentQueue\<close> for less than \<open>2 ^ 63\<close> tickets.

  \<^bold>\<open>Not modelled.\<close> Of src/moodycamel/concurrentqueue.h, a copy of a third-party library: threads
  inside its calls at the same time, except for the counters of a producer; elements that throw when
  they are copied or moved; tokens and explicit producers, moving and swapping a queue, and its
  debugging code. The calls of the logger in other components than AggSender. The weak memory orders
  of the atomics: accesses are interleaved in one total order. The text of log messages and of what is
  printed on the console, the time stamps, sleeping and yielding. The database, the ZeroMQ socket,
  the file system and the kernel are inputs. The Python scripts, the containers and the build files
  are not part of the C++ program.
\<close>

end
